(* ===== verification/Prelude.thy ===== *)
theory Prelude
  imports Main "HOL-Library.Word" "HOL-Library.Monad_Syntax"
begin

text \<open>
  Shared vocabulary of the development: the C integer types of \<open>include/rtdef.h\<close> as
  machine words, the error codes and object classes, the alignment macros, the
  collections of simplification rules the component theories fill, and the generic
  facts on lists, options and words that their proofs share.

  An operation of the kernel that can halt the machine (a failed \<open>RT_ASSERT\<close> spins
  forever in \<open>rt_assert_handler\<close>, \<open>src/kservice.c\<close>) or that would index a table out of
  its bounds has an \<open>option\<close> result; \<open>None\<close> stands for that fault.
\<close>

unbundle bit_operations_syntax

named_theorems kdefs "definitions of the kernel primitives"
named_theorems kframe "fields a kernel operation leaves alone"
named_theorems kstat "thread state facts"

subsection \<open>C types and constants\<close>

type_synonym u8 = "8 word"
type_synonym u16 = "16 word"
type_synonym u32 = "32 word"
type_synonym rt_err_t = int

abbreviation (input) RT_EOK :: rt_err_t where "RT_EOK \<equiv> 0"
abbreviation (input) RT_ERROR :: rt_err_t where "RT_ERROR \<equiv> 1"
abbreviation (input) RT_ETIMEOUT :: rt_err_t where "RT_ETIMEOUT \<equiv> 2"
abbreviation (input) RT_EFULL :: rt_err_t where "RT_EFULL \<equiv> 3"
abbreviation (input) RT_EEMPTY :: rt_err_t where "RT_EEMPTY \<equiv> 4"
abbreviation (input) RT_ENOMEM :: rt_err_t where "RT_ENOMEM \<equiv> 5"
abbreviation (input) RT_ENOSYS :: rt_err_t where "RT_ENOSYS \<equiv> 6"
abbreviation (input) RT_EBUSY :: rt_err_t where "RT_EBUSY \<equiv> 7"
abbreviation (input) RT_EINTR :: rt_err_t where "RT_EINTR \<equiv> 9"

abbreviation (input) RT_TICK_MAX :: u32 where "RT_TICK_MAX \<equiv> 0xffffffff"

definition RT_ALIGN :: "'a::len word \<Rightarrow> 'a word \<Rightarrow> 'a word" where
  "RT_ALIGN sz align = (sz + align - 1) AND NOT (align - 1)"

definition RT_ALIGN_DOWN :: "'a::len word \<Rightarrow> 'a word \<Rightarrow> 'a word" where
  "RT_ALIGN_DOWN sz align = sz AND NOT (align - 1)"

abbreviation (input) RT_ALIGN_SIZE :: "'a::len word" where "RT_ALIGN_SIZE \<equiv> 4"

text \<open>\<open>RT_ASSERT\<close>: the computation goes on only when the condition holds.\<close>

definition rt_assert :: "bool \<Rightarrow> unit option" where
  "rt_assert P = (if P then Some () else None)"

lemma rt_assert_True [simp]: "rt_assert True = Some ()"
  by (simp add: rt_assert_def)

lemma rt_assert_eq_Some [simp]: "rt_assert P = Some u \<longleftrightarrow> P"
  by (simp add: rt_assert_def)

lemma rt_assert_holds: "P \<Longrightarrow> rt_assert P = Some ()"
  by (simp add: rt_assert_def)

lemma rt_assert_bind [simp]: "(rt_assert P \<bind> f) = (if P then f () else None)"
  by (simp add: rt_assert_def)

subsection \<open>Lists\<close>

lemma removeAll_hd: "distinct (x # xs) \<Longrightarrow> removeAll x (x # xs) = xs"
  by simp

lemma removeAll_eq_Nil_iff: "removeAll x xs = [] \<longleftrightarrow> set xs \<subseteq> {x}"
  by (induction xs) auto

lemma hd_in_set: "xs \<noteq> [] \<Longrightarrow> hd xs \<in> set xs"
  by simp

lemma nth_append_self: "(xs @ [y]) ! length xs = y"
  by simp

subsection \<open>Options\<close>

lemma bind_eq_SomeE:
  assumes "(m \<bind> f) = Some y"
  obtains x where "m = Some x" and "f x = Some y"
  using assms by (cases m) auto

lemma bind_Some_iff: "(m \<bind> f) = Some y \<longleftrightarrow> (\<exists>x. m = Some x \<and> f x = Some y)"
  by (cases m) auto

subsection \<open>Words\<close>

lemma bit_push_bit_1: "n < LENGTH('a) \<Longrightarrow> bit (push_bit m 1 :: 'a::len word) n \<longleftrightarrow> n = m"
  by (auto simp: bit_simps)

lemma word_neq_0_bit: "(w :: 'a::len word) \<noteq> 0 \<longleftrightarrow> (\<exists>n < LENGTH('a). bit w n)"
  by (auto simp: bit_eq_iff bit_imp_le_length)

lemma unat_less_2p: "unat (w :: 'a::len word) < 2 ^ LENGTH('a)"
  by (rule unsigned_less)

lemma unat_word_of_int:
  "0 \<le> k \<Longrightarrow> k < 2 ^ LENGTH('a) \<Longrightarrow> unat (word_of_int k :: 'a::len word) = nat k"
  by (simp add: unsigned_of_int take_bit_int_eq_self)

lemma uint_int_unat: "uint (w :: 'a::len word) = int (unat w)"
  by simp

lemma unat_ucast_le:
  "unat (w :: 'a::len word) < 2 ^ LENGTH('b) \<Longrightarrow> unat (ucast w :: 'b::len word) = unat w"
  by (simp add: unsigned_ucast_eq take_bit_nat_eq_self)

lemma unat_sint_nonneg:
  assumes "0 \<le> sint (w :: 'a::len word)"
  shows "unat w = nat (sint w)"
proof -
  have "sint w < 2 ^ LENGTH('a)"
    by (rule less_le_trans [OF sint_lt]) (rule power_increasing; simp)
  then have "uint w = sint w"
    using assms by (subst uint_sint) (simp add: take_bit_int_eq_self)
  then show ?thesis by (metis nat_int uint_int_unat)
qed

text \<open>The alignment macros at the alignment of the port: rounding down and up to a
  multiple of four.\<close>

lemma and_not_mask2: "(w :: 'a::len word) AND NOT (mask 2) = push_bit 2 (drop_bit 2 w)"
proof (rule bit_word_eqI)
  fix n
  have "2 \<le> n \<Longrightarrow> Suc (Suc (n - 2)) = n" by simp
  then show "n < LENGTH('a) \<Longrightarrow> bit (w AND NOT (mask 2)) n = bit (push_bit 2 (drop_bit 2 w)) n"
    by (auto simp: bit_simps not_less)
qed

lemma mask2_eq: "mask 2 = (3 :: 'a::len word)"
  by (simp add: mask_eq_exp_minus_1)

lemma unat_push_drop_2: "unat (push_bit 2 (drop_bit 2 (w :: 'a::len word))) = unat w div 4 * 4"
proof -
  have "unat w div 4 * 4 < 2 ^ LENGTH('a)"
    by (rule le_less_trans [OF _ unsigned_less [of w]]) simp
  then have "take_bit LENGTH('a) (push_bit 2 (drop_bit 2 (unat w))) = unat w div 4 * 4"
    by (simp add: push_bit_eq_mult drop_bit_eq_div take_bit_nat_eq_self)
  then show ?thesis by (simp only: unsigned_push_bit_eq unsigned_drop_bit_eq take_bit_nat_eq_self unat_less_2p)
qed

lemma ALIGN_DOWN_eq: "RT_ALIGN_DOWN (w :: 'a::len word) 4 = w AND NOT (mask 2)"
proof -
  have "4 - 1 = (3 :: 'a word)" by simp
  then show ?thesis unfolding RT_ALIGN_DOWN_def mask2_eq by (rule arg_cong)
qed

lemma ALIGN_eq: "RT_ALIGN (w :: 'a::len word) 4 = (w + 3) AND NOT (mask 2)"
proof -
  have "4 - 1 = (3 :: 'a word)" and "w + 4 - 1 = w + 3" by simp_all
  then show ?thesis unfolding RT_ALIGN_def mask2_eq by (simp only:)
qed

lemma unat_ALIGN_DOWN: "unat (RT_ALIGN_DOWN (w :: 'a::len word) 4) = unat w div 4 * 4"
  unfolding ALIGN_DOWN_eq and_not_mask2 by (rule unat_push_drop_2)

lemma unat_add_small:
  assumes "unat (v :: 'a::len word) + unat w < 2 ^ LENGTH('a)"
  shows "unat (v + w) = unat v + unat w"
  using assms by (simp add: unat_word_ariths)

lemma unat_ALIGN:
  assumes "unat (w :: 'a::len word) + 3 < 2 ^ LENGTH('a)" and "2 \<le> LENGTH('a)"
  shows "unat (RT_ALIGN w 4) = (unat w + 3) div 4 * 4"
proof -
  have "(2 :: nat) ^ 2 \<le> 2 ^ LENGTH('a)" using assms(2) by (rule power_increasing) simp
  then have "unat (3 :: 'a word) = 3" by (simp add: unsigned_numeral take_bit_nat_eq_self)
  then have "unat (w + 3) = unat w + 3" using assms unat_add_small [of w 3] by simp
  then show ?thesis unfolding ALIGN_eq and_not_mask2 unat_push_drop_2 by simp
qed

lemma unat_and_not_mask: "unat ((w :: 'a::len word) AND NOT (mask n)) = unat w div 2 ^ n * 2 ^ n"
proof -
  have "w = (w AND NOT (mask n)) + take_bit n w"
    by (subst disjunctive_add) (auto simp: bit_simps bit_eq_iff)
  then have "w - take_bit n w = w AND NOT (mask n)" by (metis add_diff_cancel_right')
  moreover have "unat (take_bit n w) = unat w mod 2 ^ n" by (simp add: unsigned_take_bit_eq flip: take_bit_eq_mod)
  moreover have "take_bit n w \<le> w" unfolding word_le_nat_alt calculation(2) by simp
  ultimately show ?thesis by (metis minus_mod_eq_div_mult unat_sub)
qed

lemma sint_small: "unat (w :: 'a::len word) < 2 ^ (LENGTH('a) - 1) \<Longrightarrow> sint w = int (unat w)"
proof -
  assume "unat w < 2 ^ (LENGTH('a) - 1)"
  then have "uint w < 2 ^ (LENGTH('a) - 1)" by (metis of_nat_less_iff of_nat_numeral of_nat_power of_nat_unat)
  moreover have "- (2 ^ (LENGTH('a) - 1)) \<le> uint w" using order_trans [of "- (2 ^ (LENGTH('a) - 1))" 0 "uint w"] by simp
  ultimately have "signed_take_bit (LENGTH('a) - 1) (uint w) = uint w"
    by (intro signed_take_bit_int_eq_self) 
  then show ?thesis by (simp add: sint_uint)
qed

end
