(* ===== verification/Fifo_Spec.thy ===== *)
theory Fifo_Spec
  imports Prelude
begin

text \<open>
  What a bounded first-in first-out buffer promises: \<open>bounded_fifo\<close> fixes the two
  operations a client calls and states their laws over the abstract contents. The
  client lemmas hold for every interleaving of puts and gets. The ring buffer of the
  device drivers, the mailbox and the message queue of the kernel interpret it.
  The file also holds the contiguous slices of an array the ring implementations use.
\<close>

subsection \<open>Slices of an array\<close>

definition window :: "nat \<Rightarrow> nat \<Rightarrow> 'a list \<Rightarrow> 'a list" where
  "window i j b = take (j - i) (drop i b)"

definition blk :: "nat \<Rightarrow> 'a list \<Rightarrow> 'a list \<Rightarrow> 'a list" where
  "blk i xs b = take i b @ xs @ drop (i + length xs) b"

lemma window_self [simp]: "window i i b = []"
  by (simp add: window_def)

lemma window_0 [simp]: "window 0 j b = take j b"
  by (simp add: window_def)

lemma window_empty: "j \<le> i \<Longrightarrow> window i j b = []"
  by (simp add: window_def)

lemma drop_take_window: "drop k (take w b) = window k w b"
  by (simp add: window_def drop_take)

lemma length_window [simp]: "j \<le> length b \<Longrightarrow> length (window i j b) = j - i"
  by (auto simp: window_def)

lemma window_append: "i \<le> j \<Longrightarrow> j \<le> k \<Longrightarrow> window i j b @ window j k b = window i k b"
proof -
  assume "i \<le> j" "j \<le> k"
  then have "k - i = (j - i) + (k - j)" and "j - i + i = j" by auto
  then show ?thesis unfolding window_def by (simp only: take_add drop_drop)
qed

lemma length_blk [simp]: "i + length xs \<le> length b \<Longrightarrow> length (blk i xs b) = length b"
  by (simp add: blk_def)

lemma nth_blk:
  "i + length xs \<le> length b \<Longrightarrow> k < length b \<Longrightarrow>
   blk i xs b ! k = (if k < i then b ! k else if k < i + length xs then xs ! (k - i) else b ! k)"
  by (auto simp: blk_def nth_append min_def)

lemma nth_window: "k < j - i \<Longrightarrow> j \<le> length b \<Longrightarrow> window i j b ! k = b ! (i + k)"
  by (simp add: window_def)

lemma window_blk_below:
  "i + length xs \<le> length b \<Longrightarrow> k \<le> i \<Longrightarrow> window j k (blk i xs b) = window j k b"
  by (rule nth_equalityI) (auto simp: nth_window nth_blk)

lemma window_blk_above:
  "i + length xs \<le> j \<Longrightarrow> k \<le> length b \<Longrightarrow> i + length xs \<le> length b \<Longrightarrow>
   window j k (blk i xs b) = window j k b"
  by (rule nth_equalityI) (auto simp: nth_window nth_blk)

lemma window_blk_end:
  "j \<le> i \<Longrightarrow> i + length xs \<le> length b \<Longrightarrow>
   window j (i + length xs) (blk i xs b) = window j i b @ xs"
  by (rule nth_equalityI) (auto simp: nth_window nth_blk nth_append add.commute)

lemma drop_window: "drop n (window i j b) = window (i + n) j b"
  by (simp add: window_def drop_take add.commute)

lemma take_window: "i + n \<le> j \<Longrightarrow> take n (window i j b) = window i (i + n) b"
  by (simp add: window_def min_def)

lemma blk_Nil [simp]: "blk i [] b = b"
  by (simp add: blk_def)

lemma blk_single: "i < length b \<Longrightarrow> blk i [x] b = b[i := x]"
  by (simp add: blk_def upd_conv_take_nth_drop)

text \<open>Positions in a ring of \<open>n\<close> slots.\<close>

lemma ring_inj:
  fixes a k e n :: nat
  assumes "a < n" "k < n" "e < n" "(a + k) mod n = (a + e) mod n"
  shows "k = e"
proof -
  have "(a + j) mod n = (if a + j < n then a + j else a + j - n)" if "j < n" for j
    using that assms(1) by (simp add: mod_if)
  then show ?thesis using assms by (auto split: if_splits)
qed

lemma ring_slots_inj:
  fixes a k e n :: nat
  assumes "k < n" "e < n" "(a + k) mod n = (a + e) mod n"
  shows "k = e"
proof (rule ring_inj [of "a mod n" n])
  show "(a mod n + k) mod n = (a mod n + e) mod n" using assms(3) by (simp only: mod_add_left_eq)
qed (use assms(1,2) in simp_all)

subsection \<open>Bounded queues\<close>

datatype 'a fifo_op = Put 'a | Get

text \<open>One client call: the state after it, the element a successful put stored and the
  element a successful get returned; and a sequence of calls.\<close>

fun fifo_call ::
  "('a \<Rightarrow> 's \<Rightarrow> 's option) \<Rightarrow> ('s \<Rightarrow> ('a \<times> 's) option) \<Rightarrow> 'a fifo_op \<Rightarrow> 's \<Rightarrow> 's \<times> 'a list \<times> 'a list" where
  "fifo_call put get (Put x) s = (case put x s of None \<Rightarrow> (s, [], []) | Some s' \<Rightarrow> (s', [x], []))"
| "fifo_call put get Get s = (case get s of None \<Rightarrow> (s, [], []) | Some (x, s') \<Rightarrow> (s', [], [x]))"

fun fifo_calls ::
  "('a \<Rightarrow> 's \<Rightarrow> 's option) \<Rightarrow> ('s \<Rightarrow> ('a \<times> 's) option) \<Rightarrow> 'a fifo_op list \<Rightarrow> 's \<Rightarrow> 's \<times> 'a list \<times> 'a list" where
  "fifo_calls put get [] s = (s, [], [])"
| "fifo_calls put get (c # cs) s =
     (let (s1, a1, g1) = fifo_call put get c s; (s2, a2, g2) = fifo_calls put get cs s1
      in (s2, a1 @ a2, g1 @ g2))"

locale bounded_fifo =
  fixes inv :: "'s \<Rightarrow> bool"
    and contents :: "'s \<Rightarrow> 'a list"
    and capacity :: "'s \<Rightarrow> nat"
    and put :: "'a \<Rightarrow> 's \<Rightarrow> 's option"
    and get :: "'s \<Rightarrow> ('a \<times> 's) option"
  assumes contents_le: "inv s \<Longrightarrow> length (contents s) \<le> capacity s"
    and put_full: "inv s \<Longrightarrow> length (contents s) = capacity s \<Longrightarrow> put x s = None"
    and put_room:
      "inv s \<Longrightarrow> length (contents s) < capacity s \<Longrightarrow>
       \<exists>s'. put x s = Some s' \<and> inv s' \<and> contents s' = contents s @ [x] \<and> capacity s' = capacity s"
    and get_empty: "inv s \<Longrightarrow> contents s = [] \<Longrightarrow> get s = None"
    and get_some:
      "inv s \<Longrightarrow> contents s = x # xs \<Longrightarrow>
       \<exists>s'. get s = Some (x, s') \<and> inv s' \<and> contents s' = xs \<and> capacity s' = capacity s"
begin

lemma call_fifo:
  assumes "inv s" and "fifo_call put get c s = (s', acc, got)"
  shows "inv s' \<and> capacity s' = capacity s \<and> got @ contents s' = contents s @ acc"
proof (cases c)
  case (Put x)
  show ?thesis
  proof (cases "length (contents s) = capacity s")
    case True
    with Put assms put_full [of s x] show ?thesis by auto
  next
    case False
    with contents_le assms(1) have "length (contents s) < capacity s" by (simp add: le_neq_implies_less)
    from put_room [OF assms(1) this, of x] Put assms show ?thesis by auto
  qed
next
  case Get
  show ?thesis
  proof (cases "contents s")
    case Nil
    with Get assms get_empty [of s] show ?thesis by auto
  next
    case (Cons x xs)
    from get_some [OF assms(1) this] Get Cons assms show ?thesis by auto
  qed
qed

text \<open>Over any sequence of calls no element is lost, duplicated or reordered: what the
  gets returned followed by what is left is what was there followed by what the
  successful puts stored.\<close>

lemma calls_fifo:
  assumes "inv s" and "fifo_calls put get cs s = (s', acc, got)"
  shows "inv s' \<and> capacity s' = capacity s \<and> got @ contents s' = contents s @ acc"
  using assms
proof (induction cs arbitrary: s s' acc got)
  case Nil
  then show ?case by simp
next
  case (Cons c cs)
  obtain s1 a1 g1 where c1: "fifo_call put get c s = (s1, a1, g1)" by (metis prod_cases3)
  obtain s2 a2 g2 where c2: "fifo_calls put get cs s1 = (s2, a2, g2)" by (metis prod_cases3)
  note step = call_fifo [OF Cons.prems(1) c1]
  then have "inv s2 \<and> capacity s2 = capacity s1 \<and> g2 @ contents s2 = contents s1 @ a2"
    using Cons.IH c2 by blast
  with step Cons.prems(2) c1 c2 show ?case by (simp add: Let_def) (metis append.assoc)
qed

lemma calls_bounded: "inv s \<Longrightarrow> fifo_calls put get cs s = (s', acc, got) \<Longrightarrow> length (contents s') \<le> capacity s"
  using calls_fifo contents_le by metis

end

end
