(* ===== verification/Ring_Buffer.thy ===== *)
theory Ring_Buffer
  imports Fifo_Spec
begin

text \<open>
  The byte ring buffer of \<open>components/drivers/src/ringbuffer.c\<close>. The structure keeps the
  widths of the C bit fields: a mirror bit and a 15 bit index for each side, and a
  signed 16 bit size. Index arithmetic is done in \<open>int\<close>, as the integer promotions of C
  do it, and truncated when it is stored. A copy that leaves the pool or the source
  array is \<open>None\<close>, so that every theorem with a \<open>Some\<close> result includes memory safety.
\<close>

record rt_ringbuffer =
  buffer_ptr :: "u8 list"
  read_mirror :: "1 word"
  read_index :: "15 word"
  write_mirror :: "1 word"
  write_index :: "15 word"
  buffer_size :: "16 word"

datatype rt_ringbuffer_state = RT_RINGBUFFER_EMPTY | RT_RINGBUFFER_FULL | RT_RINGBUFFER_HALFFULL

text \<open>\<open>memcpy\<close> between the pool and the array of the caller.\<close>

definition memcpy_out :: "u8 list \<Rightarrow> nat \<Rightarrow> nat \<Rightarrow> u8 list option" where
  "memcpy_out src i n = (if i + n \<le> length src then Some (take n (drop i src)) else None)"

definition memcpy_in :: "u8 list \<Rightarrow> nat \<Rightarrow> u8 list \<Rightarrow> u8 list option" where
  "memcpy_in dst i d =
     (if i + length d \<le> length dst then Some (take i dst @ d @ drop (i + length d) dst) else None)"

definition rt_ringbuffer_status :: "rt_ringbuffer \<Rightarrow> rt_ringbuffer_state" where
  "rt_ringbuffer_status rb =
     (if read_index rb = write_index rb
      then if read_mirror rb = write_mirror rb then RT_RINGBUFFER_EMPTY else RT_RINGBUFFER_FULL
      else RT_RINGBUFFER_HALFFULL)"

definition rt_ringbuffer_init :: "u8 list \<Rightarrow> 16 word \<Rightarrow> rt_ringbuffer option" where
  "rt_ringbuffer_init pool sz = do {
     rt_assert (0 < sint sz);
     Some \<lparr>buffer_ptr = pool, read_mirror = 0, read_index = 0, write_mirror = 0, write_index = 0,
           buffer_size = RT_ALIGN_DOWN sz RT_ALIGN_SIZE\<rparr>
   }"

definition rt_ringbuffer_data_len :: "rt_ringbuffer \<Rightarrow> u32" where
  "rt_ringbuffer_data_len rb =
     (case rt_ringbuffer_status rb of
        RT_RINGBUFFER_EMPTY \<Rightarrow> 0
      | RT_RINGBUFFER_FULL \<Rightarrow> scast (buffer_size rb)
      | RT_RINGBUFFER_HALFFULL \<Rightarrow>
          if write_index rb > read_index rb
          then word_of_int (uint (write_index rb) - uint (read_index rb))
          else word_of_int (sint (buffer_size rb) - (uint (read_index rb) - uint (write_index rb))))"

definition rt_ringbuffer_space_len :: "rt_ringbuffer \<Rightarrow> u32" where
  "rt_ringbuffer_space_len rb = scast (buffer_size rb) - rt_ringbuffer_data_len rb"

definition rt_ringbuffer_get_size :: "rt_ringbuffer \<Rightarrow> u16" where
  "rt_ringbuffer_get_size rb = buffer_size rb"

text \<open>Room in the pool from the write or the read index to its end, an \<open>int\<close> expression of
  the code.\<close>

definition write_room :: "rt_ringbuffer \<Rightarrow> int" where
  "write_room rb = sint (buffer_size rb) - uint (write_index rb)"

definition read_room :: "rt_ringbuffer \<Rightarrow> int" where
  "read_room rb = sint (buffer_size rb) - uint (read_index rb)"

text \<open>The copy of \<open>len\<close> bytes from \<open>ptr\<close>, in one or two pieces, with the update of the write
  index: the same statements in \<open>rt_ringbuffer_put\<close> and \<open>rt_ringbuffer_put_force\<close>.\<close>

definition ringbuffer_copy_in :: "rt_ringbuffer \<Rightarrow> u8 list \<Rightarrow> u16 \<Rightarrow> rt_ringbuffer option" where
  "ringbuffer_copy_in rb ptr len =
     (if write_room rb > uint len
      then do {
        d \<leftarrow> memcpy_out ptr 0 (unat len);
        b \<leftarrow> memcpy_in (buffer_ptr rb) (unat (write_index rb)) d;
        Some (rb\<lparr>buffer_ptr := b, write_index := word_of_int (uint (write_index rb) + uint len)\<rparr>)
      }
      else do {
        d1 \<leftarrow> memcpy_out ptr 0 (nat (write_room rb));
        b1 \<leftarrow> memcpy_in (buffer_ptr rb) (unat (write_index rb)) d1;
        d2 \<leftarrow> memcpy_out ptr (nat (write_room rb)) (nat (uint len - write_room rb));
        b2 \<leftarrow> memcpy_in b1 0 d2;
        Some (rb\<lparr>buffer_ptr := b2, write_mirror := NOT (write_mirror rb),
                 write_index := word_of_int (uint len - write_room rb)\<rparr>)
      })"

definition rt_ringbuffer_put ::
  "rt_ringbuffer \<Rightarrow> u8 list \<Rightarrow> u16 \<Rightarrow> (rt_ringbuffer \<times> u32) option" where
  "rt_ringbuffer_put rb ptr length0 =
     (let sz = ucast (rt_ringbuffer_space_len rb) :: u16 in
      if sz = 0 then Some (rb, 0)
      else
        let len = (if sz < length0 then sz else length0) in
        do { rb' \<leftarrow> ringbuffer_copy_in rb ptr len; Some (rb', ucast len) })"

definition rt_ringbuffer_put_force ::
  "rt_ringbuffer \<Rightarrow> u8 list \<Rightarrow> u16 \<Rightarrow> (rt_ringbuffer \<times> u32) option" where
  "rt_ringbuffer_put_force rb ptr0 length0 =
     (let space_length = ucast (rt_ringbuffer_space_len rb) :: u16;
          clip = uint length0 > sint (buffer_size rb);
          ptr = (if clip then drop (nat (uint length0 - sint (buffer_size rb))) ptr0 else ptr0);
          len = (if clip then buffer_size rb else length0)
      in do {
        rb1 \<leftarrow> ringbuffer_copy_in rb ptr len;
        let rb2 =
          (if len > space_length
           then if write_room rb > uint len
                then rb1\<lparr>read_index := write_index rb1\<rparr>
                else rb1\<lparr>read_mirror := NOT (read_mirror rb1), read_index := write_index rb1\<rparr>
           else rb1);
        Some (rb2, ucast len)
      })"

definition rt_ringbuffer_get ::
  "rt_ringbuffer \<Rightarrow> u16 \<Rightarrow> (rt_ringbuffer \<times> u8 list \<times> u32) option" where
  "rt_ringbuffer_get rb length0 =
     (let sz = rt_ringbuffer_data_len rb in
      if sz = 0 then Some (rb, [], 0)
      else
        let len = (if sz < ucast length0 then ucast sz else length0) in
        if read_room rb > uint len
        then do {
          d \<leftarrow> memcpy_out (buffer_ptr rb) (unat (read_index rb)) (unat len);
          Some (rb\<lparr>read_index := word_of_int (uint (read_index rb) + uint len)\<rparr>, d, ucast len)
        }
        else do {
          d1 \<leftarrow> memcpy_out (buffer_ptr rb) (unat (read_index rb)) (nat (read_room rb));
          d2 \<leftarrow> memcpy_out (buffer_ptr rb) 0 (nat (uint len - read_room rb));
          Some (rb\<lparr>read_mirror := NOT (read_mirror rb),
                   read_index := word_of_int (uint len - read_room rb)\<rparr>, d1 @ d2, ucast len)
        })"

text \<open>A store at the write index of a single byte, and the step of an index that
  \<open>putchar\<close>, \<open>putchar_force\<close> and \<open>getchar\<close> take.\<close>

definition poke :: "rt_ringbuffer \<Rightarrow> u8 \<Rightarrow> rt_ringbuffer option" where
  "poke rb ch =
     (if unat (write_index rb) < length (buffer_ptr rb)
      then Some (rb\<lparr>buffer_ptr := (buffer_ptr rb)[unat (write_index rb) := ch]\<rparr>) else None)"

definition rt_ringbuffer_putchar :: "rt_ringbuffer \<Rightarrow> u8 \<Rightarrow> (rt_ringbuffer \<times> u32) option" where
  "rt_ringbuffer_putchar rb ch =
     (if rt_ringbuffer_space_len rb = 0 then Some (rb, 0)
      else do {
        rb1 \<leftarrow> poke rb ch;
        Some (if uint (write_index rb) = sint (buffer_size rb) - 1
              then rb1\<lparr>write_mirror := NOT (write_mirror rb), write_index := 0\<rparr>
              else rb1\<lparr>write_index := write_index rb + 1\<rparr>, 1)
      })"

definition rt_ringbuffer_putchar_force :: "rt_ringbuffer \<Rightarrow> u8 \<Rightarrow> (rt_ringbuffer \<times> u32) option" where
  "rt_ringbuffer_putchar_force rb ch =
     (let old_state = rt_ringbuffer_status rb in
      do {
        rb1 \<leftarrow> poke rb ch;
        Some (if uint (write_index rb) = sint (buffer_size rb) - 1
              then let rb2 = rb1\<lparr>write_mirror := NOT (write_mirror rb), write_index := 0\<rparr> in
                   if old_state = RT_RINGBUFFER_FULL
                   then rb2\<lparr>read_mirror := NOT (read_mirror rb), read_index := write_index rb2\<rparr>
                   else rb2
              else let rb2 = rb1\<lparr>write_index := write_index rb + 1\<rparr> in
                   if old_state = RT_RINGBUFFER_FULL
                   then rb2\<lparr>read_index := write_index rb2\<rparr> else rb2, 1)
      })"

definition rt_ringbuffer_getchar :: "rt_ringbuffer \<Rightarrow> (rt_ringbuffer \<times> u8 option \<times> u32) option" where
  "rt_ringbuffer_getchar rb =
     (if rt_ringbuffer_data_len rb = 0 then Some (rb, None, 0)
      else if unat (read_index rb) < length (buffer_ptr rb)
      then Some (if uint (read_index rb) = sint (buffer_size rb) - 1
                 then rb\<lparr>read_mirror := NOT (read_mirror rb), read_index := 0\<rparr>
                 else rb\<lparr>read_index := read_index rb + 1\<rparr>,
                 Some (buffer_ptr rb ! unat (read_index rb)), 1)
      else None)"

definition rt_ringbuffer_reset :: "rt_ringbuffer \<Rightarrow> rt_ringbuffer" where
  "rt_ringbuffer_reset rb = rb\<lparr>read_mirror := 0, read_index := 0, write_mirror := 0, write_index := 0\<rparr>"

text \<open>\<open>rt_ringbuffer_create\<close> allocates the structure and the pool; what \<open>rt_malloc\<close> answers is
  an argument. The inner \<open>option\<close> of the result is the returned pointer.\<close>

definition rt_ringbuffer_create ::
  "bool \<Rightarrow> (u16 \<Rightarrow> u8 list option) \<Rightarrow> u16 \<Rightarrow> rt_ringbuffer option option" where
  "rt_ringbuffer_create rb_ok malloc_pool sz = do {
     rt_assert (0 < sz);
     let sz' = RT_ALIGN_DOWN sz RT_ALIGN_SIZE;
     if \<not> rb_ok then Some None
     else case malloc_pool sz' of
            None \<Rightarrow> Some None
          | Some pool \<Rightarrow> do { rb \<leftarrow> rt_ringbuffer_init pool sz'; Some (Some rb) }
   }"

subsection \<open>Invariant and abstract contents\<close>

abbreviation rb_n :: "rt_ringbuffer \<Rightarrow> nat" where "rb_n rb \<equiv> nat (sint (buffer_size rb))"
abbreviation rb_r :: "rt_ringbuffer \<Rightarrow> nat" where "rb_r rb \<equiv> unat (read_index rb)"
abbreviation rb_w :: "rt_ringbuffer \<Rightarrow> nat" where "rb_w rb \<equiv> unat (write_index rb)"

definition rb_inv :: "rt_ringbuffer \<Rightarrow> bool" where
  "rb_inv rb \<longleftrightarrow>
     0 < sint (buffer_size rb) \<and> rb_n rb \<le> length (buffer_ptr rb) \<and> rb_r rb < rb_n rb \<and> rb_w rb < rb_n rb \<and>
     (if read_mirror rb = write_mirror rb then rb_r rb \<le> rb_w rb else rb_w rb \<le> rb_r rb)"

definition rb_contents :: "rt_ringbuffer \<Rightarrow> u8 list" where
  "rb_contents rb =
     (if read_mirror rb = write_mirror rb then window (rb_r rb) (rb_w rb) (buffer_ptr rb)
      else window (rb_r rb) (rb_n rb) (buffer_ptr rb) @ take (rb_w rb) (buffer_ptr rb))"

lemma mirror_cases: "(a :: 1 word) = 0 \<or> a = 1"
proof -
  have "unat a < 2" using unat_less_2p [of a] by simp
  then have "unat a = unat (0 :: 1 word) \<or> unat a = unat (1 :: 1 word)" by auto
  then show ?thesis by (simp add: word_unat_eq_iff)
qed

lemma not_mirror [simp]: "NOT (a :: 1 word) \<noteq> a" "a \<noteq> NOT (a :: 1 word)"
  using mirror_cases [of a] by auto

lemma mirror_neq: "(a :: 1 word) \<noteq> b \<Longrightarrow> NOT b = a"
  using mirror_cases [of a] mirror_cases [of b] by auto

lemma mirror_not_eq_iff [simp]:
  "(NOT (a :: 1 word) = b) \<longleftrightarrow> a \<noteq> b" "(a = NOT (b :: 1 word)) \<longleftrightarrow> a \<noteq> b"
  using mirror_cases [of a] mirror_cases [of b] by auto

lemma rb_n_bound: "rb_n rb < 2 ^ 15"
  using sint_lt [of "buffer_size rb"] by simp

lemma rb_inv_facts:
  assumes "rb_inv rb"
  shows "sint (buffer_size rb) = int (rb_n rb)" "0 < rb_n rb" "rb_n rb < 32768"
    "rb_n rb \<le> length (buffer_ptr rb)" "rb_r rb < rb_n rb" "rb_w rb < rb_n rb"
    "read_mirror rb = write_mirror rb \<Longrightarrow> rb_r rb \<le> rb_w rb"
    "read_mirror rb \<noteq> write_mirror rb \<Longrightarrow> rb_w rb \<le> rb_r rb"
  using assms rb_n_bound [of rb] by (auto simp: rb_inv_def split: if_splits)

text \<open>The three numbers of a buffer as naturals, with the readings of the fields.\<close>

lemma rb_view:
  assumes "rb_inv rb"
  obtains n r w where "sint (buffer_size rb) = int n" "unat (read_index rb) = r"
    "uint (read_index rb) = int r" "unat (write_index rb) = w" "uint (write_index rb) = int w"
    "0 < n" "n < 32768" "n \<le> length (buffer_ptr rb)" "r < n" "w < n"
    "read_mirror rb = write_mirror rb \<Longrightarrow> r \<le> w" "read_mirror rb \<noteq> write_mirror rb \<Longrightarrow> w \<le> r"
proof
  show "sint (buffer_size rb) = int (rb_n rb)" using rb_inv_facts(1) [OF assms] .
  show "uint (read_index rb) = int (unat (read_index rb))"
    "uint (write_index rb) = int (unat (write_index rb))" by simp_all
qed (use rb_inv_facts [OF assms] in auto)

lemma length_contents:
  "rb_inv rb \<Longrightarrow> length (rb_contents rb) =
     (if read_mirror rb = write_mirror rb then rb_w rb - rb_r rb else rb_n rb - rb_r rb + rb_w rb)"
  by (erule rb_view) (auto simp: rb_contents_def min_def)

lemma contents_bound: "rb_inv rb \<Longrightarrow> length (rb_contents rb) \<le> rb_n rb"
  by (frule length_contents, erule rb_view) auto

lemma index_eq_iff: "read_index rb = write_index rb \<longleftrightarrow> rb_r rb = rb_w rb"
  by (simp add: word_unat_eq_iff)

lemma data_len_eq:
  assumes "rb_inv rb"
  shows "rt_ringbuffer_data_len rb = word_of_int (int (length (rb_contents rb)))"
  using assms
proof (rule rb_view)
  fix n r w
  assume v: "sint (buffer_size rb) = int n" "unat (read_index rb) = r"
    "uint (read_index rb) = int r" "unat (write_index rb) = w" "uint (write_index rb) = int w"
    "r < n" "w < n" "read_mirror rb = write_mirror rb \<Longrightarrow> r \<le> w"
    "read_mirror rb \<noteq> write_mirror rb \<Longrightarrow> w \<le> r"
  have full: "scast (buffer_size rb) = (word_of_int (int n) :: u32)" by (simp add: scast_eq v)
  show ?thesis
    using v(6-9)
    by (auto simp: rt_ringbuffer_data_len_def length_contents [OF assms] rt_ringbuffer_status_def
        index_eq_iff full v(1-5) word_less_nat_alt of_nat_diff)
qed

lemma data_len_unat:
  "rb_inv rb \<Longrightarrow> unat (rt_ringbuffer_data_len rb) = length (rb_contents rb)"
  using contents_bound [of rb] rb_n_bound [of rb]
  by (simp only: data_len_eq) (subst unat_word_of_int; simp)

lemma space_len_unat:
  assumes "rb_inv rb"
  shows "unat (rt_ringbuffer_space_len rb) = rb_n rb - length (rb_contents rb)"
proof -
  note F = rb_inv_facts [OF assms]
  have "unat (scast (buffer_size rb) :: u32) = rb_n rb"
    using F(2,3) unfolding scast_eq by (subst unat_word_of_int) auto
  then show ?thesis
    using contents_bound [OF assms] data_len_unat [OF assms]
    unfolding rt_ringbuffer_space_len_def
    by (subst unat_sub) (simp_all only: word_le_nat_alt)
qed

subsection \<open>Copying in\<close>

lemma copy_in_eq:
  assumes "rb_inv rb" and "unat len \<le> rb_n rb" and "unat len \<le> length ptr"
  shows "ringbuffer_copy_in rb ptr len =
    Some (if rb_w rb + unat len < rb_n rb
          then rb\<lparr>buffer_ptr := blk (rb_w rb) (take (unat len) ptr) (buffer_ptr rb),
                  write_index := of_nat (rb_w rb + unat len)\<rparr>
          else rb\<lparr>buffer_ptr := blk 0 (window (rb_n rb - rb_w rb) (unat len) ptr)
                     (blk (rb_w rb) (take (rb_n rb - rb_w rb) ptr) (buffer_ptr rb)),
                  write_mirror := NOT (write_mirror rb),
                  write_index := of_nat (rb_w rb + unat len - rb_n rb)\<rparr>)"
  using assms(1)
proof (rule rb_view)
  fix n r w
  assume v: "sint (buffer_size rb) = int n" "unat (write_index rb) = w"
    "uint (write_index rb) = int w" "n \<le> length (buffer_ptr rb)" "w < n"
  define l where "l = unat len"
  have l: "unat len = l" "uint len = int l" "l \<le> n" "l \<le> length ptr"
    using assms v(1) by (auto simp: l_def)
  have room: "write_room rb = int n - int w" by (simp add: write_room_def v)
  show ?thesis
  proof (cases "w + l < n")
    case True
    then show ?thesis
      using v l by (simp add: ringbuffer_copy_in_def room memcpy_out_def memcpy_in_def blk_def)
  next
    case False
    obtain k1 where n: "n = w + k1" using less_imp_le [OF v(5)] le_Suc_ex by blast
    then obtain k2 where k: "l = k1 + k2" using False le_Suc_ex [of k1 l] by auto
    have r: "write_room rb = int k1" "\<not> int l < int k1" "int l - int k1 = int k2" "nat (int k1) = k1"
      "nat (int k2) = k2" "w + l - n = k2" "n - w = k1" "l - k1 = k2"
      using room n k by auto
    have "k2 \<le> length (buffer_ptr rb)" "k1 \<le> length ptr" "w + k1 \<le> length (buffer_ptr rb)"
      "k1 + k2 \<le> length ptr"
      using v l n k by auto
    then show ?thesis
      using False r(2)
      by (simp add: ringbuffer_copy_in_def l(1,2) v(1-3) r memcpy_out_def memcpy_in_def blk_def window_def
          del: of_nat_add of_nat_diff)
  qed
qed

lemma unat_of_nat_15: "k < 32768 \<Longrightarrow> unat (of_nat k :: 15 word) = k"
  by (simp add: unat_of_nat)

lemma take_window_append: "k \<le> l \<Longrightarrow> l \<le> length xs \<Longrightarrow> take k xs @ window k l xs = take l xs"
  using window_append [of 0 k l xs] by simp

lemma copy_in_contents:
  assumes inv: "rb_inv rb" and room: "unat len \<le> rb_n rb - length (rb_contents rb)"
    and ptr: "unat len \<le> length ptr"
  shows "\<exists>rb'. ringbuffer_copy_in rb ptr len = Some rb' \<and> rb_inv rb' \<and>
    rb_contents rb' = rb_contents rb @ take (unat len) ptr \<and> buffer_size rb' = buffer_size rb"
  using inv
proof (rule rb_view)
  fix n r w
  assume v: "sint (buffer_size rb) = int n" "unat (read_index rb) = r" "unat (write_index rb) = w"
    "n < 32768" "n \<le> length (buffer_ptr rb)" "r < n" "w < n"
    "read_mirror rb = write_mirror rb \<Longrightarrow> r \<le> w" "read_mirror rb \<noteq> write_mirror rb \<Longrightarrow> w \<le> r"
  define l where "l = unat len"
  have len: "unat len = l" by (simp add: l_def)
  have l: "l \<le> n" "l \<le> length ptr" and
    space: "l \<le> n - (if read_mirror rb = write_mirror rb then w - r else n - r + w)"
    using room ptr v by (auto simp: l_def length_contents [OF inv])
  note eq = copy_in_eq [OF inv, of len ptr, unfolded v(1,3) len nat_int, OF l]
  show ?thesis
  proof (cases "w + l < n")
    case True
    let ?b = "blk w (take l ptr) (buffer_ptr rb)"
    have "window r (w + l) ?b = window r w (buffer_ptr rb) @ take l ptr" if "r \<le> w"
      using window_blk_end [OF that, of "take l ptr" "buffer_ptr rb"] True v l by simp
    moreover have "take (w + l) ?b = take w (buffer_ptr rb) @ take l ptr"
      using window_blk_end [of 0 w "take l ptr" "buffer_ptr rb"] True v l by simp
    moreover have "window r n ?b = window r n (buffer_ptr rb)" if "w + l \<le> r"
      using window_blk_above [of w "take l ptr" r n "buffer_ptr rb"] that True v l by simp
    ultimately show ?thesis
      using True v l space len unfolding eq
      by (auto simp: rb_inv_def rb_contents_def unat_of_nat_15 simp del: of_nat_add of_nat_diff)
  next
    case False
    with space v have m: "read_mirror rb = write_mirror rb" and rw: "r \<le> w" "w + l - n \<le> r"
      by (auto split: if_splits)
    let ?b1 = "blk w (take (n - w) ptr) (buffer_ptr rb)"
    let ?ys = "window (n - w) l ptr"
    have ys: "length ?ys = w + l - n" and lb: "length ?b1 = length (buffer_ptr rb)"
      using False l v by auto
    have "window r n (blk 0 ?ys ?b1) = window r w (buffer_ptr rb) @ take (n - w) ptr"
      using window_blk_above [of 0 ?ys r n ?b1] window_blk_end [OF rw(1), of "take (n - w) ptr" "buffer_ptr rb"]
        ys lb rw v False l by simp
    moreover have "take (w + l - n) (blk 0 ?ys ?b1) = ?ys"
      using window_blk_end [of 0 0 ?ys ?b1] ys lb v l by simp
    moreover have "take (n - w) ptr @ ?ys = take l ptr"
      using False l by (intro take_window_append) auto
    ultimately show ?thesis
      using False v l len m rw lb ys unfolding eq
      by (auto simp: rb_inv_def rb_contents_def unat_of_nat_15 simp del: of_nat_add of_nat_diff)
  qed
qed

subsection \<open>Block and byte operations\<close>

lemma unat_space_u16:
  "rb_inv rb \<Longrightarrow> unat (ucast (rt_ringbuffer_space_len rb) :: u16) = rb_n rb - length (rb_contents rb)"
  using space_len_unat [of rb] rb_n_bound [of rb] by (subst unat_ucast_le) auto

lemma unat_u16_u32: "unat (ucast (x :: u16) :: u32) = unat x"
  by (rule unat_ucast_le) (use unat_less_2p [of x] in simp)

lemma put_refines:
  assumes inv: "rb_inv rb" and ptr: "unat len0 \<le> length ptr"
    and n: "n = min (unat len0) (rb_n rb - length (rb_contents rb))"
  shows "\<exists>rb' k. rt_ringbuffer_put rb ptr len0 = Some (rb', k) \<and> unat k = n \<and> rb_inv rb' \<and>
    rb_contents rb' = rb_contents rb @ take n ptr \<and> buffer_size rb' = buffer_size rb"
proof -
  let ?sz = "ucast (rt_ringbuffer_space_len rb) :: u16"
  let ?len = "if ?sz < len0 then ?sz else len0"
  have sz: "unat ?sz = rb_n rb - length (rb_contents rb)" by (rule unat_space_u16 [OF inv])
  have len: "unat ?len = n" using sz n by (simp add: word_less_nat_alt min_def)
  show ?thesis
  proof (cases "?sz = 0")
    case True
    then have "n = 0" using sz n by simp
    with True inv show ?thesis by (simp add: rt_ringbuffer_put_def)
  next
    case False
    obtain rb' where "ringbuffer_copy_in rb ptr ?len = Some rb'" "rb_inv rb'"
      "rb_contents rb' = rb_contents rb @ take (unat ?len) ptr" "buffer_size rb' = buffer_size rb"
      using copy_in_contents [OF inv, of ?len ptr] len n ptr by force
    with False len show ?thesis
      by (simp add: rt_ringbuffer_put_def Let_def unat_u16_u32 del: unsigned_ucast_eq)
  qed
qed

lemma putchar_copy_in:
  assumes inv: "rb_inv rb"
  shows "rt_ringbuffer_putchar rb ch =
    (if rt_ringbuffer_space_len rb = 0 then Some (rb, 0)
     else map_option (\<lambda>rb'. (rb', 1)) (ringbuffer_copy_in rb [ch] 1))"
  using inv
proof (rule rb_view)
  fix n w
  assume v: "sint (buffer_size rb) = int n" "unat (write_index rb) = w"
    "uint (write_index rb) = int w" "0 < n" "n \<le> length (buffer_ptr rb)" "w < n"
  have i1: "write_index rb + 1 = of_nat (w + 1)" using v(2) by auto
  show ?thesis
  proof (cases "Suc w < n")
    case True
    then show ?thesis
      using v i1 by (simp add: rt_ringbuffer_putchar_def poke_def copy_in_eq [OF inv] blk_single add.commute)
  next
    case False
    then have "n = Suc w" using v by simp
    moreover have "nat (1 + int w) = Suc w" by simp
    ultimately show ?thesis
      using v by (simp add: rt_ringbuffer_putchar_def poke_def copy_in_eq [OF inv] blk_single)
  qed
qed

lemma putchar_refines:
  assumes inv: "rb_inv rb"
  shows "length (rb_contents rb) = rb_n rb \<Longrightarrow> rt_ringbuffer_putchar rb ch = Some (rb, 0)"
    and "length (rb_contents rb) < rb_n rb \<Longrightarrow>
      \<exists>rb'. rt_ringbuffer_putchar rb ch = Some (rb', 1) \<and> rb_inv rb' \<and>
        rb_contents rb' = rb_contents rb @ [ch] \<and> buffer_size rb' = buffer_size rb"
proof -
  have sp: "rt_ringbuffer_space_len rb = 0 \<longleftrightarrow> rb_n rb \<le> length (rb_contents rb)"
    using space_len_unat [OF inv] by (auto simp: word_unat_eq_iff)
  show "length (rb_contents rb) = rb_n rb \<Longrightarrow> rt_ringbuffer_putchar rb ch = Some (rb, 0)"
    using sp by (simp add: putchar_copy_in [OF inv])
  show "length (rb_contents rb) < rb_n rb \<Longrightarrow>
      \<exists>rb'. rt_ringbuffer_putchar rb ch = Some (rb', 1) \<and> rb_inv rb' \<and>
        rb_contents rb' = rb_contents rb @ [ch] \<and> buffer_size rb' = buffer_size rb"
    using sp copy_in_contents [OF inv, of 1 "[ch]"] by (auto simp: putchar_copy_in [OF inv])
qed

text \<open>Moving the read index by \<open>l\<close> bytes, the effect of \<open>get\<close> and \<open>getchar\<close>.\<close>

definition rb_advance :: "nat \<Rightarrow> rt_ringbuffer \<Rightarrow> rt_ringbuffer" where
  "rb_advance l rb =
     (if rb_r rb + l < rb_n rb then rb\<lparr>read_index := of_nat (rb_r rb + l)\<rparr>
      else rb\<lparr>read_mirror := NOT (read_mirror rb), read_index := of_nat (rb_r rb + l - rb_n rb)\<rparr>)"

lemma advance_contents:
  assumes inv: "rb_inv rb" and l: "l \<le> length (rb_contents rb)"
  shows "rb_inv (rb_advance l rb)" "rb_contents (rb_advance l rb) = drop l (rb_contents rb)"
    "take l (rb_contents rb) =
       (if rb_r rb + l < rb_n rb then window (rb_r rb) (rb_r rb + l) (buffer_ptr rb)
        else window (rb_r rb) (rb_n rb) (buffer_ptr rb) @ take (rb_r rb + l - rb_n rb) (buffer_ptr rb))"
proof (atomize (full), rule rb_view [OF inv])
  fix n r w
  assume v: "sint (buffer_size rb) = int n" "unat (read_index rb) = r" "unat (write_index rb) = w"
    "n < 32768" "n \<le> length (buffer_ptr rb)" "r < n" "w < n"
    "read_mirror rb = write_mirror rb \<Longrightarrow> r \<le> w" "read_mirror rb \<noteq> write_mirror rb \<Longrightarrow> w \<le> r"
  have l': "l \<le> (if read_mirror rb = write_mirror rb then w - r else n - r + w)"
    using l v unfolding length_contents [OF inv] by (auto split: if_splits)
  have i: "unat (of_nat (r + l) :: 15 word) = r + l" if "r + l < n"
    using that v by (intro unat_of_nat_15) simp
  have j: "unat (of_nat (r + l - n) :: 15 word) = r + l - n"
    using v l' by (intro unat_of_nat_15) (simp split: if_splits)
  show "rb_inv (rb_advance l rb) \<and> rb_contents (rb_advance l rb) = drop l (rb_contents rb) \<and>
    take l (rb_contents rb) =
       (if rb_r rb + l < rb_n rb then window (rb_r rb) (rb_r rb + l) (buffer_ptr rb)
        else window (rb_r rb) (rb_n rb) (buffer_ptr rb) @ take (rb_r rb + l - rb_n rb) (buffer_ptr rb))"
    using v l' i j
    by (auto simp: rb_advance_def rb_inv_def rb_contents_def drop_window take_window
        drop_take_window window_empty add.commute [of l] simp del: of_nat_add of_nat_diff)
qed

lemma get_eq_advance:
  assumes inv: "rb_inv rb" and l: "l = min (unat len0) (length (rb_contents rb))"
  shows "rt_ringbuffer_get rb len0 =
    Some (if rb_contents rb = [] then rb else rb_advance l rb, take l (rb_contents rb), of_nat l)"
proof (cases "rb_contents rb = []")
  case True
  then have "rt_ringbuffer_data_len rb = 0" using data_len_eq [OF inv] by simp
  with True l show ?thesis by (simp add: rt_ringbuffer_get_def)
next
  case False
  let ?sz = "rt_ringbuffer_data_len rb"
  let ?len = "if ?sz < ucast len0 then ucast ?sz else len0 :: u16"
  have sz: "unat ?sz = length (rb_contents rb)" by (rule data_len_unat [OF inv])
  then have nz: "?sz \<noteq> 0" using False by auto
  have "unat (ucast ?sz :: u16) = length (rb_contents rb)"
    using sz contents_bound [OF inv] rb_n_bound [of rb] by (subst unat_ucast_le) auto
  then have len: "unat ?len = l"
    using sz l by (simp add: word_less_nat_alt unat_u16_u32 min_def)
  have ret: "ucast ?len = (of_nat l :: u32)" using len by (metis of_nat_unat)
  have lc: "l \<le> length (rb_contents rb)" using l by simp
  note adv = advance_contents(3) [OF inv lc]
  show ?thesis
    using inv
  proof (rule rb_view)
    fix n r w
    assume v: "sint (buffer_size rb) = int n" "unat (read_index rb) = r"
      "uint (read_index rb) = int r" "n \<le> length (buffer_ptr rb)" "r < n"
    have ul: "uint ?len = int l" using len by (metis uint_int_unat)
    have rr: "read_room rb = int n - int r" by (simp add: read_room_def v)
    have ln: "l \<le> n" using lc contents_bound [OF inv] v by simp
    show ?thesis
    proof (cases "r + l < n")
      case True
      then show ?thesis
        using nz False v ln unfolding rt_ringbuffer_get_def adv
        by (simp add: Let_def ul len ret rr memcpy_out_def rb_advance_def window_def)
    next
      case F: False
      obtain k1 where n: "n = r + k1" using less_imp_le [OF v(5)] le_Suc_ex by blast
      then obtain k2 where k: "l = k1 + k2" using F le_Suc_ex [of k1 l] by auto
      have "k2 \<le> length (buffer_ptr rb)" using ln v k n by simp
      moreover have "nat (int r + int k1) = r + k1" by simp
      ultimately show ?thesis
        using nz False F v ln n k unfolding rt_ringbuffer_get_def adv
        by (simp add: Let_def ul len ret rr memcpy_out_def rb_advance_def window_def)
    qed
  qed
qed

lemma getchar_eq_advance:
  assumes inv: "rb_inv rb"
  shows "rt_ringbuffer_getchar rb =
    Some (case rb_contents rb of [] \<Rightarrow> (rb, None, 0) | c # cs \<Rightarrow> (rb_advance 1 rb, Some c, 1))"
proof (cases "rb_contents rb")
  case Nil
  then have "rt_ringbuffer_data_len rb = 0" using data_len_eq [OF inv] by simp
  with Nil show ?thesis by (simp add: rt_ringbuffer_getchar_def)
next
  case (Cons c cs)
  then have nz: "rt_ringbuffer_data_len rb \<noteq> 0" using data_len_unat [OF inv] by auto
  show ?thesis
    using inv
  proof (rule rb_view)
    fix n r w
    assume v: "sint (buffer_size rb) = int n" "unat (read_index rb) = r"
      "uint (read_index rb) = int r" "unat (write_index rb) = w"
      "n \<le> length (buffer_ptr rb)" "r < n" "w < n"
      "read_mirror rb = write_mirror rb \<Longrightarrow> r \<le> w"
    have i1: "read_index rb + 1 = of_nat (r + 1)" using v(2) by auto
    have "r < w \<or> read_mirror rb \<noteq> write_mirror rb"
      using Cons v length_contents [OF inv] by (auto split: if_splits)
    then have "rb_contents rb ! 0 = buffer_ptr rb ! r"
      using v by (auto simp: rb_contents_def nth_window nth_append)
    then have c: "buffer_ptr rb ! r = c" using Cons by simp
    show ?thesis
      using v c i1 nz Cons by (auto simp: rt_ringbuffer_getchar_def rb_advance_def)
  qed
qed

subsection \<open>Overwriting puts\<close>

definition keep_last :: "nat \<Rightarrow> 'a list \<Rightarrow> 'a list" where
  "keep_last n xs = drop (length xs - n) xs"

lemma keep_last_short: "length xs \<le> n \<Longrightarrow> keep_last n xs = xs"
  by (simp add: keep_last_def)

lemma keep_last_append_drop:
  "n \<le> length ys \<Longrightarrow> keep_last n (xs @ drop (length ys - n) ys) = keep_last n (xs @ ys)"
  by (simp add: keep_last_def)

text \<open>The state after the copy, when the read index is set to the write index.\<close>

lemma copy_in_overwrite:
  assumes inv: "rb_inv rb" and m: "read_mirror rb \<noteq> write_mirror rb"
    and len: "rb_n rb - length (rb_contents rb) < unat len" "unat len \<le> rb_n rb" "unat len \<le> length ptr"
    and eq: "ringbuffer_copy_in rb ptr len = Some rb1"
    and rb2: "rb2 = (if write_room rb > uint len then rb1\<lparr>read_index := write_index rb1\<rparr>
      else rb1\<lparr>read_mirror := NOT (read_mirror rb1), read_index := write_index rb1\<rparr>)"
  shows "rb_inv rb2 \<and> buffer_size rb2 = buffer_size rb \<and>
    rb_contents rb2 = keep_last (rb_n rb) (rb_contents rb @ take (unat len) ptr)"
  using inv
proof (rule rb_view)
  fix n r w
  assume v: "sint (buffer_size rb) = int n" "unat (read_index rb) = r" "unat (write_index rb) = w"
    "uint (write_index rb) = int w"
    "n < 32768" "n \<le> length (buffer_ptr rb)" "r < n" "w < n" "read_mirror rb \<noteq> write_mirror rb \<Longrightarrow> w \<le> r"
  define l where "l = unat len"
  have ll: "unat len = l" "uint len = int l" by (simp_all add: l_def)
  have l: "l \<le> n" "l \<le> length ptr" and wr: "w \<le> r" and lr: "r < w + l"
    using len v m by (auto simp: l_def length_contents [OF inv])
  have room: "write_room rb > uint len \<longleftrightarrow> w + l < n" by (auto simp: write_room_def v ll)
  have old: "rb_contents rb = window r n (buffer_ptr rb) @ take w (buffer_ptr rb)"
    using m v by (simp add: rb_contents_def)
  have drops: "keep_last n (rb_contents rb @ take l ptr) =
      drop (w + l - r) (window r n (buffer_ptr rb) @ take w (buffer_ptr rb)) @ take l ptr"
    using v l lr wr by (simp add: keep_last_def old)
  note eq' = copy_in_eq [OF inv, of len ptr, unfolded v(1,3) ll nat_int, OF l]
  show ?thesis
  proof (cases "w + l < n")
    case True
    let ?b = "blk w (take l ptr) (buffer_ptr rb)"
    have "take (w + l) ?b = take w (buffer_ptr rb) @ take l ptr"
      using window_blk_end [of 0 w "take l ptr" "buffer_ptr rb"] True v l by simp
    moreover have "window (w + l) n ?b = window (w + l) n (buffer_ptr rb)"
      using window_blk_above [of w "take l ptr" "w + l" n "buffer_ptr rb"] True v l by simp
    moreover have "rb2 = rb\<lparr>buffer_ptr := ?b, write_index := of_nat (w + l), read_index := of_nat (w + l)\<rparr>"
      using eq eq' rb2 room True by auto
    ultimately show ?thesis
      using True v l wr lr m drops
      by (simp add: rb_inv_def rb_contents_def ll unat_of_nat_15 drop_window del: of_nat_add)
  next
    case False
    let ?b1 = "blk w (take (n - w) ptr) (buffer_ptr rb)"
    let ?ys = "window (n - w) l ptr"
    have ys: "length ?ys = w + l - n" and lb: "length ?b1 = length (buffer_ptr rb)"
      using False l v by auto
    have "window (w + l - n) n (blk 0 ?ys ?b1) = window (w + l - n) w (buffer_ptr rb) @ take (n - w) ptr"
      using window_blk_above [of 0 ?ys "w + l - n" n ?b1]
        window_blk_end [of "w + l - n" w "take (n - w) ptr" "buffer_ptr rb"] ys lb v False l by simp
    moreover have "take (w + l - n) (blk 0 ?ys ?b1) = ?ys"
      using window_blk_end [of 0 0 ?ys ?b1] ys lb v l by simp
    moreover have "take (n - w) ptr @ ?ys = take l ptr"
      using False l by (intro take_window_append) auto
    moreover have "drop (w + l - n) (take w (buffer_ptr rb)) = window (w + l - n) w (buffer_ptr rb)"
      by (simp add: window_def drop_take)
    moreover have "rb2 = rb\<lparr>buffer_ptr := blk 0 ?ys ?b1, write_mirror := NOT (write_mirror rb),
        write_index := of_nat (w + l - n), read_mirror := NOT (read_mirror rb),
        read_index := of_nat (w + l - n)\<rparr>"
      using eq eq' rb2 room False by auto
    ultimately show ?thesis
      using False v l wr lr m drops lb ys
      by (simp add: rb_inv_def rb_contents_def ll unat_of_nat_15 del: of_nat_diff)
  qed
qed

lemma full_iff:
  "rb_inv rb \<Longrightarrow> rt_ringbuffer_status rb = RT_RINGBUFFER_FULL \<longleftrightarrow>
     length (rb_contents rb) = rb_n rb \<and> read_mirror rb \<noteq> write_mirror rb"
  by (frule length_contents, erule rb_view) (auto simp: rt_ringbuffer_status_def index_eq_iff)

lemma contents_full_mirror:
  assumes "rb_inv rb" and "length (rb_contents rb) = rb_n rb"
  shows "read_mirror rb \<noteq> write_mirror rb"
proof
  assume "read_mirror rb = write_mirror rb"
  then have "length (rb_contents rb) = rb_w rb - rb_r rb" by (simp add: length_contents [OF assms(1)])
  with assms(2) rb_inv_facts(6) [OF assms(1)] show False by linarith
qed

lemma putchar_force_copy_in:
  assumes inv: "rb_inv rb" and eq: "ringbuffer_copy_in rb [ch] 1 = Some rb1"
  shows "rt_ringbuffer_putchar_force rb ch =
    Some (if rt_ringbuffer_status rb = RT_RINGBUFFER_FULL
          then if write_room rb > uint (1 :: u16) then rb1\<lparr>read_index := write_index rb1\<rparr>
               else rb1\<lparr>read_mirror := NOT (read_mirror rb1), read_index := write_index rb1\<rparr>
          else rb1, 1)"
  using inv
proof (rule rb_view)
  fix n w
  assume v: "sint (buffer_size rb) = int n" "unat (write_index rb) = w"
    "uint (write_index rb) = int w" "0 < n" "n \<le> length (buffer_ptr rb)" "w < n"
  have i1: "write_index rb + 1 = of_nat (w + 1)" using v(2) by auto
  have room: "write_room rb = int n - int w" by (simp add: write_room_def v)
  show ?thesis
  proof (cases "Suc w < n")
    case True
    then have "rb1 = rb\<lparr>buffer_ptr := (buffer_ptr rb)[w := ch], write_index := write_index rb + 1\<rparr>"
      using eq v i1 by (auto simp: copy_in_eq [OF inv] blk_single add.commute)
    then show ?thesis
      using v True by (simp add: rt_ringbuffer_putchar_force_def poke_def Let_def room)
  next
    case False
    then have n: "n = Suc w" using v by simp
    then have "rb1 = rb\<lparr>buffer_ptr := (buffer_ptr rb)[w := ch], write_mirror := NOT (write_mirror rb),
        write_index := 0\<rparr>"
      using eq v by (auto simp: copy_in_eq [OF inv] blk_single nat_add_distrib)
    then show ?thesis
      using v n by (simp add: rt_ringbuffer_putchar_force_def poke_def Let_def room)
  qed
qed

lemma copy_in_defined:
  "rb_inv rb \<Longrightarrow> unat len \<le> rb_n rb \<Longrightarrow> unat len \<le> length ptr \<Longrightarrow> \<exists>rb1. ringbuffer_copy_in rb ptr len = Some rb1"
  by (simp add: copy_in_eq)

lemma putchar_force_keeps:
  assumes inv: "rb_inv rb"
  shows "\<exists>rb'. rt_ringbuffer_putchar_force rb ch = Some (rb', 1) \<and> rb_inv rb' \<and>
    buffer_size rb' = buffer_size rb \<and> rb_contents rb' = keep_last (rb_n rb) (rb_contents rb @ [ch])"
proof -
  have n: "1 \<le> rb_n rb" using rb_inv_facts(2) [OF inv] by simp
  obtain rb1 where eq: "ringbuffer_copy_in rb [ch] 1 = Some rb1"
    using copy_in_defined [OF inv, of 1 "[ch]"] n by auto
  show ?thesis
  proof (cases "rt_ringbuffer_status rb = RT_RINGBUFFER_FULL")
    case True
    then have "length (rb_contents rb) = rb_n rb" "read_mirror rb \<noteq> write_mirror rb"
      using full_iff [OF inv] by auto
    with True n show ?thesis
      using putchar_force_copy_in [OF inv eq] copy_in_overwrite [OF inv _ _ _ _ eq refl] by simp
  next
    case False
    then have "length (rb_contents rb) < rb_n rb"
      using full_iff [OF inv] contents_full_mirror [OF inv] contents_bound [OF inv] by fastforce
    then show ?thesis
      using False n eq putchar_force_copy_in [OF inv eq] copy_in_contents [OF inv, of 1 "[ch]"]
      by (auto simp: keep_last_short)
  qed
qed

text \<open>\<open>rt_ringbuffer_put_force\<close> first clips the block to the size of the buffer.\<close>

lemma put_force_clip:
  assumes inv: "rb_inv rb" and ptr: "unat len0 \<le> length ptr0"
    and l: "l = min (unat len0) (rb_n rb)"
  obtains ptr len rb1 where "unat len = l" "l \<le> length ptr"
    "keep_last (rb_n rb) (rb_contents rb @ take l ptr) =
       keep_last (rb_n rb) (rb_contents rb @ take (unat len0) ptr0)"
    "ringbuffer_copy_in rb ptr len = Some rb1"
    "rt_ringbuffer_put_force rb ptr0 len0 =
       Some (if rb_n rb - length (rb_contents rb) < l
             then if write_room rb > uint len then rb1\<lparr>read_index := write_index rb1\<rparr>
                  else rb1\<lparr>read_mirror := NOT (read_mirror rb1), read_index := write_index rb1\<rparr>
             else rb1, ucast len)"
proof -
  note F = rb_inv_facts [OF inv]
  define clip where "clip = (uint len0 > sint (buffer_size rb))"
  define ptr where "ptr = (if clip then drop (nat (uint len0 - sint (buffer_size rb))) ptr0 else ptr0)"
  define len where "len = (if clip then buffer_size rb else len0)"
  have size: "unat (buffer_size rb) = rb_n rb"
    using F(2) by (intro unat_sint_nonneg) simp
  have clip: "clip \<longleftrightarrow> rb_n rb < unat len0" 
    unfolding clip_def uint_int_unat [of len0] by (subst F(1)) (rule of_nat_less_iff)
  have len: "unat len = l" using l clip size by (simp add: len_def)
  have d: "nat (uint len0 - sint (buffer_size rb)) = unat len0 - rb_n rb"
    unfolding uint_int_unat [of len0] by (subst F(1)) (simp only: nat_minus_as_int)
  have "take l ptr = (if clip then drop (unat len0 - rb_n rb) (take (unat len0) ptr0) else take (unat len0) ptr0)"
    using clip ptr l by (simp add: ptr_def d drop_take)
  then have kl: "keep_last (rb_n rb) (rb_contents rb @ take l ptr) =
       keep_last (rb_n rb) (rb_contents rb @ take (unat len0) ptr0)"
    using keep_last_append_drop [of "rb_n rb" "take (unat len0) ptr0"] clip ptr by simp
  have lp: "l \<le> length ptr" using ptr l clip by (auto simp: ptr_def d)
  obtain rb1 where rb1: "ringbuffer_copy_in rb ptr len = Some rb1"
    using copy_in_defined [OF inv, of len ptr] len l lp by auto
  have gt: "len > ucast (rt_ringbuffer_space_len rb) \<longleftrightarrow> rb_n rb - length (rb_contents rb) < l"
    using unat_space_u16 [OF inv] len by (simp add: word_less_nat_alt)
  have "rt_ringbuffer_put_force rb ptr0 len0 =
       Some (if rb_n rb - length (rb_contents rb) < l
             then if write_room rb > uint len then rb1\<lparr>read_index := write_index rb1\<rparr>
                  else rb1\<lparr>read_mirror := NOT (read_mirror rb1), read_index := write_index rb1\<rparr>
             else rb1, ucast len)"
    unfolding rt_ringbuffer_put_force_def Let_def clip_def [symmetric] ptr_def [symmetric]
      len_def [symmetric] rb1 gt by simp
  with len lp kl rb1 show thesis by (rule that)
qed

subsection \<open>The ring buffer is a bounded queue\<close>

text \<open>The byte operations in the shape of the queue interface: a put that is refused and a
  get that finds nothing are \<open>None\<close>.\<close>

definition rb_put :: "u8 \<Rightarrow> rt_ringbuffer \<Rightarrow> rt_ringbuffer option" where
  "rb_put ch rb =
     (case rt_ringbuffer_putchar rb ch of Some (rb', n) \<Rightarrow> if n = 1 then Some rb' else None | None \<Rightarrow> None)"

definition rb_get :: "rt_ringbuffer \<Rightarrow> (u8 \<times> rt_ringbuffer) option" where
  "rb_get rb = (case rt_ringbuffer_getchar rb of Some (rb', Some c, _) \<Rightarrow> Some (c, rb') | _ \<Rightarrow> None)"

lemma advance_size [simp]: "buffer_size (rb_advance l rb) = buffer_size rb"
  by (simp add: rb_advance_def)

interpretation rbq: bounded_fifo rb_inv rb_contents rb_n rb_put rb_get
proof (unfold_locales, goal_cases)
  case (1 s)
  then show ?case by (rule contents_bound)
next
  case (2 s x)
  then show ?case using putchar_refines(1) [of s x] by (simp add: rb_put_def)
next
  case (3 s x)
  then show ?case using putchar_refines(2) [of s x] by (auto simp: rb_put_def)
next
  case (4 s)
  then show ?case by (simp add: rb_get_def getchar_eq_advance)
next
  case (5 s x xs)
  then show ?case
    using advance_contents(1,2) [of s 1] by (simp add: rb_get_def getchar_eq_advance)
qed

text \<open>A fresh buffer has the invariant as soon as the aligned size is not zero.\<close>

lemma init_inv:
  assumes sz: "4 \<le> sint sz" and pool: "nat (sint sz) \<le> length pool"
  shows "\<exists>rb. rt_ringbuffer_init pool sz = Some rb \<and> rb_inv rb \<and> rb_contents rb = [] \<and>
    rb_n rb = nat (sint sz) div 4 * 4"
proof -
  let ?w = "RT_ALIGN_DOWN sz 4"
  have u: "unat ?w = nat (sint sz) div 4 * 4"
    using unat_ALIGN_DOWN [of sz] unat_sint_nonneg [of sz] sz by simp
  moreover have "nat (sint sz) < 32768" using sint_lt [of sz] by simp
  ultimately have "sint ?w = int (unat ?w)"
    using sint_small [of ?w] by simp
  moreover define k where "k = nat (sint sz) div 4 * 4"
  ultimately have w: "sint ?w = int k" using u by simp
  have "4 \<le> nat (sint sz)" using sz by simp
  then have "0 < k" "k \<le> length pool" using pool by (auto simp: k_def)
  with sz w show ?thesis
    unfolding k_def [symmetric] by (simp add: rt_ringbuffer_init_def rb_inv_def rb_contents_def)
qed

subsection \<open>Properties\<close>

text \<open>C27: over every sequence of \<open>rt_ringbuffer_putchar\<close> and \<open>rt_ringbuffer_getchar\<close> calls on a
  well-formed buffer, the bytes returned followed by the bytes left are the bytes there
  at the start followed by the bytes accepted, in order; the invariant holds at the end.\<close>

theorem ringbuffer_fifo:
  assumes "rb_inv rb" and "fifo_calls rb_put rb_get cs rb = (rb', accepted, returned)"
  shows "rb_inv rb' \<and> returned @ rb_contents rb' = rb_contents rb @ accepted"
  using rbq.calls_fifo [OF assms] by blast

text \<open>A block \<open>put\<close> stores as much of the block as there is room for, behind the data
  already there, returns that number, and never leaves the pool or the source array.\<close>

lemma ringbuffer_put_block:
  assumes "rb_inv rb" and "unat len \<le> length ptr"
  shows "\<exists>rb' k. rt_ringbuffer_put rb ptr len = Some (rb', k) \<and> rb_inv rb' \<and>
    unat k = min (unat len) (rb_n rb - length (rb_contents rb)) \<and>
    rb_contents rb' = rb_contents rb @ take (unat k) ptr"
  using put_refines [OF assms refl] by auto

text \<open>A block \<open>get\<close> returns the oldest bytes, as many as asked for or all there are, and
  leaves the rest.\<close>

lemma ringbuffer_get_block:
  assumes "rb_inv rb"
  shows "\<exists>rb' d k. rt_ringbuffer_get rb len = Some (rb', d, k) \<and> rb_inv rb' \<and>
    d @ rb_contents rb' = rb_contents rb \<and> unat k = length d \<and>
    length d = min (unat len) (length (rb_contents rb))"
proof -
  let ?l = "min (unat len) (length (rb_contents rb))"
  have "?l < 2 ^ 32" using unat_less_2p [of len] by (simp add: min_def)
  then have "unat (of_nat ?l :: u32) = ?l" by (simp add: unat_of_nat take_bit_nat_eq_self del: min_less_iff_conj)
  moreover have "rb_inv (rb_advance ?l rb)" "take ?l (rb_contents rb) @ rb_contents (rb_advance ?l rb) = rb_contents rb"
    using advance_contents(1,2) [OF assms, of ?l] by auto
  ultimately show ?thesis
    using assms by (cases "rb_contents rb = []") (simp_all add: get_eq_advance del: of_nat_min)
qed

text \<open>What a block \<open>put\<close> stores comes out of a later block \<open>get\<close>: the put takes as much of the
  block as there is room for and returns that number; the get then returns the oldest bytes of the
  old contents followed by the stored part, as many as asked for or all there are, and leaves the
  rest. Neither leaves the pool.\<close>

lemma ringbuffer_block_roundtrip:
  assumes "rb_inv rb" and "unat len \<le> length ptr"
  shows "\<exists>rb1 k rb2 d j. rt_ringbuffer_put rb ptr len = Some (rb1, k) \<and>
    rt_ringbuffer_get rb1 m = Some (rb2, d, j) \<and> rb_inv rb1 \<and> rb_inv rb2 \<and>
    unat k = min (unat len) (rb_n rb - length (rb_contents rb)) \<and> unat j = length d \<and>
    d = take (unat m) (rb_contents rb @ take (unat k) ptr) \<and>
    rb_contents rb2 = drop (unat m) (rb_contents rb @ take (unat k) ptr)"
proof -
  obtain rb1 k where p: "rt_ringbuffer_put rb ptr len = Some (rb1, k)" "rb_inv rb1"
    "unat k = min (unat len) (rb_n rb - length (rb_contents rb))"
    "rb_contents rb1 = rb_contents rb @ take (unat k) ptr"
    using ringbuffer_put_block [OF assms] by blast
  obtain rb2 d j where g: "rt_ringbuffer_get rb1 m = Some (rb2, d, j)" "rb_inv rb2"
    "d @ rb_contents rb2 = rb_contents rb1" "unat j = length d"
    "length d = min (unat m) (length (rb_contents rb1))"
    using ringbuffer_get_block [OF p(2)] by blast
  have "d = take (length d) (rb_contents rb1)" "rb_contents rb2 = drop (length d) (rb_contents rb1)"
    by (simp_all flip: g(3))
  then have "d = take (unat m) (rb_contents rb1)" "rb_contents rb2 = drop (unat m) (rb_contents rb1)"
    using g(5) by (simp_all add: min_def split: if_splits)
  then show ?thesis using p g(1,2,4) unfolding p(4) by blast
qed

text \<open>\<open>rt_ringbuffer_put_force\<close> keeps the newest bytes when the block fits in the room or
  when the write side is one mirror ahead of the read side.\<close>

lemma ringbuffer_put_force_keeps:
  assumes inv: "rb_inv rb" and ptr: "unat len0 \<le> length ptr0"
    and ok: "read_mirror rb \<noteq> write_mirror rb \<or> unat len0 \<le> rb_n rb - length (rb_contents rb)"
  shows "\<exists>rb' k. rt_ringbuffer_put_force rb ptr0 len0 = Some (rb', k) \<and> rb_inv rb' \<and>
    rb_contents rb' = keep_last (rb_n rb) (rb_contents rb @ take (unat len0) ptr0)"
  using inv ptr refl
proof (rule put_force_clip)
  fix ptr len rb1
  let ?l = "min (unat len0) (rb_n rb)"
  assume c: "unat len = ?l" "?l \<le> length ptr"
    "keep_last (rb_n rb) (rb_contents rb @ take ?l ptr) =
       keep_last (rb_n rb) (rb_contents rb @ take (unat len0) ptr0)"
    "ringbuffer_copy_in rb ptr len = Some rb1"
    "rt_ringbuffer_put_force rb ptr0 len0 =
       Some (if rb_n rb - length (rb_contents rb) < ?l
             then if write_room rb > uint len then rb1\<lparr>read_index := write_index rb1\<rparr>
                  else rb1\<lparr>read_mirror := NOT (read_mirror rb1), read_index := write_index rb1\<rparr>
             else rb1, ucast len)"
  show ?thesis
  proof (cases "rb_n rb - length (rb_contents rb) < ?l")
    case True
    then have "read_mirror rb \<noteq> write_mirror rb" using ok by auto
    from copy_in_overwrite [OF inv this _ _ _ c(4) refl] True c show ?thesis by simp
  next
    case False
    then have "unat len \<le> rb_n rb - length (rb_contents rb)" using c(1) by linarith
    from copy_in_contents [OF inv this, of ptr] c(1,2,4)
    have "rb_inv rb1 \<and> rb_contents rb1 = rb_contents rb @ take ?l ptr" by simp
    moreover have "length (rb_contents rb @ take ?l ptr) \<le> rb_n rb"
    proof -
      have "length (rb_contents rb) + ?l \<le> rb_n rb" using False contents_bound [OF inv] by linarith
      then show ?thesis by (simp add: c(2) min_absorb2)
    qed
    ultimately have "rb_inv rb1 \<and> rb_contents rb1 =
        keep_last (rb_n rb) (rb_contents rb @ take (unat len0) ptr0)"
      using c(3) keep_last_short by metis
    then show ?thesis unfolding c(5) if_not_P [OF False] by blast
  qed
qed

text \<open>When both sides are in the same mirror and the block does not fit,
  \<open>rt_ringbuffer_put_force\<close> flips both mirror bits and leaves an empty buffer: the old data
  and the block just written are lost, although the function is to discard old data only.\<close>

lemma ringbuffer_put_force_loses:
  assumes inv: "rb_inv rb" and ptr: "unat len0 \<le> length ptr0"
    and m: "read_mirror rb = write_mirror rb"
    and big: "rb_n rb - length (rb_contents rb) < min (unat len0) (rb_n rb)"
  shows "\<exists>rb' k. rt_ringbuffer_put_force rb ptr0 len0 = Some (rb', k) \<and> rb_contents rb' = [] \<and>
    rt_ringbuffer_data_len rb' = 0"
  using inv ptr refl
proof (rule put_force_clip)
  fix ptr len rb1
  let ?l = "min (unat len0) (rb_n rb)"
  assume c: "unat len = ?l" "?l \<le> length ptr" "ringbuffer_copy_in rb ptr len = Some rb1"
    "rt_ringbuffer_put_force rb ptr0 len0 =
       Some (if rb_n rb - length (rb_contents rb) < ?l
             then if write_room rb > uint len then rb1\<lparr>read_index := write_index rb1\<rparr>
                  else rb1\<lparr>read_mirror := NOT (read_mirror rb1), read_index := write_index rb1\<rparr>
             else rb1, ucast len)"
  have w: "rb_n rb \<le> rb_w rb + unat len" and wn: "rb_w rb < rb_n rb"
    using big c(1) m rb_inv_facts(5-7) [OF inv] length_contents [OF inv]
    by (auto simp: min_def split: if_splits)
  then have nowrap: "\<not> write_room rb > uint len"
    using rb_inv_facts(1) [OF inv] unfolding write_room_def uint_int_unat by linarith
  have "ringbuffer_copy_in rb ptr len = Some (rb\<lparr>buffer_ptr := buffer_ptr rb1,
      write_mirror := NOT (write_mirror rb), write_index := write_index rb1\<rparr>)"
    using copy_in_eq [OF inv, of len ptr] c(1-3) w by auto
  with c(3) have rb1: "read_mirror rb1 = read_mirror rb" "write_mirror rb1 = NOT (write_mirror rb)"
    by (metis option.inject rt_ringbuffer.select_convs rt_ringbuffer.update_convs rt_ringbuffer.surjective)+
  let ?rb = "rb1\<lparr>read_mirror := NOT (read_mirror rb1), read_index := write_index rb1\<rparr>"
  have "rb_contents ?rb = []" "rt_ringbuffer_data_len ?rb = 0"
    using rb1 m by (simp_all add: rb_contents_def rt_ringbuffer_data_len_def rt_ringbuffer_status_def)
  then show ?thesis using c(4) big nowrap by auto
qed

subsection \<open>Concrete buffers\<close>

definition rb_example :: rt_ringbuffer where
  "rb_example = \<lparr>buffer_ptr = [10, 20, 30, 40], read_mirror = 0, read_index = 0,
     write_mirror = 0, write_index = 3, buffer_size = 4\<rparr>"

lemma rb_example_inv: "rb_inv rb_example"
  by (simp add: rb_inv_def rb_example_def)

lemma rb_example_contents: "rb_contents rb_example = [10, 20, 30]"
  by (simp add: rb_contents_def rb_example_def window_def)

lemma rb_example_mirrors: "read_mirror rb_example = write_mirror rb_example"
  by (simp add: rb_example_def)

lemma rb_example_n: "rb_n rb_example = 4"
  by (simp add: rb_example_def)

theorem ringbuffer_fifo_witness:
  "rb_inv rb_example \<and> fifo_calls rb_put rb_get [Put 7, Get, Put 8] rb_example =
     (\<lparr>buffer_ptr = [8, 20, 30, 7], read_mirror = 0, read_index = 1, write_mirror = 1,
        write_index = 1, buffer_size = 4\<rparr>, [7, 8], [10]) \<and>
   [10] @ rb_contents \<lparr>buffer_ptr = [8, 20, 30, 7], read_mirror = 0, read_index = 1, write_mirror = 1,
        write_index = 1, buffer_size = 4\<rparr> = rb_contents rb_example @ [7, 8]"
proof -
  have c: "fifo_calls rb_put rb_get [Put 7, Get, Put 8] rb_example =
     (\<lparr>buffer_ptr = [8, 20, 30, 7], read_mirror = 0, read_index = 1, write_mirror = 1,
        write_index = 1, buffer_size = 4\<rparr>, [7, 8], [10])"
    by code_simp
  show ?thesis using ringbuffer_fifo [OF rb_example_inv c] c rb_example_inv by blast
qed

lemma ringbuffer_block_roundtrip_witness:
  "rb_inv rb_example \<and> (\<exists>rb1 k rb2 j. rt_ringbuffer_put rb_example [1, 2] 2 = Some (rb1, k) \<and>
     unat k = 1 \<and> rt_ringbuffer_get rb1 3 = Some (rb2, [10, 20, 30], j) \<and> rb_contents rb2 = [1])"
  using ringbuffer_block_roundtrip [OF rb_example_inv, of 2 "[1, 2]" 3]
  by (auto simp: rb_example_inv rb_example_contents rb_example_n)

lemma ringbuffer_put_force_loses_witness:
  "rb_inv rb_example \<and> rb_contents rb_example = [10, 20, 30] \<and>
   (\<exists>rb' k. rt_ringbuffer_put_force rb_example [1, 2] 2 = Some (rb', k) \<and> rb_contents rb' = [])"
  using ringbuffer_put_force_loses [OF rb_example_inv, of 2 "[1, 2]"]
  by (auto simp: rb_example_inv rb_example_contents rb_example_n rb_example_mirrors)

end
