(* ===== verification/Rt_List.thy ===== *)
theory Rt_List
  imports Prelude
begin

text \<open>
  The intrusive doubly linked lists of \<open>include/rtservice.h\<close>. A \<open>struct rt_list_node\<close>
  is an address, a heap gives every address its \<open>next\<close> and \<open>prev\<close> pointer, and each
  inline function is the sequence of pointer writes of the C text. The second half
  shows that on a heap that represents a family of circular lists (a list of nodes per
  list head, every other node linked to itself) the pointer code refines the plain
  list operations. The kernel theories use the latter through the interface
  \<open>node_lists\<close>.
\<close>

record 'a lheap =
  nxt :: "'a \<Rightarrow> 'a"
  prv :: "'a \<Rightarrow> 'a"

definition set_next :: "'a \<Rightarrow> 'a \<Rightarrow> 'a lheap \<Rightarrow> 'a lheap" where
  "set_next a b h = h\<lparr>nxt := (nxt h)(a := b)\<rparr>"

definition set_prev :: "'a \<Rightarrow> 'a \<Rightarrow> 'a lheap \<Rightarrow> 'a lheap" where
  "set_prev a b h = h\<lparr>prv := (prv h)(a := b)\<rparr>"

definition rt_list_init :: "'a \<Rightarrow> 'a lheap \<Rightarrow> 'a lheap" where
  "rt_list_init l h = set_next l l (set_prev l l h)"

definition rt_list_insert_after :: "'a \<Rightarrow> 'a \<Rightarrow> 'a lheap \<Rightarrow> 'a lheap" where
  "rt_list_insert_after l n h =
     (let h1 = set_prev (nxt h l) n h;
          h2 = set_next n (nxt h1 l) h1;
          h3 = set_next l n h2
      in set_prev n l h3)"

definition rt_list_insert_before :: "'a \<Rightarrow> 'a \<Rightarrow> 'a lheap \<Rightarrow> 'a lheap" where
  "rt_list_insert_before l n h =
     (let h1 = set_next (prv h l) n h;
          h2 = set_prev n (prv h1 l) h1;
          h3 = set_prev l n h2
      in set_next n l h3)"

definition rt_list_remove :: "'a \<Rightarrow> 'a lheap \<Rightarrow> 'a lheap" where
  "rt_list_remove n h =
     (let h1 = set_prev (nxt h n) (prv h n) h;
          h2 = set_next (prv h1 n) (nxt h1 n) h1
      in set_next n n (set_prev n n h2))"

definition rt_list_isempty :: "'a \<Rightarrow> 'a lheap \<Rightarrow> bool" where
  "rt_list_isempty l h \<longleftrightarrow> nxt h l = l"

text \<open>The loop of \<open>rt_list_len\<close> need not end on a corrupted ring.\<close>

partial_function (option) rt_list_len_loop :: "'a lheap \<Rightarrow> 'a \<Rightarrow> 'a \<Rightarrow> u32 \<Rightarrow> u32 option" where
  "rt_list_len_loop h l p len =
     (if nxt h p \<noteq> l then rt_list_len_loop h l (nxt h p) (len + 1) else Some len)"

definition rt_list_len :: "'a \<Rightarrow> 'a lheap \<Rightarrow> u32 option" where
  "rt_list_len l h = rt_list_len_loop h l l 0"

lemmas lheap_defs = set_next_def set_prev_def rt_list_init_def rt_list_insert_after_def
  rt_list_insert_before_def rt_list_remove_def Let_def

subsection \<open>Doubly linked segments and rings\<close>

fun seg :: "'a lheap \<Rightarrow> 'a \<Rightarrow> 'a list \<Rightarrow> 'a \<Rightarrow> bool" where
  "seg h a [] b \<longleftrightarrow> nxt h a = b \<and> prv h b = a"
| "seg h a (x # xs) b \<longleftrightarrow> nxt h a = x \<and> prv h x = a \<and> seg h x xs b"

definition ring :: "'a lheap \<Rightarrow> 'a \<Rightarrow> 'a list \<Rightarrow> bool" where
  "ring h l xs \<longleftrightarrow> seg h l xs l \<and> distinct (l # xs)"

lemma seg_append: "seg h a (xs @ y # ys) b \<longleftrightarrow> seg h a xs y \<and> seg h y ys b"
  by (induction xs arbitrary: a) auto

lemma seg_first: "seg h a xs b \<Longrightarrow> nxt h a = hd (xs @ [b])"
  by (cases xs) auto

lemma seg_last: "seg h a xs b \<Longrightarrow> prv h b = last (a # xs)"
  by (induction xs arbitrary: a) auto

text \<open>A segment depends only on the next pointers of \<open>a # xs\<close> and the prev pointers of
  \<open>xs @ [b]\<close>.\<close>

lemma seg_cong:
  assumes "\<And>x. x \<in> set (a # xs) \<Longrightarrow> nxt h' x = nxt h x"
    and "\<And>x. x \<in> set (xs @ [b]) \<Longrightarrow> prv h' x = prv h x"
  shows "seg h' a xs b \<longleftrightarrow> seg h a xs b"
  using assms by (induction xs arbitrary: a) auto

text \<open>Linking two segments through a new node, and closing a segment over a removed one.\<close>

definition list_link :: "'a \<Rightarrow> 'a \<Rightarrow> 'a \<Rightarrow> 'a lheap \<Rightarrow> 'a lheap" where
  "list_link p n q h =
     h\<lparr>nxt := (nxt h)(p := n, n := q), prv := (prv h)(n := p, q := n)\<rparr>"

lemma insert_before_link:
  "n \<noteq> l \<Longrightarrow> prv h l \<noteq> n \<Longrightarrow> rt_list_insert_before l n h = list_link (prv h l) n l h"
  by (auto simp: lheap_defs list_link_def fun_eq_iff)

lemma insert_after_link:
  "n \<noteq> l \<Longrightarrow> nxt h l \<noteq> n \<Longrightarrow> rt_list_insert_after l n h = list_link l n (nxt h l) h"
  by (auto simp: lheap_defs list_link_def fun_eq_iff)

lemma seg_list_link:
  assumes "seg h a (xs @ ys) b" and "distinct (a # xs @ ys)" and "distinct (xs @ ys @ [b])"
    and "n \<notin> set (a # xs @ ys @ [b])"
  shows "seg (list_link (last (a # xs)) n (hd (ys @ [b])) h) a (xs @ n # ys) b"
  using assms
proof (induction xs arbitrary: a)
  case Nil
  show ?case
  proof (cases ys)
    case Nil
    with Nil.prems show ?thesis by (auto simp: list_link_def)
  next
    case (Cons y zs)
    let ?h = "list_link a n y h"
    have "seg ?h y zs b \<longleftrightarrow> seg h y zs b"
      using Nil.prems Cons by (intro seg_cong) (auto simp: list_link_def)
    with Nil.prems Cons show ?thesis by (auto simp: list_link_def)
  qed
next
  case (Cons x xs)
  let ?h = "list_link (last (x # xs)) n (hd (ys @ [b])) h"
  have "hd (ys @ [b]) \<in> set (ys @ [b])" by (cases ys) auto
  moreover have "last (x # xs) \<in> set (x # xs)" by (rule last_in_set) simp
  ultimately have "nxt ?h a = nxt h a" "prv ?h x = prv h x"
    using Cons.prems by (auto simp: list_link_def)
  with Cons.prems Cons.IH [of x] show ?case by simp
qed

definition list_unlink :: "'a \<Rightarrow> 'a \<Rightarrow> 'a \<Rightarrow> 'a lheap \<Rightarrow> 'a lheap" where
  "list_unlink p n q h =
     h\<lparr>nxt := (nxt h)(p := q, n := n), prv := (prv h)(q := p, n := n)\<rparr>"

lemma remove_unlink:
  "nxt h n \<noteq> n \<Longrightarrow> prv h n \<noteq> n \<Longrightarrow> rt_list_remove n h = list_unlink (prv h n) n (nxt h n) h"
  by (auto simp: lheap_defs list_unlink_def fun_eq_iff)

lemma remove_self: "nxt h n = n \<Longrightarrow> prv h n = n \<Longrightarrow> rt_list_remove n h = h"
  by (cases h) (auto simp: lheap_defs)

lemma seg_list_unlink:
  assumes "seg h a (xs @ n # ys) b" and "distinct (a # xs @ n # ys)"
    and "distinct (xs @ n # ys @ [b])"
  shows "seg (list_unlink (last (a # xs)) n (hd (ys @ [b])) h) a (xs @ ys) b"
  using assms
proof (induction xs arbitrary: a)
  case Nil
  show ?case
  proof (cases ys)
    case Nil
    with Nil.prems show ?thesis by (auto simp: list_unlink_def)
  next
    case (Cons y zs)
    let ?h = "list_unlink a n y h"
    have "seg ?h y zs b \<longleftrightarrow> seg h y zs b"
      using Nil.prems Cons by (intro seg_cong) (auto simp: list_unlink_def)
    with Nil.prems Cons show ?thesis by (auto simp: list_unlink_def)
  qed
next
  case (Cons x xs)
  let ?h = "list_unlink (last (x # xs)) n (hd (ys @ [b])) h"
  have "hd (ys @ [b]) \<in> set (ys @ [b])" by (cases ys) auto
  moreover have "last (x # xs) \<in> set (x # xs)" by (rule last_in_set) simp
  ultimately have "nxt ?h a = nxt h a" "prv ?h x = prv h x"
    using Cons.prems by (auto simp: list_unlink_def)
  with Cons.prems Cons.IH [of x] show ?case by simp
qed

lemma seg_unique: "seg h a xs b \<Longrightarrow> seg h a ys b \<Longrightarrow> b \<notin> set xs \<Longrightarrow> b \<notin> set ys \<Longrightarrow> xs = ys"
proof (induction xs arbitrary: a ys)
  case Nil
  then show ?case by (cases ys) auto
next
  case (Cons x xs)
  then show ?case by (cases ys) auto
qed

lemma ring_unique: "ring h l xs \<Longrightarrow> ring h l ys \<Longrightarrow> xs = ys"
  by (auto simp: ring_def intro: seg_unique)

subsection \<open>Families of rings\<close>

text \<open>\<open>H\<close> is the set of list heads, \<open>Q l\<close> the nodes on the list with head \<open>l\<close>. Every node
  on no list is linked to itself, as \<open>rt_list_init\<close> and \<open>rt_list_remove\<close> leave it.\<close>

definition lists_rep :: "'a set \<Rightarrow> ('a \<Rightarrow> 'a list) \<Rightarrow> 'a lheap \<Rightarrow> bool" where
  "lists_rep H Q h \<longleftrightarrow>
     (\<forall>l \<in> H. ring h l (Q l)) \<and>
     (\<forall>l \<in> H. \<forall>m \<in> H. l \<noteq> m \<longrightarrow> set (l # Q l) \<inter> set (m # Q m) = {}) \<and>
     (\<forall>n. n \<notin> H \<longrightarrow> (\<forall>l \<in> H. n \<notin> set (Q l)) \<longrightarrow> nxt h n = n \<and> prv h n = n)"

lemma lists_repD:
  assumes "lists_rep H Q h"
  shows "l \<in> H \<Longrightarrow> seg h l (Q l) l"
    and "l \<in> H \<Longrightarrow> distinct (l # Q l)"
    and "l \<in> H \<Longrightarrow> m \<in> H \<Longrightarrow> l \<noteq> m \<Longrightarrow> set (l # Q l) \<inter> set (m # Q m) = {}"
    and "n \<notin> H \<Longrightarrow> \<forall>l \<in> H. n \<notin> set (Q l) \<Longrightarrow> nxt h n = n \<and> prv h n = n"
  using assms by (auto simp: lists_rep_def ring_def)

lemma notin_fam_upd:
  assumes "\<forall>k \<in> H. m \<notin> set ((Q(l := zs)) k)" and "l \<in> H"
  shows "m \<notin> set zs" and "m \<notin> set (Q l) \<Longrightarrow> k \<in> H \<Longrightarrow> m \<notin> set (Q k)"
proof -
  from assms show "m \<notin> set zs" by (metis fun_upd_same)
  assume "m \<notin> set (Q l)" "k \<in> H"
  with assms(1) show "m \<notin> set (Q k)" by (cases "k = l") (auto dest: bspec [where x = k])
qed

lemma link_rep:
  assumes rep: "lists_rep H Q h" and l: "l \<in> H" and split: "Q l = xs @ ys"
    and n: "n \<notin> H" "\<forall>m \<in> H. n \<notin> set (Q m)"
  shows "lists_rep H (Q(l := xs @ n # ys)) (list_link (last (l # xs)) n (hd (ys @ [l])) h)"
    (is "lists_rep H ?Q ?h")
proof -
  note D = lists_repD [OF rep]
  have p: "last (l # xs) \<in> set (l # Q l)" and q: "hd (ys @ [l]) \<in> set (l # Q l)"
    using split by (auto simp: last_in_set) (cases ys; simp)
  have here: "seg ?h l (xs @ n # ys) l"
    using D(1,2) [OF l] split n l by (intro seg_list_link) auto
  have others: "seg ?h m (Q m) m" if "m \<in> H" "m \<noteq> l" for m
  proof -
    have "seg ?h m (Q m) m \<longleftrightarrow> seg h m (Q m) m"
      using that n p q D(3) [OF l that(1)] by (intro seg_cong) (auto simp: list_link_def)
    then show ?thesis using D(1) [OF that(1)] by simp
  qed
  have free: "nxt ?h m = m \<and> prv ?h m = m" if "m \<notin> H" "\<forall>k \<in> H. m \<notin> set (?Q k)" for m
  proof -
    note u = notin_fam_upd [OF that(2) l]
    have m: "m \<noteq> n" "m \<notin> set (l # Q l)" using u(1) that(1) l split by auto
    then have m3: "\<forall>k \<in> H. m \<notin> set (Q k)" using u(2) by simp
    from m have "m \<noteq> last (l # xs)" "m \<noteq> hd (ys @ [l])" using p q by metis+
    then show ?thesis using D(4) [OF that(1) m3] m(1) by (simp add: list_link_def)
  qed
  show ?thesis
    unfolding lists_rep_def ring_def
  proof (intro conjI ballI allI impI)
    fix m assume "m \<in> H"
    then show "seg ?h m (?Q m) m" using here others by auto
    show "distinct (m # ?Q m)" using D(2) [OF \<open>m \<in> H\<close>] n l split \<open>m \<in> H\<close> by auto
  next
    fix k m assume "k \<in> H" "m \<in> H" "k \<noteq> m"
    then show "set (k # ?Q k) \<inter> set (m # ?Q m) = {}"
      using D(3) [of k m] split n by (auto split: if_splits)
  qed (use free in auto)
qed

lemma unlink_rep:
  assumes rep: "lists_rep H Q h" and l: "l \<in> H" and split: "Q l = xs @ n # ys"
  shows "lists_rep H (Q(l := xs @ ys)) (list_unlink (last (l # xs)) n (hd (ys @ [l])) h)"
    (is "lists_rep H ?Q ?h")
proof -
  note D = lists_repD [OF rep]
  have p: "last (l # xs) \<in> set (l # Q l)" and q: "hd (ys @ [l]) \<in> set (l # Q l)"
    using split by (auto simp: last_in_set) (cases ys; simp)
  have here: "seg ?h l (xs @ ys) l"
    using D(1,2) [OF l] split by (intro seg_list_unlink) auto
  have others: "seg ?h m (Q m) m" if "m \<in> H" "m \<noteq> l" for m
  proof -
    have "seg ?h m (Q m) m \<longleftrightarrow> seg h m (Q m) m"
      using that split p q D(3) [OF l that(1)] by (intro seg_cong) (auto simp: list_unlink_def)
    then show ?thesis using D(1) [OF that(1)] by simp
  qed
  have free: "nxt ?h m = m \<and> prv ?h m = m" if "m \<notin> H" "\<forall>k \<in> H. m \<notin> set (?Q k)" for m
  proof (cases "m = n")
    case False
    note u = notin_fam_upd [OF that(2) l]
    have m: "m \<notin> set (l # Q l)" using u(1) that(1) l split False by auto
    then have m3: "\<forall>k \<in> H. m \<notin> set (Q k)" using u(2) by simp
    from m have "m \<noteq> last (l # xs)" "m \<noteq> hd (ys @ [l])" using p q by metis+
    then show ?thesis using D(4) [OF that(1) m3] False by (simp add: list_unlink_def)
  qed (simp add: list_unlink_def)
  show ?thesis
    unfolding lists_rep_def ring_def
  proof (intro conjI ballI allI impI)
    fix m assume "m \<in> H"
    then show "seg ?h m (?Q m) m" using here others by auto
    show "distinct (m # ?Q m)" using D(2) [OF \<open>m \<in> H\<close>] l split \<open>m \<in> H\<close> by auto
  next
    fix k m assume "k \<in> H" "m \<in> H" "k \<noteq> m"
    then show "set (k # ?Q k) \<inter> set (m # ?Q m) = {}"
      using D(3) [of k m] split by (auto split: if_splits)
  qed (use free in auto)
qed

subsection \<open>The pointer operations refine the list operations\<close>

text \<open>A node that may be inserted: it is no head and on no list.\<close>

definition off_lists :: "'a set \<Rightarrow> ('a \<Rightarrow> 'a list) \<Rightarrow> 'a \<Rightarrow> bool" where
  "off_lists H Q n \<longleftrightarrow> n \<notin> H \<and> (\<forall>m \<in> H. n \<notin> set (Q m))"

lemma insert_before_head_rep:
  assumes rep: "lists_rep H Q h" and l: "l \<in> H" and n: "off_lists H Q n"
  shows "lists_rep H (Q(l := Q l @ [n])) (rt_list_insert_before l n h)"
proof -
  have p: "prv h l = last (l # Q l)"
    using seg_last lists_repD(1) [OF rep l] by metis
  moreover have "last (l # Q l) \<noteq> n"
    using n l last_in_set [of "l # Q l"] unfolding off_lists_def
    by (metis list.distinct(1) set_ConsD)
  ultimately have "rt_list_insert_before l n h = list_link (last (l # Q l)) n l h"
    using n l by (subst insert_before_link) (auto simp: off_lists_def)
  then show ?thesis
    using link_rep [OF rep l, of "Q l" "[]" n] n by (simp add: off_lists_def)
qed

lemma insert_after_head_rep:
  assumes rep: "lists_rep H Q h" and l: "l \<in> H" and n: "off_lists H Q n"
  shows "lists_rep H (Q(l := n # Q l)) (rt_list_insert_after l n h)"
proof -
  have p: "nxt h l = hd (Q l @ [l])"
    using seg_first lists_repD(1) [OF rep l] by metis
  moreover have "hd (Q l @ [l]) \<noteq> n"
    using n l by (cases "Q l") (auto simp: off_lists_def)
  ultimately have "rt_list_insert_after l n h = list_link l n (hd (Q l @ [l])) h"
    using n l by (subst insert_after_link) (auto simp: off_lists_def)
  then show ?thesis
    using link_rep [OF rep l, of "[]" "Q l" n] n by (simp add: off_lists_def)
qed

lemma insert_before_node_rep:
  assumes rep: "lists_rep H Q h" and l: "l \<in> H" and n: "off_lists H Q n"
    and split: "Q l = xs @ m # ys"
  shows "lists_rep H (Q(l := xs @ n # m # ys)) (rt_list_insert_before m n h)"
proof -
  have "seg h l (xs @ m # ys) l" using lists_repD(1) [OF rep l] split by simp
  then have p: "prv h m = last (l # xs)" using seg_append seg_last by metis
  have "n \<notin> set (l # xs)" "n \<noteq> m" using n l split by (auto simp: off_lists_def)
  moreover have "last (l # xs) \<in> set (l # xs)" by (rule last_in_set) simp
  ultimately have "rt_list_insert_before m n h = list_link (last (l # xs)) n m h"
    using p by (subst insert_before_link) auto
  then show ?thesis
    using link_rep [OF rep l split] n by (simp add: off_lists_def)
qed

lemma remove_node_rep:
  assumes rep: "lists_rep H Q h" and n: "n \<notin> H"
  shows "\<exists>Q'. lists_rep H Q' (rt_list_remove n h) \<and> (\<forall>l \<in> H. Q' l = removeAll n (Q l))"
proof (cases "\<exists>l \<in> H. n \<in> set (Q l)")
  case False
  then have "nxt h n = n \<and> prv h n = n" using lists_repD(4) [OF rep n] by blast
  then have "lists_rep H Q (rt_list_remove n h)" using rep remove_self by metis
  moreover have "\<forall>l \<in> H. Q l = removeAll n (Q l)" using False by simp
  ultimately show ?thesis by blast
next
  case True
  then obtain l xs ys where l: "l \<in> H" and split: "Q l = xs @ n # ys"
    using split_list by metis
  have sg: "seg h l (xs @ n # ys) l" and d: "distinct (l # xs @ n # ys)"
    using lists_repD(1,2) [OF rep l] split by auto
  have p: "prv h n = last (l # xs)" and q: "nxt h n = hd (ys @ [l])"
    using sg seg_append seg_last seg_first by metis+
  have "last (l # xs) \<in> set (l # xs)" by (rule last_in_set) simp
  moreover have "hd (ys @ [l]) \<in> set (ys @ [l])" by (cases ys) auto
  ultimately have "last (l # xs) \<noteq> n" "hd (ys @ [l]) \<noteq> n" using d by auto
  then have "rt_list_remove n h = list_unlink (last (l # xs)) n (hd (ys @ [l])) h"
    using p q by (subst remove_unlink) auto
  then have "lists_rep H (Q(l := xs @ ys)) (rt_list_remove n h)"
    using unlink_rep [OF rep l split] by simp
  moreover have "(Q(l := xs @ ys)) m = removeAll n (Q m)" if m: "m \<in> H" for m
  proof (cases "m = l")
    case True
    then show ?thesis using split d by simp
  next
    case False
    then have "n \<notin> set (Q m)" using lists_repD(3) [OF rep l m] split by auto
    then show ?thesis using False by simp
  qed
  ultimately show ?thesis by blast
qed

lemma isempty_rep: "lists_rep H Q h \<Longrightarrow> l \<in> H \<Longrightarrow> rt_list_isempty l h \<longleftrightarrow> Q l = []"
  using lists_repD(1,2) [of H Q h l] by (cases "Q l") (auto simp: rt_list_isempty_def)

lemma len_loop_seg:
  "seg h a xs l \<Longrightarrow> l \<notin> set xs \<Longrightarrow> rt_list_len_loop h l a n = Some (n + of_nat (length xs))"
proof (induction xs arbitrary: a n)
  case Nil
  then show ?case by (subst rt_list_len_loop.simps) simp
next
  case (Cons x xs)
  then show ?case by (subst rt_list_len_loop.simps) (auto simp: ac_simps)
qed

lemma len_rep:
  "lists_rep H Q h \<Longrightarrow> l \<in> H \<Longrightarrow> rt_list_len l h = Some (of_nat (length (Q l)))"
  using lists_repD(1,2) [of H Q h l] by (simp add: rt_list_len_def len_loop_seg)

subsection \<open>The interface the kernel uses\<close>

text \<open>Lists of nodes under list heads, with the operations the kernel calls. The laws say
  what each does to the lists; the client lemmas below are the patterns of the kernel:
  taking the first node, rotating a node to the tail, and inserting by priority.\<close>

locale node_lists =
  fixes wf :: "'s \<Rightarrow> bool"
    and nodes :: "'s \<Rightarrow> 'l \<Rightarrow> 'n list"
    and is_head :: "'l \<Rightarrow> bool"
    and is_node :: "'n \<Rightarrow> bool"
    and isempty :: "'l \<Rightarrow> 's \<Rightarrow> bool"
    and push_back :: "'l \<Rightarrow> 'n \<Rightarrow> 's \<Rightarrow> 's"
    and push_front :: "'l \<Rightarrow> 'n \<Rightarrow> 's \<Rightarrow> 's"
    and push_at :: "'n \<Rightarrow> 'n \<Rightarrow> 's \<Rightarrow> 's"
    and remove :: "'n \<Rightarrow> 's \<Rightarrow> 's"
  assumes nodes_distinct: "wf s \<Longrightarrow> is_head l \<Longrightarrow> distinct (nodes s l)"
    and nodes_disjoint:
      "wf s \<Longrightarrow> is_head l \<Longrightarrow> is_head m \<Longrightarrow> l \<noteq> m \<Longrightarrow> set (nodes s l) \<inter> set (nodes s m) = {}"
    and isempty_nodes: "wf s \<Longrightarrow> is_head l \<Longrightarrow> isempty l s \<longleftrightarrow> nodes s l = []"
    and wf_remove: "wf s \<Longrightarrow> is_node n \<Longrightarrow> wf (remove n s)"
    and nodes_remove:
      "wf s \<Longrightarrow> is_node n \<Longrightarrow> is_head l \<Longrightarrow> nodes (remove n s) l = removeAll n (nodes s l)"
    and wf_push_back:
      "wf s \<Longrightarrow> is_head l \<Longrightarrow> is_node n \<Longrightarrow> (\<And>m. is_head m \<Longrightarrow> n \<notin> set (nodes s m)) \<Longrightarrow>
       wf (push_back l n s)"
    and nodes_push_back:
      "wf s \<Longrightarrow> is_head l \<Longrightarrow> is_node n \<Longrightarrow> (\<And>m. is_head m \<Longrightarrow> n \<notin> set (nodes s m)) \<Longrightarrow> is_head k \<Longrightarrow>
       nodes (push_back l n s) k = (if k = l then nodes s l @ [n] else nodes s k)"
    and wf_push_front:
      "wf s \<Longrightarrow> is_head l \<Longrightarrow> is_node n \<Longrightarrow> (\<And>m. is_head m \<Longrightarrow> n \<notin> set (nodes s m)) \<Longrightarrow>
       wf (push_front l n s)"
    and nodes_push_front:
      "wf s \<Longrightarrow> is_head l \<Longrightarrow> is_node n \<Longrightarrow> (\<And>m. is_head m \<Longrightarrow> n \<notin> set (nodes s m)) \<Longrightarrow> is_head k \<Longrightarrow>
       nodes (push_front l n s) k = (if k = l then n # nodes s l else nodes s k)"
    and wf_push_at:
      "wf s \<Longrightarrow> is_head l \<Longrightarrow> is_node n \<Longrightarrow> (\<And>m. is_head m \<Longrightarrow> n \<notin> set (nodes s m)) \<Longrightarrow>
       nodes s l = xs @ x # ys \<Longrightarrow> wf (push_at x n s)"
    and nodes_push_at:
      "wf s \<Longrightarrow> is_head l \<Longrightarrow> is_node n \<Longrightarrow> (\<And>m. is_head m \<Longrightarrow> n \<notin> set (nodes s m)) \<Longrightarrow> is_head k \<Longrightarrow>
       nodes s l = xs @ x # ys \<Longrightarrow>
       nodes (push_at x n s) k = (if k = l then xs @ n # x # ys else nodes s k)"
begin

lemma removed_off: "wf s \<Longrightarrow> is_node n \<Longrightarrow> is_head l \<Longrightarrow> n \<notin> set (nodes (remove n s) l)"
  by (simp add: nodes_remove)

text \<open>Removing the first node of a list leaves the tail and changes no other list.\<close>

lemma remove_first:
  assumes "wf s" "is_head l" "nodes s l = n # xs" "is_node n" "is_head k"
  shows "nodes (remove n s) k = (if k = l then xs else nodes s k)"
proof (cases "k = l")
  case True
  then show ?thesis using assms nodes_distinct [of s l] by (simp add: nodes_remove)
next
  case False
  then have "n \<notin> set (nodes s k)" using nodes_disjoint [of s l k] assms by auto
  then show ?thesis using False assms by (simp add: nodes_remove)
qed

text \<open>Moving a node to the tail of a list: the rotation of \<open>rt_thread_yield\<close>.\<close>

lemma rotate_first:
  assumes "wf s" "is_head l" "nodes s l = n # xs" "is_node n" "is_head k"
  shows "nodes (push_back l n (remove n s)) k = (if k = l then xs @ [n] else nodes s k)"
proof -
  have "nodes (push_back l n (remove n s)) k =
      (if k = l then nodes (remove n s) l @ [n] else nodes (remove n s) k)"
    using assms by (intro nodes_push_back) (auto simp: wf_remove removed_off)
  then show ?thesis using remove_first [OF assms(1-4)] assms(2,5) by simp
qed

text \<open>The move of a node between lists keeps well-formedness.\<close>

lemma wf_move: "wf s \<Longrightarrow> is_head l \<Longrightarrow> is_node n \<Longrightarrow> wf (push_back l n (remove n s))"
  by (simp add: wf_push_back wf_remove removed_off)

lemma nodes_move:
  "wf s \<Longrightarrow> is_head l \<Longrightarrow> is_node n \<Longrightarrow> is_head k \<Longrightarrow>
   nodes (push_back l n (remove n s)) k = removeAll n (nodes s k) @ (if k = l then [n] else [])"
  by (simp add: nodes_push_back wf_remove removed_off nodes_remove)

text \<open>Insertion in front of the first node with a larger key keeps a list sorted.\<close>

lemma push_at_sorted:
  assumes "wf s" "is_head l" "is_node n" "\<And>m. is_head m \<Longrightarrow> n \<notin> set (nodes s m)"
    and split: "nodes s l = xs @ m # ys" and "sorted (map key (nodes s l))"
    and "\<forall>x \<in> set xs. key x \<le> key n" and "key n < key m"
  shows "sorted (map key (nodes (push_at m n s) l))"
proof -
  have "nodes (push_at m n s) l = xs @ n # m # ys"
    using nodes_push_at [OF assms(1-4) assms(2) split] by simp
  then show ?thesis using assms(6-8) split by (auto simp: sorted_append)
qed

end

text \<open>The list that a heap holds under a head.\<close>

definition nodes_of :: "'a lheap \<Rightarrow> 'a \<Rightarrow> 'a list" where
  "nodes_of h l = (THE xs. ring h l xs)"

definition heap_wf :: "'a set \<Rightarrow> 'a lheap \<Rightarrow> bool" where
  "heap_wf H h \<longleftrightarrow> (\<exists>Q. lists_rep H Q h)"

lemma nodes_of_rep: "lists_rep H Q h \<Longrightarrow> l \<in> H \<Longrightarrow> nodes_of h l = Q l"
  using ring_unique unfolding nodes_of_def lists_rep_def by (metis the_equality)

lemma heap_wf_rep: "heap_wf H h \<Longrightarrow> lists_rep H (nodes_of h) h"
proof -
  assume "heap_wf H h"
  then obtain Q where Q: "lists_rep H Q h" by (auto simp: heap_wf_def)
  have "nodes_of h l = Q l" if "l \<in> H" for l using nodes_of_rep [OF Q that] .
  with Q show ?thesis by (simp add: lists_rep_def)
qed

lemma heap_wfI: "lists_rep H Q h \<Longrightarrow> heap_wf H h"
  by (auto simp: heap_wf_def)

lemmas heap_insert_back = insert_before_head_rep [OF heap_wf_rep]
lemmas heap_insert_front = insert_after_head_rep [OF heap_wf_rep]
lemmas heap_insert_at = insert_before_node_rep [OF heap_wf_rep]
lemmas heap_remove = remove_node_rep [OF heap_wf_rep]

interpretation heap: node_lists "heap_wf H" nodes_of "\<lambda>l. l \<in> H" "\<lambda>n. n \<notin> H"
  rt_list_isempty rt_list_insert_before rt_list_insert_after rt_list_insert_before rt_list_remove
  for H :: "'a set"
proof (unfold_locales, goal_cases)
  case (1 s l)
  then show ?case using lists_repD(2) [OF heap_wf_rep] by fastforce
next
  case (2 s l m)
  then show ?case using lists_repD(3) [OF heap_wf_rep, of H s l m] by auto
next
  case (3 s l)
  then show ?case using isempty_rep heap_wf_rep by metis
next
  case (4 s n)
  then show ?case using heap_remove heap_wfI by metis
next
  case (5 s n l)
  then show ?case using heap_remove nodes_of_rep by metis
next
  case (6 s l n)
  then show ?case using heap_insert_back heap_wfI off_lists_def by metis
next
  case (7 s l n k)
  then have "lists_rep H ((nodes_of s)(l := nodes_of s l @ [n])) (rt_list_insert_before l n s)"
    by (simp add: heap_insert_back off_lists_def)
  from nodes_of_rep [OF this 7(5)] show ?case by simp
next
  case (8 s l n)
  then show ?case using heap_insert_front heap_wfI off_lists_def by metis
next
  case (9 s l n k)
  then have "lists_rep H ((nodes_of s)(l := n # nodes_of s l)) (rt_list_insert_after l n s)"
    by (simp add: heap_insert_front off_lists_def)
  from nodes_of_rep [OF this 9(5)] show ?case by simp
next
  case (10 s l n xs m ys)
  then show ?case using heap_insert_at heap_wfI off_lists_def by metis
next
  case (11 s l n k xs m ys)
  then have "lists_rep H ((nodes_of s)(l := xs @ n # m # ys)) (rt_list_insert_before m n s)"
    by (simp add: heap_insert_at off_lists_def)
  from nodes_of_rep [OF this 11(5)] show ?case by simp
qed

subsection \<open>Properties\<close>

text \<open>C15: on a heap of well-formed circular lists the pointer code is the list operation:
  \<open>rt_list_insert_before\<close> on a head appends, \<open>rt_list_insert_after\<close> prepends,
  \<open>rt_list_remove\<close> takes a node off whatever list it is on and leaves the others alone, \<open>rt_list_isempty\<close> and
  \<open>rt_list_len\<close> read the list; every other list stays, and the heap stays well-formed.\<close>

theorem list_refines:
  assumes "lists_rep H Q h" "l \<in> H" "off_lists H Q n"
  shows "lists_rep H (Q(l := Q l @ [n])) (rt_list_insert_before l n h) \<and>
    lists_rep H (Q(l := n # Q l)) (rt_list_insert_after l n h) \<and>
    (\<forall>m. m \<notin> H \<longrightarrow> (\<exists>Q'. lists_rep H Q' (rt_list_remove m h) \<and> (\<forall>k \<in> H. Q' k = removeAll m (Q k)))) \<and>
    (rt_list_isempty l h \<longleftrightarrow> Q l = []) \<and> rt_list_len l h = Some (of_nat (length (Q l)))"
  using insert_before_head_rep [OF assms] insert_after_head_rep [OF assms] remove_node_rep [OF assms(1)]
    isempty_rep [OF assms(1,2)] len_rep [OF assms(1,2)] by blast

text \<open>Inserting a node into a list and removing it again restores every pointer of the
  heap, for the insertion at the tail and at the head.\<close>

lemma list_insert_remove:
  assumes "lists_rep H Q h" "l \<in> H" "off_lists H Q n"
  shows "rt_list_remove n (rt_list_insert_before l n h) = h \<and> rt_list_remove n (rt_list_insert_after l n h) = h"
proof -
  have r: "ring h l (Q l)" and n: "n \<noteq> l" "n \<notin> set (Q l)" "nxt h n = n" "prv h n = n"
    using assms lists_repD(4) [OF assms(1), of n] by (auto simp: lists_rep_def off_lists_def)
  have "nxt h (prv h l) = l \<and> prv h l \<noteq> n"
    using r n by (cases "Q l" rule: rev_cases) (auto simp: ring_def seg_append)
  moreover have "prv h (nxt h l) = l \<and> nxt h l \<noteq> n"
    using r n by (cases "Q l") (auto simp: ring_def)
  ultimately show ?thesis using n by (auto simp: lheap_defs fun_eq_iff intro!: lheap.equality)
qed

definition ex_heap :: "nat lheap" where
  "ex_heap = \<lparr>nxt = id(0 := 1, 1 := 0), prv = id(0 := 1, 1 := 0)\<rparr>"

lemma ex_heap_rep: "lists_rep {0} (\<lambda>_. [1]) ex_heap" "off_lists {0} (\<lambda>_. [1]) (2 :: nat)"
  by (auto simp: lists_rep_def off_lists_def ring_def ex_heap_def)

theorem list_refines_witness:
  "lists_rep {0} ((\<lambda>_. [1])(0 := [1, 2])) (rt_list_insert_before 0 2 ex_heap) \<and>
   rt_list_len 0 ex_heap = Some 1"
  using list_refines [OF ex_heap_rep(1) _ ex_heap_rep(2), of 0] by simp

end
