(* ===== verification/Kernel_State.thy ===== *)
theory Kernel_State
  imports Rt_List
begin

text \<open>
  The state of the kernel: the object headers and control blocks of \<open>include/rtdef.h\<close> and
  the global variables of \<open>src/scheduler.c\<close>, \<open>src/timer.c\<close>, \<open>src/irq.c\<close> and \<open>src/clock.c\<close>, as
  configured by \<open>bsp/stm32f4xx-HAL/rtconfig.h\<close> (32 priorities, one timer level, no SMP, no
  signals, no soft timers). Control blocks are named by numbers and kept in total maps.
  The lists threads are linked into through their \<open>tlist\<close> node are named by \<open>lhead\<close>; the
  map \<open>tq\<close> gives each its threads in order. The theory interprets the list interface of
  \<open>Rt_List\<close> on it.
\<close>

subsection \<open>Names of objects and lists\<close>

type_synonym tid = nat

datatype timer_id = Thread_Timer tid | Timer_Obj nat

datatype oid =
  O_Thread tid | O_Sem nat | O_Mutex nat | O_Event nat | O_Mb nat | O_Mq nat | O_Mp nat
  | O_Timer timer_id | O_Device nat

datatype lhead =
  L_ready nat | L_sem nat | L_mutex nat | L_event nat | L_mb nat | L_mb_sender nat | L_mq nat
  | L_mp nat | L_defunct | L_completion nat | L_dq_push nat | L_dq_pop nat

text \<open>What a timer calls when it expires: the timeout handler of a thread, or a function of
  the application.\<close>

datatype timeout_fn = Rt_Thread_Timeout tid | User_Timeout nat

subsection \<open>Control blocks\<close>

record rt_object =
  obj_name :: string
  obj_type :: u8
  obj_flag :: u8

record rt_timer =
  timeout_func :: timeout_fn
  init_tick :: u32
  timeout_tick :: u32

record rt_thread =
  sp :: u32
  entry :: nat
  parameter :: nat
  stack_addr :: u32
  stack_size :: u32
  stack_mark :: u8
  err :: rt_err_t
  stat :: u8
  current_priority :: u8
  init_priority :: u8
  number_mask :: u32
  event_set :: u32
  event_info :: u8
  thread_init_tick :: u32
  remaining_tick :: u32
  cleanup :: "nat option"
  user_data :: u32

record rt_semaphore =
  sem_value :: u16

record rt_mutex =
  mutex_value :: u16
  original_priority :: u8
  hold :: u8
  owner :: "tid option"

record rt_event =
  ev_set :: u32

record rt_mailbox =
  msg_pool :: "u32 list"
  mb_size :: u16
  mb_entry :: u16
  in_offset :: u16
  out_offset :: u16

record rt_messagequeue =
  msg_size :: u16
  max_msgs :: u16
  mq_entry :: u16
  msg_queue_head :: "nat option"
  msg_queue_tail :: "nat option"
  msg_queue_free :: "nat option"
  msg_next :: "nat \<Rightarrow> nat option"
  msg_data :: "nat \<Rightarrow> u8 list"

text \<open>The header word of a memory pool block: the next free block while it is free, the
  pool it belongs to while it is allocated.\<close>

datatype mp_word = Mp_Null | Mp_Block nat | Mp_Pool nat

record rt_mempool =
  mp_size :: u32
  mp_block_size :: u32
  block_list :: "nat option"
  block_header :: "nat \<Rightarrow> mp_word"
  block_total_count :: u32
  block_free_count :: u32
  suspend_thread_count :: u32

record kernel =
  threads :: "tid \<Rightarrow> rt_thread"
  tq :: "lhead \<Rightarrow> tid list"
  rt_thread_ready_priority_group :: u32
  rt_scheduler_lock_nest :: "16 word"
  rt_current_thread :: "tid option"
  rt_current_priority :: u8
  rt_interrupt_nest :: u8
  rt_tick :: u32
  objs :: "oid \<Rightarrow> rt_object"
  object_list :: "u8 \<Rightarrow> oid list"
  timers :: "timer_id \<Rightarrow> rt_timer"
  rt_timer_list :: "timer_id list"
  sems :: "nat \<Rightarrow> rt_semaphore"
  mutexes :: "nat \<Rightarrow> rt_mutex"
  events :: "nat \<Rightarrow> rt_event"
  mailboxes :: "nat \<Rightarrow> rt_mailbox"
  mqs :: "nat \<Rightarrow> rt_messagequeue"
  mempools :: "nat \<Rightarrow> rt_mempool"

subsection \<open>Constants\<close>

abbreviation (input) RT_Object_Class_Thread :: u8 where "RT_Object_Class_Thread \<equiv> 1"
abbreviation (input) RT_Object_Class_Semaphore :: u8 where "RT_Object_Class_Semaphore \<equiv> 2"
abbreviation (input) RT_Object_Class_Mutex :: u8 where "RT_Object_Class_Mutex \<equiv> 3"
abbreviation (input) RT_Object_Class_Event :: u8 where "RT_Object_Class_Event \<equiv> 4"
abbreviation (input) RT_Object_Class_MailBox :: u8 where "RT_Object_Class_MailBox \<equiv> 5"
abbreviation (input) RT_Object_Class_MessageQueue :: u8 where "RT_Object_Class_MessageQueue \<equiv> 6"
abbreviation (input) RT_Object_Class_MemHeap :: u8 where "RT_Object_Class_MemHeap \<equiv> 7"
abbreviation (input) RT_Object_Class_MemPool :: u8 where "RT_Object_Class_MemPool \<equiv> 8"
abbreviation (input) RT_Object_Class_Device :: u8 where "RT_Object_Class_Device \<equiv> 9"
abbreviation (input) RT_Object_Class_Timer :: u8 where "RT_Object_Class_Timer \<equiv> 10"
abbreviation (input) RT_Object_Class_Unknown :: u8 where "RT_Object_Class_Unknown \<equiv> 12"
abbreviation (input) RT_Object_Class_Static :: u8 where "RT_Object_Class_Static \<equiv> 0x80"

abbreviation (input) RT_THREAD_PRIORITY_MAX :: u8 where "RT_THREAD_PRIORITY_MAX \<equiv> 32"
abbreviation (input) RT_THREAD_INIT :: u8 where "RT_THREAD_INIT \<equiv> 0"
abbreviation (input) RT_THREAD_READY :: u8 where "RT_THREAD_READY \<equiv> 1"
abbreviation (input) RT_THREAD_SUSPEND :: u8 where "RT_THREAD_SUSPEND \<equiv> 2"
abbreviation (input) RT_THREAD_RUNNING :: u8 where "RT_THREAD_RUNNING \<equiv> 3"
abbreviation (input) RT_THREAD_CLOSE :: u8 where "RT_THREAD_CLOSE \<equiv> 4"
abbreviation (input) RT_THREAD_STAT_MASK :: u8 where "RT_THREAD_STAT_MASK \<equiv> 0x0f"

abbreviation (input) RT_TIMER_FLAG_ACTIVATED :: u8 where "RT_TIMER_FLAG_ACTIVATED \<equiv> 1"
abbreviation (input) RT_TIMER_FLAG_PERIODIC :: u8 where "RT_TIMER_FLAG_PERIODIC \<equiv> 2"

abbreviation (input) RT_IPC_FLAG_FIFO :: u8 where "RT_IPC_FLAG_FIFO \<equiv> 0"
abbreviation (input) RT_IPC_FLAG_PRIO :: u8 where "RT_IPC_FLAG_PRIO \<equiv> 1"
abbreviation (input) RT_IPC_CMD_RESET :: int where "RT_IPC_CMD_RESET \<equiv> 1"

abbreviation (input) RT_EVENT_FLAG_AND :: u8 where "RT_EVENT_FLAG_AND \<equiv> 1"
abbreviation (input) RT_EVENT_FLAG_OR :: u8 where "RT_EVENT_FLAG_OR \<equiv> 2"
abbreviation (input) RT_EVENT_FLAG_CLEAR :: u8 where "RT_EVENT_FLAG_CLEAR \<equiv> 4"

subsection \<open>Access to the state\<close>

definition upd_thread :: "tid \<Rightarrow> (rt_thread \<Rightarrow> rt_thread) \<Rightarrow> kernel \<Rightarrow> kernel" where
  "upd_thread t f s = s\<lparr>threads := (threads s)(t := f (threads s t))\<rparr>"

definition upd_obj :: "oid \<Rightarrow> (rt_object \<Rightarrow> rt_object) \<Rightarrow> kernel \<Rightarrow> kernel" where
  "upd_obj i f s = s\<lparr>objs := (objs s)(i := f (objs s i))\<rparr>"

definition upd_timer :: "timer_id \<Rightarrow> (rt_timer \<Rightarrow> rt_timer) \<Rightarrow> kernel \<Rightarrow> kernel" where
  "upd_timer i f s = s\<lparr>timers := (timers s)(i := f (timers s i))\<rparr>"

text \<open>The state of a thread without the signal bits, and the assignment that keeps them:
  \<open>stat = v | (stat & ~RT_THREAD_STAT_MASK)\<close>.\<close>

definition tstat :: "kernel \<Rightarrow> tid \<Rightarrow> u8" where
  "tstat s t = stat (threads s t) AND RT_THREAD_STAT_MASK"

definition set_tstat :: "u8 \<Rightarrow> tid \<Rightarrow> kernel \<Rightarrow> kernel" where
  "set_tstat v t = upd_thread t (\<lambda>th. th\<lparr>stat := v OR (stat th AND NOT RT_THREAD_STAT_MASK)\<rparr>)"

abbreviation prio :: "kernel \<Rightarrow> tid \<Rightarrow> nat" where
  "prio s t \<equiv> unat (current_priority (threads s t))"

subsection \<open>The thread lists\<close>

definition tlist_remove :: "tid \<Rightarrow> kernel \<Rightarrow> kernel" where
  "tlist_remove t s = s\<lparr>tq := (\<lambda>l. removeAll t (tq s l))\<rparr>"

definition tlist_insert_before :: "lhead \<Rightarrow> tid \<Rightarrow> kernel \<Rightarrow> kernel" where
  "tlist_insert_before l t s = s\<lparr>tq := (tq s)(l := tq s l @ [t])\<rparr>"

definition tlist_insert_after :: "lhead \<Rightarrow> tid \<Rightarrow> kernel \<Rightarrow> kernel" where
  "tlist_insert_after l t s = s\<lparr>tq := (tq s)(l := t # tq s l)\<rparr>"

fun insert_before_node :: "tid \<Rightarrow> tid \<Rightarrow> tid list \<Rightarrow> tid list" where
  "insert_before_node m t [] = []"
| "insert_before_node m t (x # xs) = (if x = m then t # x # xs else x # insert_before_node m t xs)"

definition tlist_insert_at :: "tid \<Rightarrow> tid \<Rightarrow> kernel \<Rightarrow> kernel" where
  "tlist_insert_at m t s = s\<lparr>tq := (\<lambda>l. insert_before_node m t (tq s l))\<rparr>"

definition tlist_isempty :: "lhead \<Rightarrow> kernel \<Rightarrow> bool" where
  "tlist_isempty l s \<longleftrightarrow> tq s l = []"

definition tq_wf :: "kernel \<Rightarrow> bool" where
  "tq_wf s \<longleftrightarrow> (\<forall>l. distinct (tq s l)) \<and> (\<forall>l m. l \<noteq> m \<longrightarrow> set (tq s l) \<inter> set (tq s m) = {})"

lemma insert_before_node_split:
  "m \<notin> set xs \<Longrightarrow> insert_before_node m t (xs @ m # ys) = xs @ t # m # ys"
  by (induction xs) auto

lemma insert_before_node_notin [simp]: "m \<notin> set xs \<Longrightarrow> insert_before_node m t xs = xs"
  by (induction xs) auto

lemma insert_before_node_set:
  "set (insert_before_node m t xs) = (if m \<in> set xs then insert t (set xs) else set xs)"
  by (induction xs) auto

lemma insert_before_node_distinct:
  "distinct xs \<Longrightarrow> t \<notin> set xs \<Longrightarrow> distinct (insert_before_node m t xs)"
  by (induction xs) (auto simp: insert_before_node_set)

lemma wf_insert_at:
  assumes wf: "tq_wf s" and off: "\<And>m. t \<notin> set (tq s m)"
  shows "tq_wf (tlist_insert_at x t s)"
  unfolding tq_wf_def
proof (intro conjI allI impI)
  fix l m :: lhead assume "l \<noteq> m"
  then have "set (tq s l) \<inter> set (tq s m) = {}" using wf by (simp add: tq_wf_def)
  then show "set (tq (tlist_insert_at x t s) l) \<inter> set (tq (tlist_insert_at x t s) m) = {}"
    using off by (auto simp: tlist_insert_at_def insert_before_node_set)
qed (use wf off in \<open>simp add: tq_wf_def tlist_insert_at_def insert_before_node_distinct\<close>)

lemma tq_insert_at:
  assumes wf: "tq_wf s" and split: "tq s l = xs @ x # ys"
  shows "tq (tlist_insert_at x t s) k = (if k = l then xs @ t # x # ys else tq s k)"
proof (cases "k = l")
  case True
  have "distinct (xs @ x # ys)" using wf split unfolding tq_wf_def by metis
  then show ?thesis using True split by (simp add: tlist_insert_at_def insert_before_node_split)
next
  case False
  then have "set (tq s l) \<inter> set (tq s k) = {}" using wf by (simp add: tq_wf_def)
  then have "x \<notin> set (tq s k)" using split by auto
  then show ?thesis using False by (simp add: tlist_insert_at_def)
qed

interpretation tql: node_lists tq_wf tq "\<lambda>l. True" "\<lambda>t. True" tlist_isempty
  tlist_insert_before tlist_insert_after tlist_insert_at tlist_remove
proof (unfold_locales, goal_cases)
  case (10 s l n xs x ys)
  then show ?case by (simp add: wf_insert_at)
next
  case (11 s l n k xs x ys)
  then show ?case by (simp add: tq_insert_at)
qed (auto simp: tq_wf_def tlist_isempty_def tlist_remove_def tlist_insert_before_def
    tlist_insert_after_def distinct_removeAll)

subsection \<open>Frame facts of the helpers\<close>

lemma upd_thread_frame [simp]:
  "tq (upd_thread t f s) = tq s" "rt_thread_ready_priority_group (upd_thread t f s) = rt_thread_ready_priority_group s"
  "rt_scheduler_lock_nest (upd_thread t f s) = rt_scheduler_lock_nest s" "rt_current_thread (upd_thread t f s) = rt_current_thread s"
  "rt_current_priority (upd_thread t f s) = rt_current_priority s" "rt_interrupt_nest (upd_thread t f s) = rt_interrupt_nest s"
  "rt_tick (upd_thread t f s) = rt_tick s" "objs (upd_thread t f s) = objs s"
  "object_list (upd_thread t f s) = object_list s" "timers (upd_thread t f s) = timers s"
  "rt_timer_list (upd_thread t f s) = rt_timer_list s" "sems (upd_thread t f s) = sems s"
  "mutexes (upd_thread t f s) = mutexes s" "events (upd_thread t f s) = events s"
  "mailboxes (upd_thread t f s) = mailboxes s" "mqs (upd_thread t f s) = mqs s"
  "mempools (upd_thread t f s) = mempools s"
  by (simp_all add: upd_thread_def)

lemma set_tstat_frame [simp]:
  "tq (set_tstat v t s) = tq s" "rt_thread_ready_priority_group (set_tstat v t s) = rt_thread_ready_priority_group s"
  "rt_scheduler_lock_nest (set_tstat v t s) = rt_scheduler_lock_nest s" "rt_current_thread (set_tstat v t s) = rt_current_thread s"
  "rt_current_priority (set_tstat v t s) = rt_current_priority s" "rt_interrupt_nest (set_tstat v t s) = rt_interrupt_nest s"
  "rt_tick (set_tstat v t s) = rt_tick s" "objs (set_tstat v t s) = objs s"
  "object_list (set_tstat v t s) = object_list s" "timers (set_tstat v t s) = timers s"
  "rt_timer_list (set_tstat v t s) = rt_timer_list s" "sems (set_tstat v t s) = sems s"
  "mutexes (set_tstat v t s) = mutexes s" "events (set_tstat v t s) = events s"
  "mailboxes (set_tstat v t s) = mailboxes s" "mqs (set_tstat v t s) = mqs s"
  "mempools (set_tstat v t s) = mempools s"
  by (simp_all add: set_tstat_def)

lemma upd_obj_frame [simp]:
  "threads (upd_obj i f s) = threads s" "tq (upd_obj i f s) = tq s"
  "rt_thread_ready_priority_group (upd_obj i f s) = rt_thread_ready_priority_group s" "rt_scheduler_lock_nest (upd_obj i f s) = rt_scheduler_lock_nest s"
  "rt_current_thread (upd_obj i f s) = rt_current_thread s" "rt_current_priority (upd_obj i f s) = rt_current_priority s"
  "rt_interrupt_nest (upd_obj i f s) = rt_interrupt_nest s" "rt_tick (upd_obj i f s) = rt_tick s"
  "object_list (upd_obj i f s) = object_list s" "timers (upd_obj i f s) = timers s"
  "rt_timer_list (upd_obj i f s) = rt_timer_list s" "sems (upd_obj i f s) = sems s"
  "mutexes (upd_obj i f s) = mutexes s" "events (upd_obj i f s) = events s"
  "mailboxes (upd_obj i f s) = mailboxes s" "mqs (upd_obj i f s) = mqs s"
  "mempools (upd_obj i f s) = mempools s"
  by (simp_all add: upd_obj_def)

lemma upd_timer_frame [simp]:
  "threads (upd_timer i f s) = threads s" "tq (upd_timer i f s) = tq s"
  "rt_thread_ready_priority_group (upd_timer i f s) = rt_thread_ready_priority_group s" "rt_scheduler_lock_nest (upd_timer i f s) = rt_scheduler_lock_nest s"
  "rt_current_thread (upd_timer i f s) = rt_current_thread s" "rt_current_priority (upd_timer i f s) = rt_current_priority s"
  "rt_interrupt_nest (upd_timer i f s) = rt_interrupt_nest s" "rt_tick (upd_timer i f s) = rt_tick s"
  "objs (upd_timer i f s) = objs s" "object_list (upd_timer i f s) = object_list s"
  "rt_timer_list (upd_timer i f s) = rt_timer_list s" "sems (upd_timer i f s) = sems s"
  "mutexes (upd_timer i f s) = mutexes s" "events (upd_timer i f s) = events s"
  "mailboxes (upd_timer i f s) = mailboxes s" "mqs (upd_timer i f s) = mqs s"
  "mempools (upd_timer i f s) = mempools s"
  by (simp_all add: upd_timer_def)

lemma tlist_remove_frame [simp]:
  "threads (tlist_remove t s) = threads s" "rt_thread_ready_priority_group (tlist_remove t s) = rt_thread_ready_priority_group s"
  "rt_scheduler_lock_nest (tlist_remove t s) = rt_scheduler_lock_nest s" "rt_current_thread (tlist_remove t s) = rt_current_thread s"
  "rt_current_priority (tlist_remove t s) = rt_current_priority s" "rt_interrupt_nest (tlist_remove t s) = rt_interrupt_nest s"
  "rt_tick (tlist_remove t s) = rt_tick s" "objs (tlist_remove t s) = objs s"
  "object_list (tlist_remove t s) = object_list s" "timers (tlist_remove t s) = timers s"
  "rt_timer_list (tlist_remove t s) = rt_timer_list s" "sems (tlist_remove t s) = sems s"
  "mutexes (tlist_remove t s) = mutexes s" "events (tlist_remove t s) = events s"
  "mailboxes (tlist_remove t s) = mailboxes s" "mqs (tlist_remove t s) = mqs s"
  "mempools (tlist_remove t s) = mempools s"
  by (simp_all add: tlist_remove_def)

lemma tlist_insert_before_frame [simp]:
  "threads (tlist_insert_before l t s) = threads s" "rt_thread_ready_priority_group (tlist_insert_before l t s) = rt_thread_ready_priority_group s"
  "rt_scheduler_lock_nest (tlist_insert_before l t s) = rt_scheduler_lock_nest s" "rt_current_thread (tlist_insert_before l t s) = rt_current_thread s"
  "rt_current_priority (tlist_insert_before l t s) = rt_current_priority s" "rt_interrupt_nest (tlist_insert_before l t s) = rt_interrupt_nest s"
  "rt_tick (tlist_insert_before l t s) = rt_tick s" "objs (tlist_insert_before l t s) = objs s"
  "object_list (tlist_insert_before l t s) = object_list s" "timers (tlist_insert_before l t s) = timers s"
  "rt_timer_list (tlist_insert_before l t s) = rt_timer_list s" "sems (tlist_insert_before l t s) = sems s"
  "mutexes (tlist_insert_before l t s) = mutexes s" "events (tlist_insert_before l t s) = events s"
  "mailboxes (tlist_insert_before l t s) = mailboxes s" "mqs (tlist_insert_before l t s) = mqs s"
  "mempools (tlist_insert_before l t s) = mempools s"
  by (simp_all add: tlist_insert_before_def)

lemma tlist_insert_after_frame [simp]:
  "threads (tlist_insert_after l t s) = threads s" "rt_thread_ready_priority_group (tlist_insert_after l t s) = rt_thread_ready_priority_group s"
  "rt_scheduler_lock_nest (tlist_insert_after l t s) = rt_scheduler_lock_nest s" "rt_current_thread (tlist_insert_after l t s) = rt_current_thread s"
  "rt_current_priority (tlist_insert_after l t s) = rt_current_priority s" "rt_interrupt_nest (tlist_insert_after l t s) = rt_interrupt_nest s"
  "rt_tick (tlist_insert_after l t s) = rt_tick s" "objs (tlist_insert_after l t s) = objs s"
  "object_list (tlist_insert_after l t s) = object_list s" "timers (tlist_insert_after l t s) = timers s"
  "rt_timer_list (tlist_insert_after l t s) = rt_timer_list s" "sems (tlist_insert_after l t s) = sems s"
  "mutexes (tlist_insert_after l t s) = mutexes s" "events (tlist_insert_after l t s) = events s"
  "mailboxes (tlist_insert_after l t s) = mailboxes s" "mqs (tlist_insert_after l t s) = mqs s"
  "mempools (tlist_insert_after l t s) = mempools s"
  by (simp_all add: tlist_insert_after_def)

lemma tlist_insert_at_frame [simp]:
  "threads (tlist_insert_at m t s) = threads s" "rt_thread_ready_priority_group (tlist_insert_at m t s) = rt_thread_ready_priority_group s"
  "rt_scheduler_lock_nest (tlist_insert_at m t s) = rt_scheduler_lock_nest s" "rt_current_thread (tlist_insert_at m t s) = rt_current_thread s"
  "rt_current_priority (tlist_insert_at m t s) = rt_current_priority s" "rt_interrupt_nest (tlist_insert_at m t s) = rt_interrupt_nest s"
  "rt_tick (tlist_insert_at m t s) = rt_tick s" "objs (tlist_insert_at m t s) = objs s"
  "object_list (tlist_insert_at m t s) = object_list s" "timers (tlist_insert_at m t s) = timers s"
  "rt_timer_list (tlist_insert_at m t s) = rt_timer_list s" "sems (tlist_insert_at m t s) = sems s"
  "mutexes (tlist_insert_at m t s) = mutexes s" "events (tlist_insert_at m t s) = events s"
  "mailboxes (tlist_insert_at m t s) = mailboxes s" "mqs (tlist_insert_at m t s) = mqs s"
  "mempools (tlist_insert_at m t s) = mempools s"
  by (simp_all add: tlist_insert_at_def)

lemma set_tstat_fields [simp]:
  "sp (threads (set_tstat v t s) u) = sp (threads s u)"
  "entry (threads (set_tstat v t s) u) = entry (threads s u)"
  "parameter (threads (set_tstat v t s) u) = parameter (threads s u)"
  "stack_addr (threads (set_tstat v t s) u) = stack_addr (threads s u)"
  "stack_size (threads (set_tstat v t s) u) = stack_size (threads s u)"
  "stack_mark (threads (set_tstat v t s) u) = stack_mark (threads s u)"
  "err (threads (set_tstat v t s) u) = err (threads s u)"
  "current_priority (threads (set_tstat v t s) u) = current_priority (threads s u)"
  "init_priority (threads (set_tstat v t s) u) = init_priority (threads s u)"
  "number_mask (threads (set_tstat v t s) u) = number_mask (threads s u)"
  "event_set (threads (set_tstat v t s) u) = event_set (threads s u)"
  "event_info (threads (set_tstat v t s) u) = event_info (threads s u)"
  "thread_init_tick (threads (set_tstat v t s) u) = thread_init_tick (threads s u)"
  "remaining_tick (threads (set_tstat v t s) u) = remaining_tick (threads s u)"
  "cleanup (threads (set_tstat v t s) u) = cleanup (threads s u)"
  "user_data (threads (set_tstat v t s) u) = user_data (threads s u)"
  by (simp_all add: set_tstat_def upd_thread_def)

lemma threads_upd_thread [simp]:
  "threads (upd_thread t f s) u = (if u = t then f (threads s t) else threads s u)"
  by (simp add: upd_thread_def)

lemma objs_upd_obj [simp]: "objs (upd_obj i f s) j = (if j = i then f (objs s i) else objs s j)"
  by (simp add: upd_obj_def)

lemma timers_upd_timer [simp]:
  "timers (upd_timer i f s) j = (if j = i then f (timers s i) else timers s j)"
  by (simp add: upd_timer_def)

lemma tq_helpers [simp]:
  "tq (tlist_remove t s) l = removeAll t (tq s l)"
  "tq (tlist_insert_before k t s) l = (if l = k then tq s k @ [t] else tq s l)"
  "tq (tlist_insert_after k t s) l = (if l = k then t # tq s k else tq s l)"
  by (simp_all add: tlist_remove_def tlist_insert_before_def tlist_insert_after_def)

subsection \<open>Thread states\<close>

lemma and_mask_or: "v AND m = v \<Longrightarrow> ((v :: 'a::len word) OR (x AND NOT m)) AND m = v"
  by (metis (no_types, lifting) bit.compl_zero bit.conj_cancel_left bit.conj_disj_distrib2 and.assoc
      bit.conj_zero_right or.right_neutral)

lemma tstat_set_tstat [simp]:
  "v AND 0x0f = v \<Longrightarrow> tstat (set_tstat v t s) u = (if u = t then v else tstat s u)"
  using and_mask_or [of v "0x0f"] by (simp add: tstat_def set_tstat_def)

lemma tstat_cong: "stat (threads s' t) = stat (threads s t) \<Longrightarrow> tstat s' t = tstat s t"
  by (simp add: tstat_def)

end
