(* ===== verification/Rt_Ffs.thy ===== *)
theory Rt_Ffs
  imports Prelude
begin

text \<open>
  The find-first-set routine of \<open>src/kservice.c\<close> that the scheduler uses on the ready
  bitmap: the table of the lowest set bit of a byte, and \<open>__rt_ffs\<close>, which looks up one
  byte of the word after the other.
\<close>

definition lowest_bit_bitmap :: "nat list" where
  "lowest_bit_bitmap =
    [0, 0, 1, 0, 2, 0, 1, 0, 3, 0, 1, 0, 2, 0, 1, 0,
     4, 0, 1, 0, 2, 0, 1, 0, 3, 0, 1, 0, 2, 0, 1, 0,
     5, 0, 1, 0, 2, 0, 1, 0, 3, 0, 1, 0, 2, 0, 1, 0,
     4, 0, 1, 0, 2, 0, 1, 0, 3, 0, 1, 0, 2, 0, 1, 0,
     6, 0, 1, 0, 2, 0, 1, 0, 3, 0, 1, 0, 2, 0, 1, 0,
     4, 0, 1, 0, 2, 0, 1, 0, 3, 0, 1, 0, 2, 0, 1, 0,
     5, 0, 1, 0, 2, 0, 1, 0, 3, 0, 1, 0, 2, 0, 1, 0,
     4, 0, 1, 0, 2, 0, 1, 0, 3, 0, 1, 0, 2, 0, 1, 0,
     7, 0, 1, 0, 2, 0, 1, 0, 3, 0, 1, 0, 2, 0, 1, 0,
     4, 0, 1, 0, 2, 0, 1, 0, 3, 0, 1, 0, 2, 0, 1, 0,
     5, 0, 1, 0, 2, 0, 1, 0, 3, 0, 1, 0, 2, 0, 1, 0,
     4, 0, 1, 0, 2, 0, 1, 0, 3, 0, 1, 0, 2, 0, 1, 0,
     6, 0, 1, 0, 2, 0, 1, 0, 3, 0, 1, 0, 2, 0, 1, 0,
     4, 0, 1, 0, 2, 0, 1, 0, 3, 0, 1, 0, 2, 0, 1, 0,
     5, 0, 1, 0, 2, 0, 1, 0, 3, 0, 1, 0, 2, 0, 1, 0,
     4, 0, 1, 0, 2, 0, 1, 0, 3, 0, 1, 0, 2, 0, 1, 0]"

definition rt_ffs :: "u32 \<Rightarrow> nat" where
  "rt_ffs v =
     (if v = 0 then 0
      else if v AND 0xff \<noteq> 0 then lowest_bit_bitmap ! unat (v AND 0xff) + 1
      else if v AND 0xff00 \<noteq> 0 then lowest_bit_bitmap ! unat (drop_bit 8 (v AND 0xff00)) + 9
      else if v AND 0xff0000 \<noteq> 0 then lowest_bit_bitmap ! unat (drop_bit 16 (v AND 0xff0000)) + 17
      else lowest_bit_bitmap ! unat (drop_bit 24 (v AND 0xff000000)) + 25)"

subsection \<open>The table\<close>

definition table_ok :: "nat \<Rightarrow> bool" where
  "table_ok n \<longleftrightarrow> (let k = lowest_bit_bitmap ! n in k < 8 \<and> n mod 2 ^ k = 0 \<and> odd (n div 2 ^ k))"

lemma table_checked: "list_all table_ok [1..<256]"
  by code_simp

lemma table_entry:
  assumes "0 < n" "n < 256"
  shows "lowest_bit_bitmap ! n < 8" "bit n (lowest_bit_bitmap ! n)"
    "j < lowest_bit_bitmap ! n \<Longrightarrow> \<not> bit n j"
proof -
  have ok: "table_ok n" using table_checked assms by (simp add: list_all_iff)
  then show "lowest_bit_bitmap ! n < 8" "bit n (lowest_bit_bitmap ! n)"
    by (simp_all add: table_ok_def Let_def bit_iff_odd)
  assume j: "j < lowest_bit_bitmap ! n"
  have "2 ^ Suc j dvd (2 :: nat) ^ (lowest_bit_bitmap ! n)" using j by (intro le_imp_power_dvd) simp
  moreover have "2 ^ (lowest_bit_bitmap ! n) dvd n" using ok by (simp add: table_ok_def Let_def dvd_eq_mod_eq_0)
  ultimately have "2 ^ Suc j dvd n" by (rule dvd_trans)
  then show "\<not> bit n j" by (auto simp: bit_iff_odd elim!: dvdE)
qed

subsection \<open>The lowest set bit\<close>

text \<open>One byte of the word: \<open>(value & (0xff << k)) >> k\<close>.\<close>

definition byte_at :: "nat \<Rightarrow> u32 \<Rightarrow> nat" where
  "byte_at k v = unat (drop_bit k (v AND push_bit k (mask 8)))"

lemma byte_at_bit: "bit (byte_at k v) i \<longleftrightarrow> i < 8 \<and> bit v (k + i)"
  using bit_imp_le_length [of v "k + i"]
  by (auto simp: byte_at_def bit_unsigned_iff bit_simps add.commute)

lemma byte_at_less: "byte_at k v < 256"
proof -
  have "byte_at k v = take_bit 8 (byte_at k v)"
    by (rule bit_eqI) (auto simp: byte_at_bit bit_simps)
  then show ?thesis using take_bit_nat_less_exp [of 8 "byte_at k v"] by simp
qed

lemma byte_at_0: "byte_at k v = 0 \<longleftrightarrow> (\<forall>i < 8. \<not> bit v (k + i))"
  by (auto simp: bit_eq_iff byte_at_bit)

lemma rt_ffs_bytes:
  "rt_ffs v =
     (if v = 0 then 0
      else if byte_at 0 v \<noteq> 0 then lowest_bit_bitmap ! byte_at 0 v + 1
      else if byte_at 8 v \<noteq> 0 then lowest_bit_bitmap ! byte_at 8 v + 9
      else if byte_at 16 v \<noteq> 0 then lowest_bit_bitmap ! byte_at 16 v + 17
      else lowest_bit_bitmap ! byte_at 24 v + 25)"
proof -
  have masks: "push_bit 0 (mask 8) = (0xff :: u32)" "push_bit 8 (mask 8) = (0xff00 :: u32)"
    "push_bit 16 (mask 8) = (0xff0000 :: u32)" "push_bit 24 (mask 8) = (0xff000000 :: u32)"
    by (simp_all add: mask_eq_exp_minus_1)
  have z: "v AND push_bit k (mask 8) \<noteq> 0 \<longleftrightarrow> byte_at k v \<noteq> 0" for k
  proof
    assume nz: "v AND push_bit k (mask 8) \<noteq> 0"
    then obtain n where n: "bit (v AND push_bit k (mask 8)) n" unfolding word_neq_0_bit by blast
    then have "k \<le> n" "n - k < 8" "bit v n" by (auto simp: bit_simps)
    then have "bit (byte_at k v) (n - k)" by (simp add: byte_at_bit)
    then show "byte_at k v \<noteq> 0" by (intro notI) simp
  next
    assume b: "byte_at k v \<noteq> 0"
    show "v AND push_bit k (mask 8) \<noteq> 0"
    proof
      assume "v AND push_bit k (mask 8) = 0"
      then have "byte_at k v = 0" unfolding byte_at_def by (simp only: drop_bit_of_0 unat_0)
      with b show False by simp
    qed
  qed
  show ?thesis
    unfolding rt_ffs_def masks [symmetric] z byte_at_def [symmetric] by (simp add: byte_at_def)
qed

lemma byte_lowest:
  assumes b: "byte_at k v \<noteq> 0" and low: "\<forall>i < k. \<not> bit v i"
  shows "bit v (k + lowest_bit_bitmap ! byte_at k v) \<and> lowest_bit_bitmap ! byte_at k v < 8 \<and>
    (\<forall>j < k + lowest_bit_bitmap ! byte_at k v. \<not> bit v j)"
proof -
  have e: "0 < byte_at k v" "byte_at k v < 256" using b byte_at_less by auto
  note T = table_entry [OF e]
  have "\<not> bit v j" if "j < k + lowest_bit_bitmap ! byte_at k v" for j
  proof (cases "j < k")
    case False
    then have "\<not> bit (byte_at k v) (j - k)" "j - k < 8" using that T(1,3) by auto
    then show ?thesis using False by (simp add: byte_at_bit)
  qed (use low in simp)
  then show ?thesis using T byte_at_bit by blast
qed

lemma bits_below_byte:
  assumes "\<forall>i < k. \<not> bit v i" and "byte_at k v = 0"
  shows "\<forall>i < k + 8. \<not> bit v i"
proof (intro allI impI)
  fix i assume "i < k + 8"
  then show "\<not> bit v i" using assms byte_at_0 [of k v]
    by (cases "i < k") (auto dest!: spec [of _ "i - k"])
qed

lemma rt_ffs_lowest:
  assumes "v \<noteq> 0"
  shows "0 < rt_ffs v \<and> rt_ffs v \<le> 32 \<and> bit v (rt_ffs v - 1) \<and> (\<forall>j < rt_ffs v - 1. \<not> bit v j)"
proof -
  have l0: "\<forall>i < 0. \<not> bit v i" by simp
  note l8 = bits_below_byte [OF l0, simplified]
  note l16 = bits_below_byte [OF l8, simplified]
  note l24 = bits_below_byte [OF l16, simplified]
  note l32 = bits_below_byte [OF l24, simplified]
  have "byte_at 24 v \<noteq> 0" if "byte_at 0 v = 0" "byte_at 8 v = 0" "byte_at 16 v = 0"
    using l32 [OF that] assms bit_imp_le_length [of v] by (auto simp: bit_eq_iff)
  then show ?thesis
    using assms byte_lowest [OF _ l0] byte_lowest [OF _ l8] byte_lowest [OF _ l16] byte_lowest [OF _ l24]
    unfolding rt_ffs_bytes by auto
qed

lemma rt_ffs_0: "rt_ffs 0 = 0"
  by (simp add: rt_ffs_def)

text \<open>C16: \<open>__rt_ffs\<close> is the position of the lowest set bit, counted from one, and zero for zero.\<close>

theorem ffs_reference: "rt_ffs v = (if v = 0 then 0 else Suc (LEAST i. bit v i))"
proof (cases "v = 0")
  case False
  note F = rt_ffs_lowest [OF False]
  have "(LEAST i. bit v i) = rt_ffs v - 1"
    using F by (intro Least_equality) (auto simp: not_less [symmetric])
  then show ?thesis using F False by auto
qed (simp add: rt_ffs_def)

end
