(* ===== verification/Scheduler.thy ===== *)
theory Scheduler
  imports Kernel_State Rt_Ffs
begin

text \<open>
  The uniprocessor scheduler of \<open>src/scheduler.c\<close>: the ready lists, one per priority, the
  bitmap of the priorities that have a ready thread, and \<open>rt_schedule\<close>. The interrupt lock
  makes every operation atomic. \<open>None\<close> is a halt: a null current thread, a stack check that
  fails, or an index outside the table of 32 ready lists. The second half defines the
  invariant \<open>kinv\<close> of the kernel and shows what each operation does under it.
\<close>

subsection \<open>Operations\<close>

definition rt_system_scheduler_init :: "kernel \<Rightarrow> kernel" where
  "rt_system_scheduler_init s =
     s\<lparr>rt_scheduler_lock_nest := 0,
       tq := (\<lambda>l. case l of L_ready p \<Rightarrow> if p < 32 then [] else tq s l | L_defunct \<Rightarrow> [] | _ \<Rightarrow> tq s l),
       rt_thread_ready_priority_group := 0\<rparr>"

text \<open>The first thread of the list of the highest ready priority, and that priority.\<close>

definition get_highest_priority_thread :: "kernel \<Rightarrow> (tid \<times> nat) option" where
  "get_highest_priority_thread s =
     (let p = rt_ffs (rt_thread_ready_priority_group s) - 1 in
      if rt_thread_ready_priority_group s = 0 then None
      else case tq s (L_ready p) of [] \<Rightarrow> None | t # _ \<Rightarrow> Some (t, p))"

definition rt_scheduler_stack_check :: "tid \<Rightarrow> kernel \<Rightarrow> unit option" where
  "rt_scheduler_stack_check t s =
     (let th = threads s t in
      if stack_mark th \<noteq> 35 \<or> sp th \<le> stack_addr th \<or> sp th > stack_addr th + stack_size th
      then None else Some ())"

definition rt_schedule_insert_thread :: "tid \<Rightarrow> kernel \<Rightarrow> kernel option" where
  "rt_schedule_insert_thread t s =
     (if rt_current_thread s = Some t then Some (set_tstat RT_THREAD_RUNNING t s)
      else do {
        let s1 = set_tstat RT_THREAD_READY t s;
        rt_assert (current_priority (threads s t) < RT_THREAD_PRIORITY_MAX);
        let s2 = tlist_insert_before (L_ready (prio s t)) t s1;
        Some (s2\<lparr>rt_thread_ready_priority_group :=
                 rt_thread_ready_priority_group s2 OR number_mask (threads s t)\<rparr>)
      })"

definition rt_schedule_remove_thread :: "tid \<Rightarrow> kernel \<Rightarrow> kernel option" where
  "rt_schedule_remove_thread t s = do {
     let s1 = tlist_remove t s;
     rt_assert (current_priority (threads s t) < RT_THREAD_PRIORITY_MAX);
     Some (if tlist_isempty (L_ready (prio s t)) s1
           then s1\<lparr>rt_thread_ready_priority_group :=
                   rt_thread_ready_priority_group s1 AND NOT (number_mask (threads s t))\<rparr>
           else s1)
   }"

definition rt_system_scheduler_start :: "kernel \<Rightarrow> kernel option" where
  "rt_system_scheduler_start s = do {
     (t, p) \<leftarrow> get_highest_priority_thread s;
     let s1 = s\<lparr>rt_current_thread := Some t\<rparr>;
     s2 \<leftarrow> rt_schedule_remove_thread t s1;
     Some (upd_thread t (\<lambda>th. th\<lparr>stat := RT_THREAD_RUNNING\<rparr>) s2)
   }"

text \<open>The switch from \<open>from_thread\<close> to \<open>to_thread\<close> inside \<open>rt_schedule\<close>.\<close>

definition schedule_switch :: "tid \<Rightarrow> tid \<Rightarrow> nat \<Rightarrow> bool \<Rightarrow> kernel \<Rightarrow> kernel option" where
  "schedule_switch from_thread to_thread p need_insert_from_thread s = do {
     let s1 = s\<lparr>rt_current_priority := of_nat p, rt_current_thread := Some to_thread\<rparr>;
     s2 \<leftarrow> (if need_insert_from_thread then rt_schedule_insert_thread from_thread s1 else Some s1);
     s3 \<leftarrow> rt_schedule_remove_thread to_thread s2;
     let s4 = set_tstat RT_THREAD_RUNNING to_thread s3;
     rt_scheduler_stack_check to_thread s4;
     Some s4
   }"

definition rt_schedule :: "kernel \<Rightarrow> kernel option" where
  "rt_schedule s =
     (if rt_scheduler_lock_nest s = 0 \<and> rt_thread_ready_priority_group s \<noteq> 0
      then do {
        (to0, p) \<leftarrow> get_highest_priority_thread s;
        cur \<leftarrow> rt_current_thread s;
        let running = (tstat s cur = RT_THREAD_RUNNING);
        let stay = (running \<and> prio s cur < p);
        let to_thread = (if stay then cur else to0);
        if to_thread \<noteq> cur then schedule_switch cur to_thread p (running \<and> \<not> stay) s
        else do { s1 \<leftarrow> rt_schedule_remove_thread cur s; Some (set_tstat RT_THREAD_RUNNING cur s1) }
      }
      else Some s)"

definition rt_enter_critical :: "kernel \<Rightarrow> kernel" where
  "rt_enter_critical s = s\<lparr>rt_scheduler_lock_nest := rt_scheduler_lock_nest s + 1\<rparr>"

definition rt_exit_critical :: "kernel \<Rightarrow> kernel option" where
  "rt_exit_critical s =
     (let n = rt_scheduler_lock_nest s - 1 in
      if sint n \<le> 0
      then let s1 = s\<lparr>rt_scheduler_lock_nest := 0\<rparr> in
           if rt_current_thread s1 \<noteq> None then rt_schedule s1 else Some s1
      else Some (s\<lparr>rt_scheduler_lock_nest := n\<rparr>))"

definition rt_critical_level :: "kernel \<Rightarrow> u16" where
  "rt_critical_level s = rt_scheduler_lock_nest s"

subsection \<open>The kernel invariant\<close>

text \<open>A started thread, and the lists of threads that wait for an object.\<close>

definition live :: "kernel \<Rightarrow> tid \<Rightarrow> bool" where
  "live s t \<longleftrightarrow> tstat s t = RT_THREAD_READY \<or> tstat s t = RT_THREAD_SUSPEND \<or> tstat s t = RT_THREAD_RUNNING"

fun wait_head :: "lhead \<Rightarrow> bool" where
  "wait_head (L_ready p) = False"
| "wait_head L_defunct = False"
| "wait_head l = True"

definition stack_ok :: "rt_thread \<Rightarrow> bool" where
  "stack_ok th \<longleftrightarrow> stack_mark th = 35 \<and> stack_addr th < sp th \<and> sp th \<le> stack_addr th + stack_size th"

definition otype :: "kernel \<Rightarrow> oid \<Rightarrow> u8" where
  "otype s i = obj_type (objs s i) AND NOT RT_Object_Class_Static"

definition activated :: "kernel \<Rightarrow> timer_id \<Rightarrow> bool" where
  "activated s i \<longleftrightarrow> obj_flag (objs s (O_Timer i)) AND RT_TIMER_FLAG_ACTIVATED \<noteq> 0"

text \<open>The parts of a control block that \<open>rt_thread_init\<close> sets once: the object type, the
  stack, the initial priority, and the embedded timer with its handler.\<close>

definition tcb_ok :: "kernel \<Rightarrow> tid \<Rightarrow> bool" where
  "tcb_ok s t \<longleftrightarrow>
     otype s (O_Thread t) = RT_Object_Class_Thread \<and> stack_ok (threads s t) \<and>
     init_priority (threads s t) < RT_THREAD_PRIORITY_MAX \<and>
     obj_type (objs s (O_Timer (Thread_Timer t))) = RT_Object_Class_Timer OR RT_Object_Class_Static \<and>
     timeout_func (timers s (Thread_Timer t)) = Rt_Thread_Timeout t \<and>
     obj_flag (objs s (O_Timer (Thread_Timer t))) AND RT_TIMER_FLAG_PERIODIC = 0"

definition prio_ok :: "kernel \<Rightarrow> tid \<Rightarrow> bool" where
  "prio_ok s t \<longleftrightarrow> prio s t < 32 \<and> number_mask (threads s t) = push_bit (prio s t) 1"

text \<open>The consistency of lists, bitmap, control blocks and timers. \<open>E\<close> is the set of threads
  in transit: they are on no list and nothing is asked of their state.\<close>

definition kcore :: "tid set \<Rightarrow> kernel \<Rightarrow> bool" where
  "kcore E s \<longleftrightarrow>
     tq_wf s \<and>
     (\<forall>t \<in> E. \<forall>l. t \<notin> set (tq s l)) \<and>
     (\<forall>t p. t \<notin> E \<longrightarrow> (t \<in> set (tq s (L_ready p)) \<longleftrightarrow> tstat s t = RT_THREAD_READY \<and> prio s t = p)) \<and>
     (\<forall>p < 32. bit (rt_thread_ready_priority_group s) p \<longleftrightarrow> tq s (L_ready p) \<noteq> []) \<and>
     (\<forall>t l. t \<in> set (tq s l) \<longrightarrow> wait_head l \<longrightarrow> tstat s t = RT_THREAD_SUSPEND) \<and>
     (\<forall>t. t \<in> set (tq s L_defunct) \<longrightarrow> tstat s t = RT_THREAD_CLOSE) \<and>
     (\<forall>t. t \<notin> E \<longrightarrow> live s t \<longrightarrow> tcb_ok s t \<and> prio_ok s t) \<and>
     (\<forall>t. t \<notin> E \<longrightarrow> tstat s t = RT_THREAD_INIT \<longrightarrow> otype s (O_Thread t) = RT_Object_Class_Thread \<longrightarrow> tcb_ok s t) \<and>
     distinct (rt_timer_list s) \<and>
     (\<forall>i \<in> set (rt_timer_list s). activated s i \<and> otype s (O_Timer i) = RT_Object_Class_Timer) \<and>
     (\<forall>t. t \<notin> E \<longrightarrow> Thread_Timer t \<in> set (rt_timer_list s) \<longrightarrow> tstat s t = RT_THREAD_SUSPEND)"

text \<open>At most one thread is running, the current one; the current thread is running, or has
  left the processor in a call that has yet to reach \<open>rt_schedule\<close>.\<close>

definition cur_ok :: "kernel \<Rightarrow> bool" where
  "cur_ok s \<longleftrightarrow>
     (\<forall>t. tstat s t = RT_THREAD_RUNNING \<longrightarrow> rt_current_thread s = Some t) \<and>
     (\<forall>t. rt_current_thread s = Some t \<longrightarrow> tstat s t \<noteq> RT_THREAD_READY \<and> tstat s t \<noteq> RT_THREAD_INIT)"

definition kinv :: "kernel \<Rightarrow> bool" where
  "kinv s \<longleftrightarrow> kcore {} s \<and> cur_ok s"

lemma kcoreD:
  assumes "kcore E s"
  shows "tq_wf s" "t \<in> E \<Longrightarrow> t \<notin> set (tq s l)"
    "t \<notin> E \<Longrightarrow> t \<in> set (tq s (L_ready p)) \<longleftrightarrow> tstat s t = 1 \<and> prio s t = p"
    "p < 32 \<Longrightarrow> bit (rt_thread_ready_priority_group s) p \<longleftrightarrow> tq s (L_ready p) \<noteq> []"
    "t \<in> set (tq s l) \<Longrightarrow> wait_head l \<Longrightarrow> tstat s t = 2"
    "t \<in> set (tq s L_defunct) \<Longrightarrow> tstat s t = 4"
    "t \<notin> E \<Longrightarrow> live s t \<Longrightarrow> tcb_ok s t" "t \<notin> E \<Longrightarrow> live s t \<Longrightarrow> prio_ok s t"
    "t \<notin> E \<Longrightarrow> tstat s t = 0 \<Longrightarrow> otype s (O_Thread t) = 1 \<Longrightarrow> tcb_ok s t"
    "distinct (rt_timer_list s)"
    "i \<in> set (rt_timer_list s) \<Longrightarrow> activated s i" "i \<in> set (rt_timer_list s) \<Longrightarrow> otype s (O_Timer i) = 10"
    "t \<notin> E \<Longrightarrow> Thread_Timer t \<in> set (rt_timer_list s) \<Longrightarrow> tstat s t = 2"
  using assms unfolding kcore_def by blast+

text \<open>Ready threads have a priority below 32; every list member is started or closed.\<close>

lemma ready_prio: "kcore E s \<Longrightarrow> t \<in> set (tq s (L_ready p)) \<Longrightarrow> p < 32 \<and> t \<notin> E"
  using kcoreD(2,3,8) [of E s] by (metis live_def prio_ok_def)

text \<open>The invariant reads only these parts of the state.\<close>

lemma kcore_cong:
  assumes "kcore E s" and "tq s' = tq s" and "rt_thread_ready_priority_group s' = rt_thread_ready_priority_group s"
    and "rt_timer_list s' = rt_timer_list s" and "objs s' = objs s"
    and "\<And>i. timeout_func (timers s' i) = timeout_func (timers s i)"
    and "\<And>t. stat (threads s' t) = stat (threads s t)"
    and "\<And>t. current_priority (threads s' t) = current_priority (threads s t)"
    and "\<And>t. number_mask (threads s' t) = number_mask (threads s t)"
    and "\<And>t. init_priority (threads s' t) = init_priority (threads s t)"
    and "\<And>t. stack_ok (threads s' t) = stack_ok (threads s t)"
  shows "kcore E s'"
proof -
  have st: "tstat s' = tstat s" using assms(7) by (simp add: tstat_def fun_eq_iff)
  have "live s' = live s" "otype s' = otype s" "activated s' = activated s" "tcb_ok s' = tcb_ok s"
    "prio_ok s' = prio_ok s" "tq_wf s' = tq_wf s"
    using assms by (simp_all add: live_def otype_def activated_def tcb_ok_def prio_ok_def tq_wf_def st fun_eq_iff)
  then show ?thesis using assms(1-4,8) st by (simp add: kcore_def)
qed

lemma kcoreI:
  assumes "tq_wf s" "\<And>t l. t \<in> E \<Longrightarrow> t \<notin> set (tq s l)"
    "\<And>t p. t \<notin> E \<Longrightarrow> t \<in> set (tq s (L_ready p)) \<longleftrightarrow> tstat s t = 1 \<and> prio s t = p"
    "\<And>p. p < 32 \<Longrightarrow> bit (rt_thread_ready_priority_group s) p \<longleftrightarrow> tq s (L_ready p) \<noteq> []"
    "\<And>t l. t \<in> set (tq s l) \<Longrightarrow> wait_head l \<Longrightarrow> tstat s t = 2"
    "\<And>t. t \<in> set (tq s L_defunct) \<Longrightarrow> tstat s t = 4"
    "\<And>t. t \<notin> E \<Longrightarrow> live s t \<Longrightarrow> tcb_ok s t \<and> prio_ok s t"
    "\<And>t. t \<notin> E \<Longrightarrow> tstat s t = 0 \<Longrightarrow> otype s (O_Thread t) = 1 \<Longrightarrow> tcb_ok s t"
    "distinct (rt_timer_list s)"
    "\<And>i. i \<in> set (rt_timer_list s) \<Longrightarrow> activated s i \<and> otype s (O_Timer i) = 10"
    "\<And>t. t \<notin> E \<Longrightarrow> Thread_Timer t \<in> set (rt_timer_list s) \<Longrightarrow> tstat s t = 2"
  shows "kcore E s"
  unfolding kcore_def using assms by blast

subsection \<open>Threads in transit\<close>

text \<open>The effect of \<open>rt_schedule_remove_thread\<close> and of \<open>rt_schedule_insert_thread\<close> on a thread
  that is not current, as total functions.\<close>

definition unready :: "tid \<Rightarrow> kernel \<Rightarrow> kernel" where
  "unready t s =
     (tlist_remove t s)\<lparr>rt_thread_ready_priority_group :=
        (if removeAll t (tq s (L_ready (prio s t))) = []
         then rt_thread_ready_priority_group s AND NOT (number_mask (threads s t))
         else rt_thread_ready_priority_group s)\<rparr>"

definition mkready :: "tid \<Rightarrow> kernel \<Rightarrow> kernel" where
  "mkready t s =
     (tlist_insert_before (L_ready (prio s t)) t (set_tstat RT_THREAD_READY t s))\<lparr>
        rt_thread_ready_priority_group := rt_thread_ready_priority_group s OR number_mask (threads s t)\<rparr>"

lemma remove_thread_eq:
  assumes "prio s t < 32"
  shows "rt_schedule_remove_thread t s = Some (unready t s)"
proof -
  have "current_priority (threads s t) < 32" using assms by (simp add: word_less_nat_alt)
  then show ?thesis
    by (simp add: rt_schedule_remove_thread_def unready_def tlist_isempty_def Let_def)
qed

lemma insert_thread_eq:
  assumes "prio s t < 32" "rt_current_thread s \<noteq> Some t"
  shows "rt_schedule_insert_thread t s = Some (mkready t s)"
proof -
  have "current_priority (threads s t) < 32" using assms by (simp add: word_less_nat_alt)
  then show ?thesis
    using assms(2) by (simp add: rt_schedule_insert_thread_def mkready_def Let_def)
qed

lemma unready_frame [simp]:
  "threads (unready t s) = threads s" "rt_scheduler_lock_nest (unready t s) = rt_scheduler_lock_nest s"
  "rt_current_thread (unready t s) = rt_current_thread s" "rt_current_priority (unready t s) = rt_current_priority s"
  "rt_interrupt_nest (unready t s) = rt_interrupt_nest s" "rt_tick (unready t s) = rt_tick s"
  "objs (unready t s) = objs s" "object_list (unready t s) = object_list s"
  "timers (unready t s) = timers s" "rt_timer_list (unready t s) = rt_timer_list s"
  "sems (unready t s) = sems s" "mutexes (unready t s) = mutexes s"
  "events (unready t s) = events s" "mailboxes (unready t s) = mailboxes s"
  "mqs (unready t s) = mqs s" "mempools (unready t s) = mempools s"
  by (simp_all add: unready_def)

lemma mkready_frame [simp]:
  "rt_scheduler_lock_nest (mkready t s) = rt_scheduler_lock_nest s" "rt_current_thread (mkready t s) = rt_current_thread s"
  "rt_current_priority (mkready t s) = rt_current_priority s" "rt_interrupt_nest (mkready t s) = rt_interrupt_nest s"
  "rt_tick (mkready t s) = rt_tick s" "objs (mkready t s) = objs s"
  "object_list (mkready t s) = object_list s" "timers (mkready t s) = timers s"
  "rt_timer_list (mkready t s) = rt_timer_list s" "sems (mkready t s) = sems s"
  "mutexes (mkready t s) = mutexes s" "events (mkready t s) = events s"
  "mailboxes (mkready t s) = mailboxes s" "mqs (mkready t s) = mqs s"
  "mempools (mkready t s) = mempools s"
  by (simp_all add: mkready_def)

lemma mkready_fields [simp]:
  "sp (threads (mkready t s) u) = sp (threads s u)"
  "entry (threads (mkready t s) u) = entry (threads s u)"
  "parameter (threads (mkready t s) u) = parameter (threads s u)"
  "stack_addr (threads (mkready t s) u) = stack_addr (threads s u)"
  "stack_size (threads (mkready t s) u) = stack_size (threads s u)"
  "stack_mark (threads (mkready t s) u) = stack_mark (threads s u)"
  "err (threads (mkready t s) u) = err (threads s u)"
  "current_priority (threads (mkready t s) u) = current_priority (threads s u)"
  "init_priority (threads (mkready t s) u) = init_priority (threads s u)"
  "number_mask (threads (mkready t s) u) = number_mask (threads s u)"
  "event_set (threads (mkready t s) u) = event_set (threads s u)"
  "event_info (threads (mkready t s) u) = event_info (threads s u)"
  "thread_init_tick (threads (mkready t s) u) = thread_init_tick (threads s u)"
  "remaining_tick (threads (mkready t s) u) = remaining_tick (threads s u)"
  "cleanup (threads (mkready t s) u) = cleanup (threads s u)"
  "user_data (threads (mkready t s) u) = user_data (threads s u)"
  by (simp_all add: mkready_def)

lemma tq_unready [simp]: "tq (unready t s) l = removeAll t (tq s l)"
  by (simp add: unready_def)

lemma tq_mkready [simp]:
  "tq (mkready t s) l = (if l = L_ready (prio s t) then tq s l @ [t] else tq s l)"
  by (simp add: mkready_def)

lemma tstat_simps [simp]:
  "tstat (unready t s) u = tstat s u"
  "tstat (tlist_insert_before l t s) u = tstat s u"
  "tstat (tlist_insert_after l t s) u = tstat s u"
  "tstat (tlist_insert_at m t s) u = tstat s u"
  "tstat (tlist_remove t s) u = tstat s u"
  "tstat (upd_obj i f s) u = tstat s u"
  "tstat (upd_timer j g s) u = tstat s u"
  by (simp_all add: tstat_def)

lemma tstat_mkready [simp]: "tstat (mkready t s) u = (if u = t then 1 else tstat s u)"
  using tstat_set_tstat [of 1 t s u] by (simp add: mkready_def tstat_def)

lemma transit_remove:
  assumes k: "kcore E s" and ok: "prio_ok s t"
  shows "kcore (insert t E) (unready t s)"
proof -
  note D = kcoreD [OF k]
  have m: "number_mask (threads s t) = push_bit (prio s t) 1" and p: "prio s t < 32"
    using ok by (auto simp: prio_ok_def)
  have other: "removeAll t (tq s (L_ready q)) = tq s (L_ready q)" if "q \<noteq> prio s t" for q
    using that D(2,3) by (cases "t \<in> E") auto
  have eq: "live (unready t s) = live s" "tcb_ok (unready t s) = tcb_ok s" "prio_ok (unready t s) = prio_ok s"
    "otype (unready t s) = otype s" "activated (unready t s) = activated s"
    by (simp_all add: live_def tcb_ok_def prio_ok_def otype_def activated_def fun_eq_iff)
  show ?thesis
  proof (rule kcoreI, goal_cases)
    case 1
    then show ?case using tql.wf_remove [OF D(1)] by (simp add: tq_wf_def)
  next
    case (4 q)
    then show ?case
      using D(4) [of q] other [of q] m
      by (cases "q = prio s t") (auto simp: unready_def bit_simps removeAll_eq_Nil_iff)
  qed (use D eq in \<open>auto\<close>)
qed

lemma tq_wf_cong: "tq s' = tq s \<Longrightarrow> tq_wf s' \<longleftrightarrow> tq_wf s"
  by (simp add: tq_wf_def)

text \<open>While a thread is in transit its control block may change freely.\<close>

lemma view_eq_other:
  assumes "\<And>u. u \<noteq> t \<Longrightarrow> threads s' u = threads s u" and "objs s' = objs s" and "timers s' = timers s"
  shows "u \<noteq> t \<Longrightarrow> tstat s' u = tstat s u" "u \<noteq> t \<Longrightarrow> live s' u = live s u"
    "u \<noteq> t \<Longrightarrow> tcb_ok s' u = tcb_ok s u" "u \<noteq> t \<Longrightarrow> prio_ok s' u = prio_ok s u"
    "otype s' = otype s" "activated s' = activated s"
  using assms by (simp_all add: tstat_def live_def tcb_ok_def prio_ok_def otype_def activated_def fun_eq_iff)

lemma transit_upd:
  assumes k: "kcore E s" and t: "t \<in> E"
  shows "kcore E (upd_thread t f s)"
proof -
  note D = kcoreD [OF k]
  note V = view_eq_other [of t "upd_thread t f s" s]
  have ne: "u \<noteq> t" if "u \<in> set (tq s l)" for u l using D(2) [OF t] that by auto
  have ne': "u \<noteq> t" if "u \<notin> E" for u using t that by auto
  show ?thesis
  proof (rule kcoreI, goal_cases)
    case 1
    then show ?case using D(1) by (simp add: tq_wf_def)
  next
    case (7 u)
    then show ?case using D(7,8) V(2-4) ne' [of u] by simp
  next
    case (8 u)
    then show ?case using D(9) V(1,3,5) ne' [of u] by simp
  next
    case (11 u)
    then show ?case using D(13) V(1) ne' [of u] by simp
  qed (use D t ne V in \<open>auto\<close>)
qed

lemma transit_set_tstat: "kcore E s \<Longrightarrow> t \<in> E \<Longrightarrow> kcore E (set_tstat v t s)"
  unfolding set_tstat_def by (rule transit_upd)

lemma transit_ready:
  assumes k: "kcore E s" and t: "t \<in> E" and ok: "tcb_ok s t" "prio_ok s t"
    and tm: "Thread_Timer t \<notin> set (rt_timer_list s)"
  shows "kcore (E - {t}) (mkready t s)"
proof -
  note D = kcoreD [OF k]
  note off = D(2) [OF t]
  have m: "number_mask (threads s t) = push_bit (prio s t) 1" and p: "prio s t < 32"
    using ok(2) by (auto simp: prio_ok_def)
  have eq: "tcb_ok (mkready t s) = tcb_ok s" "prio_ok (mkready t s) = prio_ok s"
    "otype (mkready t s) = otype s" "activated (mkready t s) = activated s"
    by (simp_all add: tcb_ok_def prio_ok_def otype_def activated_def stack_ok_def fun_eq_iff)
  have lv: "u \<noteq> t \<Longrightarrow> live (mkready t s) u = live s u" for u by (simp add: live_def)
  show ?thesis
  proof (rule kcoreI, goal_cases)
    case 1
    have "tq_wf (tlist_insert_before (L_ready (prio s t)) t s)"
      using tql.wf_push_back [OF D(1)] off by simp
    then show ?case by (rule tq_wf_cong [THEN iffD2, rotated]) (simp add: fun_eq_iff)
  next
    case (4 q)
    then show ?case
      using D(4) [of q] m by (auto simp: mkready_def bit_simps)
  next
    case (5 u l)
    then show ?case using D(5) [of u l] off [of l] by (cases l) auto
  next
    case (7 u)
    then show ?case using D(7,8) ok eq lv by (cases "u = t") auto
  next
    case (8 u)
    then show ?case using D(9) [of u] ok eq by (cases "u = t") auto
  next
    case (11 u)
    then show ?case using D(13) [of u] tm by (cases "u = t") auto
  qed (use D off eq in \<open>auto\<close>)
qed

lemma transit_settle:
  assumes k: "kcore E s" and t: "t \<in> E" and st: "tstat s t \<noteq> 1"
    and lv: "live s t \<Longrightarrow> tcb_ok s t \<and> prio_ok s t"
    and ini: "tstat s t = 0 \<Longrightarrow> otype s (O_Thread t) = 1 \<Longrightarrow> tcb_ok s t"
    and tm: "Thread_Timer t \<in> set (rt_timer_list s) \<Longrightarrow> tstat s t = 2"
  shows "kcore (E - {t}) s"
proof -
  note D = kcoreD [OF k]
  show ?thesis
  proof (rule kcoreI, goal_cases)
    case (3 u p)
    then show ?case using D(2) [OF t] D(3) st by (cases "u = t") auto
  next
    case (7 u)
    then show ?case using D(7,8) lv by (cases "u = t") auto
  next
    case (8 u)
    then show ?case using D(9) [of u] ini by (cases "u = t") auto
  next
    case (11 u)
    then show ?case using D(13) [of u] tm by (cases "u = t") auto
  qed (use D in \<open>auto\<close>)
qed

text \<open>A thread enters a wait list: the new lists are well formed, gain only \<open>t\<close>, and only in \<open>l\<close>.\<close>

lemma transit_wait:
  assumes k: "kcore E s" and t: "t \<in> E" and st: "tstat s t = 2" and ok: "tcb_ok s t" "prio_ok s t"
    and l: "wait_head l" and wf: "tq_wf (s\<lparr>tq := q\<rparr>)"
    and q: "\<And>m. m \<noteq> l \<Longrightarrow> q m = tq s m" "set (q l) = insert t (set (tq s l))"
  shows "kcore (E - {t}) (s\<lparr>tq := q\<rparr>)"
proof -
  note D = kcoreD [OF k]
  let ?s = "s\<lparr>tq := q\<rparr>"
  have eq: "tstat ?s = tstat s" "live ?s = live s" "tcb_ok ?s = tcb_ok s" "prio_ok ?s = prio_ok s"
    "otype ?s = otype s" "activated ?s = activated s"
    by (simp_all add: tstat_def live_def tcb_ok_def prio_ok_def otype_def activated_def fun_eq_iff)
  have nr: "l \<noteq> L_ready p" "l \<noteq> L_defunct" for p using l by auto
  have mem: "u \<in> set (q m) \<longleftrightarrow> u \<in> set (tq s m) \<or> (u = t \<and> m = l)" for u m
    using q by (cases "m = l") auto
  show ?thesis
  proof (rule kcoreI, goal_cases)
    case 1
    show ?case by (rule wf)
  next
    case (3 u p)
    then show ?case using D(2) [OF t] D(3) [of u] mem nr st by (cases "u = t") (auto simp: eq)
  next
    case (4 p)
    then show ?case using D(4) [of p] q(1) [of "L_ready p"] nr(1) [of p] by (simp add: eq_commute)
  next
    case (7 u)
    then show ?case using D(7,8) ok by (cases "u = t") (auto simp: eq)
  next
    case (8 u)
    then show ?case using D(9) [of u] st by (cases "u = t") (auto simp: eq)
  next
    case (11 u)
    then show ?case using D(13) [of u] st by (cases "u = t") (auto simp: eq)
  qed (use D mem nr st t in \<open>auto simp: eq\<close>)
qed

lemma transit_out:
  assumes k: "kcore E s" and off: "\<And>l. t \<notin> set (tq s l)"
  shows "kcore (insert t E) s"
  using kcoreD [OF k] off by (intro kcoreI) auto

text \<open>A thread that is neither ready nor suspended nor closed is on no list.\<close>

lemma off_lists_stat:
  assumes k: "kcore E s" and st: "tstat s t = 3 \<or> tstat s t = 0"
  shows "t \<notin> set (tq s l)"
proof -
  note D = kcoreD [OF k]
  show ?thesis
  proof (cases "t \<in> E")
    case False
    then show ?thesis using D(3) [of t] D(5) [of t l] D(6) [of t] st by (cases l) auto
  qed (rule D(2))
qed

subsection \<open>rt_schedule\<close>

lemma highest_ready:
  assumes k: "kcore E s" and g: "rt_thread_ready_priority_group s \<noteq> 0"
  obtains t ts p where "tq s (L_ready p) = t # ts" "p < 32" "get_highest_priority_thread s = Some (t, p)"
    "\<And>q. q < p \<Longrightarrow> tq s (L_ready q) = []" "tstat s t = 1" "prio s t = p" "t \<notin> E"
    "tcb_ok s t" "prio_ok s t"
proof -
  note D = kcoreD [OF k]
  let ?p = "rt_ffs (rt_thread_ready_priority_group s) - 1"
  note F = rt_ffs_lowest [OF g]
  then have p: "?p < 32" by auto
  with D(4) F obtain t ts where q: "tq s (L_ready ?p) = t # ts" by (cases "tq s (L_ready ?p)") auto
  have low: "tq s (L_ready q) = []" if "q < ?p" for q using F D(4) [of q] that p by auto
  have "t \<in> set (tq s (L_ready ?p))" using q by simp
  then have t: "t \<notin> E" "tstat s t = 1" "prio s t = ?p" using ready_prio [OF k] D(3) by blast+
  then have "live s t" by (simp add: live_def)
  moreover have "get_highest_priority_thread s = Some (t, ?p)"
    using g q by (simp add: get_highest_priority_thread_def)
  ultimately show thesis using that [OF q p _ low] t D(7,8) by blast
qed

lemma stack_check_ok: "stack_ok (threads s t) \<Longrightarrow> rt_scheduler_stack_check t s = Some ()"
  by (auto simp: rt_scheduler_stack_check_def stack_ok_def Let_def)

text \<open>Fields that the scheduler leaves alone.\<close>

lemma set_current_simps [simp]:
  "tstat (s\<lparr>rt_current_thread := c\<rparr>) u = tstat s u" "tstat (s\<lparr>rt_current_priority := q\<rparr>) u = tstat s u"
  by (simp_all add: tstat_def)

lemma kcore_set_current: "kcore E s \<Longrightarrow> kcore E (s\<lparr>rt_current_priority := q, rt_current_thread := c\<rparr>)"
  by (rule kcore_cong [of E s]) simp_all

lemma run_thread:
  assumes k: "kcore E s" and t: "tcb_ok s t" "prio_ok s t" "t \<notin> E"
    and tm: "Thread_Timer t \<notin> set (rt_timer_list s)"
  shows "kcore E (set_tstat 3 t (unready t s))"
proof -
  have "kcore (insert t E) (set_tstat 3 t (unready t s))"
    using transit_set_tstat [OF transit_remove [OF k t(2)]] by simp
  moreover have "tcb_ok (set_tstat 3 t (unready t s)) t" "prio_ok (set_tstat 3 t (unready t s)) t"
    using t by (simp_all add: tcb_ok_def prio_ok_def otype_def stack_ok_def)
  ultimately have "kcore (insert t E - {t}) (set_tstat 3 t (unready t s))"
    by (intro transit_settle) (use tm in \<open>auto simp: live_def\<close>)
  then show ?thesis using t(3) by simp
qed

lemma requeue_running:
  assumes k: "kcore {} s" and c: "tstat s c = 3"
  shows "kcore {} (mkready c s)"
proof -
  have "kcore (insert c {}) s" using transit_out [OF k] off_lists_stat [OF k] c by blast
  moreover have "tcb_ok s c" "prio_ok s c" using kcoreD(7,8) [OF k, of c] c by (auto simp: live_def)
  moreover have "Thread_Timer c \<notin> set (rt_timer_list s)" using kcoreD(13) [OF k, of c] c by auto
  ultimately have "kcore (insert c {} - {c}) (mkready c s)" by (intro transit_ready) auto
  then show ?thesis by simp
qed

text \<open>The state after a switch to \<open>t\<close>; a running thread that gives way goes to the tail of its
  ready list first.\<close>

definition switched :: "tid option \<Rightarrow> tid \<Rightarrow> kernel \<Rightarrow> kernel" where
  "switched requeue t s =
     (let s1 = s\<lparr>rt_current_priority := current_priority (threads s t), rt_current_thread := Some t\<rparr>;
          s2 = (case requeue of None \<Rightarrow> s1 | Some c \<Rightarrow> mkready c s1)
      in set_tstat RT_THREAD_RUNNING t (unready t s2))"

lemma cur_okI:
  assumes "\<And>t. rt_current_thread s \<noteq> Some t \<Longrightarrow> tstat s t \<noteq> 3"
    and "\<And>t. rt_current_thread s = Some t \<Longrightarrow> tstat s t \<noteq> 1 \<and> tstat s t \<noteq> 0"
  shows "cur_ok s"
  using assms by (auto simp: cur_ok_def)

lemma kinvD: "kinv s \<Longrightarrow> kcore {} s" "kinv s \<Longrightarrow> cur_ok s"
  by (simp_all add: kinv_def)

lemma running_current: "kinv s \<Longrightarrow> tstat s t = 3 \<Longrightarrow> rt_current_thread s = Some t"
  by (simp add: kinv_def cur_ok_def)

lemma running_unique: "kinv s \<Longrightarrow> tstat s c = 3 \<Longrightarrow> t \<noteq> c \<Longrightarrow> tstat s t \<noteq> 3"
  using running_current [of s t] running_current [of s c] by auto

lemma prio_of_nat [simp]: "of_nat (prio s t) = current_priority (threads s t)"
  by simp

lemma rt_schedule_cases:
  assumes k: "kinv s" and c: "rt_current_thread s = Some c"
  obtains (idle) "rt_scheduler_lock_nest s \<noteq> 0 \<or> rt_thread_ready_priority_group s = 0" "rt_schedule s = Some s"
  | (stay) t ts where "rt_scheduler_lock_nest s = 0" "tq s (L_ready (prio s t)) = t # ts"
      "\<And>q. q < prio s t \<Longrightarrow> tq s (L_ready q) = []"
      "tstat s c = 3" "prio s c < prio s t" "rt_schedule s = Some (set_tstat 3 c (unready c s))"
  | (go) t ts where "rt_scheduler_lock_nest s = 0" "tq s (L_ready (prio s t)) = t # ts"
      "\<And>q. q < prio s t \<Longrightarrow> tq s (L_ready q) = []" "t \<noteq> c" "tstat s t = 1"
      "tstat s c = 3 \<longrightarrow> prio s t \<le> prio s c"
      "rt_schedule s = Some (switched (if tstat s c = 3 then Some c else None) t s)"
proof (cases "rt_scheduler_lock_nest s = 0 \<and> rt_thread_ready_priority_group s \<noteq> 0")
  case False
  then show thesis using idle by (auto simp: rt_schedule_def)
next
  case True
  note K = kinvD(1) [OF k]
  obtain t ts where h: "tq s (L_ready (prio s t)) = t # ts" "prio s t < 32"
      "get_highest_priority_thread s = Some (t, prio s t)" "\<And>q. q < prio s t \<Longrightarrow> tq s (L_ready q) = []"
      "tstat s t = 1" "tcb_ok s t" "prio_ok s t"
    using highest_ready [OF K] True by metis
  have tc: "t \<noteq> c" using k c h(5) by (auto simp: kinv_def cur_ok_def)
  show thesis
  proof (cases "tstat s c = 3 \<and> prio s c < prio s t")
    case stay': True
    have "prio s c < 32" using kcoreD(8) [OF K, of c] stay' by (simp add: live_def prio_ok_def)
    then have "rt_schedule s = Some (set_tstat 3 c (unready c s))"
      using True stay' h(3) c by (simp add: rt_schedule_def remove_thread_eq)
    then show thesis using stay stay' True h(1,4) by blast
  next
    case False
    let ?s1 = "s\<lparr>rt_current_priority := current_priority (threads s t), rt_current_thread := Some t\<rparr>"
    let ?requeue = "if tstat s c = 3 then Some c else None"
    have ins: "rt_schedule_insert_thread c ?s1 = Some (mkready c ?s1)" if "tstat s c = 3"
      using that tc kcoreD(8) [OF K, of c] by (intro insert_thread_eq) (auto simp: live_def prio_ok_def)
    have "rt_schedule s = Some (switched ?requeue t s)"
      using True False h(2,3,6) c tc ins
      by (auto simp: rt_schedule_def schedule_switch_def switched_def Let_def remove_thread_eq
          stack_check_ok tcb_ok_def stack_ok_def)
    then show thesis using go True False h tc by (meson not_le)
  qed
qed

lemma switched_frame [simp]:
  "rt_scheduler_lock_nest (switched b t s) = rt_scheduler_lock_nest s"
  "rt_interrupt_nest (switched b t s) = rt_interrupt_nest s"
  "rt_tick (switched b t s) = rt_tick s"
  "objs (switched b t s) = objs s"
  "object_list (switched b t s) = object_list s"
  "timers (switched b t s) = timers s"
  "rt_timer_list (switched b t s) = rt_timer_list s"
  "sems (switched b t s) = sems s"
  "mutexes (switched b t s) = mutexes s"
  "events (switched b t s) = events s"
  "mailboxes (switched b t s) = mailboxes s"
  "mqs (switched b t s) = mqs s"
  "mempools (switched b t s) = mempools s"
  "sp (threads (switched b t s) u) = sp (threads s u)"
  "entry (threads (switched b t s) u) = entry (threads s u)"
  "parameter (threads (switched b t s) u) = parameter (threads s u)"
  "stack_addr (threads (switched b t s) u) = stack_addr (threads s u)"
  "stack_size (threads (switched b t s) u) = stack_size (threads s u)"
  "stack_mark (threads (switched b t s) u) = stack_mark (threads s u)"
  "err (threads (switched b t s) u) = err (threads s u)"
  "current_priority (threads (switched b t s) u) = current_priority (threads s u)"
  "init_priority (threads (switched b t s) u) = init_priority (threads s u)"
  "number_mask (threads (switched b t s) u) = number_mask (threads s u)"
  "event_set (threads (switched b t s) u) = event_set (threads s u)"
  "event_info (threads (switched b t s) u) = event_info (threads s u)"
  "thread_init_tick (threads (switched b t s) u) = thread_init_tick (threads s u)"
  "remaining_tick (threads (switched b t s) u) = remaining_tick (threads s u)"
  "cleanup (threads (switched b t s) u) = cleanup (threads s u)"
  "user_data (threads (switched b t s) u) = user_data (threads s u)"
  by (simp_all add: switched_def Let_def split: option.splits)

lemma current_switched [simp]: "rt_current_thread (switched b t s) = Some t"
  by (simp add: switched_def Let_def split: option.splits)

lemma tstat_switched [simp]:
  "tstat (switched b t s) u = (if u = t then 3 else if b = Some u then 1 else tstat s u)"
  by (simp add: switched_def Let_def split: option.splits)

lemma tq_switched [simp]:
  "tq (switched b t s) l =
     removeAll t (case b of Some c \<Rightarrow> if l = L_ready (prio s c) then tq s l @ [c] else tq s l | None \<Rightarrow> tq s l)"
  by (simp add: switched_def Let_def split: option.splits)

lemma kcore_switched:
  assumes k: "kcore {} s" and t: "tstat s t = 1" and b: "b = None \<or> (\<exists>c. b = Some c \<and> tstat s c = 3)"
  shows "kcore {} (switched b t s)"
proof -
  let ?s1 = "s\<lparr>rt_current_priority := current_priority (threads s t), rt_current_thread := Some t\<rparr>"
  have k1: "kcore {} ?s1" by (rule kcore_set_current [OF k])
  define s2 where "s2 = (case b of None \<Rightarrow> ?s1 | Some c \<Rightarrow> mkready c ?s1)"
  have k2: "kcore {} s2" using k1 b requeue_running [OF k1] by (auto simp: s2_def)
  have "tstat s2 t = 1" "rt_timer_list s2 = rt_timer_list s"
    using t b by (auto simp: s2_def split: option.splits)
  then have "live s2 t" "Thread_Timer t \<notin> set (rt_timer_list s2)"
    using kcoreD(13) [OF k, of t] t by (auto simp: live_def)
  then have "kcore {} (set_tstat 3 t (unready t s2))"
    using run_thread [OF k2] kcoreD(7,8) [OF k2] by simp
  then show ?thesis by (simp add: switched_def s2_def Let_def)
qed

lemma kinv_switched:
  assumes k: "kinv s" and c: "rt_current_thread s = Some c" and t: "tstat s t = 1" "t \<noteq> c"
  shows "kinv (switched (if tstat s c = 3 then Some c else None) t s)"
proof -
  have only: "tstat s u \<noteq> 3" if "u \<noteq> c" for u using running_current [OF k, of u] c that by auto
  have "tstat (switched (if tstat s c = 3 then Some c else None) t s) u \<noteq> 3" if "u \<noteq> t" for u
    using only [of u] that by (cases "u = c") auto
  then have "cur_ok (switched (if tstat s c = 3 then Some c else None) t s)"
    by (intro cur_okI) (metis current_switched, simp)
  then show ?thesis using kcore_switched [OF kinvD(1) [OF k] t(1)] by (simp add: kinv_def)
qed

lemma kinv_stay:
  assumes k: "kinv s" and c: "tstat s c = 3"
  shows "kinv (set_tstat 3 c (unready c s))"
proof -
  note K = kinvD(1) [OF k]
  have "live s c" using c by (simp add: live_def)
  then have "kcore {} (set_tstat 3 c (unready c s))"
    using run_thread [OF K] kcoreD(7,8,13) [OF K, of c] c by auto
  moreover have "cur_ok (set_tstat 3 c (unready c s))"
    using running_unique [OF k c] running_current [OF k c] by (simp add: cur_ok_def)
  ultimately show ?thesis by (simp add: kinv_def)
qed

lemma rt_schedule_frame:
  assumes "kinv s" "rt_current_thread s = Some c" "rt_schedule s = Some s'"
  shows "rt_scheduler_lock_nest s' = rt_scheduler_lock_nest s"
    "rt_interrupt_nest s' = rt_interrupt_nest s"
    "rt_tick s' = rt_tick s"
    "objs s' = objs s"
    "object_list s' = object_list s"
    "timers s' = timers s"
    "rt_timer_list s' = rt_timer_list s"
    "sems s' = sems s"
    "mutexes s' = mutexes s"
    "events s' = events s"
    "mailboxes s' = mailboxes s"
    "mqs s' = mqs s"
    "mempools s' = mempools s"
    "sp (threads s' u) = sp (threads s u)"
    "entry (threads s' u) = entry (threads s u)"
    "parameter (threads s' u) = parameter (threads s u)"
    "stack_addr (threads s' u) = stack_addr (threads s u)"
    "stack_size (threads s' u) = stack_size (threads s u)"
    "stack_mark (threads s' u) = stack_mark (threads s u)"
    "err (threads s' u) = err (threads s u)"
    "current_priority (threads s' u) = current_priority (threads s u)"
    "init_priority (threads s' u) = init_priority (threads s u)"
    "number_mask (threads s' u) = number_mask (threads s u)"
    "event_set (threads s' u) = event_set (threads s u)"
    "event_info (threads s' u) = event_info (threads s u)"
    "thread_init_tick (threads s' u) = thread_init_tick (threads s u)"
    "remaining_tick (threads s' u) = remaining_tick (threads s u)"
    "cleanup (threads s' u) = cleanup (threads s u)"
    "user_data (threads s' u) = user_data (threads s u)"
  by (rule rt_schedule_cases [OF assms(1,2)]; use assms(3) in simp)+

lemma rt_schedule_total:
  assumes k: "kinv s" and c: "rt_current_thread s = Some c"
  shows "\<exists>s'. rt_schedule s = Some s' \<and> kinv s' \<and> rt_current_thread s' \<noteq> None"
  using k c
proof (cases rule: rt_schedule_cases)
  case (stay t ts)
  then show ?thesis using kinv_stay [OF k] c by simp
next
  case (go t ts)
  then show ?thesis using kinv_switched [OF k c] by simp
qed (use k c in simp)

text \<open>Lists other than the ready lists are not touched.\<close>

lemma rt_schedule_wait_lists:
  assumes k: "kinv s" and c: "rt_current_thread s = Some c" and r: "rt_schedule s = Some s'"
    and l: "\<And>p. l \<noteq> L_ready p"
  shows "tq s' l = tq s l"
  using k c
proof (cases rule: rt_schedule_cases)
  case (stay t ts)
  then show ?thesis using r off_lists_stat [OF kinvD(1) [OF k], of c l] by simp
next
  case (go t ts)
  have "t \<notin> set (tq s l)"
    using go(2) l kcoreD(1) [OF kinvD(1) [OF k]] unfolding tq_wf_def
    by (metis IntI empty_iff list.set_intros(1))
  moreover have "s' = switched (if tstat s c = 3 then Some c else None) t s" using r go by simp
  ultimately show ?thesis using l by simp
qed (use r in simp)

lemma rt_schedule_stat:
  assumes k: "kinv s" and c: "rt_current_thread s = Some c" and r: "rt_schedule s = Some s'"
  shows "tstat s u = 0 \<or> tstat s u = 2 \<or> tstat s u = 4 \<Longrightarrow> tstat s' u = tstat s u"
    and "tstat s' u = 0 \<or> tstat s' u = 2 \<or> tstat s' u = 4 \<Longrightarrow> tstat s u = tstat s' u"
  using k c by (cases rule: rt_schedule_cases; use r in \<open>auto split: if_splits\<close>)+

lemma rt_schedule_runnable:
  assumes k: "kinv s" and c: "rt_current_thread s = Some c" and r: "rt_schedule s = Some s'"
    and u: "tstat s u = 1 \<or> tstat s u = 3"
  shows "tstat s' u = 1 \<or> tstat s' u = 3"
  using k c by (cases rule: rt_schedule_cases) (use r u in \<open>auto split: if_splits\<close>)

end
