(* ===== verification/Objects.thy ===== *)
theory Objects
  imports Scheduler
begin

text \<open>
  The object system of \<open>src/object.c\<close>: the header every kernel object starts with, one list
  of objects per class, and initialisation, detaching, allocation, deletion and lookup.
  What \<open>RT_KERNEL_MALLOC\<close> answers is an argument of the operations that allocate: the name of
  the fresh control block, or \<open>None\<close>.
\<close>

subsection \<open>Operations\<close>

text \<open>The container has an entry for these classes; \<open>rt_object_get_information\<close> searches it.\<close>

definition object_container :: "u8 list" where
  "object_container =
     [RT_Object_Class_Thread, RT_Object_Class_Semaphore, RT_Object_Class_Mutex, RT_Object_Class_Event,
      RT_Object_Class_MailBox, RT_Object_Class_MessageQueue, RT_Object_Class_MemHeap,
      RT_Object_Class_MemPool, RT_Object_Class_Device, RT_Object_Class_Timer]"

fun find_class :: "u8 \<Rightarrow> u8 list \<Rightarrow> u8 option" where
  "find_class c [] = None"
| "find_class c (x # xs) = (if x = c then Some x else find_class c xs)"

definition rt_object_get_information :: "u8 \<Rightarrow> u8 option" where
  "rt_object_get_information c = find_class c object_container"

text \<open>\<open>rt_strncpy\<close> into the name field: at most eight characters, without the terminator when
  the name is longer; reading stops at the terminator.\<close>

definition object_name :: "string \<Rightarrow> string" where
  "object_name nm = take 8 (takeWhile (\<lambda>c. c \<noteq> CHR 0x00) nm)"

definition rt_object_init :: "oid \<Rightarrow> u8 \<Rightarrow> string \<Rightarrow> kernel \<Rightarrow> kernel option" where
  "rt_object_init i c nm s = do {
     inf \<leftarrow> rt_object_get_information c;
     let s1 = rt_enter_critical s;
     rt_assert (i \<notin> set (object_list s1 inf));
     s2 \<leftarrow> rt_exit_critical s1;
     let s3 = upd_obj i (\<lambda>ob. ob\<lparr>obj_type := c OR RT_Object_Class_Static, obj_name := object_name nm\<rparr>) s2;
     Some (s3\<lparr>object_list := (object_list s3)(inf := i # object_list s3 inf)\<rparr>)
   }"

text \<open>The removal of the list node of an object from the list it is on.\<close>

definition object_unlink :: "oid \<Rightarrow> kernel \<Rightarrow> kernel" where
  "object_unlink i s = s\<lparr>object_list := (\<lambda>c. removeAll i (object_list s c))\<rparr>"

definition rt_object_detach :: "oid \<Rightarrow> kernel \<Rightarrow> kernel" where
  "rt_object_detach i s = object_unlink i (upd_obj i (\<lambda>ob. ob\<lparr>obj_type := 0\<rparr>) s)"

definition rt_object_allocate ::
  "oid option \<Rightarrow> u8 \<Rightarrow> string \<Rightarrow> kernel \<Rightarrow> (oid option \<times> kernel) option" where
  "rt_object_allocate fresh c nm s = do {
     rt_assert (rt_interrupt_nest s = 0);
     inf \<leftarrow> rt_object_get_information c;
     case fresh of
       None \<Rightarrow> Some (None, s)
     | Some i \<Rightarrow>
         let s1 = upd_obj i (\<lambda>ob. \<lparr>obj_name = object_name nm, obj_type = c, obj_flag = 0\<rparr>) s in
         Some (Some i, s1\<lparr>object_list := (object_list s1)(inf := i # object_list s1 inf)\<rparr>)
   }"

definition rt_object_is_systemobject :: "oid \<Rightarrow> kernel \<Rightarrow> bool" where
  "rt_object_is_systemobject i s \<longleftrightarrow> obj_type (objs s i) AND RT_Object_Class_Static \<noteq> 0"

definition rt_object_get_type :: "oid \<Rightarrow> kernel \<Rightarrow> u8" where
  "rt_object_get_type i s = obj_type (objs s i) AND NOT RT_Object_Class_Static"

definition rt_object_delete :: "oid \<Rightarrow> kernel \<Rightarrow> kernel option" where
  "rt_object_delete i s = do {
     rt_assert (\<not> rt_object_is_systemobject i s);
     Some (object_unlink i (upd_obj i (\<lambda>ob. ob\<lparr>obj_type := 0\<rparr>) s))
   }"

text \<open>The loop of \<open>rt_object_find\<close>: names are compared on at most eight characters.\<close>

fun find_by_name :: "kernel \<Rightarrow> string \<Rightarrow> oid list \<Rightarrow> oid option" where
  "find_by_name s nm [] = None"
| "find_by_name s nm (i # is) =
     (if obj_name (objs s i) = object_name nm then Some i else find_by_name s nm is)"

definition rt_object_find :: "string \<Rightarrow> u8 \<Rightarrow> kernel \<Rightarrow> (oid option \<times> kernel) option" where
  "rt_object_find nm c s =
     (if c > RT_Object_Class_Unknown then Some (None, s)
      else do {
        rt_assert (rt_interrupt_nest s = 0);
        let s1 = rt_enter_critical s;
        inf \<leftarrow> rt_object_get_information c;
        s2 \<leftarrow> rt_exit_critical s1;
        Some (find_by_name s1 nm (object_list s1 inf), s2)
      })"

subsection \<open>Frame facts\<close>

lemma object_unlink_frame [simp]:
  "threads (object_unlink i s) = threads s" "tq (object_unlink i s) = tq s"
  "rt_thread_ready_priority_group (object_unlink i s) = rt_thread_ready_priority_group s" "rt_scheduler_lock_nest (object_unlink i s) = rt_scheduler_lock_nest s"
  "rt_current_thread (object_unlink i s) = rt_current_thread s" "rt_current_priority (object_unlink i s) = rt_current_priority s"
  "rt_interrupt_nest (object_unlink i s) = rt_interrupt_nest s" "rt_tick (object_unlink i s) = rt_tick s"
  "objs (object_unlink i s) = objs s" "timers (object_unlink i s) = timers s"
  "rt_timer_list (object_unlink i s) = rt_timer_list s" "sems (object_unlink i s) = sems s"
  "mutexes (object_unlink i s) = mutexes s" "events (object_unlink i s) = events s"
  "mailboxes (object_unlink i s) = mailboxes s" "mqs (object_unlink i s) = mqs s"
  "mempools (object_unlink i s) = mempools s"
  by (simp_all add: object_unlink_def)

lemma rt_object_detach_frame [simp]:
  "threads (rt_object_detach i s) = threads s" "tq (rt_object_detach i s) = tq s"
  "rt_thread_ready_priority_group (rt_object_detach i s) = rt_thread_ready_priority_group s" "rt_scheduler_lock_nest (rt_object_detach i s) = rt_scheduler_lock_nest s"
  "rt_current_thread (rt_object_detach i s) = rt_current_thread s" "rt_current_priority (rt_object_detach i s) = rt_current_priority s"
  "rt_interrupt_nest (rt_object_detach i s) = rt_interrupt_nest s" "rt_tick (rt_object_detach i s) = rt_tick s"
  "timers (rt_object_detach i s) = timers s" "rt_timer_list (rt_object_detach i s) = rt_timer_list s"
  "sems (rt_object_detach i s) = sems s" "mutexes (rt_object_detach i s) = mutexes s"
  "events (rt_object_detach i s) = events s" "mailboxes (rt_object_detach i s) = mailboxes s"
  "mqs (rt_object_detach i s) = mqs s" "mempools (rt_object_detach i s) = mempools s"
  by (simp_all add: rt_object_detach_def)

lemma objs_detach [simp]:
  "objs (rt_object_detach i s) j = (if j = i then (objs s i)\<lparr>obj_type := 0\<rparr> else objs s j)"
  by (simp add: rt_object_detach_def)

lemma tstat_detach [simp]:
  "tstat (rt_object_detach i s) t = tstat s t" "tstat (object_unlink i s) t = tstat s t"
  by (simp_all add: tstat_def)

lemma get_type_otype: "rt_object_get_type i s = otype s i"
  by (simp add: rt_object_get_type_def otype_def)

subsection \<open>Object headers and the kernel invariant\<close>

lemma kcore_objs:
  assumes k: "kcore E s" and same: "tq s' = tq s" "threads s' = threads s" "timers s' = timers s"
      "rt_thread_ready_priority_group s' = rt_thread_ready_priority_group s" "rt_timer_list s' = rt_timer_list s"
    and th: "\<And>t. t \<notin> E \<Longrightarrow> obj_type (objs s' (O_Thread t)) = obj_type (objs s (O_Thread t))"
      "\<And>t. t \<notin> E \<Longrightarrow> obj_type (objs s' (O_Timer (Thread_Timer t))) = obj_type (objs s (O_Timer (Thread_Timer t)))"
      "\<And>t. t \<notin> E \<Longrightarrow> obj_flag (objs s' (O_Timer (Thread_Timer t))) = obj_flag (objs s (O_Timer (Thread_Timer t)))"
    and tm: "\<And>i. i \<in> set (rt_timer_list s) \<Longrightarrow> objs s' (O_Timer i) = objs s (O_Timer i)"
  shows "kcore E s'"
proof -
  note D = kcoreD [OF k]
  have eq: "tstat s' = tstat s" "live s' = live s" "prio_ok s' = prio_ok s"
    using same by (simp_all add: tstat_def live_def prio_ok_def fun_eq_iff)
  have tcb: "tcb_ok s' t = tcb_ok s t" "otype s' (O_Thread t) = otype s (O_Thread t)" if "t \<notin> E" for t
    using that same th by (simp_all add: tcb_ok_def otype_def)
  have act: "activated s' i = activated s i" "otype s' (O_Timer i) = otype s (O_Timer i)"
    if "i \<in> set (rt_timer_list s)" for i using tm [OF that] by (simp_all add: activated_def otype_def)
  show ?thesis
  proof (rule kcoreI, goal_cases)
    case 1
    show ?case using D(1) same by (simp add: tq_wf_def)
  next
    case (7 t)
    then show ?case using D(7,8) [of t] tcb eq by simp
  next
    case (8 t)
    then show ?case using D(9) [of t] tcb eq by simp
  next
    case (10 i)
    then show ?case using D(11,12) [of i] act same by simp
  qed (use D same eq in \<open>auto\<close>)
qed

lemma kinv_objs:
  assumes k: "kinv s" and same: "tq s' = tq s" "threads s' = threads s" "timers s' = timers s"
      "rt_thread_ready_priority_group s' = rt_thread_ready_priority_group s" "rt_timer_list s' = rt_timer_list s"
      "rt_current_thread s' = rt_current_thread s"
    and th: "\<And>t. objs s' (O_Thread t) = objs s (O_Thread t)"
    and tm: "\<And>i. objs s' (O_Timer i) = objs s (O_Timer i)"
  shows "kinv s'"
proof -
  have "cur_ok s'" using kinvD(2) [OF k] same by (simp add: cur_ok_def tstat_def)
  then show ?thesis using kcore_objs [OF kinvD(1) [OF k] same(1-5)] th tm by (simp add: kinv_def)
qed

text \<open>The invariant does not depend on the parts of the state the scheduler and the timers
  do not use.\<close>

lemma kinv_cong:
  assumes "kinv s" and "tq s' = tq s" and "rt_thread_ready_priority_group s' = rt_thread_ready_priority_group s"
    and "rt_timer_list s' = rt_timer_list s" and "objs s' = objs s"
    and "rt_current_thread s' = rt_current_thread s"
    and "\<And>i. timeout_func (timers s' i) = timeout_func (timers s i)"
    and "\<And>t. stat (threads s' t) = stat (threads s t)"
    and "\<And>t. current_priority (threads s' t) = current_priority (threads s t)"
    and "\<And>t. number_mask (threads s' t) = number_mask (threads s t)"
    and "\<And>t. init_priority (threads s' t) = init_priority (threads s t)"
    and "\<And>t. stack_ok (threads s' t) = stack_ok (threads s t)"
  shows "kinv s'"
proof -
  have "kcore {} s'" by (rule kcore_cong [OF kinvD(1) [OF assms(1)] assms(2-5) assms(7-12)])
  moreover have "cur_ok s'" using kinvD(2) [OF assms(1)] assms(6,8) by (simp add: cur_ok_def tstat_def)
  ultimately show ?thesis by (simp add: kinv_def)
qed

lemma exit_critical_total:
  assumes k: "kinv s"
  shows "\<exists>s'. rt_exit_critical s = Some s' \<and> kinv s' \<and> (rt_current_thread s' = None \<longleftrightarrow> rt_current_thread s = None)"
proof -
  have k': "kinv (s\<lparr>rt_scheduler_lock_nest := n\<rparr>)" for n by (rule kinv_cong [OF k]) simp_all
  show ?thesis
  proof (cases "rt_current_thread s")
    case None
    then show ?thesis using k' by (simp add: rt_exit_critical_def Let_def)
  next
    case (Some c)
    then show ?thesis
      using k' rt_schedule_total [of "s\<lparr>rt_scheduler_lock_nest := 0\<rparr>" c] k' [of 0]
      by (auto simp: rt_exit_critical_def Let_def)
  qed
qed

end
