(* ===== verification/Rt_Timer.thy ===== *)
theory Rt_Timer
  imports Objects
begin

text \<open>
  The hardware timers of \<open>src/timer.c\<close> with one list level: control of a timer and the
  ordered insertion of \<open>rt_timer_start\<close>, which compares deadlines modulo the wrap-around of
  the 32 bit tick. The expiry loop \<open>rt_timer_check\<close> calls thread operations and is in \<open>Clock\<close>.
\<close>

subsection \<open>Operations\<close>

definition rt_timer_init_fields :: "timer_id \<Rightarrow> timeout_fn \<Rightarrow> u32 \<Rightarrow> u8 \<Rightarrow> kernel \<Rightarrow> kernel" where
  "rt_timer_init_fields i fn time flag s =
     upd_timer i (\<lambda>tm. \<lparr>timeout_func = fn, init_tick = time, timeout_tick = 0\<rparr>)
       (upd_obj (O_Timer i) (\<lambda>ob. ob\<lparr>obj_flag := flag AND NOT RT_TIMER_FLAG_ACTIVATED\<rparr>) s)"

definition rt_timer_remove :: "timer_id \<Rightarrow> kernel \<Rightarrow> kernel" where
  "rt_timer_remove i s = s\<lparr>rt_timer_list := removeAll i (rt_timer_list s)\<rparr>"

definition rt_timer_list_next_timeout :: "kernel \<Rightarrow> u32" where
  "rt_timer_list_next_timeout s =
     (case rt_timer_list s of [] \<Rightarrow> RT_TICK_MAX | i # _ \<Rightarrow> timeout_tick (timers s i))"

definition rt_timer_next_timeout_tick :: "kernel \<Rightarrow> u32" where
  "rt_timer_next_timeout_tick s = rt_timer_list_next_timeout s"

definition rt_timer_init ::
  "timer_id \<Rightarrow> string \<Rightarrow> timeout_fn \<Rightarrow> u32 \<Rightarrow> u8 \<Rightarrow> kernel \<Rightarrow> kernel option" where
  "rt_timer_init i nm fn time flag s = do {
     s1 \<leftarrow> rt_object_init (O_Timer i) RT_Object_Class_Timer nm s;
     Some (rt_timer_init_fields i fn time flag s1)
   }"

definition rt_timer_detach :: "timer_id \<Rightarrow> kernel \<Rightarrow> (rt_err_t \<times> kernel) option" where
  "rt_timer_detach i s = do {
     rt_assert (rt_object_get_type (O_Timer i) s = RT_Object_Class_Timer);
     rt_assert (rt_object_is_systemobject (O_Timer i) s);
     Some (RT_EOK, rt_object_detach (O_Timer i) (rt_timer_remove i s))
   }"

definition rt_timer_create ::
  "nat option \<Rightarrow> string \<Rightarrow> timeout_fn \<Rightarrow> u32 \<Rightarrow> u8 \<Rightarrow> kernel \<Rightarrow> (timer_id option \<times> kernel) option" where
  "rt_timer_create fresh nm fn time flag s = do {
     (r, s1) \<leftarrow> rt_object_allocate (map_option (\<lambda>n. O_Timer (Timer_Obj n)) fresh) RT_Object_Class_Timer nm s;
     case fresh of
       None \<Rightarrow> Some (None, s1)
     | Some n \<Rightarrow> Some (Some (Timer_Obj n), rt_timer_init_fields (Timer_Obj n) fn time flag s1)
   }"

definition rt_timer_delete :: "timer_id \<Rightarrow> kernel \<Rightarrow> (rt_err_t \<times> kernel) option" where
  "rt_timer_delete i s = do {
     rt_assert (rt_object_get_type (O_Timer i) s = RT_Object_Class_Timer);
     rt_assert (\<not> rt_object_is_systemobject (O_Timer i) s);
     s1 \<leftarrow> rt_object_delete (O_Timer i) (rt_timer_remove i s);
     Some (RT_EOK, s1)
   }"

text \<open>The search of \<open>rt_timer_start\<close>: go past every timer whose deadline is equal or earlier,
  stop at the first that is later, and insert there.\<close>

fun timer_insert :: "kernel \<Rightarrow> timer_id \<Rightarrow> timer_id list \<Rightarrow> timer_id list" where
  "timer_insert s i [] = [i]"
| "timer_insert s i (j # js) =
     (let d = timeout_tick (timers s j) - timeout_tick (timers s i) in
      if d = 0 then j # timer_insert s i js
      else if d < RT_TICK_MAX div 2 then i # j # js
      else j # timer_insert s i js)"

definition set_activated :: "bool \<Rightarrow> timer_id \<Rightarrow> kernel \<Rightarrow> kernel" where
  "set_activated b i =
     upd_obj (O_Timer i) (\<lambda>ob. ob\<lparr>obj_flag :=
       (if b then obj_flag ob OR RT_TIMER_FLAG_ACTIVATED else obj_flag ob AND NOT RT_TIMER_FLAG_ACTIVATED)\<rparr>)"

definition rt_timer_start :: "timer_id \<Rightarrow> kernel \<Rightarrow> (rt_err_t \<times> kernel) option" where
  "rt_timer_start i s = do {
     rt_assert (rt_object_get_type (O_Timer i) s = RT_Object_Class_Timer);
     let s1 = set_activated False i (rt_timer_remove i s);
     rt_assert (init_tick (timers s1 i) < RT_TICK_MAX div 2);
     let s2 = upd_timer i (\<lambda>tm. tm\<lparr>timeout_tick := rt_tick s1 + init_tick tm\<rparr>) s1;
     let s3 = s2\<lparr>rt_timer_list := timer_insert s2 i (rt_timer_list s2)\<rparr>;
     Some (RT_EOK, set_activated True i s3)
   }"

definition rt_timer_stop :: "timer_id \<Rightarrow> kernel \<Rightarrow> (rt_err_t \<times> kernel) option" where
  "rt_timer_stop i s = do {
     rt_assert (rt_object_get_type (O_Timer i) s = RT_Object_Class_Timer);
     if obj_flag (objs s (O_Timer i)) AND RT_TIMER_FLAG_ACTIVATED = 0 then Some (- RT_ERROR, s)
     else Some (RT_EOK, set_activated False i (rt_timer_remove i s))
   }"

datatype timer_cmd = RT_TIMER_CTRL_SET_TIME u32 | RT_TIMER_CTRL_GET_TIME
  | RT_TIMER_CTRL_SET_ONESHOT | RT_TIMER_CTRL_SET_PERIODIC

definition rt_timer_control :: "timer_id \<Rightarrow> timer_cmd \<Rightarrow> kernel \<Rightarrow> (rt_err_t \<times> u32 option \<times> kernel) option" where
  "rt_timer_control i cmd s = do {
     rt_assert (rt_object_get_type (O_Timer i) s = RT_Object_Class_Timer);
     case cmd of
       RT_TIMER_CTRL_GET_TIME \<Rightarrow> Some (RT_EOK, Some (init_tick (timers s i)), s)
     | RT_TIMER_CTRL_SET_TIME time \<Rightarrow> Some (RT_EOK, None, upd_timer i (\<lambda>tm. tm\<lparr>init_tick := time\<rparr>) s)
     | RT_TIMER_CTRL_SET_ONESHOT \<Rightarrow>
         Some (RT_EOK, None, upd_obj (O_Timer i) (\<lambda>ob. ob\<lparr>obj_flag := obj_flag ob AND NOT RT_TIMER_FLAG_PERIODIC\<rparr>) s)
     | RT_TIMER_CTRL_SET_PERIODIC \<Rightarrow>
         Some (RT_EOK, None, upd_obj (O_Timer i) (\<lambda>ob. ob\<lparr>obj_flag := obj_flag ob OR RT_TIMER_FLAG_PERIODIC\<rparr>) s)
   }"

definition rt_system_timer_init :: "kernel \<Rightarrow> kernel" where
  "rt_system_timer_init s = s\<lparr>rt_timer_list := []\<rparr>"

subsection \<open>Frame facts\<close>

lemma timer_remove_frame [simp]:
  "threads (rt_timer_remove i s) = threads s" "tq (rt_timer_remove i s) = tq s"
  "rt_thread_ready_priority_group (rt_timer_remove i s) = rt_thread_ready_priority_group s" "rt_scheduler_lock_nest (rt_timer_remove i s) = rt_scheduler_lock_nest s"
  "rt_current_thread (rt_timer_remove i s) = rt_current_thread s" "rt_current_priority (rt_timer_remove i s) = rt_current_priority s"
  "rt_interrupt_nest (rt_timer_remove i s) = rt_interrupt_nest s" "rt_tick (rt_timer_remove i s) = rt_tick s"
  "objs (rt_timer_remove i s) = objs s" "object_list (rt_timer_remove i s) = object_list s"
  "timers (rt_timer_remove i s) = timers s" "sems (rt_timer_remove i s) = sems s"
  "mutexes (rt_timer_remove i s) = mutexes s" "events (rt_timer_remove i s) = events s"
  "mailboxes (rt_timer_remove i s) = mailboxes s" "mqs (rt_timer_remove i s) = mqs s"
  "mempools (rt_timer_remove i s) = mempools s"
  by (simp_all add: rt_timer_remove_def)

lemma set_activated_frame [simp]:
  "threads (set_activated b i s) = threads s" "tq (set_activated b i s) = tq s"
  "rt_thread_ready_priority_group (set_activated b i s) = rt_thread_ready_priority_group s" "rt_scheduler_lock_nest (set_activated b i s) = rt_scheduler_lock_nest s"
  "rt_current_thread (set_activated b i s) = rt_current_thread s" "rt_current_priority (set_activated b i s) = rt_current_priority s"
  "rt_interrupt_nest (set_activated b i s) = rt_interrupt_nest s" "rt_tick (set_activated b i s) = rt_tick s"
  "object_list (set_activated b i s) = object_list s" "timers (set_activated b i s) = timers s"
  "rt_timer_list (set_activated b i s) = rt_timer_list s" "sems (set_activated b i s) = sems s"
  "mutexes (set_activated b i s) = mutexes s" "events (set_activated b i s) = events s"
  "mailboxes (set_activated b i s) = mailboxes s" "mqs (set_activated b i s) = mqs s"
  "mempools (set_activated b i s) = mempools s"
  by (simp_all add: set_activated_def)

lemma timer_list_remove [simp]: "rt_timer_list (rt_timer_remove i s) = removeAll i (rt_timer_list s)"
  by (simp add: rt_timer_remove_def)

lemma tstat_timer_ops [simp]:
  "tstat (rt_timer_remove i s) t = tstat s t" "tstat (set_activated b i s) t = tstat s t"
  by (simp_all add: tstat_def)

lemma set_activated_obj [simp]:
  "obj_type (objs (set_activated b i s) j) = obj_type (objs s j)"
  "obj_name (objs (set_activated b i s) j) = obj_name (objs s j)"
  "otype (set_activated b i s) j = otype s j"
  by (simp_all add: set_activated_def otype_def)

lemma set_activated_periodic [simp]:
  "obj_flag (objs (set_activated b i s) j) AND 2 = obj_flag (objs s j) AND 2"
proof -
  have "(x OR 1) AND 2 = x AND (2 :: u8)" "(x AND NOT 1) AND 2 = x AND (2 :: u8)" for x
    by (simp_all add: bit_eq_iff bit_simps) (auto simp: bit_simps)
  then show ?thesis by (simp add: set_activated_def)
qed

lemma flag_bit0: "(x :: u8) AND 1 \<noteq> 0 \<longleftrightarrow> bit x 0"
  by (simp add: and_one_eq bit_0 odd_iff_mod_2_eq_one)

lemma activated_set [simp]:
  "activated (set_activated b i s) j = (if j = i then b else activated s j)"
  by (simp add: activated_def set_activated_def flag_bit0 bit_simps)

lemma activated_helpers [simp]:
  "activated (rt_timer_remove i s) = activated s" "activated (upd_timer i f s) = activated s"
  "otype (rt_timer_remove i s) = otype s" "otype (upd_timer i f s) = otype s"
  by (simp_all add: activated_def otype_def fun_eq_iff)

subsection \<open>Timers and the kernel invariant\<close>

lemma kcore_timers:
  assumes k: "kcore E s" and same: "tq s' = tq s" "threads s' = threads s"
      "rt_thread_ready_priority_group s' = rt_thread_ready_priority_group s"
    and ty: "\<And>j. obj_type (objs s' j) = obj_type (objs s j)"
    and fl: "\<And>t. obj_flag (objs s' (O_Timer (Thread_Timer t))) AND 2 = obj_flag (objs s (O_Timer (Thread_Timer t))) AND 2"
    and fn: "\<And>t. timeout_func (timers s' (Thread_Timer t)) = timeout_func (timers s (Thread_Timer t))"
    and L: "distinct (rt_timer_list s')" "\<And>i. i \<in> set (rt_timer_list s') \<Longrightarrow> activated s' i"
      "\<And>i. i \<in> set (rt_timer_list s') \<Longrightarrow> otype s' (O_Timer i) = 10"
      "\<And>t. t \<notin> E \<Longrightarrow> Thread_Timer t \<in> set (rt_timer_list s') \<Longrightarrow> tstat s t = 2"
  shows "kcore E s'"
proof -
  note D = kcoreD [OF k]
  have eq: "tstat s' = tstat s" "live s' = live s" "otype s' = otype s" "tcb_ok s' = tcb_ok s" "prio_ok s' = prio_ok s"
    using same ty fl fn by (simp_all add: tstat_def live_def otype_def tcb_ok_def prio_ok_def fun_eq_iff)
  show ?thesis
  proof (rule kcoreI, goal_cases)
    case 1
    show ?case using D(1) same by (simp add: tq_wf_def)
  qed (use D same L eq in \<open>auto\<close>)
qed

definition stopped :: "timer_id \<Rightarrow> kernel \<Rightarrow> kernel" where
  "stopped i s = (if activated s i then set_activated False i (rt_timer_remove i s) else s)"

lemma stopped_frame [simp]:
  "threads (stopped i s) = threads s" "tq (stopped i s) = tq s"
  "rt_thread_ready_priority_group (stopped i s) = rt_thread_ready_priority_group s" "rt_scheduler_lock_nest (stopped i s) = rt_scheduler_lock_nest s"
  "rt_current_thread (stopped i s) = rt_current_thread s" "rt_current_priority (stopped i s) = rt_current_priority s"
  "rt_interrupt_nest (stopped i s) = rt_interrupt_nest s" "rt_tick (stopped i s) = rt_tick s"
  "object_list (stopped i s) = object_list s" "timers (stopped i s) = timers s"
  "sems (stopped i s) = sems s" "mutexes (stopped i s) = mutexes s"
  "events (stopped i s) = events s" "mailboxes (stopped i s) = mailboxes s"
  "mqs (stopped i s) = mqs s" "mempools (stopped i s) = mempools s"
  by (simp_all add: stopped_def)

lemma stopped_obj [simp]:
  "obj_type (objs (stopped i s) j) = obj_type (objs s j)" "otype (stopped i s) j = otype s j"
  "obj_flag (objs (stopped i s) j) AND 2 = obj_flag (objs s j) AND 2"
  "activated (stopped i s) m = (m \<noteq> i \<and> activated s m)" "tstat (stopped i s) t = tstat s t"
  by (auto simp: stopped_def)

lemma timer_stop_eq:
  "otype s (O_Timer i) = 10 \<Longrightarrow> \<exists>r. rt_timer_stop i s = Some (r, stopped i s)"
  by (simp add: rt_timer_stop_def stopped_def get_type_otype activated_def)

lemma stopped_list:
  "kcore E s \<Longrightarrow> rt_timer_list (stopped i s) = removeAll i (rt_timer_list s)"
  using kcoreD(11) [of E s i] by (cases "activated s i") (auto simp: stopped_def intro!: removeAll_id [symmetric])

lemma kcore_stopped:
  assumes k: "kcore E s"
  shows "kcore E (stopped i s)"
  using kcoreD(10-13) [OF k]
  by (intro kcore_timers [OF k]) (auto simp: stopped_list [OF k] distinct_removeAll)

text \<open>The state after \<open>rt_timer_start\<close>.\<close>

definition started :: "timer_id \<Rightarrow> kernel \<Rightarrow> kernel" where
  "started i s =
     (let s1 = set_activated False i (rt_timer_remove i s);
          s2 = upd_timer i (\<lambda>tm. tm\<lparr>timeout_tick := rt_tick s1 + init_tick tm\<rparr>) s1
      in set_activated True i (s2\<lparr>rt_timer_list := timer_insert s2 i (rt_timer_list s2)\<rparr>))"

lemma started_frame [simp]:
  "threads (started i s) = threads s" "tq (started i s) = tq s"
  "rt_thread_ready_priority_group (started i s) = rt_thread_ready_priority_group s" "rt_scheduler_lock_nest (started i s) = rt_scheduler_lock_nest s"
  "rt_current_thread (started i s) = rt_current_thread s" "rt_current_priority (started i s) = rt_current_priority s"
  "rt_interrupt_nest (started i s) = rt_interrupt_nest s" "rt_tick (started i s) = rt_tick s"
  "object_list (started i s) = object_list s" "sems (started i s) = sems s"
  "mutexes (started i s) = mutexes s" "events (started i s) = events s"
  "mailboxes (started i s) = mailboxes s" "mqs (started i s) = mqs s"
  "mempools (started i s) = mempools s"
  by (simp_all add: started_def Let_def)

lemma otype_set_list [simp]:
  "otype (s\<lparr>rt_timer_list := L\<rparr>) = otype s" "activated (s\<lparr>rt_timer_list := L\<rparr>) = activated s"
  "tstat (s\<lparr>rt_timer_list := L\<rparr>) = tstat s"
  by (simp_all add: otype_def activated_def tstat_def fun_eq_iff)

lemma started_obj [simp]:
  "obj_type (objs (started i s) j) = obj_type (objs s j)" "otype (started i s) j = otype s j"
  "obj_flag (objs (started i s) j) AND 2 = obj_flag (objs s j) AND 2"
  "activated (started i s) m = (m = i \<or> activated s m)" "tstat (started i s) t = tstat s t"
  "timeout_func (timers (started i s) m) = timeout_func (timers s m)"
  "init_tick (timers (started i s) m) = init_tick (timers s m)"
  "timeout_tick (timers (started i s) m) =
     (if m = i then rt_tick s + init_tick (timers s i) else timeout_tick (timers s m))"
  by (auto simp: started_def Let_def tstat_def)

lemma set_timer_insert [simp]: "set (timer_insert s i js) = insert i (set js)"
  by (induction js) (auto simp: Let_def)

lemma distinct_timer_insert: "distinct js \<Longrightarrow> i \<notin> set js \<Longrightarrow> distinct (timer_insert s i js)"
  by (induction js) (auto simp: Let_def)

lemma timer_insert_cong:
  "(\<And>j. j \<in> insert i (set js) \<Longrightarrow> timeout_tick (timers s j) = timeout_tick (timers s' j)) \<Longrightarrow>
   timer_insert s i js = timer_insert s' i js"
  by (induction js) (auto simp: Let_def)

lemma started_list: "rt_timer_list (started i s) = timer_insert (started i s) i (removeAll i (rt_timer_list s))"
proof -
  have "timer_insert (started i s) i js = timer_insert (upd_timer i (\<lambda>tm. tm\<lparr>timeout_tick := rt_tick s + init_tick tm\<rparr>)
      (set_activated False i (rt_timer_remove i s))) i js" for js
    by (rule timer_insert_cong) simp
  then show ?thesis by (simp add: started_def Let_def)
qed

lemma timer_start_eq:
  "otype s (O_Timer i) = 10 \<Longrightarrow> init_tick (timers s i) < 0x7fffffff \<Longrightarrow>
   rt_timer_start i s = Some (0, started i s)"
  by (simp add: rt_timer_start_def started_def get_type_otype Let_def)

lemma kcore_started:
  assumes k: "kcore E s" and ty: "otype s (O_Timer i) = 10"
    and st: "\<And>t. i = Thread_Timer t \<Longrightarrow> t \<notin> E \<Longrightarrow> tstat s t = 2"
  shows "kcore E (started i s)"
proof (rule kcore_timers [OF k])
  show "distinct (rt_timer_list (started i s))"
    using kcoreD(10) [OF k] by (simp add: started_list distinct_timer_insert distinct_removeAll)
qed (use kcoreD(11-13) [OF k] ty st in \<open>auto simp: started_list\<close>)

end
