(* ===== verification/Rt_Thread.thy ===== *)
theory Rt_Thread
  imports Rt_Timer
begin

text \<open>
  The thread operations of \<open>src/thread.c\<close>. A call that leaves the processor stops at its \<open>rt_schedule\<close>; what it does when
  the thread runs again is a definition of its own (\<open>rt_thread_sleep_wake\<close>).
\<close>

subsection \<open>Operations\<close>

definition rt_thread_self :: "kernel \<Rightarrow> tid option" where
  "rt_thread_self s = rt_current_thread s"

definition rt_hw_stack_init :: "u32 \<Rightarrow> u32" where
  "rt_hw_stack_init stk = RT_ALIGN_DOWN (stk + 4) 8 - 68"

definition rt_thread_init_fields ::
  "tid \<Rightarrow> string \<Rightarrow> nat \<Rightarrow> nat \<Rightarrow> u32 \<Rightarrow> u32 \<Rightarrow> u8 \<Rightarrow> u32 \<Rightarrow> kernel \<Rightarrow> (rt_err_t \<times> kernel) option" where
  "rt_thread_init_fields t nm ent par start sz priority tick s = do {
     let s1 = upd_thread t (\<lambda>th. th\<lparr>entry := ent, parameter := par, stack_addr := start, stack_size := sz,
         stack_mark := 35, sp := rt_hw_stack_init (start + sz - 4)\<rparr>) s;
     rt_assert (priority < RT_THREAD_PRIORITY_MAX);
     let s2 = upd_thread t (\<lambda>th. th\<lparr>init_priority := priority, current_priority := priority,
         number_mask := 0, thread_init_tick := tick, remaining_tick := tick, err := RT_EOK,
         stat := RT_THREAD_INIT, cleanup := None, user_data := 0\<rparr>) s1;
     s3 \<leftarrow> rt_timer_init (Thread_Timer t) nm (Rt_Thread_Timeout t) 0 0 s2;
     Some (RT_EOK, s3)
   }"

definition rt_thread_init ::
  "tid \<Rightarrow> string \<Rightarrow> nat \<Rightarrow> nat \<Rightarrow> u32 \<Rightarrow> u32 \<Rightarrow> u8 \<Rightarrow> u32 \<Rightarrow> kernel \<Rightarrow> (rt_err_t \<times> kernel) option" where
  "rt_thread_init t nm ent par start sz priority tick s = do {
     rt_assert (start \<noteq> 0);
     s1 \<leftarrow> rt_object_init (O_Thread t) RT_Object_Class_Thread nm s;
     rt_thread_init_fields t nm ent par start sz priority tick s1
   }"

definition rt_thread_resume :: "tid \<Rightarrow> kernel \<Rightarrow> (rt_err_t \<times> kernel) option" where
  "rt_thread_resume t s = do {
     rt_assert (rt_object_get_type (O_Thread t) s = RT_Object_Class_Thread);
     if tstat s t \<noteq> RT_THREAD_SUSPEND then Some (- RT_ERROR, s)
     else do {
       let s1 = tlist_remove t s;
       (_, s2) \<leftarrow> rt_timer_stop (Thread_Timer t) s1;
       s3 \<leftarrow> rt_schedule_insert_thread t s2;
       Some (RT_EOK, s3)
     }
   }"

definition rt_thread_suspend :: "tid \<Rightarrow> kernel \<Rightarrow> (rt_err_t \<times> kernel) option" where
  "rt_thread_suspend t s = do {
     rt_assert (rt_object_get_type (O_Thread t) s = RT_Object_Class_Thread);
     if tstat s t \<noteq> RT_THREAD_READY \<and> tstat s t \<noteq> RT_THREAD_RUNNING then Some (- RT_ERROR, s)
     else do {
       rt_assert (tstat s t = RT_THREAD_RUNNING \<longrightarrow> rt_thread_self s = Some t);
       s1 \<leftarrow> rt_schedule_remove_thread t s;
       let s2 = set_tstat RT_THREAD_SUSPEND t s1;
       (_, s3) \<leftarrow> rt_timer_stop (Thread_Timer t) s2;
       Some (RT_EOK, s3)
     }
   }"

definition rt_thread_startup :: "tid \<Rightarrow> kernel \<Rightarrow> (rt_err_t \<times> kernel) option" where
  "rt_thread_startup t s = do {
     rt_assert (tstat s t = RT_THREAD_INIT);
     rt_assert (rt_object_get_type (O_Thread t) s = RT_Object_Class_Thread);
     let s1 = upd_thread t (\<lambda>th. th\<lparr>current_priority := init_priority th,
         number_mask := push_bit (unat (init_priority th)) 1, stat := RT_THREAD_SUSPEND\<rparr>) s;
     (_, s2) \<leftarrow> rt_thread_resume t s1;
     s3 \<leftarrow> (if rt_thread_self s2 \<noteq> None then rt_schedule s2 else Some s2);
     Some (RT_EOK, s3)
   }"

text \<open>The common end of \<open>rt_thread_exit\<close> and \<open>rt_thread_detach\<close>: a static thread without a
  cleanup function leaves the object system at once, any other waits for the idle thread.\<close>

definition close_thread :: "tid \<Rightarrow> kernel \<Rightarrow> kernel" where
  "close_thread t s =
     (if rt_object_is_systemobject (O_Thread t) s \<and> cleanup (threads s t) = None
      then rt_object_detach (O_Thread t) s
      else tlist_insert_after L_defunct t s)"

definition rt_thread_exit :: "kernel \<Rightarrow> kernel option" where
  "rt_thread_exit s = do {
     t \<leftarrow> rt_thread_self s;
     s1 \<leftarrow> rt_schedule_remove_thread t s;
     let s2 = upd_thread t (\<lambda>th. th\<lparr>stat := RT_THREAD_CLOSE\<rparr>) s1;
     (_, s3) \<leftarrow> rt_timer_detach (Thread_Timer t) s2;
     rt_schedule (close_thread t s3)
   }"

definition rt_thread_detach :: "tid \<Rightarrow> kernel \<Rightarrow> (rt_err_t \<times> kernel) option" where
  "rt_thread_detach t s = do {
     rt_assert (rt_object_get_type (O_Thread t) s = RT_Object_Class_Thread);
     rt_assert (rt_object_is_systemobject (O_Thread t) s);
     s1 \<leftarrow> (if tstat s t \<noteq> RT_THREAD_INIT then rt_schedule_remove_thread t s else Some s);
     (_, s2) \<leftarrow> rt_timer_detach (Thread_Timer t) s1;
     let s3 = upd_thread t (\<lambda>th. th\<lparr>stat := RT_THREAD_CLOSE\<rparr>) s2;
     Some (RT_EOK, close_thread t s3)
   }"

definition zero_thread :: rt_thread where
  "zero_thread = \<lparr>sp = 0, entry = 0, parameter = 0, stack_addr = 0, stack_size = 0, stack_mark = 0,
     err = 0, stat = 0, current_priority = 0, init_priority = 0, number_mask = 0, event_set = 0,
     event_info = 0, thread_init_tick = 0, remaining_tick = 0, cleanup = None, user_data = 0\<rparr>"

definition rt_thread_create ::
  "tid option \<Rightarrow> u32 option \<Rightarrow> string \<Rightarrow> nat \<Rightarrow> nat \<Rightarrow> u32 \<Rightarrow> u8 \<Rightarrow> u32 \<Rightarrow> kernel \<Rightarrow>
   (tid option \<times> kernel) option" where
  "rt_thread_create fresh stack_start nm ent par sz priority tick s = do {
     (r, s1) \<leftarrow> rt_object_allocate (map_option O_Thread fresh) RT_Object_Class_Thread nm s;
     case fresh of
       None \<Rightarrow> Some (None, s1)
     | Some t \<Rightarrow>
         let s2 = upd_thread t (\<lambda>_. zero_thread) s1 in
         (case stack_start of
            None \<Rightarrow> do { s3 \<leftarrow> rt_object_delete (O_Thread t) s2; Some (None, s3) }
          | Some start \<Rightarrow> do {
              (_, s3) \<leftarrow> rt_thread_init_fields t nm ent par start sz priority tick s2;
              Some (Some t, s3)
            })
   }"

definition rt_thread_delete :: "tid \<Rightarrow> kernel \<Rightarrow> (rt_err_t \<times> kernel) option" where
  "rt_thread_delete t s = do {
     rt_assert (rt_object_get_type (O_Thread t) s = RT_Object_Class_Thread);
     rt_assert (\<not> rt_object_is_systemobject (O_Thread t) s);
     s1 \<leftarrow> (if tstat s t \<noteq> RT_THREAD_INIT then rt_schedule_remove_thread t s else Some s);
     (_, s2) \<leftarrow> rt_timer_detach (Thread_Timer t) s1;
     let s3 = upd_thread t (\<lambda>th. th\<lparr>stat := RT_THREAD_CLOSE\<rparr>) s2;
     Some (RT_EOK, tlist_insert_after L_defunct t s3)
   }"

definition rt_thread_yield :: "kernel \<Rightarrow> (rt_err_t \<times> kernel) option" where
  "rt_thread_yield s = do { s1 \<leftarrow> rt_schedule s; Some (RT_EOK, s1) }"

text \<open>The timed wait every blocking call starts: set the thread timer and start it.\<close>

definition start_thread_timer :: "tid \<Rightarrow> u32 \<Rightarrow> kernel \<Rightarrow> kernel option" where
  "start_thread_timer t time s = do {
     (_, _, s1) \<leftarrow> rt_timer_control (Thread_Timer t) (RT_TIMER_CTRL_SET_TIME time) s;
     (_, s2) \<leftarrow> rt_timer_start (Thread_Timer t) s1;
     Some s2
   }"

definition rt_thread_sleep :: "u32 \<Rightarrow> kernel \<Rightarrow> kernel option" where
  "rt_thread_sleep tick s = do {
     t \<leftarrow> rt_thread_self s;
     rt_assert (rt_object_get_type (O_Thread t) s = RT_Object_Class_Thread);
     (_, s1) \<leftarrow> rt_thread_suspend t s;
     s2 \<leftarrow> start_thread_timer t tick s1;
     rt_schedule s2
   }"

definition rt_thread_sleep_wake :: "tid \<Rightarrow> kernel \<Rightarrow> rt_err_t \<times> kernel" where
  "rt_thread_sleep_wake t s =
     (RT_EOK, if err (threads s t) = - RT_ETIMEOUT then upd_thread t (\<lambda>th. th\<lparr>err := RT_EOK\<rparr>) s else s)"

definition rt_thread_delay :: "u32 \<Rightarrow> kernel \<Rightarrow> kernel option" where
  "rt_thread_delay tick s = rt_thread_sleep tick s"

datatype thread_cmd = RT_THREAD_CTRL_CHANGE_PRIORITY u8 | RT_THREAD_CTRL_STARTUP
  | RT_THREAD_CTRL_CLOSE | RT_THREAD_CTRL_other

definition set_prio :: "u8 \<Rightarrow> tid \<Rightarrow> kernel \<Rightarrow> kernel" where
  "set_prio p t = upd_thread t (\<lambda>th. th\<lparr>current_priority := p, number_mask := push_bit (unat p) 1\<rparr>)"

definition rt_thread_control :: "tid \<Rightarrow> thread_cmd \<Rightarrow> kernel \<Rightarrow> (rt_err_t \<times> kernel) option" where
  "rt_thread_control t cmd s = do {
     rt_assert (rt_object_get_type (O_Thread t) s = RT_Object_Class_Thread);
     case cmd of
       RT_THREAD_CTRL_CHANGE_PRIORITY p \<Rightarrow>
         if tstat s t = RT_THREAD_READY
         then do {
           s1 \<leftarrow> rt_schedule_remove_thread t s;
           s2 \<leftarrow> rt_schedule_insert_thread t (set_prio p t s1);
           Some (RT_EOK, s2)
         }
         else Some (RT_EOK, set_prio p t s)
     | RT_THREAD_CTRL_STARTUP \<Rightarrow> rt_thread_startup t s
     | RT_THREAD_CTRL_CLOSE \<Rightarrow> rt_thread_delete t s
     | RT_THREAD_CTRL_other \<Rightarrow> Some (RT_EOK, s)
   }"

definition rt_thread_timeout :: "tid \<Rightarrow> kernel \<Rightarrow> kernel option" where
  "rt_thread_timeout t s = do {
     rt_assert (tstat s t = RT_THREAD_SUSPEND);
     rt_assert (rt_object_get_type (O_Thread t) s = RT_Object_Class_Thread);
     let s1 = upd_thread t (\<lambda>th. th\<lparr>err := - RT_ETIMEOUT\<rparr>) s;
     s2 \<leftarrow> rt_schedule_insert_thread t (tlist_remove t s1);
     rt_schedule s2
   }"

definition rt_thread_find :: "string \<Rightarrow> kernel \<Rightarrow> (oid option \<times> kernel) option" where
  "rt_thread_find nm s = do {
     let s1 = (if rt_thread_self s \<noteq> None then rt_enter_critical s else s);
     inf \<leftarrow> rt_object_get_information RT_Object_Class_Thread;
     s2 \<leftarrow> (if rt_thread_self s1 \<noteq> None then rt_exit_critical s1 else Some s1);
     Some (find_by_name s1 nm (object_list s1 inf), s2)
   }"

subsection \<open>Suspending and resuming under the invariant\<close>

lemma transit_unlink:
  assumes k: "kcore E s" and st: "t \<in> E \<or> tstat s t \<noteq> 1"
  shows "kcore (insert t E) (tlist_remove t s)"
proof -
  note D = kcoreD [OF k]
  have r: "removeAll t (tq s (L_ready p)) = tq s (L_ready p)" for p
    using D(2,3) st by (cases "t \<in> E") auto
  have eq: "live (tlist_remove t s) = live s" "tcb_ok (tlist_remove t s) = tcb_ok s"
    "prio_ok (tlist_remove t s) = prio_ok s" "otype (tlist_remove t s) = otype s"
    "activated (tlist_remove t s) = activated s"
    by (simp_all add: live_def tcb_ok_def prio_ok_def otype_def activated_def fun_eq_iff)
  show ?thesis
  proof (rule kcoreI, goal_cases)
    case 1
    then show ?case using tql.wf_remove [OF D(1)] by simp
  next
    case (4 p)
    then show ?case using D(4) [of p] r [of p] by simp
  qed (use D eq in \<open>auto\<close>)
qed

definition parked :: "tid \<Rightarrow> kernel \<Rightarrow> kernel" where
  "parked t s = stopped (Thread_Timer t) (set_tstat RT_THREAD_SUSPEND t (unready t s))"

definition resumed :: "tid \<Rightarrow> kernel \<Rightarrow> kernel" where
  "resumed t s =
     (let s1 = stopped (Thread_Timer t) (tlist_remove t s)
      in if rt_current_thread s = Some t then set_tstat RT_THREAD_RUNNING t s1 else mkready t s1)"

lemma parked_frame [simp]:
  "rt_scheduler_lock_nest (parked t s) = rt_scheduler_lock_nest s" "rt_current_thread (parked t s) = rt_current_thread s"
  "rt_current_priority (parked t s) = rt_current_priority s" "rt_interrupt_nest (parked t s) = rt_interrupt_nest s"
  "rt_tick (parked t s) = rt_tick s" "object_list (parked t s) = object_list s"
  "timers (parked t s) = timers s" "sems (parked t s) = sems s"
  "mutexes (parked t s) = mutexes s" "events (parked t s) = events s"
  "mailboxes (parked t s) = mailboxes s" "mqs (parked t s) = mqs s"
  "mempools (parked t s) = mempools s" "sp (threads (parked t s) u) = sp (threads s u)"
  "entry (threads (parked t s) u) = entry (threads s u)" "parameter (threads (parked t s) u) = parameter (threads s u)"
  "stack_addr (threads (parked t s) u) = stack_addr (threads s u)" "stack_size (threads (parked t s) u) = stack_size (threads s u)"
  "stack_mark (threads (parked t s) u) = stack_mark (threads s u)" "err (threads (parked t s) u) = err (threads s u)"
  "current_priority (threads (parked t s) u) = current_priority (threads s u)" "init_priority (threads (parked t s) u) = init_priority (threads s u)"
  "number_mask (threads (parked t s) u) = number_mask (threads s u)" "event_set (threads (parked t s) u) = event_set (threads s u)"
  "event_info (threads (parked t s) u) = event_info (threads s u)" "thread_init_tick (threads (parked t s) u) = thread_init_tick (threads s u)"
  "remaining_tick (threads (parked t s) u) = remaining_tick (threads s u)" "cleanup (threads (parked t s) u) = cleanup (threads s u)"
  "user_data (threads (parked t s) u) = user_data (threads s u)"
  by (simp_all add: parked_def)

lemma resumed_frame [simp]:
  "rt_scheduler_lock_nest (resumed t s) = rt_scheduler_lock_nest s" "rt_current_thread (resumed t s) = rt_current_thread s"
  "rt_current_priority (resumed t s) = rt_current_priority s" "rt_interrupt_nest (resumed t s) = rt_interrupt_nest s"
  "rt_tick (resumed t s) = rt_tick s" "object_list (resumed t s) = object_list s"
  "timers (resumed t s) = timers s" "sems (resumed t s) = sems s"
  "mutexes (resumed t s) = mutexes s" "events (resumed t s) = events s"
  "mailboxes (resumed t s) = mailboxes s" "mqs (resumed t s) = mqs s"
  "mempools (resumed t s) = mempools s" "sp (threads (resumed t s) u) = sp (threads s u)"
  "entry (threads (resumed t s) u) = entry (threads s u)" "parameter (threads (resumed t s) u) = parameter (threads s u)"
  "stack_addr (threads (resumed t s) u) = stack_addr (threads s u)" "stack_size (threads (resumed t s) u) = stack_size (threads s u)"
  "stack_mark (threads (resumed t s) u) = stack_mark (threads s u)" "err (threads (resumed t s) u) = err (threads s u)"
  "current_priority (threads (resumed t s) u) = current_priority (threads s u)" "init_priority (threads (resumed t s) u) = init_priority (threads s u)"
  "number_mask (threads (resumed t s) u) = number_mask (threads s u)" "event_set (threads (resumed t s) u) = event_set (threads s u)"
  "event_info (threads (resumed t s) u) = event_info (threads s u)" "thread_init_tick (threads (resumed t s) u) = thread_init_tick (threads s u)"
  "remaining_tick (threads (resumed t s) u) = remaining_tick (threads s u)" "cleanup (threads (resumed t s) u) = cleanup (threads s u)"
  "user_data (threads (resumed t s) u) = user_data (threads s u)"
  by (simp_all add: resumed_def Let_def)

lemma parked_simps [simp]:
  "tstat (parked t s) u = (if u = t then 2 else tstat s u)"
  "tq (parked t s) l = removeAll t (tq s l)"
  "obj_type (objs (parked t s) j) = obj_type (objs s j)" "otype (parked t s) j = otype s j"
  by (simp_all add: parked_def otype_def)

lemma resumed_simps [simp]:
  "tstat (resumed t s) u = (if u = t then if rt_current_thread s = Some t then 3 else 1 else tstat s u)"
  "obj_type (objs (resumed t s) j) = obj_type (objs s j)" "otype (resumed t s) j = otype s j"
  "tq (resumed t s) l = removeAll t (tq s l) @
     (if rt_current_thread s \<noteq> Some t \<and> l = L_ready (prio s t) then [t] else [])"
  by (auto simp: resumed_def Let_def otype_def)

lemma tcb_ok_timer: "tcb_ok s t \<Longrightarrow> otype s (O_Timer (Thread_Timer t)) = 10"
  by (simp add: tcb_ok_def otype_def)

lemma tcb_ok_parked [simp]: "tcb_ok (parked t s) u = tcb_ok s u" "prio_ok (parked t s) u = prio_ok s u"
  by (simp_all add: tcb_ok_def prio_ok_def parked_def otype_def stack_ok_def)

lemma suspend_eq:
  assumes k: "kcore {} s" and st: "tstat s t = 1 \<or> (tstat s t = 3 \<and> rt_current_thread s = Some t)"
  shows "rt_thread_suspend t s = Some (0, parked t s)"
proof -
  have l: "live s t" using st by (auto simp: live_def)
  then have ok: "tcb_ok s t" "prio_ok s t" using kcoreD(7,8) [OF k] by auto
  have "rt_schedule_remove_thread t s = Some (unready t s)"
    using ok(2) by (intro remove_thread_eq) (simp add: prio_ok_def)
  moreover obtain r where "rt_timer_stop (Thread_Timer t) (set_tstat 2 t (unready t s)) = Some (r, parked t s)"
    using timer_stop_eq [of "set_tstat 2 t (unready t s)" "Thread_Timer t"] tcb_ok_timer [OF ok(1)]
    by (auto simp: parked_def otype_def)
  ultimately show ?thesis
    using st ok(1) by (auto simp: rt_thread_suspend_def get_type_otype tcb_ok_def rt_thread_self_def)
qed

lemma parked_transit:
  assumes k: "kcore {} s" and st: "tstat s t = 1 \<or> tstat s t = 3"
  shows "kcore {t} (parked t s)" "tcb_ok (parked t s) t" "prio_ok (parked t s) t"
proof -
  have l: "live s t" using st by (auto simp: live_def)
  then show ok: "tcb_ok (parked t s) t" "prio_ok (parked t s) t" using kcoreD(7,8) [OF k] by auto
  then have "kcore {t} (unready t s)" using transit_remove [OF k, of t] by simp
  then show "kcore {t} (parked t s)"
    unfolding parked_def by (intro kcore_stopped transit_set_tstat) auto
qed

lemma parked_kcore:
  assumes k: "kcore {} s" and st: "tstat s t = 1 \<or> tstat s t = 3"
  shows "kcore {} (parked t s)"
  using transit_settle [OF parked_transit(1) [OF assms], of t] parked_transit(2,3) [OF assms] by simp

lemma resume_eq:
  assumes k: "kcore {} s" and st: "tstat s t = 2"
  shows "rt_thread_resume t s = Some (0, resumed t s)"
proof -
  have l: "live s t" using st by (auto simp: live_def)
  then have ok: "tcb_ok s t" "prio_ok s t" using kcoreD(7,8) [OF k] by auto
  let ?s1 = "tlist_remove t s"
  obtain r where r: "rt_timer_stop (Thread_Timer t) ?s1 = Some (r, stopped (Thread_Timer t) ?s1)"
    using timer_stop_eq [of ?s1 "Thread_Timer t"] tcb_ok_timer [OF ok(1)] by (auto simp: otype_def)
  have "rt_schedule_insert_thread t (stopped (Thread_Timer t) ?s1) = Some (resumed t s)"
    using ok(2) insert_thread_eq [of "stopped (Thread_Timer t) ?s1" t]
    by (auto simp: resumed_def Let_def prio_ok_def rt_schedule_insert_thread_def)
  then show ?thesis
    using st ok(1) r by (simp add: rt_thread_resume_def get_type_otype tcb_ok_def)
qed

lemma resumed_kcore:
  assumes k: "kcore {} s" and st: "tstat s t = 2"
  shows "kcore {} (resumed t s)"
proof -
  have l: "live s t" using st by (auto simp: live_def)
  then have ok: "tcb_ok s t" "prio_ok s t" using kcoreD(7,8) [OF k] by auto
  let ?s1 = "tlist_remove t s"
  let ?s2 = "stopped (Thread_Timer t) ?s1"
  have k1: "kcore {t} ?s1" using transit_unlink [OF k, of t] st by simp
  then have k2: "kcore {t} ?s2" by (rule kcore_stopped)
  have tm: "Thread_Timer t \<notin> set (rt_timer_list ?s2)" by (simp add: stopped_list [OF k1])
  have ok2: "tcb_ok ?s2 t" "prio_ok ?s2 t" using ok by (simp_all add: tcb_ok_def prio_ok_def otype_def)
  show ?thesis
  proof (cases "rt_current_thread s = Some t")
    case True
    have "kcore {t} (set_tstat 3 t ?s2)" using transit_set_tstat [OF k2] by simp
    moreover have "tcb_ok (set_tstat 3 t ?s2) t" "prio_ok (set_tstat 3 t ?s2) t"
      using ok2 by (simp_all add: tcb_ok_def prio_ok_def otype_def stack_ok_def)
    ultimately have "kcore ({t} - {t}) (set_tstat 3 t ?s2)"
      using tm by (intro transit_settle) (auto simp: live_def)
    then show ?thesis using True by (simp add: resumed_def Let_def)
  next
    case False
    have "kcore ({t} - {t}) (mkready t ?s2)" using k2 ok2 tm by (intro transit_ready) auto
    then show ?thesis using False by (simp add: resumed_def Let_def)
  qed
qed

lemma resumed_kinv:
  assumes k: "kinv s" and st: "tstat s t = 2"
  shows "kinv (resumed t s)"
proof -
  have "cur_ok (resumed t s)" using kinvD(2) [OF k] st by (auto simp: cur_ok_def)
  then show ?thesis using resumed_kcore [OF kinvD(1) [OF k] st] by (simp add: kinv_def)
qed

lemma parked_kinv:
  assumes k: "kinv s" and st: "tstat s t = 1 \<or> tstat s t = 3"
  shows "kinv (parked t s)"
proof -
  have "cur_ok (parked t s)" using kinvD(2) [OF k] by (auto simp: cur_ok_def)
  then show ?thesis using parked_kcore [OF kinvD(1) [OF k] st] by (simp add: kinv_def)
qed

subsection \<open>Timed waits\<close>

definition timed :: "tid \<Rightarrow> u32 \<Rightarrow> kernel \<Rightarrow> kernel" where
  "timed t time s = started (Thread_Timer t) (upd_timer (Thread_Timer t) (\<lambda>tm. tm\<lparr>init_tick := time\<rparr>) s)"

lemma timed_frame [simp]:
  "threads (timed t time s) = threads s" "tq (timed t time s) = tq s"
  "rt_thread_ready_priority_group (timed t time s) = rt_thread_ready_priority_group s" "rt_scheduler_lock_nest (timed t time s) = rt_scheduler_lock_nest s"
  "rt_current_thread (timed t time s) = rt_current_thread s" "rt_current_priority (timed t time s) = rt_current_priority s"
  "rt_interrupt_nest (timed t time s) = rt_interrupt_nest s" "rt_tick (timed t time s) = rt_tick s"
  "object_list (timed t time s) = object_list s" "sems (timed t time s) = sems s"
  "mutexes (timed t time s) = mutexes s" "events (timed t time s) = events s"
  "mailboxes (timed t time s) = mailboxes s" "mqs (timed t time s) = mqs s"
  "mempools (timed t time s) = mempools s"
  by (simp_all add: timed_def)

lemma timed_simps [simp]:
  "tstat (timed t time s) u = tstat s u" "obj_type (objs (timed t time s) j) = obj_type (objs s j)"
  "otype (timed t time s) j = otype s j" "timeout_func (timers (timed t time s) m) = timeout_func (timers s m)"
  "Thread_Timer t \<in> set (rt_timer_list (timed t time s))"
  "timeout_tick (timers (timed t time s) (Thread_Timer t)) = rt_tick s + time"
  by (simp_all add: timed_def started_list)

lemma start_thread_timer_eq:
  "otype s (O_Timer (Thread_Timer t)) = 10 \<Longrightarrow> time < 0x7fffffff \<Longrightarrow>
   start_thread_timer t time s = Some (timed t time s)"
  by (simp add: start_thread_timer_def rt_timer_control_def get_type_otype timer_start_eq timed_def)

lemma timed_kinv:
  assumes k: "kinv s" and st: "tstat s t = 2" and ty: "otype s (O_Timer (Thread_Timer t)) = 10"
  shows "kinv (timed t time s)"
proof -
  have "kcore {} (upd_timer (Thread_Timer t) (\<lambda>tm. tm\<lparr>init_tick := time\<rparr>) s)"
    by (rule kcore_cong [OF kinvD(1) [OF k]]) simp_all
  then have "kcore {} (timed t time s)"
    unfolding timed_def using ty st by (intro kcore_started) auto
  moreover have "cur_ok (timed t time s)" using kinvD(2) [OF k] by (simp add: cur_ok_def)
  ultimately show ?thesis by (simp add: kinv_def)
qed

lemma sleep_total:
  assumes k: "kinv s" and c: "rt_current_thread s = Some c" "tstat s c = 3" and tick: "tick < 0x7fffffff"
  obtains s1 s' where "rt_thread_sleep tick s = Some s'" "rt_schedule s1 = Some s'"
    "s1 = timed c tick (parked c s)" "kinv s1" "kinv s'"
proof -
  have ok: "tcb_ok s c" using kcoreD(7) [OF kinvD(1) [OF k], of c] c by (simp add: live_def)
  let ?s1 = "timed c tick (parked c s)"
  have k1: "kinv ?s1" using parked_kinv [OF k, of c] c tcb_ok_timer [OF ok] by (intro timed_kinv) auto
  obtain s' where s': "rt_schedule ?s1 = Some s'" "kinv s'"
    using rt_schedule_total [OF k1, of c] c by auto
  have "rt_thread_sleep tick s = Some s'"
    using c ok suspend_eq [OF kinvD(1) [OF k], of c] start_thread_timer_eq [of "parked c s" c tick]
      tcb_ok_timer [OF ok] tick s'
    by (simp add: rt_thread_sleep_def rt_thread_self_def get_type_otype tcb_ok_def)
  then show thesis using that s' k1 by blast
qed

text \<open>The handler of an expired thread timer; the timer has left the list by then.\<close>

definition timedout :: "tid \<Rightarrow> kernel \<Rightarrow> kernel" where
  "timedout t s =
     (let s1 = tlist_remove t (upd_thread t (\<lambda>th. th\<lparr>err := - RT_ETIMEOUT\<rparr>) s)
      in if rt_current_thread s = Some t then set_tstat RT_THREAD_RUNNING t s1 else mkready t s1)"

lemma tstat_upd_err [simp]:
  "tstat (upd_thread t (\<lambda>th. th\<lparr>err := e\<rparr>) s) u = tstat s u"
  by (simp add: tstat_def)

lemma timedout_simps [simp]:
  "tstat (timedout t s) u = (if u = t then if rt_current_thread s = Some t then 3 else 1 else tstat s u)"
  "rt_current_thread (timedout t s) = rt_current_thread s" "rt_timer_list (timedout t s) = rt_timer_list s"
  "objs (timedout t s) = objs s" "timers (timedout t s) = timers s" "rt_tick (timedout t s) = rt_tick s"
  "err (threads (timedout t s) u) = (if u = t then - RT_ETIMEOUT else err (threads s u))"
  "tq (timedout t s) l = removeAll t (tq s l) @
     (if rt_current_thread s \<noteq> Some t \<and> l = L_ready (prio s t) then [t] else [])"
  by (auto simp: timedout_def Let_def)

lemma timedout_kinv:
  assumes k: "kinv s" and st: "tstat s t = 2" and tm: "Thread_Timer t \<notin> set (rt_timer_list s)"
  shows "kinv (timedout t s)"
proof -
  let ?s0 = "upd_thread t (\<lambda>th. th\<lparr>err := - RT_ETIMEOUT\<rparr>) s"
  let ?s1 = "tlist_remove t ?s0"
  have k0: "kinv ?s0" by (rule kinv_cong [OF k]) (simp_all add: stack_ok_def)
  have ok: "tcb_ok ?s1 t" "prio_ok ?s1 t"
    using kcoreD(7,8) [OF kinvD(1) [OF k0], of t] st
    by (simp_all add: live_def tcb_ok_def prio_ok_def otype_def)
  have k1: "kcore {t} ?s1" using transit_unlink [OF kinvD(1) [OF k0], of t] st by simp
  have "kcore {} (timedout t s)"
  proof (cases "rt_current_thread s = Some t")
    case True
    have "tcb_ok (set_tstat 3 t ?s1) t" "prio_ok (set_tstat 3 t ?s1) t"
      using ok by (simp_all add: tcb_ok_def prio_ok_def otype_def stack_ok_def)
    then have "kcore ({t} - {t}) (set_tstat 3 t ?s1)"
      using transit_set_tstat [OF k1] tm by (intro transit_settle) (auto simp: live_def)
    then show ?thesis using True by (simp add: timedout_def Let_def)
  next
    case False
    have "kcore ({t} - {t}) (mkready t ?s1)" using k1 ok tm by (intro transit_ready) auto
    then show ?thesis using False by (simp add: timedout_def Let_def)
  qed
  moreover have "cur_ok (timedout t s)" using kinvD(2) [OF k] st by (auto simp: cur_ok_def)
  ultimately show ?thesis by (simp add: kinv_def)
qed

lemma timeout_eq:
  assumes k: "kinv s" and st: "tstat s t = 2"
  shows "rt_thread_timeout t s = rt_schedule (timedout t s)"
proof -
  have ok: "tcb_ok s t" "prio_ok s t" using kcoreD(7,8) [OF kinvD(1) [OF k], of t] st by (auto simp: live_def)
  let ?s1 = "tlist_remove t (upd_thread t (\<lambda>th. th\<lparr>err := - 2\<rparr>) s)"
  have "rt_schedule_insert_thread t ?s1 = Some (timedout t s)"
    using ok(2) insert_thread_eq [of ?s1 t]
    by (auto simp: timedout_def Let_def prio_ok_def rt_schedule_insert_thread_def)
  then show ?thesis using st ok(1) by (simp add: rt_thread_timeout_def get_type_otype tcb_ok_def)
qed

subsection \<open>Starting a thread\<close>

lemma startup_resume:
  assumes k: "kinv s" and st: "tstat s t = 0" and ty: "otype s (O_Thread t) = 1"
    and tm: "Thread_Timer t \<notin> set (rt_timer_list s)"
  defines "s1 \<equiv> upd_thread t (\<lambda>th. th\<lparr>current_priority := init_priority th,
     number_mask := push_bit (unat (init_priority th)) 1, stat := RT_THREAD_SUSPEND\<rparr>) s"
  shows "kinv s1" "tstat s1 t = 2" "rt_thread_resume t s1 = Some (0, resumed t s1)"
proof -
  note K = kinvD(1) [OF k]
  have ok: "tcb_ok s t" using kcoreD(9) [OF K] st ty by simp
  have s1: "tstat s1 u = (if u = t then 2 else tstat s u)" for u by (simp add: s1_def tstat_def)
  have ok1: "tcb_ok s1 t" "prio_ok s1 t"
    using ok by (simp_all add: s1_def tcb_ok_def prio_ok_def otype_def stack_ok_def word_less_nat_alt)
  have "kcore {t} s" using transit_out [OF K] off_lists_stat [OF K] st by blast
  then have "kcore {t} s1" unfolding s1_def by (intro transit_upd) auto
  then have k1: "kcore ({t} - {t}) s1" using ok1 by (intro transit_settle) (auto simp: s1)
  moreover have "rt_current_thread s1 = rt_current_thread s" by (simp add: s1_def)
  then have "cur_ok s1" using kinvD(2) [OF k] st unfolding cur_ok_def s1 by auto
  ultimately show "kinv s1" by (simp add: kinv_def)
  show st1: "tstat s1 t = 2" by (simp add: s1)
  show "rt_thread_resume t s1 = Some (0, resumed t s1)" using k1 st1 by (intro resume_eq) auto
qed

lemma startup_total:
  assumes k: "kinv s" and st: "tstat s t = 0" and ty: "otype s (O_Thread t) = 1"
    and tm: "Thread_Timer t \<notin> set (rt_timer_list s)"
  shows "\<exists>s'. rt_thread_startup t s = Some (0, s') \<and> kinv s' \<and> (tstat s' t = 1 \<or> tstat s' t = 3)"
proof -
  let ?s1 = "upd_thread t (\<lambda>th. th\<lparr>current_priority := init_priority th,
     number_mask := push_bit (unat (init_priority th)) 1, stat := RT_THREAD_SUSPEND\<rparr>) s"
  note R = startup_resume [OF k st ty tm]
  have k2: "kinv (resumed t ?s1)" by (rule resumed_kinv [OF R(1,2)])
  have ne: "rt_current_thread s \<noteq> Some t" using kinvD(2) [OF k] st by (auto simp: cur_ok_def)
  show ?thesis
  proof (cases "rt_current_thread s")
    case None
    then show ?thesis
      using R k2 st ty by (simp add: rt_thread_startup_def get_type_otype rt_thread_self_def)
  next
    case (Some c)
    then obtain s' where s': "rt_schedule (resumed t ?s1) = Some s'" "kinv s'"
      using rt_schedule_total [OF k2, of c] by auto
    have "tstat (resumed t ?s1) t = 1" using ne by simp
    then have "tstat s' t = 1 \<or> tstat s' t = 3"
      using rt_schedule_runnable [OF k2 _ s'(1), of c t] Some by simp
    then show ?thesis
      using R s' st ty Some by (simp add: rt_thread_startup_def get_type_otype rt_thread_self_def)
  qed
qed

subsection \<open>Changing the priority\<close>

definition reprio :: "u8 \<Rightarrow> tid \<Rightarrow> kernel \<Rightarrow> kernel" where
  "reprio p t s =
     (if tstat s t = RT_THREAD_READY then mkready t (set_prio p t (unready t s)) else set_prio p t s)"

lemma set_prio_frame [simp]:
  "tq (set_prio p t s) = tq s" "rt_thread_ready_priority_group (set_prio p t s) = rt_thread_ready_priority_group s"
  "rt_scheduler_lock_nest (set_prio p t s) = rt_scheduler_lock_nest s" "rt_current_thread (set_prio p t s) = rt_current_thread s"
  "rt_current_priority (set_prio p t s) = rt_current_priority s" "rt_interrupt_nest (set_prio p t s) = rt_interrupt_nest s"
  "rt_tick (set_prio p t s) = rt_tick s" "objs (set_prio p t s) = objs s"
  "object_list (set_prio p t s) = object_list s" "timers (set_prio p t s) = timers s"
  "rt_timer_list (set_prio p t s) = rt_timer_list s" "sems (set_prio p t s) = sems s"
  "mutexes (set_prio p t s) = mutexes s" "events (set_prio p t s) = events s"
  "mailboxes (set_prio p t s) = mailboxes s" "mqs (set_prio p t s) = mqs s"
  "mempools (set_prio p t s) = mempools s" "sp (threads (set_prio p t s) u) = sp (threads s u)"
  "entry (threads (set_prio p t s) u) = entry (threads s u)" "parameter (threads (set_prio p t s) u) = parameter (threads s u)"
  "stack_addr (threads (set_prio p t s) u) = stack_addr (threads s u)" "stack_size (threads (set_prio p t s) u) = stack_size (threads s u)"
  "stack_mark (threads (set_prio p t s) u) = stack_mark (threads s u)" "err (threads (set_prio p t s) u) = err (threads s u)"
  "init_priority (threads (set_prio p t s) u) = init_priority (threads s u)" "event_set (threads (set_prio p t s) u) = event_set (threads s u)"
  "event_info (threads (set_prio p t s) u) = event_info (threads s u)" "thread_init_tick (threads (set_prio p t s) u) = thread_init_tick (threads s u)"
  "remaining_tick (threads (set_prio p t s) u) = remaining_tick (threads s u)" "cleanup (threads (set_prio p t s) u) = cleanup (threads s u)"
  "user_data (threads (set_prio p t s) u) = user_data (threads s u)"
  by (simp_all add: set_prio_def)

lemma reprio_frame [simp]:
  "rt_scheduler_lock_nest (reprio p t s) = rt_scheduler_lock_nest s" "rt_current_thread (reprio p t s) = rt_current_thread s"
  "rt_current_priority (reprio p t s) = rt_current_priority s" "rt_interrupt_nest (reprio p t s) = rt_interrupt_nest s"
  "rt_tick (reprio p t s) = rt_tick s" "objs (reprio p t s) = objs s"
  "object_list (reprio p t s) = object_list s" "timers (reprio p t s) = timers s"
  "rt_timer_list (reprio p t s) = rt_timer_list s" "sems (reprio p t s) = sems s"
  "mutexes (reprio p t s) = mutexes s" "events (reprio p t s) = events s"
  "mailboxes (reprio p t s) = mailboxes s" "mqs (reprio p t s) = mqs s"
  "mempools (reprio p t s) = mempools s" "sp (threads (reprio p t s) u) = sp (threads s u)"
  "entry (threads (reprio p t s) u) = entry (threads s u)" "parameter (threads (reprio p t s) u) = parameter (threads s u)"
  "stack_addr (threads (reprio p t s) u) = stack_addr (threads s u)" "stack_size (threads (reprio p t s) u) = stack_size (threads s u)"
  "stack_mark (threads (reprio p t s) u) = stack_mark (threads s u)" "err (threads (reprio p t s) u) = err (threads s u)"
  "init_priority (threads (reprio p t s) u) = init_priority (threads s u)" "event_set (threads (reprio p t s) u) = event_set (threads s u)"
  "event_info (threads (reprio p t s) u) = event_info (threads s u)" "thread_init_tick (threads (reprio p t s) u) = thread_init_tick (threads s u)"
  "remaining_tick (threads (reprio p t s) u) = remaining_tick (threads s u)" "cleanup (threads (reprio p t s) u) = cleanup (threads s u)"
  "user_data (threads (reprio p t s) u) = user_data (threads s u)"
  by (simp_all add: reprio_def)

lemma set_prio_simps [simp]:
  "tstat (set_prio p t s) u = tstat s u"
  "current_priority (threads (set_prio p t s) u) = (if u = t then p else current_priority (threads s u))"
  by (simp_all add: set_prio_def tstat_def)

lemma reprio_simps [simp]:
  "tstat (reprio p t s) u = tstat s u"
  "current_priority (threads (reprio p t s) u) = (if u = t then p else current_priority (threads s u))"
  by (auto simp: reprio_def)

lemma reprio_wait_lists:
  assumes k: "kcore {} s" and l: "\<And>q. l \<noteq> L_ready q"
  shows "tq (reprio p t s) l = tq s l"
proof -
  have "t \<notin> set (tq s l)" if "tstat s t = 1"
    using that kcoreD(5) [OF k, of t l] kcoreD(6) [OF k, of t] l by (cases l) auto
  then show ?thesis using l by (auto simp: reprio_def)
qed

lemma control_prio_eq:
  assumes k: "kcore {} s" and p: "p < 32" and l: "live s t"
    and rd: "tstat s t = 1 \<Longrightarrow> rt_current_thread s \<noteq> Some t"
  shows "rt_thread_control t (RT_THREAD_CTRL_CHANGE_PRIORITY p) s = Some (0, reprio p t s)"
proof -
  have ok: "tcb_ok s t" "prio_ok s t" using kcoreD(7,8) [OF k] l by auto
  have p': "unat p < 32" using p by (simp add: word_less_nat_alt)
  have "rt_schedule_insert_thread t (set_prio p t (unready t s)) = Some (mkready t (set_prio p t (unready t s)))"
    if "tstat s t = 1" using rd [OF that] p' by (intro insert_thread_eq) auto
  moreover have "rt_schedule_remove_thread t s = Some (unready t s)"
    using ok(2) by (intro remove_thread_eq) (simp add: prio_ok_def)
  ultimately show ?thesis
    using ok(1) by (simp add: rt_thread_control_def reprio_def get_type_otype tcb_ok_def)
qed

lemma reprio_kinv:
  assumes k: "kinv s" and p: "p < 32" and l: "live s t"
  shows "kinv (reprio p t s)"
proof -
  note K = kinvD(1) [OF k]
  have ok: "tcb_ok s t" "prio_ok s t" using kcoreD(7,8) [OF K] l by auto
  have p': "unat p < 32" using p by (simp add: word_less_nat_alt)
  have "kcore {} (reprio p t s)"
  proof (cases "tstat s t = 1")
    case True
    let ?s = "set_prio p t (unready t s)"
    have "kcore {t} ?s" unfolding set_prio_def using transit_upd [OF transit_remove [OF K ok(2)]] by simp
    moreover have "tcb_ok ?s t" "prio_ok ?s t"
      using ok p' by (simp_all add: tcb_ok_def prio_ok_def otype_def stack_ok_def) (simp add: set_prio_def)
    moreover have "Thread_Timer t \<notin> set (rt_timer_list ?s)" using kcoreD(13) [OF K, of t] True by auto
    ultimately have "kcore ({t} - {t}) (mkready t ?s)" by (intro transit_ready) auto
    then show ?thesis using True by (simp add: reprio_def)
  next
    case False
    let ?s = "set_prio p t s"
    have eq: "live ?s = live s" "tcb_ok ?s = tcb_ok s" "otype ?s = otype s" "activated ?s = activated s"
      by (simp_all add: live_def tcb_ok_def otype_def activated_def stack_ok_def fun_eq_iff)
    have pk: "prio_ok ?s u = prio_ok s u" if "u \<noteq> t" for u using that by (simp add: prio_ok_def set_prio_def)
    have pt: "prio_ok ?s t" using p' by (simp add: prio_ok_def set_prio_def)
    have "kcore {} ?s"
    proof (rule kcoreI, goal_cases)
      case 1
      then show ?case using kcoreD(1) [OF K] by (simp add: tq_wf_def)
    next
      case (3 u q)
      then show ?case using kcoreD(3) [OF K, of u q] False by (cases "u = t") auto
    next
      case (7 u)
      then show ?case using kcoreD(7,8) [OF K, of u] eq pk pt by (cases "u = t") auto
    qed (use kcoreD [OF K] eq in \<open>auto\<close>)
    then show ?thesis using False by (simp add: reprio_def)
  qed
  moreover have "cur_ok (reprio p t s)" using kinvD(2) [OF k] by (simp add: cur_ok_def)
  ultimately show ?thesis by (simp add: kinv_def)
qed

subsection \<open>Closing a thread\<close>

lemma transit_defunct:
  assumes k: "kcore E s" and t: "t \<in> E" and st: "tstat s t = 4"
    and tm: "Thread_Timer t \<notin> set (rt_timer_list s)"
  shows "kcore (E - {t}) (tlist_insert_after L_defunct t s)"
proof -
  note D = kcoreD [OF k]
  let ?s = "tlist_insert_after L_defunct t s"
  have eq: "live ?s = live s" "tcb_ok ?s = tcb_ok s" "prio_ok ?s = prio_ok s" "otype ?s = otype s"
    "activated ?s = activated s"
    by (simp_all add: live_def tcb_ok_def prio_ok_def otype_def activated_def fun_eq_iff)
  have nl: "\<not> live s t" using st by (simp add: live_def)
  show ?thesis
  proof (rule kcoreI, goal_cases)
    case 1
    then show ?case using tql.wf_push_front [OF D(1)] D(2) [OF t] by simp
  next
    case (3 u p)
    then show ?case using D(2) [OF t] D(3) [of u p] st by (cases "u = t") auto
  next
    case (5 u l)
    then show ?case using D(5) [of u l] by (cases l) auto
  next
    case (6 u)
    then show ?case using D(6) [of u] st by auto
  next
    case (7 u)
    then show ?case using D(7,8) [of u] eq nl by (cases "u = t") auto
  next
    case (8 u)
    then show ?case using D(9) [of u] eq st by (cases "u = t") auto
  next
    case (11 u)
    then show ?case using D(13) [of u] tm by (cases "u = t") auto
  qed (use D t eq in \<open>auto\<close>)
qed

text \<open>A thread leaves its lists, its timer leaves the object system, the state is \<open>CLOSE\<close>.\<close>

definition closing :: "tid \<Rightarrow> kernel \<Rightarrow> kernel" where
  "closing t s =
     upd_thread t (\<lambda>th. th\<lparr>stat := RT_THREAD_CLOSE\<rparr>)
       (rt_object_detach (O_Timer (Thread_Timer t)) (rt_timer_remove (Thread_Timer t) s))"

lemma tstat_closing [simp]: "tstat (closing t s) u = (if u = t then 4 else tstat s u)"
  by (simp add: closing_def tstat_def)

lemma tstat_close_thread [simp]: "tstat (close_thread t s) u = tstat s u"
  by (simp add: close_thread_def)

lemma current_closing [simp]:
  "rt_current_thread (closing t s) = rt_current_thread s"
  "rt_current_thread (close_thread t s) = rt_current_thread s"
  "rt_timer_list (closing t s) = removeAll (Thread_Timer t) (rt_timer_list s)"
  by (simp_all add: closing_def close_thread_def)

lemma closing_kcore:
  assumes k: "kcore {t} s"
  shows "kcore {t} (closing t s)"
proof -
  have "kcore {t} (rt_timer_remove (Thread_Timer t) s)"
    using kcoreD(10-13) [OF k] by (intro kcore_timers [OF k]) (auto simp: distinct_removeAll)
  then have "kcore {t} (rt_object_detach (O_Timer (Thread_Timer t)) (rt_timer_remove (Thread_Timer t) s))"
    by (rule kcore_objs) auto
  then show ?thesis unfolding closing_def by (intro transit_upd) auto
qed

lemma close_thread_kcore:
  assumes k: "kcore {t} s" and st: "tstat s t = 4" and tm: "Thread_Timer t \<notin> set (rt_timer_list s)"
  shows "kcore {} (close_thread t s)" "kcore {} (tlist_insert_after L_defunct t s)"
proof -
  have "kcore {t} (rt_object_detach (O_Thread t) s)" by (rule kcore_objs [OF k]) auto
  then have d: "kcore ({t} - {t}) (rt_object_detach (O_Thread t) s)"
    by (rule transit_settle) (use st tm in \<open>auto simp: live_def\<close>)
  show "kcore {} (tlist_insert_after L_defunct t s)" using transit_defunct [OF k] st tm by simp
  then show "kcore {} (close_thread t s)" using d by (simp add: close_thread_def)
qed

lemma close_total:
  assumes k: "kinv s" and ok: "tcb_ok s t" and s1: "kcore {t} s1"
    and same: "objs s1 = objs s" "rt_current_thread s1 = rt_current_thread s" "\<And>u. tstat s1 u = tstat s u"
  shows "kinv (close_thread t (closing t s1))" "kinv (tlist_insert_after L_defunct t (closing t s1))"
    "rt_timer_detach (Thread_Timer t) s1 =
       Some (0, rt_object_detach (O_Timer (Thread_Timer t)) (rt_timer_remove (Thread_Timer t) s1))"
proof -
  have k1: "kcore {t} (closing t s1)" by (rule closing_kcore [OF s1])
  have "cur_ok (closing t s1)" using kinvD(2) [OF k] same by (auto simp: cur_ok_def)
  then show "kinv (close_thread t (closing t s1))" "kinv (tlist_insert_after L_defunct t (closing t s1))"
    using close_thread_kcore [OF k1] by (simp_all add: kinv_def cur_ok_def)
  show "rt_timer_detach (Thread_Timer t) s1 =
       Some (0, rt_object_detach (O_Timer (Thread_Timer t)) (rt_timer_remove (Thread_Timer t) s1))"
    using ok same(1)
    by (simp add: rt_timer_detach_def rt_object_get_type_def rt_object_is_systemobject_def tcb_ok_def)
qed

lemma exit_total:
  assumes k: "kinv s" and c: "rt_current_thread s = Some c" "tstat s c = 3"
  obtains s' where "rt_thread_exit s = Some s'" "rt_schedule (close_thread c (closing c (unready c s))) = Some s'"
    "kinv (close_thread c (closing c (unready c s)))" "kinv s'" "tstat s' c = 4"
proof -
  note K = kinvD(1) [OF k]
  have ok: "tcb_ok s c" "prio_ok s c" using kcoreD(7,8) [OF K, of c] c by (auto simp: live_def)
  let ?s1 = "unready c s"
  have k1: "kcore {c} ?s1" using transit_remove [OF K ok(2)] by simp
  note C = close_total [OF k ok(1) k1]
  have kc: "kinv (close_thread c (closing c ?s1))" by (rule C(1)) simp_all
  obtain s' where s': "rt_schedule (close_thread c (closing c ?s1)) = Some s'" "kinv s'"
    using rt_schedule_total [OF kc, of c] c by auto
  let ?s2 = "upd_thread c (\<lambda>th. th\<lparr>stat := 4\<rparr>) ?s1"
  have "rt_timer_detach (Thread_Timer c) ?s2 = Some (0, closing c ?s1)"
    using ok(1) by (simp add: rt_timer_detach_def rt_object_get_type_def rt_object_is_systemobject_def
        tcb_ok_def closing_def upd_thread_def rt_object_detach_def object_unlink_def upd_obj_def rt_timer_remove_def)
  then have "rt_thread_exit s = Some s'"
    using c ok(2) s' by (simp add: rt_thread_exit_def rt_thread_self_def remove_thread_eq prio_ok_def)
  moreover have "tstat s' c = 4" using rt_schedule_stat(1) [OF kc _ s'(1), of c c] c by simp
  ultimately show thesis using that s' kc by blast
qed

lemma detach_total:
  assumes k: "kinv s" and st: "live s t \<or> tstat s t = 0" and ty: "otype s (O_Thread t) = 1"
    and sys: "rt_object_is_systemobject (O_Thread t) s"
  shows "\<exists>s'. rt_thread_detach t s = Some (0, s') \<and> kinv s' \<and> tstat s' t = 4"
proof -
  note K = kinvD(1) [OF k]
  have ok: "tcb_ok s t" using kcoreD(7,9) [OF K, of t] st ty by auto
  define s1 where "s1 = (if tstat s t \<noteq> 0 then unready t s else s)"
  have k1: "kcore {t} s1"
    using transit_remove [OF K, of t] transit_out [OF K, of t] off_lists_stat [OF K, of t] st kcoreD(8) [OF K, of t]
    by (auto simp: s1_def)
  have r: "(if tstat s t \<noteq> 0 then rt_schedule_remove_thread t s else Some s) = Some s1"
    using st kcoreD(8) [OF K, of t] by (auto simp: s1_def live_def prio_ok_def remove_thread_eq)
  note C = close_total [OF k ok k1]
  have "rt_thread_detach t s = Some (0, close_thread t (closing t s1))"
    using C(3) ty sys r by (simp add: rt_thread_detach_def get_type_otype s1_def closing_def)
  moreover have "kinv (close_thread t (closing t s1))" by (rule C(1)) (simp_all add: s1_def)
  ultimately show ?thesis by simp
qed

lemma delete_total:
  assumes k: "kinv s" and st: "live s t \<or> tstat s t = 0" and ty: "otype s (O_Thread t) = 1"
    and dyn: "\<not> rt_object_is_systemobject (O_Thread t) s"
  shows "\<exists>s'. rt_thread_delete t s = Some (0, s') \<and> kinv s' \<and> t \<in> set (tq s' L_defunct)"
proof -
  note K = kinvD(1) [OF k]
  have ok: "tcb_ok s t" using kcoreD(7,9) [OF K, of t] st ty by auto
  define s1 where "s1 = (if tstat s t \<noteq> 0 then unready t s else s)"
  have k1: "kcore {t} s1"
    using transit_remove [OF K, of t] transit_out [OF K, of t] off_lists_stat [OF K, of t] st kcoreD(8) [OF K, of t]
    by (auto simp: s1_def)
  have r: "(if tstat s t \<noteq> 0 then rt_schedule_remove_thread t s else Some s) = Some s1"
    using st kcoreD(8) [OF K, of t] by (auto simp: s1_def live_def prio_ok_def remove_thread_eq)
  note C = close_total [OF k ok k1]
  have "rt_thread_delete t s = Some (0, tlist_insert_after L_defunct t (closing t s1))"
    using C(3) ty dyn r by (simp add: rt_thread_delete_def get_type_otype s1_def closing_def)
  moreover have "kinv (tlist_insert_after L_defunct t (closing t s1))" by (rule C(2)) (simp_all add: s1_def)
  ultimately show ?thesis by simp
qed

end
