(* ===== verification/Clock.thy ===== *)
theory Clock
  imports Rt_Thread
begin

text \<open>
  The tick of \<open>src/clock.c\<close>, the expiry loop \<open>rt_timer_check\<close> of \<open>src/timer.c\<close> and the interrupt
  nesting of \<open>src/irq.c\<close>. The functions of the application that timers call are an argument
  \<open>user\<close>. The theory shows that the timer list stays ordered by deadline across the
  wrap-around of the tick and that the expiry loop ends and fires what is due.
\<close>

subsection \<open>Operations\<close>

definition rt_interrupt_enter :: "kernel \<Rightarrow> kernel" where
  "rt_interrupt_enter s = s\<lparr>rt_interrupt_nest := rt_interrupt_nest s + 1\<rparr>"

definition rt_interrupt_leave :: "kernel \<Rightarrow> kernel" where
  "rt_interrupt_leave s = s\<lparr>rt_interrupt_nest := rt_interrupt_nest s - 1\<rparr>"

definition rt_interrupt_get_nest :: "kernel \<Rightarrow> u8" where
  "rt_interrupt_get_nest s = rt_interrupt_nest s"

definition rt_tick_get :: "kernel \<Rightarrow> u32" where
  "rt_tick_get s = rt_tick s"

definition rt_tick_set :: "u32 \<Rightarrow> kernel \<Rightarrow> kernel" where
  "rt_tick_set tick s = s\<lparr>rt_tick := tick\<rparr>"

text \<open>\<open>ms\<close> is a signed 32 bit number of milliseconds; the tick rate is 100 per second. A
  negative time is \<open>RT_WAITING_FOREVER\<close>.\<close>

definition rt_tick_from_millisecond :: "32 word \<Rightarrow> u32" where
  "rt_tick_from_millisecond ms =
     (if sint ms < 0 then - 1
      else word_of_int (100 * (sint ms div 1000)) + word_of_int ((100 * (sint ms mod 1000) + 999) div 1000))"

definition rt_thread_mdelay :: "32 word \<Rightarrow> kernel \<Rightarrow> kernel option" where
  "rt_thread_mdelay ms s = rt_thread_sleep (rt_tick_from_millisecond ms) s"

fun call_timeout :: "(nat \<Rightarrow> kernel \<Rightarrow> kernel option) \<Rightarrow> timeout_fn \<Rightarrow> kernel \<Rightarrow> kernel option" where
  "call_timeout user (Rt_Thread_Timeout t) s = rt_thread_timeout t s"
| "call_timeout user (User_Timeout n) s = user n s"

partial_function (option) rt_timer_check_loop ::
  "(nat \<Rightarrow> kernel \<Rightarrow> kernel option) \<Rightarrow> u32 \<Rightarrow> kernel \<Rightarrow> kernel option" where
  "rt_timer_check_loop user current_tick s =
     (case rt_timer_list s of
        [] \<Rightarrow> Some s
      | i # is \<Rightarrow>
          if current_tick - timeout_tick (timers s i) < RT_TICK_MAX div 2
          then do {
            s1 \<leftarrow> call_timeout user (timeout_func (timers s i)) (rt_timer_remove i s);
            s2 \<leftarrow> (if obj_flag (objs s1 (O_Timer i)) AND RT_TIMER_FLAG_PERIODIC \<noteq> 0 \<and>
                     obj_flag (objs s1 (O_Timer i)) AND RT_TIMER_FLAG_ACTIVATED \<noteq> 0
                  then map_option snd (rt_timer_start i (set_activated False i s1))
                  else Some (set_activated False i s1));
            rt_timer_check_loop user (rt_tick_get s1) s2
          }
          else Some s)"

definition rt_timer_check :: "(nat \<Rightarrow> kernel \<Rightarrow> kernel option) \<Rightarrow> kernel \<Rightarrow> kernel option" where
  "rt_timer_check user s = rt_timer_check_loop user (rt_tick_get s) s"

definition rt_tick_increase :: "(nat \<Rightarrow> kernel \<Rightarrow> kernel option) \<Rightarrow> kernel \<Rightarrow> kernel option" where
  "rt_tick_increase user s = do {
     let s1 = s\<lparr>rt_tick := rt_tick s + 1\<rparr>;
     t \<leftarrow> rt_thread_self s1;
     let s2 = upd_thread t (\<lambda>th. th\<lparr>remaining_tick := remaining_tick th - 1\<rparr>) s1;
     s3 \<leftarrow> (if remaining_tick (threads s2 t) = 0
           then map_option snd (rt_thread_yield
                  (upd_thread t (\<lambda>th. th\<lparr>remaining_tick := thread_init_tick th\<rparr>) s2))
           else Some s2);
     rt_timer_check user s3
   }"

subsection \<open>Milliseconds\<close>

text \<open>The conversion is the ceiling of \<open>ms / 10\<close>.\<close>

lemma tick_from_ms_nonneg:
  assumes "0 \<le> sint ms"
  shows "uint (rt_tick_from_millisecond ms) = (sint ms + 9) div 10"
proof -
  let ?m = "sint ms"
  have "(100 * r + 999) div 1000 = (r + 9) div 10" for r :: int
  proof -
    have "(100 * r + 999) div 1000 = (100 * r + 999) div 100 div 10"
      using zdiv_zmult2_eq [of 10 "100 * r + 999" 100] by simp
    then show ?thesis by simp
  qed
  moreover have "(?m + 9) div 10 = 100 * (?m div 1000) + (?m mod 1000 + 9) div 10"
  proof -
    have "?m + 9 = (?m mod 1000 + 9) + 10 * (100 * (?m div 1000))" using mult_div_mod_eq [of 1000 ?m] by linarith
    then show ?thesis by (metis add.commute div_mult_self2 zero_neq_numeral)
  qed
  ultimately have "100 * (?m div 1000) + (100 * (?m mod 1000) + 999) div 1000 = (?m + 9) div 10" by simp
  moreover have "?m < 2 ^ 31" using sint_lt [of ms] by simp
  ultimately have "rt_tick_from_millisecond ms = word_of_int ((?m + 9) div 10)" and "(?m + 9) div 10 < 2 ^ 32"
    using assms unfolding rt_tick_from_millisecond_def
    by (simp_all del: of_int_add of_int_mult flip: of_int_add)
  then show ?thesis
    using assms by (simp add: unsigned_of_int take_bit_int_eq_self del: of_int_add)
qed

subsection \<open>The timer list is ordered by deadline\<close>

text \<open>Deadlines are compared relative to a base tick \<open>b\<close>: the distance of a deadline from the
  base, modulo the wrap-around, is below \<open>RT_TICK_MAX / 2\<close> for every active timer.\<close>

definition deadline :: "u32 \<Rightarrow> kernel \<Rightarrow> timer_id \<Rightarrow> nat" where
  "deadline b s i = unat (timeout_tick (timers s i) - b)"

definition timers_sorted :: "u32 \<Rightarrow> kernel \<Rightarrow> bool" where
  "timers_sorted b s \<longleftrightarrow>
     sorted (map (deadline b s) (rt_timer_list s)) \<and> (\<forall>i \<in> set (rt_timer_list s). deadline b s i < 0x7fffffff)"

lemma tick_diff:
  fixes x y :: u32
  assumes "unat x < 0x7fffffff" "unat y < 0x7fffffff"
  shows "x - y = 0 \<longleftrightarrow> unat x = unat y" and "x - y < 0x7fffffff \<longleftrightarrow> unat y \<le> unat x"
proof -
  show "x - y = 0 \<longleftrightarrow> unat x = unat y" unfolding right_minus_eq by (rule word_unat_eq_iff)
  show "x - y < 0x7fffffff \<longleftrightarrow> unat y \<le> unat x"
    using assms by (auto simp: word_less_nat_alt unat_sub_if' word_le_nat_alt)
qed

lemma timer_insert_ordered:
  assumes "deadline b s i < 0x7fffffff" and "\<forall>j \<in> set js. deadline b s j < 0x7fffffff"
  shows "timer_insert s i js =
    takeWhile (\<lambda>j. deadline b s j \<le> deadline b s i) js @ i # dropWhile (\<lambda>j. deadline b s j \<le> deadline b s i) js"
  using assms(2)
proof (induction js)
  case (Cons j js)
  let ?x = "timeout_tick (timers s j) - b" and ?y = "timeout_tick (timers s i) - b"
  have "?x - ?y = timeout_tick (timers s j) - timeout_tick (timers s i)" by simp
  then show ?case
    using Cons tick_diff [of ?x ?y] assms(1) by (auto simp: Let_def deadline_def)
qed simp

lemma sorted_takeWhile_insert:
  "sorted (map f js) \<Longrightarrow>
   sorted (map f (takeWhile (\<lambda>j. f j \<le> f i) js @ i # dropWhile (\<lambda>j. f j \<le> f i) js))"
  for f :: "'a \<Rightarrow> nat"
proof (induction js)
  case (Cons j js)
  then show ?case by (auto dest!: set_takeWhileD set_dropWhileD intro: order_trans)
qed simp

lemma deadline_started:
  "deadline b (started i s) j =
     (if j = i then unat (rt_tick s + init_tick (timers s i) - b) else deadline b s j)"
  by (simp add: deadline_def)

lemma sorted_removeAll: "sorted (map f xs) \<Longrightarrow> sorted (map f (removeAll x xs))"
  by (induction xs) auto

lemma timer_started_sorted:
  assumes "timers_sorted b s" and "unat (rt_tick s + init_tick (timers s i) - b) < 0x7fffffff"
  shows "timers_sorted b (started i s)"
proof -
  let ?f = "deadline b (started i s)"
  let ?js = "removeAll i (rt_timer_list s)"
  have f: "?f j = deadline b s j" if "j \<in> set ?js" for j using that by (simp add: deadline_started)
  then have m: "map ?f ?js = map (deadline b s) ?js" by (intro map_cong) auto
  have lim: "?f i < 0x7fffffff" "\<forall>j \<in> set ?js. ?f j < 0x7fffffff"
    using assms f by (auto simp: deadline_started timers_sorted_def)
  have "sorted (map ?f ?js)" using assms(1) unfolding m by (simp add: timers_sorted_def sorted_removeAll)
  then have "sorted (map ?f (rt_timer_list (started i s)))"
    using timer_insert_ordered [OF lim] sorted_takeWhile_insert by (simp add: started_list)
  then show ?thesis using lim by (auto simp: timers_sorted_def started_list)
qed

subsection \<open>The expiry loop\<close>

text \<open>What the loop relies on from the functions of the application: a call returns, keeps
  the kernel consistent, suspends no thread, and leaves the clock, the timers and their
  flags alone.\<close>

definition quiet_callbacks :: "(nat \<Rightarrow> kernel \<Rightarrow> kernel option) \<Rightarrow> bool" where
  "quiet_callbacks user \<longleftrightarrow>
     (\<forall>n s. kinv s \<longrightarrow> rt_current_thread s \<noteq> None \<longrightarrow>
        (\<exists>s'. user n s = Some s' \<and> kinv s' \<and> rt_current_thread s' \<noteq> None \<and> rt_tick s' = rt_tick s \<and>
              timers s' = timers s \<and> objs s' = objs s \<and> rt_timer_list s' = rt_timer_list s \<and>
              (\<forall>t. tstat s t \<noteq> RT_THREAD_SUSPEND \<longrightarrow> tstat s' t \<noteq> RT_THREAD_SUSPEND)))"

definition periodic :: "kernel \<Rightarrow> timer_id \<Rightarrow> bool" where
  "periodic s i \<longleftrightarrow> obj_flag (objs s (O_Timer i)) AND RT_TIMER_FLAG_PERIODIC \<noteq> 0"

text \<open>The state at the start of the loop: \<open>b\<close> is the base, the timers of the application call
  functions of the application, a periodic timer has a period that is not zero, and neither the elapsed time nor a new deadline leaves the window.\<close>

definition timers_ok :: "u32 \<Rightarrow> kernel \<Rightarrow> bool" where
  "timers_ok b s \<longleftrightarrow>
     timers_sorted b s \<and> unat (rt_tick s - b) < 0x7fffffff \<and>
     (\<forall>n. Timer_Obj n \<in> set (rt_timer_list s) \<longrightarrow> (\<exists>m. timeout_func (timers s (Timer_Obj n)) = User_Timeout m)) \<and>
     (\<forall>i \<in> set (rt_timer_list s). periodic s i \<longrightarrow>
        0 < init_tick (timers s i) \<and> unat (rt_tick s - b) + unat (init_tick (timers s i)) < 0x7fffffff)"

lemma due_iff:
  assumes "timers_ok b s" and "i \<in> set (rt_timer_list s)"
  shows "rt_tick s - timeout_tick (timers s i) < 0x7fffffff \<longleftrightarrow> deadline b s i \<le> unat (rt_tick s - b)"
proof -
  have "(rt_tick s - b) - (timeout_tick (timers s i) - b) = rt_tick s - timeout_tick (timers s i)" by simp
  then show ?thesis
    using tick_diff(2) [of "rt_tick s - b" "timeout_tick (timers s i) - b"] assms
    by (simp add: timers_ok_def timers_sorted_def deadline_def)
qed

lemma timer_remove_kinv: "kinv s \<Longrightarrow> kinv (rt_timer_remove i s)"
proof -
  assume k: "kinv s"
  have "kcore {} (rt_timer_remove i s)"
    using kcoreD(10-13) [OF kinvD(1) [OF k]]
    by (intro kcore_timers [OF kinvD(1) [OF k]]) (auto simp: distinct_removeAll)
  moreover have "cur_ok (rt_timer_remove i s)" using kinvD(2) [OF k] by (simp add: cur_ok_def)
  ultimately show ?thesis by (simp add: kinv_def)
qed

lemma set_activated_kinv:
  assumes k: "kinv s" and i: "i \<notin> set (rt_timer_list s)"
  shows "kinv (set_activated b i s)"
proof -
  have "kcore {} (set_activated b i s)"
    using kcoreD(10-13) [OF kinvD(1) [OF k]] i
    by (intro kcore_timers [OF kinvD(1) [OF k]]) auto
  moreover have "cur_ok (set_activated b i s)" using kinvD(2) [OF k] by (simp add: cur_ok_def)
  ultimately show ?thesis by (simp add: kinv_def)
qed

lemma started_kinv:
  assumes k: "kinv s" and ty: "otype s (O_Timer i) = 10" and st: "\<And>t. i = Thread_Timer t \<Longrightarrow> tstat s t = 2"
  shows "kinv (started i s)"
proof -
  have "kcore {} (started i s)" using kcore_started [OF kinvD(1) [OF k] ty] st by blast
  moreover have "cur_ok (started i s)" using kinvD(2) [OF k] by (simp add: cur_ok_def)
  ultimately show ?thesis by (simp add: kinv_def)
qed

text \<open>One call of a handler.\<close>

lemma call_timeout_total:
  assumes k: "kinv s" and c: "rt_current_thread s \<noteq> None" and u: "quiet_callbacks user"
    and i: "i \<in> set (rt_timer_list s)" and tm: "timers_ok b s"
  obtains s1 where "call_timeout user (timeout_func (timers s i)) (rt_timer_remove i s) = Some s1" "kinv s1"
    "rt_current_thread s1 \<noteq> None" "rt_tick s1 = rt_tick s" "timers s1 = timers s" "objs s1 = objs s"
    "rt_timer_list s1 = removeAll i (rt_timer_list s)"
    "\<And>t. i = Thread_Timer t \<Longrightarrow> err (threads s1 t) = - RT_ETIMEOUT \<and> tstat s1 t \<noteq> 2"
    "\<And>t. tstat s t \<noteq> 2 \<Longrightarrow> tstat s1 t \<noteq> 2"
proof (cases i)
  case (Timer_Obj n)
  then obtain m where m: "timeout_func (timers s i) = User_Timeout m" using tm i by (auto simp: timers_ok_def)
  obtain s1 where "user m (rt_timer_remove i s) = Some s1" "kinv s1" "rt_current_thread s1 \<noteq> None"
      "rt_tick s1 = rt_tick s" "timers s1 = timers s" "objs s1 = objs s"
      "rt_timer_list s1 = removeAll i (rt_timer_list s)" "\<And>t. tstat s t \<noteq> 2 \<Longrightarrow> tstat s1 t \<noteq> 2"
    using u timer_remove_kinv [OF k, of i] c unfolding quiet_callbacks_def by fastforce
  then show thesis using that m Timer_Obj by simp
next
  case (Thread_Timer t)
  let ?s0 = "rt_timer_remove i s"
  note D = kcoreD [OF kinvD(1) [OF k]]
  have st: "tstat s t = 2" using D(13) [of t] i Thread_Timer by simp
  then have fn: "timeout_func (timers s i) = Rt_Thread_Timeout t"
    using D(7) [of t] Thread_Timer by (simp add: live_def tcb_ok_def)
  have k0: "kinv ?s0" by (rule timer_remove_kinv [OF k])
  have k1: "kinv (timedout t ?s0)" using k0 st Thread_Timer by (intro timedout_kinv) auto
  obtain cc where cc: "rt_current_thread (timedout t ?s0) = Some cc" using c by auto
  obtain s1 where s1: "rt_schedule (timedout t ?s0) = Some s1" "kinv s1" "rt_current_thread s1 \<noteq> None"
    using rt_schedule_total [OF k1 cc] by auto
  note F = rt_schedule_frame [OF k1 cc s1(1)]
  have "call_timeout user (timeout_func (timers s i)) ?s0 = Some s1"
    using fn s1 timeout_eq [OF k0, of t] st by simp
  moreover have "tstat (timedout t ?s0) t = 1 \<or> tstat (timedout t ?s0) t = 3" by simp
  then have "tstat s1 t \<noteq> 2" using rt_schedule_runnable [OF k1 cc s1(1), of t] by auto
  moreover have "err (threads s1 t) = - 2" using F(20) [of t] by simp
  moreover have "tstat s1 u \<noteq> 2" if "tstat s u \<noteq> 2" for u
    using rt_schedule_stat(2) [OF k1 cc s1(1), of u] that by (auto split: if_splits)
  ultimately show thesis using that s1 F(1-7) Thread_Timer by auto
qed

lemma periodic_simps [simp]:
  "periodic (set_activated b i s) j = periodic s j" "periodic (started i s) j = periodic s j"
  by (simp_all add: periodic_def)

text \<open>What handling some of the due timers does: the clock and the kind of the timers stay,
  timers that are not due and periodic ones stay on the list, the deadline of a one-shot
  timer stays, and the thread of a timer that left the list is awake.\<close>

definition fired :: "u32 \<Rightarrow> kernel \<Rightarrow> kernel \<Rightarrow> bool" where
  "fired b s s' \<longleftrightarrow>
     rt_tick s' = rt_tick s \<and> periodic s' = periodic s \<and> set (rt_timer_list s') \<subseteq> set (rt_timer_list s) \<and>
     (\<forall>i \<in> set (rt_timer_list s). unat (rt_tick s - b) < deadline b s i \<longrightarrow>
        i \<in> set (rt_timer_list s') \<and> deadline b s' i = deadline b s i) \<and>
     (\<forall>i \<in> set (rt_timer_list s). periodic s i \<longrightarrow> i \<in> set (rt_timer_list s')) \<and>
     (\<forall>i \<in> set (rt_timer_list s'). \<not> periodic s i \<longrightarrow> deadline b s' i = deadline b s i) \<and>
     (\<forall>t. tstat s t \<noteq> 2 \<longrightarrow> tstat s' t \<noteq> 2) \<and>
     (\<forall>t. Thread_Timer t \<in> set (rt_timer_list s) - set (rt_timer_list s') \<longrightarrow> tstat s' t \<noteq> 2) \<and>
     (\<forall>i. init_tick (timers s' i) = init_tick (timers s i))"

lemma fired_refl: "fired b s s"
  by (simp add: fired_def)

lemma fired_trans:
  assumes "fired b s s1" "fired b s1 s2"
  shows "fired b s s2"
proof -
  note A = assms [unfolded fired_def]
  show ?thesis
    unfolding fired_def
  proof (intro conjI ballI allI impI, goal_cases)
    case (9 t)
    then show ?case using A by (cases "Thread_Timer t \<in> set (rt_timer_list s1)") auto
  qed (use A in \<open>auto\<close>)
qed

text \<open>One round of the loop on a timer that is due.\<close>

lemma check_round:
  assumes k: "kinv s" and c: "rt_current_thread s \<noteq> None" and u: "quiet_callbacks user"
    and tm: "timers_ok b s" and l: "rt_timer_list s = i # is" and due: "deadline b s i \<le> unat (rt_tick s - b)"
  obtains s2 where "rt_timer_check_loop user (rt_tick s) s = rt_timer_check_loop user (rt_tick s2) s2"
    "kinv s2" "rt_current_thread s2 \<noteq> None" "timers_ok b s2" "fired b s s2"
    "{j \<in> set (rt_timer_list s2). deadline b s2 j \<le> unat (rt_tick s2 - b)} \<subseteq>
       {j \<in> set is. deadline b s j \<le> unat (rt_tick s - b)}"
proof -
  note D = kcoreD [OF kinvD(1) [OF k]]
  have i: "i \<in> set (rt_timer_list s)" using l by simp
  have rm: "removeAll i (rt_timer_list s) = is" using D(10) l by simp
  obtain s1 where s1: "call_timeout user (timeout_func (timers s i)) (rt_timer_remove i s) = Some s1" "kinv s1"
    "rt_current_thread s1 \<noteq> None" "rt_tick s1 = rt_tick s" "timers s1 = timers s" "objs s1 = objs s"
    "rt_timer_list s1 = is" "\<And>t. i = Thread_Timer t \<Longrightarrow> tstat s1 t \<noteq> 2" "\<And>t. tstat s t \<noteq> 2 \<Longrightarrow> tstat s1 t \<noteq> 2"
    by (rule call_timeout_total [OF k c u i tm]) (auto simp: rm)
  have ni: "i \<notin> set is" using D(10) l by simp
  have p1: "periodic s1 = periodic s" and d1: "deadline b s1 = deadline b s" and a1: "activated s1 = activated s"
    and o1: "otype s1 = otype s"
    using s1(5,6) by (simp_all add: periodic_def deadline_def activated_def otype_def fun_eq_iff)
  let ?a = "set_activated False i s1"
  have da: "deadline b ?a = deadline b s" using d1 by (simp add: deadline_def fun_eq_iff)
  have ka: "kinv ?a" using s1(2,7) ni by (intro set_activated_kinv) auto
  have tma: "timers_ok b ?a"
    using tm l s1 da p1 by (auto simp: timers_ok_def timers_sorted_def)
  have act: "obj_flag (objs s1 (O_Timer i)) AND 1 \<noteq> 0" using D(11) [OF i] a1 by (metis activated_def)
  define s2 where "s2 = (if periodic s i then started i ?a else ?a)"
  have per: "0 < init_tick (timers s i)" "unat (rt_tick s - b) + unat (init_tick (timers s i)) < 0x7fffffff"
    if "periodic s i" using tm i that by (auto simp: timers_ok_def)
  have nt: "i \<noteq> Thread_Timer t" if "periodic s i" for t
    using that D(7,13) [of t] i by (auto simp: periodic_def live_def tcb_ok_def)
  have nd: "unat (rt_tick s + init_tick (timers s i) - b) = unat (rt_tick s - b) + unat (init_tick (timers s i))"
    if "periodic s i"
  proof -
    have e: "rt_tick s + init_tick (timers s i) - b = (rt_tick s - b) + init_tick (timers s i)" by simp
    show ?thesis unfolding e by (rule unat_add_small) (use per [OF that] in simp)
  qed
  have st: "(if obj_flag (objs s1 (O_Timer i)) AND 2 \<noteq> 0 \<and> obj_flag (objs s1 (O_Timer i)) AND 1 \<noteq> 0
      then map_option snd (rt_timer_start i ?a) else Some ?a) = Some s2"
  proof -
    have pf: "obj_flag (objs s1 (O_Timer i)) AND 2 \<noteq> 0 \<longleftrightarrow> periodic s i" using s1(6) by (simp add: periodic_def)
    have "rt_timer_start i ?a = Some (0, started i ?a)" if "periodic s i"
      using per [OF that] D(12) [OF i] o1 s1(5) by (intro timer_start_eq) (simp_all add: word_less_nat_alt)
    then show ?thesis using act by (cases "periodic s i") (simp_all add: pf s2_def)
  qed
  have r1: "rt_timer_check_loop user (rt_tick s) s = rt_timer_check_loop user (rt_tick s2) s2"
    using due_iff [OF tm i] due l s1(1,4) st
    by (subst rt_timer_check_loop.simps) (simp add: rt_tick_get_def s2_def)
  have r2: "kinv s2"
    using ka started_kinv [OF ka, of i] nt D(12) [OF i] o1 by (auto simp: s2_def)
  have r5: "timers_ok b s2"
  proof (cases "periodic s i")
    case True
    then have "timers_sorted b (started i ?a)"
      using tma per [OF True] nd [OF True] s1(4,5) by (intro timer_started_sorted) (auto simp: timers_ok_def)
    then show ?thesis
      using tma True per [OF True] nt [OF True] tm l s1 p1
      by (auto simp: timers_ok_def s2_def started_list)
  qed (use tma in \<open>simp add: s2_def\<close>)
  have r3: "rt_current_thread s2 \<noteq> None" and r4: "rt_tick s2 = rt_tick s" using s1 by (auto simp: s2_def)
  have r6: "set (rt_timer_list s2) = set is \<union> (if periodic s i then {i} else {})"
    using s1(7) ni by (auto simp: s2_def started_list)
  have r7: "deadline b s2 j = deadline b s j" if "j \<noteq> i" for j
    using that da by (simp add: s2_def deadline_started)
  have r8: "unat (rt_tick s - b) < deadline b s2 i" if "periodic s i"
    using that nd [OF that] per(1) [OF that] s1(4,5) by (simp add: s2_def deadline_started word_less_nat_alt)
  have r9: "periodic s2 = periodic s" using p1 by (simp add: s2_def fun_eq_iff)
  have ts: "tstat s2 t = tstat s1 t" for t by (simp add: s2_def)
  have rI: "init_tick (timers s2 j) = init_tick (timers s j)" for j using s1(5) by (simp add: s2_def)
  have "fired b s s2"
    unfolding fired_def
  proof (intro conjI ballI allI impI, goal_cases)
    case (4 j)
    then show ?case using due r6 l by (cases "j = i") auto
  next
    case (5 j)
    then show ?case using due r7 by (cases "j = i") auto
  next
    case (7 j)
    then show ?case using r6 r7 [of j] ni by (cases "j = i") (auto split: if_splits)
  next
    case (9 t)
    then show ?case using r6 l s1(8) [of t] by (auto simp: ts split: if_splits)
  qed (use r4 r6 r7 r9 rI l ni s1(9) in \<open>auto simp: ts split: if_splits\<close>)
  moreover have "{j \<in> set (rt_timer_list s2). deadline b s2 j \<le> unat (rt_tick s2 - b)} \<subseteq>
       {j \<in> set is. deadline b s j \<le> unat (rt_tick s - b)}"
  proof
    fix j assume j: "j \<in> {j \<in> set (rt_timer_list s2). deadline b s2 j \<le> unat (rt_tick s2 - b)}"
    then have "j \<noteq> i" using r4 r6 r8 ni by (auto split: if_splits)
    then show "j \<in> {j \<in> set is. deadline b s j \<le> unat (rt_tick s - b)}"
      using j r4 r6 r7 [of j] by (auto split: if_splits)
  qed
  ultimately show thesis using that r1 r2 r3 r5 by blast
qed

text \<open>The loop ends, and every timer that is left has its deadline in the future.\<close>

lemma check_loop_total:
  assumes "kinv s" "rt_current_thread s \<noteq> None" "quiet_callbacks user" "timers_ok b s"
  shows "\<exists>s'. rt_timer_check_loop user (rt_tick s) s = Some s' \<and> kinv s' \<and> rt_current_thread s' \<noteq> None \<and>
    timers_ok b s' \<and> fired b s s' \<and> (\<forall>i \<in> set (rt_timer_list s'). unat (rt_tick s - b) < deadline b s' i)"
  using assms(1,2,4)
proof (induction "card {i \<in> set (rt_timer_list s). deadline b s i \<le> unat (rt_tick s - b)}"
    arbitrary: s rule: less_induct)
  case less
  let ?e = "unat (rt_tick s - b)"
  show ?case
  proof (cases "\<exists>i is. rt_timer_list s = i # is \<and> deadline b s i \<le> ?e")
    case False
    have "sorted (map (deadline b s) (rt_timer_list s))"
      using less.prems(3) by (simp add: timers_ok_def timers_sorted_def)
    then have "\<forall>i \<in> set (rt_timer_list s). ?e < deadline b s i"
      using False by (cases "rt_timer_list s") (auto simp: not_le intro: less_le_trans)
    moreover have "rt_timer_check_loop user (rt_tick s) s = Some s"
      using due_iff [OF less.prems(3)] False
      by (subst rt_timer_check_loop.simps) (auto split: list.splits)
    ultimately show ?thesis using less.prems fired_refl by blast
  next
    case True
    then obtain i "is" where l: "rt_timer_list s = i # is" and d: "deadline b s i \<le> ?e" by blast
    obtain s2 where R: "rt_timer_check_loop user (rt_tick s) s = rt_timer_check_loop user (rt_tick s2) s2"
      "kinv s2" "rt_current_thread s2 \<noteq> None" "timers_ok b s2" "fired b s s2"
      "{j \<in> set (rt_timer_list s2). deadline b s2 j \<le> unat (rt_tick s2 - b)} \<subseteq> {j \<in> set is. deadline b s j \<le> ?e}"
      by (rule check_round [OF less.prems(1,2) assms(3) less.prems(3) l d])
    have ni: "i \<notin> set is" using kcoreD(10) [OF kinvD(1) [OF less.prems(1)]] l by simp
    have "card {j \<in> set (rt_timer_list s2). deadline b s2 j \<le> unat (rt_tick s2 - b)} \<le> card {j \<in> set is. deadline b s j \<le> ?e}"
      using R(6) by (intro card_mono) auto
    also have "\<dots> < card {j \<in> set (rt_timer_list s). deadline b s j \<le> ?e}"
      unfolding l using ni d by (intro psubset_card_mono) auto
    finally have "\<exists>s'. rt_timer_check_loop user (rt_tick s2) s2 = Some s' \<and> kinv s' \<and> rt_current_thread s' \<noteq> None \<and>
      timers_ok b s' \<and> fired b s2 s' \<and> (\<forall>i \<in> set (rt_timer_list s'). unat (rt_tick s2 - b) < deadline b s' i)"
      using less.hyps R(2-4) by blast
    moreover have "rt_tick s2 = rt_tick s" using R(5) by (simp add: fired_def)
    ultimately show ?thesis using R(1) fired_trans [OF R(5)] by auto
  qed
qed

end
