(* ===== verification/Ipc_Common.thy ===== *)
theory Ipc_Common
  imports Clock
begin

text \<open>
  What the inter-process communication objects of \<open>src/ipc.c\<close> share: a list of suspended
  threads, in the order of arrival or of priority, and its operations. A call that may
  block returns \<open>Done\<close> with its result, or \<open>Block\<close> with the local variables it needs when the
  thread runs again.
\<close>

datatype 'k outcome = Done rt_err_t | Block 'k

text \<open>The checks \<open>RT_DEBUG_IN_THREAD_CONTEXT\<close> and \<open>RT_DEBUG_NOT_IN_INTERRUPT\<close>.\<close>

definition in_thread_context :: "kernel \<Rightarrow> bool" where
  "in_thread_context s \<longleftrightarrow> rt_current_thread s \<noteq> None \<and> rt_interrupt_nest s = 0"

subsection \<open>Operations\<close>

definition rt_ipc_object_init :: "lhead \<Rightarrow> kernel \<Rightarrow> kernel" where
  "rt_ipc_object_init l s = s\<lparr>tq := (tq s)(l := [])\<rparr>"

definition rt_ipc_list_suspend :: "lhead \<Rightarrow> tid \<Rightarrow> u8 \<Rightarrow> kernel \<Rightarrow> kernel option" where
  "rt_ipc_list_suspend l t flag s = do {
     (_, s1) \<leftarrow> rt_thread_suspend t s;
     if flag = RT_IPC_FLAG_FIFO then Some (tlist_insert_before l t s1)
     else if flag = RT_IPC_FLAG_PRIO then
       (case find (\<lambda>u. current_priority (threads s1 t) < current_priority (threads s1 u)) (tq s1 l) of
          Some u \<Rightarrow> Some (tlist_insert_at u t s1)
        | None \<Rightarrow> Some (tlist_insert_before l t s1))
     else Some s1
   }"

definition rt_ipc_list_resume :: "lhead \<Rightarrow> kernel \<Rightarrow> kernel option" where
  "rt_ipc_list_resume l s =
     (case tq s l of
        [] \<Rightarrow> None
      | t # _ \<Rightarrow> do { (_, s1) \<leftarrow> rt_thread_resume t s; Some s1 })"

partial_function (option) rt_ipc_list_resume_all :: "lhead \<Rightarrow> kernel \<Rightarrow> kernel option" where
  "rt_ipc_list_resume_all l s =
     (case tq s l of
        [] \<Rightarrow> Some s
      | t # ts \<Rightarrow> do {
          (_, s1) \<leftarrow> rt_thread_resume t (upd_thread t (\<lambda>th. th\<lparr>err := - RT_ERROR\<rparr>) s);
          rt_ipc_list_resume_all l s1
        })"

text \<open>The part that every blocking call has: suspend the current thread on the list of the
  object, start its timer when the wait is bounded, and leave the processor.\<close>

definition ipc_wait :: "lhead \<Rightarrow> tid \<Rightarrow> u8 \<Rightarrow> u32 \<Rightarrow> kernel \<Rightarrow> kernel option" where
  "ipc_wait l t flag time s = do {
     s1 \<leftarrow> rt_ipc_list_suspend l t flag s;
     s2 \<leftarrow> (if 0 < sint time then start_thread_timer t time s1 else Some s1);
     rt_schedule s2
   }"

text \<open>\<open>rt_set_errno\<close> of \<open>src/kservice.c\<close>; outside a thread it sets a variable that the kernel does
  not read.\<close>

definition rt_set_errno :: "rt_err_t \<Rightarrow> kernel \<Rightarrow> kernel" where
  "rt_set_errno e s =
     (if rt_interrupt_get_nest s \<noteq> 0 then s
      else case rt_thread_self s of None \<Rightarrow> s | Some t \<Rightarrow> upd_thread t (\<lambda>th. th\<lparr>err := e\<rparr>) s)"

subsection \<open>Waiting\<close>

text \<open>The list a thread is put on: at the end, or before the first thread of lower priority.\<close>

definition enqueue :: "u8 \<Rightarrow> kernel \<Rightarrow> tid \<Rightarrow> tid list \<Rightarrow> tid list" where
  "enqueue flag s t ts =
     (if flag = RT_IPC_FLAG_FIFO then ts @ [t]
      else takeWhile (\<lambda>u. prio s u \<le> prio s t) ts @ t # dropWhile (\<lambda>u. prio s u \<le> prio s t) ts)"

definition waiting :: "lhead \<Rightarrow> tid \<Rightarrow> u8 \<Rightarrow> kernel \<Rightarrow> kernel" where
  "waiting l t flag s = (parked t s)\<lparr>tq := (tq (parked t s))(l := enqueue flag s t (tq (parked t s) l))\<rparr>"

lemma set_enqueue [simp]: "set (enqueue flag s t ts) = insert t (set ts)"
proof -
  have "set (takeWhile P ts) \<union> set (dropWhile P ts) = set ts" for P
    by (metis set_append takeWhile_dropWhile_id)
  then show ?thesis by (auto simp: enqueue_def)
qed

lemma distinct_enqueue: "distinct ts \<Longrightarrow> t \<notin> set ts \<Longrightarrow> distinct (enqueue flag s t ts)"
proof -
  assume d: "distinct ts" "t \<notin> set ts"
  have "set (takeWhile P ts) \<inter> set (dropWhile P ts) = {}" for P
    using d(1) by (metis distinct_append takeWhile_dropWhile_id)
  then show ?thesis using d by (auto simp: enqueue_def dest: set_takeWhileD set_dropWhileD)
qed

lemma find_dropWhile: "find (\<lambda>u. \<not> P u) ts = (case dropWhile P ts of [] \<Rightarrow> None | u # _ \<Rightarrow> Some u)"
  by (induction ts) auto

lemma tq_wf_insert:
  assumes wf: "tq_wf s" and off: "\<And>m. t \<notin> set (tq s m)" and q: "distinct q" "set q = insert t (set (tq s l))"
  shows "tq_wf (s\<lparr>tq := (tq s)(l := q)\<rparr>)"
  unfolding tq_wf_def
proof (intro conjI allI impI)
  fix m n :: lhead assume ne: "m \<noteq> n"
  then have "set (tq s m) \<inter> set (tq s n) = {}" using wf by (simp add: tq_wf_def)
  then show "set (tq (s\<lparr>tq := (tq s)(l := q)\<rparr>) m) \<inter> set (tq (s\<lparr>tq := (tq s)(l := q)\<rparr>) n) = {}"
    using ne off [of m] off [of n] q(2) by (cases "m = l"; cases "n = l") auto
qed (use wf q in \<open>simp add: tq_wf_def\<close>)

lemma list_suspend_eq:
  assumes k: "kinv s" and st: "tstat s t = 1 \<or> tstat s t = 3" and flag: "flag = 0 \<or> flag = 1"
  shows "rt_ipc_list_suspend l t flag s = Some (waiting l t flag s)"
proof -
  note K = kinvD(1) [OF k]
  let ?s = "parked t s"
  have sus: "rt_thread_suspend t s = Some (0, ?s)"
    using st running_current [OF k, of t] by (intro suspend_eq [OF K]) auto
  note wf = kcoreD(1) [OF parked_kcore [OF K st]]
  let ?P = "\<lambda>u. prio s u \<le> prio s t"
  have f: "find (\<lambda>u. current_priority (threads s t) < current_priority (threads s u)) (removeAll t (tq s l)) =
      (case dropWhile ?P (removeAll t (tq s l)) of [] \<Rightarrow> None | u # _ \<Rightarrow> Some u)"
    using find_dropWhile [of ?P] by (simp add: word_less_nat_alt not_le)
  show ?thesis
  proof (cases "flag = 1 \<and> dropWhile ?P (tq ?s l) \<noteq> []")
    case True
    then obtain u us where d: "dropWhile ?P (tq ?s l) = u # us" by (meson neq_Nil_conv)
    then have sp: "tq ?s l = takeWhile ?P (tq ?s l) @ u # us" by (metis takeWhile_dropWhile_id)
    have "tlist_insert_at u t ?s = waiting l t flag s"
      using tq_insert_at [OF wf sp, of t] True d unfolding waiting_def tlist_insert_at_def
      by (simp add: enqueue_def fun_eq_iff)
    then show ?thesis using True d by (simp add: rt_ipc_list_suspend_def sus f)
  next
    case False
    then have dw: "dropWhile ?P (removeAll t (tq s l)) = []" if "flag = 1" using that by simp
    have e: "enqueue flag s t (removeAll t (tq s l)) = removeAll t (tq s l) @ [t]"
    proof (cases "flag = 1")
      case True
      note dw = dw [OF True]
      then have tw: "takeWhile ?P (removeAll t (tq s l)) = removeAll t (tq s l)"
        by (metis append_Nil2 takeWhile_dropWhile_id)
      show ?thesis unfolding enqueue_def dw tw by simp
    qed (use flag in \<open>simp add: enqueue_def\<close>)
    then have "tlist_insert_before l t ?s = waiting l t flag s"
      by (simp add: waiting_def tlist_insert_before_def)
    then show ?thesis
      using flag dw by (auto simp: rt_ipc_list_suspend_def sus f simp del: dropWhile_eq_Nil_conv)
  qed
qed

text \<open>Parking a thread on a waiting list keeps the invariant, wherever it goes in the list.\<close>

lemma parked_on_kinv:
  assumes k: "kinv s" and st: "tstat s t = 1 \<or> tstat s t = 3" and l: "wait_head l"
    and q: "distinct q" "set q = insert t (set (tq (parked t s) l))"
  shows "kinv ((parked t s)\<lparr>tq := (tq (parked t s))(l := q)\<rparr>)"
proof -
  note K = kinvD(1) [OF k]
  let ?s = "parked t s"
  let ?w = "?s\<lparr>tq := (tq ?s)(l := q)\<rparr>"
  note P = parked_transit [OF K st]
  have "tq_wf ?w" using kcoreD(1) [OF P(1)] q by (intro tq_wf_insert) auto
  then have "kcore ({t} - {t}) ?w" using P l q by (intro transit_wait [where l = l]) auto
  moreover have "cur_ok ?w" using kinvD(2) [OF parked_kinv [OF k st]] by (simp add: cur_ok_def tstat_def)
  ultimately show ?thesis by (simp add: kinv_def)
qed

lemma waiting_kinv:
  assumes k: "kinv s" and st: "tstat s t = 1 \<or> tstat s t = 3" and l: "wait_head l"
  shows "kinv (waiting l t flag s)"
proof -
  have "distinct (tq (parked t s) l)"
    using kcoreD(1) [OF parked_transit(1) [OF kinvD(1) [OF k] st]] by (simp only: tq_wf_def)
  then show ?thesis
    unfolding waiting_def by (intro parked_on_kinv [OF k st l] distinct_enqueue) auto
qed

lemma waiting_simps [simp]:
  "tstat (waiting l t flag s) u = (if u = t then 2 else tstat s u)"
  "tq (waiting l t flag s) m = (if m = l then enqueue flag s t (removeAll t (tq s l)) else removeAll t (tq s m))"
  "rt_current_thread (waiting l t flag s) = rt_current_thread s"
  "otype (waiting l t flag s) j = otype s j"
  "err (threads (waiting l t flag s) u) = err (threads s u)"
proof -
  have "tstat (waiting l t flag s) u = tstat (parked t s) u" for u by (simp add: waiting_def tstat_def)
  then show "tstat (waiting l t flag s) u = (if u = t then 2 else tstat s u)" by simp
qed (simp_all add: waiting_def otype_def)

subsection \<open>Data that the waiting lists do not touch\<close>

definition ipc_same :: "kernel \<Rightarrow> kernel \<Rightarrow> bool" where
  "ipc_same s s' \<longleftrightarrow>
     sems s' = sems s \<and> mutexes s' = mutexes s \<and> events s' = events s \<and> mailboxes s' = mailboxes s \<and>
     mqs s' = mqs s \<and> mempools s' = mempools s \<and> rt_tick s' = rt_tick s \<and>
     rt_interrupt_nest s' = rt_interrupt_nest s \<and> rt_scheduler_lock_nest s' = rt_scheduler_lock_nest s \<and>
     (\<forall>j. obj_type (objs s' j) = obj_type (objs s j)) \<and>
     (\<forall>i. timeout_func (timers s' i) = timeout_func (timers s i)) \<and>
     (\<forall>u. current_priority (threads s' u) = current_priority (threads s u) \<and>
          event_set (threads s' u) = event_set (threads s u) \<and> event_info (threads s' u) = event_info (threads s u))"

lemma ipc_sameD:
  assumes "ipc_same s s'"
  shows "sems s' = sems s" "mutexes s' = mutexes s" "events s' = events s" "mailboxes s' = mailboxes s"
    "mqs s' = mqs s" "mempools s' = mempools s" "rt_tick s' = rt_tick s"
    "rt_interrupt_nest s' = rt_interrupt_nest s" "rt_scheduler_lock_nest s' = rt_scheduler_lock_nest s"
    "obj_type (objs s' j) = obj_type (objs s j)" "otype s' j = otype s j"
    "current_priority (threads s' u) = current_priority (threads s u)"
    "event_set (threads s' u) = event_set (threads s u)" "event_info (threads s' u) = event_info (threads s u)"
    "timeout_func (timers s' i) = timeout_func (timers s i)"
  using assms by (simp_all add: ipc_same_def otype_def)

lemma ipc_same_refl [simp]: "ipc_same s s"
  by (simp add: ipc_same_def)

lemma ipc_same_trans: "ipc_same s1 s2 \<Longrightarrow> ipc_same s2 s3 \<Longrightarrow> ipc_same s1 s3"
  by (simp add: ipc_same_def)

lemma ipc_same_ops [simp]:
  "ipc_same s (resumed t s)" "ipc_same s (upd_thread t (\<lambda>th. th\<lparr>err := e\<rparr>) s)" "ipc_same s (waiting l t flag s)"
  "ipc_same s (timed t time s)" "ipc_same s (parked t s)" "ipc_same s (timedout t s)"
  by (simp_all add: ipc_same_def waiting_def) (simp_all add: timedout_def Let_def)

lemma ipc_same_schedule:
  "kinv s \<Longrightarrow> rt_current_thread s = Some c \<Longrightarrow> rt_schedule s = Some s' \<Longrightarrow> ipc_same s s'"
  using rt_schedule_frame [of s c s'] by (simp add: ipc_same_def)

lemma upd_err_kinv: "kinv s \<Longrightarrow> kinv (upd_thread t (\<lambda>th. th\<lparr>err := e\<rparr>) s)"
  by (erule kinv_cong) (simp_all add: stack_ok_def)

subsection \<open>Waking threads up\<close>

lemma list_resume_eq:
  assumes k: "kinv s" and l: "wait_head l" "tq s l = t # ts"
  shows "tstat s t = 2" "rt_ipc_list_resume l s = Some (resumed t s)" "kinv (resumed t s)" "tq (resumed t s) l = ts"
proof -
  note D = kcoreD [OF kinvD(1) [OF k]]
  show st: "tstat s t = 2" using D(5) [of t l] l by simp
  show "rt_ipc_list_resume l s = Some (resumed t s)"
    using resume_eq [OF kinvD(1) [OF k] st] l by (simp add: rt_ipc_list_resume_def)
  show "kinv (resumed t s)" by (rule resumed_kinv [OF k st])
  have "distinct (t # ts)" using D(1) l by (metis tq_wf_def)
  moreover have "l \<noteq> L_ready p" for p using l by (cases l) auto
  ultimately show "tq (resumed t s) l = ts" using l by simp
qed

text \<open>What waking every thread of a list does.\<close>

definition woken :: "lhead \<Rightarrow> kernel \<Rightarrow> kernel \<Rightarrow> bool" where
  "woken l s s' \<longleftrightarrow>
     ipc_same s s' \<and> rt_current_thread s' = rt_current_thread s \<and> object_list s' = object_list s \<and>
     tq s' l = [] \<and> (\<forall>m. wait_head m \<longrightarrow> m \<noteq> l \<longrightarrow> tq s' m = tq s m) \<and>
     (\<forall>t \<in> set (tq s l). err (threads s' t) = - RT_ERROR \<and> (tstat s' t = RT_THREAD_READY \<or> tstat s' t = RT_THREAD_RUNNING)) \<and>
     (\<forall>t. t \<notin> set (tq s l) \<longrightarrow> err (threads s' t) = err (threads s t) \<and> tstat s' t = tstat s t)"

lemma woken_step:
  assumes k: "kinv s" and l: "wait_head l" "tq s l = t # ts"
  defines "s1 \<equiv> resumed t (upd_thread t (\<lambda>th. th\<lparr>err := - RT_ERROR\<rparr>) s)"
  shows "rt_ipc_list_resume_all l s = rt_ipc_list_resume_all l s1" "kinv s1" "tq s1 l = ts"
    and "woken l s1 s' \<Longrightarrow> woken l s s'"
proof -
  let ?s0 = "upd_thread t (\<lambda>th. th\<lparr>err := - RT_ERROR\<rparr>) s"
  have k0: "kinv ?s0" by (rule upd_err_kinv [OF k])
  note R = list_resume_eq [OF k0 l(1), of t ts, folded s1_def]
  have l0: "tq ?s0 l = t # ts" using l by simp
  show "kinv s1" "tq s1 l = ts" using R l0 by blast+
  have "rt_thread_resume t ?s0 = Some (0, s1)"
    unfolding s1_def using R(1) l0 by (intro resume_eq [OF kinvD(1) [OF k0]]) auto
  then show "rt_ipc_list_resume_all l s = rt_ipc_list_resume_all l s1"
    using l by (subst rt_ipc_list_resume_all.simps) simp
  have nt: "t \<notin> set ts" and nr: "l \<noteq> L_ready p" for p
    using kcoreD(1) [OF kinvD(1) [OF k]] l by (auto simp: tq_wf_def dest!: spec [of _ l])
  have other: "t \<notin> set (tq s m)" if "m \<noteq> l" for m
    using kcoreD(1) [OF kinvD(1) [OF k]] l that unfolding tq_wf_def by (metis disjoint_iff list.set_intros(1))
  assume w: "woken l s1 s'"
  have same: "ipc_same s s1" unfolding s1_def by (rule ipc_same_trans [of _ ?s0]) simp_all
  have s1t: "tstat s1 u = (if u = t then if rt_current_thread s = Some t then 3 else 1 else tstat s u)"
    "err (threads s1 u) = (if u = t then - 1 else err (threads s u))" for u by (simp_all add: s1_def)
  have s1q: "tq s1 m = tq s m" if "wait_head m" "m \<noteq> l" for m
    using other [OF that(2)] that by (cases m) (simp_all add: s1_def)
  have s1c: "rt_current_thread s1 = rt_current_thread s" "object_list s1 = object_list s" by (simp_all add: s1_def)
  show "woken l s s'"
    using w same s1c s1q s1t nt l(2) \<open>tq s1 l = ts\<close> ipc_same_trans [OF same] unfolding woken_def by (auto split: if_splits)
qed

lemma resume_all_total:
  assumes k: "kinv s" and l: "wait_head l"
  obtains s' where "rt_ipc_list_resume_all l s = Some s'" "kinv s'" "woken l s s'"
  using k
proof (induction "tq s l" arbitrary: s thesis)
  case Nil
  have "rt_ipc_list_resume_all l s = Some s" using Nil(1) by (subst rt_ipc_list_resume_all.simps) simp
  moreover have "woken l s s" using Nil(1) by (simp add: woken_def)
  ultimately show ?case using Nil.prems by blast
next
  case (Cons t ts)
  note S = woken_step [OF Cons.prems(2) l Cons.hyps(2) [symmetric]]
  obtain s' where "rt_ipc_list_resume_all l (resumed t (upd_thread t (\<lambda>th. th\<lparr>err := - 1\<rparr>) s)) = Some s'" "kinv s'"
      "woken l (resumed t (upd_thread t (\<lambda>th. th\<lparr>err := - 1\<rparr>) s)) s'"
    using Cons.hyps(1) [OF S(3) [symmetric] _ S(2)] by blast
  then show ?case using Cons.prems S by simp
qed

subsection \<open>Going to sleep\<close>

text \<open>A bounded wait has to be shorter than \<open>RT_TICK_MAX / 2\<close>, or \<open>rt_timer_start\<close> stops the
  machine; as a signed number of ticks every time but the largest is.\<close>

definition wait_time_ok :: "u32 \<Rightarrow> bool" where
  "wait_time_ok time \<longleftrightarrow> (0 < sint time \<longrightarrow> time < 0x7fffffff)"

lemma rt_schedule_live:
  assumes "kinv s" "rt_current_thread s = Some c" "rt_schedule s = Some s'" "live s u"
  shows "live s' u"
  using rt_schedule_stat(1) [OF assms(1-3), of u] rt_schedule_runnable [OF assms(1-3), of u] assms(4)
  unfolding live_def by auto

lemma ipc_wait_total:
  assumes k: "kinv s" and c: "rt_current_thread s = Some c" "tstat s c = 3"
    and flag: "flag = 0 \<or> flag = 1" and l: "wait_head l" and time: "wait_time_ok time"
  obtains s1 s' where "ipc_wait l c flag time s = Some s'" "rt_schedule s1 = Some s'"
    "s1 = (if 0 < sint time then timed c time (waiting l c flag s) else waiting l c flag s)"
    "kinv s1" "kinv s'" "ipc_same s s'" "tstat s' c = 2" "tq s' l = enqueue flag s c (tq s l)"
    "\<And>m. wait_head m \<Longrightarrow> m \<noteq> l \<Longrightarrow> tq s' m = tq s m" "\<And>u. err (threads s' u) = err (threads s u)"
    "rt_current_thread s' \<noteq> None"
    "\<And>u. live s u \<Longrightarrow> live s' u"
proof -
  note K = kinvD(1) [OF k]
  let ?w = "waiting l c flag s"
  define s1 where "s1 = (if 0 < sint time then timed c time ?w else ?w)"
  have ok: "otype s (O_Timer (Thread_Timer c)) = 10"
    using kcoreD(7) [OF K, of c] c by (intro tcb_ok_timer) (simp add: live_def)
  have kw: "kinv ?w" using c by (intro waiting_kinv [OF k _ l]) auto
  have k1: "kinv s1" unfolding s1_def using kw ok by (auto intro: timed_kinv)
  have c1: "rt_current_thread s1 = Some c" using c by (simp add: s1_def)
  obtain s' where s': "rt_schedule s1 = Some s'" "kinv s'" "rt_current_thread s' \<noteq> None"
    using rt_schedule_total [OF k1 c1] by blast
  have r: "(if 0 < sint time then start_thread_timer c time ?w else Some ?w) = Some s1"
    using time ok start_thread_timer_eq [of ?w c time] by (simp add: s1_def wait_time_ok_def)
  have w: "ipc_wait l c flag time s = Some s'"
    unfolding ipc_wait_def using r list_suspend_eq [OF k _ flag, of c l] c s' by simp
  have same: "ipc_same s s'"
    by (rule ipc_same_trans [OF ipc_same_trans [of s ?w s1] ipc_same_schedule [OF k1 c1 s'(1)]])
      (simp_all add: s1_def)
  have st1: "tstat s1 u = (if u = c then 2 else tstat s u)" for u by (simp add: s1_def)
  have nc: "c \<notin> set (tq s m)" for m using off_lists_stat [OF K, of c] c by simp
  have q1: "tq s1 m = (if m = l then enqueue flag s c (tq s l) else tq s m)" for m
    using nc by (simp add: s1_def)
  have q': "tq s' m = tq s1 m" if "wait_head m" for m
    using that rt_schedule_wait_lists [OF k1 c1 s'(1), of m] by (cases m) auto
  show thesis
  proof (rule that [OF w s'(1) s1_def k1 s'(2) same])
    show "tstat s' c = 2" using rt_schedule_stat(1) [OF k1 c1 s'(1), of c] st1 by simp
    show "tq s' l = enqueue flag s c (tq s l)" using q' [OF l] q1 by simp
    show "err (threads s' u) = err (threads s u)" for u
      using rt_schedule_frame(20) [OF k1 c1 s'(1), of u] by (simp add: s1_def)
    show "live s' u" if "live s u" for u
      using rt_schedule_live [OF k1 c1 s'(1), of u] st1 [of u] that by (simp add: live_def split: if_splits)
  qed (use q' q1 s'(3) in auto)
qed

lemma enqueue_cong:
  assumes "\<And>u. u \<in> insert t (set ts) \<Longrightarrow> current_priority (threads s' u) = current_priority (threads s u)"
  shows "enqueue flag s' t ts = enqueue flag s t ts"
proof -
  have "takeWhile (\<lambda>u. prio s' u \<le> prio s' t) ts = takeWhile (\<lambda>u. prio s u \<le> prio s t) ts"
    "dropWhile (\<lambda>u. prio s' u \<le> prio s' t) ts = dropWhile (\<lambda>u. prio s u \<le> prio s t) ts"
    using assms by (auto intro: takeWhile_cong dropWhile_cong)
  then show ?thesis by (simp add: enqueue_def)
qed

text \<open>A caller in a thread: the thread is current and running, no interrupt is being served.\<close>

definition caller :: "kernel \<Rightarrow> tid \<Rightarrow> bool" where
  "caller s c \<longleftrightarrow> rt_current_thread s = Some c \<and> tstat s c = RT_THREAD_RUNNING \<and> rt_interrupt_nest s = 0"

text \<open>What a call that has to wait does: the caller is suspended at its place in the list of
  the object, without an error, and the processor goes to another thread.\<close>

definition blocked :: "lhead \<Rightarrow> tid \<Rightarrow> u8 \<Rightarrow> kernel \<Rightarrow> kernel \<Rightarrow> bool" where
  "blocked l c flag s s' \<longleftrightarrow>
     kinv s' \<and> ipc_same s s' \<and> tstat s' c = RT_THREAD_SUSPEND \<and> tq s' l = enqueue flag s c (tq s l) \<and>
     (\<forall>m. wait_head m \<longrightarrow> m \<noteq> l \<longrightarrow> tq s' m = tq s m) \<and>
     (\<forall>u. err (threads s' u) = (if u = c then RT_EOK else err (threads s u))) \<and> rt_current_thread s' \<noteq> None \<and>
     (\<forall>u. live s u \<longrightarrow> live s' u)"

lemma wait_blocked:
  assumes k: "kinv s" and c: "caller s c" and flag: "flag = 0 \<or> flag = 1" and l: "wait_head l"
    and time: "wait_time_ok time" and e: "err (threads s c) = RT_EOK"
  shows "\<exists>s'. ipc_wait l c flag time s = Some s' \<and> blocked l c flag s s'"
proof -
  have c0: "rt_current_thread s = Some c" "tstat s c = 3" using c by (simp_all add: caller_def)
  obtain s1 s' where W: "ipc_wait l c flag time s = Some s'" "kinv s'" "ipc_same s s'"
    "tstat s' c = 2" "tq s' l = enqueue flag s c (tq s l)" "rt_current_thread s' \<noteq> None"
    "\<And>m. wait_head m \<Longrightarrow> m \<noteq> l \<Longrightarrow> tq s' m = tq s m" "\<And>u. err (threads s' u) = err (threads s u)"
    "\<And>u. live s u \<Longrightarrow> live s' u"
    by (rule ipc_wait_total [OF k c0 flag l time]) blast
  then show ?thesis using e unfolding blocked_def by auto
qed

lemma upd_err_simps [simp]:
  "live (upd_thread t (\<lambda>th. th\<lparr>err := e\<rparr>) s) = live s" "otype (upd_thread t (\<lambda>th. th\<lparr>err := e\<rparr>) s) = otype s"
  "caller (upd_thread t (\<lambda>th. th\<lparr>err := e\<rparr>) s) = caller s"
  "enqueue flag (upd_thread t (\<lambda>th. th\<lparr>err := e\<rparr>) s) u ts = enqueue flag s u ts"
proof -
  show "enqueue flag (upd_thread t (\<lambda>th. th\<lparr>err := e\<rparr>) s) u ts = enqueue flag s u ts"
    by (rule enqueue_cong) simp
qed (simp_all add: live_def otype_def caller_def fun_eq_iff)

lemma block_total:
  assumes k: "kinv s" and c: "caller s c" and flag: "flag = 0 \<or> flag = 1" and l: "wait_head l"
    and time: "wait_time_ok time"
  shows "\<exists>s'. ipc_wait l c flag time (upd_thread c (\<lambda>th. th\<lparr>err := RT_EOK\<rparr>) s) = Some s' \<and> blocked l c flag s s'"
proof -
  let ?s = "upd_thread c (\<lambda>th. th\<lparr>err := 0\<rparr>) s"
  obtain s' where s': "ipc_wait l c flag time ?s = Some s'" "blocked l c flag ?s s'"
    using wait_blocked [OF upd_err_kinv [OF k] _ flag l time, of c] c by fastforce
  have "ipc_same s s'" using s'(2) ipc_same_trans [of s ?s s'] by (simp add: blocked_def)
  then show ?thesis using s' unfolding blocked_def by auto
qed

text \<open>What a call that wakes the first waiter does: the waiter leaves the list and can run,
  the other waiters stay in order, and the scheduler is asked.\<close>

definition handed_over :: "lhead \<Rightarrow> tid \<Rightarrow> kernel \<Rightarrow> kernel \<Rightarrow> bool" where
  "handed_over l t s s' \<longleftrightarrow>
     kinv s' \<and> ipc_same s s' \<and> tq s l = t # tq s' l \<and> (tstat s' t = RT_THREAD_READY \<or> tstat s' t = RT_THREAD_RUNNING) \<and>
     (\<forall>m. wait_head m \<longrightarrow> m \<noteq> l \<longrightarrow> tq s' m = tq s m) \<and> (\<forall>u. err (threads s' u) = err (threads s u)) \<and>
     rt_current_thread s' \<noteq> None \<and> (\<forall>u. live s u \<longrightarrow> live s' u)"

lemma hand_over_total:
  assumes k: "kinv s" and c: "rt_current_thread s = Some c" and l: "wait_head l" and q: "tq s l = t # ts"
  shows "\<exists>s'. rt_schedule (resumed t s) = Some s' \<and> handed_over l t s s'"
proof -
  note R = list_resume_eq [OF k l q]
  have c1: "rt_current_thread (resumed t s) = Some c" using c by simp
  obtain s' where s': "rt_schedule (resumed t s) = Some s'" "kinv s'" "rt_current_thread s' \<noteq> None"
    using rt_schedule_total [OF R(3) c1] by blast
  have same: "ipc_same s s'" by (rule ipc_same_trans [OF _ ipc_same_schedule [OF R(3) c1 s'(1)]]) simp
  have q': "tq s' m = tq (resumed t s) m" if "wait_head m" for m
    using that rt_schedule_wait_lists [OF R(3) c1 s'(1), of m] by (cases m) auto
  have other: "t \<notin> set (tq s m)" if "m \<noteq> l" for m
    using kcoreD(1) [OF kinvD(1) [OF k]] q that unfolding tq_wf_def by (metis disjoint_iff list.set_intros(1))
  have "tq s' m = tq s m" if "wait_head m" "m \<noteq> l" for m
    using q' [OF that(1)] other [OF that(2)] that by (cases m) auto
  moreover have "tstat s' t = 1 \<or> tstat s' t = 3"
    using rt_schedule_runnable [OF R(3) c1 s'(1), of t] by simp
  moreover have "err (threads s' u) = err (threads s u)" for u
    using rt_schedule_frame(20) [OF R(3) c1 s'(1), of u] by simp
  moreover have "live s' u" if "live s u" for u
    using rt_schedule_live [OF R(3) c1 s'(1), of u] that by (simp add: live_def split: if_splits)
  ultimately show ?thesis
    using s' same q' [OF l] R(4) q unfolding handed_over_def by auto
qed

text \<open>A thread on a waiting list has no error recorded: the calls reset it before they wait,
  and whatever sets it takes the thread off the list.\<close>

definition waiters_ok :: "kernel \<Rightarrow> bool" where
  "waiters_ok s \<longleftrightarrow> (\<forall>l t. wait_head l \<longrightarrow> t \<in> set (tq s l) \<longrightarrow> err (threads s t) = RT_EOK)"

text \<open>Initialising or allocating an object that is neither a thread nor a timer.\<close>

definition data_oid :: "oid \<Rightarrow> bool" where
  "data_oid i \<longleftrightarrow> (\<forall>t. i \<noteq> O_Thread t) \<and> (\<forall>j. i \<noteq> O_Timer j)"

lemma data_oid_simps [simp]:
  "data_oid (O_Sem n)" "data_oid (O_Mutex n)" "data_oid (O_Event n)" "data_oid (O_Mb n)" "data_oid (O_Mq n)" "data_oid (O_Mp n)"
  "data_oid (O_Device n)"
  by (simp_all add: data_oid_def)

lemma data_oidD: "data_oid i \<Longrightarrow> O_Thread t \<noteq> i" "data_oid i \<Longrightarrow> O_Timer j \<noteq> i"
  by (auto simp: data_oid_def)

lemma upd_data_kinv:
  assumes k: "kinv s" and i: "data_oid i"
  shows "kinv (upd_obj i f s)"
  using data_oidD [OF i] by (intro kinv_objs [OF k]) (auto simp: upd_obj_def)

lemma detach_data_kinv:
  assumes k: "kinv s" and i: "data_oid i"
  shows "kinv (rt_object_detach i s)"
  using data_oidD [OF i] by (intro kinv_objs [OF k]) auto

lemma delete_data_total:
  assumes k: "kinv s" and i: "data_oid i" and dyn: "\<not> rt_object_is_systemobject i s"
  shows "rt_object_delete i s = Some (rt_object_detach i s)"
  using dyn by (simp add: rt_object_delete_def rt_object_detach_def)

subsection \<open>Waking one waiter, if there is one\<close>

text \<open>The end of the calls that make room or data available: resume the first waiter of the
  list and call the scheduler.\<close>

definition wake_first :: "lhead \<Rightarrow> kernel \<Rightarrow> kernel option" where
  "wake_first l s =
     (if \<not> tlist_isempty l s then do { s1 \<leftarrow> rt_ipc_list_resume l s; rt_schedule s1 } else Some s)"

definition woke_first :: "lhead \<Rightarrow> kernel \<Rightarrow> kernel \<Rightarrow> bool" where
  "woke_first l s s' \<longleftrightarrow> (case tq s l of [] \<Rightarrow> s' = s | t # _ \<Rightarrow> handed_over l t s s')"

lemma wake_first_total:
  assumes k: "kinv s" and c: "rt_current_thread s \<noteq> None" and l: "wait_head l"
  shows "\<exists>s'. wake_first l s = Some s' \<and> woke_first l s s'"
proof (cases "tq s l")
  case Nil
  then show ?thesis by (simp add: wake_first_def woke_first_def tlist_isempty_def)
next
  case (Cons t ts)
  obtain cc where cc: "rt_current_thread s = Some cc" using c by blast
  show ?thesis
    using hand_over_total [OF k cc l Cons] list_resume_eq(2) [OF k l Cons] Cons
    by (auto simp: wake_first_def woke_first_def tlist_isempty_def)
qed

lemma woke_first_same:
  assumes "woke_first l s s'" "kinv s" "rt_current_thread s \<noteq> None"
  shows "kinv s'" "ipc_same s s'" "rt_current_thread s' \<noteq> None"
  using assms by (auto simp: woke_first_def handed_over_def split: list.splits)

subsection \<open>Repeated waits\<close>

text \<open>Calls that wait in a loop compute the time that is left when they run again:
  \<open>tick_delta = rt_tick_get() - tick_delta; timeout -= tick_delta; if (timeout < 0) timeout = 0\<close>,
  with a signed \<open>timeout\<close>; a wait without a limit stays so.\<close>

definition remaining_timeout :: "u32 \<Rightarrow> u32 \<Rightarrow> u32 \<Rightarrow> u32" where
  "remaining_timeout timeout tick_delta now =
     (if 0 < sint timeout
      then let left = timeout - (now - tick_delta) in if sint left < 0 then 0 else left
      else timeout)"

lemma remaining_eq:
  assumes t: "0 < sint timeout" and e: "unat (now - start) < 0x80000000"
  shows "sint (remaining_timeout timeout start now) = max 0 (sint timeout - int (unat (now - start)))"
proof -
  let ?d = "now - start"
  have d: "sint ?d = int (unat ?d)" using e by (intro sint_small) simp
  have lt: "sint timeout < 2 ^ 31" using sint_lt [of timeout] by simp
  have "sint (timeout - ?d) = signed_take_bit 31 (sint timeout - int (unat ?d))"
    using signed_take_bit_diff [of 31 "sint timeout" "sint ?d"] unfolding d [symmetric]
    by (simp add: sint_word_ariths)
  also have "\<dots> = sint timeout - int (unat ?d)"
  proof -
    define m where "m = unat ?d"
    show ?thesis
      using t lt e unfolding m_def [symmetric] by (intro signed_take_bit_int_eq_self) auto
  qed
  finally show ?thesis using t by (simp add: remaining_timeout_def Let_def)
qed

end
