(* ===== verification/Example_State.thy ===== *)
theory Example_State
  imports Ipc_Common
begin

text \<open>
  A concrete kernel state that satisfies the kernel invariant; the theories evaluate their
  results on it. Thread 0 is the idle thread, 1 runs and owns mutex 0 with the priority
  inherited from thread 6, 2 and 3 are ready, 4, 5 and 6 wait for semaphore 0, event 0 and
  mutex 0, 7 is initialised but not started, 8 sleeps. One periodic timer is active.
\<close>

definition ex_thread :: "u8 \<Rightarrow> u8 \<Rightarrow> u8 \<Rightarrow> rt_thread" where
  "ex_thread st p p0 = zero_thread\<lparr>sp := 0x100, stack_addr := 0x10, stack_size := 0x200, stack_mark := 35,
     stat := st, current_priority := p, init_priority := p0, number_mask := push_bit (unat p) 1,
     thread_init_tick := 5, remaining_tick := 5, event_set := 3, event_info := 6\<rparr>"

definition ex_threads :: "tid \<Rightarrow> rt_thread" where
  "ex_threads t =
     (if t = 0 then ex_thread 1 31 31 else if t = 1 then ex_thread 3 9 10 else if t = 2 then ex_thread 1 9 9
      else if t = 3 then ex_thread 1 20 20 else if t = 4 then ex_thread 2 5 5 else if t = 5 then ex_thread 2 8 8
      else if t = 6 then ex_thread 2 9 9 else if t = 7 then ex_thread 0 12 12 else if t = 8 then ex_thread 2 7 7
      else zero_thread)"

fun ex_tq :: "lhead \<Rightarrow> tid list" where
  "ex_tq (L_ready p) = (if p = 31 then [0] else if p = 9 then [2] else if p = 20 then [3] else [])"
| "ex_tq (L_sem n) = (if n = 0 then [4] else [])"
| "ex_tq (L_event n) = (if n = 0 then [5] else [])"
| "ex_tq (L_mutex n) = (if n = 0 then [6] else [])"
| "ex_tq l = []"

fun ex_objs :: "oid \<Rightarrow> rt_object" where
  "ex_objs (O_Thread t) =
     \<lparr>obj_name = ''t'', obj_type = (if t \<le> 6 then 0x81 else if t \<le> 8 then 1 else 0), obj_flag = 0\<rparr>"
| "ex_objs (O_Timer (Thread_Timer t)) =
     \<lparr>obj_name = ''t'', obj_type = (if t \<le> 8 then 0x8a else 0), obj_flag = (if t = 8 then 1 else 0)\<rparr>"
| "ex_objs (O_Timer (Timer_Obj n)) =
     \<lparr>obj_name = ''tick'', obj_type = (if n \<le> 1 then 0x8a else 0), obj_flag = (if n = 0 then 3 else 0)\<rparr>"
| "ex_objs (O_Sem n) = \<lparr>obj_name = ''sem'', obj_type = 0x82, obj_flag = 1\<rparr>"
| "ex_objs (O_Mutex n) = \<lparr>obj_name = ''mutex'', obj_type = 0x83, obj_flag = 1\<rparr>"
| "ex_objs (O_Event n) = \<lparr>obj_name = ''event'', obj_type = 0x84, obj_flag = 0\<rparr>"
| "ex_objs (O_Mb n) = \<lparr>obj_name = ''mb'', obj_type = 0x85, obj_flag = 0\<rparr>"
| "ex_objs (O_Mq n) = \<lparr>obj_name = ''mq'', obj_type = 0x86, obj_flag = 0\<rparr>"
| "ex_objs (O_Mp n) = \<lparr>obj_name = ''mp'', obj_type = 0x88, obj_flag = 0\<rparr>"
| "ex_objs (O_Device n) = \<lparr>obj_name = ''uart'', obj_type = (if n = 0 then 0x89 else 0), obj_flag = 0\<rparr>"

fun ex_timers :: "timer_id \<Rightarrow> rt_timer" where
  "ex_timers (Thread_Timer t) = \<lparr>timeout_func = Rt_Thread_Timeout t, init_tick = 10, timeout_tick = 110\<rparr>"
| "ex_timers (Timer_Obj n) = \<lparr>timeout_func = User_Timeout n, init_tick = 10, timeout_tick = 101\<rparr>"

definition kex :: kernel where
  "kex = \<lparr>threads = ex_threads, tq = ex_tq, rt_thread_ready_priority_group = 0x80100200,
     rt_scheduler_lock_nest = 0, rt_current_thread = Some 1, rt_current_priority = 9, rt_interrupt_nest = 0,
     rt_tick = 100, objs = ex_objs,
     object_list = (\<lambda>c. if c = 1 then map O_Thread [8, 7, 6, 5, 4, 3, 2, 1, 0] else if c = 2 then [O_Sem 1, O_Sem 0]
       else if c = 3 then [O_Mutex 1, O_Mutex 0] else if c = 9 then [O_Device 0] else []),
     timers = ex_timers, rt_timer_list = [Timer_Obj 0, Thread_Timer 8],
     sems = (\<lambda>n. \<lparr>sem_value = (if n = 1 then 3 else 0)\<rparr>),
     mutexes = (\<lambda>n. if n = 0 then \<lparr>mutex_value = 0, original_priority = 10, hold = 1, owner = Some 1\<rparr>
       else if n = 2 then \<lparr>mutex_value = 0, original_priority = 20, hold = 1, owner = Some 3\<rparr>
       else \<lparr>mutex_value = 1, original_priority = 255, hold = 0, owner = None\<rparr>),
     events = (\<lambda>n. \<lparr>ev_set = (if n = 1 then 7 else 0)\<rparr>),
     mailboxes = (\<lambda>n. \<lparr>msg_pool = [7, 0, 0, 0], mb_size = 4, mb_entry = 1, in_offset = 1, out_offset = 0\<rparr>),
     mqs = (\<lambda>n. \<lparr>msg_size = 4, max_msgs = 3, mq_entry = 1, msg_queue_head = Some 0, msg_queue_tail = Some 0,
       msg_queue_free = Some 1, msg_next = (\<lambda>i. if i = 1 then Some 2 else None),
       msg_data = (\<lambda>i. [1, 2, 3, 4])\<rparr>),
     mempools = (\<lambda>n. \<lparr>mp_size = 24, mp_block_size = 4, block_list = Some 1,
       block_header = (\<lambda>i. if i = 0 then Mp_Pool n else if i = 1 then Mp_Block 2 else Mp_Null),
       block_total_count = 3, block_free_count = 2, suspend_thread_count = 0\<rparr>)\<rparr>"

lemma kex_stat:
  "tstat kex t = (if t \<in> {0, 2, 3} then 1 else if t = 1 then 3 else if t \<in> {4, 5, 6, 8} then 2 else 0)"
  by (simp add: tstat_def kex_def ex_threads_def ex_thread_def zero_thread_def)

lemma kex_prio:
  "t \<le> 8 \<Longrightarrow> current_priority (threads kex t) = [31, 9, 9, 20, 5, 8, 9, 12, 7] ! t"
proof -
  assume "t \<le> 8"
  then have "t \<in> {0, 1, 2, 3, 4, 5, 6, 7, 8}" by auto
  then show ?thesis by (auto simp: kex_def ex_threads_def ex_thread_def)
qed

lemma kex_tq [simp]: "tq kex = ex_tq"
  by (simp add: kex_def)

lemma kex_tcb: "t \<le> 8 \<Longrightarrow> tcb_ok kex t \<and> prio_ok kex t"
proof -
  assume t: "t \<le> 8"
  then have "t \<in> {0, 1, 2, 3, 4, 5, 6, 7, 8}" by auto
  then have "stack_ok (threads kex t) \<and> init_priority (threads kex t) < 32 \<and> prio_ok kex t"
    by (auto simp: kex_def ex_threads_def ex_thread_def stack_ok_def prio_ok_def)
  then show ?thesis using t by (simp add: tcb_ok_def otype_def kex_def)
qed

lemma kex_group: "p < 32 \<Longrightarrow> bit (0x80100200 :: u32) p \<longleftrightarrow> p = 31 \<or> p = 20 \<or> p = 9"
proof -
  assume p: "p < 32"
  have eq: "(0x80100200 :: u32) = push_bit 31 1 OR push_bit 20 1 OR push_bit 9 1" by simp
  have "bit (push_bit m 1 :: u32) p \<longleftrightarrow> p = m" for m by (rule bit_push_bit_1) (simp add: p)
  then show ?thesis unfolding eq bit_or_iff by blast
qed

lemma ex_tq_members: "t \<in> set (ex_tq l) \<longleftrightarrow>
   (t, l) \<in> {(0, L_ready 31), (2, L_ready 9), (3, L_ready 20), (4, L_sem 0), (5, L_event 0), (6, L_mutex 0)}"
  by (cases l) auto

lemma kex_kinv: "kinv kex"
proof -
  have "kcore {} kex"
  proof (rule kcoreI, goal_cases)
    case 1
    have "distinct (ex_tq l)" for l by (cases l) auto
    moreover have "set (ex_tq l) \<inter> set (ex_tq m) = {}" if "l \<noteq> m" for l m
      using that by (auto simp: ex_tq_members)
    ultimately show ?case by (simp add: tq_wf_def)
  next
    case (3 t p)
    then show ?case
      using kex_prio [of t] by (auto simp: ex_tq_members kex_stat split: if_splits)
  next
    case (4 p)
    then show ?case using kex_group [of p] by (auto simp: kex_def)
  next
    case (7 t)
    then show ?case using kex_tcb [of t] by (auto simp: live_def kex_stat split: if_splits)
  next
    case (8 t)
    then show ?case using kex_tcb [of t] by (auto simp: otype_def kex_def split: if_splits)
  qed (auto simp: ex_tq_members kex_stat activated_def otype_def, auto simp: kex_def)
  moreover have "cur_ok kex" unfolding cur_ok_def kex_stat by (simp add: kex_def)
  ultimately show ?thesis by (simp add: kinv_def)
qed

lemma kex_current [simp]: "rt_current_thread kex = Some 1" "rt_interrupt_nest kex = 0" "rt_scheduler_lock_nest kex = 0"
  by (simp_all add: kex_def)

lemma kex_caller: "caller kex 1"
  by (simp add: caller_def kex_stat)

lemma kex_otype [simp]:
  "otype kex (O_Sem n) = 2" "otype kex (O_Mutex n) = 3" "otype kex (O_Event n) = 4" "otype kex (O_Mb n) = 5"
  "otype kex (O_Mq n) = 6" "otype kex (O_Mp n) = 8" "otype kex (O_Device 0) = 9"
  "otype kex (O_Thread t) = (if t \<le> 8 then 1 else 0)"
  by (simp_all add: otype_def kex_def)

lemma kex_waiters: "waiters_ok kex"
  unfolding waiters_ok_def by (auto simp: ex_tq_members) (simp_all add: kex_def ex_threads_def ex_thread_def zero_thread_def)

end
