(* ===== verification/Scheduling.thy ===== *)
theory Scheduling
  imports Example_State
begin

text \<open>
  What the scheduler and the thread operations promise together: the processor goes to a
  ready thread of the highest priority, threads of equal priority take turns when they
  yield, and a thread that exits leaves the processor for good.
\<close>

subsection \<open>The highest priority runs\<close>

lemma group_0_iff: "kcore {} s \<Longrightarrow> rt_thread_ready_priority_group s = 0 \<longleftrightarrow> (\<forall>t. tstat s t \<noteq> RT_THREAD_READY)"
proof -
  assume k: "kcore {} s"
  note D = kcoreD [OF k]
  show ?thesis
  proof
    assume z: "rt_thread_ready_priority_group s = 0"
    show "\<forall>t. tstat s t \<noteq> 1"
    proof (intro allI notI)
      fix t assume t: "tstat s t = 1"
      then have "t \<in> set (tq s (L_ready (prio s t)))" using D(3) by simp
      moreover from this have "prio s t < 32" using ready_prio [OF k] by blast
      ultimately show False using D(4) [of "prio s t"] z by auto
    qed
  next
    assume none: "\<forall>t. tstat s t \<noteq> 1"
    show "rt_thread_ready_priority_group s = 0"
    proof (rule ccontr)
      assume "rt_thread_ready_priority_group s \<noteq> 0"
      then obtain t p where "tq s (L_ready p) = t # tl (tq s (L_ready p))" "tstat s t = 1"
        using highest_ready [OF k] by (metis list.sel(3))
      then show False using none by blast
    qed
  qed
qed

text \<open>C5: with the scheduler unlocked, \<open>rt_schedule\<close> returns, keeps the kernel consistent, and
  leaves a running thread as the current one; no ready thread has a higher priority than
  it. The hypothesis asks for one thread that can run: the idle thread is always one.\<close>

theorem schedule_highest:
  assumes "kinv s" "rt_current_thread s = Some c" "rt_scheduler_lock_nest s = 0"
    and "tstat s c = RT_THREAD_RUNNING \<or> tstat s u = RT_THREAD_READY"
  shows "\<exists>s' t. rt_schedule s = Some s' \<and> kinv s' \<and> rt_current_thread s' = Some t \<and>
    tstat s' t = RT_THREAD_RUNNING \<and> (\<forall>v. tstat s' v = RT_THREAD_READY \<longrightarrow> prio s' t \<le> prio s' v)"
  using assms(1,2)
proof (cases rule: rt_schedule_cases)
  case idle
  then have "\<forall>t. tstat s t \<noteq> 1" using group_0_iff [OF kinvD(1)] assms(1,3) by blast
  then show ?thesis using assms idle by blast
next
  case (stay t ts)
  have "prio s c \<le> prio s v" if "tstat s v = 1" for v
  proof -
    have "v \<in> set (tq s (L_ready (prio s v)))" using kcoreD(3) [OF kinvD(1) [OF assms(1)], of v] that by simp
    then have "\<not> prio s v < prio s t" using stay(3) by force
    then show ?thesis using stay(5) by simp
  qed
  then show ?thesis using stay kinv_stay [OF assms(1)] assms(2) by auto
next
  case (go t ts)
  let ?s = "switched (if tstat s c = 3 then Some c else None) t s"
  have "prio s t \<le> prio s v" if "tstat ?s v = 1" for v
  proof (cases "tstat s v = 1")
    case True
    then have "v \<in> set (tq s (L_ready (prio s v)))" using kcoreD(3) [OF kinvD(1) [OF assms(1)], of v] by simp
    then show ?thesis using go(3) by (metis empty_iff empty_set not_le)
  next
    case False
    then show ?thesis using that go(6) by (auto split: if_splits)
  qed
  then show ?thesis using go kinv_switched [OF assms(1,2) go(5,4)] by auto
qed

theorem schedule_highest_witness:
  "\<exists>s' t. rt_schedule kex = Some s' \<and> kinv s' \<and> rt_current_thread s' = Some t \<and>
    tstat s' t = RT_THREAD_RUNNING \<and> (\<forall>v. tstat s' v = RT_THREAD_READY \<longrightarrow> prio s' t \<le> prio s' v)"
  using schedule_highest [OF kex_kinv, of 1 0] by (simp add: kex_stat)

subsection \<open>Round robin\<close>

fun yields :: "nat \<Rightarrow> kernel \<Rightarrow> kernel option" where
  "yields 0 s = Some s"
| "yields (Suc n) s = do { (_, s1) \<leftarrow> rt_thread_yield s; yields n s1 }"

text \<open>The threads that share the processor at the priority of the running one, the running
  thread first.\<close>

definition turns :: "kernel \<Rightarrow> tid list \<Rightarrow> bool" where
  "turns s ts \<longleftrightarrow>
     (\<exists>c. rt_current_thread s = Some c \<and> tstat s c = RT_THREAD_RUNNING \<and> ts = c # tq s (L_ready (prio s c)) \<and>
        (\<forall>q < prio s c. tq s (L_ready q) = []))"

lemma yield_rotates:
  assumes k: "kinv s" and l: "rt_scheduler_lock_nest s = 0" and t: "turns s ts"
  obtains s' where "rt_thread_yield s = Some (0, s')" "kinv s'" "rt_scheduler_lock_nest s' = 0" "turns s' (rotate1 ts)"
proof -
  from t obtain c where c: "rt_current_thread s = Some c" "tstat s c = 3" "ts = c # tq s (L_ready (prio s c))"
    "\<forall>q < prio s c. tq s (L_ready q) = []" by (auto simp: turns_def)
  from k c(1) show thesis
  proof (cases rule: rt_schedule_cases)
    case idle
    then have "tq s (L_ready (prio s c)) = []"
      using l group_0_iff [OF kinvD(1) [OF k]] kcoreD(3) [OF kinvD(1) [OF k]] by (metis empty_iff equals0I list.set(1) set_empty)
    then show thesis using that idle k l t c(3) by (simp add: rt_thread_yield_def)
  next
    case (stay u us)
    have e: "tq s (L_ready (prio s c)) = []" using stay(3,5) by blast
    have nc: "c \<notin> set (tq s m)" for m using off_lists_stat [OF kinvD(1) [OF k]] c(2) by blast
    have "turns (set_tstat 3 c (unready c s)) (rotate1 ts)"
      using c e nc by (simp add: turns_def)
    then show thesis using that stay kinv_stay [OF k c(2)] l by (simp add: rt_thread_yield_def)
  next
    case (go u us)
    then have p: "prio s u = prio s c" using c(2,4) by (metis list.distinct(1) linorder_neqE_nat not_le)
    let ?s = "switched (Some c) u s"
    have r: "rt_schedule s = Some ?s" using go(7) c(2) by simp
    have "distinct (u # us)" using kcoreD(1) [OF kinvD(1) [OF k]] go(2) unfolding tq_wf_def by metis
    then have "turns ?s (rotate1 ts)"
      using c go p by (auto simp: turns_def)
    moreover have "kinv ?s" using kinv_switched [OF k c(1) go(5,4)] c(2) by simp
    ultimately show thesis using that r l by (simp add: rt_thread_yield_def)
  qed
qed

text \<open>C6: threads of equal priority take turns. As long as every running thread yields and no
  thread of a higher priority becomes ready, the threads that share the priority rotate:
  after \<open>n\<close> calls of \<open>rt_thread_yield\<close> the one at position \<open>n\<close> (cyclically) runs, so that
  each of them runs within one round.\<close>

theorem round_robin:
  assumes "kinv s" "rt_scheduler_lock_nest s = 0" "turns s ts"
  shows "\<exists>s'. yields n s = Some s' \<and> kinv s' \<and> turns s' (rotate n ts) \<and>
    rt_current_thread s' = Some (ts ! (n mod length ts))"
proof -
  have "\<exists>s'. yields n s = Some s' \<and> kinv s' \<and> turns s' (rotate n ts)"
    using assms
  proof (induction n arbitrary: s ts)
    case (Suc n)
    obtain s1 where s1: "rt_thread_yield s = Some (0, s1)" "kinv s1" "rt_scheduler_lock_nest s1 = 0" "turns s1 (rotate1 ts)"
      by (rule yield_rotates [OF Suc.prems])
    show ?case using Suc.IH [OF s1(2-4)] s1(1) by (simp add: rotate1_rotate_swap)
  qed simp
  then obtain s' where s': "yields n s = Some s'" "kinv s'" "turns s' (rotate n ts)" by blast
  moreover have "ts \<noteq> []" using assms(3) by (auto simp: turns_def)
  then have "hd (rotate n ts) = ts ! (n mod length ts)" by (rule hd_rotate_conv_nth)
  ultimately show ?thesis by (auto simp: turns_def)
qed

theorem round_robin_witness:
  "\<exists>s'. yields 5 kex = Some s' \<and> kinv s' \<and> turns s' [2, 1] \<and> rt_current_thread s' = Some 2"
proof -
  have "turns kex [1, 2]" using kex_prio [of 1] by (auto simp: turns_def kex_stat)
  moreover have "rotate 5 [1, 2 :: nat] = [2, 1]" "[1, 2 :: nat] ! (5 mod length [1, 2 :: nat]) = 2"
    by code_simp+
  ultimately show ?thesis using round_robin [OF kex_kinv, of "[1, 2]" 5] by (metis kex_current(3))
qed

subsection \<open>Leaving the processor for good\<close>

text \<open>A running thread that returns from its entry function closes: its state is
  \<open>RT_THREAD_CLOSE\<close>, its timer is inactive, it is on no ready list, another thread runs, and it
  either has left the object system (a static thread without a cleanup function) or is on
  the list of defunct threads that the idle thread frees.\<close>

lemma thread_exit_closes:
  assumes "kinv s" "rt_current_thread s = Some c" "tstat s c = RT_THREAD_RUNNING"
    and "rt_scheduler_lock_nest s = 0" "tstat s u = RT_THREAD_READY"
  shows "\<exists>s' t. rt_thread_exit s = Some s' \<and> kinv s' \<and> tstat s' c = RT_THREAD_CLOSE \<and>
    rt_current_thread s' = Some t \<and> t \<noteq> c \<and> tstat s' t = RT_THREAD_RUNNING \<and>
    Thread_Timer c \<notin> set (rt_timer_list s') \<and>
    (if rt_object_is_systemobject (O_Thread c) s \<and> cleanup (threads s c) = None
     then \<forall>k. O_Thread c \<notin> set (object_list s' k) else c \<in> set (tq s' L_defunct))"
proof -
  let ?s1 = "close_thread c (closing c (unready c s))"
  obtain s' where s': "rt_thread_exit s = Some s'" "rt_schedule ?s1 = Some s'" "kinv ?s1" "kinv s'" "tstat s' c = 4"
    by (rule exit_total [OF assms(1-3)])
  have c1: "rt_current_thread ?s1 = Some c" using assms(2) by simp
  have l1: "rt_scheduler_lock_nest ?s1 = 0" using assms(4) by (simp add: close_thread_def closing_def)
  have u1: "tstat ?s1 u = 1" using assms(3,5) by auto
  note F = rt_schedule_frame [OF s'(3) c1 s'(2)]
  have q: "tq s' L_defunct = tq ?s1 L_defunct"
    by (rule rt_schedule_wait_lists [OF s'(3) c1 s'(2)]) simp
  obtain t where t: "rt_current_thread s' = Some t" "tstat s' t = 3" "t \<noteq> c"
    using s'(3) c1
  proof (cases rule: rt_schedule_cases)
    case idle
    then show thesis using group_0_iff [OF kinvD(1) [OF s'(3)]] l1 u1 by blast
  next
    case (stay t ts)
    then show thesis by simp
  next
    case (go t ts)
    then show thesis using that s'(2) by auto
  qed
  have sys: "rt_object_is_systemobject (O_Thread c) (closing c (unready c s)) = rt_object_is_systemobject (O_Thread c) s"
    "cleanup (threads (closing c (unready c s)) c) = cleanup (threads s c)"
    by (simp_all add: rt_object_is_systemobject_def closing_def)
  have "Thread_Timer c \<notin> set (rt_timer_list s')"
    unfolding F(7) by (simp add: close_thread_def closing_def)
  moreover have "\<forall>k. O_Thread c \<notin> set (object_list s' k)"
    if "rt_object_is_systemobject (O_Thread c) s \<and> cleanup (threads s c) = None"
    unfolding F(5) using that sys by (simp add: close_thread_def rt_object_detach_def object_unlink_def)
  moreover have "c \<in> set (tq s' L_defunct)"
    if "\<not> (rt_object_is_systemobject (O_Thread c) s \<and> cleanup (threads s c) = None)"
    unfolding q close_thread_def sys using that by (auto simp: tlist_insert_after_def)
  ultimately show ?thesis using s' t by auto
qed

lemma thread_exit_closes_witness:
  "\<exists>s' t. rt_thread_exit kex = Some s' \<and> kinv s' \<and> tstat s' 1 = RT_THREAD_CLOSE \<and>
    rt_current_thread s' = Some t \<and> t \<noteq> 1 \<and> tstat s' t = RT_THREAD_RUNNING \<and>
    (\<forall>k. O_Thread 1 \<notin> set (object_list s' k))"
proof -
  have "rt_object_is_systemobject (O_Thread 1) kex" "cleanup (threads kex 1) = None"
    by (simp_all add: rt_object_is_systemobject_def kex_def ex_threads_def ex_thread_def zero_thread_def)
  then show ?thesis using thread_exit_closes [OF kex_kinv, of 1 0] by (auto simp: kex_stat)
qed

end
