(* ===== verification/Ticking.thy ===== *)
theory Ticking
  imports Example_State
begin

text \<open>
  What the clock interrupt promises: the expiry loop ends and fires exactly what is due, a
  thread that sleeps is awake after its time, a conversion from milliseconds never rounds
  down, and the one configuration in which the expiry loop does not end.
\<close>

subsection \<open>The expiry loop\<close>

text \<open>C8: \<open>rt_timer_check\<close> returns. When it does, every timer that is left on the list has its
  deadline in the future, timers that were not due are untouched, periodic timers are still
  on the list, the thread of every expired thread timer is no longer suspended, and the
  list is ordered. The hypotheses bound the active timers to the half of the 32 bit tick
  range that follows the base \<open>b\<close>, and ask of the functions of the application that they
  leave the timers alone.\<close>

theorem timer_check_fires:
  assumes "kinv s" "rt_current_thread s \<noteq> None" "quiet_callbacks user" "timers_ok b s"
  shows "\<exists>s'. rt_timer_check user s = Some s' \<and> kinv s' \<and> timers_ok b s' \<and>
    (\<forall>i \<in> set (rt_timer_list s'). unat (rt_tick s - b) < deadline b s' i) \<and>
    (\<forall>i \<in> set (rt_timer_list s). unat (rt_tick s - b) < deadline b s i \<longrightarrow>
       i \<in> set (rt_timer_list s') \<and> deadline b s' i = deadline b s i) \<and>
    (\<forall>i \<in> set (rt_timer_list s). periodic s i \<longrightarrow> i \<in> set (rt_timer_list s')) \<and>
    (\<forall>t. Thread_Timer t \<in> set (rt_timer_list s) \<longrightarrow> deadline b s (Thread_Timer t) \<le> unat (rt_tick s - b) \<longrightarrow>
       tstat s' t \<noteq> RT_THREAD_SUSPEND)"
proof -
  obtain s' where s': "rt_timer_check_loop user (rt_tick s) s = Some s'" "kinv s'" "timers_ok b s'" "fired b s s'"
    "\<forall>i \<in> set (rt_timer_list s'). unat (rt_tick s - b) < deadline b s' i"
    using check_loop_total [OF assms] by blast
  note F = s'(4) [unfolded fired_def]
  have "tstat s' t \<noteq> 2"
    if t: "Thread_Timer t \<in> set (rt_timer_list s)" "deadline b s (Thread_Timer t) \<le> unat (rt_tick s - b)" for t
  proof -
    have "live s t" using kcoreD(13) [OF kinvD(1) [OF assms(1)], of t] t(1) by (simp add: live_def)
    then have "\<not> periodic s (Thread_Timer t)"
      using kcoreD(7) [OF kinvD(1) [OF assms(1)], of t] by (simp add: periodic_def tcb_ok_def)
    then have "Thread_Timer t \<notin> set (rt_timer_list s')" using F s'(5) t(2) by (metis not_le)
    then show ?thesis using F t(1) by blast
  qed
  then show ?thesis using s' F by (auto simp: rt_timer_check_def rt_tick_get_def)
qed

text \<open>A function of the application that does nothing to the kernel.\<close>

lemma quiet_idle: "quiet_callbacks (\<lambda>_. Some)"
  by (simp add: quiet_callbacks_def)

abbreviation kex_due :: kernel where "kex_due \<equiv> kex\<lparr>rt_tick := 105\<rparr>"

lemma kex_due_kinv: "kinv kex_due"
  by (rule kinv_cong [OF kex_kinv]) simp_all

lemma kex_due_timers: "timers_ok 90 kex_due" "timers_ok 90 kex"
  by (auto simp: timers_ok_def timers_sorted_def deadline_def periodic_def kex_def)

theorem timer_check_fires_witness:
  "\<exists>s'. rt_timer_check (\<lambda>_. Some) kex_due = Some s' \<and> kinv s' \<and>
    (\<forall>i \<in> set (rt_timer_list s'). 15 < deadline 90 s' i) \<and> Thread_Timer 8 \<in> set (rt_timer_list s')"
proof -
  have l: "Thread_Timer 8 \<in> set (rt_timer_list kex_due)" "15 < deadline 90 kex_due (Thread_Timer 8)"
    "unat (rt_tick kex_due - 90) = 15" "rt_current_thread kex_due \<noteq> None"
    by (simp_all add: deadline_def kex_def)
  show ?thesis
    using timer_check_fires [OF kex_due_kinv l(4) quiet_idle kex_due_timers(1)] l(1,2) unfolding l(3) by blast
qed

subsection \<open>A periodic timer without a period\<close>

text \<open>The only active timer is periodic, due, has the period zero, and calls a function that
  leaves the kernel as it is.\<close>

definition stuck :: "(nat \<Rightarrow> kernel \<Rightarrow> kernel option) \<Rightarrow> timer_id \<Rightarrow> kernel \<Rightarrow> bool" where
  "stuck user i s \<longleftrightarrow>
     rt_timer_list s = [i] \<and> (\<exists>m. timeout_func (timers s i) = User_Timeout m \<and> (\<forall>s. user m s = Some s)) \<and>
     init_tick (timers s i) = 0 \<and> rt_tick s - timeout_tick (timers s i) < RT_TICK_MAX div 2 \<and>
     periodic s i \<and> activated s i \<and> otype s (O_Timer i) = RT_Object_Class_Timer"

text \<open>The body of the loop returns on such a state, and leads to such a state again.\<close>

lemma stuck_step:
  assumes "stuck user i s"
  shows "call_timeout user (timeout_func (timers s i)) (rt_timer_remove i s) = Some (rt_timer_remove i s)"
    "rt_timer_start i (set_activated False i (rt_timer_remove i s)) =
       Some (0, started i (set_activated False i (rt_timer_remove i s)))"
    "stuck user i (started i (set_activated False i (rt_timer_remove i s)))"
proof -
  obtain m where m: "timeout_func (timers s i) = User_Timeout m" "\<forall>s. user m s = Some s"
    using assms by (auto simp: stuck_def)
  show "call_timeout user (timeout_func (timers s i)) (rt_timer_remove i s) = Some (rt_timer_remove i s)"
    using m by simp
  show "rt_timer_start i (set_activated False i (rt_timer_remove i s)) =
      Some (0, started i (set_activated False i (rt_timer_remove i s)))"
    using assms by (intro timer_start_eq) (simp_all add: stuck_def)
  have "periodic (started i (set_activated False i (rt_timer_remove i s))) i"
    using assms by (simp add: stuck_def periodic_def)
  then show "stuck user i (started i (set_activated False i (rt_timer_remove i s)))"
    using assms m by (simp add: stuck_def started_list)
qed

lemma stuck_no_result:
  assumes "rt_timer_check_loop user t s = Some s'"
  shows "t = rt_tick s \<longrightarrow> \<not> stuck user i s"
proof (rule rt_timer_check_loop.raw_induct
    [where P = "\<lambda>user t s _. t = rt_tick s \<longrightarrow> \<not> stuck user i s", OF _ assms], goal_cases)
  case (1 loop user t s y)
  show ?case
  proof (intro impI notI)
    assume t: "t = rt_tick s" and st: "stuck user i s"
    note S = stuck_step [OF st]
    let ?s1 = "rt_timer_remove i s"
    have fl: "obj_flag (objs ?s1 (O_Timer i)) AND 2 \<noteq> 0" "obj_flag (objs ?s1 (O_Timer i)) AND 1 \<noteq> 0"
      using st by (simp_all add: stuck_def periodic_def activated_def)
    have "loop user (rt_tick s) (started i (set_activated False i ?s1)) = Some y"
      using 1(2) t S(1,2) fl st by (simp add: stuck_def rt_tick_get_def)
    then have "\<not> stuck user i (started i (set_activated False i ?s1))" using 1(1) by fastforce
    then show False using S(3) by blast
  qed
qed

text \<open>The expiry loop does not end for a periodic timer whose period is zero: the timer is
  started again with the present as its deadline, is due at once, and fires for ever. The
  body of the loop never fails on such a state (\<open>stuck_step\<close>), so that the missing result is
  the loop's not ending.\<close>

lemma timer_check_diverges:
  assumes "stuck user i s"
  shows "rt_timer_check user s = None"
  using stuck_no_result [of user "rt_tick s" s _ i] assms
  by (cases "rt_timer_check user s") (auto simp: rt_timer_check_def rt_tick_get_def)

definition kex_zero :: kernel where
  "kex_zero = kex\<lparr>rt_timer_list := [Timer_Obj 0],
     timers := (timers kex)(Timer_Obj 0 := \<lparr>timeout_func = User_Timeout 0, init_tick = 0, timeout_tick = 100\<rparr>)\<rparr>"

lemma timer_check_diverges_witness: "rt_timer_check (\<lambda>_. Some) kex_zero = None"
  by (rule timer_check_diverges [of _ "Timer_Obj 0"])
    (simp add: stuck_def kex_zero_def periodic_def activated_def otype_def, simp add: kex_def)

text \<open>A one-shot timer that its own timeout function starts again is lost to the
  application: the loop clears the flag of the timer after the function returns, so that
  the timer is on the list and will fire, but counts as stopped, and
  \<open>rt_timer_stop\<close> refuses to stop it.\<close>

lemma oneshot_restart_unstoppable:
  assumes l: "rt_timer_list s = [i]" and due: "rt_tick s - timeout_tick (timers s i) < RT_TICK_MAX div 2"
    and ty: "otype s (O_Timer i) = RT_Object_Class_Timer" and one: "\<not> periodic s i"
    and fn: "timeout_func (timers s i) = User_Timeout m" "\<And>s. user m s = map_option snd (rt_timer_start i s)"
    and it: "0 < init_tick (timers s i)" "init_tick (timers s i) < RT_TICK_MAX div 2"
  shows "\<exists>s'. rt_timer_check user s = Some s' \<and> rt_timer_list s' = [i] \<and>
    timeout_tick (timers s' i) = rt_tick s + init_tick (timers s i) \<and> \<not> activated s' i \<and>
    rt_timer_stop i s' = Some (- RT_ERROR, s')"
proof -
  let ?s0 = "rt_timer_remove i s"
  let ?s1 = "started i ?s0"
  let ?s2 = "set_activated False i ?s1"
  have "rt_timer_start i ?s0 = Some (0, ?s1)" using ty it(2) by (intro timer_start_eq) (simp_all add: otype_def)
  then have c: "call_timeout user (timeout_func (timers s i)) ?s0 = Some ?s1" by (simp add: fn)
  have np: "obj_flag (objs ?s1 (O_Timer i)) AND 2 = 0" using one by (simp add: periodic_def)
  have l2: "rt_timer_list ?s2 = [i]" using l by (simp add: started_list)
  have tk: "timeout_tick (timers ?s2 i) = rt_tick s + init_tick (timers s i)" "rt_tick ?s1 = rt_tick s" by simp_all
  have "\<not> rt_tick s - (rt_tick s + init_tick (timers s i)) < 0x7fffffff"
  proof -
    let ?d = "init_tick (timers s i)"
    have "unat (0 - ?d) = 2 ^ 32 - unat ?d"
      using it(1) unat_sub_if' [of 0 ?d] by (simp add: word_le_nat_alt word_less_nat_alt)
    then show ?thesis using it(2) by (simp add: word_less_nat_alt)
  qed
  then have e2: "rt_timer_check_loop user (rt_tick s) ?s2 = Some ?s2"
    using l2 tk by (subst rt_timer_check_loop.simps) simp
  have "rt_timer_check user s = Some ?s2"
    using l due c np e2 tk(2) by (simp add: rt_timer_check_def rt_tick_get_def rt_timer_check_loop.simps [of user "rt_tick s" s])
  moreover have "\<not> activated ?s2 i" by simp
  moreover have "rt_timer_stop i ?s2 = Some (- 1, ?s2)"
    using ty \<open>\<not> activated ?s2 i\<close> by (simp add: rt_timer_stop_def get_type_otype activated_def del: activated_set)
  ultimately show ?thesis using l2 tk(1) by blast
qed

definition kex_oneshot :: kernel where
  "kex_oneshot = kex\<lparr>rt_timer_list := [Timer_Obj 1],
     timers := (timers kex)(Timer_Obj 1 := \<lparr>timeout_func = User_Timeout 1, init_tick = 10, timeout_tick = 100\<rparr>)\<rparr>"

lemma oneshot_restart_unstoppable_witness:
  "\<exists>s'. rt_timer_check (\<lambda>m s. map_option snd (rt_timer_start (Timer_Obj 1) s)) kex_oneshot = Some s' \<and>
     rt_timer_stop (Timer_Obj 1) s' = Some (- 1, s') \<and> rt_timer_list s' = [Timer_Obj 1]"
proof -
  have "rt_timer_list kex_oneshot = [Timer_Obj 1]" "rt_tick kex_oneshot - timeout_tick (timers kex_oneshot (Timer_Obj 1)) < 0x7fffffff"
    "otype kex_oneshot (O_Timer (Timer_Obj 1)) = 10" "\<not> periodic kex_oneshot (Timer_Obj 1)"
    "timeout_func (timers kex_oneshot (Timer_Obj 1)) = User_Timeout 1" "0 < init_tick (timers kex_oneshot (Timer_Obj 1))"
    "init_tick (timers kex_oneshot (Timer_Obj 1)) < 0x7fffffff"
    by (simp_all add: kex_oneshot_def otype_def periodic_def) (simp_all add: kex_def)
  then show ?thesis
    using oneshot_restart_unstoppable [of kex_oneshot "Timer_Obj 1" 1 "\<lambda>m s. map_option snd (rt_timer_start (Timer_Obj 1) s)"] by simp blast
qed

subsection \<open>Clock ticks\<close>

text \<open>The ticks that are still inside the window of the base.\<close>

definition window :: "u32 \<Rightarrow> nat \<Rightarrow> kernel \<Rightarrow> bool" where
  "window b n s \<longleftrightarrow>
     unat (rt_tick s - b) + n < 0x7fffffff \<and>
     (\<forall>i \<in> set (rt_timer_list s). periodic s i \<longrightarrow>
        unat (rt_tick s - b) + n + unat (init_tick (timers s i)) < 0x7fffffff)"

fun ticks :: "(nat \<Rightarrow> kernel \<Rightarrow> kernel option) \<Rightarrow> nat \<Rightarrow> kernel \<Rightarrow> kernel option" where
  "ticks user 0 s = Some s"
| "ticks user (Suc n) s = do { s1 \<leftarrow> rt_tick_increase user s; ticks user n s1 }"

lemma elapsed_Suc:
  fixes x b :: u32
  assumes "unat (x - b) + Suc n < 0x7fffffff"
  shows "unat (x + 1 - b) = Suc (unat (x - b))"
proof -
  have e: "x + 1 - b = (x - b) + 1" by simp
  show ?thesis unfolding e using assms by (subst unat_add_small) simp_all
qed

text \<open>The part of \<open>rt_tick_increase\<close> before the timers are checked: the clock advances and the
  time slice of the running thread is charged.\<close>

lemma tick_charge:
  assumes k: "kinv s" and c: "rt_current_thread s \<noteq> None"
  obtains s3 where "rt_tick_increase user s = rt_timer_check user s3" "kinv s3" "rt_current_thread s3 \<noteq> None"
    "rt_tick s3 = rt_tick s + 1" "timers s3 = timers s" "objs s3 = objs s" "rt_timer_list s3 = rt_timer_list s"
    "\<And>t. tstat s t \<noteq> 2 \<Longrightarrow> tstat s3 t \<noteq> 2" "ipc_same (s\<lparr>rt_tick := rt_tick s + 1\<rparr>) s3"
    "\<And>l. wait_head l \<Longrightarrow> tq s3 l = tq s l" "\<And>u. err (threads s3 u) = err (threads s u)" "\<And>u. live s u \<Longrightarrow> live s3 u"
proof -
  obtain t where t: "rt_current_thread s = Some t" using c by blast
  define s2 where "s2 = upd_thread t (\<lambda>th. th\<lparr>remaining_tick := remaining_tick th - 1\<rparr>) (s\<lparr>rt_tick := rt_tick s + 1\<rparr>)"
  define s2' where "s2' = upd_thread t (\<lambda>th. th\<lparr>remaining_tick := thread_init_tick th\<rparr>) s2"
  have k2: "kinv s2" by (rule kinv_cong [OF k]) (simp_all add: s2_def stack_ok_def)
  have k2': "kinv s2'" by (rule kinv_cong [OF k2]) (simp_all add: s2'_def stack_ok_def)
  have st: "tstat s2 u = tstat s u" "tstat s2' u = tstat s u" for u by (simp_all add: s2_def s2'_def tstat_def)
  have t2': "rt_current_thread s2' = Some t" using t by (simp add: s2_def s2'_def)
  show thesis
  proof (cases "remaining_tick (threads s2 t) = 0")
    case True
    obtain s3 where s3: "rt_schedule s2' = Some s3" "kinv s3" "rt_current_thread s3 \<noteq> None"
      using rt_schedule_total [OF k2' t2'] by blast
    note F = rt_schedule_frame [OF k2' t2' s3(1)]
    have "tstat s3 u \<noteq> 2" if "tstat s u \<noteq> 2" for u
      using rt_schedule_stat(2) [OF k2' t2' s3(1), of u] that st by auto
    moreover have "rt_tick_increase user s = rt_timer_check user s3"
      using True t s3(1)
      by (simp add: rt_tick_increase_def rt_thread_self_def rt_thread_yield_def s2_def s2'_def Let_def)
    moreover have "ipc_same (s\<lparr>rt_tick := rt_tick s + 1\<rparr>) s3"
      by (rule ipc_same_trans [OF _ ipc_same_schedule [OF k2' t2' s3(1)]]) (simp add: ipc_same_def s2_def s2'_def)
    moreover have "tq s3 l = tq s l" if "wait_head l" for l
      using rt_schedule_wait_lists [OF k2' t2' s3(1), of l] that by (cases l) (auto simp: s2_def s2'_def)
    moreover have "live s3 u" if "live s u" for u
      using rt_schedule_live [OF k2' t2' s3(1), of u] that st by (simp add: live_def)
    ultimately show thesis using that [of s3] s3 F by (simp add: s2_def s2'_def)
  next
    case False
    then have "rt_tick_increase user s = rt_timer_check user s2"
      using t by (simp add: rt_tick_increase_def rt_thread_self_def s2_def Let_def)
    moreover have "ipc_same (s\<lparr>rt_tick := rt_tick s + 1\<rparr>) s2" by (simp add: ipc_same_def s2_def)
    ultimately show thesis using that [of s2] k2 t st by (simp add: s2_def live_def)
  qed
qed

lemma tick_step:
  assumes k: "kinv s" and c: "rt_current_thread s \<noteq> None" and u: "quiet_callbacks user"
    and tm: "timers_ok b s" and w: "window b (Suc n) s"
  obtains s' where "rt_tick_increase user s = Some s'" "kinv s'" "rt_current_thread s' \<noteq> None"
    "timers_ok b s'" "window b n s'" "rt_tick s' = rt_tick s + 1" "\<And>t. tstat s t \<noteq> 2 \<Longrightarrow> tstat s' t \<noteq> 2"
    "\<And>t. Thread_Timer t \<in> set (rt_timer_list s) \<Longrightarrow> tstat s' t \<noteq> 2 \<or>
       (Thread_Timer t \<in> set (rt_timer_list s') \<and> deadline b s' (Thread_Timer t) = deadline b s (Thread_Timer t) \<and>
        Suc (unat (rt_tick s - b)) < deadline b s (Thread_Timer t))"
proof -
  obtain s3 where s3: "rt_tick_increase user s = rt_timer_check user s3" "kinv s3" "rt_current_thread s3 \<noteq> None"
    "rt_tick s3 = rt_tick s + 1" "timers s3 = timers s" "objs s3 = objs s" "rt_timer_list s3 = rt_timer_list s"
    "\<And>t. tstat s t \<noteq> 2 \<Longrightarrow> tstat s3 t \<noteq> 2"
    by (rule tick_charge [OF k c, where user = user]) blast
  have e: "unat (rt_tick s3 - b) = Suc (unat (rt_tick s - b))"
    using w elapsed_Suc [of "rt_tick s" b n] s3(4) by (simp add: window_def)
  have same: "periodic s3 = periodic s" "deadline b s3 = deadline b s"
    using s3(5,6) by (simp_all add: periodic_def deadline_def fun_eq_iff)
  have tm3: "timers_ok b s3"
    using tm w e same s3(5,7) by (auto simp: timers_ok_def timers_sorted_def window_def)
  obtain s' where s': "rt_timer_check_loop user (rt_tick s3) s3 = Some s'" "kinv s'" "rt_current_thread s' \<noteq> None"
    "timers_ok b s'" "fired b s3 s'" "\<forall>i \<in> set (rt_timer_list s'). unat (rt_tick s3 - b) < deadline b s' i"
    using check_loop_total [OF s3(2,3) u tm3] by blast
  note F = s'(5) [unfolded fired_def]
  have r1: "rt_tick_increase user s = Some s'" using s3(1) s'(1) by (simp add: rt_timer_check_def rt_tick_get_def)
  have r5: "window b n s'" using w F e same s3(5,7) by (auto simp: window_def)
  have r6: "rt_tick s' = rt_tick s + 1" using F s3(4) by simp
  have r7: "tstat s' t \<noteq> 2" if "tstat s t \<noteq> 2" for t
    using F s3(8) that by auto
  have r8: "tstat s' t \<noteq> 2 \<or>
       (Thread_Timer t \<in> set (rt_timer_list s') \<and> deadline b s' (Thread_Timer t) = deadline b s (Thread_Timer t) \<and>
        Suc (unat (rt_tick s - b)) < deadline b s (Thread_Timer t))"
    if t: "Thread_Timer t \<in> set (rt_timer_list s)" for t
  proof (cases "Thread_Timer t \<in> set (rt_timer_list s')")
    case True
    have "live s t" using kcoreD(13) [OF kinvD(1) [OF k], of t] t by (simp add: live_def)
    then have "\<not> periodic s (Thread_Timer t)"
      using kcoreD(7) [OF kinvD(1) [OF k], of t] by (simp add: periodic_def tcb_ok_def)
    then have "deadline b s' (Thread_Timer t) = deadline b s (Thread_Timer t)" using F True same by metis
    then show ?thesis using True s'(6) e by auto
  next
    case False
    then have "tstat s' t \<noteq> 2" using F t s3(7) by simp
    then show ?thesis by simp
  qed
  show thesis by (rule that [OF r1 s'(2-4) r5 r6 r7 r8])
qed

lemma ticks_total:
  assumes "kinv s" "rt_current_thread s \<noteq> None" "quiet_callbacks user" "timers_ok b s" "window b n s"
  shows "\<exists>s'. ticks user n s = Some s' \<and> kinv s' \<and> rt_tick s' = rt_tick s + of_nat n \<and> timers_ok b s' \<and>
    (\<forall>t. tstat s t \<noteq> 2 \<longrightarrow> tstat s' t \<noteq> 2) \<and>
    (\<forall>t. Thread_Timer t \<in> set (rt_timer_list s) \<longrightarrow> deadline b s (Thread_Timer t) \<le> unat (rt_tick s - b) + n \<longrightarrow>
       0 < n \<longrightarrow> tstat s' t \<noteq> 2)"
  using assms
proof (induction n arbitrary: s)
  case (Suc n)
  obtain s1 where s1: "rt_tick_increase user s = Some s1" "kinv s1" "rt_current_thread s1 \<noteq> None"
    "timers_ok b s1" "window b n s1" "rt_tick s1 = rt_tick s + 1" "\<And>t. tstat s t \<noteq> 2 \<Longrightarrow> tstat s1 t \<noteq> 2"
    "\<And>t. Thread_Timer t \<in> set (rt_timer_list s) \<Longrightarrow> tstat s1 t \<noteq> 2 \<or>
       (Thread_Timer t \<in> set (rt_timer_list s1) \<and> deadline b s1 (Thread_Timer t) = deadline b s (Thread_Timer t) \<and>
        Suc (unat (rt_tick s - b)) < deadline b s (Thread_Timer t))"
    by (rule tick_step [OF Suc.prems]) blast
  obtain s' where s': "ticks user n s1 = Some s'" "kinv s'" "rt_tick s' = rt_tick s1 + of_nat n" "timers_ok b s'"
    "\<forall>t. tstat s1 t \<noteq> 2 \<longrightarrow> tstat s' t \<noteq> 2"
    "\<forall>t. Thread_Timer t \<in> set (rt_timer_list s1) \<longrightarrow> deadline b s1 (Thread_Timer t) \<le> unat (rt_tick s1 - b) + n \<longrightarrow>
       0 < n \<longrightarrow> tstat s' t \<noteq> 2"
    using Suc.IH [OF s1(2,3) Suc.prems(3) s1(4,5)] by blast
  have e: "unat (rt_tick s1 - b) = Suc (unat (rt_tick s - b))"
    using Suc.prems(5) elapsed_Suc [of "rt_tick s" b n] s1(6) by (simp add: window_def)
  have "tstat s' t \<noteq> 2"
    if "Thread_Timer t \<in> set (rt_timer_list s)" "deadline b s (Thread_Timer t) \<le> unat (rt_tick s - b) + Suc n" for t
    using s1(8) [OF that(1)] that(2) s'(5,6) e by (cases n) auto
  then show ?case using s' s1 by auto
qed simp

subsection \<open>Sleeping\<close>

text \<open>The state in which a sleeping thread leaves the processor.\<close>

lemma sleep_timers_ok:
  assumes k: "kinv s" and c: "tstat s c = 3" and tm: "timers_ok b s"
    and w: "unat (rt_tick s - b) + unat tick < 0x7fffffff"
  defines "s1 \<equiv> timed c tick (parked c s)"
  shows "timers_ok b s1" "Thread_Timer c \<in> set (rt_timer_list s1)" "rt_tick s1 = rt_tick s"
    "deadline b s1 (Thread_Timer c) = unat (rt_tick s - b) + unat tick"
    "set (rt_timer_list s1) \<subseteq> insert (Thread_Timer c) (set (rt_timer_list s))" "periodic s1 = periodic s"
    "j \<noteq> Thread_Timer c \<Longrightarrow> timers s1 j = timers s j"
proof -
  let ?i = "Thread_Timer c"
  let ?s0 = "upd_timer ?i (\<lambda>tm. tm\<lparr>init_tick := tick\<rparr>) (parked c s)"
  have s1: "s1 = started ?i ?s0" by (simp add: s1_def timed_def)
  note D = kcoreD [OF kinvD(1) [OF k]]
  have off: "?i \<notin> set (rt_timer_list s)" using D(13) [of c] c by auto
  then have l0: "rt_timer_list ?s0 = rt_timer_list s"
    using D(11) [of ?i] by (auto simp: parked_def stopped_def)
  have e: "rt_tick s + tick - b = (rt_tick s - b) + tick" by simp
  have el: "unat (rt_tick s + tick - b) = unat (rt_tick s - b) + unat tick"
    unfolding e by (rule unat_add_small) (use w in simp)
  have d0: "deadline b ?s0 = deadline b s" by (simp add: deadline_def fun_eq_iff)
  show p1: "periodic s1 = periodic s" by (simp add: s1 fun_eq_iff) (simp add: periodic_def parked_def)
  show t1: "rt_tick s1 = rt_tick s" by (simp add: s1)
  show m1: "?i \<in> set (rt_timer_list s1)" by (simp add: s1 started_list)
  show d1: "deadline b s1 ?i = unat (rt_tick s - b) + unat tick"
    using el by (simp add: s1 deadline_started)
  show L1: "set (rt_timer_list s1) \<subseteq> insert ?i (set (rt_timer_list s))" using l0 by (auto simp: s1 started_list)
  show T1: "j \<noteq> ?i \<Longrightarrow> timers s1 j = timers s j" for j by (simp add: s1 rt_timer.equality)
  have np: "\<not> periodic s ?i" using D(7) [of c] c by (simp add: live_def periodic_def tcb_ok_def)
  have "timers_sorted b ?s0" using tm l0 d0 by (simp add: timers_ok_def timers_sorted_def)
  then have "timers_sorted b s1" unfolding s1 using el w by (intro timer_started_sorted) simp_all
  moreover have "timers s1 i = timers s i" if "periodic s i" for i using T1 [of i] np that by metis
  ultimately show "timers_ok b s1"
    using tm T1 p1 t1 np unfolding timers_ok_def by (auto dest!: subsetD [OF L1])
qed

text \<open>C7: a thread that sleeps for \<open>tick\<close> ticks leaves the processor and is awake again after
  that many clock interrupts, whatever the other threads are and whatever other timers
  expire meanwhile; the interrupts themselves all return. The clock may wrap around on the
  way: the hypotheses only ask that the time stays within half of its range from the base.\<close>

theorem sleep_wakes_up:
  assumes "kinv s" "rt_current_thread s = Some c" "tstat s c = RT_THREAD_RUNNING"
    and "quiet_callbacks user" "timers_ok b s" "window b (unat tick) s" "0 < tick"
  shows "\<exists>s1 s'. rt_thread_sleep tick s = Some s1 \<and> kinv s1 \<and> tstat s1 c = RT_THREAD_SUSPEND \<and>
    ticks user (unat tick) s1 = Some s' \<and> kinv s' \<and> rt_tick s' = rt_tick s + tick \<and> tstat s' c \<noteq> RT_THREAD_SUSPEND"
proof -
  let ?s0 = "timed c tick (parked c s)"
  have w: "unat (rt_tick s - b) + unat tick < 0x7fffffff" using assms(6) by (simp add: window_def)
  then have tick: "tick < 0x7fffffff" by (simp add: word_less_nat_alt)
  obtain s1 where s1: "rt_thread_sleep tick s = Some s1" "rt_schedule ?s0 = Some s1" "kinv ?s0" "kinv s1"
    by (rule sleep_total [OF assms(1-3) tick]) blast
  note T = sleep_timers_ok [OF assms(1,3,5) w]
  have c0: "rt_current_thread ?s0 = Some c" using assms(2) by simp
  note F = rt_schedule_frame [OF s1(3) c0 s1(2)]
  have same: "periodic s1 = periodic ?s0" "deadline b s1 = deadline b ?s0"
    using F(4,6) by (simp_all add: periodic_def deadline_def fun_eq_iff)
  have st: "tstat s1 c = 2" using rt_schedule_stat(1) [OF s1(3) c0 s1(2), of c] by simp
  have np: "\<not> periodic s (Thread_Timer c)"
    using kcoreD(7) [OF kinvD(1) [OF assms(1)], of c] assms(3) by (simp add: live_def periodic_def tcb_ok_def)
  have "timers_ok b s1"
    using T(1) same F(3,6,7) by (simp add: timers_ok_def timers_sorted_def)
  moreover have "timers ?s0 i = timers s i" if "periodic s i" for i using T(7) [of i] np that by metis
  then have "window b (unat tick) s1"
    using assms(6) T(3,5,6) np same(1) F(3,6,7) by (auto simp: window_def dest!: subsetD [OF T(5)])
  moreover have "rt_current_thread s1 \<noteq> None" using rt_schedule_total [OF s1(3) c0] s1(2) by auto
  ultimately obtain s' where s': "ticks user (unat tick) s1 = Some s'" "kinv s'" "rt_tick s' = rt_tick s1 + of_nat (unat tick)"
    "\<forall>t. Thread_Timer t \<in> set (rt_timer_list s1) \<longrightarrow> deadline b s1 (Thread_Timer t) \<le> unat (rt_tick s1 - b) + unat tick \<longrightarrow>
       0 < unat tick \<longrightarrow> tstat s' t \<noteq> 2"
    using ticks_total [OF s1(4) _ assms(4)] by blast
  have "0 < unat tick" using assms(7) by (simp add: word_less_nat_alt)
  then have "tstat s' c \<noteq> 2" using s'(4) T(2,3,4) same F(3,7) by simp
  then show ?thesis using s1 s' st F(3) T(3) by auto
qed

theorem sleep_wakes_up_witness:
  "\<exists>s1 s'. rt_thread_sleep 10 kex = Some s1 \<and> ticks (\<lambda>_. Some) 10 s1 = Some s' \<and> rt_tick s' = 110 \<and>
    tstat s1 1 = RT_THREAD_SUSPEND \<and> tstat s' 1 \<noteq> RT_THREAD_SUSPEND"
proof -
  have w: "window 90 (unat (10 :: u32)) kex" by (auto simp: window_def periodic_def kex_def)
  have "rt_tick kex + 10 = 110" by (simp add: kex_def)
  then show ?thesis
    using sleep_wakes_up [OF kex_kinv _ _ quiet_idle kex_due_timers(2) w, of 1] by (auto simp: kex_stat)
qed

text \<open>A delay in milliseconds is converted to the smallest number of ticks that is not
  shorter, for every delay that is not negative, without overflow; a negative one gives
  \<open>RT_WAITING_FOREVER\<close>, which is \<open>-1\<close>.\<close>

lemma tick_from_ms_ceiling:
  "(sint ms < 0 \<longrightarrow> rt_tick_from_millisecond ms = - 1) \<and>
   (0 \<le> sint ms \<longrightarrow>
     sint ms \<le> 10 * uint (rt_tick_from_millisecond ms) \<and> 10 * uint (rt_tick_from_millisecond ms) < sint ms + 10)"
  using tick_from_ms_nonneg [of ms] by (auto simp: rt_tick_from_millisecond_def)

end
