(* ===== verification/Semaphore.thy ===== *)
theory Semaphore
  imports Example_State
begin

text \<open>
  The counting semaphore of \<open>src/ipc.c\<close>. A take that has to wait returns \<open>Block\<close>; the thread
  continues with \<open>rt_sem_take_wake\<close> when it runs again. The theory describes every branch of
  take and release, shows that a semaphore with a positive value has no waiters, and that
  each release gives one unit to one taker.
\<close>

subsection \<open>Operations\<close>

definition set_sem_value :: "nat \<Rightarrow> u16 \<Rightarrow> kernel \<Rightarrow> kernel" where
  "set_sem_value n v s = s\<lparr>sems := (sems s)(n := (sems s n)\<lparr>sem_value := v\<rparr>)\<rparr>"

definition rt_sem_init :: "nat \<Rightarrow> string \<Rightarrow> u32 \<Rightarrow> u8 \<Rightarrow> kernel \<Rightarrow> (rt_err_t \<times> kernel) option" where
  "rt_sem_init n nm value flag s = do {
     rt_assert (value < 0x10000);
     s1 \<leftarrow> rt_object_init (O_Sem n) RT_Object_Class_Semaphore nm s;
     let s2 = set_sem_value n (ucast value) (rt_ipc_object_init (L_sem n) s1);
     Some (RT_EOK, upd_obj (O_Sem n) (\<lambda>ob. ob\<lparr>obj_flag := flag\<rparr>) s2)
   }"

definition rt_sem_detach :: "nat \<Rightarrow> kernel \<Rightarrow> (rt_err_t \<times> kernel) option" where
  "rt_sem_detach n s = do {
     rt_assert (rt_object_get_type (O_Sem n) s = RT_Object_Class_Semaphore);
     rt_assert (rt_object_is_systemobject (O_Sem n) s);
     s1 \<leftarrow> rt_ipc_list_resume_all (L_sem n) s;
     Some (RT_EOK, rt_object_detach (O_Sem n) s1)
   }"

definition rt_sem_create ::
  "nat option \<Rightarrow> string \<Rightarrow> u32 \<Rightarrow> u8 \<Rightarrow> kernel \<Rightarrow> (nat option \<times> kernel) option" where
  "rt_sem_create fresh nm value flag s = do {
     rt_assert (rt_interrupt_nest s = 0);
     rt_assert (value < 0x10000);
     (_, s1) \<leftarrow> rt_object_allocate (map_option O_Sem fresh) RT_Object_Class_Semaphore nm s;
     case fresh of
       None \<Rightarrow> Some (None, s1)
     | Some n \<Rightarrow>
         let s2 = set_sem_value n (ucast value) (rt_ipc_object_init (L_sem n) s1) in
         Some (Some n, upd_obj (O_Sem n) (\<lambda>ob. ob\<lparr>obj_flag := flag\<rparr>) s2)
   }"

definition rt_sem_delete :: "nat \<Rightarrow> kernel \<Rightarrow> (rt_err_t \<times> kernel) option" where
  "rt_sem_delete n s = do {
     rt_assert (rt_interrupt_nest s = 0);
     rt_assert (rt_object_get_type (O_Sem n) s = RT_Object_Class_Semaphore);
     rt_assert (\<not> rt_object_is_systemobject (O_Sem n) s);
     s1 \<leftarrow> rt_ipc_list_resume_all (L_sem n) s;
     s2 \<leftarrow> rt_object_delete (O_Sem n) s1;
     Some (RT_EOK, s2)
   }"

definition rt_sem_take :: "nat \<Rightarrow> u32 \<Rightarrow> kernel \<Rightarrow> (unit outcome \<times> kernel) option" where
  "rt_sem_take n time s = do {
     rt_assert (rt_object_get_type (O_Sem n) s = RT_Object_Class_Semaphore);
     if 0 < sem_value (sems s n)
     then Some (Done RT_EOK, set_sem_value n (sem_value (sems s n) - 1) s)
     else if time = 0 then Some (Done (- RT_ETIMEOUT), s)
     else do {
       rt_assert (in_thread_context s);
       thread \<leftarrow> rt_thread_self s;
       let s1 = upd_thread thread (\<lambda>th. th\<lparr>err := RT_EOK\<rparr>) s;
       s2 \<leftarrow> ipc_wait (L_sem n) thread (obj_flag (objs s (O_Sem n))) time s1;
       Some (Block (), s2)
     }
   }"

definition rt_sem_take_wake :: "tid \<Rightarrow> kernel \<Rightarrow> rt_err_t" where
  "rt_sem_take_wake thread s =
     (if err (threads s thread) \<noteq> RT_EOK then err (threads s thread) else RT_EOK)"

definition rt_sem_trytake :: "nat \<Rightarrow> kernel \<Rightarrow> (unit outcome \<times> kernel) option" where
  "rt_sem_trytake n s = rt_sem_take n 0 s"

definition rt_sem_release :: "nat \<Rightarrow> kernel \<Rightarrow> (rt_err_t \<times> kernel) option" where
  "rt_sem_release n s = do {
     rt_assert (rt_object_get_type (O_Sem n) s = RT_Object_Class_Semaphore);
     if \<not> tlist_isempty (L_sem n) s
     then do {
       s1 \<leftarrow> rt_ipc_list_resume (L_sem n) s;
       s2 \<leftarrow> rt_schedule s1;
       Some (RT_EOK, s2)
     }
     else Some (RT_EOK, set_sem_value n (sem_value (sems s n) + 1) s)
   }"

definition rt_sem_control :: "nat \<Rightarrow> int \<Rightarrow> u32 \<Rightarrow> kernel \<Rightarrow> (rt_err_t \<times> kernel) option" where
  "rt_sem_control n cmd arg s = do {
     rt_assert (rt_object_get_type (O_Sem n) s = RT_Object_Class_Semaphore);
     if cmd = RT_IPC_CMD_RESET
     then do {
       s1 \<leftarrow> rt_ipc_list_resume_all (L_sem n) s;
       s2 \<leftarrow> rt_schedule (set_sem_value n (ucast arg) s1);
       Some (RT_EOK, s2)
     }
     else Some (- RT_ERROR, s)
   }"

subsection \<open>Frame\<close>

lemma set_sem_frame [simp]:
  "threads (set_sem_value n v s) = threads s" "tq (set_sem_value n v s) = tq s"
  "rt_thread_ready_priority_group (set_sem_value n v s) = rt_thread_ready_priority_group s"
  "rt_scheduler_lock_nest (set_sem_value n v s) = rt_scheduler_lock_nest s"
  "rt_current_thread (set_sem_value n v s) = rt_current_thread s"
  "rt_interrupt_nest (set_sem_value n v s) = rt_interrupt_nest s" "rt_tick (set_sem_value n v s) = rt_tick s"
  "objs (set_sem_value n v s) = objs s" "object_list (set_sem_value n v s) = object_list s"
  "timers (set_sem_value n v s) = timers s" "rt_timer_list (set_sem_value n v s) = rt_timer_list s"
  "mutexes (set_sem_value n v s) = mutexes s" "events (set_sem_value n v s) = events s"
  "mailboxes (set_sem_value n v s) = mailboxes s" "mqs (set_sem_value n v s) = mqs s"
  "mempools (set_sem_value n v s) = mempools s"
  "sem_value (sems (set_sem_value n v s) m) = (if m = n then v else sem_value (sems s m))"
  "m \<noteq> n \<Longrightarrow> sems (set_sem_value n v s) m = sems s m"
  by (simp_all add: set_sem_value_def)

lemma set_sem_kinv [simp]: "kinv (set_sem_value n v s) = kinv s"
proof
  show "kinv s" if "kinv (set_sem_value n v s)" by (rule kinv_cong [OF that]) simp_all
  show "kinv (set_sem_value n v s)" if "kinv s" by (rule kinv_cong [OF that]) simp_all
qed

lemma set_sem_other [simp]:
  "otype (set_sem_value n v s) = otype s" "tstat (set_sem_value n v s) = tstat s"
  by (simp_all add: otype_def tstat_def fun_eq_iff)

subsection \<open>The invariant of a semaphore\<close>

definition sem_ok :: "kernel \<Rightarrow> nat \<Rightarrow> bool" where
  "sem_ok s n \<longleftrightarrow> (0 < sem_value (sems s n) \<longrightarrow> tq s (L_sem n) = [])"

lemma sem_take_waits:
  assumes k: "kinv s" and ty: "otype s (O_Sem n) = 2" and v: "sem_value (sems s n) = 0"
    and c: "caller s c" and time: "time \<noteq> 0" "wait_time_ok time"
    and flag: "obj_flag (objs s (O_Sem n)) = flag" "flag = 0 \<or> flag = 1"
  obtains s' where "rt_sem_take n time s = Some (Block (), s')" "blocked (L_sem n) c flag s s'"
proof -
  obtain s' where "ipc_wait (L_sem n) c flag time (upd_thread c (\<lambda>th. th\<lparr>err := 0\<rparr>) s) = Some s'"
    "blocked (L_sem n) c flag s s'"
    using block_total [OF k c flag(2) _ time(2), of "L_sem n"] by auto
  then show thesis
    using that ty v c time flag
    by (simp add: rt_sem_take_def get_type_otype caller_def in_thread_context_def rt_thread_self_def)
qed

lemma sem_release_hands_over:
  assumes k: "kinv s" and ty: "otype s (O_Sem n) = 2" and c: "rt_current_thread s = Some c"
    and q: "tq s (L_sem n) = t # ts"
  obtains s' where "rt_sem_release n s = Some (0, s')" "handed_over (L_sem n) t s s'"
proof -
  obtain s' where s': "rt_schedule (resumed t s) = Some s'" "handed_over (L_sem n) t s s'"
    using hand_over_total [OF k c _ q] by auto
  then show thesis
    using that list_resume_eq(2) [OF k _ q] q ty
    by (simp add: rt_sem_release_def get_type_otype tlist_isempty_def)
qed

text \<open>Resetting or removing a semaphore wakes every waiter with \<open>- RT_ERROR\<close>.\<close>

lemma sem_reset_total:
  assumes k: "kinv s" and ty: "otype s (O_Sem n) = 2" and c: "rt_current_thread s = Some c"
  obtains s1 s' where "rt_sem_control n RT_IPC_CMD_RESET v s = Some (0, s')" "kinv s'" "woken (L_sem n) s s1"
    "sem_value (sems s' n) = ucast v" "tq s' (L_sem n) = []" "\<And>u. err (threads s' u) = err (threads s1 u)"
    "\<And>u. u \<in> set (tq s (L_sem n)) \<Longrightarrow> tstat s' u = 1 \<or> tstat s' u = 3"
proof -
  obtain s1 where s1: "rt_ipc_list_resume_all (L_sem n) s = Some s1" "kinv s1" "woken (L_sem n) s s1"
    using resume_all_total [OF k, of "L_sem n"] by auto
  let ?s2 = "set_sem_value n (ucast v) s1"
  have k2: "kinv ?s2" and c2: "rt_current_thread ?s2 = Some c" using s1 c by (simp_all add: woken_def)
  obtain s' where s': "rt_schedule ?s2 = Some s'" "kinv s'" using rt_schedule_total [OF k2 c2] by blast
  note F = rt_schedule_frame [OF k2 c2 s'(1)]
  have "rt_sem_control n RT_IPC_CMD_RESET v s = Some (0, s')"
    using s1 s' ty by (simp add: rt_sem_control_def get_type_otype)
  moreover have "tq s' (L_sem n) = []"
    using rt_schedule_wait_lists [OF k2 c2 s'(1), of "L_sem n"] s1(3) by (simp add: woken_def)
  moreover have "tstat s' u = 1 \<or> tstat s' u = 3" if "u \<in> set (tq s (L_sem n))" for u
    using that s1(3) rt_schedule_runnable [OF k2 c2 s'(1), of u] by (auto simp: woken_def)
  ultimately show thesis using that s1 s' F(8,20) by simp
qed

subsection \<open>Correctness\<close>

text \<open>\<open>rt_sem_take\<close> on every branch: a unit is taken when there is one; without a unit and
  without a time the call returns \<open>- RT_ETIMEOUT\<close> and changes nothing; otherwise the caller
  is suspended at its place in the queue (by arrival or by priority) and another thread
  gets the processor. The call never faults and keeps the kernel invariant.\<close>

lemma sem_take_spec:
  assumes k: "kinv s" and ty: "otype s (O_Sem n) = RT_Object_Class_Semaphore" and c: "caller s c"
    and time: "wait_time_ok time" and flag: "obj_flag (objs s (O_Sem n)) \<in> {RT_IPC_FLAG_FIFO, RT_IPC_FLAG_PRIO}"
  shows "\<exists>r s'. rt_sem_take n time s = Some (r, s') \<and> kinv s' \<and>
    (if 0 < sem_value (sems s n) then r = Done RT_EOK \<and> s' = set_sem_value n (sem_value (sems s n) - 1) s
     else if time = 0 then r = Done (- RT_ETIMEOUT) \<and> s' = s
     else r = Block () \<and> blocked (L_sem n) c (obj_flag (objs s (O_Sem n))) s s')"
proof (cases "sem_value (sems s n) = 0 \<and> time \<noteq> 0")
  case True
  then obtain s' where "rt_sem_take n time s = Some (Block (), s')" "blocked (L_sem n) c (obj_flag (objs s (O_Sem n))) s s'"
    using sem_take_waits [OF k ty _ c _ time refl] flag by blast
  then show ?thesis using True by (simp add: blocked_def)
next
  case False
  then show ?thesis using k ty by (auto simp: rt_sem_take_def get_type_otype word_neq_0_conv)
qed

text \<open>\<open>rt_sem_release\<close> gives the unit to the first waiter, who leaves the queue and can run,
  or adds it to the value (modulo 65536) when nobody waits.\<close>

lemma sem_release_spec:
  assumes k: "kinv s" and ty: "otype s (O_Sem n) = RT_Object_Class_Semaphore" and c: "rt_current_thread s = Some c"
  shows "\<exists>s'. rt_sem_release n s = Some (RT_EOK, s') \<and> kinv s' \<and>
    (case tq s (L_sem n) of [] \<Rightarrow> s' = set_sem_value n (sem_value (sems s n) + 1) s
     | t # ts \<Rightarrow> handed_over (L_sem n) t s s')"
proof (cases "tq s (L_sem n)")
  case Nil
  then show ?thesis using k ty by (simp add: rt_sem_release_def get_type_otype tlist_isempty_def)
next
  case (Cons t ts)
  then obtain s' where "rt_sem_release n s = Some (0, s')" "handed_over (L_sem n) t s s'"
    using sem_release_hands_over [OF k ty c] by blast
  then show ?thesis using Cons by (simp add: handed_over_def)
qed

text \<open>What a blocked \<open>rt_sem_take\<close> returns when the thread runs again: success to the thread
  a release chose, \<open>- RT_ERROR\<close> to every thread a reset wakes, \<open>- RT_ETIMEOUT\<close> to a thread
  whose time is over; that thread has left the queue and took nothing.\<close>

lemma sem_wake_result:
  assumes k: "kinv s" and w: "waiters_ok s" and ty: "otype s (O_Sem n) = RT_Object_Class_Semaphore"
    and c: "rt_current_thread s = Some c" and q: "tq s (L_sem n) = t # ts" and u: "u \<in> set (t # ts)"
    and tm: "Thread_Timer u \<notin> set (rt_timer_list s)"
  shows "\<exists>s1 s2 s3. rt_sem_release n s = Some (RT_EOK, s1) \<and> rt_sem_take_wake t s1 = RT_EOK \<and>
    rt_sem_control n RT_IPC_CMD_RESET v s = Some (RT_EOK, s2) \<and> rt_sem_take_wake u s2 = - RT_ERROR \<and>
    rt_thread_timeout u s = Some s3 \<and> rt_sem_take_wake u s3 = - RT_ETIMEOUT \<and>
    tq s3 (L_sem n) = removeAll u (tq s (L_sem n)) \<and> sems s3 = sems s"
proof -
  obtain s1 where s1: "rt_sem_release n s = Some (0, s1)" "handed_over (L_sem n) t s s1"
    by (rule sem_release_hands_over [OF k ty c q])
  have "err (threads s t) = 0" using w q unfolding waiters_ok_def by (metis list.set_intros(1) wait_head.simps(3))
  then have r1: "rt_sem_take_wake t s1 = 0" using s1(2) by (simp add: rt_sem_take_wake_def handed_over_def)
  obtain sw s2 where s2: "rt_sem_control n RT_IPC_CMD_RESET v s = Some (0, s2)" "woken (L_sem n) s sw"
    "\<And>u. err (threads s2 u) = err (threads sw u)" by (rule sem_reset_total [OF k ty c]) blast
  have r2: "rt_sem_take_wake u s2 = - 1" using s2(2,3) u q by (auto simp: rt_sem_take_wake_def woken_def)
  have st: "tstat s u = 2" using kcoreD(5) [OF kinvD(1) [OF k], of u "L_sem n"] u q by simp
  have k3: "kinv (timedout u s)" and c3: "rt_current_thread (timedout u s) = Some c"
    using timedout_kinv [OF k st tm] c by simp_all
  obtain s3 where s3: "rt_schedule (timedout u s) = Some s3" using rt_schedule_total [OF k3 c3] by blast
  note F = rt_schedule_frame [OF k3 c3 s3]
  have "rt_thread_timeout u s = Some s3" using timeout_eq [OF k st] s3 by simp
  moreover have "rt_sem_take_wake u s3 = - 2" using F(20) [of u] by (simp add: rt_sem_take_wake_def)
  moreover have "tq s3 (L_sem n) = removeAll u (tq s (L_sem n))"
    using rt_schedule_wait_lists [OF k3 c3 s3, of "L_sem n"] by simp
  moreover have "sems s3 = sems s" using F(8) ipc_sameD(1) [OF ipc_same_ops(6)] by simp
  ultimately show ?thesis using s1 r1 s2 r2 by blast
qed

subsection \<open>Examples\<close>

lemma kex_sem_flag [simp]: "obj_flag (objs kex (O_Sem n)) = 1"
  by (simp add: kex_def)

lemma sem_release_spec_witness: "\<exists>s'. rt_sem_release 0 kex = Some (0, s') \<and> tq s' (L_sem 0) = []"
  using sem_release_spec [OF kex_kinv, of 0 1] by (auto simp: handed_over_def)

end
