(* ===== verification/Mutex.thy ===== *)
theory Mutex
  imports Example_State
begin

text \<open>
  The mutex of \<open>src/ipc.c\<close>: recursive, owned by a thread, with priority inheritance. The code
  from the label \<open>__again\<close> on is \<open>mutex_again\<close>; a blocked take continues with
  \<open>rt_mutex_take_wake\<close>. The theory describes every branch of take and release, and shows
  exclusion, the inherited priority and its restoration.
\<close>

subsection \<open>Operations\<close>

definition upd_mutex :: "nat \<Rightarrow> (rt_mutex \<Rightarrow> rt_mutex) \<Rightarrow> kernel \<Rightarrow> kernel" where
  "upd_mutex n f s = s\<lparr>mutexes := (mutexes s)(n := f (mutexes s n))\<rparr>"

definition new_mutex :: "rt_mutex \<Rightarrow> rt_mutex" where
  "new_mutex m = m\<lparr>mutex_value := 1, owner := None, original_priority := 0xff, hold := 0\<rparr>"

definition rt_mutex_init :: "nat \<Rightarrow> string \<Rightarrow> u8 \<Rightarrow> kernel \<Rightarrow> (rt_err_t \<times> kernel) option" where
  "rt_mutex_init n nm flag s = do {
     s1 \<leftarrow> rt_object_init (O_Mutex n) RT_Object_Class_Mutex nm s;
     let s2 = upd_mutex n new_mutex (rt_ipc_object_init (L_mutex n) s1);
     Some (RT_EOK, upd_obj (O_Mutex n) (\<lambda>ob. ob\<lparr>obj_flag := flag\<rparr>) s2)
   }"

definition rt_mutex_detach :: "nat \<Rightarrow> kernel \<Rightarrow> (rt_err_t \<times> kernel) option" where
  "rt_mutex_detach n s = do {
     rt_assert (rt_object_get_type (O_Mutex n) s = RT_Object_Class_Mutex);
     rt_assert (rt_object_is_systemobject (O_Mutex n) s);
     s1 \<leftarrow> rt_ipc_list_resume_all (L_mutex n) s;
     Some (RT_EOK, rt_object_detach (O_Mutex n) s1)
   }"

definition rt_mutex_create :: "nat option \<Rightarrow> string \<Rightarrow> u8 \<Rightarrow> kernel \<Rightarrow> (nat option \<times> kernel) option" where
  "rt_mutex_create fresh nm flag s = do {
     rt_assert (rt_interrupt_nest s = 0);
     (_, s1) \<leftarrow> rt_object_allocate (map_option O_Mutex fresh) RT_Object_Class_Mutex nm s;
     case fresh of
       None \<Rightarrow> Some (None, s1)
     | Some n \<Rightarrow>
         let s2 = upd_mutex n new_mutex (rt_ipc_object_init (L_mutex n) s1) in
         Some (Some n, upd_obj (O_Mutex n) (\<lambda>ob. ob\<lparr>obj_flag := flag\<rparr>) s2)
   }"

definition rt_mutex_delete :: "nat \<Rightarrow> kernel \<Rightarrow> (rt_err_t \<times> kernel) option" where
  "rt_mutex_delete n s = do {
     rt_assert (rt_interrupt_nest s = 0);
     rt_assert (rt_object_get_type (O_Mutex n) s = RT_Object_Class_Mutex);
     rt_assert (\<not> rt_object_is_systemobject (O_Mutex n) s);
     s1 \<leftarrow> rt_ipc_list_resume_all (L_mutex n) s;
     s2 \<leftarrow> rt_object_delete (O_Mutex n) s1;
     Some (RT_EOK, s2)
   }"

definition mutex_again :: "nat \<Rightarrow> tid \<Rightarrow> u32 \<Rightarrow> kernel \<Rightarrow> (u32 outcome \<times> kernel) option" where
  "mutex_again n thread time s =
     (let m = mutexes s n in
      if 0 < mutex_value m
      then Some (Done RT_EOK, upd_mutex n (\<lambda>m. m\<lparr>mutex_value := mutex_value m - 1, owner := Some thread,
             original_priority := current_priority (threads s thread), hold := hold m + 1\<rparr>) s)
      else if time = 0
      then Some (Done (- RT_ETIMEOUT), upd_thread thread (\<lambda>th. th\<lparr>err := - RT_ETIMEOUT\<rparr>) s)
      else do {
        o_thread \<leftarrow> owner m;
        s1 \<leftarrow> (if current_priority (threads s thread) < current_priority (threads s o_thread)
              then map_option snd (rt_thread_control o_thread
                     (RT_THREAD_CTRL_CHANGE_PRIORITY (current_priority (threads s thread))) s)
              else Some s);
        s2 \<leftarrow> ipc_wait (L_mutex n) thread (obj_flag (objs s (O_Mutex n))) time s1;
        Some (Block time, s2)
      })"

definition rt_mutex_take :: "nat \<Rightarrow> u32 \<Rightarrow> kernel \<Rightarrow> (u32 outcome \<times> kernel) option" where
  "rt_mutex_take n time s = do {
     rt_assert (in_thread_context s);
     rt_assert (rt_object_get_type (O_Mutex n) s = RT_Object_Class_Mutex);
     thread \<leftarrow> rt_thread_self s;
     let s1 = upd_thread thread (\<lambda>th. th\<lparr>err := RT_EOK\<rparr>) s;
     if owner (mutexes s1 n) = Some thread
     then Some (Done RT_EOK, upd_mutex n (\<lambda>m. m\<lparr>hold := hold m + 1\<rparr>) s1)
     else mutex_again n thread time s1
   }"

definition rt_mutex_take_wake :: "nat \<Rightarrow> tid \<Rightarrow> u32 \<Rightarrow> kernel \<Rightarrow> (u32 outcome \<times> kernel) option" where
  "rt_mutex_take_wake n thread time s =
     (if err (threads s thread) \<noteq> RT_EOK
      then if err (threads s thread) = - RT_EINTR then mutex_again n thread time s
           else Some (Done (err (threads s thread)), s)
      else Some (Done RT_EOK, s))"

definition rt_mutex_release :: "nat \<Rightarrow> kernel \<Rightarrow> (rt_err_t \<times> kernel) option" where
  "rt_mutex_release n s = do {
     rt_assert (rt_object_get_type (O_Mutex n) s = RT_Object_Class_Mutex);
     rt_assert (in_thread_context s);
     thread \<leftarrow> rt_thread_self s;
     if owner (mutexes s n) \<noteq> Some thread
     then Some (- RT_ERROR, upd_thread thread (\<lambda>th. th\<lparr>err := - RT_ERROR\<rparr>) s)
     else do {
       let s1 = upd_mutex n (\<lambda>m. m\<lparr>hold := hold m - 1\<rparr>) s;
       if hold (mutexes s1 n) = 0
       then do {
         s2 \<leftarrow> (if original_priority (mutexes s1 n) \<noteq> current_priority (threads s1 thread)
               then map_option snd (rt_thread_control thread
                      (RT_THREAD_CTRL_CHANGE_PRIORITY (original_priority (mutexes s1 n))) s1)
               else Some s1);
         case tq s2 (L_mutex n) of
           t # _ \<Rightarrow> do {
             let s3 = upd_mutex n (\<lambda>m. m\<lparr>owner := Some t, original_priority := current_priority (threads s2 t),
               hold := hold m + 1\<rparr>) s2;
             s4 \<leftarrow> rt_ipc_list_resume (L_mutex n) s3;
             s5 \<leftarrow> rt_schedule s4;
             Some (RT_EOK, s5)
           }
         | [] \<Rightarrow> Some (RT_EOK, upd_mutex n (\<lambda>m. m\<lparr>mutex_value := mutex_value m + 1, owner := None,
               original_priority := 0xff\<rparr>) s2)
       }
       else Some (RT_EOK, s1)
     }
   }"

definition rt_mutex_control :: "nat \<Rightarrow> int \<Rightarrow> u32 \<Rightarrow> kernel \<Rightarrow> (rt_err_t \<times> kernel) option" where
  "rt_mutex_control n cmd arg s = do {
     rt_assert (rt_object_get_type (O_Mutex n) s = RT_Object_Class_Mutex);
     Some (- RT_ERROR, s)
   }"

subsection \<open>Frame\<close>

lemma upd_mutex_frame [simp]:
  "threads (upd_mutex n f s) = threads s" "tq (upd_mutex n f s) = tq s"
  "rt_thread_ready_priority_group (upd_mutex n f s) = rt_thread_ready_priority_group s"
  "rt_scheduler_lock_nest (upd_mutex n f s) = rt_scheduler_lock_nest s"
  "rt_current_thread (upd_mutex n f s) = rt_current_thread s"
  "rt_interrupt_nest (upd_mutex n f s) = rt_interrupt_nest s" "rt_tick (upd_mutex n f s) = rt_tick s"
  "objs (upd_mutex n f s) = objs s" "object_list (upd_mutex n f s) = object_list s"
  "timers (upd_mutex n f s) = timers s" "rt_timer_list (upd_mutex n f s) = rt_timer_list s"
  "sems (upd_mutex n f s) = sems s" "events (upd_mutex n f s) = events s"
  "mailboxes (upd_mutex n f s) = mailboxes s" "mqs (upd_mutex n f s) = mqs s"
  "mempools (upd_mutex n f s) = mempools s"
  "mutexes (upd_mutex n f s) m = (if m = n then f (mutexes s n) else mutexes s m)"
  by (simp_all add: upd_mutex_def)

lemma upd_mutex_kinv [simp]: "kinv (upd_mutex n f s) = kinv s"
proof
  show "kinv s" if "kinv (upd_mutex n f s)" by (rule kinv_cong [OF that]) simp_all
  show "kinv (upd_mutex n f s)" if "kinv s" by (rule kinv_cong [OF that]) simp_all
qed

lemma upd_mutex_other [simp]:
  "otype (upd_mutex n f s) = otype s" "tstat (upd_mutex n f s) = tstat s" "live (upd_mutex n f s) = live s"
  by (simp_all add: otype_def tstat_def live_def fun_eq_iff)

subsection \<open>The invariant of a mutex\<close>

text \<open>A free mutex has no waiters; a held one has a started owner that is not among the
  waiters, is held at least once, and keeps a valid priority to restore.\<close>

definition mutex_ok :: "kernel \<Rightarrow> nat \<Rightarrow> bool" where
  "mutex_ok s n \<longleftrightarrow>
     (case owner (mutexes s n) of
        None \<Rightarrow> mutex_value (mutexes s n) = 1 \<and> hold (mutexes s n) = 0 \<and> tq s (L_mutex n) = []
      | Some t \<Rightarrow> mutex_value (mutexes s n) = 0 \<and> 0 < hold (mutexes s n) \<and> live s t \<and>
          original_priority (mutexes s n) < 32 \<and> t \<notin> set (tq s (L_mutex n)))"

lemma mutex_ok_cong:
  assumes "mutex_ok s n" "mutexes s' n = mutexes s n" "set (tq s' (L_mutex n)) \<subseteq> set (tq s (L_mutex n))"
    "\<And>t. live s t \<Longrightarrow> live s' t"
  shows "mutex_ok s' n"
  using assms by (auto simp: mutex_ok_def split: option.splits)

text \<open>The priority of the owner after a waiter of priority \<open>p\<close> has joined.\<close>

definition inherit :: "u8 \<Rightarrow> tid \<Rightarrow> kernel \<Rightarrow> kernel" where
  "inherit p t s = (if p < current_priority (threads s t) then reprio p t s else s)"

lemma inherit_simps [simp]:
  "tstat (inherit p t s) u = tstat s u" "rt_current_thread (inherit p t s) = rt_current_thread s"
  "rt_interrupt_nest (inherit p t s) = rt_interrupt_nest s" "mutexes (inherit p t s) = mutexes s"
  "sems (inherit p t s) = sems s" "objs (inherit p t s) = objs s"
  "err (threads (inherit p t s) u) = err (threads s u)"
  "current_priority (threads (inherit p t s) u) =
     (if u = t then min p (current_priority (threads s t)) else current_priority (threads s u))"
  by (auto simp: inherit_def min_def)

lemma inherit_total:
  assumes k: "kinv s" and c: "caller s c" and t: "live s t" "t \<noteq> c"
  shows "(if current_priority (threads s c) < current_priority (threads s t)
      then map_option snd (rt_thread_control t (RT_THREAD_CTRL_CHANGE_PRIORITY (current_priority (threads s c))) s)
      else Some s) = Some (inherit (current_priority (threads s c)) t s)"
    and "kinv (inherit (current_priority (threads s c)) t s)"
    and "wait_head l \<Longrightarrow> tq (inherit (current_priority (threads s c)) t s) l = tq s l"
proof -
  let ?p = "current_priority (threads s c)"
  have "live s c" using c by (simp add: caller_def live_def)
  then have p: "?p < 32" using kcoreD(8) [OF kinvD(1) [OF k], of c] by (simp add: prio_ok_def word_less_nat_alt)
  have rd: "rt_current_thread s \<noteq> Some t" using c t by (simp add: caller_def)
  show "(if ?p < current_priority (threads s t)
      then map_option snd (rt_thread_control t (RT_THREAD_CTRL_CHANGE_PRIORITY ?p) s) else Some s) = Some (inherit ?p t s)"
    using control_prio_eq [OF kinvD(1) [OF k] p t(1)] rd by (simp add: inherit_def)
  show "kinv (inherit ?p t s)" using reprio_kinv [OF k p t(1)] k by (simp add: inherit_def)
  show "tq (inherit ?p t s) l = tq s l" if "wait_head l"
    using that reprio_wait_lists [OF kinvD(1) [OF k], of l ?p t] by (cases l) (auto simp: inherit_def)
qed

lemma inherit_same: "caller (inherit p t s) = caller s" "otype (inherit p t s) = otype s" "live (inherit p t s) = live s"
  by (simp_all add: caller_def otype_def live_def fun_eq_iff)

subsection \<open>Taking\<close>

lemma again_waits:
  assumes k: "kinv s" and ok: "mutex_ok s n" and o: "owner (mutexes s n) = Some t" "t \<noteq> c" and c: "caller s c"
    and time: "time \<noteq> 0" "wait_time_ok time" and e: "err (threads s c) = 0"
    and flag: "obj_flag (objs s (O_Mutex n)) = flag" "flag = 0 \<or> flag = 1"
  obtains s' where "mutex_again n c time s = Some (Block time, s')"
    "blocked (L_mutex n) c flag (inherit (current_priority (threads s c)) t s) s'" "mutex_ok s' n"
proof -
  let ?s = "inherit (current_priority (threads s c)) t s"
  have M: "mutex_value (mutexes s n) = 0" "live s t" using ok o by (simp_all add: mutex_ok_def)
  note I = inherit_total [OF k c M(2) o(2)]
  obtain s' where s': "ipc_wait (L_mutex n) c flag time ?s = Some s'" "blocked (L_mutex n) c flag ?s s'"
    using wait_blocked [OF I(2) _ flag(2), of c "L_mutex n" time] c time e by (auto simp: inherit_same)
  have "mutex_again n c time s = Some (Block time, s')"
    using s' I(1) M(1) o flag time by (simp add: mutex_again_def)
  moreover have "mutex_ok s' n"
  proof -
    have "mutexes s' = mutexes s" "live s' t" "tq s' (L_mutex n) = enqueue flag ?s c (tq ?s (L_mutex n))"
      using s'(2) M(2) ipc_sameD(2) [of ?s s'] by (simp_all add: blocked_def inherit_same)
    then show ?thesis using ok o I(3) [of "L_mutex n"] by (simp add: mutex_ok_def)
  qed
  ultimately show thesis using that s' by blast
qed

text \<open>\<open>rt_mutex_take\<close> on every branch, for a mutex in a consistent state: a free mutex is
  taken and remembers the priority of its owner; the owner takes it once more; without a
  time the call returns \<open>- RT_ETIMEOUT\<close>; otherwise the caller waits and the owner runs at
  the priority of the caller when that is higher. The mutex stays consistent.\<close>

lemma mutex_take_total:
  assumes k: "kinv s" and ty: "otype s (O_Mutex n) = RT_Object_Class_Mutex" and c: "caller s c" and ok: "mutex_ok s n"
    and time: "wait_time_ok time" and flag: "obj_flag (objs s (O_Mutex n)) \<in> {RT_IPC_FLAG_FIFO, RT_IPC_FLAG_PRIO}"
    and nowrap: "hold (mutexes s n) < 255"
  defines "s1 \<equiv> upd_thread c (\<lambda>th. th\<lparr>err := RT_EOK\<rparr>) s" and "p \<equiv> current_priority (threads s c)"
  shows "\<exists>r s'. rt_mutex_take n time s = Some (r, s') \<and> kinv s' \<and> mutex_ok s' n \<and>
    (case owner (mutexes s n) of
       None \<Rightarrow> r = Done RT_EOK \<and>
         s' = upd_mutex n (\<lambda>m. m\<lparr>mutex_value := 0, owner := Some c, original_priority := p, hold := 1\<rparr>) s1
     | Some t \<Rightarrow>
         if t = c then r = Done RT_EOK \<and> s' = upd_mutex n (\<lambda>m. m\<lparr>hold := hold m + 1\<rparr>) s1
         else if time = 0
         then r = Done (- RT_ETIMEOUT) \<and> s' = upd_thread c (\<lambda>th. th\<lparr>err := - RT_ETIMEOUT\<rparr>) s1
         else r = Block time \<and> blocked (L_mutex n) c (obj_flag (objs s (O_Mutex n))) (inherit p t s1) s')"
proof -
  have k1: "kinv s1" unfolding s1_def by (rule upd_err_kinv [OF k])
  have s1: "mutexes s1 = mutexes s" "tq s1 = tq s" "objs s1 = objs s" "live s1 = live s" "caller s1 c" "err (threads s1 c) = 0"
      "\<And>u. current_priority (threads s1 u) = current_priority (threads s u)" "kinv s1"
    using c k1 by (simp_all add: s1_def)
  then have ok1: "mutex_ok s1 n" by (intro mutex_ok_cong [OF ok]) auto
  have take: "rt_mutex_take n time s =
      (if owner (mutexes s n) = Some c then Some (Done RT_EOK, upd_mutex n (\<lambda>m. m\<lparr>hold := hold m + 1\<rparr>) s1)
       else mutex_again n c time s1)"
    using ty c s1(1) unfolding s1_def
    by (simp add: rt_mutex_take_def get_type_otype caller_def in_thread_context_def rt_thread_self_def)
  have lc: "live s c" using c by (simp add: caller_def live_def)
  show ?thesis
  proof (cases "owner (mutexes s n)")
    case None
    have pl: "p < 32"
      using kcoreD(8) [OF kinvD(1) [OF k] _ lc] by (simp add: p_def prio_ok_def word_less_nat_alt)
    have m: "mutex_value (mutexes s n) = 1" "hold (mutexes s n) = 0" "tq s (L_mutex n) = []"
      using ok None by (simp_all add: mutex_ok_def)
    have "upd_mutex n (\<lambda>m. m\<lparr>mutex_value := mutex_value m - 1, owner := Some c, original_priority := p, hold := hold m + 1\<rparr>) s1 =
        upd_mutex n (\<lambda>m. m\<lparr>mutex_value := 0, owner := Some c, original_priority := p, hold := 1\<rparr>) s1"
      using m s1(1) by (simp add: upd_mutex_def)
    then have "mutex_again n c time s1 = Some (Done RT_EOK,
        upd_mutex n (\<lambda>m. m\<lparr>mutex_value := 0, owner := Some c, original_priority := p, hold := 1\<rparr>) s1)"
      using m(1) s1(1,7) by (simp add: mutex_again_def p_def)
    then show ?thesis using take None k1 s1 m lc pl by (simp add: mutex_ok_def)
  next
    case (Some t)
    show ?thesis
    proof (cases "t = c")
      case True
      have "0 < hold (mutexes s n) + 1"
        using nowrap unat_add_small [of "hold (mutexes s n)" 1] by (simp add: word_less_nat_alt)
      then show ?thesis using take Some True k1 s1 ok by (simp add: mutex_ok_def)
    next
      case ne: False
      have v: "mutex_value (mutexes s n) = 0" using ok Some by (simp add: mutex_ok_def)
      show ?thesis
      proof (cases "time = 0")
        case True
        then have "mutex_again n c time s1 = Some (Done (- 2), upd_thread c (\<lambda>th. th\<lparr>err := - 2\<rparr>) s1)"
          using v s1(1) by (simp add: mutex_again_def)
        then show ?thesis using take Some True ne upd_err_kinv [OF k1] mutex_ok_cong [OF ok1] by simp
      next
        case False
        obtain s' where "mutex_again n c time s1 = Some (Block time, s')" "mutex_ok s' n"
            "blocked (L_mutex n) c (obj_flag (objs s (O_Mutex n))) (inherit (current_priority (threads s1 c)) t s1) s'"
          using again_waits [OF k1 ok1 _ ne s1(5) False time s1(6), of "obj_flag (objs s (O_Mutex n))"] Some s1 flag by auto
        then show ?thesis using take Some ne False s1(7) by (simp add: blocked_def p_def)
      qed
    qed
  qed
qed

subsection \<open>Releasing\<close>

definition restore :: "u8 \<Rightarrow> tid \<Rightarrow> kernel \<Rightarrow> kernel" where
  "restore p t s = (if p \<noteq> current_priority (threads s t) then reprio p t s else s)"

lemma upd_mutex_twice [simp]: "upd_mutex n f (upd_mutex n g s) = upd_mutex n (\<lambda>m. f (g m)) s"
  by (simp add: upd_mutex_def)

lemma upd_mutex_eqI: "f (mutexes s n) = g (mutexes s n) \<Longrightarrow> upd_mutex n f s = upd_mutex n g s"
  by (simp add: upd_mutex_def)

lemma reprio_upd_mutex: "reprio p t (upd_mutex n f s) = upd_mutex n f (reprio p t s)"
  by (simp add: reprio_def mkready_def unready_def set_prio_def upd_mutex_def upd_thread_def set_tstat_def
      tlist_insert_before_def tlist_remove_def tstat_def)

lemma restore_simps [simp]:
  "restore p t (upd_mutex n f s) = upd_mutex n f (restore p t s)"
  "tstat (restore p t s) u = tstat s u" "rt_current_thread (restore p t s) = rt_current_thread s"
  "mutexes (restore p t s) = mutexes s" "objs (restore p t s) = objs s" "sems (restore p t s) = sems s"
  "err (threads (restore p t s) u) = err (threads s u)"
  "current_priority (threads (restore p t s) u) = (if u = t then p else current_priority (threads s u))"
  by (auto simp: restore_def reprio_upd_mutex)

lemma restore_total:
  assumes k: "kinv s" and c: "caller s c" and p: "p < 32"
  shows "(if p \<noteq> current_priority (threads s c)
      then map_option snd (rt_thread_control c (RT_THREAD_CTRL_CHANGE_PRIORITY p) s) else Some s) = Some (restore p c s)"
    and "kinv (restore p c s)" and "wait_head l \<Longrightarrow> tq (restore p c s) l = tq s l"
proof -
  have lc: "live s c" "tstat s c \<noteq> 1" using c by (simp_all add: caller_def live_def)
  show "(if p \<noteq> current_priority (threads s c)
      then map_option snd (rt_thread_control c (RT_THREAD_CTRL_CHANGE_PRIORITY p) s) else Some s) = Some (restore p c s)"
    using control_prio_eq [OF kinvD(1) [OF k] p lc(1)] lc(2) by (simp add: restore_def)
  show "kinv (restore p c s)" using reprio_kinv [OF k p lc(1)] k by (simp add: restore_def)
  show "tq (restore p c s) l = tq s l" if "wait_head l"
    using that reprio_wait_lists [OF kinvD(1) [OF k], of l p c] by (cases l) (auto simp: restore_def)
qed

lemma live_restore [simp]: "live (restore p t s) = live s" "otype (restore p t s) = otype s"
  by (simp_all add: live_def otype_def fun_eq_iff)

lemma release_last_eq:
  assumes k: "kinv s" and ty: "otype s (O_Mutex n) = 3" and c: "caller s c" and ok: "mutex_ok s n"
    and o: "owner (mutexes s n) = Some c" and h: "hold (mutexes s n) = 1"
  defines "s2 \<equiv> restore (original_priority (mutexes s n)) c s"
  shows "rt_mutex_release n s =
    (case tq s (L_mutex n) of
       t # _ \<Rightarrow> do {
         s4 \<leftarrow> rt_ipc_list_resume (L_mutex n)
           (upd_mutex n (\<lambda>m. m\<lparr>owner := Some t, original_priority := current_priority (threads s2 t), hold := 1\<rparr>) s2);
         s5 \<leftarrow> rt_schedule s4;
         Some (RT_EOK, s5) }
     | [] \<Rightarrow> Some (RT_EOK, upd_mutex n (\<lambda>m. m\<lparr>mutex_value := 1, owner := None, original_priority := 0xff, hold := 0\<rparr>) s2))"
proof -
  let ?s1 = "upd_mutex n (\<lambda>m. m\<lparr>hold := hold m - 1\<rparr>) s"
  have m: "mutex_value (mutexes s n) = 0" "original_priority (mutexes s n) < 32"
    using ok o by (simp_all add: mutex_ok_def)
  have c1: "caller ?s1 c" "kinv ?s1" using c k by (simp_all add: caller_def)
  note R = restore_total [OF c1(2,1) m(2)]
  have q: "tq s2 (L_mutex n) = tq s (L_mutex n)" "mutexes s2 = mutexes s"
    using restore_total(3) [OF k c m(2)] by (simp_all add: s2_def)
  have "upd_mutex n (\<lambda>m. m\<lparr>hold := hold m - 1, mutex_value := mutex_value m + 1, owner := None, original_priority := 255\<rparr>) s2 =
      upd_mutex n (\<lambda>m. m\<lparr>mutex_value := 1, owner := None, original_priority := 255, hold := 0\<rparr>) s2"
    "\<And>t p. upd_mutex n (\<lambda>m. m\<lparr>owner := Some t, original_priority := p, hold := hold m - 1 + 1\<rparr>) s2 =
      upd_mutex n (\<lambda>m. m\<lparr>owner := Some t, original_priority := p, hold := 1\<rparr>) s2"
    using m(1) h q(2) by (auto intro!: upd_mutex_eqI rt_mutex.equality)
  then show ?thesis
    using ty c o h R(1) q unfolding s2_def
    by (simp add: rt_mutex_release_def get_type_otype caller_def in_thread_context_def rt_thread_self_def Let_def
        split: list.splits split del: if_split cong: if_cong)
qed

lemma release_hands_over:
  assumes k: "kinv s" and ty: "otype s (O_Mutex n) = 3" and c: "caller s c" and ok: "mutex_ok s n"
    and o: "owner (mutexes s n) = Some c" and h: "hold (mutexes s n) = 1" and q: "tq s (L_mutex n) = t # ts"
  defines "s2 \<equiv> restore (original_priority (mutexes s n)) c s"
  defines "s3 \<equiv> upd_mutex n (\<lambda>m. m\<lparr>owner := Some t, original_priority := current_priority (threads s t), hold := 1\<rparr>) s2"
  shows "\<exists>s'. rt_mutex_release n s = Some (0, s') \<and> handed_over (L_mutex n) t s3 s' \<and> mutex_ok s' n"
proof -
  have m: "mutex_value (mutexes s n) = 0" "original_priority (mutexes s n) < 32" "c \<notin> set (tq s (L_mutex n))"
    using ok o by (simp_all add: mutex_ok_def)
  note R = restore_total [OF k c m(2), folded s2_def]
  have p: "current_priority (threads s2 t) = current_priority (threads s t)" using m(3) q by (auto simp: s2_def)
  have q3: "tq s3 (L_mutex n) = t # ts" and k3: "kinv s3" and c3: "rt_current_thread s3 = Some c"
    using R(2,3) q c by (simp_all add: s3_def s2_def caller_def)
  obtain s' where s': "rt_schedule (resumed t s3) = Some s'" "handed_over (L_mutex n) t s3 s'"
    using hand_over_total [OF k3 c3 _ q3] by auto
  have "rt_mutex_release n s = Some (0, s')"
    using release_last_eq [OF k ty c ok o h, folded s2_def] q s'(1) list_resume_eq(2) [OF k3 _ q3] p
    by (simp add: s3_def)
  moreover have "live s t" using kcoreD(5) [OF kinvD(1) [OF k], of t "L_mutex n"] q by (simp add: live_def)
  then have "current_priority (threads s t) < 32" "live s3 t"
    using kcoreD(8) [OF kinvD(1) [OF k], of t] by (simp_all add: prio_ok_def word_less_nat_alt s3_def s2_def)
  moreover have "t \<notin> set ts" using kcoreD(1) [OF kinvD(1) [OF k3]] q3 by (metis distinct.simps(2) tq_wf_def)
  moreover have "mutexes s' = mutexes s3" "tq s' (L_mutex n) = ts" "live s' t"
    using s'(2) q3 \<open>live s3 t\<close> ipc_sameD(2) [of s3 s'] by (simp_all add: handed_over_def)
  ultimately show ?thesis using m(1) s'(2) by (simp add: mutex_ok_def s3_def s2_def)
qed

text \<open>\<open>rt_mutex_release\<close> on every branch: a thread that does not own the mutex gets
  \<open>- RT_ERROR\<close> and the mutex is untouched; a nested hold is dropped; the last release gives
  the owner its original priority back and passes the mutex to the first waiter, who can
  run, or frees it. The mutex stays consistent.\<close>

lemma mutex_release_total:
  assumes k: "kinv s" and ty: "otype s (O_Mutex n) = RT_Object_Class_Mutex" and c: "caller s c" and ok: "mutex_ok s n"
  defines "s2 \<equiv> restore (original_priority (mutexes s n)) c s"
  shows "\<exists>r s'. rt_mutex_release n s = Some (r, s') \<and> kinv s' \<and> mutex_ok s' n \<and>
    (if owner (mutexes s n) \<noteq> Some c
     then r = - RT_ERROR \<and> s' = upd_thread c (\<lambda>th. th\<lparr>err := - RT_ERROR\<rparr>) s
     else r = RT_EOK \<and>
       (if hold (mutexes s n) \<noteq> 1 then s' = upd_mutex n (\<lambda>m. m\<lparr>hold := hold m - 1\<rparr>) s
        else case tq s (L_mutex n) of
          [] \<Rightarrow> s' = upd_mutex n (\<lambda>m. m\<lparr>mutex_value := 1, owner := None, original_priority := 0xff, hold := 0\<rparr>) s2
        | t # _ \<Rightarrow> handed_over (L_mutex n) t
            (upd_mutex n (\<lambda>m. m\<lparr>owner := Some t, original_priority := current_priority (threads s t), hold := 1\<rparr>) s2) s'))"
proof (cases "owner (mutexes s n) = Some c")
  case False
  have "mutex_ok (upd_thread c (\<lambda>th. th\<lparr>err := - 1\<rparr>) s) n" by (rule mutex_ok_cong [OF ok]) simp_all
  then show ?thesis
    using ty c False upd_err_kinv [OF k]
    by (simp add: rt_mutex_release_def get_type_otype caller_def in_thread_context_def rt_thread_self_def)
next
  case o: True
  have m: "mutex_value (mutexes s n) = 0" "0 < hold (mutexes s n)" "live s c" "original_priority (mutexes s n) < 32"
      "c \<notin> set (tq s (L_mutex n))" using ok o by (simp_all add: mutex_ok_def)
  show ?thesis
  proof (cases "hold (mutexes s n) = 1")
    case False
    then have "0 < hold (mutexes s n) - 1" using m(2) by (metis right_minus_eq word_neq_0_conv)
    then show ?thesis
      using False o ty c k m
      by (simp add: rt_mutex_release_def get_type_otype caller_def in_thread_context_def rt_thread_self_def mutex_ok_def)
  next
    case h: True
    show ?thesis
    proof (cases "tq s (L_mutex n)")
      case Nil
      then show ?thesis
        using release_last_eq [OF k ty c ok o h, folded s2_def] o h restore_total(2,3) [OF k c m(4), folded s2_def]
        by (simp add: mutex_ok_def)
    next
      case (Cons t ts)
      then show ?thesis
        using release_hands_over [OF k ty c ok o h Cons, folded s2_def] o h by (auto simp: handed_over_def)
    qed
  qed
qed

text \<open>C9: exclusion. While a thread owns the mutex, a take by another thread does not get it: with
  a time of zero it returns \<open>- RT_ETIMEOUT\<close> and only the caller's error is set; with another time
  the caller is suspended, at its place on the waiting list of the mutex, and the owner runs at
  least at the caller's priority. A release by another thread returns \<open>- RT_ERROR\<close>. None of them
  changes the mutex.\<close>

theorem mutex_exclusive:
  assumes k: "kinv s" and ty: "otype s (O_Mutex n) = RT_Object_Class_Mutex" and c: "caller s c" and ok: "mutex_ok s n"
    and o: "owner (mutexes s n) = Some t" "t \<noteq> c"
    and time: "wait_time_ok time" and flag: "obj_flag (objs s (O_Mutex n)) \<in> {RT_IPC_FLAG_FIFO, RT_IPC_FLAG_PRIO}"
  shows "\<exists>r s1 s2. rt_mutex_take n time s = Some (r, s1) \<and> mutexes s1 = mutexes s \<and>
    (if time = 0
     then r = Done (- RT_ETIMEOUT) \<and> s1 = upd_thread c (\<lambda>th. th\<lparr>err := - RT_ETIMEOUT\<rparr>) s
     else r = Block time \<and> tstat s1 c = RT_THREAD_SUSPEND \<and>
       tq s1 (L_mutex n) = enqueue (obj_flag (objs s (O_Mutex n))) s c (tq s (L_mutex n)) \<and>
       prio s1 t = min (prio s c) (prio s t)) \<and>
    rt_mutex_release n s = Some (- RT_ERROR, s2) \<and> mutexes s2 = mutexes s"
proof -
  let ?s = "upd_thread c (\<lambda>th. th\<lparr>err := 0\<rparr>) s"
  let ?i = "inherit (current_priority (threads ?s c)) t ?s"
  note k1 = upd_err_kinv [OF k, of c 0]
  have v: "mutex_value (mutexes s n) = 0" "t \<notin> set (tq s (L_mutex n))" "live s t" using ok o by (simp_all add: mutex_ok_def)
  have ok1: "mutex_ok ?s n" by (rule mutex_ok_cong [OF ok]) simp_all
  have take: "rt_mutex_take n time s = mutex_again n c time ?s"
    using ty c o by (simp add: rt_mutex_take_def get_type_otype caller_def in_thread_context_def rt_thread_self_def)
  have release: "rt_mutex_release n s = Some (- 1, upd_thread c (\<lambda>th. th\<lparr>err := - 1\<rparr>) s)"
    using ty c o by (simp add: rt_mutex_release_def get_type_otype caller_def in_thread_context_def rt_thread_self_def)
  show ?thesis
  proof (cases "time = 0")
    case True
    then have "rt_mutex_take n time s = Some (Done (- RT_ETIMEOUT), upd_thread c (\<lambda>th. th\<lparr>err := - RT_ETIMEOUT\<rparr>) s)"
      using take v(1) by (simp add: mutex_again_def upd_thread_def)
    then show ?thesis using release True by simp
  next
    case False
    obtain s1 where s1: "mutex_again n c time ?s = Some (Block time, s1)"
        "blocked (L_mutex n) c (obj_flag (objs s (O_Mutex n))) ?i s1"
      using again_waits [OF k1 ok1 _ o(2) _ False time _ refl] o(1) c flag by auto
    have q: "tq ?i (L_mutex n) = tq s (L_mutex n)"
      using inherit_total(3) [OF k1 _ _ o(2), of "L_mutex n"] c v(3) by simp
    have "enqueue (obj_flag (objs s (O_Mutex n))) ?i c (tq s (L_mutex n)) =
        enqueue (obj_flag (objs s (O_Mutex n))) s c (tq s (L_mutex n))"
      by (rule enqueue_cong) (use v(2) o(2) in auto)
    then have "tq s1 (L_mutex n) = enqueue (obj_flag (objs s (O_Mutex n))) s c (tq s (L_mutex n))"
      using s1(2) q by (simp add: blocked_def)
    moreover have "mutexes s1 = mutexes s" "tstat s1 c = 2" "current_priority (threads s1 t) = current_priority (threads ?i t)"
      using s1(2) ipc_sameD(2,12) by (auto simp: blocked_def)
    then have "mutexes s1 = mutexes s" "tstat s1 c = 2" "prio s1 t = min (prio s c) (prio s t)"
      by (auto simp: min_def word_le_nat_alt)
    ultimately show ?thesis using take release s1(1) False by simp
  qed
qed

text \<open>No unbounded priority inversion at one mutex: when a thread starts to wait, the owner
  runs at least at the priority of the waiter, and every other priority is unchanged.\<close>

lemma mutex_inherits:
  assumes k: "kinv s" and ty: "otype s (O_Mutex n) = RT_Object_Class_Mutex" and c: "caller s c" and ok: "mutex_ok s n"
    and o: "owner (mutexes s n) = Some t" "t \<noteq> c" and time: "time \<noteq> 0" "wait_time_ok time"
    and flag: "obj_flag (objs s (O_Mutex n)) \<in> {RT_IPC_FLAG_FIFO, RT_IPC_FLAG_PRIO}"
  shows "\<exists>s'. rt_mutex_take n time s = Some (Block time, s') \<and> c \<in> set (tq s' (L_mutex n)) \<and>
    prio s' t = min (prio s c) (prio s t) \<and> (\<forall>u. u \<noteq> t \<longrightarrow> prio s' u = prio s u)"
proof -
  let ?s = "upd_thread c (\<lambda>th. th\<lparr>err := 0\<rparr>) s"
  let ?i = "inherit (current_priority (threads ?s c)) t ?s"
  have ok1: "mutex_ok ?s n" by (rule mutex_ok_cong [OF ok]) simp_all
  obtain s1 where s1: "mutex_again n c time ?s = Some (Block time, s1)"
      "blocked (L_mutex n) c (obj_flag (objs s (O_Mutex n))) ?i s1"
    using again_waits [OF upd_err_kinv [OF k] ok1 _ o(2) _ time _ refl] o(1) c flag by auto
  have "rt_mutex_take n time s = mutex_again n c time ?s"
    using ty c o by (simp add: rt_mutex_take_def get_type_otype caller_def in_thread_context_def rt_thread_self_def)
  moreover have "current_priority (threads s1 u) = current_priority (threads ?i u)" for u
    using s1(2) ipc_sameD(12) by (auto simp: blocked_def)
  then have "prio s1 t = min (prio s c) (prio s t)" "\<forall>u. u \<noteq> t \<longrightarrow> prio s1 u = prio s u"
    by (auto simp: min_def word_le_nat_alt)
  ultimately show ?thesis using s1 by (simp add: blocked_def)
qed

text \<open>C10: the last release hands the mutex over: the first waiter owns it with one hold, its
  blocked take returns success without another step, and the releasing thread is back at
  the priority it had when it took the mutex.\<close>

theorem mutex_hands_over:
  assumes k: "kinv s" and w: "waiters_ok s" and ty: "otype s (O_Mutex n) = RT_Object_Class_Mutex" and c: "caller s c"
    and ok: "mutex_ok s n" and o: "owner (mutexes s n) = Some c" "hold (mutexes s n) = 1"
    and q: "tq s (L_mutex n) = t # ts"
  shows "\<exists>s'. rt_mutex_release n s = Some (RT_EOK, s') \<and> owner (mutexes s' n) = Some t \<and> hold (mutexes s' n) = 1 \<and>
    tq s' (L_mutex n) = ts \<and> (tstat s' t = RT_THREAD_READY \<or> tstat s' t = RT_THREAD_RUNNING) \<and>
    rt_mutex_take_wake n t time s' = Some (Done RT_EOK, s') \<and>
    current_priority (threads s' c) = original_priority (mutexes s n)"
proof -
  let ?s3 = "upd_mutex n (\<lambda>m. m\<lparr>owner := Some t, original_priority := current_priority (threads s t), hold := 1\<rparr>)
    (restore (original_priority (mutexes s n)) c s)"
  obtain s' where s': "rt_mutex_release n s = Some (0, s')" "handed_over (L_mutex n) t ?s3 s'"
    using release_hands_over [OF k ty c ok o q] by blast
  note S = ipc_sameD [of ?s3 s']
  have "err (threads s t) = 0" using w q unfolding waiters_ok_def by (metis list.set_intros(1) wait_head.simps(4))
  then have "err (threads s' t) = 0" using s'(2) by (simp add: handed_over_def)
  moreover have "tq ?s3 (L_mutex n) = t # ts"
    using restore_total(3) [OF k c, of "original_priority (mutexes s n)" "L_mutex n"] ok o q by (simp add: mutex_ok_def)
  moreover have "mutexes s' n = mutexes ?s3 n" "current_priority (threads s' c) = current_priority (threads ?s3 c)"
    using s'(2) S(2,12) by (simp_all add: handed_over_def)
  ultimately show ?thesis using s' by (simp add: handed_over_def rt_mutex_take_wake_def)
qed

subsection \<open>Examples\<close>

lemma kex_mutex [simp]:
  "mutexes kex 0 = \<lparr>mutex_value = 0, original_priority = 10, hold = 1, owner = Some 1\<rparr>"
  "mutexes kex (Suc 0) = \<lparr>mutex_value = 1, original_priority = 255, hold = 0, owner = None\<rparr>"
  "mutexes kex 2 = \<lparr>mutex_value = 0, original_priority = 20, hold = 1, owner = Some 3\<rparr>"
  "obj_flag (objs kex (O_Mutex n)) = 1"
  by (simp_all add: kex_def)

lemma kex_mutex_ok: "mutex_ok kex 0" "mutex_ok kex 2"
  by (simp_all add: mutex_ok_def live_def kex_stat)

theorem mutex_exclusive_witness:
  "(\<exists>s1. rt_mutex_take 2 0 kex = Some (Done (- 2), s1) \<and> mutexes s1 = mutexes kex) \<and>
   (\<exists>s1. rt_mutex_take 2 50 kex = Some (Block 50, s1) \<and> 1 \<in> set (tq s1 (L_mutex 2)) \<and> prio s1 3 = 9) \<and>
   (\<exists>s2. rt_mutex_release 2 kex = Some (- 1, s2) \<and> mutexes s2 = mutexes kex)"
proof -
  have "wait_time_ok 0" "wait_time_ok 50" by (simp_all add: wait_time_ok_def)
  then show ?thesis
    using mutex_exclusive [OF kex_kinv _ kex_caller kex_mutex_ok(2), of 3 0]
      mutex_exclusive [OF kex_kinv _ kex_caller kex_mutex_ok(2), of 3 50] kex_prio [of 1] kex_prio [of 3] by auto
qed

lemma mutex_inherits_witness: "\<exists>s'. rt_mutex_take 2 50 kex = Some (Block 50, s') \<and> prio s' 3 = 9"
proof -
  have "wait_time_ok 50" by (simp add: wait_time_ok_def)
  then show ?thesis
    using mutex_inherits [OF kex_kinv _ kex_caller kex_mutex_ok(2), of 3 50] kex_prio [of 1] kex_prio [of 3] by auto
qed

theorem mutex_hands_over_witness:
  "\<exists>s'. rt_mutex_release 0 kex = Some (0, s') \<and> owner (mutexes s' 0) = Some 6 \<and> current_priority (threads s' 1) = 10"
  using mutex_hands_over [OF kex_kinv kex_waiters _ kex_caller kex_mutex_ok(1), of 6 "[]"] by auto

end
