(* ===== verification/Event.thy ===== *)
theory Event
  imports Example_State
begin

text \<open>
  The event set of \<open>src/ipc.c\<close>: 32 flags; a thread waits for all or for any of a subset and may
  consume what it receives. \<open>rt_event_send\<close> scans the waiters in order; the theory relates the
  scan to a function on the flags alone (\<open>scan\<close>) and shows that no thread is left waiting for
  flags that are set.
\<close>

subsection \<open>Operations\<close>

definition set_event :: "nat \<Rightarrow> u32 \<Rightarrow> kernel \<Rightarrow> kernel" where
  "set_event n v s = s\<lparr>events := (events s)(n := (events s n)\<lparr>ev_set := v\<rparr>)\<rparr>"

definition rt_event_init :: "nat \<Rightarrow> string \<Rightarrow> u8 \<Rightarrow> kernel \<Rightarrow> (rt_err_t \<times> kernel) option" where
  "rt_event_init n nm flag s = do {
     s1 \<leftarrow> rt_object_init (O_Event n) RT_Object_Class_Event nm s;
     let s2 = upd_obj (O_Event n) (\<lambda>ob. ob\<lparr>obj_flag := flag\<rparr>) s1;
     Some (RT_EOK, set_event n 0 (rt_ipc_object_init (L_event n) s2))
   }"

definition rt_event_detach :: "nat \<Rightarrow> kernel \<Rightarrow> (rt_err_t \<times> kernel) option" where
  "rt_event_detach n s = do {
     rt_assert (rt_object_get_type (O_Event n) s = RT_Object_Class_Event);
     rt_assert (rt_object_is_systemobject (O_Event n) s);
     s1 \<leftarrow> rt_ipc_list_resume_all (L_event n) s;
     Some (RT_EOK, rt_object_detach (O_Event n) s1)
   }"

definition rt_event_create :: "nat option \<Rightarrow> string \<Rightarrow> u8 \<Rightarrow> kernel \<Rightarrow> (nat option \<times> kernel) option" where
  "rt_event_create fresh nm flag s = do {
     rt_assert (rt_interrupt_nest s = 0);
     (_, s1) \<leftarrow> rt_object_allocate (map_option O_Event fresh) RT_Object_Class_Event nm s;
     case fresh of
       None \<Rightarrow> Some (None, s1)
     | Some n \<Rightarrow>
         let s2 = upd_obj (O_Event n) (\<lambda>ob. ob\<lparr>obj_flag := flag\<rparr>) s1 in
         Some (Some n, set_event n 0 (rt_ipc_object_init (L_event n) s2))
   }"

definition rt_event_delete :: "nat \<Rightarrow> kernel \<Rightarrow> (rt_err_t \<times> kernel) option" where
  "rt_event_delete n s = do {
     rt_assert (rt_object_get_type (O_Event n) s = RT_Object_Class_Event);
     rt_assert (\<not> rt_object_is_systemobject (O_Event n) s);
     rt_assert (rt_interrupt_nest s = 0);
     s1 \<leftarrow> rt_ipc_list_resume_all (L_event n) s;
     s2 \<leftarrow> rt_object_delete (O_Event n) s1;
     Some (RT_EOK, s2)
   }"

text \<open>The test of one waiter in \<open>rt_event_send\<close>; a waiter for any flag saves the flags it gets.\<close>

definition event_check :: "u32 \<Rightarrow> tid \<Rightarrow> kernel \<Rightarrow> rt_err_t \<times> kernel" where
  "event_check ev t s =
     (let th = threads s t in
      if event_info th AND RT_EVENT_FLAG_AND \<noteq> 0
      then if event_set th AND ev = event_set th then (RT_EOK, s) else (- RT_ERROR, s)
      else if event_info th AND RT_EVENT_FLAG_OR \<noteq> 0
      then if event_set th AND ev \<noteq> 0
           then (RT_EOK, upd_thread t (\<lambda>th. th\<lparr>event_set := event_set th AND ev\<rparr>) s)
           else (- RT_ERROR, s)
      else (- RT_ERROR, s))"

text \<open>The loop of \<open>rt_event_send\<close>. The next node is read before the thread is resumed, so it
  walks the list as it was when the loop began.\<close>

fun event_send_loop :: "nat \<Rightarrow> tid list \<Rightarrow> bool \<Rightarrow> kernel \<Rightarrow> (bool \<times> kernel) option" where
  "event_send_loop n [] need_schedule s = Some (need_schedule, s)"
| "event_send_loop n (t # ts) need_schedule s =
     (let (status, s1) = event_check (ev_set (events s n)) t s in
      if status = RT_EOK
      then do {
        let s2 = (if event_info (threads s1 t) AND RT_EVENT_FLAG_CLEAR \<noteq> 0
                  then set_event n (ev_set (events s1 n) AND NOT (event_set (threads s1 t))) s1 else s1);
        (_, s3) \<leftarrow> rt_thread_resume t s2;
        event_send_loop n ts True s3
      }
      else event_send_loop n ts need_schedule s1)"

definition rt_event_send :: "nat \<Rightarrow> u32 \<Rightarrow> kernel \<Rightarrow> (rt_err_t \<times> kernel) option" where
  "rt_event_send n st s = do {
     rt_assert (rt_object_get_type (O_Event n) s = RT_Object_Class_Event);
     if st = 0 then Some (- RT_ERROR, s)
     else do {
       let s1 = set_event n (ev_set (events s n) OR st) s;
       (need_schedule, s2) \<leftarrow> (if \<not> tlist_isempty (L_event n) s1
          then event_send_loop n (tq s1 (L_event n)) False s1 else Some (False, s1));
       s3 \<leftarrow> (if need_schedule then rt_schedule s2 else Some s2);
       Some (RT_EOK, s3)
     }
   }"

text \<open>The second component of the result is what is stored in \<open>recved\<close>.\<close>

definition rt_event_recv ::
  "nat \<Rightarrow> u32 \<Rightarrow> u8 \<Rightarrow> u32 \<Rightarrow> kernel \<Rightarrow> (unit outcome \<times> u32 option \<times> kernel) option" where
  "rt_event_recv n st opt timeout s = do {
     rt_assert (in_thread_context s);
     rt_assert (rt_object_get_type (O_Event n) s = RT_Object_Class_Event);
     if st = 0 then Some (Done (- RT_ERROR), None, s)
     else do {
       thread \<leftarrow> rt_thread_self s;
       let s1 = upd_thread thread (\<lambda>th. th\<lparr>err := RT_EOK\<rparr>) s;
       let ev = ev_set (events s1 n);
       status \<leftarrow> (if opt AND RT_EVENT_FLAG_AND \<noteq> 0
                  then Some (if ev AND st = st then RT_EOK else - RT_ERROR)
                  else if opt AND RT_EVENT_FLAG_OR \<noteq> 0
                  then Some (if ev AND st \<noteq> 0 then RT_EOK else - RT_ERROR)
                  else None);
       if status = RT_EOK
       then Some (Done RT_EOK, Some (ev AND st),
              if opt AND RT_EVENT_FLAG_CLEAR \<noteq> 0 then set_event n (ev AND NOT st) s1 else s1)
       else if timeout = 0
       then Some (Done (- RT_ETIMEOUT), None, upd_thread thread (\<lambda>th. th\<lparr>err := - RT_ETIMEOUT\<rparr>) s1)
       else do {
         let s2 = upd_thread thread (\<lambda>th. th\<lparr>event_set := st, event_info := opt\<rparr>) s1;
         s3 \<leftarrow> ipc_wait (L_event n) thread (obj_flag (objs s (O_Event n))) timeout s2;
         Some (Block (), None, s3)
       }
     }
   }"

definition rt_event_recv_wake :: "tid \<Rightarrow> kernel \<Rightarrow> rt_err_t \<times> u32 option" where
  "rt_event_recv_wake thread s =
     (if err (threads s thread) \<noteq> RT_EOK then (err (threads s thread), None)
      else (err (threads s thread), Some (event_set (threads s thread))))"

definition rt_event_control :: "nat \<Rightarrow> int \<Rightarrow> kernel \<Rightarrow> (rt_err_t \<times> kernel) option" where
  "rt_event_control n cmd s = do {
     rt_assert (rt_object_get_type (O_Event n) s = RT_Object_Class_Event);
     if cmd = RT_IPC_CMD_RESET
     then do {
       s1 \<leftarrow> rt_ipc_list_resume_all (L_event n) s;
       s2 \<leftarrow> rt_schedule (set_event n 0 s1);
       Some (RT_EOK, s2)
     }
     else Some (- RT_ERROR, s)
   }"

subsection \<open>Frame\<close>

lemma set_event_frame [simp]:
  "threads (set_event n v s) = threads s" "tq (set_event n v s) = tq s"
  "rt_thread_ready_priority_group (set_event n v s) = rt_thread_ready_priority_group s"
  "rt_scheduler_lock_nest (set_event n v s) = rt_scheduler_lock_nest s"
  "rt_current_thread (set_event n v s) = rt_current_thread s"
  "rt_interrupt_nest (set_event n v s) = rt_interrupt_nest s" "rt_tick (set_event n v s) = rt_tick s"
  "objs (set_event n v s) = objs s" "object_list (set_event n v s) = object_list s"
  "timers (set_event n v s) = timers s" "rt_timer_list (set_event n v s) = rt_timer_list s"
  "sems (set_event n v s) = sems s" "mutexes (set_event n v s) = mutexes s"
  "mailboxes (set_event n v s) = mailboxes s" "mqs (set_event n v s) = mqs s"
  "mempools (set_event n v s) = mempools s"
  "ev_set (events (set_event n v s) m) = (if m = n then v else ev_set (events s m))"
  "m \<noteq> n \<Longrightarrow> events (set_event n v s) m = events s m"
  by (simp_all add: set_event_def)

lemma set_event_kinv [simp]: "kinv (set_event n v s) = kinv s"
proof
  show "kinv s" if "kinv (set_event n v s)" by (rule kinv_cong [OF that]) simp_all
  show "kinv (set_event n v s)" if "kinv s" by (rule kinv_cong [OF that]) simp_all
qed

lemma set_event_other [simp]:
  "otype (set_event n v s) = otype s" "tstat (set_event n v s) = tstat s" "live (set_event n v s) = live s"
  by (simp_all add: otype_def tstat_def live_def fun_eq_iff)

lemma upd_eset_simps [simp]:
  "tstat (upd_thread t (\<lambda>th. th\<lparr>event_set := f th\<rparr>) s) u = tstat s u"
  "tstat (upd_thread t (\<lambda>th. th\<lparr>event_set := v, event_info := w\<rparr>) s) u = tstat s u"
  by (simp_all add: tstat_def)

lemma upd_eset_kinv:
  "kinv s \<Longrightarrow> kinv (upd_thread t (\<lambda>th. th\<lparr>event_set := f th\<rparr>) s)"
  "kinv s \<Longrightarrow> kinv (upd_thread t (\<lambda>th. th\<lparr>event_set := v, event_info := w\<rparr>) s)"
  by (erule kinv_cong; simp add: stack_ok_def)+

subsection \<open>The scan of the waiters\<close>

text \<open>What a thread waits for, as a predicate on the flags, and the flags it gets.\<close>

definition satisfied :: "rt_thread \<Rightarrow> u32 \<Rightarrow> bool" where
  "satisfied th ev \<longleftrightarrow>
     (if event_info th AND RT_EVENT_FLAG_AND \<noteq> 0 then event_set th AND ev = event_set th
      else event_info th AND RT_EVENT_FLAG_OR \<noteq> 0 \<and> event_set th AND ev \<noteq> 0)"

definition received :: "rt_thread \<Rightarrow> u32 \<Rightarrow> u32" where
  "received th ev = event_set th AND ev"

definition consume :: "rt_thread \<Rightarrow> u32 \<Rightarrow> u32" where
  "consume th ev = (if event_info th AND RT_EVENT_FLAG_CLEAR \<noteq> 0 then ev AND NOT (received th ev) else ev)"

text \<open>The waiters that are served, each with the flags it gets, and the flags left.\<close>

fun scan :: "(tid \<Rightarrow> rt_thread) \<Rightarrow> u32 \<Rightarrow> tid list \<Rightarrow> (tid \<times> u32) list \<times> u32" where
  "scan th ev [] = ([], ev)"
| "scan th ev (t # ts) =
     (if satisfied (th t) ev
      then let (w, e) = scan th (consume (th t) ev) ts in ((t, received (th t) ev) # w, e)
      else scan th ev ts)"

lemma scan_cong:
  "(\<And>t. t \<in> set ts \<Longrightarrow> event_set (f t) = event_set (g t) \<and> event_info (f t) = event_info (g t)) \<Longrightarrow>
   scan f ev ts = scan g ev ts"
  by (induction ts arbitrary: ev) (auto simp: satisfied_def received_def consume_def split: prod.splits)

lemma scan_members: "scan th ev ts = (w, e) \<Longrightarrow> fst ` set w \<subseteq> set ts"
  by (induction ts arbitrary: ev w) (fastforce split: if_splits prod.splits)+

lemma consume_le: "consume th ev AND NOT ev = 0"
  by (rule bit_word_eqI) (auto simp: consume_def bit_simps)

lemma satisfied_mono:
  assumes "satisfied th e" "e AND NOT ev = 0"
  shows "satisfied th ev"
proof -
  have b: "bit ev i" if "bit e i" for i
    using assms(2) that bit_imp_le_length [OF that] by (auto simp: bit_eq_iff bit_simps)
  show ?thesis
    using assms(1) b unfolding satisfied_def by (auto simp: bit_eq_iff bit_simps split: if_splits)
qed

lemma scan_left:
  assumes "scan th ev ts = (w, e)"
  shows "e AND NOT ev = 0 \<and> (\<forall>t \<in> set ts. t \<notin> fst ` set w \<longrightarrow> \<not> satisfied (th t) e)"
  using assms
proof (induction ts arbitrary: ev w)
  case (Cons t ts)
  show ?case
  proof (cases "satisfied (th t) ev")
    case True
    then obtain w' where w: "w = (t, received (th t) ev) # w'" "scan th (consume (th t) ev) ts = (w', e)"
      using Cons.prems by (auto split: prod.splits)
    have "e AND NOT ev = 0"
      using Cons.IH [OF w(2)] consume_le [of "th t" ev]
      by (auto simp: bit_eq_iff bit_simps)
    then show ?thesis using Cons.IH [OF w(2)] w(1) by auto
  next
    case False
    then have s: "scan th ev ts = (w, e)" using Cons.prems by simp
    then have "\<not> satisfied (th t) e" using False Cons.IH satisfied_mono by blast
    then show ?thesis using Cons.IH [OF s] by auto
  qed
qed simp

definition event_rest :: "nat \<Rightarrow> kernel \<Rightarrow> kernel \<Rightarrow> bool" where
  "event_rest n s s' \<longleftrightarrow>
     sems s' = sems s \<and> mutexes s' = mutexes s \<and> mailboxes s' = mailboxes s \<and> mqs s' = mqs s \<and>
     mempools s' = mempools s \<and> rt_tick s' = rt_tick s \<and> rt_interrupt_nest s' = rt_interrupt_nest s \<and>
     (\<forall>m. m \<noteq> n \<longrightarrow> events s' m = events s m) \<and> (\<forall>j. obj_type (objs s' j) = obj_type (objs s j)) \<and>
     (\<forall>i. timeout_func (timers s' i) = timeout_func (timers s i)) \<and>
     (\<forall>u. current_priority (threads s' u) = current_priority (threads s u) \<and>
          event_info (threads s' u) = event_info (threads s u) \<and> err (threads s' u) = err (threads s u)) \<and>
     (\<forall>l. wait_head l \<longrightarrow> l \<noteq> L_event n \<longrightarrow> tq s' l = tq s l)"

lemma event_rest_trans: "event_rest n s1 s2 \<Longrightarrow> event_rest n s2 s3 \<Longrightarrow> event_rest n s1 s3"
  by (simp add: event_rest_def)

text \<open>The effect of serving the waiters \<open>w\<close> with \<open>e\<close> left.\<close>

definition served :: "nat \<Rightarrow> (tid \<times> u32) list \<Rightarrow> u32 \<Rightarrow> kernel \<Rightarrow> kernel \<Rightarrow> bool" where
  "served n w e s s' \<longleftrightarrow>
     kinv s' \<and> event_rest n s s' \<and> ev_set (events s' n) = e \<and>
     tq s' (L_event n) = filter (\<lambda>t. t \<notin> fst ` set w) (tq s (L_event n)) \<and>
     (\<forall>(t, g) \<in> set w. event_set (threads s' t) = g \<and> (tstat s' t = RT_THREAD_READY \<or> tstat s' t = RT_THREAD_RUNNING)) \<and>
     (\<forall>t. t \<notin> fst ` set w \<longrightarrow> event_set (threads s' t) = event_set (threads s t) \<and>
          (tstat s t \<in> {RT_THREAD_READY, RT_THREAD_RUNNING} \<longrightarrow> tstat s' t \<in> {RT_THREAD_READY, RT_THREAD_RUNNING}) \<and>
          (tstat s t = RT_THREAD_SUSPEND \<longrightarrow> tstat s' t = RT_THREAD_SUSPEND))"

lemma serve_one:
  assumes k: "kinv s" and t: "t \<in> set (tq s (L_event n))" and sat: "satisfied (threads s t) (ev_set (events s n))"
  obtains s3 where "event_send_loop n (t # ts) b s = event_send_loop n ts True s3"
    "served n [(t, received (threads s t) (ev_set (events s n)))] (consume (threads s t) (ev_set (events s n))) s s3"
    "rt_current_thread s3 = rt_current_thread s" "\<And>u. u \<noteq> t \<Longrightarrow> tstat s3 u = tstat s u"
proof -
  let ?ev = "ev_set (events s n)"
  define s1 where "s1 = snd (event_check ?ev t s)"
  have chk: "event_check ?ev t s = (0, s1)" and g: "event_set (threads s1 t) = received (threads s t) ?ev"
      and k1: "kinv s1" and id: "s1 = s \<or> s1 = upd_thread t (\<lambda>th. th\<lparr>event_set := event_set th AND ?ev\<rparr>) s"
    using sat k upd_eset_kinv(1) [OF k] unfolding satisfied_def s1_def
    by (auto simp: event_check_def Let_def received_def split: if_splits)
  define s2 where "s2 = (if event_info (threads s1 t) AND 4 \<noteq> 0
      then set_event n (ev_set (events s1 n) AND NOT (event_set (threads s1 t))) s1 else s1)"
  have ev2: "ev_set (events s2 n) = consume (threads s t) ?ev"
    using id g by (auto simp: s2_def consume_def)
  have k2: "kinv s2" using k1 by (simp add: s2_def)
  have wh: "wait_head (L_event n)" by simp
  have f2: "tq s2 = tq s" "rt_current_thread s2 = rt_current_thread s" "\<And>u. tstat s2 u = tstat s u"
    using id by (auto simp: s2_def)
  have st: "tstat s2 t = 2" using kcoreD(5) [OF kinvD(1) [OF k] t wh] f2 by simp
  have r: "rt_thread_resume t s2 = Some (0, resumed t s2)" by (rule resume_eq [OF kinvD(1) [OF k2] st])
  have loop: "event_send_loop n (t # ts) b s = event_send_loop n ts True (resumed t s2)"
    using chk r by (simp add: s2_def Let_def)
  have other: "removeAll t (tq s l) = tq s l" if "wait_head l" "l \<noteq> L_event n" for l
    using kcoreD(1) [OF kinvD(1) [OF k]] t that unfolding tq_wf_def by (intro removeAll_id) blast
  have nr: "l \<noteq> L_ready p" if "wait_head l" for l p using that by (cases l) auto
  have rest: "event_rest n s (resumed t s2)"
    using id other nr f2(1) unfolding event_rest_def s2_def by (auto simp: set_event_def)
  have es: "event_set (threads s2 u) = (if u = t then received (threads s t) ?ev else event_set (threads s u))" for u
    using id g by (auto simp: s2_def)
  have "served n [(t, received (threads s t) ?ev)] (consume (threads s t) ?ev) s (resumed t s2)"
    unfolding served_def using resumed_kinv [OF k2 st] rest ev2 f2 es
    by (auto simp: removeAll_filter_not_eq intro!: filter_cong)
  then show thesis using loop that f2 by simp
qed

lemma event_loop_total:
  assumes "kinv s" "set ts \<subseteq> set (tq s (L_event n))" "distinct ts" "scan (threads s) (ev_set (events s n)) ts = (w, e)"
  shows "\<exists>s'. event_send_loop n ts b s = Some (b \<or> w \<noteq> [], s') \<and> served n w e s s' \<and>
    rt_current_thread s' = rt_current_thread s"
  using assms
proof (induction ts arbitrary: s b w)
  case Nil
  then show ?case by (auto simp: served_def event_rest_def)
next
  case (Cons t ts)
  let ?ev = "ev_set (events s n)"
  show ?case
  proof (cases "satisfied (threads s t) ?ev")
    case False
    then have "event_send_loop n (t # ts) b s = event_send_loop n ts b s"
      by (auto simp: event_check_def satisfied_def Let_def split: if_splits)
    then show ?thesis using Cons.IH [OF Cons.prems(1)] Cons.prems False by simp
  next
    case True
    let ?g = "received (threads s t) ?ev" and ?c = "consume (threads s t) ?ev"
    obtain s3 where s3: "event_send_loop n (t # ts) b s = event_send_loop n ts True s3" "served n [(t, ?g)] ?c s s3"
        "rt_current_thread s3 = rt_current_thread s" "\<And>u. u \<noteq> t \<Longrightarrow> tstat s3 u = tstat s u"
      using serve_one [OF Cons.prems(1) _ True] Cons.prems(2) by (metis list.set_intros(1) subsetD)
    obtain w' where w: "w = (t, ?g) # w'" "scan (threads s) ?c ts = (w', e)"
      using Cons.prems(4) True by (auto split: prod.splits)
    have "scan (threads s3) ?c ts = scan (threads s) ?c ts"
      using s3(2) Cons.prems(3) by (intro scan_cong) (auto simp: served_def event_rest_def)
    moreover have "ev_set (events s3 n) = ?c" "kinv s3" "set ts \<subseteq> set (tq s3 (L_event n))"
      using s3(2) Cons.prems(2,3) by (auto simp: served_def)
    ultimately obtain s' where s': "event_send_loop n ts True s3 = Some (True, s')" "served n w' e s3 s'"
        "rt_current_thread s' = rt_current_thread s3"
      using Cons.IH [of s3 w' True] w(2) Cons.prems(3) by auto
    have tw: "t \<notin> fst ` set w'" using scan_members [OF w(2)] Cons.prems(3) by auto
    have "served n w e s s'"
      using s'(2) s3(2) event_rest_trans [of n s s3 s'] tw unfolding served_def w(1)
      by (auto split: prod.splits)
    then show ?thesis using s3(1,3) s' w(1) by simp
  qed
qed

lemma served_schedule:
  assumes sv: "served n w e s s1" and c: "rt_current_thread s1 = Some c" and r: "rt_schedule s1 = Some s'"
  shows "served n w e s s'"
proof -
  have k: "kinv s1" using sv by (simp add: served_def)
  note F = rt_schedule_frame [OF k c r]
  note St = rt_schedule_stat(1) [OF k c r] rt_schedule_runnable [OF k c r]
  have k': "kinv s'" using rt_schedule_total [OF k c] r by auto
  have q: "tq s' l = tq s1 l" if "wait_head l" for l
    using that rt_schedule_wait_lists [OF k c r, of l] by (cases l) auto
  have "event_rest n s1 s'" using F q by (simp add: event_rest_def)
  then have "event_rest n s s'" using sv event_rest_trans by (auto simp: served_def)
  then show ?thesis using sv k' q F(10,24) St unfolding served_def by (auto split: prod.splits)
qed

lemma send_total:
  assumes k: "kinv s" and ty: "otype s (O_Event n) = 4" and c: "rt_current_thread s = Some c" and st: "st \<noteq> 0"
    and sc: "scan (threads s) (ev_set (events s n) OR st) (tq s (L_event n)) = (w, e)"
  shows "\<exists>s'. rt_event_send n st s = Some (0, s') \<and> served n w e s s' \<and> rt_current_thread s' \<noteq> None"
proof -
  let ?s1 = "set_event n (ev_set (events s n) OR st) s"
  have k1: "kinv ?s1" using k by simp
  have "distinct (tq ?s1 (L_event n))" using kcoreD(1) [OF kinvD(1) [OF k1]] by (simp only: tq_wf_def)
  then obtain s2 where s2: "event_send_loop n (tq s (L_event n)) False ?s1 = Some (w \<noteq> [], s2)" "served n w e ?s1 s2"
      "rt_current_thread s2 = Some c"
    using event_loop_total [OF k1, of "tq s (L_event n)" n w e False] sc c by auto
  then have sv: "served n w e s s2" by (simp add: served_def event_rest_def)
  have "tq s (L_event n) = [] \<Longrightarrow> s2 = ?s1 \<and> w = []" using s2(1) sc by auto
  then have l: "(if \<not> tlist_isempty (L_event n) ?s1 then event_send_loop n (tq ?s1 (L_event n)) False ?s1
      else Some (False, ?s1)) = Some (w \<noteq> [], s2)" using s2(1) by (auto simp: tlist_isempty_def)
  obtain s' where s': "rt_schedule s2 = Some s'" "rt_current_thread s' \<noteq> None"
    using rt_schedule_total [OF _ s2(3)] s2(2) by (auto simp: served_def)
  let ?r = "if w \<noteq> [] then s' else s2"
  have "rt_event_send n st s = Some (0, ?r)"
    using ty st l s' by (simp add: rt_event_send_def get_type_otype Let_def)
  then show ?thesis using sv served_schedule [OF sv s2(3) s'(1)] s'(2) s2(3) by auto
qed

subsection \<open>Correctness\<close>

text \<open>No waiter waits for flags that are set.\<close>

definition event_ok :: "kernel \<Rightarrow> nat \<Rightarrow> bool" where
  "event_ok s n \<longleftrightarrow> (\<forall>t \<in> set (tq s (L_event n)). \<not> satisfied (threads s t) (ev_set (events s n)))"

lemma satisfied_cong:
  "event_set th = event_set th' \<Longrightarrow> event_info th = event_info th' \<Longrightarrow> satisfied th ev = satisfied th' ev"
  by (simp add: satisfied_def)

lemma served_event_ok:
  assumes sv: "served n w e s s'" and sc: "scan (threads s) ev (tq s (L_event n)) = (w, e)"
  shows "event_ok s' n"
  unfolding event_ok_def
proof
  fix t assume "t \<in> set (tq s' (L_event n))"
  then have t: "t \<in> set (tq s (L_event n))" "t \<notin> fst ` set w" using sv by (auto simp: served_def)
  then have "\<not> satisfied (threads s t) e" using scan_left [OF sc] by blast
  moreover have "event_set (threads s' t) = event_set (threads s t)" "event_info (threads s' t) = event_info (threads s t)"
    using sv t(2) by (auto simp: served_def event_rest_def)
  ultimately show "\<not> satisfied (threads s' t) (ev_set (events s' n))"
    using sv satisfied_cong by (metis served_def)
qed

text \<open>C11: \<open>rt_event_send\<close> implements the scan: the waiters are served in queue order, each with
  the flags still set at its turn, those it consumes are gone for the next; the served
  threads can run and their blocked receive returns success with their flags; the others
  stay in order.\<close>

theorem event_send_refines:
  assumes k: "kinv s" and wt: "waiters_ok s" and ty: "otype s (O_Event n) = RT_Object_Class_Event"
    and c: "rt_current_thread s = Some c" and st: "st \<noteq> 0"
    and sc: "scan (threads s) (ev_set (events s n) OR st) (tq s (L_event n)) = (w, e)"
  shows "\<exists>s'. rt_event_send n st s = Some (RT_EOK, s') \<and> kinv s' \<and> ev_set (events s' n) = e \<and>
    tq s' (L_event n) = filter (\<lambda>t. t \<notin> fst ` set w) (tq s (L_event n)) \<and>
    (\<forall>(t, g) \<in> set w. rt_event_recv_wake t s' = (RT_EOK, Some g) \<and>
       (tstat s' t = RT_THREAD_READY \<or> tstat s' t = RT_THREAD_RUNNING))"
proof -
  obtain s' where s': "rt_event_send n st s = Some (0, s')" "served n w e s s'"
    using send_total [OF k ty c st sc] by blast
  have "err (threads s' t) = 0" if "(t, g) \<in> set w" for t g
  proof -
    have "t \<in> set (tq s (L_event n))" using scan_members [OF sc] that by force
    then have "err (threads s t) = 0" using wt unfolding waiters_ok_def by (metis wait_head.simps(5))
    then show ?thesis using s'(2) by (simp add: served_def event_rest_def)
  qed
  then show ?thesis using s' by (fastforce simp: served_def rt_event_recv_wake_def)
qed

text \<open>A receive on its branches, in terms of what the caller asks for.\<close>

abbreviation asks :: "kernel \<Rightarrow> tid \<Rightarrow> u32 \<Rightarrow> u8 \<Rightarrow> rt_thread" where
  "asks s c st opt \<equiv> (threads s c)\<lparr>event_set := st, event_info := opt\<rparr>"

lemma recv_eq:
  assumes ty: "otype s (O_Event n) = 4" and c: "caller s c" and st: "st \<noteq> 0"
    and opt: "opt AND 1 \<noteq> 0 \<or> opt AND 2 \<noteq> 0"
  defines "s1 \<equiv> upd_thread c (\<lambda>th. th\<lparr>err := 0\<rparr>) s" and "ev \<equiv> ev_set (events s n)"
  shows "rt_event_recv n st opt timeout s =
      (if satisfied (asks s c st opt) ev
       then Some (Done 0, Some (ev AND st), if opt AND 4 \<noteq> 0 then set_event n (ev AND NOT st) s1 else s1)
       else if timeout = 0 then Some (Done (- 2), None, upd_thread c (\<lambda>th. th\<lparr>err := - 2\<rparr>) s1)
       else do { s3 \<leftarrow> ipc_wait (L_event n) c (obj_flag (objs s (O_Event n))) timeout
                  (upd_thread c (\<lambda>th. th\<lparr>event_set := st, event_info := opt\<rparr>) s1);
                Some (Block (), None, s3) })"
proof -
  have sat: "satisfied (asks s c st opt) ev \<longleftrightarrow> (if opt AND 1 \<noteq> 0 then ev AND st = st else ev AND st \<noteq> 0)"
    using opt by (simp add: satisfied_def and.commute)
  show ?thesis
    using ty c st opt unfolding sat unfolding s1_def ev_def
    by (simp add: rt_event_recv_def get_type_otype caller_def in_thread_context_def rt_thread_self_def Let_def)
qed

lemma recv_blocks:
  assumes k: "kinv s" and c: "caller s c" and ok: "event_ok s n" and time: "wait_time_ok timeout"
    and flag: "flag = 0 \<or> flag = 1" and no: "\<not> satisfied (asks s c st opt) (ev_set (events s n))"
  shows "\<exists>s3. ipc_wait (L_event n) c flag timeout
      (upd_thread c (\<lambda>th. th\<lparr>event_set := st, event_info := opt\<rparr>) (upd_thread c (\<lambda>th. th\<lparr>err := 0\<rparr>) s)) = Some s3 \<and>
    kinv s3 \<and> event_ok s3 n \<and> blocked (L_event n) c flag
      (upd_thread c (\<lambda>th. th\<lparr>event_set := st, event_info := opt\<rparr>) (upd_thread c (\<lambda>th. th\<lparr>err := 0\<rparr>) s)) s3"
proof -
  let ?s2 = "upd_thread c (\<lambda>th. th\<lparr>event_set := st, event_info := opt\<rparr>) (upd_thread c (\<lambda>th. th\<lparr>err := 0\<rparr>) s)"
  have nc: "c \<notin> set (tq s l)" for l using off_lists_stat [OF kinvD(1) [OF k], of c] c by (simp add: caller_def)
  have c2: "caller ?s2 c" using c by (simp add: caller_def)
  obtain s3 where s3: "ipc_wait (L_event n) c flag timeout ?s2 = Some s3" "blocked (L_event n) c flag ?s2 s3"
    using wait_blocked [OF upd_eset_kinv(2) [OF upd_err_kinv [OF k]] c2 flag _ time, of "L_event n"] by auto
  note B = ipc_sameD [of ?s2 s3]
  have "\<not> satisfied (threads s3 t) (ev_set (events s3 n))" if "t \<in> set (tq s3 (L_event n))" for t
  proof -
    have e: "events s3 = events s" "event_set (threads s3 t) = event_set (threads ?s2 t)"
      "event_info (threads s3 t) = event_info (threads ?s2 t)"
      using s3(2) B(3,13,14) by (simp_all add: blocked_def)
    have "t = c \<or> t \<noteq> c \<and> t \<in> set (tq s (L_event n))" using that s3(2) nc by (auto simp: blocked_def)
    then consider "t = c" | "t \<noteq> c" "\<not> satisfied (threads s t) (ev_set (events s n))"
      using ok by (auto simp: event_ok_def)
    then show ?thesis
    proof cases
      case 1
      then show ?thesis using no e satisfied_cong [of "threads s3 t" "asks s c st opt"] by simp
    next
      case 2
      then show ?thesis using e satisfied_cong [of "threads s3 t" "threads s t"] by simp
    qed
  qed
  then show ?thesis using s3 by (auto simp: blocked_def event_ok_def)
qed

lemma event_ok_shrink:
  assumes ok: "event_ok s n" and le: "v AND NOT (ev_set (events s n)) = 0" and nc: "c \<notin> set (tq s (L_event n))"
  shows "event_ok (set_event n v (upd_thread c f s)) n"
proof -
  have "\<not> satisfied (threads s t) v" if "t \<in> set (tq s (L_event n))" for t
    using ok that satisfied_mono [OF _ le] by (auto simp: event_ok_def)
  then show ?thesis using nc by (auto simp: event_ok_def)
qed

lemma recv_keeps:
  assumes k: "kinv s" and ty: "otype s (O_Event n) = 4" and c: "caller s c" and ok: "event_ok s n" and st: "st \<noteq> 0"
    and opt: "opt AND 1 \<noteq> 0 \<or> opt AND 2 \<noteq> 0" and time: "wait_time_ok timeout"
    and flag: "obj_flag (objs s (O_Event n)) = 0 \<or> obj_flag (objs s (O_Event n)) = 1"
  shows "\<exists>r g s2. rt_event_recv n st opt timeout s = Some (r, g, s2) \<and> event_ok s2 n \<and> kinv s2"
proof -
  let ?s = "upd_thread c (\<lambda>th. th\<lparr>err := 0\<rparr>) s" and ?ev = "ev_set (events s n)"
  have nc: "c \<notin> set (tq s l)" for l using off_lists_stat [OF kinvD(1) [OF k], of c] c by (simp add: caller_def)
  have k0: "kinv ?s" "kinv (upd_thread c (\<lambda>th. th\<lparr>err := - 2\<rparr>) ?s)" using upd_err_kinv k by blast+
  have "(?ev AND NOT st) AND NOT ?ev = 0" by (rule bit_word_eqI) (auto simp: bit_simps)
  then have "event_ok (set_event n (?ev AND NOT st) ?s) n" by (rule event_ok_shrink [OF ok _ nc])
  moreover have "event_ok (upd_thread c (\<lambda>th. th\<lparr>err := - 2\<rparr>) ?s) n" "event_ok ?s n"
    using ok nc by (auto simp: event_ok_def)
  ultimately show ?thesis
    using recv_eq [OF ty c st opt] recv_blocks [OF k c ok time flag, of opt st] k0 by auto
qed

text \<open>C12: no lost wake-up: after a send no thread waits for flags that are set, and a receive
  keeps that true on every branch, whether it takes flags, gives up or waits.\<close>

theorem event_no_lost_wakeup:
  assumes k: "kinv s" and ty: "otype s (O_Event n) = RT_Object_Class_Event" and c: "caller s c" and ok: "event_ok s n"
    and st: "st \<noteq> 0" and opt: "opt AND RT_EVENT_FLAG_AND \<noteq> 0 \<or> opt AND RT_EVENT_FLAG_OR \<noteq> 0"
    and time: "wait_time_ok timeout" and flag: "obj_flag (objs s (O_Event n)) \<in> {RT_IPC_FLAG_FIFO, RT_IPC_FLAG_PRIO}"
  shows "\<exists>s1 r g s2. rt_event_send n st s = Some (RT_EOK, s1) \<and> event_ok s1 n \<and>
    rt_event_recv n st opt timeout s = Some (r, g, s2) \<and> event_ok s2 n \<and> kinv s2"
proof -
  obtain w e where sc: "scan (threads s) (ev_set (events s n) OR st) (tq s (L_event n)) = (w, e)" by fastforce
  have cur: "rt_current_thread s = Some c" using c by (simp add: caller_def)
  obtain s1 where "rt_event_send n st s = Some (0, s1)" "event_ok s1 n"
    using send_total [OF k ty cur st sc] served_event_ok [OF _ sc] by blast
  then show ?thesis using recv_keeps [OF k ty c ok st opt time] flag by auto
qed

subsection \<open>Examples\<close>

lemma kex_event [simp]: "ev_set (events kex 0) = 0" "ev_set (events kex 1) = 7" "obj_flag (objs kex (O_Event n)) = 0"
    "event_set (threads kex 5) = 3" "event_info (threads kex 5) = 6"
  by (simp_all add: kex_def ex_threads_def ex_thread_def zero_thread_def)

lemma kex_scan: "scan (threads kex) (0 OR 2) [5] = ([(5, 2)], 0)"
  by (simp add: satisfied_def received_def consume_def)

theorem event_send_refines_witness:
  "\<exists>s'. rt_event_send 0 2 kex = Some (0, s') \<and> ev_set (events s' 0) = 0 \<and> tq s' (L_event 0) = [] \<and>
     rt_event_recv_wake 5 s' = (0, Some 2)"
  using event_send_refines [OF kex_kinv kex_waiters, of 0 1 2 "[(5, 2)]" 0] kex_scan by auto

theorem event_no_lost_wakeup_witness:
  "\<exists>s1 r g s2. rt_event_send 0 2 kex = Some (0, s1) \<and> event_ok s1 0 \<and>
     rt_event_recv 0 2 1 50 kex = Some (r, g, s2) \<and> event_ok s2 0 \<and> kinv s2"
proof -
  have "event_ok kex 0" by (simp add: event_ok_def satisfied_def)
  moreover have "wait_time_ok 50" by (simp add: wait_time_ok_def)
  ultimately show ?thesis using event_no_lost_wakeup [OF kex_kinv _ kex_caller, of 0 2 1 50] by simp
qed

end
