(* ===== verification/Mailbox.thy ===== *)
theory Mailbox
  imports Example_State Fifo_Spec
begin

text \<open>
  The mailbox of \<open>src/ipc.c\<close>: a ring of machine words with a queue of waiting receivers and a
  queue of waiting senders. A full send and an empty receive wait in a loop; one pass of
  the loop is \<open>mb_send_again\<close> and \<open>mb_recv_again\<close>, and a blocked call continues with
  \<open>rt_mb_send_wake\<close> and \<open>rt_mb_recv_wake\<close>. The calls that do not wait, on the whole kernel state,
  interpret the bounded queue of \<open>Fifo_Spec\<close>.
\<close>

subsection \<open>Operations\<close>

definition set_mb :: "nat \<Rightarrow> rt_mailbox \<Rightarrow> kernel \<Rightarrow> kernel" where
  "set_mb n m s = s\<lparr>mailboxes := (mailboxes s)(n := m)\<rparr>"

definition rt_mb_init :: "nat \<Rightarrow> string \<Rightarrow> u32 list \<Rightarrow> u32 \<Rightarrow> u8 \<Rightarrow> kernel \<Rightarrow> (rt_err_t \<times> kernel) option" where
  "rt_mb_init n nm msgpool sz flag s = do {
     s1 \<leftarrow> rt_object_init (O_Mb n) RT_Object_Class_MailBox nm s;
     let s2 = rt_ipc_object_init (L_mb n) (upd_obj (O_Mb n) (\<lambda>ob. ob\<lparr>obj_flag := flag\<rparr>) s1);
     let s3 = set_mb n \<lparr>msg_pool = msgpool, mb_size = ucast sz, mb_entry = 0, in_offset = 0, out_offset = 0\<rparr> s2;
     Some (RT_EOK, rt_ipc_object_init (L_mb_sender n) s3)
   }"

definition rt_mb_detach :: "nat \<Rightarrow> kernel \<Rightarrow> (rt_err_t \<times> kernel) option" where
  "rt_mb_detach n s = do {
     rt_assert (rt_object_get_type (O_Mb n) s = RT_Object_Class_MailBox);
     rt_assert (rt_object_is_systemobject (O_Mb n) s);
     s1 \<leftarrow> rt_ipc_list_resume_all (L_mb n) s;
     s2 \<leftarrow> rt_ipc_list_resume_all (L_mb_sender n) s1;
     Some (RT_EOK, rt_object_detach (O_Mb n) s2)
   }"

text \<open>\<open>pool\<close> is what \<open>RT_KERNEL_MALLOC\<close> answers for the array.\<close>

definition rt_mb_create ::
  "nat option \<Rightarrow> u32 list option \<Rightarrow> string \<Rightarrow> u32 \<Rightarrow> u8 \<Rightarrow> kernel \<Rightarrow> (nat option \<times> kernel) option" where
  "rt_mb_create fresh pool nm sz flag s = do {
     rt_assert (rt_interrupt_nest s = 0);
     (_, s1) \<leftarrow> rt_object_allocate (map_option O_Mb fresh) RT_Object_Class_MailBox nm s;
     case fresh of
       None \<Rightarrow> Some (None, s1)
     | Some n \<Rightarrow>
         let s2 = rt_ipc_object_init (L_mb n) (upd_obj (O_Mb n) (\<lambda>ob. ob\<lparr>obj_flag := flag\<rparr>) s1) in
         (case pool of
            None \<Rightarrow> do { s3 \<leftarrow> rt_object_delete (O_Mb n) s2; Some (None, s3) }
          | Some p \<Rightarrow>
              Some (Some n, rt_ipc_object_init (L_mb_sender n) (set_mb n
                \<lparr>msg_pool = p, mb_size = ucast sz, mb_entry = 0, in_offset = 0, out_offset = 0\<rparr> s2)))
   }"

definition rt_mb_delete :: "nat \<Rightarrow> kernel \<Rightarrow> (rt_err_t \<times> kernel) option" where
  "rt_mb_delete n s = do {
     rt_assert (rt_interrupt_nest s = 0);
     rt_assert (rt_object_get_type (O_Mb n) s = RT_Object_Class_MailBox);
     rt_assert (\<not> rt_object_is_systemobject (O_Mb n) s);
     s1 \<leftarrow> rt_ipc_list_resume_all (L_mb n) s;
     s2 \<leftarrow> rt_ipc_list_resume_all (L_mb_sender n) s1;
     s3 \<leftarrow> rt_object_delete (O_Mb n) s2;
     Some (RT_EOK, s3)
   }"

text \<open>The stores to and the loads from the ring, at 16 bit offsets; an offset outside the pool
  is a fault.\<close>

definition mb_store :: "u32 \<Rightarrow> rt_mailbox \<Rightarrow> rt_mailbox option" where
  "mb_store value m = do {
     rt_assert (unat (in_offset m) < length (msg_pool m));
     let i = in_offset m + 1;
     Some (m\<lparr>msg_pool := (msg_pool m)[unat (in_offset m) := value],
             in_offset := (if i \<ge> mb_size m then 0 else i), mb_entry := mb_entry m + 1\<rparr>)
   }"

definition mb_load :: "rt_mailbox \<Rightarrow> (u32 \<times> rt_mailbox) option" where
  "mb_load m = do {
     rt_assert (unat (out_offset m) < length (msg_pool m));
     let i = out_offset m + 1;
     Some (msg_pool m ! unat (out_offset m),
           m\<lparr>out_offset := (if i \<ge> mb_size m then 0 else i), mb_entry := mb_entry m - 1\<rparr>)
   }"

text \<open>One pass of the loop in \<open>rt_mb_send_wait\<close>, with the code behind the loop. A blocked call
  keeps the value, the time and the tick at which the wait began.\<close>

definition mb_send_again ::
  "nat \<Rightarrow> tid option \<Rightarrow> u32 \<Rightarrow> u32 \<Rightarrow> kernel \<Rightarrow> ((u32 \<times> u32 \<times> u32) outcome \<times> kernel) option" where
  "mb_send_again n self value timeout s =
     (if mb_entry (mailboxes s n) = mb_size (mailboxes s n)
      then do {
        thread \<leftarrow> self;
        let s1 = upd_thread thread (\<lambda>th. th\<lparr>err := RT_EOK\<rparr>) s;
        if timeout = 0 then Some (Done (- RT_EFULL), s1)
        else do {
          rt_assert (in_thread_context s1);
          s2 \<leftarrow> ipc_wait (L_mb_sender n) thread (obj_flag (objs s1 (O_Mb n))) timeout s1;
          Some (Block (value, timeout, rt_tick_get s1), s2)
        }
      }
      else do {
        m \<leftarrow> mb_store value (mailboxes s n);
        s1 \<leftarrow> wake_first (L_mb n) (set_mb n m s);
        Some (Done RT_EOK, s1)
      })"

definition rt_mb_send_wait ::
  "nat \<Rightarrow> u32 \<Rightarrow> u32 \<Rightarrow> kernel \<Rightarrow> ((u32 \<times> u32 \<times> u32) outcome \<times> kernel) option" where
  "rt_mb_send_wait n value timeout s = do {
     rt_assert (rt_object_get_type (O_Mb n) s = RT_Object_Class_MailBox);
     if mb_entry (mailboxes s n) = mb_size (mailboxes s n) \<and> timeout = 0 then Some (Done (- RT_EFULL), s)
     else mb_send_again n (rt_thread_self s) value timeout s
   }"

definition rt_mb_send_wake ::
  "nat \<Rightarrow> tid \<Rightarrow> u32 \<times> u32 \<times> u32 \<Rightarrow> kernel \<Rightarrow> ((u32 \<times> u32 \<times> u32) outcome \<times> kernel) option" where
  "rt_mb_send_wake n thread k s =
     (let (value, timeout, tick_delta) = k in
      if err (threads s thread) \<noteq> RT_EOK then Some (Done (err (threads s thread)), s)
      else mb_send_again n (Some thread) value (remaining_timeout timeout tick_delta (rt_tick_get s)) s)"

definition rt_mb_send :: "nat \<Rightarrow> u32 \<Rightarrow> kernel \<Rightarrow> ((u32 \<times> u32 \<times> u32) outcome \<times> kernel) option" where
  "rt_mb_send n value s = rt_mb_send_wait n value 0 s"

text \<open>The same for \<open>rt_mb_recv\<close>; the second component of the result is the value received.\<close>

definition mb_recv_again ::
  "nat \<Rightarrow> tid option \<Rightarrow> u32 \<Rightarrow> kernel \<Rightarrow> ((u32 \<times> u32) outcome \<times> u32 option \<times> kernel) option" where
  "mb_recv_again n self timeout s =
     (if mb_entry (mailboxes s n) = 0
      then do {
        thread \<leftarrow> self;
        let s1 = upd_thread thread (\<lambda>th. th\<lparr>err := RT_EOK\<rparr>) s;
        if timeout = 0
        then Some (Done (- RT_ETIMEOUT), None, upd_thread thread (\<lambda>th. th\<lparr>err := - RT_ETIMEOUT\<rparr>) s1)
        else do {
          rt_assert (in_thread_context s1);
          s2 \<leftarrow> ipc_wait (L_mb n) thread (obj_flag (objs s1 (O_Mb n))) timeout s1;
          Some (Block (timeout, rt_tick_get s1), None, s2)
        }
      }
      else do {
        (value, m) \<leftarrow> mb_load (mailboxes s n);
        s1 \<leftarrow> wake_first (L_mb_sender n) (set_mb n m s);
        Some (Done RT_EOK, Some value, s1)
      })"

definition rt_mb_recv :: "nat \<Rightarrow> u32 \<Rightarrow> kernel \<Rightarrow> ((u32 \<times> u32) outcome \<times> u32 option \<times> kernel) option" where
  "rt_mb_recv n timeout s = do {
     rt_assert (rt_object_get_type (O_Mb n) s = RT_Object_Class_MailBox);
     if mb_entry (mailboxes s n) = 0 \<and> timeout = 0 then Some (Done (- RT_ETIMEOUT), None, s)
     else mb_recv_again n (rt_thread_self s) timeout s
   }"

definition rt_mb_recv_wake ::
  "nat \<Rightarrow> tid \<Rightarrow> u32 \<times> u32 \<Rightarrow> kernel \<Rightarrow> ((u32 \<times> u32) outcome \<times> u32 option \<times> kernel) option" where
  "rt_mb_recv_wake n thread k s =
     (let (timeout, tick_delta) = k in
      if err (threads s thread) \<noteq> RT_EOK then Some (Done (err (threads s thread)), None, s)
      else mb_recv_again n (Some thread) (remaining_timeout timeout tick_delta (rt_tick_get s)) s)"

definition rt_mb_control :: "nat \<Rightarrow> int \<Rightarrow> kernel \<Rightarrow> (rt_err_t \<times> kernel) option" where
  "rt_mb_control n cmd s = do {
     rt_assert (rt_object_get_type (O_Mb n) s = RT_Object_Class_MailBox);
     if cmd = RT_IPC_CMD_RESET
     then do {
       s1 \<leftarrow> rt_ipc_list_resume_all (L_mb n) s;
       s2 \<leftarrow> rt_ipc_list_resume_all (L_mb_sender n) s1;
       s3 \<leftarrow> rt_schedule (set_mb n ((mailboxes s2 n)\<lparr>mb_entry := 0, in_offset := 0, out_offset := 0\<rparr>) s2);
       Some (RT_EOK, s3)
     }
     else Some (- RT_ERROR, s)
   }"

subsection \<open>The ring\<close>

definition mb_inv :: "rt_mailbox \<Rightarrow> bool" where
  "mb_inv m \<longleftrightarrow>
     unat (mb_size m) \<le> length (msg_pool m) \<and> 0 < mb_size m \<and> mb_entry m \<le> mb_size m \<and>
     in_offset m < mb_size m \<and> out_offset m < mb_size m \<and>
     unat (in_offset m) = (unat (out_offset m) + unat (mb_entry m)) mod unat (mb_size m)"

lemma mb_inv_nat:
  "mb_inv m \<longleftrightarrow>
     unat (mb_size m) \<le> length (msg_pool m) \<and> 0 < unat (mb_size m) \<and> unat (mb_entry m) \<le> unat (mb_size m) \<and>
     unat (in_offset m) < unat (mb_size m) \<and> unat (out_offset m) < unat (mb_size m) \<and>
     unat (in_offset m) = (unat (out_offset m) + unat (mb_entry m)) mod unat (mb_size m)"
  by (simp add: mb_inv_def word_less_nat_alt word_le_nat_alt)

definition mb_items :: "rt_mailbox \<Rightarrow> u32 list" where
  "mb_items m = map (\<lambda>i. msg_pool m ! ((unat (out_offset m) + i) mod unat (mb_size m))) [0..<unat (mb_entry m)]"

lemma length_mb_items [simp]: "length (mb_items m) = unat (mb_entry m)"
  by (simp add: mb_items_def)

lemma offset_next:
  fixes i n :: u16
  assumes "i < n"
  shows "unat (if i + 1 \<ge> n then 0 else i + 1) = (unat i + 1) mod unat n"
proof -
  have n: "unat i < unat n" "unat n < 2 ^ 16" using assms unsigned_less [of n] by (simp_all add: word_less_nat_alt)
  then have "unat (i + 1) = unat i + 1" using unat_add_small [of i 1] by simp
  then show ?thesis using n by (auto simp: word_le_nat_alt mod_if)
qed

lemma mb_store_total:
  assumes inv: "mb_inv m" and room: "mb_entry m \<noteq> mb_size m"
  obtains m' where "mb_store v m = Some m'" "mb_inv m'" "mb_items m' = mb_items m @ [v]" "mb_size m' = mb_size m"
proof -
  let ?n = "unat (mb_size m)" and ?e = "unat (mb_entry m)" and ?o = "unat (out_offset m)" and ?i = "unat (in_offset m)"
  have b: "?n \<le> length (msg_pool m)" "?i < ?n" "?o < ?n" "?i = (?o + ?e) mod ?n" "?e < ?n"
  proof -
    have "?e \<noteq> ?n" using room by (simp add: word_unat_eq_iff)
    then show "?e < ?n" using inv by (simp add: mb_inv_nat)
  qed (use inv in \<open>simp_all add: mb_inv_nat\<close>)
  have e: "unat (mb_entry m + 1) = ?e + 1"
    using b(5) unat_less_2p [of "mb_size m"] unat_add_small [of "mb_entry m" 1] by simp
  let ?m = "m\<lparr>msg_pool := (msg_pool m)[?i := v], in_offset := (if in_offset m + 1 \<ge> mb_size m then 0 else in_offset m + 1),
      mb_entry := mb_entry m + 1\<rparr>"
  have "in_offset m < mb_size m" using inv by (simp add: mb_inv_def)
  note nx = offset_next [OF this]
  have "mb_store v m = Some ?m" using b(1,2) by (simp add: mb_store_def Let_def)
  moreover have "mb_inv ?m"
    using inv b e nx by (simp add: mb_inv_nat mod_simps)
  moreover have "mb_items ?m = mb_items m @ [v]"
  proof -
    have "?i \<noteq> (?o + k) mod ?n" if "k < ?e" for k
      using that b ring_inj [of ?o ?n k ?e] by auto
    then have "map (\<lambda>k. (msg_pool m)[?i := v] ! ((?o + k) mod ?n)) [0..<?e] = mb_items m"
      unfolding mb_items_def by (intro map_cong) auto
    moreover have "(msg_pool m)[?i := v] ! ((?o + ?e) mod ?n) = v" unfolding b(4) [symmetric] using b(1,2) by simp
    ultimately show ?thesis using e by (simp add: mb_items_def)
  qed
  ultimately show thesis using that [of ?m] by simp
qed

lemma mb_load_total:
  assumes inv: "mb_inv m" and ne: "mb_entry m \<noteq> 0"
  obtains v vs m' where "mb_load m = Some (v, m')" "mb_inv m'" "mb_items m = v # mb_items m'" "mb_size m' = mb_size m"
proof -
  let ?n = "unat (mb_size m)" and ?e = "unat (mb_entry m)" and ?o = "unat (out_offset m)" and ?i = "unat (in_offset m)"
  have b: "?n \<le> length (msg_pool m)" "?i < ?n" "?o < ?n" "?i = (?o + ?e) mod ?n" "?e \<le> ?n" "0 < ?n"
    using inv by (simp_all add: mb_inv_nat)
  have "?e \<noteq> 0" using ne by (simp add: unat_eq_zero)
  then obtain e where e: "?e = Suc e" by (cases ?e) auto
  have "unat (mb_entry m - 1) = e"
    using e ne by (metis One_nat_def diff_Suc_1 unat_gt_0 unat_minus_one word_neq_0_conv)
  note e1 = this
  let ?m = "m\<lparr>out_offset := (if out_offset m + 1 \<ge> mb_size m then 0 else out_offset m + 1), mb_entry := mb_entry m - 1\<rparr>"
  have "out_offset m < mb_size m" using inv by (simp add: mb_inv_def)
  note nx = offset_next [OF this]
  have "mb_load m = Some (msg_pool m ! ?o, ?m)" using b(1,3) by (simp add: mb_load_def Let_def)
  moreover have "mb_inv ?m" using b e e1 nx by (simp add: mb_inv_nat mod_simps)
  moreover have "mb_items m = (msg_pool m ! ?o) # mb_items ?m"
    using b(3) e e1 nx by (simp add: mb_items_def upt_rec [of 0 "Suc e"] map_Suc_upt [symmetric] mod_simps del: upt_Suc)
  ultimately show thesis using that [of "msg_pool m ! ?o" ?m] by simp
qed

subsection \<open>Frame\<close>

lemma set_mb_frame [simp]:
  "threads (set_mb n m s) = threads s" "tq (set_mb n m s) = tq s"
  "rt_thread_ready_priority_group (set_mb n m s) = rt_thread_ready_priority_group s"
  "rt_scheduler_lock_nest (set_mb n m s) = rt_scheduler_lock_nest s"
  "rt_current_thread (set_mb n m s) = rt_current_thread s"
  "rt_interrupt_nest (set_mb n m s) = rt_interrupt_nest s" "rt_tick (set_mb n m s) = rt_tick s"
  "objs (set_mb n m s) = objs s" "object_list (set_mb n m s) = object_list s"
  "timers (set_mb n m s) = timers s" "rt_timer_list (set_mb n m s) = rt_timer_list s"
  "sems (set_mb n m s) = sems s" "mutexes (set_mb n m s) = mutexes s"
  "events (set_mb n m s) = events s" "mqs (set_mb n m s) = mqs s"
  "mempools (set_mb n m s) = mempools s"
  "mailboxes (set_mb n m s) j = (if j = n then m else mailboxes s j)"
  by (simp_all add: set_mb_def)

lemma set_mb_kinv [simp]: "kinv (set_mb n m s) = kinv s"
proof
  show "kinv s" if "kinv (set_mb n m s)" by (rule kinv_cong [OF that]) simp_all
  show "kinv (set_mb n m s)" if "kinv s" by (rule kinv_cong [OF that]) simp_all
qed

lemma set_mb_other [simp]:
  "otype (set_mb n m s) = otype s" "tstat (set_mb n m s) = tstat s" "live (set_mb n m s) = live s"
  by (simp_all add: otype_def tstat_def live_def fun_eq_iff)

subsection \<open>Sending and receiving\<close>

text \<open>The states in which the calls are made: a mailbox in a consistent kernel whose scheduler
  has started.\<close>

definition mb_ready :: "nat \<Rightarrow> kernel \<Rightarrow> bool" where
  "mb_ready n s \<longleftrightarrow> kinv s \<and> otype s (O_Mb n) = RT_Object_Class_MailBox \<and> rt_current_thread s \<noteq> None \<and> mb_inv (mailboxes s n)"

lemma mb_wake_total:
  assumes r: "mb_ready n s" and m: "mb_inv m" and l: "wait_head l"
  obtains s' where "wake_first l (set_mb n m s) = Some s'" "woke_first l (set_mb n m s) s'" "mb_ready n s'"
    "mailboxes s' n = m"
proof -
  have k: "kinv (set_mb n m s)" and c: "rt_current_thread (set_mb n m s) \<noteq> None" using r by (simp_all add: mb_ready_def)
  obtain s' where s': "wake_first l (set_mb n m s) = Some s'" "woke_first l (set_mb n m s) s'"
    using wake_first_total [OF k c l] by blast
  note W = woke_first_same [OF s'(2) k c]
  have "mailboxes s' n = m" using ipc_sameD(4) [OF W(2)] by simp
  moreover have "mb_ready n s'" using W r m ipc_sameD(4,11) [OF W(2)] by (simp add: mb_ready_def)
  ultimately show thesis using that s' by blast
qed

lemma mb_send_room:
  assumes r: "mb_ready n s" and room: "mb_entry (mailboxes s n) \<noteq> mb_size (mailboxes s n)"
  obtains m s' where "rt_mb_send_wait n v timeout s = Some (Done 0, s')" "mb_ready n s'" "mailboxes s' n = m"
    "mb_items m = mb_items (mailboxes s n) @ [v]" "mb_size m = mb_size (mailboxes s n)"
    "woke_first (L_mb n) (set_mb n m s) s'"
proof -
  obtain m where m: "mb_store v (mailboxes s n) = Some m" "mb_inv m" "mb_items m = mb_items (mailboxes s n) @ [v]"
      "mb_size m = mb_size (mailboxes s n)" using mb_store_total [OF _ room] r by (auto simp: mb_ready_def)
  obtain s' where s': "wake_first (L_mb n) (set_mb n m s) = Some s'" "woke_first (L_mb n) (set_mb n m s) s'"
      "mb_ready n s'" "mailboxes s' n = m" using mb_wake_total [OF r m(2), of "L_mb n"] by auto
  have "rt_mb_send_wait n v timeout s = Some (Done 0, s')"
    using r room m(1) s'(1) by (simp add: rt_mb_send_wait_def mb_send_again_def get_type_otype mb_ready_def)
  then show thesis using that m s' by blast
qed

lemma mb_recv_some:
  assumes r: "mb_ready n s" and ne: "mb_entry (mailboxes s n) \<noteq> 0"
  obtains v m s' where "rt_mb_recv n timeout s = Some (Done 0, Some v, s')" "mb_ready n s'" "mailboxes s' n = m"
    "mb_items (mailboxes s n) = v # mb_items m" "mb_size m = mb_size (mailboxes s n)"
    "woke_first (L_mb_sender n) (set_mb n m s) s'"
proof -
  obtain v m where m: "mb_load (mailboxes s n) = Some (v, m)" "mb_inv m" "mb_items (mailboxes s n) = v # mb_items m"
      "mb_size m = mb_size (mailboxes s n)" using mb_load_total [OF _ ne] r by (auto simp: mb_ready_def)
  obtain s' where s': "wake_first (L_mb_sender n) (set_mb n m s) = Some s'" "woke_first (L_mb_sender n) (set_mb n m s) s'"
      "mb_ready n s'" "mailboxes s' n = m" using mb_wake_total [OF r m(2), of "L_mb_sender n"] by auto
  have "rt_mb_recv n timeout s = Some (Done 0, Some v, s')"
    using r ne m(1) s'(1) by (simp add: rt_mb_recv_def mb_recv_again_def get_type_otype mb_ready_def)
  then show thesis using that m s' by blast
qed

lemma mb_blocks:
  assumes r: "mb_ready n s" and c: "caller s c" and time: "wait_time_ok timeout" and l: "wait_head l"
    and flag: "obj_flag (objs s (O_Mb n)) \<in> {RT_IPC_FLAG_FIFO, RT_IPC_FLAG_PRIO}"
  shows "\<exists>s'. ipc_wait l c (obj_flag (objs s (O_Mb n))) timeout (upd_thread c (\<lambda>th. th\<lparr>err := RT_EOK\<rparr>) s) = Some s' \<and>
    blocked l c (obj_flag (objs s (O_Mb n))) s s' \<and> mb_ready n s'"
proof -
  obtain s' where s': "ipc_wait l c (obj_flag (objs s (O_Mb n))) timeout (upd_thread c (\<lambda>th. th\<lparr>err := 0\<rparr>) s) = Some s'"
      "blocked l c (obj_flag (objs s (O_Mb n))) s s'"
    using block_total [OF _ c _ l time, of "obj_flag (objs s (O_Mb n))"] r flag by (auto simp: mb_ready_def)
  have "ipc_same s s'" using s'(2) by (simp add: blocked_def)
  note S = ipc_sameD [OF this]
  have "mb_ready n s'" using s'(2) r S(4,11) by (simp add: mb_ready_def blocked_def)
  then show ?thesis using s' by blast
qed

lemma items_full: "mb_inv m \<Longrightarrow> length (mb_items m) = unat (mb_size m) \<longleftrightarrow> mb_entry m = mb_size m"
  by (simp add: word_unat_eq_iff)

lemma items_empty: "mb_items m = [] \<longleftrightarrow> mb_entry m = 0"
  by (simp add: unat_eq_zero flip: length_0_conv)

text \<open>The calls that do not wait, as operations of a bounded queue of the kernel state.\<close>

definition mb_put :: "nat \<Rightarrow> u32 \<Rightarrow> kernel \<Rightarrow> kernel option" where
  "mb_put n v s = (case rt_mb_send n v s of Some (Done e, s') \<Rightarrow> if e = RT_EOK then Some s' else None | _ \<Rightarrow> None)"

definition mb_get :: "nat \<Rightarrow> kernel \<Rightarrow> (u32 \<times> kernel) option" where
  "mb_get n s = (case rt_mb_recv n 0 s of Some (Done e, Some v, s') \<Rightarrow> Some (v, s') | _ \<Rightarrow> None)"

interpretation mbq: bounded_fifo "mb_ready n" "\<lambda>s. mb_items (mailboxes s n)" "\<lambda>s. unat (mb_size (mailboxes s n))"
    "mb_put n" "mb_get n" for n
proof
  fix s :: kernel and x :: u32
  assume r: "mb_ready n s"
  then have inv: "mb_inv (mailboxes s n)" and ty: "rt_object_get_type (O_Mb n) s = 5"
    by (simp_all add: mb_ready_def get_type_otype)
  show "length (mb_items (mailboxes s n)) \<le> unat (mb_size (mailboxes s n))" using inv by (simp add: mb_inv_nat)
  show "mb_put n x s = None" if "length (mb_items (mailboxes s n)) = unat (mb_size (mailboxes s n))"
    using that ty unfolding items_full [OF inv] by (simp add: mb_put_def rt_mb_send_def rt_mb_send_wait_def)
  show "\<exists>s'. mb_put n x s = Some s' \<and> mb_ready n s' \<and> mb_items (mailboxes s' n) = mb_items (mailboxes s n) @ [x] \<and>
      unat (mb_size (mailboxes s' n)) = unat (mb_size (mailboxes s n))"
    if "length (mb_items (mailboxes s n)) < unat (mb_size (mailboxes s n))"
  proof -
    have "mb_entry (mailboxes s n) \<noteq> mb_size (mailboxes s n)" using that by (metis length_mb_items less_irrefl)
    then obtain s' where "rt_mb_send_wait n x 0 s = Some (Done 0, s')" "mb_ready n s'"
        "mb_items (mailboxes s' n) = mb_items (mailboxes s n) @ [x]" "mb_size (mailboxes s' n) = mb_size (mailboxes s n)"
      using mb_send_room [OF r, of x 0] by metis
    then show ?thesis by (simp add: mb_put_def rt_mb_send_def)
  qed
  show "mb_get n s = None" if "mb_items (mailboxes s n) = []"
    using that ty by (simp add: mb_get_def rt_mb_recv_def items_empty)
  show "\<exists>s'. mb_get n s = Some (x, s') \<and> mb_ready n s' \<and> mb_items (mailboxes s' n) = xs \<and>
      unat (mb_size (mailboxes s' n)) = unat (mb_size (mailboxes s n))" if "mb_items (mailboxes s n) = x # xs" for xs
  proof -
    have "mb_entry (mailboxes s n) \<noteq> 0" using that items_empty [of "mailboxes s n"] by auto
    then obtain v s' where "rt_mb_recv n 0 s = Some (Done 0, Some v, s')" "mb_ready n s'"
        "mb_items (mailboxes s n) = v # mb_items (mailboxes s' n)" "mb_size (mailboxes s' n) = mb_size (mailboxes s n)"
      using mb_recv_some [OF r, of 0] by metis
    then show ?thesis using that by (simp add: mb_get_def)
  qed
qed

subsection \<open>Correctness\<close>

text \<open>C13: over every sequence of \<open>rt_mb_send\<close> and non-waiting \<open>rt_mb_recv\<close> calls the mailbox is a
  bounded first-in first-out queue: the values received followed by the values left are
  the values there at the start followed by the values accepted, never more than the
  size; waiting threads are woken on the way and the kernel stays consistent.\<close>

theorem mailbox_fifo:
  assumes "mb_ready n s" and "fifo_calls (mb_put n) (mb_get n) cs s = (s', accepted, returned)"
  shows "mb_ready n s' \<and> returned @ mb_items (mailboxes s' n) = mb_items (mailboxes s n) @ accepted \<and>
    length (mb_items (mailboxes s' n)) \<le> unat (mb_size (mailboxes s n))"
  using mbq.calls_fifo [OF assms] mbq.calls_bounded [OF assms] by blast

text \<open>\<open>rt_mb_send_wait\<close> on every branch: with room the value is stored behind the others and
  the first waiting receiver is woken; a full mailbox and no time give \<open>- RT_EFULL\<close>; a full
  mailbox and a time suspend the caller among the senders.\<close>

lemma mb_send_spec:
  assumes r: "mb_ready n s" and c: "caller s c" and time: "wait_time_ok timeout"
    and flag: "obj_flag (objs s (O_Mb n)) \<in> {RT_IPC_FLAG_FIFO, RT_IPC_FLAG_PRIO}"
  shows "\<exists>o' s'. rt_mb_send_wait n v timeout s = Some (o', s') \<and> mb_ready n s' \<and>
    (if mb_entry (mailboxes s n) \<noteq> mb_size (mailboxes s n)
     then o' = Done RT_EOK \<and> mb_items (mailboxes s' n) = mb_items (mailboxes s n) @ [v] \<and>
       woke_first (L_mb n) (set_mb n (mailboxes s' n) s) s'
     else if timeout = 0 then o' = Done (- RT_EFULL) \<and> s' = s
     else o' = Block (v, timeout, rt_tick s) \<and> blocked (L_mb_sender n) c (obj_flag (objs s (O_Mb n))) s s')"
proof (cases "mb_entry (mailboxes s n) \<noteq> mb_size (mailboxes s n) \<or> timeout = 0")
  case True
  then show ?thesis
    using mb_send_room [OF r, of v timeout] r
    by (auto simp: rt_mb_send_wait_def mb_ready_def get_type_otype) 
next
  case False
  obtain s' where s': "ipc_wait (L_mb_sender n) c (obj_flag (objs s (O_Mb n))) timeout (upd_thread c (\<lambda>th. th\<lparr>err := 0\<rparr>) s) = Some s'"
      "blocked (L_mb_sender n) c (obj_flag (objs s (O_Mb n))) s s'" "mb_ready n s'"
    using mb_blocks [OF r c time _ flag, of "L_mb_sender n"] by auto
  then show ?thesis
    using False s' r c
    by (simp add: rt_mb_send_wait_def mb_send_again_def mb_ready_def get_type_otype caller_def in_thread_context_def
        rt_thread_self_def rt_tick_get_def)
qed

text \<open>\<open>rt_mb_recv\<close> on every branch, with the waiting senders in place of the receivers.\<close>

lemma mb_recv_spec:
  assumes r: "mb_ready n s" and c: "caller s c" and time: "wait_time_ok timeout"
    and flag: "obj_flag (objs s (O_Mb n)) \<in> {RT_IPC_FLAG_FIFO, RT_IPC_FLAG_PRIO}"
  shows "\<exists>o' w s'. rt_mb_recv n timeout s = Some (o', w, s') \<and> mb_ready n s' \<and>
    (case mb_items (mailboxes s n) of
       v # vs \<Rightarrow> o' = Done RT_EOK \<and> w = Some v \<and> mb_items (mailboxes s' n) = vs \<and>
         woke_first (L_mb_sender n) (set_mb n (mailboxes s' n) s) s'
     | [] \<Rightarrow>
         if timeout = 0 then o' = Done (- RT_ETIMEOUT) \<and> w = None \<and> s' = s
         else o' = Block (timeout, rt_tick s) \<and> w = None \<and> blocked (L_mb n) c (obj_flag (objs s (O_Mb n))) s s')"
proof (cases "mb_items (mailboxes s n)")
  case (Cons v vs)
  then have "mb_entry (mailboxes s n) \<noteq> 0" using items_empty [of "mailboxes s n"] by auto
  then show ?thesis using mb_recv_some [OF r, of timeout] Cons by fastforce
next
  case Nil
  then have e: "mb_entry (mailboxes s n) = 0" by (simp add: items_empty)
  obtain s' where s': "ipc_wait (L_mb n) c (obj_flag (objs s (O_Mb n))) timeout (upd_thread c (\<lambda>th. th\<lparr>err := 0\<rparr>) s) = Some s'"
      "blocked (L_mb n) c (obj_flag (objs s (O_Mb n))) s s'" "mb_ready n s'"
    using mb_blocks [OF r c time _ flag, of "L_mb n"] by auto
  then show ?thesis
    using Nil e s' r c
    by (simp add: rt_mb_recv_def mb_recv_again_def mb_ready_def get_type_otype caller_def in_thread_context_def
        rt_thread_self_def rt_tick_get_def)
qed

text \<open>A sender or receiver that runs again and has to wait once more waits only for the rest
  of its time: the new time is the old one less the ticks since the wait began, and never
  negative; the tick may have wrapped around in between.\<close>

lemma mb_remaining_time:
  assumes "0 < sint timeout" and "unat (rt_tick s - start) < 0x80000000" and "err (threads s t) = RT_EOK"
    and "left = max 0 (sint timeout - int (unat (rt_tick s - start)))"
  shows "rt_mb_send_wake n t (v, timeout, start) s = mb_send_again n (Some t) v (word_of_int left) s \<and>
    rt_mb_recv_wake n t (timeout, start) s = mb_recv_again n (Some t) (word_of_int left) s"
proof -
  have "sint (remaining_timeout timeout start (rt_tick s)) = left" using remaining_eq [OF assms(1,2)] assms(4) by simp
  then have "word_of_int left = remaining_timeout timeout start (rt_tick s)" by (metis of_int_sint scast_id)
  then show ?thesis using assms(3) by (simp add: rt_mb_send_wake_def rt_mb_recv_wake_def rt_tick_get_def)
qed

subsection \<open>Examples\<close>

lemma kex_mb [simp]:
  "mailboxes kex n = \<lparr>msg_pool = [7, 0, 0, 0], mb_size = 4, mb_entry = 1, in_offset = 1, out_offset = 0\<rparr>"
  "obj_flag (objs kex (O_Mb n)) = 0"
  by (simp_all add: kex_def)

lemma kex_mb_ready: "mb_ready n kex"
  by (simp add: mb_ready_def kex_kinv mb_inv_def)

lemma kex_mb_items [simp]:
  "mb_items \<lparr>msg_pool = [7, 0, 0, 0], mb_size = 4, mb_entry = 1, in_offset = 1, out_offset = 0\<rparr> = [7]"
  by (simp add: mb_items_def)

theorem mailbox_fifo_witness:
  "\<exists>s' acc got. fifo_calls (mb_put 0) (mb_get 0) [Put 8, Get, Put 9] kex = (s', acc, got) \<and>
     got @ mb_items (mailboxes s' 0) = [7] @ acc"
proof -
  obtain s' acc got where e: "fifo_calls (mb_put 0) (mb_get 0) [Put 8, Get, Put 9] kex = (s', acc, got)"
    by (metis prod_cases3)
  then show ?thesis using mailbox_fifo [OF kex_mb_ready e] by auto
qed

lemma mb_remaining_time_witness:
  "rt_mb_recv_wake 0 1 (50, 90) kex = mb_recv_again 0 (Some 1) 40 kex"
proof -
  have "rt_tick kex = 100" "err (threads kex 1) = 0" by (simp_all add: kex_def ex_threads_def ex_thread_def zero_thread_def)
  then show ?thesis using mb_remaining_time [of 50 kex 90 1 40 0 0] by simp
qed

end
