(* ===== verification/Simulation.thy ===== *)
theory Simulation
  imports Prelude
begin

text \<open>
  The interface of a component that implements an abstract one: the operations of both as
  functions from an operation and a state to a new state and a result, an invariant, an
  abstraction, and the law that every step of the implementation is a step of the abstract
  component with the same result. The client lemma carries it to sequences of operations. The
  second interface is that of a step relation with an invariant.
\<close>

fun run :: "('op \<Rightarrow> 's \<Rightarrow> 's \<times> 'r) \<Rightarrow> 'op list \<Rightarrow> 's \<Rightarrow> 's \<times> 'r list" where
  "run step [] s = (s, [])"
| "run step (x # xs) s = (let (s1, r) = step x s; (s2, rs) = run step xs s1 in (s2, r # rs))"

locale simulation =
  fixes inv :: "'s \<Rightarrow> bool"
    and abs :: "'s \<Rightarrow> 'a"
    and arg_ok :: "'s \<Rightarrow> 'op \<Rightarrow> bool"
    and step :: "'op \<Rightarrow> 's \<Rightarrow> 's \<times> 'r"
    and spec :: "'op \<Rightarrow> 'a \<Rightarrow> 'a \<times> 'r"
  assumes step_sim:
      "inv s \<Longrightarrow> arg_ok s x \<Longrightarrow> step x s = (s', r) \<Longrightarrow> inv s' \<and> spec x (abs s) = (abs s', r)"
    and step_args: "inv s \<Longrightarrow> arg_ok s x \<Longrightarrow> step x s = (s', r) \<Longrightarrow> arg_ok s' y = arg_ok s y"
begin

lemma run_sim:
  assumes "inv s" "\<forall>x \<in> set xs. arg_ok s x" "run step xs s = (s', rs)"
  shows "inv s' \<and> run spec xs (abs s) = (abs s', rs)"
  using assms
proof (induction xs arbitrary: s s' rs)
  case (Cons x xs)
  obtain s1 r where r: "step x s = (s1, r)" by fastforce
  obtain s2 q where q: "run step xs s1 = (s2, q)" by fastforce
  have x: "arg_ok s x" using Cons.prems(2) by simp
  note S = step_sim [OF Cons.prems(1) x r]
  have "\<forall>y \<in> set xs. arg_ok s1 y" using Cons.prems(2) step_args [OF Cons.prems(1) x r] by simp
  then have "inv s2 \<and> run spec xs (abs s1) = (abs s2, q)" using Cons.IH S q by blast
  then show ?case using S r q Cons.prems(3) by simp
qed simp

end

subsection \<open>Transition systems\<close>

text \<open>A transition system with an invariant and something every step keeps.\<close>

locale transition_system =
  fixes step :: "'s \<Rightarrow> 's \<Rightarrow> bool" and inv :: "'s \<Rightarrow> bool" and kept :: "'s \<Rightarrow> 'v"
  assumes step_inv: "inv s \<Longrightarrow> step s t \<Longrightarrow> inv t"
    and step_kept: "inv s \<Longrightarrow> step s t \<Longrightarrow> kept t = kept s"
begin

lemma reach_inv: "step\<^sup>*\<^sup>* s t \<Longrightarrow> inv s \<Longrightarrow> inv t"
  by (induction rule: rtranclp_induct) (auto intro: step_inv)

lemma reach_kept: "step\<^sup>*\<^sup>* s t \<Longrightarrow> inv s \<Longrightarrow> kept t = kept s"
proof (induction rule: rtranclp_induct)
  case (step t u)
  then show ?case using step_kept [OF reach_inv] by simp
qed simp

end

end
