(* ===== verification/Chains.thy ===== *)
theory Chains
  imports Prelude
begin

text \<open>
  Singly linked chains: slots named by numbers, a \<open>next\<close> pointer per slot, and the list of
  slots that a pointer leads to. The message queue links its messages and its free slots
  this way, the memory pool its free blocks.
\<close>

fun chain :: "(nat \<Rightarrow> nat option) \<Rightarrow> nat option \<Rightarrow> nat list \<Rightarrow> bool" where
  "chain nx p [] \<longleftrightarrow> p = None"
| "chain nx p (i # is) \<longleftrightarrow> p = Some i \<and> chain nx (nx i) is"

lemma chain_upd: "i \<notin> set is \<Longrightarrow> chain (nx(i := v)) p is = chain nx p is"
  by (induction "is" arbitrary: p) auto

lemma chain_snoc:
  assumes "chain nx p is" "is \<noteq> []" "distinct is" "j \<notin> set is" "nx j = None"
  shows "chain (nx(last is := Some j)) p (is @ [j])"
  using assms
proof (induction "is" arbitrary: p)
  case (Cons i "is")
  then show ?case by (cases "is") (auto simp: chain_upd)
qed simp

lemma chain_unique: "chain nx p is \<Longrightarrow> chain nx p js \<Longrightarrow> is = js"
proof (induction "is" arbitrary: p js)
  case Nil
  then show ?case by (cases js) auto
next
  case (Cons i "is")
  then show ?case by (cases js) auto
qed

text \<open>The slots from a pointer on; a number of steps bounds the walk.\<close>

fun walk :: "nat \<Rightarrow> (nat \<Rightarrow> nat option) \<Rightarrow> nat option \<Rightarrow> nat list" where
  "walk 0 nx p = []"
| "walk (Suc k) nx p = (case p of None \<Rightarrow> [] | Some i \<Rightarrow> i # walk k nx (nx i))"

lemma walk_chain: "chain nx p is \<Longrightarrow> length is = k \<Longrightarrow> walk k nx p = is"
  by (induction "is" arbitrary: p k) auto

lemma chain_cong: "(\<And>i. i \<in> set is \<Longrightarrow> ny i = nx i) \<Longrightarrow> chain ny p is = chain nx p is"
  by (induction "is" arbitrary: p) auto

lemma chain_head: "chain nx p is \<Longrightarrow> p = (case is of [] \<Rightarrow> None | i # _ \<Rightarrow> Some i)"
  by (cases "is") auto

end
