(* ===== verification/Message_Queue.thy ===== *)
theory Message_Queue
  imports Example_State Simulation Chains
begin

text \<open>
  The message queue of \<open>src/ipc.c\<close>: messages of a fixed maximal size in a pool whose slots are
  linked through \<open>next\<close> pointers into a queue and a free list. A send takes a free slot and
  links it in two critical sections (\<open>mq_take_free\<close>, then \<open>mq_link_tail\<close> or \<open>mq_link_head\<close>). A blocked
  receive continues with \<open>rt_mq_recv_wake\<close>. Here a call is one step; \<open>Mq_Pieces\<close> interleaves the pieces. The theory relates the pointer structure to lists
  and shows that the calls implement a bounded double-ended queue of messages.
\<close>

subsection \<open>Operations\<close>

definition set_mq :: "nat \<Rightarrow> rt_messagequeue \<Rightarrow> kernel \<Rightarrow> kernel" where
  "set_mq n m s = s\<lparr>mqs := (mqs s)(n := m)\<rparr>"

text \<open>The loop that puts every slot on the free list.\<close>

fun mq_free_loop :: "nat \<Rightarrow> nat \<Rightarrow> rt_messagequeue \<Rightarrow> rt_messagequeue" where
  "mq_free_loop temp 0 m = m"
| "mq_free_loop temp (Suc k) m =
     mq_free_loop (temp + 1) k
       (m\<lparr>msg_next := (msg_next m)(temp := msg_queue_free m), msg_queue_free := Some temp\<rparr>)"

definition mq_reset_lists :: "rt_messagequeue \<Rightarrow> rt_messagequeue" where
  "mq_reset_lists m =
     (mq_free_loop 0 (unat (max_msgs m)) (m\<lparr>msg_queue_head := None, msg_queue_tail := None, msg_queue_free := None\<rparr>))
       \<lparr>mq_entry := 0\<rparr>"

definition rt_mq_init ::
  "nat \<Rightarrow> string \<Rightarrow> u32 \<Rightarrow> u32 \<Rightarrow> u8 \<Rightarrow> kernel \<Rightarrow> (rt_err_t \<times> kernel) option" where
  "rt_mq_init n nm sz pool_size flag s = do {
     s1 \<leftarrow> rt_object_init (O_Mq n) RT_Object_Class_MessageQueue nm s;
     let s2 = rt_ipc_object_init (L_mq n) (upd_obj (O_Mq n) (\<lambda>ob. ob\<lparr>obj_flag := flag\<rparr>) s1);
     let ms = (ucast (RT_ALIGN sz RT_ALIGN_SIZE) :: u16);
     let m = (mqs s2 n)\<lparr>msg_size := ms, max_msgs := ucast (pool_size div (ucast ms + 4))\<rparr>;
     Some (RT_EOK, set_mq n (mq_reset_lists m) s2)
   }"

definition rt_mq_detach :: "nat \<Rightarrow> kernel \<Rightarrow> (rt_err_t \<times> kernel) option" where
  "rt_mq_detach n s = do {
     rt_assert (rt_object_get_type (O_Mq n) s = RT_Object_Class_MessageQueue);
     rt_assert (rt_object_is_systemobject (O_Mq n) s);
     s1 \<leftarrow> rt_ipc_list_resume_all (L_mq n) s;
     Some (RT_EOK, rt_object_detach (O_Mq n) s1)
   }"

definition rt_mq_delete :: "nat \<Rightarrow> kernel \<Rightarrow> (rt_err_t \<times> kernel) option" where
  "rt_mq_delete n s = do {
     rt_assert (rt_interrupt_nest s = 0);
     rt_assert (rt_object_get_type (O_Mq n) s = RT_Object_Class_MessageQueue);
     rt_assert (\<not> rt_object_is_systemobject (O_Mq n) s);
     s1 \<leftarrow> rt_ipc_list_resume_all (L_mq n) s;
     s2 \<leftarrow> rt_object_delete (O_Mq n) s1;
     Some (RT_EOK, s2)
   }"

text \<open>\<open>pool\<close> says whether \<open>RT_KERNEL_MALLOC\<close> has memory for the slots.\<close>

definition rt_mq_create ::
  "nat option \<Rightarrow> bool \<Rightarrow> string \<Rightarrow> u32 \<Rightarrow> u32 \<Rightarrow> u8 \<Rightarrow> kernel \<Rightarrow> (nat option \<times> kernel) option" where
  "rt_mq_create fresh pool nm sz maxm flag s = do {
     rt_assert (rt_interrupt_nest s = 0);
     (_, s1) \<leftarrow> rt_object_allocate (map_option O_Mq fresh) RT_Object_Class_MessageQueue nm s;
     case fresh of
       None \<Rightarrow> Some (None, s1)
     | Some n \<Rightarrow>
         let s2 = rt_ipc_object_init (L_mq n) (upd_obj (O_Mq n) (\<lambda>ob. ob\<lparr>obj_flag := flag\<rparr>) s1);
             m = (mqs s2 n)\<lparr>msg_size := ucast (RT_ALIGN sz RT_ALIGN_SIZE), max_msgs := ucast maxm\<rparr>;
             s3 = set_mq n m s2
         in if pool then Some (Some n, set_mq n (mq_reset_lists m) s3)
            else do { (_, s4) \<leftarrow> rt_mq_delete n s3; Some (None, s4) }
   }"

text \<open>Taking the first slot of the free list, copying the message into it, and linking it at
  either end of the queue.\<close>

definition mq_take_free :: "rt_messagequeue \<Rightarrow> (nat \<times> rt_messagequeue) option" where
  "mq_take_free m =
     (case msg_queue_free m of None \<Rightarrow> None | Some msg \<Rightarrow> Some (msg, m\<lparr>msg_queue_free := msg_next m msg\<rparr>))"

definition mq_copy_in :: "nat \<Rightarrow> u8 list \<Rightarrow> u32 \<Rightarrow> rt_messagequeue \<Rightarrow> rt_messagequeue option" where
  "mq_copy_in msg buffer sz m = do {
     rt_assert (unat sz \<le> length buffer);
     rt_assert (unat sz \<le> length (msg_data m msg));
     Some (m\<lparr>msg_data := (msg_data m)(msg := take (unat sz) buffer @ drop (unat sz) (msg_data m msg))\<rparr>)
   }"

definition mq_link_tail :: "nat \<Rightarrow> rt_messagequeue \<Rightarrow> rt_messagequeue" where
  "mq_link_tail msg m =
     (let m1 = (case msg_queue_tail m of None \<Rightarrow> m
                | Some t \<Rightarrow> m\<lparr>msg_next := (msg_next m)(t := Some msg)\<rparr>);
          m2 = m1\<lparr>msg_queue_tail := Some msg\<rparr>;
          m3 = (if msg_queue_head m2 = None then m2\<lparr>msg_queue_head := Some msg\<rparr> else m2)
      in m3\<lparr>mq_entry := mq_entry m3 + 1\<rparr>)"

definition mq_link_head :: "nat \<Rightarrow> rt_messagequeue \<Rightarrow> rt_messagequeue" where
  "mq_link_head msg m =
     (let m1 = m\<lparr>msg_next := (msg_next m)(msg := msg_queue_head m), msg_queue_head := Some msg\<rparr>;
          m2 = (if msg_queue_tail m1 = None then m1\<lparr>msg_queue_tail := Some msg\<rparr> else m1)
      in m2\<lparr>mq_entry := mq_entry m2 + 1\<rparr>)"

definition rt_mq_send :: "nat \<Rightarrow> u8 list \<Rightarrow> u32 \<Rightarrow> kernel \<Rightarrow> (rt_err_t \<times> kernel) option" where
  "rt_mq_send n buffer sz s = do {
     rt_assert (rt_object_get_type (O_Mq n) s = RT_Object_Class_MessageQueue);
     rt_assert (sz \<noteq> 0);
     if sz > ucast (msg_size (mqs s n)) then Some (- RT_ERROR, s)
     else
       (case mq_take_free (mqs s n) of
          None \<Rightarrow> Some (- RT_EFULL, s)
        | Some (msg, m1) \<Rightarrow> do {
            let m2 = m1\<lparr>msg_next := (msg_next m1)(msg := None)\<rparr>;
            m3 \<leftarrow> mq_copy_in msg buffer sz m2;
            s1 \<leftarrow> wake_first (L_mq n) (set_mq n (mq_link_tail msg m3) s);
            Some (RT_EOK, s1)
          })
   }"

definition rt_mq_urgent :: "nat \<Rightarrow> u8 list \<Rightarrow> u32 \<Rightarrow> kernel \<Rightarrow> (rt_err_t \<times> kernel) option" where
  "rt_mq_urgent n buffer sz s = do {
     rt_assert (rt_object_get_type (O_Mq n) s = RT_Object_Class_MessageQueue);
     rt_assert (sz \<noteq> 0);
     if sz > ucast (msg_size (mqs s n)) then Some (- RT_ERROR, s)
     else
       (case mq_take_free (mqs s n) of
          None \<Rightarrow> Some (- RT_EFULL, s)
        | Some (msg, m1) \<Rightarrow> do {
            m2 \<leftarrow> mq_copy_in msg buffer sz m1;
            s1 \<leftarrow> wake_first (L_mq n) (set_mq n (mq_link_head msg m2) s);
            Some (RT_EOK, s1)
          })
   }"

text \<open>Unlinking the first message, and putting its slot on the free list.\<close>

definition mq_unlink :: "rt_messagequeue \<Rightarrow> (nat \<times> rt_messagequeue) option" where
  "mq_unlink m = do {
     msg \<leftarrow> msg_queue_head m;
     let m1 = m\<lparr>msg_queue_head := msg_next m msg\<rparr>;
     Some (msg, if msg_queue_tail m1 = Some msg then m1\<lparr>msg_queue_tail := None\<rparr> else m1)
   }"

definition mq_put_free :: "nat \<Rightarrow> rt_messagequeue \<Rightarrow> rt_messagequeue" where
  "mq_put_free msg m = m\<lparr>msg_next := (msg_next m)(msg := msg_queue_free m), msg_queue_free := Some msg\<rparr>"

text \<open>One pass of the loop in \<open>rt_mq_recv\<close>, with the code behind the loop.\<close>

definition mq_recv_again ::
  "nat \<Rightarrow> tid option \<Rightarrow> u32 \<Rightarrow> u32 \<Rightarrow> kernel \<Rightarrow> ((u32 \<times> u32 \<times> u32) outcome \<times> u8 list option \<times> kernel) option" where
  "mq_recv_again n self sz timeout s =
     (if mq_entry (mqs s n) = 0
      then do {
        rt_assert (in_thread_context s);
        thread \<leftarrow> self;
        let s1 = upd_thread thread (\<lambda>th. th\<lparr>err := RT_EOK\<rparr>) s;
        if timeout = 0
        then Some (Done (- RT_ETIMEOUT), None, upd_thread thread (\<lambda>th. th\<lparr>err := - RT_ETIMEOUT\<rparr>) s1)
        else do {
          s2 \<leftarrow> ipc_wait (L_mq n) thread (obj_flag (objs s1 (O_Mq n))) timeout s1;
          Some (Block (sz, timeout, rt_tick_get s1), None, s2)
        }
      }
      else do {
        (msg, m1) \<leftarrow> mq_unlink (mqs s n);
        let m2 = m1\<lparr>mq_entry := mq_entry m1 - 1\<rparr>;
        let len = (if sz > ucast (msg_size m2) then unat (msg_size m2) else unat sz);
        rt_assert (len \<le> length (msg_data m2 msg));
        Some (Done RT_EOK, Some (take len (msg_data m2 msg)), set_mq n (mq_put_free msg m2) s)
      })"

definition rt_mq_recv ::
  "nat \<Rightarrow> u32 \<Rightarrow> u32 \<Rightarrow> kernel \<Rightarrow> ((u32 \<times> u32 \<times> u32) outcome \<times> u8 list option \<times> kernel) option" where
  "rt_mq_recv n sz timeout s = do {
     rt_assert (rt_object_get_type (O_Mq n) s = RT_Object_Class_MessageQueue);
     rt_assert (sz \<noteq> 0);
     if mq_entry (mqs s n) = 0 \<and> timeout = 0 then Some (Done (- RT_ETIMEOUT), None, s)
     else mq_recv_again n (rt_thread_self s) sz timeout s
   }"

definition rt_mq_recv_wake ::
  "nat \<Rightarrow> tid \<Rightarrow> u32 \<times> u32 \<times> u32 \<Rightarrow> kernel \<Rightarrow> ((u32 \<times> u32 \<times> u32) outcome \<times> u8 list option \<times> kernel) option" where
  "rt_mq_recv_wake n thread k s =
     (let (sz, timeout, tick_delta) = k in
      if err (threads s thread) \<noteq> RT_EOK then Some (Done (err (threads s thread)), None, s)
      else mq_recv_again n (Some thread) sz (remaining_timeout timeout tick_delta (rt_tick_get s)) s)"

partial_function (option) mq_flush :: "rt_messagequeue \<Rightarrow> rt_messagequeue option" where
  "mq_flush m =
     (case msg_queue_head m of
        None \<Rightarrow> Some m
      | Some h \<Rightarrow> do { (msg, m1) \<leftarrow> mq_unlink m; mq_flush (mq_put_free msg m1) })"

definition rt_mq_control :: "nat \<Rightarrow> int \<Rightarrow> kernel \<Rightarrow> (rt_err_t \<times> kernel) option" where
  "rt_mq_control n cmd s = do {
     rt_assert (rt_object_get_type (O_Mq n) s = RT_Object_Class_MessageQueue);
     if cmd = RT_IPC_CMD_RESET
     then do {
       s1 \<leftarrow> rt_ipc_list_resume_all (L_mq n) s;
       m \<leftarrow> mq_flush (mqs s1 n);
       s2 \<leftarrow> rt_schedule (set_mq n (m\<lparr>mq_entry := 0\<rparr>) s1);
       Some (RT_EOK, s2)
     }
     else Some (- RT_ERROR, s)
   }"

subsection \<open>Linked slots\<close>

text \<open>Queue and free list are disjoint chains of all slots, and the tail pointer is the last
  slot of the queue.\<close>

definition mq_links :: "nat list \<Rightarrow> nat list \<Rightarrow> rt_messagequeue \<Rightarrow> bool" where
  "mq_links q fr m \<longleftrightarrow>
     chain (msg_next m) (msg_queue_head m) q \<and> chain (msg_next m) (msg_queue_free m) fr \<and>
     msg_queue_tail m = (if q = [] then None else Some (last q)) \<and>
     distinct (q @ fr) \<and> set (q @ fr) = {..<unat (max_msgs m)} \<and>
     (\<forall>i < unat (max_msgs m). length (msg_data m i) = unat (msg_size m))"

definition mq_rep :: "nat list \<Rightarrow> nat list \<Rightarrow> rt_messagequeue \<Rightarrow> bool" where
  "mq_rep q fr m \<longleftrightarrow> mq_links q fr m \<and> unat (mq_entry m) = length q"

lemma mq_links_entry [simp]: "mq_links q fr (m\<lparr>mq_entry := e\<rparr>) = mq_links q fr m"
  by (simp add: mq_links_def)

definition mq_slots :: "rt_messagequeue \<Rightarrow> nat list" where
  "mq_slots m = walk (unat (mq_entry m)) (msg_next m) (msg_queue_head m)"

definition mq_msgs :: "rt_messagequeue \<Rightarrow> u8 list list" where
  "mq_msgs m = map (msg_data m) (mq_slots m)"

definition mq_inv :: "rt_messagequeue \<Rightarrow> bool" where
  "mq_inv m \<longleftrightarrow> (\<exists>fr. mq_rep (mq_slots m) fr m)"

lemma mq_rep_slots: "mq_rep q fr m \<Longrightarrow> mq_slots m = q"
  by (auto simp: mq_rep_def mq_links_def mq_slots_def intro: walk_chain)

lemma mq_repI: "mq_rep q fr m \<Longrightarrow> mq_inv m \<and> mq_msgs m = map (msg_data m) q"
  using mq_rep_slots [of q fr m] by (auto simp: mq_inv_def mq_msgs_def)

lemma mq_rep_count:
  assumes "mq_rep q fr m"
  shows "length q + length fr = unat (max_msgs m)"
proof -
  have "distinct (q @ fr)" "set (q @ fr) = {..<unat (max_msgs m)}" using assms by (simp_all only: mq_rep_def mq_links_def)
  then have "length (q @ fr) = card {..<unat (max_msgs m)}" by (metis distinct_card)
  then show ?thesis by simp
qed

subsection \<open>The steps on the slots\<close>

lemma entry_succ:
  fixes e k :: u16
  assumes "unat e < unat k"
  shows "unat (e + 1) = unat e + 1"
  using assms unat_less_2p [of k] unat_add_small [of e 1] by simp

lemma unat_16_32 [simp]: "unat (ucast (w :: u16) :: u32) = unat w"
  using unat_less_2p [of w] by (intro unat_ucast_le) simp

lemma send_steps:
  assumes r: "mq_rep q (i # fr) m" and sz: "unat sz \<le> length b" "unat sz \<le> unat (msg_size m)"
  defines "d \<equiv> take (unat sz) b @ drop (unat sz) (msg_data m i)"
  obtains m1 m3 where "mq_take_free m = Some (i, m1)"
    "mq_copy_in i b sz (m1\<lparr>msg_next := (msg_next m1)(i := None)\<rparr>) = Some m3"
    "mq_rep (q @ [i]) fr (mq_link_tail i m3)" "mq_msgs (mq_link_tail i m3) = mq_msgs m @ [d]"
    "msg_size (mq_link_tail i m3) = msg_size m" "max_msgs (mq_link_tail i m3) = max_msgs m"
proof -
  note R = r [unfolded mq_rep_def mq_links_def]
  let ?m1 = "m\<lparr>msg_queue_free := msg_next m i\<rparr>"
  let ?m3 = "?m1\<lparr>msg_next := (msg_next m)(i := None), msg_data := (msg_data m)(i := d)\<rparr>"
  have i: "i < unat (max_msgs m)" "i \<notin> set q" "i \<notin> set fr" using R by auto
  have di: "length (msg_data m i) = unat (msg_size m)" using R i by blast
  have t: "mq_take_free m = Some (i, ?m1)" using R by (simp add: mq_take_free_def)
  have c: "mq_copy_in i b sz (?m1\<lparr>msg_next := (msg_next ?m1)(i := None)\<rparr>) = Some ?m3"
    using sz di by (simp add: mq_copy_in_def d_def)
  have e: "unat (mq_entry m + 1) = length q + 1"
    using R mq_rep_count [OF r] entry_succ [of "mq_entry m" "max_msgs m"] by simp
  let ?L = "mq_link_tail i ?m3"
  have f: "msg_data ?L = (msg_data m)(i := d)" "msg_queue_free ?L = msg_next m i" "mq_entry ?L = mq_entry m + 1"
      "msg_queue_tail ?L = Some i" "msg_size ?L = msg_size m" "max_msgs ?L = max_msgs m"
    by (simp_all add: mq_link_tail_def Let_def split: option.splits)
  have ch: "chain (msg_next ?L) (msg_queue_head ?L) (q @ [i])" "chain (msg_next ?L) (msg_next m i) fr"
  proof -
    show "chain (msg_next ?L) (msg_queue_head ?L) (q @ [i])"
    proof (cases "q = []")
      case True
      then show ?thesis using R by (simp add: mq_link_tail_def Let_def)
    next
      case False
      then have "msg_queue_head m \<noteq> None" "msg_queue_tail m = Some (last q)" using R by (cases q; auto)+
      moreover have "chain ((msg_next m)(i := None)) (msg_queue_head m) q" using R i by (simp add: chain_upd)
      then have "chain (((msg_next m)(i := None))(last q := Some i)) (msg_queue_head m) (q @ [i])"
        using False R i by (intro chain_snoc) auto
      ultimately show ?thesis by (auto simp: mq_link_tail_def Let_def)
    qed
    have "last q \<notin> set fr" if "q \<noteq> []" using R last_in_set [OF that] by (auto simp: disjoint_iff)
    then show "chain (msg_next ?L) (msg_next m i) fr"
      using R i by (auto simp: mq_link_tail_def Let_def chain_upd split: if_splits)
  qed
  have rep: "mq_rep (q @ [i]) fr ?L"
    unfolding mq_rep_def mq_links_def f using R ch e i di sz by (auto simp: d_def)
  moreover have "mq_msgs ?L = mq_msgs m @ [d]"
    using mq_repI [OF rep] mq_repI [OF r] i by (simp add: f)
  ultimately show thesis using that [OF t c] f by blast
qed

lemma urgent_steps:
  assumes r: "mq_rep q (i # fr) m" and sz: "unat sz \<le> length b" "unat sz \<le> unat (msg_size m)"
  defines "d \<equiv> take (unat sz) b @ drop (unat sz) (msg_data m i)"
  obtains m1 m2 where "mq_take_free m = Some (i, m1)" "mq_copy_in i b sz m1 = Some m2"
    "mq_rep (i # q) fr (mq_link_head i m2)" "mq_msgs (mq_link_head i m2) = d # mq_msgs m"
    "msg_size (mq_link_head i m2) = msg_size m" "max_msgs (mq_link_head i m2) = max_msgs m"
proof -
  note R = r [unfolded mq_rep_def mq_links_def]
  let ?m1 = "m\<lparr>msg_queue_free := msg_next m i\<rparr>"
  let ?m2 = "?m1\<lparr>msg_data := (msg_data m)(i := d)\<rparr>"
  have i: "i < unat (max_msgs m)" "i \<notin> set q" "i \<notin> set fr" using R by auto
  have di: "length (msg_data m i) = unat (msg_size m)" using R i by blast
  have t: "mq_take_free m = Some (i, ?m1)" using R by (simp add: mq_take_free_def)
  have c: "mq_copy_in i b sz ?m1 = Some ?m2" using sz di by (simp add: mq_copy_in_def d_def)
  have e: "unat (mq_entry m + 1) = length q + 1"
    using R mq_rep_count [OF r] entry_succ [of "mq_entry m" "max_msgs m"] by simp
  let ?L = "mq_link_head i ?m2"
  have f: "msg_data ?L = (msg_data m)(i := d)" "msg_queue_free ?L = msg_next m i" "mq_entry ?L = mq_entry m + 1"
      "msg_queue_head ?L = Some i" "msg_next ?L = (msg_next m)(i := msg_queue_head m)"
      "msg_queue_tail ?L = Some (last (i # q))" "msg_size ?L = msg_size m" "max_msgs ?L = max_msgs m"
    using R by (simp_all add: mq_link_head_def Let_def)
  have rep: "mq_rep (i # q) fr ?L"
    unfolding mq_rep_def mq_links_def f using R e i di sz by (auto simp: d_def chain_upd)
  moreover have "mq_msgs ?L = d # mq_msgs m" using mq_repI [OF rep] mq_repI [OF r] i by (simp add: f)
  ultimately show thesis using that [OF t c] f by blast
qed

lemma unlink_steps:
  assumes r: "mq_links (i # q) fr m"
  obtains m1 where "mq_unlink m = Some (i, m1)" "mq_links q (i # fr) (mq_put_free i m1)"
    "msg_data m1 = msg_data m" "msg_size m1 = msg_size m" "max_msgs m1 = max_msgs m" "mq_entry m1 = mq_entry m"
proof -
  note R = r [unfolded mq_links_def]
  let ?m1 = "m\<lparr>msg_queue_head := msg_next m i, msg_queue_tail := (if q = [] then None else Some (last q))\<rparr>"
  have i: "i \<notin> set q" "i \<notin> set fr" using R by auto
  have tl: "msg_queue_tail m = Some i \<longleftrightarrow> q = []" using R i last_in_set [of q] by auto
  have "(if msg_queue_tail m = Some i then m\<lparr>msg_queue_head := msg_next m i, msg_queue_tail := None\<rparr>
      else m\<lparr>msg_queue_head := msg_next m i\<rparr>) = ?m1" using tl R by (auto intro!: rt_messagequeue.equality)
  then have "mq_unlink m = Some (i, ?m1)" using R by (simp add: mq_unlink_def)
  moreover have "mq_links q (i # fr) (mq_put_free i ?m1)"
    unfolding mq_links_def mq_put_free_def using R i by (auto simp: chain_upd)
  ultimately show thesis using that by simp
qed

lemma recv_steps:
  assumes r: "mq_rep (i # q) fr m"
  obtains m1 where "mq_unlink m = Some (i, m1)" "mq_rep q (i # fr) (mq_put_free i (m1\<lparr>mq_entry := mq_entry m1 - 1\<rparr>))"
    "msg_data m1 = msg_data m" "msg_size m1 = msg_size m" "max_msgs m1 = max_msgs m"
    "mq_msgs m = msg_data m i # mq_msgs (mq_put_free i (m1\<lparr>mq_entry := mq_entry m1 - 1\<rparr>))"
proof -
  have l: "mq_links (i # q) fr m" and e: "unat (mq_entry m) = Suc (length q)" using r by (simp_all add: mq_rep_def)
  obtain m1 where m1: "mq_unlink m = Some (i, m1)" "mq_links q (i # fr) (mq_put_free i m1)"
    "msg_data m1 = msg_data m" "msg_size m1 = msg_size m" "max_msgs m1 = max_msgs m" "mq_entry m1 = mq_entry m"
    by (rule unlink_steps [OF l])
  let ?m = "mq_put_free i (m1\<lparr>mq_entry := mq_entry m1 - 1\<rparr>)"
  have "mq_entry m \<noteq> 0" using e by auto
  then have "unat (mq_entry m - 1) = length q" using e by (metis diff_Suc_1 unat_minus_one)
  moreover have "mq_links q (i # fr) ?m" using m1(2) by (simp add: mq_links_def mq_put_free_def)
  ultimately have rep: "mq_rep q (i # fr) ?m" using m1(6) by (simp add: mq_rep_def mq_put_free_def)
  moreover have "mq_msgs m = msg_data m i # mq_msgs ?m"
    using mq_repI [OF rep] mq_repI [OF r] m1(3) by (simp add: mq_put_free_def)
  ultimately show thesis using that m1 by blast
qed

lemma flush_total:
  assumes "mq_links q fr m"
  shows "\<exists>m'. mq_flush m = Some m' \<and> mq_rep [] (rev q @ fr) (m'\<lparr>mq_entry := 0\<rparr>)"
  using assms
proof (induction q arbitrary: fr m)
  case Nil
  then show ?case by (subst mq_flush.simps) (simp add: mq_rep_def mq_links_def)
next
  case (Cons i q)
  obtain m1 where m1: "mq_unlink m = Some (i, m1)" "mq_links q (i # fr) (mq_put_free i m1)"
    by (rule unlink_steps [OF Cons.prems])
  have "msg_queue_head m = Some i" using Cons.prems by (simp add: mq_links_def)
  then have "mq_flush m = mq_flush (mq_put_free i m1)" using m1(1) by (subst mq_flush.simps) simp
  then show ?case using Cons.IH [OF m1(2)] by simp
qed

lemma free_loop:
  assumes "chain (msg_next m) (msg_queue_free m) fr" "\<forall>i \<in> set fr. i < a" "mq_free_loop a k m = m'"
  shows "chain (msg_next m') (msg_queue_free m') (rev [a..<a + k] @ fr) \<and> msg_queue_head m' = msg_queue_head m \<and>
    msg_queue_tail m' = msg_queue_tail m \<and> max_msgs m' = max_msgs m \<and> msg_size m' = msg_size m \<and> msg_data m' = msg_data m"
  using assms
proof (induction k arbitrary: a m fr)
  case (Suc k)
  let ?m = "m\<lparr>msg_next := (msg_next m)(a := msg_queue_free m), msg_queue_free := Some a\<rparr>"
  have u: "rev [a..<a + Suc k] = rev [Suc a..<Suc a + k] @ [a]" by (simp only: upt_conv_Cons [of a "a + Suc k"]) simp
  have "a \<notin> set fr" using Suc.prems(2) by auto
  then have c: "chain (msg_next ?m) (msg_queue_free ?m) (a # fr)" using Suc.prems(1) by (simp add: chain_upd)
  have "\<forall>i \<in> set (a # fr). i < Suc a" using Suc.prems(2) by auto
  moreover have "mq_free_loop (Suc a) k ?m = m'" using Suc.prems(3) by simp
  ultimately show ?case using Suc.IH [OF c, of "Suc a"] unfolding u by (simp del: upt_Suc)
qed simp

lemma reset_lists_inv:
  assumes "\<forall>i < unat (max_msgs m). length (msg_data m i) = unat (msg_size m)"
  shows "mq_rep [] (rev [0..<unat (max_msgs m)]) (mq_reset_lists m)"
  using free_loop [of "m\<lparr>msg_queue_head := None, msg_queue_tail := None, msg_queue_free := None\<rparr>" "[]" 0 "unat (max_msgs m)", OF _ _ refl] assms
  by (auto simp: mq_reset_lists_def mq_rep_def mq_links_def)

subsection \<open>Frame\<close>

lemma set_mq_frame [simp]:
  "threads (set_mq n m s) = threads s" "tq (set_mq n m s) = tq s"
  "rt_thread_ready_priority_group (set_mq n m s) = rt_thread_ready_priority_group s"
  "rt_scheduler_lock_nest (set_mq n m s) = rt_scheduler_lock_nest s"
  "rt_current_thread (set_mq n m s) = rt_current_thread s"
  "rt_interrupt_nest (set_mq n m s) = rt_interrupt_nest s" "rt_tick (set_mq n m s) = rt_tick s"
  "objs (set_mq n m s) = objs s" "object_list (set_mq n m s) = object_list s"
  "timers (set_mq n m s) = timers s" "rt_timer_list (set_mq n m s) = rt_timer_list s"
  "sems (set_mq n m s) = sems s" "mutexes (set_mq n m s) = mutexes s"
  "events (set_mq n m s) = events s" "mailboxes (set_mq n m s) = mailboxes s"
  "mempools (set_mq n m s) = mempools s"
  "mqs (set_mq n m s) j = (if j = n then m else mqs s j)"
  by (simp_all add: set_mq_def)

lemma set_mq_kinv [simp]: "kinv (set_mq n m s) = kinv s"
proof
  show "kinv s" if "kinv (set_mq n m s)" by (rule kinv_cong [OF that]) simp_all
  show "kinv (set_mq n m s)" if "kinv s" by (rule kinv_cong [OF that]) simp_all
qed

lemma set_mq_other [simp]:
  "otype (set_mq n m s) = otype s" "tstat (set_mq n m s) = tstat s" "live (set_mq n m s) = live s"
  by (simp_all add: otype_def tstat_def live_def fun_eq_iff)

subsection \<open>The calls\<close>

definition mq_ready :: "nat \<Rightarrow> kernel \<Rightarrow> bool" where
  "mq_ready n s \<longleftrightarrow>
     kinv s \<and> otype s (O_Mq n) = RT_Object_Class_MessageQueue \<and> rt_current_thread s \<noteq> None \<and> mq_inv (mqs s n)"

abbreviation mq_full :: "rt_messagequeue \<Rightarrow> bool" where
  "mq_full m \<equiv> length (mq_msgs m) = unat (max_msgs m)"

lemma mq_invE:
  assumes "mq_inv m"
  obtains (full) q where "mq_rep q [] m" "mq_full m" "msg_queue_free m = None"
  | (room) q i fr where "mq_rep q (i # fr) m" "length (mq_msgs m) < unat (max_msgs m)" "i < unat (max_msgs m)"
proof -
  obtain q fr where r: "mq_rep q fr m" using assms by (auto simp: mq_inv_def)
  have n: "length (mq_msgs m) + length fr = unat (max_msgs m)" using mq_rep_count [OF r] mq_repI [OF r] by simp
  show thesis
  proof (cases fr)
    case Nil
    then show thesis using full r n by (auto simp: mq_rep_def mq_links_def)
  next
    case (Cons i fr')
    then have "i < unat (max_msgs m)" using r by (auto simp: mq_rep_def mq_links_def)
    then show thesis using room r n Cons by auto
  qed
qed

lemma mq_wake_total:
  assumes r: "mq_ready n s" and m: "mq_rep q fr m"
  obtains s' where "wake_first (L_mq n) (set_mq n m s) = Some s'" "woke_first (L_mq n) (set_mq n m s) s'" "mq_ready n s'"
    "mqs s' n = m"
proof -
  have k: "kinv (set_mq n m s)" and c: "rt_current_thread (set_mq n m s) \<noteq> None" using r by (simp_all add: mq_ready_def)
  obtain s' where s': "wake_first (L_mq n) (set_mq n m s) = Some s'" "woke_first (L_mq n) (set_mq n m s) s'"
    using wake_first_total [OF k c, of "L_mq n"] by auto
  note W = woke_first_same [OF s'(2) k c]
  have "mqs s' n = m" using ipc_sameD(5) [OF W(2)] by simp
  moreover have "mq_ready n s'" using W r mq_repI [OF m] ipc_sameD(5,11) [OF W(2)] by (simp add: mq_ready_def)
  ultimately show thesis using that s' by blast
qed

text \<open>A send or an urgent send with room; \<open>d\<close> is the slot after the copy: the message, then what
  was left in the slot.\<close>

lemma send_room:
  assumes r: "mq_ready n s" and sz: "sz \<noteq> 0" "sz \<le> ucast (msg_size (mqs s n))" "unat sz \<le> length b"
    and room: "\<not> mq_full (mqs s n)"
  obtains d s1 s2 where "take (unat sz) d = take (unat sz) b" "length d = unat (msg_size (mqs s n))"
    "rt_mq_send n b sz s = Some (0, s1)" "mq_ready n s1" "mq_msgs (mqs s1 n) = mq_msgs (mqs s n) @ [d]"
    "woke_first (L_mq n) (set_mq n (mqs s1 n) s) s1"
    "msg_size (mqs s1 n) = msg_size (mqs s n)" "max_msgs (mqs s1 n) = max_msgs (mqs s n)"
    "rt_mq_urgent n b sz s = Some (0, s2)" "mq_ready n s2" "mq_msgs (mqs s2 n) = d # mq_msgs (mqs s n)"
    "woke_first (L_mq n) (set_mq n (mqs s2 n) s) s2"
    "msg_size (mqs s2 n) = msg_size (mqs s n)" "max_msgs (mqs s2 n) = max_msgs (mqs s n)"
proof -
  let ?m = "mqs s n"
  have ty: "rt_object_get_type (O_Mq n) s = 6" using r by (simp add: mq_ready_def get_type_otype)
  have sz': "unat sz \<le> unat (msg_size ?m)" using sz(2) by (simp add: word_le_nat_alt unat_ucast_le)
  obtain q i fr where R: "mq_rep q (i # fr) ?m" "i < unat (max_msgs ?m)"
    using r room by (auto simp: mq_ready_def elim: mq_invE)
  let ?d = "take (unat sz) b @ drop (unat sz) (msg_data ?m i)"
  have di: "length (msg_data ?m i) = unat (msg_size ?m)" using R by (simp add: mq_rep_def mq_links_def)
  obtain m1 m3 where S: "mq_take_free ?m = Some (i, m1)"
    "mq_copy_in i b sz (m1\<lparr>msg_next := (msg_next m1)(i := None)\<rparr>) = Some m3"
    "mq_rep (q @ [i]) fr (mq_link_tail i m3)" "mq_msgs (mq_link_tail i m3) = mq_msgs ?m @ [?d]"
    "msg_size (mq_link_tail i m3) = msg_size ?m" "max_msgs (mq_link_tail i m3) = max_msgs ?m"
    by (rule send_steps [OF R(1) sz(3) sz'])
  obtain m1' m2 where U: "mq_take_free ?m = Some (i, m1')" "mq_copy_in i b sz m1' = Some m2"
    "mq_rep (i # q) fr (mq_link_head i m2)" "mq_msgs (mq_link_head i m2) = ?d # mq_msgs ?m"
    "msg_size (mq_link_head i m2) = msg_size ?m" "max_msgs (mq_link_head i m2) = max_msgs ?m"
    by (rule urgent_steps [OF R(1) sz(3) sz'])
  obtain s1 where s1: "wake_first (L_mq n) (set_mq n (mq_link_tail i m3) s) = Some s1"
      "woke_first (L_mq n) (set_mq n (mq_link_tail i m3) s) s1" "mq_ready n s1" "mqs s1 n = mq_link_tail i m3"
    by (rule mq_wake_total [OF r S(3)])
  obtain s2 where s2: "wake_first (L_mq n) (set_mq n (mq_link_head i m2) s) = Some s2"
      "woke_first (L_mq n) (set_mq n (mq_link_head i m2) s) s2" "mq_ready n s2" "mqs s2 n = mq_link_head i m2"
    by (rule mq_wake_total [OF r U(3)])
  have "rt_mq_send n b sz s = Some (0, s1)" "rt_mq_urgent n b sz s = Some (0, s2)"
    using ty sz(1,2) S(1,2) U(1,2) s1(1) s2(1) by (simp_all add: rt_mq_send_def rt_mq_urgent_def)
  then show thesis using that [of ?d] S(4-6) U(4-6) s1 s2 sz(3) sz' di by simp
qed

lemma send_full:
  assumes r: "mq_ready n s" and sz: "sz \<noteq> 0" "sz \<le> ucast (msg_size (mqs s n))" and full: "mq_full (mqs s n)"
  shows "rt_mq_send n b sz s = Some (- 3, s)" "rt_mq_urgent n b sz s = Some (- 3, s)"
proof -
  have "msg_queue_free (mqs s n) = None" using r full by (auto simp: mq_ready_def elim: mq_invE)
  then have "mq_take_free (mqs s n) = None" by (simp add: mq_take_free_def)
  then show "rt_mq_send n b sz s = Some (- 3, s)" "rt_mq_urgent n b sz s = Some (- 3, s)"
    using r sz by (simp_all add: rt_mq_send_def rt_mq_urgent_def mq_ready_def get_type_otype)
qed

lemma msgs_empty: "mq_inv m \<Longrightarrow> mq_msgs m = [] \<longleftrightarrow> mq_entry m = 0"
  by (auto simp: mq_inv_def mq_rep_def mq_msgs_def unat_eq_zero)

lemma recv_some:
  assumes r: "mq_ready n s" and sz: "sz \<noteq> 0" and ne: "mq_msgs (mqs s n) = d # ds"
  obtains s' where "rt_mq_recv n sz timeout s = Some (Done 0, Some (take (unat sz) d), s')" "mq_ready n s'"
    "mq_msgs (mqs s' n) = ds" "s' = set_mq n (mqs s' n) s"
    "msg_size (mqs s' n) = msg_size (mqs s n)" "max_msgs (mqs s' n) = max_msgs (mqs s n)"
proof -
  let ?m = "mqs s n"
  have inv: "mq_inv ?m" and ty: "rt_object_get_type (O_Mq n) s = 6" using r by (simp_all add: mq_ready_def get_type_otype)
  then obtain q fr where R0: "mq_rep q fr ?m" by (auto simp: mq_inv_def)
  then obtain i q' where q: "q = i # q'" using ne mq_repI [OF R0] by (cases q) auto
  note R = R0 [unfolded q]
  obtain m1 where m1: "mq_unlink ?m = Some (i, m1)" "mq_rep q' (i # fr) (mq_put_free i (m1\<lparr>mq_entry := mq_entry m1 - 1\<rparr>))"
    "msg_data m1 = msg_data ?m" "msg_size m1 = msg_size ?m" "max_msgs m1 = max_msgs ?m"
    "mq_msgs ?m = msg_data ?m i # mq_msgs (mq_put_free i (m1\<lparr>mq_entry := mq_entry m1 - 1\<rparr>))"
    by (rule recv_steps [OF R])
  let ?m2 = "mq_put_free i (m1\<lparr>mq_entry := mq_entry m1 - 1\<rparr>)"
  have d: "msg_data ?m i = d" "mq_msgs ?m2 = ds" using m1(6) ne by auto
  have ld: "length d = unat (msg_size ?m)" using R d(1) by (auto simp: mq_rep_def mq_links_def)
  have e: "mq_entry ?m \<noteq> 0" using msgs_empty [OF inv] ne by auto
  let ?len = "if sz > ucast (msg_size ?m) then unat (msg_size ?m) else unat sz"
  have len: "?len \<le> length d" "take ?len d = take (unat sz) d"
    using ld by (auto simp: word_less_nat_alt unat_ucast_le not_less)
  have "rt_mq_recv n sz timeout s = Some (Done 0, Some (take (unat sz) d), set_mq n ?m2 s)"
    using ty sz e m1(1,3,4) d len by (simp add: rt_mq_recv_def mq_recv_again_def Let_def split del: if_split cong: if_cong)
  moreover have "mq_ready n (set_mq n ?m2 s)" using r mq_repI [OF m1(2)] by (simp add: mq_ready_def)
  moreover have "msg_size ?m2 = msg_size ?m" "max_msgs ?m2 = max_msgs ?m" using m1 by (simp_all add: mq_put_free_def)
  ultimately show thesis using that [of "set_mq n ?m2 s"] d by simp
qed

subsection \<open>A bounded double-ended queue\<close>

datatype mq_op = Send "u8 list" | Urgent "u8 list" | Recv

text \<open>The abstract component: the capacity and the messages; every call answers an error code
  and, for a receive, a message.\<close>

fun deque_spec :: "mq_op \<Rightarrow> nat \<times> u8 list list \<Rightarrow> (nat \<times> u8 list list) \<times> (rt_err_t \<times> u8 list option) option" where
  "deque_spec (Send b) (cap, q) =
     (if length q = cap then ((cap, q), Some (- RT_EFULL, None)) else ((cap, q @ [b]), Some (RT_EOK, None)))"
| "deque_spec (Urgent b) (cap, q) =
     (if length q = cap then ((cap, q), Some (- RT_EFULL, None)) else ((cap, b # q), Some (RT_EOK, None)))"
| "deque_spec Recv (cap, q) =
     (case q of [] \<Rightarrow> ((cap, q), Some (- RT_ETIMEOUT, None)) | d # ds \<Rightarrow> ((cap, ds), Some (RT_EOK, Some d)))"

text \<open>The calls of the kernel with whole messages and without waiting; a fault answers \<open>None\<close>.\<close>

fun mq_call :: "nat \<Rightarrow> mq_op \<Rightarrow> kernel \<Rightarrow> kernel \<times> (rt_err_t \<times> u8 list option) option" where
  "mq_call n (Send b) s =
     (case rt_mq_send n b (of_nat (length b)) s of None \<Rightarrow> (s, None) | Some (e, s') \<Rightarrow> (s', Some (e, None)))"
| "mq_call n (Urgent b) s =
     (case rt_mq_urgent n b (of_nat (length b)) s of None \<Rightarrow> (s, None) | Some (e, s') \<Rightarrow> (s', Some (e, None)))"
| "mq_call n Recv s =
     (case rt_mq_recv n (ucast (msg_size (mqs s n))) 0 s of
        Some (Done e, d, s') \<Rightarrow> (s', Some (e, d)) | _ \<Rightarrow> (s, None))"

fun mq_arg_ok :: "nat \<Rightarrow> kernel \<Rightarrow> mq_op \<Rightarrow> bool" where
  "mq_arg_ok n s (Send b) \<longleftrightarrow> length b = unat (msg_size (mqs s n)) \<and> b \<noteq> []"
| "mq_arg_ok n s (Urgent b) \<longleftrightarrow> length b = unat (msg_size (mqs s n)) \<and> b \<noteq> []"
| "mq_arg_ok n s Recv \<longleftrightarrow> msg_size (mqs s n) \<noteq> 0"

abbreviation mq_abs :: "nat \<Rightarrow> kernel \<Rightarrow> nat \<times> u8 list list" where
  "mq_abs n s \<equiv> (unat (max_msgs (mqs s n)), mq_msgs (mqs s n))"

lemma whole_message:
  assumes "length b = unat (w :: u16)" "b \<noteq> []"
  shows "unat (of_nat (length b) :: u32) = length b" "(of_nat (length b) :: u32) \<noteq> 0" "(of_nat (length b) :: u32) \<le> ucast w"
proof -
  have "length b < 2 ^ 16" using assms(1) unat_less_2p [of w] by simp
  then show u: "unat (of_nat (length b) :: u32) = length b" by (simp add: unat_of_nat take_bit_nat_eq_self)
  then show "(of_nat (length b) :: u32) \<noteq> 0" using assms(2) by (metis length_0_conv unat_0)
  show "(of_nat (length b) :: u32) \<le> ucast w" using u assms(1) by (simp add: word_le_nat_alt)
qed

lemma mq_call_sim:
  assumes r: "mq_ready n s" and a: "mq_arg_ok n s x" and c: "mq_call n x s = (s', res)"
  shows "mq_ready n s' \<and> deque_spec x (mq_abs n s) = (mq_abs n s', res) \<and> msg_size (mqs s' n) = msg_size (mqs s n)"
proof -
  have snd: "mq_ready n s' \<and> deque_spec x (mq_abs n s) = (mq_abs n s', res) \<and> msg_size (mqs s' n) = msg_size (mqs s n)"
    if x: "x = Send b \<or> x = Urgent b" and b: "length b = unat (msg_size (mqs s n))" "b \<noteq> []" for b
  proof -
    note W = whole_message [OF b]
    show ?thesis
    proof (cases "mq_full (mqs s n)")
      case True
      then show ?thesis using send_full [OF r W(2,3) True, of b] x c r by auto
    next
      case False
      have le: "unat (of_nat (length b) :: u32) \<le> length b" using W(1) by simp
      obtain d s1 s2 where D: "take (unat (of_nat (length b) :: u32)) d = take (unat (of_nat (length b) :: u32)) b"
        "length d = unat (msg_size (mqs s n))"
        "rt_mq_send n b (of_nat (length b)) s = Some (0, s1)" "mq_ready n s1" "mq_msgs (mqs s1 n) = mq_msgs (mqs s n) @ [d]"
        "msg_size (mqs s1 n) = msg_size (mqs s n)" "max_msgs (mqs s1 n) = max_msgs (mqs s n)"
        "rt_mq_urgent n b (of_nat (length b)) s = Some (0, s2)" "mq_ready n s2" "mq_msgs (mqs s2 n) = d # mq_msgs (mqs s n)"
        "msg_size (mqs s2 n) = msg_size (mqs s n)" "max_msgs (mqs s2 n) = max_msgs (mqs s n)"
        by (rule send_room [OF r W(2,3) le False]) blast
      have "d = b" using D(1,2) unfolding W(1) by (simp add: b(1))
      show ?thesis
      proof (cases "x = Send b")
        case True
        then show ?thesis using c False D(3-7) \<open>d = b\<close> by auto
      next
        case other: False
        then show ?thesis using x c False D(8-12) \<open>d = b\<close> by auto
      qed
    qed
  qed
  show ?thesis
  proof (cases x)
    case Recv
    have sz: "ucast (msg_size (mqs s n)) \<noteq> (0 :: u32)" using a Recv by (simp add: unat_eq_zero flip: unat_0_iff)
    show ?thesis
    proof (cases "mq_msgs (mqs s n)")
      case Nil
      then have "mq_entry (mqs s n) = 0" using msgs_empty r by (auto simp: mq_ready_def)
      then show ?thesis using Nil Recv c r sz by (auto simp: rt_mq_recv_def mq_ready_def get_type_otype)
    next
      case (Cons d ds)
      have "length d = unat (msg_size (mqs s n))"
        using r Cons by (auto simp: mq_ready_def mq_inv_def mq_rep_def mq_links_def mq_msgs_def)
      then have "take (unat (ucast (msg_size (mqs s n)) :: u32)) d = d" by simp
      then obtain s1 where "rt_mq_recv n (ucast (msg_size (mqs s n))) 0 s = Some (Done 0, Some d, s1)" "mq_ready n s1"
          "mq_msgs (mqs s1 n) = ds" "msg_size (mqs s1 n) = msg_size (mqs s n)" "max_msgs (mqs s1 n) = max_msgs (mqs s n)"
        using recv_some [OF r sz Cons, of 0] by metis
      then show ?thesis using Cons Recv c by auto
    qed
  qed (use a snd in auto)
qed

interpretation mqs: simulation "mq_ready n" "mq_abs n" "mq_arg_ok n" "mq_call n" deque_spec for n
proof
  fix s s' :: kernel and x y r
  assume r: "mq_ready n s" and a: "mq_arg_ok n s x" and c: "mq_call n x s = (s', r)"
  show "mq_ready n s' \<and> deque_spec x (mq_abs n s) = (mq_abs n s', r)" using mq_call_sim [OF r a c] by blast
  show "mq_arg_ok n s' y = mq_arg_ok n s y" using mq_call_sim [OF r a c] by (cases y) auto
qed

subsection \<open>Correctness\<close>

text \<open>C14: over every sequence of sends, urgent sends and non-waiting receives of whole messages
  the message queue answers exactly as a double-ended queue with room for \<open>max_msgs\<close> messages,
  holds the same messages in the same order, and never faults.\<close>

theorem mq_deque:
  assumes "mq_ready n s" and "\<forall>x \<in> set xs. mq_arg_ok n s x" and "run (mq_call n) xs s = (s', rs)"
  shows "mq_ready n s' \<and>
    run deque_spec xs (unat (max_msgs (mqs s n)), mq_msgs (mqs s n)) = ((unat (max_msgs (mqs s' n)), mq_msgs (mqs s' n)), rs)"
  by (rule mqs.run_sim [OF assms])

text \<open>\<open>rt_mq_send\<close> on every branch: a message larger than a slot is refused with
  \<open>- RT_ERROR\<close>, a full queue with \<open>- RT_EFULL\<close>; otherwise the message goes behind the others
  (its slot keeps the old bytes behind the message) and the first waiting receiver is
  woken.\<close>

lemma mq_send_spec:
  assumes r: "mq_ready n s" and sz: "sz \<noteq> 0" "unat sz \<le> length b"
  shows "\<exists>e s'. rt_mq_send n b sz s = Some (e, s') \<and> mq_ready n s' \<and>
    (if sz > ucast (msg_size (mqs s n)) then e = - RT_ERROR \<and> s' = s
     else if mq_full (mqs s n) then e = - RT_EFULL \<and> s' = s
     else e = RT_EOK \<and> woke_first (L_mq n) (set_mq n (mqs s' n) s) s' \<and>
       (\<exists>old. mq_msgs (mqs s' n) = mq_msgs (mqs s n) @ [take (unat sz) b @ old]))"
proof -
  have ty: "rt_object_get_type (O_Mq n) s = 6" using r by (simp add: mq_ready_def get_type_otype)
  consider "sz > ucast (msg_size (mqs s n))" | "sz \<le> ucast (msg_size (mqs s n))" "mq_full (mqs s n)"
    | "sz \<le> ucast (msg_size (mqs s n))" "\<not> mq_full (mqs s n)" by fastforce
  then show ?thesis
  proof cases
    case 1
    then show ?thesis using ty sz r by (simp add: rt_mq_send_def)
  next
    case 2
    then show ?thesis using send_full(1) [OF r sz(1) 2, of b] r by auto
  next
    case 3
    obtain d s1 where d: "take (unat sz) d = take (unat sz) b" "rt_mq_send n b sz s = Some (0, s1)" "mq_ready n s1"
        "mq_msgs (mqs s1 n) = mq_msgs (mqs s n) @ [d]" "woke_first (L_mq n) (set_mq n (mqs s1 n) s) s1"
      by (rule send_room [OF r sz(1) 3(1) sz(2) 3(2)]) blast
    have "d = take (unat sz) b @ drop (unat sz) d" using d(1) by (metis append_take_drop_id)
    then show ?thesis using 3 d by (metis leD)
  qed
qed

text \<open>an empty queue suspends a receiver with a time, and answers \<open>- RT_ETIMEOUT\<close> at once
  without one.\<close>

lemma mq_recv_waits:
  assumes r: "mq_ready n s" and c: "caller s c" and sz: "sz \<noteq> 0" and e: "mq_msgs (mqs s n) = []"
    and time: "wait_time_ok timeout" and flag: "obj_flag (objs s (O_Mq n)) \<in> {RT_IPC_FLAG_FIFO, RT_IPC_FLAG_PRIO}"
  shows "\<exists>s'. rt_mq_recv n sz 0 s = Some (Done (- RT_ETIMEOUT), None, s) \<and>
    (timeout \<noteq> 0 \<longrightarrow> rt_mq_recv n sz timeout s = Some (Block (sz, timeout, rt_tick s), None, s') \<and>
       mq_ready n s' \<and> blocked (L_mq n) c (obj_flag (objs s (O_Mq n))) s s')"
proof -
  have ty: "rt_object_get_type (O_Mq n) s = 6" and k: "kinv s" using r by (simp_all add: mq_ready_def get_type_otype)
  have e0: "mq_entry (mqs s n) = 0" using e r msgs_empty by (auto simp: mq_ready_def)
  obtain s' where s': "ipc_wait (L_mq n) c (obj_flag (objs s (O_Mq n))) timeout (upd_thread c (\<lambda>th. th\<lparr>err := 0\<rparr>) s) = Some s'"
      "blocked (L_mq n) c (obj_flag (objs s (O_Mq n))) s s'"
    using block_total [OF k c _ _ time, of "obj_flag (objs s (O_Mq n))" "L_mq n"] flag by auto
  have "ipc_same s s'" using s'(2) by (simp add: blocked_def)
  note S = ipc_sameD [OF this]
  have "mq_ready n s'" using s'(2) r S(5,11) by (simp add: mq_ready_def blocked_def)
  then show ?thesis
    using ty sz e0 s' c
    by (auto simp: rt_mq_recv_def mq_recv_again_def caller_def in_thread_context_def rt_thread_self_def rt_tick_get_def)
qed

text \<open>Resetting a message queue ends, whatever the queue holds: the loop that returns the
  slots terminates, every slot is free again, every waiting receiver is woken.\<close>

lemma mq_reset_terminates:
  assumes r: "mq_ready n s"
  shows "\<exists>s'. rt_mq_control n RT_IPC_CMD_RESET s = Some (RT_EOK, s') \<and> mq_ready n s' \<and> mq_msgs (mqs s' n) = [] \<and>
    tq s' (L_mq n) = [] \<and> (\<forall>t \<in> set (tq s (L_mq n)). err (threads s' t) = - RT_ERROR)"
proof -
  obtain c where c: "rt_current_thread s = Some c" using r by (auto simp: mq_ready_def)
  have k: "kinv s" and ty: "rt_object_get_type (O_Mq n) s = 6" using r by (simp_all add: mq_ready_def get_type_otype)
  obtain s1 where s1: "rt_ipc_list_resume_all (L_mq n) s = Some s1" "kinv s1" "woken (L_mq n) s s1"
    using resume_all_total [OF k, of "L_mq n"] by auto
  have same: "ipc_same s s1" and c1: "rt_current_thread s1 = Some c" using s1(3) c by (simp_all add: woken_def)
  obtain q fr where "mq_links q fr (mqs s n)" using r by (auto simp: mq_ready_def mq_inv_def mq_rep_def)
  then obtain m where m: "mq_flush (mqs s1 n) = Some m" "mq_rep [] (rev q @ fr) (m\<lparr>mq_entry := 0\<rparr>)"
    using flush_total ipc_sameD(5) [OF same] by metis
  let ?s2 = "set_mq n (m\<lparr>mq_entry := 0\<rparr>) s1"
  have k2: "kinv ?s2" and c2: "rt_current_thread ?s2 = Some c" using s1 c1 by simp_all
  obtain s' where s': "rt_schedule ?s2 = Some s'" "kinv s'" "rt_current_thread s' \<noteq> None"
    using rt_schedule_total [OF k2 c2] by blast
  note F = rt_schedule_frame [OF k2 c2 s'(1)]
  have q: "tq s' (L_mq n) = []" using rt_schedule_wait_lists [OF k2 c2 s'(1), of "L_mq n"] s1(3) by (simp add: woken_def)
  have "mq_ready n s'"
    using s' F(4,12) mq_repI [OF m(2)] r ipc_sameD(11) [OF same] by (simp add: mq_ready_def otype_def)
  moreover have "mq_msgs (mqs s' n) = []" using F(12) mq_repI [OF m(2)] by simp
  moreover have "rt_mq_control n RT_IPC_CMD_RESET s = Some (RT_EOK, s')"
    using ty s1(1) m(1) s'(1) by (simp add: rt_mq_control_def)
  ultimately show ?thesis using q F(20) s1(3) by (auto simp: woken_def)
qed

subsection \<open>Examples\<close>

lemma kex_mq:
  "mqs kex n = \<lparr>msg_size = 4, max_msgs = 3, mq_entry = 1, msg_queue_head = Some 0, msg_queue_tail = Some 0,
     msg_queue_free = Some 1, msg_next = (\<lambda>i. if i = 1 then Some 2 else None), msg_data = (\<lambda>i. [1, 2, 3, 4])\<rparr>"
  by (simp add: kex_def)

lemma kex_mq_flag [simp]: "obj_flag (objs kex (O_Mq n)) = 0"
  by (simp add: kex_def)

lemma kex_mq_rep: "mq_rep [0] [1, 2] (mqs kex n)"
  by (auto simp: mq_rep_def mq_links_def kex_mq)

lemma kex_mq_ready: "mq_ready n kex"
  using mq_repI [OF kex_mq_rep] by (simp add: mq_ready_def kex_kinv)

lemma kex_mq_msgs: "mq_msgs (mqs kex n) = [[1, 2, 3, 4]]" "msg_size (mqs kex n) = 4" "max_msgs (mqs kex n) = 3"
  using mq_repI [OF kex_mq_rep [of n]] by (simp_all add: kex_mq)

theorem mq_deque_witness:
  "\<exists>s' rs. run (mq_call 0) [Send [5, 6, 7, 8], Urgent [9, 9, 9, 9], Recv] kex = (s', rs) \<and>
     rs = [Some (0, None), Some (0, None), Some (0, Some [9, 9, 9, 9])] \<and>
     mq_msgs (mqs s' 0) = [[1, 2, 3, 4], [5, 6, 7, 8]]"
proof -
  let ?xs = "[Send [5, 6, 7, 8], Urgent [9, 9, 9, 9], Recv]"
  obtain s' rs where e: "run (mq_call 0) ?xs kex = (s', rs)" by fastforce
  have "\<forall>x \<in> set ?xs. mq_arg_ok 0 kex x" by (simp add: kex_mq_msgs)
  then show ?thesis using mq_deque [OF kex_mq_ready _ e] e by (simp add: kex_mq_msgs)
qed

lemma mq_reset_terminates_witness: "\<exists>s'. rt_mq_control 0 1 kex = Some (0, s') \<and> mq_msgs (mqs s' 0) = []"
  using mq_reset_terminates [OF kex_mq_ready] by auto

end
