(* ===== verification/System.thy ===== *)
theory System
  imports Ticking Semaphore Mutex Event Mailbox Message_Queue
begin

text \<open>
  The kernel as a whole: the calls of the running thread, the clock interrupt and rescheduling as
  one step relation on the kernel state. The theory shows that the invariant of the scheduler and the
  invariants of every semaphore, mutex, event, mailbox and message queue hold together in
  every reachable state, that no call faults there, and that no object changes its class.
\<close>

subsection \<open>The invariant of the system\<close>

text \<open>The kernel object a waiting list belongs to, and the class of an object. The lists of the
  device drivers (completions and data queues) belong to none.\<close>

fun head_oid :: "lhead \<Rightarrow> oid option" where
  "head_oid (L_sem n) = Some (O_Sem n)"
| "head_oid (L_mutex n) = Some (O_Mutex n)"
| "head_oid (L_event n) = Some (O_Event n)"
| "head_oid (L_mb n) = Some (O_Mb n)"
| "head_oid (L_mb_sender n) = Some (O_Mb n)"
| "head_oid (L_mq n) = Some (O_Mq n)"
| "head_oid (L_mp n) = Some (O_Mp n)"
| "head_oid (L_ready p) = None"
| "head_oid L_defunct = None"
| "head_oid (L_completion n) = None"
| "head_oid (L_dq_push n) = None"
| "head_oid (L_dq_pop n) = None"

fun class_of :: "oid \<Rightarrow> u8" where
  "class_of (O_Thread t) = RT_Object_Class_Thread"
| "class_of (O_Sem n) = RT_Object_Class_Semaphore"
| "class_of (O_Mutex n) = RT_Object_Class_Mutex"
| "class_of (O_Event n) = RT_Object_Class_Event"
| "class_of (O_Mb n) = RT_Object_Class_MailBox"
| "class_of (O_Mq n) = RT_Object_Class_MessageQueue"
| "class_of (O_Mp n) = RT_Object_Class_MemPool"
| "class_of (O_Timer i) = RT_Object_Class_Timer"
| "class_of (O_Device n) = RT_Object_Class_Device"

fun obj_ok :: "kernel \<Rightarrow> oid \<Rightarrow> bool" where
  "obj_ok s (O_Sem n) = sem_ok s n"
| "obj_ok s (O_Mutex n) = mutex_ok s n"
| "obj_ok s (O_Event n) = event_ok s n"
| "obj_ok s (O_Mb n) = mb_inv (mailboxes s n)"
| "obj_ok s (O_Mq n) = mq_inv (mqs s n)"
| "obj_ok s (O_Timer (Timer_Obj n)) = (case timeout_func (timers s (Timer_Obj n)) of User_Timeout m \<Rightarrow> True | _ \<Rightarrow> False)"
| "obj_ok s _ = True"

definition system_ok :: "kernel \<Rightarrow> bool" where
  "system_ok s \<longleftrightarrow> kinv s \<and> rt_current_thread s \<noteq> None \<and> waiters_ok s \<and> (\<forall>i. otype s i = class_of i \<longrightarrow> obj_ok s i)"

lemma system_okD:
  assumes "system_ok s"
  shows "kinv s" "rt_current_thread s \<noteq> None" "waiters_ok s" "otype s i = class_of i \<Longrightarrow> obj_ok s i"
  using assms by (simp_all add: system_ok_def)

subsection \<open>Steps that touch one object\<close>

text \<open>What a step may do to the rest when it works on the object \<open>x\<close> (on none if \<open>x\<close> is \<open>None\<close>):
  the data of other objects stay, their waiting lists only lose threads, whoever is on a
  waiting list was there before with the same error or has none, and started threads stay
  started.\<close>

definition keeps :: "oid option \<Rightarrow> kernel \<Rightarrow> kernel \<Rightarrow> bool" where
  "keeps x s s' \<longleftrightarrow>
     kinv s' \<and> rt_current_thread s' \<noteq> None \<and>
     (\<forall>j. obj_type (objs s' j) = obj_type (objs s j)) \<and> (\<forall>i. timeout_func (timers s' i) = timeout_func (timers s i)) \<and>
     (\<forall>u. live s u \<longrightarrow> live s' u) \<and>
     (\<forall>l u. wait_head l \<longrightarrow> u \<in> set (tq s' l) \<longrightarrow>
        err (threads s' u) = RT_EOK \<or> u \<in> set (tq s l) \<and> err (threads s' u) = err (threads s u)) \<and>
     (\<forall>l. wait_head l \<longrightarrow> head_oid l \<noteq> x \<or> x = None \<longrightarrow> set (tq s' l) \<subseteq> set (tq s l) \<and>
        (\<forall>u \<in> set (tq s' l). event_set (threads s' u) = event_set (threads s u) \<and> event_info (threads s' u) = event_info (threads s u))) \<and>
     (\<forall>n. x \<noteq> Some (O_Sem n) \<longrightarrow> sems s' n = sems s n) \<and> (\<forall>n. x \<noteq> Some (O_Mutex n) \<longrightarrow> mutexes s' n = mutexes s n) \<and>
     (\<forall>n. x \<noteq> Some (O_Event n) \<longrightarrow> events s' n = events s n) \<and> (\<forall>n. x \<noteq> Some (O_Mb n) \<longrightarrow> mailboxes s' n = mailboxes s n) \<and>
     (\<forall>n. x \<noteq> Some (O_Mq n) \<longrightarrow> mqs s' n = mqs s n)"

lemma keepsD:
  assumes "keeps x s s'"
  shows "kinv s'" "rt_current_thread s' \<noteq> None" "obj_type (objs s' j) = obj_type (objs s j)" "live s u \<Longrightarrow> live s' u"
    "wait_head l \<Longrightarrow> u \<in> set (tq s' l) \<Longrightarrow> err (threads s' u) = RT_EOK \<or> u \<in> set (tq s l) \<and> err (threads s' u) = err (threads s u)"
    "wait_head l \<Longrightarrow> head_oid l \<noteq> x \<Longrightarrow> set (tq s' l) \<subseteq> set (tq s l)"
    "wait_head l \<Longrightarrow> head_oid l \<noteq> x \<Longrightarrow> u \<in> set (tq s' l) \<Longrightarrow> event_set (threads s' u) = event_set (threads s u)"
    "wait_head l \<Longrightarrow> head_oid l \<noteq> x \<Longrightarrow> u \<in> set (tq s' l) \<Longrightarrow> event_info (threads s' u) = event_info (threads s u)"
    "x \<noteq> Some (O_Sem n) \<Longrightarrow> sems s' n = sems s n" "x \<noteq> Some (O_Mutex n) \<Longrightarrow> mutexes s' n = mutexes s n"
    "x \<noteq> Some (O_Event n) \<Longrightarrow> events s' n = events s n" "x \<noteq> Some (O_Mb n) \<Longrightarrow> mailboxes s' n = mailboxes s n"
    "x \<noteq> Some (O_Mq n) \<Longrightarrow> mqs s' n = mqs s n" "timeout_func (timers s' i) = timeout_func (timers s i)"
proof -
  note K = assms [unfolded keeps_def]
  show "wait_head l \<Longrightarrow> u \<in> set (tq s' l) \<Longrightarrow> err (threads s' u) = RT_EOK \<or> u \<in> set (tq s l) \<and> err (threads s' u) = err (threads s u)"
    using K by meson
qed (use assms in \<open>simp_all add: keeps_def\<close>)

lemma keeps_trans:
  assumes "keeps x s s1" "keeps x s1 s2"
  shows "keeps x s s2"
proof -
  note A = assms(1) [unfolded keeps_def] and B = assms(2) [unfolded keeps_def]
  have "err (threads s2 u) = 0 \<or> u \<in> set (tq s l) \<and> err (threads s2 u) = err (threads s u)"
    if "wait_head l" "u \<in> set (tq s2 l)" for l u using A B that by metis
  moreover have "set (tq s2 l) \<subseteq> set (tq s l) \<and>
      (\<forall>u \<in> set (tq s2 l). event_set (threads s2 u) = event_set (threads s u) \<and> event_info (threads s2 u) = event_info (threads s u))"
    if "wait_head l" "head_oid l \<noteq> x \<or> x = None" for l
  proof -
    have a: "set (tq s1 l) \<subseteq> set (tq s l)" "\<forall>u \<in> set (tq s1 l). event_set (threads s1 u) = event_set (threads s u) \<and>
        event_info (threads s1 u) = event_info (threads s u)" using A that by simp_all
    have b: "set (tq s2 l) \<subseteq> set (tq s1 l)" "\<forall>u \<in> set (tq s2 l). event_set (threads s2 u) = event_set (threads s1 u) \<and>
        event_info (threads s2 u) = event_info (threads s1 u)" using B that by simp_all
    show ?thesis using a b by auto
  qed
  ultimately show ?thesis using A B unfolding keeps_def by simp
qed

lemma keeps_weaken: "keeps None s s' \<Longrightarrow> keeps x s s'"
  unfolding keeps_def by simp

lemma keeps_otype: "keeps x s s' \<Longrightarrow> otype s' i = otype s i"
  by (simp add: keeps_def otype_def)

lemma keeps_obj_ok:
  assumes k: "keeps x s s'" and ok: "obj_ok s i" and i: "x \<noteq> Some i"
  shows "obj_ok s' i"
proof (cases i)
  case (O_Sem n)
  then show ?thesis using keepsD(6) [OF k, of "L_sem n"] keepsD(9) [OF k, of n] i ok by (auto simp: sem_ok_def)
next
  case (O_Mutex n)
  then show ?thesis
    using keepsD(6) [OF k, of "L_mutex n"] keepsD(10) [OF k, of n] keepsD(4) [OF k] i ok mutex_ok_cong [of s n s'] by simp
next
  case (O_Event n)
  then have e: "events s' n = events s n" "set (tq s' (L_event n)) \<subseteq> set (tq s (L_event n))"
    using keepsD(11) [OF k, of n] keepsD(6) [OF k, of "L_event n"] i by simp_all
  have "satisfied (threads s' u) v = satisfied (threads s u) v" if "u \<in> set (tq s' (L_event n))" for u v
    using that keepsD(7,8) [OF k, of "L_event n" u] i O_Event by (intro satisfied_cong) simp_all
  then show ?thesis using ok O_Event e by (auto simp: event_ok_def)
next
  case (O_Mb n)
  then show ?thesis using keepsD(12) [OF k, of n] i ok by simp
next
  case (O_Mq n)
  then show ?thesis using keepsD(13) [OF k, of n] i ok by simp
next
  case (O_Timer j)
  then show ?thesis using keepsD(14) [OF k, of j] ok by (cases j) simp_all
qed simp_all

lemma keeps_system:
  assumes ok: "system_ok s" and k: "keeps x s s'" and own: "\<And>i. x = Some i \<Longrightarrow> otype s i = class_of i \<Longrightarrow> obj_ok s' i"
  shows "system_ok s'"
proof -
  have "waiters_ok s'" using system_okD(3) [OF ok] k unfolding keeps_def waiters_ok_def by metis
  moreover have "obj_ok s' i" if "otype s' i = class_of i" for i
    using keeps_obj_ok [OF k system_okD(4) [OF ok]] own that keeps_otype [OF k] by metis
  ultimately show ?thesis using k by (simp add: system_ok_def keeps_def)
qed

text \<open>A good outcome of a step: the invariant holds again and no object changed its class.\<close>

definition goes_on :: "kernel \<Rightarrow> kernel \<Rightarrow> bool" where
  "goes_on s s' \<longleftrightarrow> system_ok s' \<and> (\<forall>j. obj_type (objs s' j) = obj_type (objs s j))"

lemma goes_on_refl [simp]: "goes_on s s = system_ok s"
  by (simp add: goes_on_def)

lemma goes_on_trans: "goes_on s s1 \<Longrightarrow> goes_on s1 s2 \<Longrightarrow> goes_on s s2"
  by (simp add: goes_on_def)

lemma goes_onD: "goes_on s s' \<Longrightarrow> system_ok s'"
  by (simp add: goes_on_def)

lemma keeps_goes_on:
  assumes "system_ok s" and "keeps x s s'" and "\<And>i. x = Some i \<Longrightarrow> otype s i = class_of i \<Longrightarrow> obj_ok s' i"
  shows "goes_on s s'"
  using keeps_system [OF assms] keepsD(3) [OF assms(2)] by (simp add: goes_on_def)

subsection \<open>The parts of the calls\<close>

lemma same_keeps:
  assumes "ipc_same s s'" "kinv s'" "rt_current_thread s' \<noteq> None" "\<And>u. live s u \<Longrightarrow> live s' u"
    and "\<And>l u. wait_head l \<Longrightarrow> u \<in> set (tq s' l) \<Longrightarrow> err (threads s' u) = RT_EOK \<or> u \<in> set (tq s l) \<and> err (threads s' u) = err (threads s u)"
    and "\<And>l. wait_head l \<Longrightarrow> head_oid l \<noteq> x \<or> x = None \<Longrightarrow> set (tq s' l) \<subseteq> set (tq s l)"
  shows "keeps x s s'"
  using assms unfolding keeps_def by (simp add: ipc_sameD)

lemma keeps_blocked: "blocked l c flag s s' \<Longrightarrow> head_oid l = Some x \<Longrightarrow> keeps (Some x) s s'"
proof (rule same_keeps)
  assume b: "blocked l c flag s s'" and x: "head_oid l = Some x"
  show "err (threads s' u) = 0 \<or> u \<in> set (tq s m) \<and> err (threads s' u) = err (threads s u)"
    if "wait_head m" "u \<in> set (tq s' m)" for m u
    using b that by (cases "m = l") (auto simp: blocked_def)
  show "set (tq s' m) \<subseteq> set (tq s m)" if "wait_head m" "head_oid m \<noteq> Some x \<or> Some x = None" for m
    using b x that by (cases "m = l") (auto simp: blocked_def)
qed (simp_all add: blocked_def)

lemma keeps_handed_over: "handed_over l t s s' \<Longrightarrow> keeps x s s'"
proof (rule same_keeps)
  assume h: "handed_over l t s s'"
  have q: "set (tq s' m) \<subseteq> set (tq s m)" if "wait_head m" for m
    using h that by (cases "m = l") (auto simp: handed_over_def)
  then show "set (tq s' m) \<subseteq> set (tq s m)" if "wait_head m" "head_oid m \<noteq> x \<or> x = None" for m using that by simp
  show "err (threads s' u) = 0 \<or> u \<in> set (tq s m) \<and> err (threads s' u) = err (threads s u)"
    if "wait_head m" "u \<in> set (tq s' m)" for m u
    using h q that by (auto simp: handed_over_def)
qed (simp_all add: handed_over_def)

lemma keeps_refl: "kinv s \<Longrightarrow> rt_current_thread s \<noteq> None \<Longrightarrow> keeps x s s"
  by (simp add: keeps_def)

lemma keeps_woke_first: "woke_first l s s' \<Longrightarrow> kinv s \<Longrightarrow> rt_current_thread s \<noteq> None \<Longrightarrow> keeps x s s'"
  by (auto simp: woke_first_def intro: keeps_refl keeps_handed_over split: list.splits)

lemma keeps_schedule:
  assumes "kinv s" "rt_current_thread s \<noteq> None"
  obtains s' where "rt_schedule s = Some s'" "keeps x s s'"
proof -
  obtain c where c: "rt_current_thread s = Some c" using assms(2) by blast
  obtain s' where s': "rt_schedule s = Some s'" "kinv s'" "rt_current_thread s' \<noteq> None"
    using rt_schedule_total [OF assms(1) c] by blast
  have "tq s' l = tq s l" if "wait_head l" for l
    using rt_schedule_wait_lists [OF assms(1) c s'(1), of l] that by (cases l) auto
  then have "keeps x s s'"
    using s' ipc_same_schedule [OF assms(1) c s'(1)] rt_schedule_live [OF assms(1) c s'(1)] rt_schedule_frame(20) [OF assms(1) c s'(1)]
    by (intro same_keeps) auto
  then show thesis using that s'(1) by blast
qed

text \<open>The running thread is on no list.\<close>

lemma caller_off_lists: "kinv s \<Longrightarrow> caller s c \<Longrightarrow> c \<notin> set (tq s l)"
  using off_lists_stat [OF kinvD(1), of s c l] by (simp add: caller_def)

lemma keeps_upd_err:
  assumes "kinv s" "caller s c"
  shows "keeps x s (upd_thread c (\<lambda>th. th\<lparr>err := e\<rparr>) s)"
  using assms caller_off_lists [OF assms] by (intro same_keeps) (auto simp: upd_err_kinv caller_def)

lemma keeps_upd_event:
  assumes "kinv s" "caller s c"
  shows "keeps x s (upd_thread c (\<lambda>th. th\<lparr>event_set := v, event_info := w\<rparr>) s)"
  using assms caller_off_lists [OF assms]
  by (auto simp: keeps_def upd_eset_kinv caller_def live_def)

lemma keeps_data:
  assumes "kinv s" "rt_current_thread s \<noteq> None"
  shows "keeps (Some (O_Sem n)) s (set_sem_value n v s)" "keeps (Some (O_Mutex n)) s (upd_mutex n f s)"
    "keeps (Some (O_Event n)) s (set_event n e s)" "keeps (Some (O_Mb n)) s (set_mb n m s)" "keeps (Some (O_Mq n)) s (set_mq n q s)"
  using assms by (auto simp: keeps_def live_def)

lemma keeps_inherit:
  assumes k: "kinv s" and c: "caller s c" and t: "live s t" "t \<noteq> c"
  shows "keeps x s (inherit (current_priority (threads s c)) t s)"
proof -
  note I = inherit_total [OF k c t]
  have q: "tq (inherit (current_priority (threads s c)) t s) l = tq s l" if "wait_head l" for l by (rule I(3) [OF that])
  show ?thesis using c I(2) unfolding keeps_def by (auto simp: q caller_def inherit_same) (auto simp: inherit_def)
qed

lemma keeps_restore:
  assumes k: "kinv s" and c: "caller s c" and p: "p < 32"
  shows "keeps x s (restore p c s)"
proof -
  note R = restore_total [OF k c p]
  have q: "tq (restore p c s) l = tq s l" if "wait_head l" for l by (rule R(3) [OF that])
  show ?thesis using c R(2) unfolding keeps_def by (auto simp: q caller_def) (auto simp: restore_def)
qed

lemma keeps_served:
  assumes sv: "served n w e s s'" and c: "rt_current_thread s' \<noteq> None" and k: "kinv s"
  shows "keeps (Some (O_Event n)) s s'"
proof -
  note S = sv [unfolded served_def event_rest_def]
  have lv: "live s' u" if "live s u" for u
  proof (cases "u \<in> fst ` set w")
    case True
    then show ?thesis using S by (force simp: live_def)
  next
    case False
    then show ?thesis using S that by (auto simp: live_def)
  qed
  have q: "set (tq s' l) \<subseteq> set (tq s l)" if "wait_head l" for l using S that by (cases "l = L_event n") auto
  have es: "event_set (threads s' u) = event_set (threads s u)" if "wait_head l" "head_oid l \<noteq> Some (O_Event n)" "u \<in> set (tq s' l)" for l u
  proof -
    have "tstat s u = 2" "tstat s' u = 2"
      using kcoreD(5) [OF kinvD(1), of s u l] kcoreD(5) [OF kinvD(1), of s' u l] k S q that by auto
    then have "u \<notin> fst ` set w" using S by force
    then show ?thesis using S by blast
  qed
  have "err (threads s' u) = err (threads s u)" for u using S by blast
  then show ?thesis using S c lv q es unfolding keeps_def by auto
qed

subsection \<open>Every call keeps the invariant\<close>

definition flag_ok :: "kernel \<Rightarrow> oid \<Rightarrow> bool" where
  "flag_ok s i \<longleftrightarrow> obj_flag (objs s i) = RT_IPC_FLAG_FIFO \<or> obj_flag (objs s i) = RT_IPC_FLAG_PRIO"

text \<open>The conclusion of the lemmas on the calls: the call returns and the system is consistent.\<close>

definition safe :: "kernel \<Rightarrow> kernel option \<Rightarrow> bool" where
  "safe s r \<longleftrightarrow> (\<exists>s'. r = Some s' \<and> goes_on s s')"

lemma safeI: "r = Some s' \<Longrightarrow> goes_on s s' \<Longrightarrow> safe s r"
  by (simp add: safe_def)

lemma sem_take_safe:
  assumes ok: "system_ok s" and c: "caller s c" and ty: "otype s (O_Sem n) = 2" and f: "flag_ok s (O_Sem n)" and t: "wait_time_ok time"
  shows "safe s (map_option snd (rt_sem_take n time s))"
proof -
  note K = system_okD(1,2) [OF ok]
  have inv: "sem_ok s n" using system_okD(4) [OF ok, of "O_Sem n"] ty by simp
  consider "0 < sem_value (sems s n)" | "sem_value (sems s n) = 0" "time = 0" | "sem_value (sems s n) = 0" "time \<noteq> 0"
    using word_neq_0_conv by blast
  then show ?thesis
  proof cases
    case 1
    let ?s = "set_sem_value n (sem_value (sems s n) - 1) s"
    have "goes_on s ?s"
      using 1 inv by (intro keeps_goes_on [OF ok keeps_data(1) [OF K]]) (auto simp: sem_ok_def)
    then show ?thesis using 1 ty by (intro safeI [of _ ?s s]) (simp_all add: rt_sem_take_def get_type_otype)
  next
    case 2
    then show ?thesis using ok ty by (intro safeI [of _ s s]) (simp_all add: rt_sem_take_def get_type_otype)
  next
    case 3
    obtain s' where s': "rt_sem_take n time s = Some (Block (), s')" "blocked (L_sem n) c (obj_flag (objs s (O_Sem n))) s s'"
      using sem_take_waits [OF K(1) ty 3(1) c 3(2) t refl] f by (auto simp: flag_ok_def)
    have "sems s' = sems s" using s'(2) ipc_sameD(1) by (auto simp: blocked_def)
    then have "goes_on s s'"
      using 3 keeps_blocked [OF s'(2) head_oid.simps(1)] by (intro keeps_goes_on [OF ok]) (auto simp: sem_ok_def)
    then show ?thesis using s'(1) by (intro safeI) simp_all
  qed
qed

lemma sem_release_safe:
  assumes ok: "system_ok s" and ty: "otype s (O_Sem n) = 2"
  shows "safe s (map_option snd (rt_sem_release n s))"
proof (cases "tq s (L_sem n)")
  case Nil
  let ?s = "set_sem_value n (sem_value (sems s n) + 1) s"
  have "goes_on s ?s"
    using Nil by (intro keeps_goes_on [OF ok keeps_data(1) [OF system_okD(1,2) [OF ok]]]) (auto simp: sem_ok_def)
  then show ?thesis using Nil ty by (intro safeI [of _ ?s s]) (simp_all add: rt_sem_release_def get_type_otype tlist_isempty_def)
next
  case (Cons t ts)
  obtain c where cur: "rt_current_thread s = Some c" using system_okD(2) [OF ok] by blast
  obtain s' where s': "rt_sem_release n s = Some (0, s')" "handed_over (L_sem n) t s s'"
    by (rule sem_release_hands_over [OF system_okD(1) [OF ok] ty cur Cons])
  have "sem_ok s n" using system_okD(4) [OF ok, of "O_Sem n"] ty by simp
  then have "sem_value (sems s n) = 0" using Cons word_neq_0_conv by (auto simp: sem_ok_def)
  moreover have "sems s' = sems s" using s'(2) ipc_sameD(1) by (auto simp: handed_over_def)
  ultimately have "goes_on s s'"
    by (intro keeps_goes_on [OF ok keeps_handed_over [OF s'(2), of "Some (O_Sem n)"]]) (auto simp: sem_ok_def)
  then show ?thesis using s'(1) by (intro safeI) simp_all
qed

lemma mutex_take_safe:
  assumes ok: "system_ok s" and c: "caller s c" and ty: "otype s (O_Mutex n) = 3" and f: "flag_ok s (O_Mutex n)"
    and t: "wait_time_ok time" and h: "hold (mutexes s n) < 255"
  shows "safe s (map_option snd (rt_mutex_take n time s))"
proof -
  note K = system_okD(1,2) [OF ok]
  have inv: "mutex_ok s n" using system_okD(4) [OF ok, of "O_Mutex n"] ty by simp
  let ?s1 = "upd_thread c (\<lambda>th. th\<lparr>err := 0\<rparr>) s"
  have k1: "keeps x s ?s1" for x by (rule keeps_upd_err [OF K(1) c])
  note K1 = keepsD(1,2) [OF k1]
  obtain r s' where M: "rt_mutex_take n time s = Some (r, s')" "mutex_ok s' n"
    "case owner (mutexes s n) of
       None \<Rightarrow> r = Done 0 \<and> s' = upd_mutex n (\<lambda>m. m\<lparr>mutex_value := 0, owner := Some c, original_priority := current_priority (threads s c), hold := 1\<rparr>) ?s1
     | Some t \<Rightarrow>
         if t = c then r = Done 0 \<and> s' = upd_mutex n (\<lambda>m. m\<lparr>hold := hold m + 1\<rparr>) ?s1
         else if time = 0 then r = Done (- 2) \<and> s' = upd_thread c (\<lambda>th. th\<lparr>err := - 2\<rparr>) ?s1
         else r = Block time \<and> blocked (L_mutex n) c (obj_flag (objs s (O_Mutex n))) (inherit (current_priority (threads s c)) t ?s1) s'"
    using mutex_take_total [OF K(1) ty c inv t _ h] f unfolding flag_ok_def by blast
  have "keeps (Some (O_Mutex n)) ?s1 s'"
  proof (cases "owner (mutexes s n)")
    case None
    then show ?thesis using M(3) keeps_data(2) [OF K1] by simp
  next
    case (Some t)
    have lt: "live ?s1 t" using inv Some by (simp add: mutex_ok_def)
    have c1: "caller ?s1 c" using c by simp
    consider "t = c" | "t \<noteq> c" "time = 0" | "t \<noteq> c" "time \<noteq> 0" by blast
    then show ?thesis
    proof cases
      case 1
      then show ?thesis using M(3) Some keeps_data(2) [OF K1] by simp
    next
      case 2
      then show ?thesis using M(3) Some keeps_upd_err [OF K1(1) c1] by simp
    next
      case 3
      then have "blocked (L_mutex n) c (obj_flag (objs s (O_Mutex n))) (inherit (current_priority (threads ?s1 c)) t ?s1) s'"
        using M(3) Some by simp
      from keeps_blocked [OF this head_oid.simps(2)] show ?thesis
        using keeps_trans [OF keeps_inherit [OF K1(1) c1 lt 3(1)]] by simp
    qed
  qed
  then have "keeps (Some (O_Mutex n)) s s'" by (rule keeps_trans [OF k1])
  then have "goes_on s s'" by (rule keeps_goes_on [OF ok]) (use M(2) in simp)
  then show ?thesis using M(1) by (intro safeI) simp_all
qed

lemma mutex_release_safe:
  assumes ok: "system_ok s" and c: "caller s c" and ty: "otype s (O_Mutex n) = 3"
  shows "safe s (map_option snd (rt_mutex_release n s))"
proof -
  note K = system_okD(1,2) [OF ok]
  have inv: "mutex_ok s n" using system_okD(4) [OF ok, of "O_Mutex n"] ty by simp
  let ?s2 = "restore (original_priority (mutexes s n)) c s"
  obtain r s' where M: "rt_mutex_release n s = Some (r, s')" "mutex_ok s' n"
    "if owner (mutexes s n) \<noteq> Some c then r = - 1 \<and> s' = upd_thread c (\<lambda>th. th\<lparr>err := - 1\<rparr>) s
     else r = 0 \<and>
       (if hold (mutexes s n) \<noteq> 1 then s' = upd_mutex n (\<lambda>m. m\<lparr>hold := hold m - 1\<rparr>) s
        else case tq s (L_mutex n) of
          [] \<Rightarrow> s' = upd_mutex n (\<lambda>m. m\<lparr>mutex_value := 1, owner := None, original_priority := 0xff, hold := 0\<rparr>) ?s2
        | t # _ \<Rightarrow> handed_over (L_mutex n) t
            (upd_mutex n (\<lambda>m. m\<lparr>owner := Some t, original_priority := current_priority (threads s t), hold := 1\<rparr>) ?s2) s')"
    using mutex_release_total [OF K(1) ty c inv] by blast
  consider "owner (mutexes s n) \<noteq> Some c" | "owner (mutexes s n) = Some c" "hold (mutexes s n) \<noteq> 1"
    | "owner (mutexes s n) = Some c" "hold (mutexes s n) = 1" by blast
  then have "keeps (Some (O_Mutex n)) s s'"
  proof cases
    case 1
    then show ?thesis using M(3) keeps_upd_err [OF K(1) c] by simp
  next
    case 2
    then show ?thesis using M(3) keeps_data(2) [OF K] by simp
  next
    case 3
    then have p: "original_priority (mutexes s n) < 32" using inv by (simp add: mutex_ok_def)
    note k2 = keeps_restore [OF K(1) c p, of "Some (O_Mutex n)"]
    note k3 = keeps_trans [OF k2 keeps_data(2) [OF keepsD(1,2) [OF k2]]]
    show ?thesis
    proof (cases "tq s (L_mutex n)")
      case Nil
      then show ?thesis using 3 M(3) k3 by simp
    next
      case (Cons t ts)
      then have "handed_over (L_mutex n) t
          (upd_mutex n (\<lambda>m. m\<lparr>owner := Some t, original_priority := current_priority (threads s t), hold := 1\<rparr>) ?s2) s'"
        using 3 M(3) by simp
      from keeps_handed_over [OF this] show ?thesis by (rule keeps_trans [OF k3])
    qed
  qed
  then have "goes_on s s'" by (rule keeps_goes_on [OF ok]) (use M(2) in simp)
  then show ?thesis using M(1) by (intro safeI) simp_all
qed

lemma event_send_safe:
  assumes ok: "system_ok s" and c: "caller s c" and ty: "otype s (O_Event n) = 4"
  shows "safe s (map_option snd (rt_event_send n st s))"
proof (cases "st = 0")
  case True
  then show ?thesis using ok ty by (intro safeI [of _ s s]) (simp_all add: rt_event_send_def get_type_otype)
next
  case False
  have cur: "rt_current_thread s = Some c" using c by (simp add: caller_def)
  obtain w e where sc: "scan (threads s) (ev_set (events s n) OR st) (tq s (L_event n)) = (w, e)" by fastforce
  obtain s' where s': "rt_event_send n st s = Some (0, s')" "served n w e s s'" "rt_current_thread s' \<noteq> None"
    using send_total [OF system_okD(1) [OF ok] ty cur False sc] by blast
  have "goes_on s s'"
    by (rule keeps_goes_on [OF ok keeps_served [OF s'(2,3) system_okD(1) [OF ok]]]) (use served_event_ok [OF s'(2) sc] in simp)
  then show ?thesis using s'(1) by (intro safeI) simp_all
qed

lemma event_recv_safe:
  assumes ok: "system_ok s" and c: "caller s c" and ty: "otype s (O_Event n) = 4" and f: "flag_ok s (O_Event n)"
    and opt: "opt AND 1 \<noteq> 0 \<or> opt AND 2 \<noteq> 0" and t: "wait_time_ok timeout"
  shows "safe s (map_option (snd \<circ> snd) (rt_event_recv n st opt timeout s))"
proof (cases "st = 0")
  case True
  then show ?thesis
    using ok ty c by (intro safeI [of _ s s]) (simp_all add: rt_event_recv_def get_type_otype caller_def in_thread_context_def)
next
  case False
  note K = system_okD(1,2) [OF ok]
  have inv: "event_ok s n" using system_okD(4) [OF ok, of "O_Event n"] ty by simp
  let ?s1 = "upd_thread c (\<lambda>th. th\<lparr>err := 0\<rparr>) s" and ?ev = "ev_set (events s n)" and ?x = "Some (O_Event n)"
  let ?s2 = "upd_thread c (\<lambda>th. th\<lparr>event_set := st, event_info := opt\<rparr>) ?s1"
  have k1: "keeps ?x s ?s1" by (rule keeps_upd_err [OF K(1) c])
  note K1 = keepsD(1,2) [OF k1]
  have c1: "caller ?s1 c" using c by simp
  have fl: "obj_flag (objs s (O_Event n)) = 0 \<or> obj_flag (objs s (O_Event n)) = 1" using f by (simp add: flag_ok_def)
  obtain r g s' where R: "rt_event_recv n st opt timeout s = Some (r, g, s')" "event_ok s' n"
    using recv_keeps [OF K(1) ty c inv False opt t fl] by blast
  have "keeps ?x ?s1 s'"
  proof (cases "satisfied (asks s c st opt) ?ev \<or> timeout = 0")
    case True
    then have "s' \<in> {set_event n (?ev AND NOT st) ?s1, ?s1, upd_thread c (\<lambda>th. th\<lparr>err := - 2\<rparr>) ?s1}"
      using R(1) recv_eq [OF ty c False opt, of timeout] by (auto split: if_splits)
    then show ?thesis using keeps_data(3) [OF K1] keeps_refl [OF K1] keeps_upd_err [OF K1(1) c1] by auto
  next
    case F: False
    then obtain s3 where s3: "ipc_wait (L_event n) c (obj_flag (objs s (O_Event n))) timeout ?s2 = Some s3"
      "blocked (L_event n) c (obj_flag (objs s (O_Event n))) ?s2 s3"
      using recv_blocks [OF K(1) c inv t fl, of opt st] by blast
    have "s' = s3" using R(1) recv_eq [OF ty c False opt, of timeout] F s3(1) by simp
    moreover have "keeps ?x ?s2 s3" using keeps_blocked [OF s3(2) head_oid.simps(3)] by simp
    ultimately show ?thesis using keeps_trans [OF keeps_upd_event [OF K1(1) c1]] by blast
  qed
  then have "keeps ?x s s'" by (rule keeps_trans [OF k1])
  then have "goes_on s s'" by (rule keeps_goes_on [OF ok]) (use R(2) in simp)
  then show ?thesis using R(1) by (intro safeI) simp_all
qed

lemma upd_err_ok: "system_ok s \<Longrightarrow> caller s c \<Longrightarrow> goes_on s (upd_thread c (\<lambda>th. th\<lparr>err := e\<rparr>) s)"
  by (rule keeps_goes_on [OF _ keeps_upd_err [where x = None]]) (simp_all add: system_okD)

lemma system_ready:
  assumes ok: "system_ok s"
  shows "otype s (O_Mb n) = 5 \<Longrightarrow> mb_ready n s" "otype s (O_Mq n) = 6 \<Longrightarrow> mq_ready n s"
  using system_okD(1,2) [OF ok] system_okD(4) [OF ok, of "O_Mb n"] system_okD(4) [OF ok, of "O_Mq n"]
  by (simp_all add: mb_ready_def mq_ready_def)

lemma mb_woke_safe:
  assumes ok: "system_ok s" and w: "woke_first l (set_mb n m s) s'" and r: "mb_ready n s'"
  shows "goes_on s s'"
proof -
  note k1 = keeps_data(4) [OF system_okD(1,2) [OF ok], of n m]
  have "keeps (Some (O_Mb n)) s s'" by (rule keeps_trans [OF k1 keeps_woke_first [OF w keepsD(1,2) [OF k1]]])
  then show ?thesis by (rule keeps_goes_on [OF ok]) (use r in \<open>simp add: mb_ready_def\<close>)
qed

lemma mb_blocked_safe:
  assumes ok: "system_ok s" and c: "caller s c" and ty: "otype s (O_Mb n) = 5" and f: "flag_ok s (O_Mb n)"
    and t: "wait_time_ok timeout" and l: "head_oid l = Some (O_Mb n)" "wait_head l"
  obtains s' where "ipc_wait l c (obj_flag (objs s (O_Mb n))) timeout (upd_thread c (\<lambda>th. th\<lparr>err := 0\<rparr>) s) = Some s'" "goes_on s s'"
proof -
  note r = system_ready(1) [OF ok ty]
  obtain s' where s': "ipc_wait l c (obj_flag (objs s (O_Mb n))) timeout (upd_thread c (\<lambda>th. th\<lparr>err := 0\<rparr>) s) = Some s'"
    "blocked l c (obj_flag (objs s (O_Mb n))) s s'" "mb_ready n s'"
    using mb_blocks [OF r c t l(2)] f by (auto simp: flag_ok_def)
  have "goes_on s s'"
    by (rule keeps_goes_on [OF ok keeps_blocked [OF s'(2) l(1)]]) (use l s'(3) in \<open>simp add: mb_ready_def\<close>)
  then show thesis using that s'(1) by blast
qed

text \<open>A pass of the send loop, for a call that begins and for one that runs again.\<close>

lemma mb_send_safe:
  assumes ok: "system_ok s" and c: "caller s c" and ty: "otype s (O_Mb n) = 5" and f: "flag_ok s (O_Mb n)" and t: "wait_time_ok timeout"
  shows "safe s (map_option snd (mb_send_again n (Some c) v timeout s))" "safe s (map_option snd (rt_mb_send_wait n v timeout s))"
proof -
  let ?m = "mailboxes s n"
  note r = system_ready(1) [OF ok ty]
  have self: "rt_thread_self s = Some c" "in_thread_context (upd_thread c (\<lambda>th. th\<lparr>err := 0\<rparr>) s)"
    using c by (simp_all add: rt_thread_self_def caller_def in_thread_context_def)
  show 1: "safe s (map_option snd (mb_send_again n (Some c) v timeout s))"
  proof (cases "mb_entry ?m = mb_size ?m")
    case False
    obtain m where m: "mb_store v ?m = Some m" "mb_inv m" using mb_store_total [OF _ False] r by (auto simp: mb_ready_def)
    obtain s' where s': "wake_first (L_mb n) (set_mb n m s) = Some s'" "woke_first (L_mb n) (set_mb n m s) s'" "mb_ready n s'"
      using mb_wake_total [OF r m(2), of "L_mb n"] by auto
    show ?thesis using mb_woke_safe [OF ok s'(2,3)] False m(1) s'(1) by (intro safeI [of _ s' s]) (simp_all add: mb_send_again_def)
  next
    case True
    show ?thesis
    proof (cases "timeout = 0")
      case z: True
      show ?thesis using True z upd_err_ok [OF ok c] by (intro safeI) (simp_all add: mb_send_again_def)
    next
      case nz: False
      obtain s' where "ipc_wait (L_mb_sender n) c (obj_flag (objs s (O_Mb n))) timeout (upd_thread c (\<lambda>th. th\<lparr>err := 0\<rparr>) s) = Some s'"
        "goes_on s s'" by (rule mb_blocked_safe [OF ok c ty f t, of "L_mb_sender n"]) simp_all
      then show ?thesis using True nz self by (intro safeI [of _ s' s]) (simp_all add: mb_send_again_def)
    qed
  qed
  show "safe s (map_option snd (rt_mb_send_wait n v timeout s))"
    using 1 ok ty self(1) by (auto simp: rt_mb_send_wait_def get_type_otype safe_def)
qed

lemma mb_recv_safe:
  assumes ok: "system_ok s" and c: "caller s c" and ty: "otype s (O_Mb n) = 5" and f: "flag_ok s (O_Mb n)" and t: "wait_time_ok timeout"
  shows "safe s (map_option (snd \<circ> snd) (mb_recv_again n (Some c) timeout s))" "safe s (map_option (snd \<circ> snd) (rt_mb_recv n timeout s))"
proof -
  let ?m = "mailboxes s n"
  note r = system_ready(1) [OF ok ty]
  have self: "rt_thread_self s = Some c" "in_thread_context (upd_thread c (\<lambda>th. th\<lparr>err := 0\<rparr>) s)"
    using c by (simp_all add: rt_thread_self_def caller_def in_thread_context_def)
  show 1: "safe s (map_option (snd \<circ> snd) (mb_recv_again n (Some c) timeout s))"
  proof (cases "mb_entry ?m = 0")
    case False
    have inv: "mb_inv ?m" using r by (simp add: mb_ready_def)
    obtain v m where m: "mb_load ?m = Some (v, m)" "mb_inv m" by (rule mb_load_total [OF inv False]) blast
    obtain s' where s': "wake_first (L_mb_sender n) (set_mb n m s) = Some s'" "woke_first (L_mb_sender n) (set_mb n m s) s'" "mb_ready n s'"
      using mb_wake_total [OF r m(2), of "L_mb_sender n"] by auto
    show ?thesis using mb_woke_safe [OF ok s'(2,3)] False m(1) s'(1) by (intro safeI [of _ s' s]) (simp_all add: mb_recv_again_def)
  next
    case True
    show ?thesis
    proof (cases "timeout = 0")
      case z: True
      have "goes_on s (upd_thread c (\<lambda>th. th\<lparr>err := - 2\<rparr>) (upd_thread c (\<lambda>th. th\<lparr>err := 0\<rparr>) s))"
        by (rule goes_on_trans [OF upd_err_ok [OF ok c] upd_err_ok [OF goes_onD [OF upd_err_ok [OF ok c]]]]) (use c in simp)
      then show ?thesis using True z by (intro safeI) (simp_all add: mb_recv_again_def)
    next
      case nz: False
      obtain s' where "ipc_wait (L_mb n) c (obj_flag (objs s (O_Mb n))) timeout (upd_thread c (\<lambda>th. th\<lparr>err := 0\<rparr>) s) = Some s'"
        "goes_on s s'" by (rule mb_blocked_safe [OF ok c ty f t, of "L_mb n"]) simp_all
      then show ?thesis using True nz self by (intro safeI [of _ s' s]) (simp_all add: mb_recv_again_def)
    qed
  qed
  show "safe s (map_option (snd \<circ> snd) (rt_mb_recv n timeout s))"
    using 1 ok ty self(1) by (auto simp: rt_mb_recv_def get_type_otype safe_def)
qed

lemma mq_set_safe:
  assumes ok: "system_ok s" and w: "woke_first l (set_mq n m s) s'" and r: "mq_ready n s'"
  shows "goes_on s s'"
proof -
  note k1 = keeps_data(5) [OF system_okD(1,2) [OF ok], of n m]
  have "keeps (Some (O_Mq n)) s s'" by (rule keeps_trans [OF k1 keeps_woke_first [OF w keepsD(1,2) [OF k1]]])
  then show ?thesis by (rule keeps_goes_on [OF ok]) (use r in \<open>simp add: mq_ready_def\<close>)
qed

lemma mq_send_safe:
  assumes ok: "system_ok s" and ty: "otype s (O_Mq n) = 6" and sz: "sz \<noteq> 0" "unat sz \<le> length b"
  shows "safe s (map_option snd (rt_mq_send n b sz s))" "safe s (map_option snd (rt_mq_urgent n b sz s))"
proof -
  note r = system_ready(2) [OF ok ty]
  have "safe s (map_option snd (rt_mq_send n b sz s)) \<and> safe s (map_option snd (rt_mq_urgent n b sz s))"
  proof (cases "sz > ucast (msg_size (mqs s n))")
    case True
    then show ?thesis using ok ty sz by (simp add: safe_def rt_mq_send_def rt_mq_urgent_def get_type_otype)
  next
    case False
    then have le: "sz \<le> ucast (msg_size (mqs s n))" by simp
    show ?thesis
    proof (cases "mq_full (mqs s n)")
      case True
      then show ?thesis using send_full [OF r sz(1) le] ok by (simp add: safe_def)
    next
      case room: False
      obtain s1 s2 where "rt_mq_send n b sz s = Some (0, s1)" "mq_ready n s1" "woke_first (L_mq n) (set_mq n (mqs s1 n) s) s1"
        "rt_mq_urgent n b sz s = Some (0, s2)" "mq_ready n s2" "woke_first (L_mq n) (set_mq n (mqs s2 n) s) s2"
        by (rule send_room [OF r sz(1) le sz(2) room]) blast
      then show ?thesis using mq_set_safe [OF ok] by (auto simp: safe_def)
    qed
  qed
  then show "safe s (map_option snd (rt_mq_send n b sz s))" "safe s (map_option snd (rt_mq_urgent n b sz s))" by simp_all
qed

lemma mq_recv_safe:
  assumes ok: "system_ok s" and c: "caller s c" and ty: "otype s (O_Mq n) = 6" and f: "flag_ok s (O_Mq n)" and t: "wait_time_ok timeout"
    and sz: "sz \<noteq> 0"
  shows "safe s (map_option (snd \<circ> snd) (rt_mq_recv n sz timeout s))"
proof (cases "mq_msgs (mqs s n)")
  case Nil
  note r = system_ready(2) [OF ok ty]
  show ?thesis
  proof (cases "timeout = 0")
    case True
    then show ?thesis using mq_recv_waits [OF r c sz Nil t] f ok by (auto simp: flag_ok_def safe_def)
  next
    case False
    then obtain s' where s': "rt_mq_recv n sz timeout s = Some (Block (sz, timeout, rt_tick s), None, s')" "mq_ready n s'"
      "blocked (L_mq n) c (obj_flag (objs s (O_Mq n))) s s'"
      using mq_recv_waits [OF r c sz Nil t] f by (auto simp: flag_ok_def)
    have "goes_on s s'"
      by (rule keeps_goes_on [OF ok keeps_blocked [OF s'(3) head_oid.simps(6)]]) (use s'(2) in \<open>simp add: mq_ready_def\<close>)
    then show ?thesis using s'(1) by (simp add: safe_def)
  qed
next
  case (Cons d ds)
  obtain s' where s': "rt_mq_recv n sz timeout s = Some (Done 0, Some (take (unat sz) d), s')" "mq_ready n s'" "s' = set_mq n (mqs s' n) s"
    by (rule recv_some [OF system_ready(2) [OF ok ty] sz Cons]) blast
  have "keeps (Some (O_Mq n)) s s'" using keeps_data(5) [OF system_okD(1,2) [OF ok], of n "mqs s' n"] s'(3) by simp
  then have "goes_on s s'" by (rule keeps_goes_on [OF ok]) (use s'(2) in \<open>simp add: mq_ready_def\<close>)
  then show ?thesis using s'(1) by (simp add: safe_def)
qed

lemma yield_safe: "system_ok s \<Longrightarrow> safe s (map_option snd (rt_thread_yield s))"
proof -
  assume ok: "system_ok s"
  obtain s' where s': "rt_schedule s = Some s'" "keeps None s s'" by (rule keeps_schedule [OF system_okD(1,2) [OF ok]])
  have "goes_on s s'" by (rule keeps_goes_on [OF ok s'(2)]) simp
  then show ?thesis using s'(1) by (simp add: safe_def rt_thread_yield_def)
qed

lemma sleep_safe:
  assumes ok: "system_ok s" and c: "caller s c" and t: "tick < 0x7fffffff"
  shows "safe s (rt_thread_sleep tick s)"
proof -
  have cur: "rt_current_thread s = Some c" "tstat s c = 3" using c by (simp_all add: caller_def)
  obtain s1 s' where S: "rt_thread_sleep tick s = Some s'" "rt_schedule s1 = Some s'" "s1 = timed c tick (parked c s)" "kinv s1" "kinv s'"
    by (rule sleep_total [OF system_okD(1) [OF ok] cur t]) blast
  have nc: "c \<notin> set (tq s l)" for l by (rule caller_off_lists [OF system_okD(1) [OF ok] c])
  have same: "ipc_same s s1" unfolding S(3) by (rule ipc_same_trans [of _ "parked c s"]) simp_all
  have k1: "keeps None s s1"
    by (rule same_keeps [OF same S(4)]) (use cur nc in \<open>auto simp: S(3) live_def\<close>)
  obtain s'' where "rt_schedule s1 = Some s''" "keeps None s1 s''" by (rule keeps_schedule [OF keepsD(1,2) [OF k1]])
  then have "keeps None s s'" using keeps_trans [OF k1] S(2) by simp
  then have "goes_on s s'" by (rule keeps_goes_on [OF ok]) simp
  then show ?thesis using S(1) by (simp add: safe_def)
qed

subsection \<open>The clock interrupt\<close>

text \<open>What the clock asks of the functions of the application that timers call: they may change
  the kernel as long as they keep it consistent, the classes of the objects, and the list of
  the application's timers.\<close>

definition mild_callbacks :: "(nat \<Rightarrow> kernel \<Rightarrow> kernel option) \<Rightarrow> bool" where
  "mild_callbacks user \<longleftrightarrow>
     (\<forall>n s s'. system_ok s \<longrightarrow> user n s = Some s' \<longrightarrow>
        system_ok s' \<and> (\<forall>j. obj_type (objs s' j) = obj_type (objs s j)) \<and>
        (\<forall>m. Timer_Obj m \<in> set (rt_timer_list s') \<longleftrightarrow> Timer_Obj m \<in> set (rt_timer_list s)))"

lemma app_timer:
  assumes "system_ok s" "otype s (O_Timer (Timer_Obj n)) = 10"
  obtains m where "timeout_func (timers s (Timer_Obj n)) = User_Timeout m"
  using system_okD(4) [OF assms(1), of "O_Timer (Timer_Obj n)"] assms(2) by (auto split: timeout_fn.splits)

lemma keeps_timer_ops:
  assumes "kinv s" "rt_current_thread s \<noteq> None"
  shows "keeps x s (rt_timer_remove i s)" "i \<notin> set (rt_timer_list s) \<Longrightarrow> keeps x s (set_activated b i s)"
    "otype s (O_Timer i) = 10 \<Longrightarrow> (\<And>t. i = Thread_Timer t \<Longrightarrow> tstat s t = 2) \<Longrightarrow> keeps x s (started i s)"
  using assms by (auto simp: keeps_def live_def timer_remove_kinv set_activated_kinv started_kinv)

lemma expiry_call_ok:
  assumes ok: "system_ok s" and u: "mild_callbacks user" and l: "rt_timer_list s = i # js"
    and r: "call_timeout user (timeout_func (timers s i)) (rt_timer_remove i s) = Some s1"
  shows "goes_on s s1" "i \<notin> set (rt_timer_list s1)" "i = Thread_Timer t \<Longrightarrow> objs s1 = objs s"
proof -
  note K = system_okD(1,2) [OF ok]
  note D = kcoreD [OF kinvD(1) [OF K(1)]]
  let ?s0 = "rt_timer_remove i s"
  have ok0: "system_ok ?s0" by (rule keeps_system [OF ok keeps_timer_ops(1) [OF K, of None]]) simp
  have ni: "i \<notin> set (rt_timer_list ?s0)" by simp
  have "goes_on s s1 \<and> i \<notin> set (rt_timer_list s1) \<and> (i = Thread_Timer t \<longrightarrow> objs s1 = objs s)"
  proof (cases i)
    case (Timer_Obj n)
    then have "otype s (O_Timer (Timer_Obj n)) = 10" using D(12) [of i] l by simp
    then obtain m where "timeout_func (timers s i) = User_Timeout m" using app_timer [OF ok] Timer_Obj by blast
    then have um: "user m ?s0 = Some s1" using r by simp
    then have A: "system_ok s1" "\<And>j. obj_type (objs s1 j) = obj_type (objs s j)"
      "\<And>k. Timer_Obj k \<in> set (rt_timer_list s1) \<longleftrightarrow> Timer_Obj k \<in> set (rt_timer_list ?s0)"
      using u ok0 unfolding mild_callbacks_def by (metis timer_remove_frame)+
    then show ?thesis using ni Timer_Obj by (auto simp: goes_on_def)
  next
    case (Thread_Timer q)
    have st: "tstat s q = 2" using D(13) [of q] l Thread_Timer by simp
    then have fn: "timeout_func (timers s i) = Rt_Thread_Timeout q"
      using D(7) [of q] Thread_Timer by (simp add: live_def tcb_ok_def)
    let ?s1 = "timedout q ?s0"
    have k1: "kinv ?s1" using system_okD(1) [OF ok0] st ni Thread_Timer by (intro timedout_kinv) auto
    have "keeps None ?s0 ?s1"
      by (rule same_keeps) (use k1 K(2) st in \<open>auto simp: live_def split: if_splits\<close>)
    then have kk: "keeps None s ?s1" by (rule keeps_trans [OF keeps_timer_ops(1) [OF K]])
    have sch: "rt_schedule ?s1 = Some s1" using r fn timeout_eq [OF system_okD(1) [OF ok0], of q] st by simp
    obtain c where c: "rt_current_thread ?s1 = Some c" using K(2) by auto
    obtain s' where "rt_schedule ?s1 = Some s'" "keeps None ?s1 s'" by (rule keeps_schedule [OF keepsD(1,2) [OF kk]])
    then have k2: "keeps None s s1" using keeps_trans [OF kk] sch by simp
    note F = rt_schedule_frame [OF k1 c sch]
    have "system_ok s1" by (rule keeps_system [OF ok k2]) simp
    then show ?thesis using F(4,6,7) Thread_Timer by (auto simp: goes_on_def)
  qed
  then show "goes_on s s1" "i \<notin> set (rt_timer_list s1)" "i = Thread_Timer t \<Longrightarrow> objs s1 = objs s" by auto
qed

lemma expiry_restart_ok:
  assumes ok: "system_ok s" and l: "i \<in> set (rt_timer_list s)"
    and s1: "goes_on s s1" "i \<notin> set (rt_timer_list s1)" "\<And>t. i = Thread_Timer t \<Longrightarrow> objs s1 = objs s"
    and r: "(if obj_flag (objs s1 (O_Timer i)) AND 2 \<noteq> 0 \<and> obj_flag (objs s1 (O_Timer i)) AND 1 \<noteq> 0
        then map_option snd (rt_timer_start i (set_activated False i s1)) else Some (set_activated False i s1)) = Some s2"
  shows "goes_on s s2"
proof -
  have ok1: "system_ok s1" "\<And>j. obj_type (objs s1 j) = obj_type (objs s j)" using s1(1) by (simp_all add: goes_on_def)
  note D = kcoreD [OF kinvD(1) [OF system_okD(1) [OF ok]]]
  let ?a = "set_activated False i s1"
  have ka: "keeps None s1 ?a" by (rule keeps_timer_ops(2) [OF system_okD(1,2) [OF ok1(1)] s1(2)])
  have ty: "otype ?a (O_Timer i) = 10" using D(12) [OF l] ok1(2) by (simp add: otype_def)
  have nt: "i \<noteq> Thread_Timer t" if "obj_flag (objs s1 (O_Timer i)) AND 2 \<noteq> 0" for t
    using that D(7,13) [of t] l s1(3) by (auto simp: live_def tcb_ok_def)
  consider "s2 = ?a" | "s2 = started i ?a" "\<And>t. i \<noteq> Thread_Timer t"
    using r nt by (auto simp: rt_timer_start_def started_def Let_def split: if_splits)
  then show ?thesis
  proof cases
    case 1
    have "system_ok ?a" by (rule keeps_system [OF ok1(1) ka]) simp
    then show ?thesis using 1 ok1 by (simp add: goes_on_def)
  next
    case 2
    have "keeps None ?a (started i ?a)" by (rule keeps_timer_ops(3) [OF keepsD(1,2) [OF ka] ty]) (use 2 in blast)
    then have "system_ok (started i ?a)" by (rule keeps_system [OF ok1(1) keeps_trans [OF ka]]) simp
    then show ?thesis using 2 ok1(2) by (simp add: goes_on_def)
  qed
qed

lemma check_loop_ok:
  assumes u: "mild_callbacks user" and r: "rt_timer_check_loop user tk s = Some s'" and ok: "system_ok s"
  shows "goes_on s s'"
proof -
  have "mild_callbacks user \<longrightarrow> system_ok s \<longrightarrow> goes_on s s'"
  proof (rule rt_timer_check_loop.raw_induct [where P = "\<lambda>user tk s s'. mild_callbacks user \<longrightarrow> system_ok s \<longrightarrow> goes_on s s'", OF _ r], goal_cases)
    case (1 loop user tk s s')
    show ?case
    proof (intro impI)
      assume u: "mild_callbacks user" and ok: "system_ok s"
      have refl: "goes_on s s" using ok by (simp add: goes_on_def)
      show "goes_on s s'"
      proof (cases "rt_timer_list s")
        case Nil
        then show ?thesis using 1(2) refl by simp
      next
        case (Cons i js)
        show ?thesis
        proof (cases "tk - timeout_tick (timers s i) < 0x7fffffff")
          case False
          then show ?thesis using 1(2) Cons refl by simp
        next
          case True
          have "do {
              s1 \<leftarrow> call_timeout user (timeout_func (timers s i)) (rt_timer_remove i s);
              s2 \<leftarrow> (if obj_flag (objs s1 (O_Timer i)) AND 2 \<noteq> 0 \<and> obj_flag (objs s1 (O_Timer i)) AND 1 \<noteq> 0
                then map_option snd (rt_timer_start i (set_activated False i s1)) else Some (set_activated False i s1));
              loop user (rt_tick_get s1) s2 } = Some s'"
            using 1(2) Cons True by simp
          then obtain s1 where s1: "call_timeout user (timeout_func (timers s i)) (rt_timer_remove i s) = Some s1" and
            e: "do { s2 \<leftarrow> (if obj_flag (objs s1 (O_Timer i)) AND 2 \<noteq> 0 \<and> obj_flag (objs s1 (O_Timer i)) AND 1 \<noteq> 0
                then map_option snd (rt_timer_start i (set_activated False i s1)) else Some (set_activated False i s1));
              loop user (rt_tick_get s1) s2 } = Some s'" by (rule bind_eq_SomeE)
          from e obtain s2 where
            s2: "(if obj_flag (objs s1 (O_Timer i)) AND 2 \<noteq> 0 \<and> obj_flag (objs s1 (O_Timer i)) AND 1 \<noteq> 0
                then map_option snd (rt_timer_start i (set_activated False i s1)) else Some (set_activated False i s1)) = Some s2" and
            lp: "loop user (rt_tick_get s1) s2 = Some s'" by (rule bind_eq_SomeE)
          note C = expiry_call_ok [OF ok u Cons s1]
          have "goes_on s s2"
            by (rule expiry_restart_ok [OF ok _ C(1,2) _ s2]) (use Cons C(3) in auto)
          moreover have "goes_on s2 s'" using 1(1) [OF lp] u calculation by (simp add: goes_on_def)
          ultimately show ?thesis by (simp add: goes_on_def)
        qed
      qed
    qed
  qed
  then show ?thesis using u ok by simp
qed

lemma tick_ok:
  assumes ok: "system_ok s" and u: "mild_callbacks user" and r: "rt_tick_increase user s = Some s'"
  shows "goes_on s s'"
proof -
  obtain s3 where S: "rt_tick_increase user s = rt_timer_check user s3" "kinv s3" "rt_current_thread s3 \<noteq> None"
    "timers s3 = timers s" "rt_timer_list s3 = rt_timer_list s" "ipc_same (s\<lparr>rt_tick := rt_tick s + 1\<rparr>) s3"
    "\<And>l. wait_head l \<Longrightarrow> tq s3 l = tq s l" "\<And>u. err (threads s3 u) = err (threads s u)" "\<And>u. live s u \<Longrightarrow> live s3 u"
    by (rule tick_charge [OF system_okD(1,2) [OF ok], of user]) blast
  have k: "keeps None s s3" using S(2-9) unfolding keeps_def by (simp add: ipc_same_def)
  have "system_ok s3" by (rule keeps_system [OF ok k]) simp
  then have "goes_on s3 s'" using check_loop_ok [OF u] S(1) r by (simp add: rt_timer_check_def)
  then show ?thesis using keepsD(3) [OF k] by (simp add: goes_on_def)
qed

subsection \<open>Calls on timers and threads\<close>

lemma keeps_resched:
  assumes ok: "system_ok s" and k: "keeps None s s1"
  obtains s' where "rt_schedule s1 = Some s'" "goes_on s s'"
proof -
  obtain s' where s': "rt_schedule s1 = Some s'" "keeps None s1 s'" by (rule keeps_schedule [OF keepsD(1,2) [OF k]])
  have "goes_on s s'" by (rule keeps_goes_on [OF ok keeps_trans [OF k s'(2)]]) simp
  then show thesis using that s'(1) by blast
qed

lemma keeps_stopped: "kinv s \<Longrightarrow> rt_current_thread s \<noteq> None \<Longrightarrow> keeps x s (stopped i s)"
proof -
  assume K: "kinv s" "rt_current_thread s \<noteq> None"
  note k1 = keeps_timer_ops(1) [OF K, of x i]
  have "keeps x s (set_activated False i (rt_timer_remove i s))"
    by (rule keeps_trans [OF k1 keeps_timer_ops(2) [OF keepsD(1,2) [OF k1]]]) simp
  then show ?thesis using keeps_refl [OF K] by (simp add: stopped_def)
qed

lemma keeps_timer_data:
  assumes K: "kinv s" "rt_current_thread s \<noteq> None"
  shows "keeps x s (upd_timer (Timer_Obj n) (\<lambda>tm. tm\<lparr>init_tick := v\<rparr>) s)"
    and "(\<And>w. f w AND 1 = w AND 1) \<Longrightarrow> keeps x s (upd_obj (O_Timer (Timer_Obj n)) (\<lambda>ob. ob\<lparr>obj_flag := f (obj_flag ob)\<rparr>) s)"
proof -
  have "kinv (upd_timer (Timer_Obj n) (\<lambda>tm. tm\<lparr>init_tick := v\<rparr>) s)"
    by (rule kinv_cong [OF K(1)]) (simp_all add: upd_timer_def)
  then show "keeps x s (upd_timer (Timer_Obj n) (\<lambda>tm. tm\<lparr>init_tick := v\<rparr>) s)"
    using K(2) by (auto simp: keeps_def live_def upd_timer_def tstat_def)
  assume f: "\<And>w. f w AND 1 = w AND 1"
  let ?s = "upd_obj (O_Timer (Timer_Obj n)) (\<lambda>ob. ob\<lparr>obj_flag := f (obj_flag ob)\<rparr>) s"
  have a: "activated ?s = activated s" using f by (simp add: activated_def upd_obj_def fun_eq_iff)
  have o: "obj_type (objs ?s j) = obj_type (objs s j)" "otype ?s j = otype s j" for j by (simp_all add: upd_obj_def otype_def)
  have "kcore {} ?s"
    using kcoreD(10-13) [OF kinvD(1) [OF K(1)]] a o
    by (intro kcore_timers [OF kinvD(1) [OF K(1)]]) (auto simp: upd_obj_def)
  moreover have "cur_ok ?s" using kinvD(2) [OF K(1)] by (simp add: cur_ok_def upd_obj_def tstat_def)
  ultimately have "kinv ?s" by (simp add: kinv_def)
  then show "keeps x s ?s" using K(2) o by (auto simp: keeps_def live_def upd_obj_def tstat_def)
qed

lemma timer_start_safe:
  assumes ok: "system_ok s" and ty: "otype s (O_Timer (Timer_Obj n)) = 10" and t: "init_tick (timers s (Timer_Obj n)) < 0x7fffffff"
  shows "safe s (map_option snd (rt_timer_start (Timer_Obj n) s))"
proof -
  have "keeps None s (started (Timer_Obj n) s)" by (rule keeps_timer_ops(3) [OF system_okD(1,2) [OF ok] ty]) simp
  then have "goes_on s (started (Timer_Obj n) s)" by (rule keeps_goes_on [OF ok]) simp
  then show ?thesis using timer_start_eq [OF ty t] by (simp add: safe_def)
qed

lemma timer_stop_safe:
  assumes ok: "system_ok s" and ty: "otype s (O_Timer (Timer_Obj n)) = 10"
  shows "safe s (map_option snd (rt_timer_stop (Timer_Obj n) s))"
proof -
  have "goes_on s (stopped (Timer_Obj n) s)"
    by (rule keeps_goes_on [OF ok keeps_stopped [OF system_okD(1,2) [OF ok], of None]]) simp
  then show ?thesis using timer_stop_eq [OF ty] by (auto simp: safe_def)
qed

lemma timer_control_safe:
  assumes ok: "system_ok s" and ty: "otype s (O_Timer (Timer_Obj n)) = 10"
  shows "safe s (map_option (snd \<circ> snd) (rt_timer_control (Timer_Obj n) cmd s))"
proof -
  note K = system_okD(1,2) [OF ok]
  have "keeps None s s'" if "rt_timer_control (Timer_Obj n) cmd s = Some (r, v, s')" for r v s'
    using that ty keeps_refl [OF K] keeps_timer_data(1) [OF K] keeps_timer_data(2) [OF K, of "\<lambda>w. w AND NOT 2"] keeps_timer_data(2) [OF K, of "\<lambda>w. w OR 2"]
    by (cases cmd) (auto simp: rt_timer_control_def get_type_otype and.assoc bit.conj_disj_distrib2)
  then have g: "goes_on s s'" if "rt_timer_control (Timer_Obj n) cmd s = Some (r, v, s')" for r v s'
    using that by (intro keeps_goes_on [OF ok]) auto
  obtain r v s' where "rt_timer_control (Timer_Obj n) cmd s = Some (r, v, s')"
    using ty by (cases cmd) (auto simp: rt_timer_control_def get_type_otype)
  then show ?thesis using g by (simp add: safe_def)
qed

lemma thread_resume_safe:
  assumes ok: "system_ok s" and l: "live s t"
  shows "safe s (map_option snd (rt_thread_resume t s))"
proof (cases "tstat s t = 2")
  case True
  note K = system_okD(1,2) [OF ok]
  have "keeps None s (resumed t s)"
    by (rule same_keeps) (use K resumed_kinv [OF K(1) True] in \<open>auto simp: live_def split: if_splits\<close>)
  then have "goes_on s (resumed t s)" by (rule keeps_goes_on [OF ok]) simp
  then show ?thesis using resume_eq [OF kinvD(1) [OF K(1)] True] by (simp add: safe_def)
next
  case False
  have "otype s (O_Thread t) = 1" using kcoreD(7) [OF kinvD(1) [OF system_okD(1) [OF ok]]] l by (simp add: tcb_ok_def)
  then show ?thesis using False ok by (simp add: safe_def rt_thread_resume_def get_type_otype)
qed

lemma thread_suspend_safe:
  assumes ok: "system_ok s" and l: "live s t"
  shows "safe s (map_option snd (rt_thread_suspend t s))"
proof (cases "tstat s t = 2")
  case False
  note K = system_okD(1,2) [OF ok]
  have st: "tstat s t = 1 \<or> tstat s t = 3 \<and> rt_current_thread s = Some t"
    using l False kinvD(2) [OF K(1)] by (auto simp: live_def cur_ok_def)
  then have "kinv (parked t s)" using parked_kinv [OF K(1)] by blast
  then have "keeps None s (parked t s)"
    using K(2) by (intro same_keeps) (auto simp: live_def)
  then have "goes_on s (parked t s)" by (rule keeps_goes_on [OF ok]) simp
  then show ?thesis using suspend_eq [OF kinvD(1) [OF K(1)] st] by (simp add: safe_def)
next
  case True
  have "otype s (O_Thread t) = 1" using kcoreD(7) [OF kinvD(1) [OF system_okD(1) [OF ok]]] l by (simp add: tcb_ok_def)
  then show ?thesis using True ok by (simp add: safe_def rt_thread_suspend_def get_type_otype)
qed

lemma thread_priority_safe:
  assumes ok: "system_ok s" and l: "live s t" and p: "p < 32"
  shows "safe s (map_option snd (rt_thread_control t (RT_THREAD_CTRL_CHANGE_PRIORITY p) s))"
proof -
  note K = system_okD(1,2) [OF ok]
  have q: "tq (reprio p t s) l = tq s l" if "wait_head l" for l
    using that reprio_wait_lists [OF kinvD(1) [OF K(1)], of l p t] by (cases l) auto
  have "keeps None s (reprio p t s)"
    using K(2) reprio_kinv [OF K(1) p l] unfolding keeps_def by (auto simp: q live_def)
  then have "goes_on s (reprio p t s)" by (rule keeps_goes_on [OF ok]) simp
  moreover have "tstat s t = 1 \<Longrightarrow> rt_current_thread s \<noteq> Some t" using kinvD(2) [OF K(1)] by (auto simp: cur_ok_def)
  ultimately show ?thesis using control_prio_eq [OF kinvD(1) [OF K(1)] p l] by (simp add: safe_def)
qed

lemma thread_startup_safe:
  assumes ok: "system_ok s" and st: "tstat s t = 0" and ty: "otype s (O_Thread t) = 1"
  shows "safe s (map_option snd (rt_thread_startup t s))"
proof -
  note K = system_okD(1,2) [OF ok]
  let ?s1 = "upd_thread t (\<lambda>th. th\<lparr>current_priority := init_priority th,
     number_mask := push_bit (unat (init_priority th)) 1, stat := 2\<rparr>) s"
  have tm: "Thread_Timer t \<notin> set (rt_timer_list s)" using kcoreD(13) [OF kinvD(1) [OF K(1)], of t] st by auto
  note R = startup_resume [OF K(1) st ty tm]
  have off: "t \<notin> set (tq s l)" for l using off_lists_stat [OF kinvD(1) [OF K(1)], of t l] st by simp
  have k1: "keeps None s ?s1"
    using R(1) K(2) off unfolding keeps_def by (auto simp: live_def tstat_def)
  have k2: "keeps None ?s1 (resumed t ?s1)"
    by (rule same_keeps) (use K(2) R(1,2) resumed_kinv [OF R(1,2)] in \<open>auto simp: live_def split: if_splits\<close>)
  obtain s' where s': "rt_schedule (resumed t ?s1) = Some s'" "goes_on s s'" by (rule keeps_resched [OF ok keeps_trans [OF k1 k2]])
  have "rt_thread_startup t s = Some (0, s')"
    using R(3) s'(1) st ty K(2) by (simp add: rt_thread_startup_def get_type_otype rt_thread_self_def)
  then show ?thesis using s'(2) by (simp add: safe_def)
qed

lemma mq_recv_wake_safe:
  assumes ok: "system_ok s" and c: "caller s c" and ty: "otype s (O_Mq n) = 6" and f: "flag_ok s (O_Mq n)" and t: "wait_time_ok timeout"
    and sz: "sz \<noteq> 0"
  shows "safe s (map_option (snd \<circ> snd) (mq_recv_again n (Some c) sz timeout s))"
proof (cases "mq_entry (mqs s n) = 0 \<and> timeout = 0")
  case False
  have "rt_mq_recv n sz timeout s = mq_recv_again n (Some c) sz timeout s"
    using False ty sz c by (auto simp: rt_mq_recv_def get_type_otype rt_thread_self_def caller_def)
  then show ?thesis using mq_recv_safe [OF assms] by simp
next
  case True
  have "goes_on s (upd_thread c (\<lambda>th. th\<lparr>err := - 2\<rparr>) (upd_thread c (\<lambda>th. th\<lparr>err := 0\<rparr>) s))"
    by (rule goes_on_trans [OF upd_err_ok [OF ok c] upd_err_ok [OF goes_onD [OF upd_err_ok [OF ok c]]]]) (use c in simp)
  then show ?thesis using True c by (intro safeI) (simp_all add: mq_recv_again_def caller_def in_thread_context_def)
qed

subsection \<open>The system as a transition system\<close>

text \<open>The calls of the running thread \<open>c\<close>. The calls that wait in a loop continue with a
  \<open>..._Wake\<close> call when they run again; what the other calls do when they run again changes nothing.
  The timers are those of the application.\<close>

datatype kcall =
    Sem_Take nat u32 | Sem_Release nat
  | Mutex_Take nat u32 | Mutex_Release nat
  | Event_Send nat u32 | Event_Recv nat u32 u8 u32
  | Mb_Send nat u32 u32 | Mb_Send_Wake nat "u32 \<times> u32 \<times> u32" | Mb_Recv nat u32 | Mb_Recv_Wake nat "u32 \<times> u32"
  | Mq_Send nat "u8 list" u32 | Mq_Urgent nat "u8 list" u32 | Mq_Recv nat u32 u32 | Mq_Recv_Wake nat "u32 \<times> u32 \<times> u32"
  | Timer_Start nat | Timer_Stop nat | Timer_Control nat timer_cmd
  | Thread_Startup tid | Thread_Suspend tid | Thread_Resume tid | Thread_Priority tid u8
  | Thread_Yield | Thread_Sleep u32

fun exec :: "tid \<Rightarrow> kcall \<Rightarrow> kernel \<Rightarrow> kernel option" where
  "exec c (Sem_Take n t) s = map_option snd (rt_sem_take n t s)"
| "exec c (Sem_Release n) s = map_option snd (rt_sem_release n s)"
| "exec c (Mutex_Take n t) s = map_option snd (rt_mutex_take n t s)"
| "exec c (Mutex_Release n) s = map_option snd (rt_mutex_release n s)"
| "exec c (Event_Send n st) s = map_option snd (rt_event_send n st s)"
| "exec c (Event_Recv n st opt t) s = map_option (snd \<circ> snd) (rt_event_recv n st opt t s)"
| "exec c (Mb_Send n v t) s = map_option snd (rt_mb_send_wait n v t s)"
| "exec c (Mb_Send_Wake n k) s = map_option snd (rt_mb_send_wake n c k s)"
| "exec c (Mb_Recv n t) s = map_option (snd \<circ> snd) (rt_mb_recv n t s)"
| "exec c (Mb_Recv_Wake n k) s = map_option (snd \<circ> snd) (rt_mb_recv_wake n c k s)"
| "exec c (Mq_Send n b sz) s = map_option snd (rt_mq_send n b sz s)"
| "exec c (Mq_Urgent n b sz) s = map_option snd (rt_mq_urgent n b sz s)"
| "exec c (Mq_Recv n sz t) s = map_option (snd \<circ> snd) (rt_mq_recv n sz t s)"
| "exec c (Mq_Recv_Wake n k) s = map_option (snd \<circ> snd) (rt_mq_recv_wake n c k s)"
| "exec c (Timer_Start n) s = map_option snd (rt_timer_start (Timer_Obj n) s)"
| "exec c (Timer_Stop n) s = map_option snd (rt_timer_stop (Timer_Obj n) s)"
| "exec c (Timer_Control n cmd) s = map_option (snd \<circ> snd) (rt_timer_control (Timer_Obj n) cmd s)"
| "exec c (Thread_Startup t) s = map_option snd (rt_thread_startup t s)"
| "exec c (Thread_Suspend t) s = map_option snd (rt_thread_suspend t s)"
| "exec c (Thread_Resume t) s = map_option snd (rt_thread_resume t s)"
| "exec c (Thread_Priority t p) s = map_option snd (rt_thread_control t (RT_THREAD_CTRL_CHANGE_PRIORITY p) s)"
| "exec c Thread_Yield s = map_option snd (rt_thread_yield s)"
| "exec c (Thread_Sleep t) s = rt_thread_sleep t s"

text \<open>The contract of the caller: the object has the right class and a valid flag, a bounded
  time is below the limit of the timers, a mutex is not taken 256 times, an event is asked
  for with a valid option, a message has its length, a thread that is started is new, one that
  is suspended, resumed or given a priority has been started.\<close>

definition obj_arg :: "oid \<Rightarrow> kernel \<Rightarrow> bool" where
  "obj_arg i s \<longleftrightarrow> otype s i = class_of i \<and> flag_ok s i"

fun enabled :: "kcall \<Rightarrow> kernel \<Rightarrow> bool" where
  "enabled (Sem_Take n t) s \<longleftrightarrow> obj_arg (O_Sem n) s \<and> wait_time_ok t"
| "enabled (Sem_Release n) s \<longleftrightarrow> obj_arg (O_Sem n) s"
| "enabled (Mutex_Take n t) s \<longleftrightarrow> obj_arg (O_Mutex n) s \<and> wait_time_ok t \<and> hold (mutexes s n) < 255"
| "enabled (Mutex_Release n) s \<longleftrightarrow> obj_arg (O_Mutex n) s"
| "enabled (Event_Send n st) s \<longleftrightarrow> obj_arg (O_Event n) s"
| "enabled (Event_Recv n st opt t) s \<longleftrightarrow> obj_arg (O_Event n) s \<and> wait_time_ok t \<and>
     (opt AND RT_EVENT_FLAG_AND \<noteq> 0 \<or> opt AND RT_EVENT_FLAG_OR \<noteq> 0)"
| "enabled (Mb_Send n v t) s \<longleftrightarrow> obj_arg (O_Mb n) s \<and> wait_time_ok t"
| "enabled (Mb_Send_Wake n k) s \<longleftrightarrow> obj_arg (O_Mb n) s \<and> wait_time_ok (remaining_timeout (fst (snd k)) (snd (snd k)) (rt_tick s))"
| "enabled (Mb_Recv n t) s \<longleftrightarrow> obj_arg (O_Mb n) s \<and> wait_time_ok t"
| "enabled (Mb_Recv_Wake n k) s \<longleftrightarrow> obj_arg (O_Mb n) s \<and> wait_time_ok (remaining_timeout (fst k) (snd k) (rt_tick s))"
| "enabled (Mq_Send n b sz) s \<longleftrightarrow> obj_arg (O_Mq n) s \<and> sz \<noteq> 0 \<and> unat sz \<le> length b"
| "enabled (Mq_Urgent n b sz) s \<longleftrightarrow> obj_arg (O_Mq n) s \<and> sz \<noteq> 0 \<and> unat sz \<le> length b"
| "enabled (Mq_Recv n sz t) s \<longleftrightarrow> obj_arg (O_Mq n) s \<and> sz \<noteq> 0 \<and> wait_time_ok t"
| "enabled (Mq_Recv_Wake n k) s \<longleftrightarrow> obj_arg (O_Mq n) s \<and> fst k \<noteq> 0 \<and>
     wait_time_ok (remaining_timeout (fst (snd k)) (snd (snd k)) (rt_tick s))"
| "enabled (Timer_Start n) s \<longleftrightarrow> otype s (O_Timer (Timer_Obj n)) = RT_Object_Class_Timer \<and>
     init_tick (timers s (Timer_Obj n)) < RT_TICK_MAX div 2"
| "enabled (Timer_Stop n) s \<longleftrightarrow> otype s (O_Timer (Timer_Obj n)) = RT_Object_Class_Timer"
| "enabled (Timer_Control n cmd) s \<longleftrightarrow> otype s (O_Timer (Timer_Obj n)) = RT_Object_Class_Timer"
| "enabled (Thread_Startup t) s \<longleftrightarrow> otype s (O_Thread t) = RT_Object_Class_Thread \<and> tstat s t = RT_THREAD_INIT"
| "enabled (Thread_Suspend t) s \<longleftrightarrow> live s t"
| "enabled (Thread_Resume t) s \<longleftrightarrow> live s t"
| "enabled (Thread_Priority t p) s \<longleftrightarrow> live s t \<and> p < RT_THREAD_PRIORITY_MAX"
| "enabled Thread_Yield s \<longleftrightarrow> True"
| "enabled (Thread_Sleep t) s \<longleftrightarrow> t < 0x7fffffff"

lemma exec_safe:
  assumes ok: "system_ok s" and c: "caller s c" and e: "enabled x s"
  shows "safe s (exec c x s)"
proof (cases x)
  case (Mb_Send_Wake n k)
  then show ?thesis
    using e mb_send_safe(1) [OF ok c, of n] ok
    by (cases k) (auto simp: obj_arg_def rt_mb_send_wake_def safe_def rt_tick_get_def)
next
  case (Mb_Recv_Wake n k)
  then show ?thesis
    using e mb_recv_safe(1) [OF ok c, of n] ok
    by (cases k) (auto simp: obj_arg_def rt_mb_recv_wake_def safe_def rt_tick_get_def)
next
  case (Mq_Recv_Wake n k)
  then show ?thesis
    using e mq_recv_wake_safe [OF ok c, of n] ok
    by (cases k) (auto simp: obj_arg_def rt_mq_recv_wake_def safe_def rt_tick_get_def)
qed (use e c ok in \<open>auto simp: obj_arg_def intro: timer_start_safe timer_stop_safe timer_control_safe
    thread_startup_safe thread_suspend_safe thread_resume_safe thread_priority_safe sem_take_safe sem_release_safe mutex_take_safe mutex_release_safe
    event_send_safe event_recv_safe mb_send_safe mb_recv_safe mq_send_safe mq_recv_safe yield_safe sleep_safe\<close>)

lemma exec_goes_on:
  assumes "system_ok s" "caller s c" "enabled x s" "exec c x s = Some s'"
  shows "goes_on s s'"
  using exec_safe [OF assms(1-3)] assms(4) by (simp add: safe_def)

text \<open>A step is a call of the running thread, the clock interrupt, or \<open>rt_schedule\<close> alone, as at the end
  of another interrupt or by a thread that has suspended itself. Each call, up to the point where
  it waits, is one step: clock interrupts inside a call, between its critical sections, are not
  steps of this relation (theory \<open>Mq_Pieces\<close> has them for the message queues). Objects are not created,
  reset or deleted, and threads do not end.\<close>

inductive kstep :: "(nat \<Rightarrow> kernel \<Rightarrow> kernel option) \<Rightarrow> kernel \<Rightarrow> kernel \<Rightarrow> bool" for user where
  call: "caller s c \<Longrightarrow> enabled x s \<Longrightarrow> exec c x s = Some s' \<Longrightarrow> kstep user s s'"
| tick: "rt_tick_increase user s = Some s' \<Longrightarrow> kstep user s s'"
| resched: "rt_schedule s = Some s' \<Longrightarrow> kstep user s s'"

interpretation ksys: transition_system "kstep user" "\<lambda>s. mild_callbacks user \<and> system_ok s" "\<lambda>s j. obj_type (objs s j)" for user
proof
  have g: "goes_on s t" if "mild_callbacks user \<and> system_ok s" "kstep user s t" for s t
    using that(2,1)
  proof cases
    case resched
    have ok: "system_ok s" using that(1) by blast
    have k: "keeps None s s" by (rule keeps_refl [OF system_okD(1,2) [OF ok]])
    obtain s' where "rt_schedule s = Some s'" "goes_on s s'" by (rule keeps_resched [OF ok k])
    then show ?thesis using resched by simp
  qed (auto intro: exec_goes_on tick_ok)
  show "mild_callbacks user \<and> system_ok t" if "mild_callbacks user \<and> system_ok s" "kstep user s t" for s t
    using g [OF that] that by (simp add: goes_on_def)
  show "(\<lambda>j. obj_type (objs t j)) = (\<lambda>j. obj_type (objs s j))" if "mild_callbacks user \<and> system_ok s" "kstep user s t" for s t
    using g [OF that] by (simp add: goes_on_def)
qed

subsection \<open>Correctness\<close>

text \<open>C1: the invariant of the whole system. In every state that whole calls of the running
  threads (taking and releasing semaphores and mutexes, sending and receiving events, mails and
  messages, starting, stopping and setting timers, starting, suspending, resuming, yielding,
  sleeping and changing the priority of threads), clock interrupts and reschedulings reach, in any
  order and number, provided that the functions called by timers keep the kernel consistent: the scheduler's lists,
  bitmap and thread states agree, at most one thread is running, a semaphore with units has
  no waiters, a free mutex has none, the owner of a mutex is a started thread that does not
  wait for it, no thread waits for event flags that are set, and the rings of the mailboxes
  and the linked lists of the message queues are well formed.\<close>

theorem kernel_invariant:
  assumes "mild_callbacks user" "system_ok s" "(kstep user)\<^sup>*\<^sup>* s s'"
  shows "kinv s' \<and> waiters_ok s' \<and>
    (\<forall>t u. tstat s' t = RT_THREAD_RUNNING \<and> tstat s' u = RT_THREAD_RUNNING \<longrightarrow> t = u) \<and>
    (\<forall>n. otype s' (O_Sem n) = RT_Object_Class_Semaphore \<and> 0 < sem_value (sems s' n) \<longrightarrow> tq s' (L_sem n) = []) \<and>
    (\<forall>n. otype s' (O_Mutex n) = RT_Object_Class_Mutex \<longrightarrow>
       (case owner (mutexes s' n) of None \<Rightarrow> tq s' (L_mutex n) = []
        | Some t \<Rightarrow> live s' t \<and> t \<notin> set (tq s' (L_mutex n)) \<and> 0 < hold (mutexes s' n))) \<and>
    (\<forall>n t. otype s' (O_Event n) = RT_Object_Class_Event \<and> t \<in> set (tq s' (L_event n)) \<longrightarrow>
       \<not> satisfied (threads s' t) (ev_set (events s' n))) \<and>
    (\<forall>n. otype s' (O_Mb n) = RT_Object_Class_MailBox \<longrightarrow> mb_inv (mailboxes s' n)) \<and>
    (\<forall>n. otype s' (O_Mq n) = RT_Object_Class_MessageQueue \<longrightarrow> mq_inv (mqs s' n))"
proof -
  have ok: "system_ok s'" using ksys.reach_inv [OF assms(3)] assms(1,2) by simp
  note D = system_okD [OF ok]
  have "t = u" if "tstat s' t = 3" "tstat s' u = 3" for t u using running_unique [OF D(1) that(1), of u] that(2) by auto
  moreover have "tq s' (L_sem n) = []" if "otype s' (O_Sem n) = 2" "0 < sem_value (sems s' n)" for n
    using D(4) [of "O_Sem n"] that by (simp add: sem_ok_def)
  moreover have "case owner (mutexes s' n) of None \<Rightarrow> tq s' (L_mutex n) = []
      | Some t \<Rightarrow> live s' t \<and> t \<notin> set (tq s' (L_mutex n)) \<and> 0 < hold (mutexes s' n)" if "otype s' (O_Mutex n) = 3" for n
    using D(4) [of "O_Mutex n"] that by (simp add: mutex_ok_def split: option.splits)
  moreover have "\<not> satisfied (threads s' t) (ev_set (events s' n))" if "otype s' (O_Event n) = 4" "t \<in> set (tq s' (L_event n))" for n t
    using D(4) [of "O_Event n"] that by (simp add: event_ok_def)
  moreover have "mb_inv (mailboxes s' n)" if "otype s' (O_Mb n) = 5" for n using D(4) [of "O_Mb n"] that by simp
  moreover have "mq_inv (mqs s' n)" if "otype s' (O_Mq n) = 6" for n using D(4) [of "O_Mq n"] that by simp
  ultimately show ?thesis using D(1,3) by simp
qed

text \<open>C2: no call faults. In every reachable state, whatever thread runs there, every call that
  respects the contract of its arguments returns: no assertion of the kernel fails, no list
  is read past its end, and the state after the call is reachable again.\<close>

theorem kernel_no_fault:
  assumes "mild_callbacks user" "system_ok s" "(kstep user)\<^sup>*\<^sup>* s s'" "caller s' c" "enabled x s'"
  shows "\<exists>s''. exec c x s' = Some s'' \<and> (kstep user)\<^sup>*\<^sup>* s s''"
proof -
  have "system_ok s'" using ksys.reach_inv [OF assms(3)] assms(1,2) by simp
  then obtain s'' where "exec c x s' = Some s''" using exec_safe [OF _ assms(4,5)] by (auto simp: safe_def)
  then show ?thesis using rtranclp.rtrancl_into_rtrancl [OF assms(3) kstep.call [OF assms(4,5)]] by blast
qed

text \<open>The object whose class a call asserts.\<close>

fun object_of :: "kcall \<Rightarrow> oid option" where
  "object_of (Sem_Take n t) = Some (O_Sem n)"
| "object_of (Sem_Release n) = Some (O_Sem n)"
| "object_of (Mutex_Take n t) = Some (O_Mutex n)"
| "object_of (Mutex_Release n) = Some (O_Mutex n)"
| "object_of (Event_Send n st) = Some (O_Event n)"
| "object_of (Event_Recv n st opt t) = Some (O_Event n)"
| "object_of (Mb_Send n v t) = Some (O_Mb n)"
| "object_of (Mb_Recv n t) = Some (O_Mb n)"
| "object_of (Mq_Send n b sz) = Some (O_Mq n)"
| "object_of (Mq_Urgent n b sz) = Some (O_Mq n)"
| "object_of (Mq_Recv n sz t) = Some (O_Mq n)"
| "object_of (Timer_Start n) = Some (O_Timer (Timer_Obj n))"
| "object_of (Timer_Stop n) = Some (O_Timer (Timer_Obj n))"
| "object_of (Timer_Control n cmd) = Some (O_Timer (Timer_Obj n))"
| "object_of (Thread_Startup t) = Some (O_Thread t)"
| "object_of (Thread_Suspend t) = Some (O_Thread t)"
| "object_of (Thread_Resume t) = Some (O_Thread t)"
| "object_of (Thread_Priority t p) = Some (O_Thread t)"
| "object_of _ = None"

lemma class_checked:
  assumes "object_of x = Some i" "otype s i \<noteq> class_of i"
  shows "exec c x s = None"
  using assms
  by (cases x) (auto simp: get_type_otype rt_sem_take_def rt_sem_release_def rt_mutex_take_def rt_mutex_release_def rt_event_send_def
      rt_event_recv_def rt_mb_send_wait_def rt_mb_recv_def rt_mq_send_def rt_mq_urgent_def rt_mq_recv_def rt_timer_start_def
      rt_timer_stop_def rt_timer_control_def rt_thread_startup_def rt_thread_suspend_def rt_thread_resume_def rt_thread_control_def
      rt_assert_def bind_eq_None_conv)

text \<open>C3: the classes of the objects are checked and kept. A call on an object whose header is not of
  the class of the call stops at its assertion, whoever makes it; no step changes the class of an
  object; and what the steps put on a ready list or on a waiting list, make the owner of a mutex or
  let run is an object of class thread, what they put on the timer list one of class timer.\<close>

theorem objects_typed:
  assumes "mild_callbacks user" "system_ok s" "(kstep user)\<^sup>*\<^sup>* s s'"
  shows "(\<forall>c x i. object_of x = Some i \<and> otype s i \<noteq> class_of i \<longrightarrow> exec c x s' = None) \<and>
    (\<forall>j. obj_type (objs s' j) = obj_type (objs s j)) \<and>
    (\<forall>l t. l \<noteq> L_defunct \<and> t \<in> set (tq s' l) \<longrightarrow> otype s (O_Thread t) = RT_Object_Class_Thread) \<and>
    (\<forall>t. tstat s' t = RT_THREAD_RUNNING \<longrightarrow> otype s (O_Thread t) = RT_Object_Class_Thread) \<and>
    (\<forall>n t. otype s (O_Mutex n) = RT_Object_Class_Mutex \<and> owner (mutexes s' n) = Some t \<longrightarrow>
       otype s (O_Thread t) = RT_Object_Class_Thread) \<and>
    (\<forall>i \<in> set (rt_timer_list s'). otype s (O_Timer i) = RT_Object_Class_Timer)"
proof -
  have ok: "system_ok s'" using ksys.reach_inv [OF assms(3)] assms(1,2) by simp
  have "(\<lambda>j. obj_type (objs s' j)) = (\<lambda>j. obj_type (objs s j))" using ksys.reach_kept [OF assms(3)] assms(1,2) by simp
  then have ty: "obj_type (objs s' j) = obj_type (objs s j)" for j by (rule fun_cong)
  then have ot: "otype s' j = otype s j" for j by (simp add: otype_def)
  note D = kcoreD [OF kinvD(1) [OF system_okD(1) [OF ok]]]
  have lv: "otype s (O_Thread t) = 1" if "live s' t" for t using D(7) [of t] that by (simp add: tcb_ok_def ot)
  have "otype s (O_Thread t) = 1" if "l \<noteq> L_defunct" "t \<in> set (tq s' l)" for l t
    by (rule lv) (use D(3) [of t] D(5) [of t l] that in \<open>cases l; auto simp: live_def\<close>)
  moreover have "otype s (O_Thread t) = 1" if "tstat s' t = 3" for t by (rule lv) (use that in \<open>simp add: live_def\<close>)
  moreover have "otype s (O_Thread t) = 1" if "otype s (O_Mutex n) = 3" "owner (mutexes s' n) = Some t" for n t
    by (rule lv) (use system_okD(4) [OF ok, of "O_Mutex n"] that ot in \<open>simp add: mutex_ok_def\<close>)
  moreover have "otype s (O_Timer i) = 10" if "i \<in> set (rt_timer_list s')" for i using D(12) [OF that] by (simp add: ot)
  moreover have "exec c x s' = None" if "object_of x = Some i" "otype s i \<noteq> class_of i" for c x i
    using class_checked [of x i s' c] that ot by simp
  ultimately show ?thesis using ty by blast
qed

text \<open>Functions of the application that only release a semaphore are of the kind the theorems ask
  for.\<close>

lemma mild_release: "mild_callbacks (\<lambda>n s. map_option snd (rt_sem_release n s))"
  unfolding mild_callbacks_def
proof (intro allI impI)
  fix n s s' assume ok: "system_ok s" and "map_option snd (rt_sem_release n s) = Some s'"
  then obtain r where r: "rt_sem_release n s = Some (r, s')" by auto
  have ty: "otype s (O_Sem n) = 2" using r by (auto simp: rt_sem_release_def get_type_otype rt_assert_def split: if_splits)
  have g: "goes_on s s'" using sem_release_safe [OF ok ty] r by (simp add: safe_def)
  have "Timer_Obj m \<in> set (rt_timer_list s') \<longleftrightarrow> Timer_Obj m \<in> set (rt_timer_list s)" for m
  proof (cases "tq s (L_sem n)")
    case Nil
    then show ?thesis using r ty by (auto simp: rt_sem_release_def get_type_otype tlist_isempty_def)
  next
    case (Cons t ts)
    obtain c where c: "rt_current_thread (resumed t s) = Some c" using system_okD(2) [OF ok] by auto
    note R = list_resume_eq [OF system_okD(1) [OF ok] _ Cons]
    have "rt_schedule (resumed t s) = Some s'"
      using r ty Cons R(2) by (auto simp: rt_sem_release_def get_type_otype tlist_isempty_def bind_eq_Some_conv)
    then have "rt_timer_list s' = rt_timer_list (resumed t s)" using rt_schedule_frame(7) [OF R(3) c] by simp
    moreover have "kcore {t} (tlist_remove t s)"
      using transit_unlink [OF kinvD(1) [OF system_okD(1) [OF ok]], of t] R(1) by simp
    then have "rt_timer_list (resumed t s) = removeAll (Thread_Timer t) (rt_timer_list s)"
      using stopped_list [of "{t}" "tlist_remove t s"] by (simp add: resumed_def Let_def)
    ultimately show ?thesis by simp
  qed
  then show "system_ok s' \<and> (\<forall>j. obj_type (objs s' j) = obj_type (objs s j)) \<and>
      (\<forall>m. (Timer_Obj m \<in> set (rt_timer_list s')) = (Timer_Obj m \<in> set (rt_timer_list s)))"
    using g by (simp add: goes_on_def)
qed

subsection \<open>Examples\<close>

lemma kex_system: "system_ok kex"
proof -
  have "obj_ok kex i" if "otype kex i = class_of i" for i
  proof (cases i)
    case (O_Sem n)
    then show ?thesis by (simp add: sem_ok_def) (simp add: kex_def)
  next
    case (O_Mutex n)
    have "mutexes kex n = \<lparr>mutex_value = 1, original_priority = 255, hold = 0, owner = None\<rparr>" if "n \<noteq> 0" "n \<noteq> 2"
      using that by (simp add: kex_def)
    then have "mutex_ok kex n" if "n \<noteq> 0" "n \<noteq> 2" using that by (simp add: mutex_ok_def)
    then show ?thesis using kex_mutex_ok O_Mutex by (cases "n = 0"; cases "n = 2") auto
  next
    case (O_Event n)
    then show ?thesis by (simp add: event_ok_def satisfied_def)
  next
    case (O_Mb n)
    then show ?thesis using kex_mb_ready [of n] by (simp add: mb_ready_def)
  next
    case (O_Mq n)
    then show ?thesis using kex_mq_ready [of n] by (simp add: mq_ready_def)
  next
    case (O_Timer j)
    then show ?thesis by (cases j) (simp_all add: kex_def)
  qed simp_all
  then show ?thesis by (simp add: system_ok_def kex_kinv kex_waiters)
qed

lemma mild_idle: "mild_callbacks (\<lambda>_. Some)"
  by (simp add: mild_callbacks_def)

lemma kex_step:
  obtains s where "rt_sem_release 0 kex = Some (0, s)" "(kstep (\<lambda>_. Some))\<^sup>*\<^sup>* kex s"
proof -
  have e: "enabled (Sem_Release 0) kex" by (simp add: obj_arg_def flag_ok_def)
  obtain s where s: "rt_sem_release 0 kex = Some (0, s)"
    by (rule sem_release_hands_over [OF kex_kinv, of 0 1 4 "[]"]) simp_all
  then have "kstep (\<lambda>_. Some) kex s" using kstep.call [OF kex_caller e] by simp
  then show thesis using that s r_into_rtranclp [of "kstep (\<lambda>_. Some)"] by blast
qed

theorem kernel_invariant_witness:
  "\<exists>s. rt_sem_release 0 kex = Some (0, s) \<and> (kstep (\<lambda>_. Some))\<^sup>*\<^sup>* kex s \<and> kinv s \<and> waiters_ok s"
proof -
  obtain s where s: "rt_sem_release 0 kex = Some (0, s)" "(kstep (\<lambda>_. Some))\<^sup>*\<^sup>* kex s" by (rule kex_step)
  then show ?thesis using kernel_invariant [OF mild_idle kex_system s(2)] by blast
qed

theorem kernel_no_fault_witness: "\<exists>s. exec 1 (Mutex_Take 2 50) kex = Some s \<and> (kstep (\<lambda>_. Some))\<^sup>*\<^sup>* kex s"
proof (rule kernel_no_fault [OF mild_idle kex_system rtranclp.rtrancl_refl kex_caller])
  show "enabled (Mutex_Take 2 50) kex" by (simp add: obj_arg_def flag_ok_def wait_time_ok_def)
qed

theorem objects_typed_witness:
  "\<exists>s. (kstep (\<lambda>_. Some))\<^sup>*\<^sup>* kex s \<and> (\<forall>j. obj_type (objs s j) = obj_type (objs kex j)) \<and>
     (\<forall>i \<in> set (rt_timer_list s). otype kex (O_Timer i) = 10)"
proof -
  obtain s where s: "rt_sem_release 0 kex = Some (0, s)" "(kstep (\<lambda>_. Some))\<^sup>*\<^sup>* kex s" by (rule kex_step)
  then show ?thesis using objects_typed [OF mild_idle kex_system s(2)] by blast
qed

end
