(* ===== verification/Thread_Life.thy ===== *)
theory Thread_Life
  imports Example_State
begin

text \<open>
  The life of a thread: \<open>rt_thread_init\<close> and \<open>rt_thread_create\<close> of \<open>src/thread.c\<close> under the kernel
  invariant, and the idle thread of \<open>src/idle.c\<close> with its list of hooks, which frees the threads
  that have ended. The theory shows that a created thread can be found by its name and started,
  and which threads one call of \<open>rt_thread_idle_excute\<close> frees.
\<close>

subsection \<open>The idle thread\<close>

text \<open>The list of hooks has four entries. A hook is a function pointer, possibly null.\<close>

fun sethook_loop :: "nat option \<Rightarrow> nat option list \<Rightarrow> rt_err_t \<times> nat option list" where
  "sethook_loop hook [] = (- RT_EFULL, [])"
| "sethook_loop hook (h # hs) =
     (if h = None then (RT_EOK, hook # hs) else let (r, hs') = sethook_loop hook hs in (r, h # hs'))"

definition rt_thread_idle_sethook :: "nat option \<Rightarrow> nat option list \<Rightarrow> rt_err_t \<times> nat option list" where
  "rt_thread_idle_sethook hook idle_hook_list = sethook_loop hook idle_hook_list"

fun delhook_loop :: "nat option \<Rightarrow> nat option list \<Rightarrow> rt_err_t \<times> nat option list" where
  "delhook_loop hook [] = (- RT_ENOSYS, [])"
| "delhook_loop hook (h # hs) =
     (if h = hook then (RT_EOK, None # hs) else let (r, hs') = delhook_loop hook hs in (r, h # hs'))"

definition rt_thread_idle_delhook :: "nat option \<Rightarrow> nat option list \<Rightarrow> rt_err_t \<times> nat option list" where
  "rt_thread_idle_delhook hook idle_hook_list = delhook_loop hook idle_hook_list"

definition has_defunct_thread :: "kernel \<Rightarrow> bool" where
  "has_defunct_thread s \<longleftrightarrow> \<not> tlist_isempty L_defunct s"

text \<open>The part of \<open>rt_thread_idle_excute\<close> under the interrupt lock for the thread \<open>t\<close> that it takes
  from the list: the cleanup function of the application is called, and a static thread leaves
  the object system. The result tells whether the thread is a static one. \<open>clean\<close> gives the
  cleanup functions.\<close>

definition idle_reap ::
  "(nat \<Rightarrow> tid \<Rightarrow> kernel \<Rightarrow> kernel option) \<Rightarrow> tid \<Rightarrow> kernel \<Rightarrow> (bool \<times> kernel) option" where
  "idle_reap clean t s = do {
     let s1 = rt_enter_critical (tlist_remove t s);
     s2 \<leftarrow> (case cleanup (threads s1 t) of None \<Rightarrow> Some s1 | Some f \<Rightarrow> clean f t s1);
     if rt_object_is_systemobject (O_Thread t) s2
     then do { s3 \<leftarrow> rt_exit_critical (rt_object_detach (O_Thread t) s2); Some (True, s3) }
     else do { s3 \<leftarrow> rt_exit_critical s2; Some (False, s3) }
   }"

text \<open>The loop. The second result lists the threads whose stack and control block went to
  \<open>RT_KERNEL_FREE\<close>, in order.\<close>

partial_function (option) rt_thread_idle_excute ::
  "(nat \<Rightarrow> tid \<Rightarrow> kernel \<Rightarrow> kernel option) \<Rightarrow> kernel \<Rightarrow> (tid list \<times> kernel) option" where
  "rt_thread_idle_excute clean s =
     (if has_defunct_thread s
      then do {
        rt_assert (rt_interrupt_nest s = 0);
        let t = hd (tq s L_defunct);
        (static, s1) \<leftarrow> idle_reap clean t s;
        if static then Some ([], s1)
        else do {
          s2 \<leftarrow> rt_object_delete (O_Thread t) s1;
          (freed, s3) \<leftarrow> rt_thread_idle_excute clean s2;
          Some (t # freed, s3)
        }
      }
      else Some ([], s))"

text \<open>\<open>rt_thread_idle_init\<close>: the control block and the stack of the idle thread are static.\<close>

definition rt_thread_idle_init :: "tid \<Rightarrow> nat \<Rightarrow> u32 \<Rightarrow> kernel \<Rightarrow> kernel option" where
  "rt_thread_idle_init idle rt_thread_idle_entry rt_thread_stack s = do {
     (_, s1) \<leftarrow> rt_thread_init idle ''tidle0'' rt_thread_idle_entry 0 rt_thread_stack 256
        (RT_THREAD_PRIORITY_MAX - 1) 32 s;
     (_, s2) \<leftarrow> rt_thread_startup idle s1;
     Some s2
   }"

subsection \<open>Scheduling while a thread is set up\<close>

text \<open>The scheduler does not read the object headers.\<close>

lemma remove_thread_objs:
  "rt_schedule_remove_thread t (s\<lparr>objs := f\<rparr>) = map_option (\<lambda>s'. s'\<lparr>objs := f\<rparr>) (rt_schedule_remove_thread t s)"
  by (simp add: rt_schedule_remove_thread_def Let_def rt_assert_def tlist_isempty_def tlist_remove_def)

lemma insert_thread_objs:
  "rt_schedule_insert_thread t (s\<lparr>objs := f\<rparr>) = map_option (\<lambda>s'. s'\<lparr>objs := f\<rparr>) (rt_schedule_insert_thread t s)"
  by (simp add: rt_schedule_insert_thread_def Let_def rt_assert_def set_tstat_def upd_thread_def tlist_insert_before_def)

lemma switch_objs:
  "schedule_switch c t p b (s\<lparr>objs := f\<rparr>) = map_option (\<lambda>s'. s'\<lparr>objs := f\<rparr>) (schedule_switch c t p b s)"
proof -
  let ?s1 = "s\<lparr>rt_current_priority := of_nat p, rt_current_thread := Some t\<rparr>"
  have o: "s\<lparr>objs := f, rt_current_priority := of_nat p, rt_current_thread := Some t\<rparr> = ?s1\<lparr>objs := f\<rparr>" by simp
  have "(if b then rt_schedule_insert_thread c (?s1\<lparr>objs := f\<rparr>) else Some (?s1\<lparr>objs := f\<rparr>)) =
     map_option (\<lambda>s'. s'\<lparr>objs := f\<rparr>) (if b then rt_schedule_insert_thread c ?s1 else Some ?s1)"
    by (cases b) (simp_all only: insert_thread_objs option.map if_True if_False)
  moreover have "rt_scheduler_stack_check t (set_tstat v t (s'\<lparr>objs := f\<rparr>)) = rt_scheduler_stack_check t (set_tstat v t s')"
    "set_tstat v t (s'\<lparr>objs := f\<rparr>) = (set_tstat v t s')\<lparr>objs := f\<rparr>" for v s'
    by (simp_all add: rt_scheduler_stack_check_def set_tstat_def upd_thread_def)
  ultimately show ?thesis
    unfolding schedule_switch_def Let_def o
    by (simp add: remove_thread_objs bind_map_option map_option_bind comp_def del: if_split)
qed

lemma schedule_objs: "rt_schedule (s\<lparr>objs := f\<rparr>) = map_option (\<lambda>s'. s'\<lparr>objs := f\<rparr>) (rt_schedule s)"
proof -
  have "get_highest_priority_thread (s\<lparr>objs := f\<rparr>) = get_highest_priority_thread s" "tstat (s\<lparr>objs := f\<rparr>) u = tstat s u"
    "set_tstat v t (s'\<lparr>objs := f\<rparr>) = (set_tstat v t s')\<lparr>objs := f\<rparr>" for u v t s'
    by (simp_all add: get_highest_priority_thread_def tstat_def set_tstat_def upd_thread_def Let_def)
  then show ?thesis
    by (cases "get_highest_priority_thread s"; cases "rt_current_thread s")
      (simp_all add: rt_schedule_def Let_def remove_thread_objs switch_objs bind_map_option map_option_bind comp_def split: prod.split)
qed

lemma exit_critical_objs:
  "rt_exit_critical (s\<lparr>objs := f\<rparr>) = map_option (\<lambda>s'. s'\<lparr>objs := f\<rparr>) (rt_exit_critical s)"
proof -
  have "s\<lparr>objs := f, rt_scheduler_lock_nest := n\<rparr> = s\<lparr>rt_scheduler_lock_nest := n, objs := f\<rparr>" for n by simp
  note o = this
  show ?thesis
    unfolding rt_exit_critical_def Let_def o schedule_objs by simp
qed

text \<open>What a call of the scheduler leaves as it was.\<close>

definition resched :: "kernel \<Rightarrow> kernel \<Rightarrow> bool" where
  "resched s s' \<longleftrightarrow>
     objs s' = objs s \<and> object_list s' = object_list s \<and> timers s' = timers s \<and> rt_timer_list s' = rt_timer_list s \<and>
     sems s' = sems s \<and> mutexes s' = mutexes s \<and> events s' = events s \<and> mailboxes s' = mailboxes s \<and>
     mqs s' = mqs s \<and> mempools s' = mempools s \<and> rt_tick s' = rt_tick s \<and> rt_interrupt_nest s' = rt_interrupt_nest s \<and>
     (\<forall>l. (\<forall>p. l \<noteq> L_ready p) \<longrightarrow> tq s' l = tq s l) \<and>
     (\<forall>u. tstat s u = 0 \<or> tstat s u = 2 \<or> tstat s u = 4 \<longrightarrow> tstat s' u = tstat s u) \<and>
     (\<forall>u. live s u \<longrightarrow> live s' u) \<and>
     (\<forall>u. tstat s u = 1 \<or> tstat s u = 3 \<longrightarrow> tstat s' u = 1 \<or> tstat s' u = 3) \<and>
     (\<forall>u. err (threads s' u) = err (threads s u) \<and> stack_ok (threads s' u) = stack_ok (threads s u) \<and>
       stack_addr (threads s' u) = stack_addr (threads s u) \<and> cleanup (threads s' u) = cleanup (threads s u) \<and>
       entry (threads s' u) = entry (threads s u) \<and> init_priority (threads s' u) = init_priority (threads s u) \<and>
       current_priority (threads s' u) = current_priority (threads s u) \<and>
       event_set (threads s' u) = event_set (threads s u) \<and> event_info (threads s' u) = event_info (threads s u)) \<and>
     (rt_current_thread s' = None \<longleftrightarrow> rt_current_thread s = None) \<and>
     (rt_current_thread s' = rt_current_thread s \<or> (\<exists>c. rt_current_thread s' = Some c \<and> tstat s' c = RT_THREAD_RUNNING))"

lemma resched_refl [simp]: "resched s s"
  by (simp add: resched_def)

lemma resched_schedule:
  assumes k: "kinv s" and c: "rt_current_thread s = Some c"
  obtains s' where "rt_schedule s = Some s'" "kinv s'" "resched s s'"
proof -
  obtain s' where s': "rt_schedule s = Some s'" "kinv s'" "rt_current_thread s' \<noteq> None"
    using rt_schedule_total [OF k c] by blast
  note F = rt_schedule_frame [OF k c s'(1)]
  have "rt_current_thread s' = rt_current_thread s \<or> (\<exists>c. rt_current_thread s' = Some c \<and> tstat s' c = 3)"
    using k c by (cases rule: rt_schedule_cases) (use s'(1) in auto)
  then have "resched s s'"
    using F rt_schedule_wait_lists [OF k c s'(1)] rt_schedule_stat(1) [OF k c s'(1)] rt_schedule_live [OF k c s'(1)] rt_schedule_runnable [OF k c s'(1)] s'(3) c
    by (simp add: resched_def stack_ok_def)
  then show thesis using that s' by blast
qed

lemma lock_kinv [simp]: "kinv (s\<lparr>rt_scheduler_lock_nest := n\<rparr>) = kinv s" "kinv (rt_enter_critical s) = kinv s"
proof -
  have a: "kinv (s\<lparr>rt_scheduler_lock_nest := n\<rparr>)" if "kinv s" for s n by (rule kinv_cong [OF that]) simp_all
  show "kinv (s\<lparr>rt_scheduler_lock_nest := n\<rparr>) = kinv s"
    using a [of s n] a [of "s\<lparr>rt_scheduler_lock_nest := n\<rparr>" "rt_scheduler_lock_nest s"] by auto
  then show "kinv (rt_enter_critical s) = kinv s"
    using a [of s] a [of "rt_enter_critical s" "rt_scheduler_lock_nest s"] by (auto simp: rt_enter_critical_def)
qed

lemma resched_lock [simp]: "resched (s\<lparr>rt_scheduler_lock_nest := n\<rparr>) s' = resched s s'" "resched s (s'\<lparr>rt_scheduler_lock_nest := n\<rparr>) = resched s s'"
  "resched (rt_enter_critical s) s' = resched s s'"
  by (simp_all add: resched_def rt_enter_critical_def tstat_def live_def)

lemma resched_exit:
  assumes k: "kinv s"
  obtains s' where "rt_exit_critical s = Some s'" "kinv s'" "resched s s'"
proof (cases "rt_current_thread s")
  case None
  define n where "n = (if sint (rt_scheduler_lock_nest s - 1) \<le> 0 then 0 else rt_scheduler_lock_nest s - 1)"
  show thesis
    by (rule that [of "s\<lparr>rt_scheduler_lock_nest := n\<rparr>"]) (simp_all add: None k rt_exit_critical_def Let_def n_def)
next
  case (Some c)
  then obtain s' where "rt_schedule (s\<lparr>rt_scheduler_lock_nest := 0\<rparr>) = Some s'" "kinv s'" "resched s s'"
    using resched_schedule [of "s\<lparr>rt_scheduler_lock_nest := 0\<rparr>" c] k by auto
  then show thesis using that Some k by (cases "sint (rt_scheduler_lock_nest s - 1) \<le> 0") (auto simp: rt_exit_critical_def Let_def)
qed

lemma not_live_stat: "tstat s t = 0 \<or> tstat s t = 4 \<Longrightarrow> \<not> live s t"
  by (auto simp: live_def)

text \<open>The scheduler runs also while the control block of a thread that is on no list and has
  not been started is incomplete.\<close>

lemma resched_exit_transit:
  assumes k: "kcore {t} s" "cur_ok s" and t: "tstat s t = 0" "Thread_Timer t \<notin> set (rt_timer_list s)"
  obtains s' where "rt_exit_critical s = Some s'" "kcore {t} s'" "cur_ok s'" "resched s s'"
proof -
  let ?f = "(objs s)(O_Thread t := (objs s (O_Thread t))\<lparr>obj_type := 0\<rparr>)"
  have "kcore {t} (s\<lparr>objs := ?f\<rparr>)" by (rule kcore_objs [OF k(1)]) auto
  then have "kcore ({t} - {t}) (s\<lparr>objs := ?f\<rparr>)"
    by (rule transit_settle) (use t in \<open>auto simp: live_def tstat_def otype_def\<close>)
  moreover have "cur_ok (s\<lparr>objs := ?f\<rparr>)" using k(2) by (simp add: cur_ok_def tstat_def)
  ultimately have "kinv (s\<lparr>objs := ?f\<rparr>)" by (simp add: kinv_def)
  then obtain s2 where s2: "rt_exit_critical (s\<lparr>objs := ?f\<rparr>) = Some s2" "kinv s2" "resched (s\<lparr>objs := ?f\<rparr>) s2"
    by (rule resched_exit)
  obtain s' where s': "rt_exit_critical s = Some s'" "s2 = s'\<lparr>objs := ?f\<rparr>"
    using s2(1) unfolding exit_critical_objs by auto
  have "tstat s2 t = 0" using s2(3) t by (simp add: resched_def tstat_def)
  then have k2: "kcore {t} s2" using transit_out [OF kinvD(1) [OF s2(2)]] off_lists_stat [OF kinvD(1) [OF s2(2)]] by blast
  have o: "objs s' = objs s"
    using exit_critical_objs [where s = s and f = "objs s"] s'(1) by (cases s') simp
  show thesis
  proof (rule that [OF s'(1)])
    show "kcore {t} s'" by (rule kcore_objs [OF k2]) (auto simp: s'(2) o)
    show "cur_ok s'" using kinvD(2) [OF s2(2)] s'(2) by (simp add: cur_ok_def tstat_def)
    show "resched s s'" using s2(3) o unfolding s'(2) by (simp add: resched_def tstat_def live_def)
  qed
qed

subsection \<open>Setting up a thread\<close>

text \<open>A stack that does not wrap around and has room for the initial frame.\<close>

definition stack_fits :: "u32 \<Rightarrow> u32 \<Rightarrow> bool" where
  "stack_fits start sz \<longleftrightarrow> start \<noteq> 0 \<and> 76 \<le> unat sz \<and> unat start + unat sz < 2 ^ 32"

lemma stack_init_ok:
  assumes "stack_fits start sz"
  shows "start < rt_hw_stack_init (start + sz - 4)" "rt_hw_stack_init (start + sz - 4) \<le> start + sz"
proof -
  let ?w = "start + sz"
  have w: "unat ?w = unat start + unat sz" using assms unat_add_small [of start sz] by (simp add: stack_fits_def)
  have "(8 :: u32) - 1 = mask 3" by (simp add: mask_eq_exp_minus_1)
  then have a: "unat (RT_ALIGN_DOWN ?w 8) = unat ?w div 8 * 8"
    unfolding RT_ALIGN_DOWN_def using unat_and_not_mask [of ?w 3] by simp
  have e: "rt_hw_stack_init (?w - 4) = RT_ALIGN_DOWN ?w 8 - 68" by (simp add: rt_hw_stack_init_def)
  have "unat ?w mod 8 < 8" by simp
  then have g: "unat start + 68 < unat ?w div 8 * 8" "unat ?w div 8 * 8 \<le> unat ?w"
    using w assms div_mult_mod_eq [of "unat ?w" 8] unfolding stack_fits_def by linarith+
  have "(68 :: u32) \<le> RT_ALIGN_DOWN ?w 8" unfolding word_le_nat_alt a using g(1) by simp
  then have "unat (rt_hw_stack_init (?w - 4)) = unat ?w div 8 * 8 - 68" by (simp add: e unat_sub a)
  then show "start < rt_hw_stack_init (start + sz - 4)" "rt_hw_stack_init (start + sz - 4) \<le> start + sz"
    using g by (simp_all only: word_less_nat_alt word_le_nat_alt)
qed

text \<open>A control block that is not in use.\<close>

definition unused :: "kernel \<Rightarrow> tid \<Rightarrow> bool" where
  "unused s t \<longleftrightarrow> (\<forall>l. t \<notin> set (tq s l)) \<and> Thread_Timer t \<notin> set (rt_timer_list s) \<and>
     rt_current_thread s \<noteq> Some t \<and> (tstat s t = RT_THREAD_INIT \<or> tstat s t = RT_THREAD_CLOSE) \<and>
     (\<forall>c. O_Thread t \<notin> set (object_list s c) \<and> O_Timer (Thread_Timer t) \<notin> set (object_list s c))"

text \<open>What setting up the thread \<open>t\<close> leaves as it was.\<close>

definition born :: "tid \<Rightarrow> kernel \<Rightarrow> kernel \<Rightarrow> bool" where
  "born t s s' \<longleftrightarrow>
     (\<forall>l. (\<forall>p. l \<noteq> L_ready p) \<longrightarrow> tq s' l = tq s l) \<and> rt_timer_list s' = rt_timer_list s \<and>
     (\<forall>i. i \<noteq> O_Thread t \<longrightarrow> i \<noteq> O_Timer (Thread_Timer t) \<longrightarrow> objs s' i = objs s i) \<and>
     (\<forall>i. i \<noteq> Thread_Timer t \<longrightarrow> timers s' i = timers s i) \<and>
     sems s' = sems s \<and> mutexes s' = mutexes s \<and> events s' = events s \<and> mailboxes s' = mailboxes s \<and>
     mqs s' = mqs s \<and> mempools s' = mempools s \<and> rt_tick s' = rt_tick s \<and> rt_interrupt_nest s' = rt_interrupt_nest s \<and>
     (\<forall>u. u \<noteq> t \<longrightarrow> live s u \<longrightarrow> live s' u) \<and>
     (\<forall>u. u \<noteq> t \<longrightarrow> err (threads s' u) = err (threads s u) \<and> event_set (threads s' u) = event_set (threads s u) \<and>
        event_info (threads s' u) = event_info (threads s u) \<and> current_priority (threads s' u) = current_priority (threads s u)) \<and>
     (\<forall>u. u \<noteq> t \<longrightarrow> tstat s u = 0 \<or> tstat s u = 2 \<or> tstat s u = 4 \<longrightarrow> tstat s' u = tstat s u) \<and>
     (\<forall>u. u \<noteq> t \<longrightarrow> tstat s u = 1 \<or> tstat s u = 3 \<longrightarrow> tstat s' u = 1 \<or> tstat s' u = 3) \<and>
     (rt_current_thread s' = None \<longleftrightarrow> rt_current_thread s = None)"

lemma born_trans: "born t s s1 \<Longrightarrow> born t s1 s2 \<Longrightarrow> born t s s2"
  unfolding born_def by (elim conjE, intro conjI; metis)

lemma reschedD:
  assumes "resched s s'"
  shows "objs s' = objs s" "object_list s' = object_list s" "timers s' = timers s" "rt_timer_list s' = rt_timer_list s"
    "sems s' = sems s" "mutexes s' = mutexes s" "events s' = events s" "mailboxes s' = mailboxes s" "mqs s' = mqs s"
    "mempools s' = mempools s" "rt_tick s' = rt_tick s" "rt_interrupt_nest s' = rt_interrupt_nest s"
    "(\<And>p. l \<noteq> L_ready p) \<Longrightarrow> tq s' l = tq s l" "tstat s u = 0 \<or> tstat s u = 2 \<or> tstat s u = 4 \<Longrightarrow> tstat s' u = tstat s u"
    "live s u \<Longrightarrow> live s' u" "tstat s u = 1 \<or> tstat s u = 3 \<Longrightarrow> tstat s' u = 1 \<or> tstat s' u = 3"
    "err (threads s' u) = err (threads s u)" "current_priority (threads s' u) = current_priority (threads s u)"
    "event_set (threads s' u) = event_set (threads s u)" "event_info (threads s' u) = event_info (threads s u)"
    "rt_current_thread s' = None \<longleftrightarrow> rt_current_thread s = None"
  using assms unfolding resched_def by metis+

lemma born_resched:
  assumes "resched s s'"
  shows "born t s s'"
  unfolding born_def
  by (intro conjI allI impI) (rule reschedD [OF assms]; simp | simp add: reschedD(1,3) [OF assms])+

lemma born_upd:
  "born t s (upd_thread t f s)" "born t s (upd_obj (O_Thread t) g s)" "born t s (upd_obj (O_Timer (Thread_Timer t)) g s)"
  "born t s (upd_timer (Thread_Timer t) h s)" "born t s (s\<lparr>object_list := q\<rparr>)" "born t s (rt_enter_critical s)"
  by (auto simp: born_def upd_thread_def upd_obj_def upd_timer_def tstat_def live_def rt_enter_critical_def)

lemma timer_list_transit:
  assumes k: "kcore {t} s" and tm: "Thread_Timer t \<notin> set (rt_timer_list s)"
  shows "kcore {t} (upd_timer (Thread_Timer t) h s)" "kcore {t} (upd_obj (O_Timer (Thread_Timer t)) g s)"
    "kcore {t} (s\<lparr>object_list := q\<rparr>)" "kcore {t} (upd_obj (O_Thread t) g s)" "kcore {t} (rt_enter_critical s)"
proof -
  note D = kcoreD [OF k]
  let ?s = "upd_timer (Thread_Timer t) h s"
  have eq: "live ?s = live s" "prio_ok ?s = prio_ok s" "otype ?s = otype s" "activated ?s = activated s" "tstat ?s = tstat s"
    by (simp_all add: live_def prio_ok_def otype_def activated_def tstat_def fun_eq_iff)
  have tc: "u \<noteq> t \<Longrightarrow> tcb_ok ?s u = tcb_ok s u" for u by (simp add: tcb_ok_def otype_def upd_timer_def)
  show "kcore {t} ?s"
  proof (rule kcoreI, goal_cases)
    case (7 u)
    then show ?case using D(7,8) [of u] tc eq by simp
  next
    case (8 u)
    then show ?case using D(9) [of u] tc eq by simp
  qed (use D eq in \<open>auto simp: tq_wf_def\<close>)
  show "kcore {t} (upd_obj (O_Timer (Thread_Timer t)) g s)" "kcore {t} (upd_obj (O_Thread t) g s)"
    using tm by (auto intro!: kcore_objs [OF k] simp: upd_obj_def split: if_splits)
  show "kcore {t} (s\<lparr>object_list := q\<rparr>)" "kcore {t} (rt_enter_critical s)"
    by (auto intro!: kcore_cong [OF k] simp: rt_enter_critical_def)
qed

lemma init_fields_total:
  assumes k: "kcore {t} s" "cur_ok s" and t: "rt_current_thread s \<noteq> Some t" "Thread_Timer t \<notin> set (rt_timer_list s)"
      "O_Timer (Thread_Timer t) \<notin> set (object_list s 10)"
    and st: "stack_fits start sz" and p: "priority < 32"
  obtains s' where "rt_thread_init_fields t nm ent par start sz priority tick s = Some (0, s')" "kcore {t} s'" "cur_ok s'"
    "born t s s'" "objs s' (O_Thread t) = objs s (O_Thread t)" "tstat s' t = 0" "init_priority (threads s' t) = priority"
    "otype s (O_Thread t) = 1 \<Longrightarrow> tcb_ok s' t" "object_list s' = (object_list s)(10 := O_Timer (Thread_Timer t) # object_list s 10)"
    "stack_addr (threads s' t) = start" "entry (threads s' t) = ent" "cleanup (threads s' t) = None"
proof -
  let ?i = "Thread_Timer t"
  define s2 where "s2 = upd_thread t (\<lambda>th. th\<lparr>init_priority := priority, current_priority := priority,
         number_mask := 0, thread_init_tick := tick, remaining_tick := tick, err := RT_EOK,
         stat := RT_THREAD_INIT, cleanup := None, user_data := 0\<rparr>)
      (upd_thread t (\<lambda>th. th\<lparr>entry := ent, parameter := par, stack_addr := start, stack_size := sz,
         stack_mark := 35, sp := rt_hw_stack_init (start + sz - 4)\<rparr>) s)"
  have k2: "kcore {t} (rt_enter_critical s2)"
    unfolding s2_def by (intro timer_list_transit(5) transit_upd) (use k t in auto)
  have c2: "cur_ok (rt_enter_critical s2)"
    using k(2) t(1) by (auto simp: cur_ok_def s2_def rt_enter_critical_def tstat_def)
  have f2: "tstat (rt_enter_critical s2) t = 0" "rt_timer_list (rt_enter_critical s2) = rt_timer_list s"
    "stack_ok (threads (rt_enter_critical s2) t)" "object_list (rt_enter_critical s2) = object_list s"
    "objs (rt_enter_critical s2) = objs s"
    using stack_init_ok [OF st] by (simp_all add: s2_def rt_enter_critical_def tstat_def stack_ok_def)
  obtain s3 where s3: "rt_exit_critical (rt_enter_critical s2) = Some s3" "kcore {t} s3" "cur_ok s3" "resched (rt_enter_critical s2) s3"
    using resched_exit_transit [OF k2 c2 f2(1)] t(2) f2(2) by metis
  define s4 where "s4 = rt_timer_init_fields ?i (Rt_Thread_Timeout t) 0 0
     ((upd_obj (O_Timer ?i) (\<lambda>ob. ob\<lparr>obj_type := 10 OR RT_Object_Class_Static, obj_name := object_name nm\<rparr>) s3)\<lparr>
        object_list := (object_list s3)(10 := O_Timer ?i # object_list s3 10)\<rparr>)"
  have r: "rt_timer_list s3 = rt_timer_list s" "object_list s3 = object_list s" "tstat s3 t = 0" "objs s3 = objs s"
    "stack_ok (threads s3 t)" "init_priority (threads s3 t) = priority" "stack_addr (threads s3 t) = start"
    "entry (threads s3 t) = ent" "cleanup (threads s3 t) = None"
    using s3(4) f2 unfolding resched_def by (simp_all add: rt_enter_critical_def) (simp_all add: s2_def)
  have "rt_thread_init_fields t nm ent par start sz priority tick s = Some (0, s4)"
    using p s3(1) t(3) r(2) by (simp add: rt_thread_init_fields_def rt_timer_init_def rt_object_init_def rt_object_get_information_def
        object_container_def s2_def s4_def Let_def rt_enter_critical_def upd_obj_def)
  moreover have "kcore {t} s4"
    unfolding s4_def rt_timer_init_fields_def
    by (intro timer_list_transit(1,2,3)) (use s3(2) t(2) r(1) in auto)
  moreover have "cur_ok s4" using s3(3) by (simp add: cur_ok_def s4_def rt_timer_init_fields_def tstat_def)
  moreover have "born t s s4"
    unfolding s4_def rt_timer_init_fields_def
    by (rule born_trans [OF _ born_upd(4)], rule born_trans [OF _ born_upd(3)], rule born_trans [OF _ born_upd(5)],
        rule born_trans [OF _ born_upd(3)], rule born_trans [OF _ born_resched [OF s3(4)]], rule born_trans [OF _ born_upd(6)])
      (unfold s2_def, rule born_trans [OF born_upd(1) born_upd(1)])
  moreover have "objs s4 (O_Thread t) = objs s (O_Thread t)" "tstat s4 t = 0" "init_priority (threads s4 t) = priority"
    using r by (simp_all add: s4_def rt_timer_init_fields_def tstat_def)
  moreover have "tcb_ok s4 t" if "otype s (O_Thread t) = 1"
    using r that p by (simp add: tcb_ok_def s4_def rt_timer_init_fields_def otype_def upd_timer_def)
  ultimately show thesis
    by (rule that) (use r in \<open>simp_all add: s4_def rt_timer_init_fields_def\<close>)
qed

lemma settle_new:
  assumes "kcore {t} s" "cur_ok s" "tstat s t = 0" "tcb_ok s t" "Thread_Timer t \<notin> set (rt_timer_list s)"
  shows "kinv s"
proof -
  have "kcore ({t} - {t}) s"
    using assms(1) by (rule transit_settle) (use assms in \<open>auto simp: live_def\<close>)
  then show ?thesis using assms(2) by (simp add: kinv_def)
qed

text \<open>A new thread: initialised, known by its name, and nothing else has changed.\<close>

definition new_thread :: "tid \<Rightarrow> string \<Rightarrow> u8 \<Rightarrow> u8 \<Rightarrow> kernel \<Rightarrow> kernel \<Rightarrow> bool" where
  "new_thread t nm ty priority s s' \<longleftrightarrow>
     kinv s' \<and> born t s s' \<and> tstat s' t = RT_THREAD_INIT \<and> tcb_ok s' t \<and> init_priority (threads s' t) = priority \<and>
     obj_type (objs s' (O_Thread t)) = ty \<and> obj_name (objs s' (O_Thread t)) = object_name nm \<and>
     object_list s' = (object_list s)(1 := O_Thread t # object_list s 1, 10 := O_Timer (Thread_Timer t) # object_list s 10)"

lemma otype_static [simp]: "(0x81 :: u8) AND NOT 0x80 = 1"
  by simp

lemma finish_new:
  assumes u: "unused s t" and k2: "kcore {t} s2" and c2: "cur_ok s2"
    and f2: "rt_current_thread s2 \<noteq> Some t" "Thread_Timer t \<notin> set (rt_timer_list s2)" "object_list s2 = (object_list s)(1 := O_Thread t # object_list s 1)"
    "obj_type (objs s2 (O_Thread t)) = ty" "obj_name (objs s2 (O_Thread t)) = object_name nm"
    and b2: "born t s s2" and st: "stack_fits start sz" and p: "priority < 32" and ty: "ty = 1 \<or> ty = 0x81"
  obtains s' where "rt_thread_init_fields t nm ent par start sz priority tick s2 = Some (0, s')" "new_thread t nm ty priority s s'"
    "stack_addr (threads s' t) = start" "entry (threads s' t) = ent" "cleanup (threads s' t) = None"
proof -
  note U = u [unfolded unused_def]
  obtain s' where s': "rt_thread_init_fields t nm ent par start sz priority tick s2 = Some (0, s')" "kcore {t} s'" "cur_ok s'"
    "born t s2 s'" "objs s' (O_Thread t) = objs s2 (O_Thread t)" "tstat s' t = 0" "init_priority (threads s' t) = priority"
    "otype s2 (O_Thread t) = 1 \<Longrightarrow> tcb_ok s' t" "object_list s' = (object_list s2)(10 := O_Timer (Thread_Timer t) # object_list s2 10)"
    "stack_addr (threads s' t) = start" "entry (threads s' t) = ent" "cleanup (threads s' t) = None"
    by (rule init_fields_total [OF k2 c2 f2(1,2) _ st p]) (use f2(3) U in auto)
  have b: "born t s s'" by (rule born_trans [OF b2 s'(4)])
  have ok: "tcb_ok s' t" using s'(8) f2(4) ty by (auto simp: otype_def)
  have "Thread_Timer t \<notin> set (rt_timer_list s')" using b U by (simp add: born_def)
  then have "kinv s'" by (rule settle_new [OF s'(2,3,6) ok])
  then have "new_thread t nm ty priority s s'"
    using b ok s'(5,6,7,9) f2(3,4,5) by (simp add: new_thread_def)
  then show thesis using that s'(1,10-12) by blast
qed

lemma thread_create_total:
  assumes k: "kinv s" and u: "unused s t" and i: "rt_interrupt_nest s = 0" and st: "stack_fits start sz" and p: "priority < 32"
  obtains s' where "rt_thread_create (Some t) (Some start) nm ent par sz priority tick s = Some (Some t, s')" "new_thread t nm 1 priority s s'"
    "stack_addr (threads s' t) = start" "entry (threads s' t) = ent" "cleanup (threads s' t) = None"
proof -
  note U = u [unfolded unused_def]
  let ?a = "(upd_obj (O_Thread t) (\<lambda>ob. \<lparr>obj_name = object_name nm, obj_type = 1, obj_flag = 0\<rparr>) s)"
  define s2 where "s2 = upd_thread t (\<lambda>_. zero_thread) (?a\<lparr>object_list := (object_list ?a)(1 := O_Thread t # object_list ?a 1)\<rparr>)"
  have "kcore {t} s" using transit_out [OF kinvD(1) [OF k]] U by simp
  then have k2: "kcore {t} s2"
    unfolding s2_def by (intro transit_upd timer_list_transit(3,4)) (use U in auto)
  have c2: "cur_ok s2" using kinvD(2) [OF k] U by (auto simp: cur_ok_def s2_def tstat_def zero_thread_def)
  have f2: "rt_current_thread s2 \<noteq> Some t" "Thread_Timer t \<notin> set (rt_timer_list s2)" "object_list s2 = (object_list s)(1 := O_Thread t # object_list s 1)"
    "obj_type (objs s2 (O_Thread t)) = 1" "obj_name (objs s2 (O_Thread t)) = object_name nm"
    using U by (simp_all add: s2_def)
  have b2: "born t s s2"
    unfolding s2_def by (rule born_trans [OF _ born_upd(1)], rule born_trans [OF born_upd(2) born_upd(5)])
  obtain s' where s': "rt_thread_init_fields t nm ent par start sz priority tick s2 = Some (0, s')" "new_thread t nm 1 priority s s'"
    "stack_addr (threads s' t) = start" "entry (threads s' t) = ent" "cleanup (threads s' t) = None"
    by (rule finish_new [OF u k2 c2 f2 b2 st p]) simp
  moreover have "rt_thread_create (Some t) (Some start) nm ent par sz priority tick s = Some (Some t, s')"
    using s'(1) i by (simp add: rt_thread_create_def rt_object_allocate_def rt_object_get_information_def object_container_def
        s2_def Let_def upd_obj_def)
  ultimately show thesis using that by blast
qed

lemma thread_init_total:
  assumes k: "kinv s" and u: "unused s t" and st: "stack_fits start sz" and p: "priority < 32"
  obtains s' where "rt_thread_init t nm ent par start sz priority tick s = Some (0, s')" "new_thread t nm 0x81 priority s s'"
    "stack_addr (threads s' t) = start" "entry (threads s' t) = ent" "cleanup (threads s' t) = None"
proof -
  note U = u [unfolded unused_def]
  have "kinv (rt_enter_critical s)" using k by simp
  then obtain s1 where s1: "rt_exit_critical (rt_enter_critical s) = Some s1" "kinv s1" "resched s s1"
    unfolding resched_lock(3) [symmetric, of s] by (rule resched_exit)
  let ?a = "upd_obj (O_Thread t) (\<lambda>ob. ob\<lparr>obj_type := 1 OR RT_Object_Class_Static, obj_name := object_name nm\<rparr>) s1"
  define s2 where "s2 = ?a\<lparr>object_list := (object_list ?a)(1 := O_Thread t # object_list ?a 1)\<rparr>"
  have f1: "tstat s1 t = tstat s t" "rt_timer_list s1 = rt_timer_list s" "object_list s1 = object_list s"
    using s1(3) U by (simp_all add: resched_def) auto
  have off: "t \<notin> set (tq s1 l)" for l
  proof (cases "\<exists>p. l = L_ready p")
    case True
    then show ?thesis using kcoreD(3) [OF kinvD(1) [OF s1(2)], of t] f1(1) U by auto
  next
    case False
    then show ?thesis using s1(3) U by (simp add: resched_def)
  qed
  have c1: "rt_current_thread s1 \<noteq> Some t" using s1(3) f1(1) U by (auto simp: resched_def)
  have "kcore {t} s1" using transit_out [OF kinvD(1) [OF s1(2)]] off by simp
  then have k2: "kcore {t} s2"
    unfolding s2_def by (intro timer_list_transit(3,4)) (use U f1 in auto)
  have c2: "cur_ok s2" using kinvD(2) [OF s1(2)] by (simp add: cur_ok_def s2_def tstat_def)
  have f2: "rt_current_thread s2 \<noteq> Some t" "Thread_Timer t \<notin> set (rt_timer_list s2)" "object_list s2 = (object_list s)(1 := O_Thread t # object_list s 1)"
    "obj_type (objs s2 (O_Thread t)) = 0x81" "obj_name (objs s2 (O_Thread t)) = object_name nm"
    using U c1 f1 by (simp_all add: s2_def)
  have b2: "born t s s2"
    unfolding s2_def by (rule born_trans [OF born_resched [OF s1(3)]], rule born_trans [OF born_upd(2) born_upd(5)])
  obtain s' where s': "rt_thread_init_fields t nm ent par start sz priority tick s2 = Some (0, s')" "new_thread t nm 0x81 priority s s'"
    "stack_addr (threads s' t) = start" "entry (threads s' t) = ent" "cleanup (threads s' t) = None"
    by (rule finish_new [OF u k2 c2 f2 b2 st p]) simp
  moreover have "rt_thread_init t nm ent par start sz priority tick s = Some (0, s')"
    using s'(1) s1(1) st U by (simp add: rt_thread_init_def rt_object_init_def rt_object_get_information_def object_container_def
        s2_def Let_def upd_obj_def rt_enter_critical_def stack_fits_def)
  ultimately show thesis using that by blast
qed

lemma find_new:
  assumes "new_thread t nm ty priority s s'"
  obtains s2 where "rt_thread_find nm s' = Some (Some (O_Thread t), s2)" "resched s' s2"
proof -
  note N = assms [unfolded new_thread_def]
  have "kinv (rt_enter_critical s')" using N by simp
  then obtain s2 where s2: "rt_exit_critical (rt_enter_critical s') = Some s2" "resched s' s2"
    unfolding resched_lock(3) [symmetric, of s'] by (rule resched_exit)
  have f: "find_by_name s1 nm (object_list s1 1) = Some (O_Thread t)" if "objs s1 = objs s'" "object_list s1 = object_list s'" for s1
    using N that by simp
  define r where "r = (if rt_current_thread s' = None then s' else s2)"
  have "rt_thread_find nm s' = Some (Some (O_Thread t), r)"
    using s2(1) f [of s'] f [of "rt_enter_critical s'"]
    by (simp add: r_def rt_thread_find_def rt_thread_self_def rt_object_get_information_def object_container_def rt_enter_critical_def)
  then show thesis by (rule that) (simp add: r_def s2)
qed

lemma create_no_stack:
  assumes k: "kinv s" and u: "unused s t" and i: "rt_interrupt_nest s = 0"
  shows "\<exists>s1. rt_thread_create (Some t) None nm ent par sz priority tick s = Some (None, s1) \<and>
      kinv s1 \<and> object_list s1 = object_list s \<and> (\<forall>u. u \<noteq> t \<longrightarrow> threads s1 u = threads s u)"
proof -
  note U = u [unfolded unused_def]
  let ?a = "(upd_obj (O_Thread t) (\<lambda>ob. \<lparr>obj_name = object_name nm, obj_type = 1, obj_flag = 0\<rparr>) s)"
  define s2 where "s2 = upd_thread t (\<lambda>_. zero_thread) (?a\<lparr>object_list := (object_list ?a)(1 := O_Thread t # object_list ?a 1)\<rparr>)"
  define s1 where "s1 = object_unlink (O_Thread t) (upd_obj (O_Thread t) (\<lambda>ob. ob\<lparr>obj_type := 0\<rparr>) s2)"
  have "kcore {t} s" using transit_out [OF kinvD(1) [OF k]] U by simp
  then have "kcore {t} s1"
    unfolding s1_def object_unlink_def s2_def by (intro transit_upd timer_list_transit(3,4)) (use U in auto)
  then have "kcore ({t} - {t}) s1"
    by (rule transit_settle) (use U in \<open>auto simp: s1_def s2_def tstat_def otype_def zero_thread_def live_def\<close>)
  moreover have "cur_ok s1" using kinvD(2) [OF k] U by (auto simp: cur_ok_def s1_def s2_def tstat_def zero_thread_def)
  moreover have "object_list s1 = object_list s" using U by (auto simp: s1_def s2_def object_unlink_def)
  moreover have "rt_thread_create (Some t) None nm ent par sz priority tick s = Some (None, s1)"
    using i by (simp add: rt_thread_create_def rt_object_allocate_def rt_object_get_information_def object_container_def
        s1_def s2_def Let_def upd_obj_def rt_object_delete_def rt_object_is_systemobject_def)
  moreover have "u \<noteq> t \<Longrightarrow> threads s1 u = threads s u" for u by (simp add: s1_def s2_def)
  ultimately show ?thesis by (auto simp: kinv_def)
qed

text \<open>C17: \<open>rt_thread_create\<close> with memory for the control block and the stack returns an initialised
  thread and keeps the kernel consistent; the thread is the one that \<open>rt_thread_find\<close> finds under
  its name, cut to eight characters, and \<open>rt_thread_startup\<close> makes it ready or running. Without
  memory for the stack the control block leaves the object system again.\<close>

theorem thread_create_find:
  assumes k: "kinv s" and u: "unused s t" and i: "rt_interrupt_nest s = 0" and st: "stack_fits start sz" and p: "priority < 32"
  shows "(\<exists>s1 s2 s3. rt_thread_create (Some t) (Some start) nm ent par sz priority tick s = Some (Some t, s1) \<and>
      kinv s1 \<and> tstat s1 t = RT_THREAD_INIT \<and> init_priority (threads s1 t) = priority \<and>
      obj_name (objs s1 (O_Thread t)) = take 8 (takeWhile (\<lambda>c. c \<noteq> CHR 0x00) nm) \<and>
      rt_thread_find nm s1 = Some (Some (O_Thread t), s2) \<and>
      rt_thread_startup t s1 = Some (RT_EOK, s3) \<and> kinv s3 \<and> (tstat s3 t = RT_THREAD_READY \<or> tstat s3 t = RT_THREAD_RUNNING)) \<and>
    (\<exists>s1. rt_thread_create (Some t) None nm ent par sz priority tick s = Some (None, s1) \<and>
      kinv s1 \<and> object_list s1 = object_list s \<and> (\<forall>u. u \<noteq> t \<longrightarrow> threads s1 u = threads s u)) \<and>
    rt_thread_create None m nm ent par sz priority tick s = Some (None, s)"
proof (intro conjI)
  note U = u [unfolded unused_def]
  obtain s1 where s1: "rt_thread_create (Some t) (Some start) nm ent par sz priority tick s = Some (Some t, s1)" "new_thread t nm 1 priority s s1"
    by (rule thread_create_total [OF k u i st p])
  note N = s1(2) [unfolded new_thread_def]
  obtain s2 where s2: "rt_thread_find nm s1 = Some (Some (O_Thread t), s2)" by (rule find_new [OF s1(2)])
  have "otype s1 (O_Thread t) = 1" "Thread_Timer t \<notin> set (rt_timer_list s1)" using N U by (simp_all add: otype_def born_def)
  then obtain s3 where "rt_thread_startup t s1 = Some (0, s3)" "kinv s3" "tstat s3 t = 1 \<or> tstat s3 t = 3"
    using startup_total [of s1 t] N by blast
  then show "\<exists>s1 s2 s3. rt_thread_create (Some t) (Some start) nm ent par sz priority tick s = Some (Some t, s1) \<and>
      kinv s1 \<and> tstat s1 t = RT_THREAD_INIT \<and> init_priority (threads s1 t) = priority \<and>
      obj_name (objs s1 (O_Thread t)) = take 8 (takeWhile (\<lambda>c. c \<noteq> CHR 0x00) nm) \<and>
      rt_thread_find nm s1 = Some (Some (O_Thread t), s2) \<and>
      rt_thread_startup t s1 = Some (RT_EOK, s3) \<and> kinv s3 \<and> (tstat s3 t = RT_THREAD_READY \<or> tstat s3 t = RT_THREAD_RUNNING)"
    using s1(1) s2 N by (auto simp: object_name_def)
  show "\<exists>s1. rt_thread_create (Some t) None nm ent par sz priority tick s = Some (None, s1) \<and>
      kinv s1 \<and> object_list s1 = object_list s \<and> (\<forall>u. u \<noteq> t \<longrightarrow> threads s1 u = threads s u)"
    by (rule create_no_stack [OF k u i])
  show "rt_thread_create None m nm ent par sz priority tick s = Some (None, s)"
    using i by (simp add: rt_thread_create_def rt_object_allocate_def rt_object_get_information_def object_container_def)
qed

lemma kex_unused: "unused kex 9"
  by (auto simp: unused_def ex_tq_members kex_stat) (simp_all add: kex_def split: if_splits)

theorem thread_create_find_witness:
  "unused kex 9 \<and> (\<exists>s1 s2 s3. rt_thread_create (Some 9) (Some 0x20001000) ''producer'' 1 0 512 12 10 kex = Some (Some 9, s1) \<and>
     rt_thread_find ''producer'' s1 = Some (Some (O_Thread 9), s2) \<and>
     rt_thread_startup 9 s1 = Some (0, s3) \<and> kinv s3 \<and> (tstat s3 9 = 1 \<or> tstat s3 9 = 3))"
proof -
  have f: "stack_fits 0x20001000 512" by (simp add: stack_fits_def)
  have p: "(12 :: u8) < 32" by simp
  show ?thesis
    using thread_create_find [OF kex_kinv kex_unused kex_current(2) f p, of "''producer''" 1 0 10 None] kex_unused by blast
qed

subsection \<open>What the idle thread frees\<close>

text \<open>Cleanup functions of the application that return and change nothing of the scheduler, the
  threads, the timers and the object headers.\<close>

definition quiet_cleanup :: "(nat \<Rightarrow> tid \<Rightarrow> kernel \<Rightarrow> kernel option) \<Rightarrow> bool" where
  "quiet_cleanup clean \<longleftrightarrow> (\<forall>f t s. \<exists>s'. clean f t s = Some s' \<and>
     s' = s\<lparr>sems := sems s', mutexes := mutexes s', events := events s', mailboxes := mailboxes s',
       mqs := mqs s', mempools := mempools s'\<rparr>)"

text \<open>The idle thread runs and no other thread is ready.\<close>

definition idle_runs :: "kernel \<Rightarrow> bool" where
  "idle_runs s \<longleftrightarrow> kinv s \<and> rt_current_thread s \<noteq> None \<and> rt_interrupt_nest s = 0 \<and> rt_scheduler_lock_nest s = 0 \<and>
     rt_thread_ready_priority_group s = 0"

text \<open>The state after a thread has been taken from the list and has left the object system.\<close>

definition reaped :: "tid \<Rightarrow> kernel \<Rightarrow> kernel \<Rightarrow> bool" where
  "reaped t s s' \<longleftrightarrow> idle_runs s' \<and> threads s' = threads s \<and> tq s' = (\<lambda>l. removeAll t (tq s l)) \<and>
     objs s' = (objs s)(O_Thread t := (objs s (O_Thread t))\<lparr>obj_type := 0\<rparr>) \<and>
     object_list s' = (\<lambda>c. removeAll (O_Thread t) (object_list s c))"

lemma exit_no_ready:
  assumes "rt_scheduler_lock_nest s = 1" "rt_thread_ready_priority_group s = 0"
  shows "rt_exit_critical s = Some (s\<lparr>rt_scheduler_lock_nest := 0\<rparr>)"
  using assms by (simp add: rt_exit_critical_def rt_schedule_def Let_def)

lemma detach_closed_kinv:
  assumes k: "kinv s" and t: "tstat s t = 4" "\<And>l. t \<notin> set (tq s l)"
  shows "kinv (rt_object_detach (O_Thread t) s)"
proof -
  have "kcore {t} s" using transit_out [OF kinvD(1) [OF k]] t(2) by simp
  then have "kcore {t} (rt_object_detach (O_Thread t) s)" by (rule kcore_objs) auto
  then have "kcore ({t} - {t}) (rt_object_detach (O_Thread t) s)"
    by (rule transit_settle) (use t kcoreD(13) [OF kinvD(1) [OF k], of t] in \<open>auto simp: live_def\<close>)
  then show ?thesis using kinvD(2) [OF k] by (simp add: kinv_def cur_ok_def)
qed

lemma unlink_closed_kinv:
  assumes k: "kinv s" and t: "tstat s t = 4"
  shows "kinv (tlist_remove t s)"
proof -
  have "kcore {t} (tlist_remove t s)" using transit_unlink [OF kinvD(1) [OF k]] t by simp
  then have "kcore ({t} - {t}) (tlist_remove t s)"
    by (rule transit_settle) (use t kcoreD(13) [OF kinvD(1) [OF k], of t] in \<open>auto simp: live_def\<close>)
  then show ?thesis using kinvD(2) [OF k] by (simp add: kinv_def cur_ok_def)
qed

lemma idle_step:
  assumes r: "idle_runs s" and q: "tq s L_defunct = t # ts" and cl: "quiet_cleanup clean"
  obtains s' where "reaped t s s'"
    "if rt_object_is_systemobject (O_Thread t) s then idle_reap clean t s = Some (True, s')
     else \<exists>s1. idle_reap clean t s = Some (False, s1) \<and> rt_object_delete (O_Thread t) s1 = Some s'"
proof -
  have R: "kinv s" "rt_current_thread s \<noteq> None" "rt_interrupt_nest s = 0" "rt_scheduler_lock_nest s = 0" "rt_thread_ready_priority_group s = 0"
    using r by (simp_all add: idle_runs_def)
  let ?s1 = "rt_enter_critical (tlist_remove t s)"
  obtain s2 where s2: "(case cleanup (threads ?s1 t) of None \<Rightarrow> Some ?s1 | Some f \<Rightarrow> clean f t ?s1) = Some s2"
    "s2 = ?s1\<lparr>sems := sems s2, mutexes := mutexes s2, events := events s2, mailboxes := mailboxes s2, mqs := mqs s2, mempools := mempools s2\<rparr>"
  proof (cases "cleanup (threads ?s1 t)")
    case None
    then show thesis using that [of ?s1] by simp
  next
    case (Some f)
    then show thesis using that cl unfolding quiet_cleanup_def by (metis option.simps(5))
  qed
  have e: "threads s2 = threads s" "tq s2 = (\<lambda>l. removeAll t (tq s l))" "objs s2 = objs s" "object_list s2 = object_list s"
    "rt_current_thread s2 = rt_current_thread s" "rt_interrupt_nest s2 = 0" "rt_scheduler_lock_nest s2 = 1"
    "rt_thread_ready_priority_group s2 = 0" "rt_timer_list s2 = rt_timer_list s" "timers s2 = timers s"
    by (subst s2(2), simp add: rt_enter_critical_def R fun_eq_iff)+
  have st: "tstat s t = 4" using kcoreD(6) [OF kinvD(1) [OF R(1)]] q by simp
  have k2: "kinv s2"
    by (rule kinv_cong [OF unlink_closed_kinv [OF R(1) st]]) (simp_all add: e fun_eq_iff, simp add: R)
  let ?s' = "(rt_object_detach (O_Thread t) s2)\<lparr>rt_scheduler_lock_nest := 0\<rparr>"
  have "tstat s2 t = 4" using st by (simp add: tstat_def e)
  then have "kinv ?s'" using detach_closed_kinv [OF k2] by (simp add: e)
  then have "reaped t s ?s'"
    using R(2) by (simp add: reaped_def idle_runs_def e rt_object_detach_def object_unlink_def upd_obj_def)
  moreover have "idle_reap clean t s = Some (True, ?s')" if "rt_object_is_systemobject (O_Thread t) s"
    using that s2(1) exit_no_ready [of "rt_object_detach (O_Thread t) s2"]
    by (simp add: idle_reap_def Let_def e rt_object_is_systemobject_def)
  moreover have "idle_reap clean t s = Some (False, s2\<lparr>rt_scheduler_lock_nest := 0\<rparr>)" "rt_object_delete (O_Thread t) (s2\<lparr>rt_scheduler_lock_nest := 0\<rparr>) = Some ?s'"
    if "\<not> rt_object_is_systemobject (O_Thread t) s"
    using that s2(1) exit_no_ready [of s2]
    by (simp_all add: idle_reap_def Let_def e rt_object_is_systemobject_def rt_object_delete_def rt_object_detach_def object_unlink_def upd_obj_def)
  ultimately show thesis using that [of ?s'] by auto
qed

lemma reaped_facts:
  assumes "reaped t s s'" and q: "tq s L_defunct = t # ts" and k: "idle_runs s"
  shows "idle_runs s'" "tq s' L_defunct = ts" "l \<noteq> L_defunct \<Longrightarrow> tq s' l = tq s l" "threads s' = threads s"
    "u \<noteq> t \<Longrightarrow> rt_object_is_systemobject (O_Thread u) s' = rt_object_is_systemobject (O_Thread u) s"
    "object_list s' c = filter (\<lambda>i. i \<noteq> O_Thread t) (object_list s c)" "t \<notin> set ts"
proof -
  have wf: "tq_wf s" using k kcoreD(1) kinvD(1) unfolding idle_runs_def by blast
  then have d: "distinct (t # ts)" and o: "l \<noteq> L_defunct \<Longrightarrow> t \<notin> set (tq s l)" for l
    using q unfolding tq_wf_def by (metis, metis IntI empty_iff list.set_intros(1))
  show "idle_runs s'" "threads s' = threads s" "tq s' L_defunct = ts" "l \<noteq> L_defunct \<Longrightarrow> tq s' l = tq s l" "t \<notin> set ts"
    using assms(1) d o q by (auto simp: reaped_def)
  show "u \<noteq> t \<Longrightarrow> rt_object_is_systemobject (O_Thread u) s' = rt_object_is_systemobject (O_Thread u) s"
    using assms(1) by (simp add: reaped_def rt_object_is_systemobject_def)
  show "object_list s' c = filter (\<lambda>i. i \<noteq> O_Thread t) (object_list s c)"
    using assms(1) by (simp add: reaped_def removeAll_filter_not_eq) (metis (mono_tags, lifting))
qed

lemma idle_loop:
  assumes "idle_runs s" "quiet_cleanup clean" "tq s L_defunct = ts"
  shows "\<exists>s'. rt_thread_idle_excute clean s = Some (takeWhile (\<lambda>t. \<not> rt_object_is_systemobject (O_Thread t) s) ts, s') \<and>
    idle_runs s' \<and> threads s' = threads s \<and> tq s' L_defunct = tl (dropWhile (\<lambda>t. \<not> rt_object_is_systemobject (O_Thread t) s) ts) \<and>
    (\<forall>l. l \<noteq> L_defunct \<longrightarrow> tq s' l = tq s l) \<and>
    (\<forall>c. object_list s' c = filter (\<lambda>i. i \<notin> O_Thread ` (set ts - set (tq s' L_defunct))) (object_list s c))"
  using assms
proof (induction ts arbitrary: s)
  case Nil
  then show ?case
    by (subst rt_thread_idle_excute.simps) (simp add: has_defunct_thread_def tlist_isempty_def)
next
  case (Cons t ts)
  let ?sys = "\<lambda>s t. rt_object_is_systemobject (O_Thread t) s"
  obtain s1 where s1: "reaped t s s1"
    "if ?sys s t then idle_reap clean t s = Some (True, s1)
     else \<exists>sx. idle_reap clean t s = Some (False, sx) \<and> rt_object_delete (O_Thread t) sx = Some s1"
    by (rule idle_step [OF Cons.prems(1,3,2)])
  note F = reaped_facts [OF s1(1) Cons.prems(3,1)]
  have u: "rt_thread_idle_excute clean s = (do { (static, sx) \<leftarrow> idle_reap clean t s;
      if static then Some ([], sx)
      else do { s2 \<leftarrow> rt_object_delete (O_Thread t) sx; (freed, s3) \<leftarrow> rt_thread_idle_excute clean s2; Some (t # freed, s3) } })"
    using Cons.prems by (subst rt_thread_idle_excute.simps) (simp add: has_defunct_thread_def tlist_isempty_def idle_runs_def)
  show ?case
  proof (cases "?sys s t")
    case True
    have "insert t (set ts) - set ts = {t}" using F(7) by auto
    then show ?thesis using True s1(2) F by (simp add: u)
  next
    case False
    obtain s' where s': "rt_thread_idle_excute clean s1 = Some (takeWhile (\<lambda>t. \<not> ?sys s1 t) ts, s')"
      "idle_runs s'" "threads s' = threads s1" "tq s' L_defunct = tl (dropWhile (\<lambda>t. \<not> ?sys s1 t) ts)"
      "\<And>l. l \<noteq> L_defunct \<Longrightarrow> tq s' l = tq s1 l"
      "\<And>c. object_list s' c = filter (\<lambda>i. i \<notin> O_Thread ` (set ts - set (tq s' L_defunct))) (object_list s1 c)"
      using Cons.IH [OF F(1) Cons.prems(2) F(2)] by blast
    have tw: "takeWhile (\<lambda>t. \<not> ?sys s1 t) ts = takeWhile (\<lambda>t. \<not> ?sys s t) ts"
      "dropWhile (\<lambda>t. \<not> ?sys s1 t) ts = dropWhile (\<lambda>t. \<not> ?sys s t) ts"
      by (rule takeWhile_cong dropWhile_cong; use F(5,7) in metis)+
    have "t \<notin> set (tq s' L_defunct)"
      using F(7) s'(4) by (metis (no_types) set_dropWhileD list.set_sel(2) tl_Nil)
    then have "insert t (set ts) - set (tq s' L_defunct) = insert t (set ts - set (tq s' L_defunct))" by auto
    then have "object_list s' c = filter (\<lambda>i. i \<notin> O_Thread ` (insert t (set ts) - set (tq s' L_defunct))) (object_list s c)" for c
      by (simp add: s'(6) F(6) conj_commute)
    then show ?thesis using False s1(2) s' tw F(3,4) by (auto simp: u)
  qed
qed

lemma tl_dropWhile_all: "\<forall>x \<in> set xs. P x \<Longrightarrow> tl (dropWhile P xs) = []"
  by (induction xs) auto

text \<open>C18: one call of \<open>rt_thread_idle_excute\<close> by the idle thread returns and frees the stacks and control
  blocks of the dynamic threads at the front of the list of ended threads, in order; at the first
  static thread, which it detaches, it stops. The threads it has handled are on no object list
  any more, everything else stays, and the kernel stays consistent. The list is empty afterwards
  when it holds no static thread.\<close>

theorem idle_frees:
  assumes "idle_runs s" "quiet_cleanup clean"
  shows "\<exists>s'. rt_thread_idle_excute clean s = Some (takeWhile (\<lambda>t. \<not> rt_object_is_systemobject (O_Thread t) s) (tq s L_defunct), s') \<and>
    idle_runs s' \<and> threads s' = threads s \<and>
    tq s' L_defunct = tl (dropWhile (\<lambda>t. \<not> rt_object_is_systemobject (O_Thread t) s) (tq s L_defunct)) \<and>
    (\<forall>l. l \<noteq> L_defunct \<longrightarrow> tq s' l = tq s l) \<and>
    (\<forall>c. object_list s' c = filter (\<lambda>i. i \<notin> O_Thread ` (set (tq s L_defunct) - set (tq s' L_defunct))) (object_list s c)) \<and>
    ((\<forall>t \<in> set (tq s L_defunct). \<not> rt_object_is_systemobject (O_Thread t) s) \<longrightarrow> tq s' L_defunct = [])"
  using idle_loop [OF assms refl] by (auto intro: tl_dropWhile_all)

text \<open>An idle system: thread 0 runs, 1 and 3 (dynamic) and 2 (static, with a cleanup function) have
  ended.\<close>

definition kidle :: kernel where
  "kidle = kex\<lparr>threads := (\<lambda>t. if t = 0 then ex_thread 3 31 31 else if t = 2 then (ex_thread 4 10 10)\<lparr>cleanup := Some 5\<rparr>
       else if t \<le> 3 then ex_thread 4 10 10 else zero_thread),
     tq := (\<lambda>l. if l = L_defunct then [1, 2, 3] else []), rt_thread_ready_priority_group := 0, rt_current_thread := Some 0,
     objs := (\<lambda>i. case i of O_Thread t \<Rightarrow> \<lparr>obj_name = ''t'', obj_type = (if t = 0 \<or> t = 2 then 0x81 else if t \<le> 3 then 1 else 0), obj_flag = 0\<rparr>
       | O_Timer (Thread_Timer t) \<Rightarrow> \<lparr>obj_name = ''t'', obj_type = (if t = 0 then 0x8a else 0), obj_flag = 0\<rparr> | _ \<Rightarrow> ex_objs i),
     object_list := (\<lambda>c. if c = 1 then map O_Thread [3, 2, 1, 0] else []), rt_timer_list := []\<rparr>"

lemma kidle_stat: "tstat kidle t = (if t = 0 then 3 else if t \<le> 3 then 4 else 0)"
  by (simp add: tstat_def kidle_def ex_thread_def zero_thread_def)

lemma kidle_runs: "idle_runs kidle"
proof -
  have "kcore {} kidle"
  proof (rule kcoreI, goal_cases)
    case (7 t)
    then have "t = 0" by (auto simp: live_def kidle_stat split: if_splits)
    then show ?case by (simp add: tcb_ok_def prio_ok_def kidle_def otype_def stack_ok_def ex_thread_def zero_thread_def kex_def)
  qed (auto simp: kidle_stat tq_wf_def otype_def, auto simp: kidle_def split: if_splits)
  moreover have "cur_ok kidle" by (simp add: cur_ok_def kidle_stat) (simp add: kidle_def)
  ultimately show ?thesis by (simp add: idle_runs_def kinv_def) (simp add: kidle_def kex_def)
qed

lemma quiet_no_cleanup: "quiet_cleanup (\<lambda>f t s. Some s)"
  by (simp add: quiet_cleanup_def)

theorem idle_frees_witness:
  "idle_runs kidle \<and> tq kidle L_defunct = [1, 2, 3] \<and>
   (\<exists>s'. rt_thread_idle_excute (\<lambda>f t s. Some s) kidle = Some ([1], s') \<and> tq s' L_defunct = [3] \<and> idle_runs s' \<and>
     object_list s' 1 = map O_Thread [3, 0])"
proof -
  have q: "tq kidle L_defunct = [1, 2, 3]" "object_list kidle 1 = map O_Thread [3, 2, 1, 0]" by (simp_all add: kidle_def)
  have sys: "rt_object_is_systemobject (O_Thread t) kidle \<longleftrightarrow> t = 0 \<or> t = 2" for t
    by (simp add: rt_object_is_systemobject_def kidle_def)
  obtain s' where s': "rt_thread_idle_excute (\<lambda>f t s. Some s) kidle = Some (takeWhile (\<lambda>t. \<not> (t = 0 \<or> t = 2)) [1, 2, 3], s')"
    "idle_runs s'" "tq s' L_defunct = tl (dropWhile (\<lambda>t. \<not> (t = 0 \<or> t = 2)) [1, 2, 3])"
    "\<And>c. object_list s' c = filter (\<lambda>i. i \<notin> O_Thread ` (set [1, 2, 3] - set (tq s' L_defunct))) (object_list kidle c)"
    using idle_frees [OF kidle_runs quiet_no_cleanup] unfolding q(1) sys by blast
  have "tq s' L_defunct = [3]" using s'(3) by simp
  moreover from this have "object_list s' 1 = map O_Thread [3, 0]" using s'(4) [of 1] by (auto simp: q(2))
  ultimately show ?thesis using s'(1,2) kidle_runs q(1) by simp
qed

end
