(* ===== verification/Startup.thy ===== *)
theory Startup
  imports System Thread_Life
begin

text \<open>
  The start of the system (\<open>src/components.c\<close>): the kernel lists are initialised, the main thread is
  created, the idle thread is initialised, and the scheduler is started. \<open>rt_hw_board_init\<close>, which
  sets up the hardware, the heap and the drivers of the board, is the argument \<open>board\<close>. The theory
  shows that the start leaves a consistent system in which the main thread runs, so that
  everything reachable from it is consistent.
\<close>

subsection \<open>Operations\<close>

definition rt_application_init :: "tid option \<Rightarrow> u32 option \<Rightarrow> nat \<Rightarrow> kernel \<Rightarrow> kernel option" where
  "rt_application_init fresh stack_start main_thread_entry s = do {
     (tid, s1) \<leftarrow> rt_thread_create fresh stack_start ''main'' main_thread_entry 0 2048 10 20 s;
     t \<leftarrow> tid;
     (_, s2) \<leftarrow> rt_thread_startup t s1;
     Some s2
   }"

text \<open>\<open>rt_show_version\<close> only prints, and without software timers \<open>rt_system_timer_thread_init\<close> does
  nothing.\<close>

definition rtthread_startup ::
  "(kernel \<Rightarrow> kernel option) \<Rightarrow> tid option \<Rightarrow> u32 option \<Rightarrow> nat \<Rightarrow> tid \<Rightarrow> nat \<Rightarrow> u32 \<Rightarrow> kernel \<Rightarrow> kernel option" where
  "rtthread_startup board fresh stack_start main_thread_entry idle rt_thread_idle_entry rt_thread_stack s = do {
     s0 \<leftarrow> board s;
     let s1 = rt_system_scheduler_init (rt_system_timer_init s0);
     s2 \<leftarrow> rt_application_init fresh stack_start main_thread_entry s1;
     s3 \<leftarrow> rt_thread_idle_init idle rt_thread_idle_entry rt_thread_stack s2;
     rt_system_scheduler_start s3
   }"

subsection \<open>Threads before the scheduler runs\<close>

lemma boot_startup:
  assumes n: "new_thread t nm ty p s s1" and c: "rt_current_thread s = None" and tm: "Thread_Timer t \<notin> set (rt_timer_list s)"
    and ty: "ty = 1 \<or> ty = 0x81"
  obtains s' where "rt_thread_startup t s1 = Some (0, s')" "kinv s'" "born t s s'" "tstat s' t = 1" "prio s' t = unat p"
    "object_list s' = object_list s1" "obj_type (objs s' (O_Thread t)) = ty" "obj_type (objs s' (O_Timer (Thread_Timer t))) = 0x8a"
proof -
  note N = n [unfolded new_thread_def]
  define s2 where "s2 = upd_thread t (\<lambda>th. th\<lparr>current_priority := init_priority th,
     number_mask := push_bit (unat (init_priority th)) 1, stat := RT_THREAD_SUSPEND\<rparr>) s1"
  let ?s' = "resumed t s2"
  have ot: "otype s1 (O_Thread t) = 1" using N ty by (auto simp: otype_def)
  have tm1: "Thread_Timer t \<notin> set (rt_timer_list s1)" and c1: "rt_current_thread s1 = None" using N tm c by (simp_all add: born_def)
  have k: "kinv s1" and st: "tstat s1 t = 0" using N by simp_all
  note R = startup_resume [OF k st ot tm1, folded s2_def]
  have k': "kinv ?s'" by (rule resumed_kinv [OF R(1,2)])
  have off: "removeAll t (tq s1 l) = tq s1 l" for l using off_lists_stat [OF kinvD(1) [OF k]] st by simp
  have f: "threads s2 u = threads s1 u" "tstat s2 u = tstat s1 u" if "u \<noteq> t" for u using that by (simp_all add: s2_def tstat_def)
  have g: "tq s2 = tq s1" "rt_timer_list s2 = rt_timer_list s1" "objs s2 = objs s1" "timers s2 = timers s1" "sems s2 = sems s1"
    "mutexes s2 = mutexes s1" "events s2 = events s1" "mailboxes s2 = mailboxes s1" "mqs s2 = mqs s1" "mempools s2 = mempools s1"
    "rt_tick s2 = rt_tick s1" "rt_interrupt_nest s2 = rt_interrupt_nest s1" "rt_current_thread s2 = None" "object_list s2 = object_list s1"
    "prio s2 t = unat (init_priority (threads s1 t))"
    by (simp_all add: s2_def c1)
  have e: "rt_thread_startup t s1 = Some (0, ?s')"
    unfolding rt_thread_startup_def Let_def s2_def [symmetric] using R(3) st ot by (simp add: get_type_otype rt_thread_self_def g)
  have o: "i \<noteq> O_Timer (Thread_Timer t) \<Longrightarrow> objs ?s' i = objs s1 i" for i
    by (simp add: resumed_def Let_def stopped_def set_activated_def g)
  have tl: "rt_timer_list ?s' = rt_timer_list s1"
    using tm1 by (simp add: resumed_def Let_def stopped_def rt_timer_remove_def g)
  have "born t s1 ?s'"
    unfolding born_def by (intro conjI allI impI) (simp_all add: o tl f g off live_def c1)
  then have b: "born t s ?s'" using born_trans N by blast
  have "obj_type (objs s1 (O_Timer (Thread_Timer t))) = 0x8a" using N by (simp add: tcb_ok_def)
  then show thesis
    using c1 N by (intro that [OF e k' b]) (simp_all add: g)
qed

text \<open>What \<open>rt_hw_board_init\<close> leaves behind: no thread has been set up and none waits, the scheduler
  has not been started, and the objects of the drivers are well formed.\<close>

definition board_done :: "kernel \<Rightarrow> bool" where
  "board_done s \<longleftrightarrow> rt_current_thread s = None \<and> rt_interrupt_nest s = 0 \<and>
     (\<forall>t. tstat s t = RT_THREAD_INIT \<and> otype s (O_Thread t) = 0) \<and>
     (\<forall>l. wait_head l \<or> (\<exists>p \<ge> 32. l = L_ready p) \<longrightarrow> tq s l = []) \<and>
     (\<forall>c t. O_Thread t \<notin> set (object_list s c) \<and> O_Timer (Thread_Timer t) \<notin> set (object_list s c)) \<and>
     (\<forall>i. otype s i = class_of i \<longrightarrow> obj_ok s i)"

lemma lists_init:
  assumes "board_done s"
  defines "s1 \<equiv> rt_system_scheduler_init (rt_system_timer_init s)"
  shows "kinv s1" "rt_current_thread s1 = None" "rt_interrupt_nest s1 = 0" "tq s1 l = []" "tstat s1 t = 0" "rt_timer_list s1 = []" "unused s1 t"
proof -
  note B = assms(1) [unfolded board_done_def]
  have q: "tq s1 l = []" for l
    using B unfolding s1_def rt_system_scheduler_init_def rt_system_timer_init_def by (cases l) auto
  have st: "tstat s1 t = 0" "otype s1 (O_Thread t) = 0" for t
    using B by (simp_all add: s1_def rt_system_scheduler_init_def rt_system_timer_init_def tstat_def otype_def)
  show "rt_current_thread s1 = None" "rt_interrupt_nest s1 = 0" "tq s1 l = []" "tstat s1 t = 0" "rt_timer_list s1 = []"
    using B q st by (simp_all add: s1_def rt_system_scheduler_init_def rt_system_timer_init_def)
  note F = this
  have g: "rt_thread_ready_priority_group s1 = 0" "rt_timer_list s1 = []" "rt_current_thread s1 = None"
    using B by (simp_all add: s1_def rt_system_scheduler_init_def rt_system_timer_init_def)
  have "kcore {} s1" by (rule kcoreI) (simp_all add: q st g tq_wf_def live_def)
  then show "kinv s1" by (simp add: kinv_def cur_ok_def st g)
  show "unused s1 t" using B by (simp add: unused_def q st g) (simp add: s1_def rt_system_scheduler_init_def rt_system_timer_init_def)
qed

lemma obj_ok_calm:
  assumes "obj_ok s i" and "sems s' = sems s" "mutexes s' = mutexes s" "mailboxes s' = mailboxes s" "mqs s' = mqs s"
    and "\<And>l. wait_head l \<Longrightarrow> tq s' l = []" and "\<And>u. live s u \<Longrightarrow> live s' u"
    and "\<And>n. timers s' (Timer_Obj n) = timers s (Timer_Obj n)"
  shows "obj_ok s' i"
proof (cases i)
  case (O_Mutex n)
  then show ?thesis using assms by (auto simp: mutex_ok_def split: option.splits)
next
  case (O_Timer j)
  then show ?thesis using assms by (cases j) auto
qed (use assms in \<open>auto simp: sem_ok_def event_ok_def\<close>)

text \<open>\<open>rt_system_scheduler_start\<close>: the processor goes to the first thread of the highest priority.\<close>

lemma start_total:
  assumes k: "kinv s" and c: "rt_current_thread s = None" and m: "tstat s m = 1"
    and low: "\<And>u. tstat s u = 1 \<Longrightarrow> u \<noteq> m \<Longrightarrow> prio s m < prio s u"
  obtains s' where "rt_system_scheduler_start s = Some s'" "kinv s'" "rt_current_thread s' = Some m" "tstat s' m = 3"
    "\<forall>u. u \<noteq> m \<longrightarrow> threads s' u = threads s u" "\<forall>l. (\<forall>p. l \<noteq> L_ready p) \<longrightarrow> tq s' l = tq s l" "objs s' = objs s"
    "timers s' = timers s" "sems s' = sems s" "mutexes s' = mutexes s" "mailboxes s' = mailboxes s" "mqs s' = mqs s"
    "rt_interrupt_nest s' = rt_interrupt_nest s" "prio s' m = prio s m"
proof -
  note K = kinvD(1) [OF k]
  have lm: "live s m" using m by (simp add: live_def)
  have ok: "tcb_ok s m" "prio_ok s m" using kcoreD(7,8) [OF K, of m] lm by auto
  have mq: "m \<in> set (tq s (L_ready (prio s m)))" using kcoreD(3) [OF K, of m "prio s m"] m by simp
  then have "bit (rt_thread_ready_priority_group s) (prio s m)" using kcoreD(4) [OF K, of "prio s m"] ok(2) by (auto simp: prio_ok_def)
  then have "rt_thread_ready_priority_group s \<noteq> 0" by auto
  then obtain t ts p where h: "tq s (L_ready p) = t # ts" "get_highest_priority_thread s = Some (t, p)"
      "\<And>q. q < p \<Longrightarrow> tq s (L_ready q) = []" "tstat s t = 1" "prio s t = p"
    using highest_ready [OF K] by metis
  have "\<not> prio s m < p" using h(3) [of "prio s m"] mq by auto
  then have tm: "t = m" using low [OF h(4)] h(5) by blast
  let ?s1 = "s\<lparr>rt_current_thread := Some m\<rparr>"
  define s' where "s' = upd_thread m (\<lambda>th. th\<lparr>stat := 3\<rparr>) (unready m ?s1)"
  have st: "tstat s' u = (if u = m then 3 else tstat s u)" for u by (simp add: s'_def tstat_def)
  have k1: "kcore {} ?s1" by (rule kcore_cong [OF K]) simp_all
  have "prio_ok ?s1 m" using ok(2) by (simp add: prio_ok_def)
  then have "kcore {m} s'" unfolding s'_def using transit_upd [OF transit_remove [OF k1]] by simp
  then have "kcore ({m} - {m}) s'"
  proof (rule transit_settle)
    show "tcb_ok s' m \<and> prio_ok s' m" using ok by (simp add: s'_def tcb_ok_def prio_ok_def otype_def stack_ok_def)
    show "Thread_Timer m \<in> set (rt_timer_list s') \<Longrightarrow> tstat s' m = 2" using kcoreD(13) [OF K, of m] m by (simp add: s'_def)
  qed (simp_all add: st)
  moreover have "cur_ok s'"
    using kinvD(2) [OF k] c by (auto simp: cur_ok_def st) (simp_all add: s'_def)
  ultimately have k': "kinv s'" by (simp add: kinv_def)
  have r: "rt_system_scheduler_start s = Some s'"
    using h(2) ok(2) remove_thread_eq [of ?s1 m] by (simp add: rt_system_scheduler_start_def tm s'_def prio_ok_def)
  have q: "tq s' l = tq s l" if "\<And>p. l \<noteq> L_ready p" for l
    using that mq kcoreD(1) [OF K] unfolding s'_def tq_wf_def by (simp add: removeAll_id) (metis IntI empty_iff removeAll_id)
  have t3: "tstat s' m = 3" by (simp add: st)
  show thesis by (rule that [OF r k' _ t3]) (use q in \<open>simp_all add: s'_def\<close>)
qed

subsection \<open>The start\<close>

lemma startup_total_boot:
  assumes b: "board s = Some s0" "board_done s0" and mi: "m \<noteq> i" and st: "stack_fits stk 2048" "stack_fits istk 256"
  obtains s' where "rtthread_startup board (Some m) (Some stk) e i ie istk s = Some s'" "system_ok s'" "caller s' m"
    "tstat s' i = 1" "prio s' m = 10" "prio s' i = 31" "\<And>u. u \<noteq> m \<Longrightarrow> u \<noteq> i \<Longrightarrow> tstat s' u = 0"
proof -
  define s1 where "s1 = rt_system_scheduler_init (rt_system_timer_init s0)"
  note L = lists_init [OF b(2), folded s1_def]
  have p10: "(10 :: u8) < 32" and p31: "(31 :: u8) < 32" by simp_all
  obtain s2 where s2: "rt_thread_create (Some m) (Some stk) ''main'' e 0 2048 10 20 s1 = Some (Some m, s2)" "new_thread m ''main'' 1 10 s1 s2"
    by (rule thread_create_total [OF L(1,7,3) st(1) p10])
  obtain s3 where s3: "rt_thread_startup m s2 = Some (0, s3)" "kinv s3" "born m s1 s3" "tstat s3 m = 1" "prio s3 m = unat (10 :: u8)"
    "object_list s3 = object_list s2"
    by (rule boot_startup [OF s2(2) L(2)]) (simp_all add: L(6))
  note B3 = s3(3) [unfolded born_def]
  have i0: "tstat s3 i = 0" using B3 L(5) mi by simp
  have ui: "unused s3 i"
    using B3 L(2,6) mi i0 off_lists_stat [OF kinvD(1) [OF s3(2)], of i] L(7) [of i] s2(2)
    by (simp add: unused_def s3(6) new_thread_def)
  obtain s4 where s4: "rt_thread_init i ''tidle0'' ie 0 istk 256 31 32 s3 = Some (0, s4)" "new_thread i ''tidle0'' 0x81 31 s3 s4"
    by (rule thread_init_total [OF s3(2) ui st(2) p31])
  obtain s5 where s5: "rt_thread_startup i s4 = Some (0, s5)" "kinv s5" "born i s3 s5" "tstat s5 i = 1" "prio s5 i = unat (31 :: u8)"
    by (rule boot_startup [OF s4(2)]) (use B3 L(2,6) in simp_all)
  note B5 = s5(3) [unfolded born_def]
  have c5: "rt_current_thread s5 = None" using B3 B5 L(2) by simp
  have m5: "tstat s5 m = 1" "prio s5 m = 10"
    using B5 s3(4,5) mi c5 kinvD(2) [OF s5(2)] by (auto simp: cur_ok_def)
  have o5: "tstat s5 u = 0" if "u \<noteq> m" "u \<noteq> i" for u using B3 B5 L(5) that by simp
  have low: "prio s5 m < prio s5 u" if "tstat s5 u = 1" "u \<noteq> m" for u
    using o5 [of u] that m5(2) s5(5) by (cases "u = i") simp_all
  obtain s' where s': "rt_system_scheduler_start s5 = Some s'" "kinv s'" "rt_current_thread s' = Some m" "tstat s' m = 3"
    "\<forall>u. u \<noteq> m \<longrightarrow> threads s' u = threads s5 u" "\<forall>l. (\<forall>p. l \<noteq> L_ready p) \<longrightarrow> tq s' l = tq s5 l" "objs s' = objs s5"
    "timers s' = timers s5" "sems s' = sems s5" "mutexes s' = mutexes s5" "mailboxes s' = mailboxes s5" "mqs s' = mqs s5"
    "rt_interrupt_nest s' = rt_interrupt_nest s5" "prio s' m = prio s5 m"
    by (rule start_total [OF s5(2) c5 m5(1) low])
  have w: "tq s' l = []" if "wait_head l" for l
  proof -
    have "l \<noteq> L_ready p" for p using that by auto
    then show ?thesis using s'(6) B5 B3 L(4) [of l] by simp
  qed
  have ob: "obj_ok s' j" if "otype s' j = class_of j" for j
  proof (cases "\<exists>t. j = O_Thread t \<or> j = O_Timer (Thread_Timer t)")
    case False
    then have "objs s' j = objs s0 j"
      using B3 B5 by (simp add: s'(7) s1_def rt_system_scheduler_init_def rt_system_timer_init_def)
    then have "obj_ok s0 j" using that b(2) by (simp add: board_done_def otype_def)
    then show ?thesis
      by (rule obj_ok_calm)
        (use s'(8-12) B3 B5 w b(2) in \<open>auto simp: board_done_def live_def s1_def rt_system_scheduler_init_def rt_system_timer_init_def\<close>)
  qed auto
  have ok: "system_ok s'" using s'(2,3) w ob by (simp add: system_ok_def waiters_ok_def)
  have cl: "caller s' m" using s'(3,4,13) B3 B5 L(3) by (simp add: caller_def)
  have r: "rtthread_startup board (Some m) (Some stk) e i ie istk s = Some s'"
    using b(1) s2(1) s3(1) s4(1) s5(1) s'(1)
    by (simp add: rtthread_startup_def rt_application_init_def rt_thread_idle_init_def flip: s1_def)
  have "tstat s' u = tstat s5 u" if "u \<noteq> m" for u using s'(5) that by (simp add: tstat_def)
  then show thesis
    using s'(5,14) s5(4,5) m5 mi o5 by (intro that [OF r ok cl]) simp_all
qed

text \<open>C4: \<open>rtthread_startup\<close> ends with a consistent system: the main thread is the current one and runs
  at priority 10, the idle thread is ready at priority 31, and no other thread exists. From there
  on every sequence of calls and clock interrupts keeps the system consistent, and no call that
  respects the contract of its arguments faults. The hypotheses say what the board code leaves
  behind and that there is memory for the stacks.\<close>

theorem startup_boots:
  assumes "board s = Some s0" "board_done s0" "m \<noteq> i" "stack_fits stk 2048" "stack_fits istk 256"
  shows "\<exists>s'. rtthread_startup board (Some m) (Some stk) e i ie istk s = Some s' \<and> system_ok s' \<and> caller s' m \<and>
    prio s' m = 10 \<and> tstat s' i = RT_THREAD_READY \<and> prio s' i = 31 \<and>
    (\<forall>u. u \<noteq> m \<longrightarrow> u \<noteq> i \<longrightarrow> tstat s' u = RT_THREAD_INIT) \<and>
    (\<forall>user s'' c x. mild_callbacks user \<and> (kstep user)\<^sup>*\<^sup>* s' s'' \<longrightarrow>
       system_ok s'' \<and> (caller s'' c \<and> enabled x s'' \<longrightarrow> exec c x s'' \<noteq> None))"
proof -
  obtain s' where s': "rtthread_startup board (Some m) (Some stk) e i ie istk s = Some s'" "system_ok s'" "caller s' m"
    "tstat s' i = 1" "prio s' m = 10" "prio s' i = 31" "\<And>u. u \<noteq> m \<Longrightarrow> u \<noteq> i \<Longrightarrow> tstat s' u = 0"
    using startup_total_boot [of board s s0, OF assms, of e ie] by metis
  have "system_ok s''" if "mild_callbacks user" "(kstep user)\<^sup>*\<^sup>* s' s''" for user s''
    using ksys.reach_inv [OF that(2)] that(1) s'(2) by simp
  moreover have "exec c x s'' \<noteq> None" if "system_ok s''" "caller s'' c" "enabled x s''" for s'' c x
    using exec_safe [OF that] by (auto simp: safe_def)
  ultimately show ?thesis using s' by blast
qed

text \<open>A board that sets up two semaphores and no thread.\<close>

definition kboard :: kernel where
  "kboard = kex\<lparr>threads := (\<lambda>_. zero_thread), tq := (\<lambda>_. []), rt_current_thread := None,
     objs := (\<lambda>i. case i of O_Sem n \<Rightarrow> ex_objs (O_Sem n) | _ \<Rightarrow> \<lparr>obj_name = [], obj_type = 0, obj_flag = 0\<rparr>),
     object_list := (\<lambda>c. if c = 2 then [O_Sem 1, O_Sem 0] else []), rt_timer_list := []\<rparr>"

lemma kboard_done: "board_done kboard"
proof -
  have "obj_ok kboard i" if "otype kboard i = class_of i" for i
    using that by (cases i) (auto simp: kboard_def otype_def sem_ok_def split: timer_id.splits)
  then show ?thesis
    by (simp add: board_done_def) (simp add: kboard_def tstat_def otype_def zero_thread_def)
qed

theorem startup_boots_witness:
  "board_done kboard \<and> (\<exists>s. rtthread_startup Some (Some 1) (Some 0x20001000) 7 0 8 0x20000100 kboard = Some s \<and>
     caller s 1 \<and> tstat s 0 = 1 \<and> system_ok s)"
proof -
  have f: "stack_fits 0x20001000 2048" "stack_fits 0x20000100 256" by (simp_all add: stack_fits_def)
  have "Some kboard = Some kboard" "(1 :: nat) \<noteq> 0" by simp_all
  from startup_boots [of Some, OF this(1) kboard_done this(2) f, of 7 8] kboard_done
  show ?thesis by blast
qed

end
