(* ===== verification/Mq_Pieces.thy ===== *)
theory Mq_Pieces
  imports Message_Queue "HOL-Library.Multiset"
begin

text \<open>
  The message queue calls of \<open>src/ipc.c\<close> with interrupts between their pieces. A send takes a slot
  in one critical section, clears and fills it with interrupts enabled, and links it in a second
  one; a receive unlinks a slot, copies it with interrupts enabled, and frees it. Here any number of
  calls are under way on one queue, in any interleaving of their pieces. The theory shows that
  queue, free list and the slots in the hands of the calls always partition the pool, that the
  messages change only where a slot is linked or unlinked, and then as the whole calls change
  them, that a receive copies the message it unlinked, and that no piece faults. The state is the
  queue alone: waiting receivers and the waking of one by a send are in \<open>Message_Queue\<close>.
\<close>

subsection \<open>Calls under way\<close>

text \<open>A call under way holds a slot. The last component of \<open>Recv_Unlinked\<close> is the message as it was
  unlinked; the code does not keep it, it only serves to state what is copied.\<close>

datatype mq_flight =
    Send_Taken nat "u8 list" u32 | Send_Cleared nat "u8 list" u32 | Send_Copied nat "u8 list" u32
  | Urgent_Taken nat "u8 list" u32 | Urgent_Copied nat "u8 list" u32
  | Recv_Unlinked nat u32 "u8 list" | Recv_Copied nat

fun flight_slot :: "mq_flight \<Rightarrow> nat" where
  "flight_slot (Send_Taken i b sz) = i"
| "flight_slot (Send_Cleared i b sz) = i"
| "flight_slot (Send_Copied i b sz) = i"
| "flight_slot (Urgent_Taken i b sz) = i"
| "flight_slot (Urgent_Copied i b sz) = i"
| "flight_slot (Recv_Unlinked i sz d) = i"
| "flight_slot (Recv_Copied i) = i"

type_synonym mq_state = "rt_messagequeue \<times> mq_flight multiset"

datatype mq_event = Quiet | Linked_Tail "u8 list" | Linked_Head "u8 list" | Unlinked "u8 list" | Received "u8 list" u32 "u8 list"

inductive mq_piece :: "mq_state \<Rightarrow> mq_event \<Rightarrow> mq_state \<Rightarrow> bool" where
  send_takes: "sz \<noteq> 0 \<Longrightarrow> sz \<le> ucast (msg_size m) \<Longrightarrow> unat sz \<le> length b \<Longrightarrow> mq_take_free m = Some (i, m1) \<Longrightarrow>
    mq_piece (m, F) Quiet (m1, add_mset (Send_Taken i b sz) F)"
| send_clears: "mq_piece (m, add_mset (Send_Taken i b sz) F) Quiet
    (m\<lparr>msg_next := (msg_next m)(i := None)\<rparr>, add_mset (Send_Cleared i b sz) F)"
| send_copies: "mq_copy_in i b sz m = Some m1 \<Longrightarrow>
    mq_piece (m, add_mset (Send_Cleared i b sz) F) Quiet (m1, add_mset (Send_Copied i b sz) F)"
| send_links: "mq_piece (m, add_mset (Send_Copied i b sz) F) (Linked_Tail (msg_data m i)) (mq_link_tail i m, F)"
| urgent_takes: "sz \<noteq> 0 \<Longrightarrow> sz \<le> ucast (msg_size m) \<Longrightarrow> unat sz \<le> length b \<Longrightarrow> mq_take_free m = Some (i, m1) \<Longrightarrow>
    mq_piece (m, F) Quiet (m1, add_mset (Urgent_Taken i b sz) F)"
| urgent_copies: "mq_copy_in i b sz m = Some m1 \<Longrightarrow>
    mq_piece (m, add_mset (Urgent_Taken i b sz) F) Quiet (m1, add_mset (Urgent_Copied i b sz) F)"
| urgent_links: "mq_piece (m, add_mset (Urgent_Copied i b sz) F) (Linked_Head (msg_data m i)) (mq_link_head i m, F)"
| recv_unlinks: "mq_entry m \<noteq> 0 \<Longrightarrow> mq_unlink m = Some (i, m1) \<Longrightarrow>
    mq_piece (m, F) (Unlinked (msg_data m i))
      (m1\<lparr>mq_entry := mq_entry m1 - 1\<rparr>, add_mset (Recv_Unlinked i sz (msg_data m i)) F)"
| recv_copies: "len = (if sz > ucast (msg_size m) then unat (msg_size m) else unat sz) \<Longrightarrow> len \<le> length (msg_data m i) \<Longrightarrow>
    mq_piece (m, add_mset (Recv_Unlinked i sz d) F) (Received d sz (take len (msg_data m i))) (m, add_mset (Recv_Copied i) F)"
| recv_frees: "mq_piece (m, add_mset (Recv_Copied i) F) Quiet (mq_put_free i m, F)"

inductive_cases mq_pieceE: "mq_piece x e y"

subsection \<open>The invariant\<close>

fun flight_ok :: "rt_messagequeue \<Rightarrow> mq_flight \<Rightarrow> bool" where
  "flight_ok m (Send_Taken i b sz) \<longleftrightarrow> unat sz \<le> length b \<and> unat sz \<le> unat (msg_size m)"
| "flight_ok m (Send_Cleared i b sz) \<longleftrightarrow> unat sz \<le> length b \<and> unat sz \<le> unat (msg_size m) \<and> msg_next m i = None"
| "flight_ok m (Send_Copied i b sz) \<longleftrightarrow> msg_next m i = None \<and> take (unat sz) (msg_data m i) = take (unat sz) b"
| "flight_ok m (Urgent_Taken i b sz) \<longleftrightarrow> unat sz \<le> length b \<and> unat sz \<le> unat (msg_size m)"
| "flight_ok m (Urgent_Copied i b sz) \<longleftrightarrow> take (unat sz) (msg_data m i) = take (unat sz) b"
| "flight_ok m (Recv_Unlinked i sz d) \<longleftrightarrow> msg_data m i = d"
| "flight_ok m (Recv_Copied i) \<longleftrightarrow> True"

definition mq_parts :: "nat list \<Rightarrow> nat list \<Rightarrow> mq_state \<Rightarrow> bool" where
  "mq_parts q fr = (\<lambda>(m, F).
     chain (msg_next m) (msg_queue_head m) q \<and> chain (msg_next m) (msg_queue_free m) fr \<and>
     msg_queue_tail m = (if q = [] then None else Some (last q)) \<and> unat (mq_entry m) = length q \<and>
     mset (q @ fr) + image_mset flight_slot F = mset_set {..<unat (max_msgs m)} \<and>
     (\<forall>i < unat (max_msgs m). length (msg_data m i) = unat (msg_size m)) \<and> (\<forall>f \<in># F. flight_ok m f))"

lemma mset_set_disjoint:
  assumes "mset xs + M = mset_set {..<n}"
  shows "distinct xs" "x \<in># M \<Longrightarrow> x \<notin> set xs" "M = add_mset x N \<Longrightarrow> x \<notin># N" "set xs \<union> set_mset M = {..<n :: nat}"
proof -
  have "count (mset xs) x + count M x = count (mset_set {..<n}) x" for x by (simp flip: assms)
  then have c: "count (mset xs) x + count M x \<le> 1" for x by (simp add: count_mset_set')
  show "distinct xs"
  proof (subst distinct_count_atmost_1, intro allI)
    fix x show "count (mset xs) x = (if x \<in> set xs then 1 else 0)"
    proof (cases "x \<in> set xs")
      case True
      then have "1 \<le> count (mset xs) x" by (simp add: Suc_le_eq)
      then have "count (mset xs) x = 1" using c [of x] by linarith
      then show ?thesis using True by simp
    qed simp
  qed
  show "x \<notin> set xs" if "x \<in># M"
  proof
    assume "x \<in> set xs"
    then have "1 \<le> count (mset xs) x" "1 \<le> count M x" using that by (simp_all add: Suc_le_eq)
    then show False using c [of x] by linarith
  qed
  show "x \<notin># N" if "M = add_mset x N"
  proof
    assume "x \<in># N"
    then have "2 \<le> count M x" using that by (simp add: Suc_le_eq)
    then show False using c [of x] by linarith
  qed
  have "set_mset (mset xs + M) = set_mset (mset_set {..<n})" using assms by simp
  then show "set xs \<union> set_mset M = {..<n}" by simp
qed

text \<open>What the invariant says about the slot of a call under way.\<close>

lemma mq_partsD:
  assumes "mq_parts q fr (m, add_mset f F)"
  shows "flight_slot f < unat (max_msgs m)" "flight_slot f \<notin> set q" "flight_slot f \<notin> set fr"
    "g \<in># F \<Longrightarrow> flight_slot g \<noteq> flight_slot f" "flight_ok m f" "g \<in># F \<Longrightarrow> flight_ok m g"
    "length (msg_data m (flight_slot f)) = unat (msg_size m)"
proof -
  have e: "mset (q @ fr) + image_mset flight_slot (add_mset f F) = mset_set {..<unat (max_msgs m)}"
    using assms by (simp only: mq_parts_def split)
  note D = mset_set_disjoint [OF e]
  show "flight_slot f < unat (max_msgs m)" using D(4) by auto
  then show "length (msg_data m (flight_slot f)) = unat (msg_size m)" using assms by (simp add: mq_parts_def)
  show "flight_slot f \<notin> set q" "flight_slot f \<notin> set fr" using D(2) [of "flight_slot f"] by auto
  show "flight_slot g \<noteq> flight_slot f" if "g \<in># F"
    using D(3) [of "flight_slot f" "image_mset flight_slot F"] that by (metis image_eqI image_mset_add_mset set_image_mset)
  show "flight_ok m f" "g \<in># F \<Longrightarrow> flight_ok m g" using assms by (simp_all add: mq_parts_def)
qed

lemma mq_parts_slots:
  assumes "mq_parts q fr (m, F)"
  shows "mq_msgs m = map (msg_data m) q" "distinct (q @ fr)" "i \<in> set (q @ fr) \<Longrightarrow> i < unat (max_msgs m)"
    "f \<in># F \<Longrightarrow> flight_slot f \<notin> set (q @ fr)" "length q \<le> unat (max_msgs m)"
proof -
  have e: "mset (q @ fr) + image_mset flight_slot F = mset_set {..<unat (max_msgs m)}"
    using assms by (simp only: mq_parts_def split)
  note D = mset_set_disjoint [OF e]
  show "mq_msgs m = map (msg_data m) q"
    using assms walk_chain [of "msg_next m" "msg_queue_head m" q] by (simp add: mq_parts_def mq_msgs_def mq_slots_def)
  show "distinct (q @ fr)" by (rule D(1))
  show "i < unat (max_msgs m)" if "i \<in> set (q @ fr)" using D(4) that by blast
  show "flight_slot f \<notin> set (q @ fr)" if "f \<in># F" using D(2) [of "flight_slot f"] that by simp
  have "size (mset (q @ fr)) \<le> size (mset_set {..<unat (max_msgs m)})" unfolding e [symmetric] by simp
  then show "length q \<le> unat (max_msgs m)" by simp
qed

text \<open>With no call under way this is the invariant of the whole calls.\<close>

lemma mq_parts_none: "mq_parts q fr (m, {#}) \<longleftrightarrow> mq_rep q fr m"
proof
  assume p: "mq_parts q fr (m, {#})"
  have "set (q @ fr) = {..<unat (max_msgs m)}"
    using mset_set_disjoint(4) [of "q @ fr" "{#}" "unat (max_msgs m)"] p by (simp add: mq_parts_def)
  then show "mq_rep q fr m" using p mq_parts_slots(2) [OF p] unfolding mq_parts_def mq_rep_def mq_links_def by auto
next
  assume r: "mq_rep q fr m"
  then have "mset (q @ fr) = mset_set {..<unat (max_msgs m)}"
    unfolding mq_rep_def mq_links_def by (metis mset_set_set)
  then show "mq_parts q fr (m, {#})" using r unfolding mq_parts_def mq_rep_def mq_links_def by auto
qed

definition mq_flying :: "mq_state \<Rightarrow> bool" where
  "mq_flying x \<longleftrightarrow> (\<exists>q fr. mq_parts q fr x)"

lemma mq_flying_none: "mq_flying (m, {#}) \<longleftrightarrow> mq_inv m"
  using mq_rep_slots by (auto simp: mq_flying_def mq_parts_none mq_inv_def)

subsection \<open>The pieces\<close>

lemma flight_ok_cong:
  assumes "flight_ok m g" "msg_next m' (flight_slot g) = msg_next m (flight_slot g)"
    "msg_data m' (flight_slot g) = msg_data m (flight_slot g)" "msg_size m' = msg_size m"
  shows "flight_ok m' g"
  using assms by (cases g) simp_all

lemma take_parts:
  assumes "mq_parts q fr (m, F)" "mq_take_free m = Some (flight_slot f, m1)" "flight_ok m f"
  shows "mq_flying (m1, add_mset f F)" "mq_msgs m1 = mq_msgs m" "msg_size m1 = msg_size m \<and> max_msgs m1 = max_msgs m"
proof -
  have m1: "m1 = m\<lparr>msg_queue_free := msg_next m (flight_slot f)\<rparr>" "msg_queue_free m = Some (flight_slot f)"
    using assms(2) by (auto simp: mq_take_free_def split: option.splits)
  then obtain fr' where fr: "fr = flight_slot f # fr'" using assms(1) by (cases fr) (auto simp: mq_parts_def)
  have "mq_parts q fr' (m1, add_mset f F)"
    using assms(1,3) flight_ok_cong [of m _ m1] by (auto simp: mq_parts_def m1 fr)
  then show "mq_flying (m1, add_mset f F)" by (auto simp: mq_flying_def)
  show "mq_msgs m1 = mq_msgs m" "msg_size m1 = msg_size m \<and> max_msgs m1 = max_msgs m"
    by (simp_all add: m1 mq_msgs_def mq_slots_def)
qed

text \<open>A piece outside the critical sections touches only the slot of its call.\<close>

lemma own_slot_parts:
  assumes p: "mq_parts q fr (m, add_mset f F)" and f: "flight_slot f' = flight_slot f" "flight_ok m' f'"
    and m': "m' = m\<lparr>msg_next := (msg_next m)(flight_slot f := v), msg_data := (msg_data m)(flight_slot f := d)\<rparr>"
    and d: "length d = unat (msg_size m)"
  shows "mq_flying (m', add_mset f' F)" "mq_msgs m' = mq_msgs m" "msg_size m' = msg_size m \<and> max_msgs m' = max_msgs m"
proof -
  note D = mq_partsD [OF p]
  have ok: "flight_ok m' g" if "g \<in># F" for g
    by (rule flight_ok_cong [OF D(6) [OF that]]) (use D(4) [OF that] in \<open>simp_all add: m'\<close>)
  have p': "mq_parts q fr (m', add_mset f' F)"
    using p d f ok D(2,3) by (auto simp: mq_parts_def m' chain_upd)
  then show "mq_flying (m', add_mset f' F)" by (auto simp: mq_flying_def)
  have "map (msg_data m') q = map (msg_data m) q" using D(2) by (simp add: m')
  then show "mq_msgs m' = mq_msgs m" using mq_parts_slots(1) [OF p'] mq_parts_slots(1) [OF p] by simp
  show "msg_size m' = msg_size m \<and> max_msgs m' = max_msgs m" by (simp add: m')
qed

lemma copy_parts:
  assumes p: "mq_parts q fr (m, add_mset f F)" and c: "mq_copy_in (flight_slot f) b sz m = Some m1"
    and f: "f = Send_Cleared i b sz \<and> f' = Send_Copied i b sz \<or> f = Urgent_Taken i b sz \<and> f' = Urgent_Copied i b sz"
  shows "mq_flying (m1, add_mset f' F)" "mq_msgs m1 = mq_msgs m" "msg_size m1 = msg_size m \<and> max_msgs m1 = max_msgs m"
proof -
  note D = mq_partsD [OF p]
  let ?d = "take (unat sz) b @ drop (unat sz) (msg_data m i)"
  have i: "flight_slot f = i" "flight_slot f' = i" using f by auto
  have b: "unat sz \<le> length b" "unat sz \<le> unat (msg_size m)" using D(5) f by auto
  have m1: "m1 = m\<lparr>msg_next := (msg_next m)(flight_slot f := msg_next m i), msg_data := (msg_data m)(flight_slot f := ?d)\<rparr>"
    using c b D(7) by (simp add: mq_copy_in_def i)
  have "flight_ok m1 f'" using D(5) f b by (auto simp: m1)
  then show "mq_flying (m1, add_mset f' F)" "mq_msgs m1 = mq_msgs m" "msg_size m1 = msg_size m \<and> max_msgs m1 = max_msgs m"
    using own_slot_parts [OF p _ _ m1] i b D(7) by auto
qed

lemma entry_room:
  assumes "mq_parts q fr (m, add_mset f F)"
  shows "unat (mq_entry m + 1) = length q + 1"
proof -
  have e: "mset (q @ fr) + image_mset flight_slot (add_mset f F) = mset_set {..<unat (max_msgs m)}"
    using assms by (simp only: mq_parts_def split)
  have "size (mset (q @ fr) + image_mset flight_slot (add_mset f F)) = unat (max_msgs m)" unfolding e by simp
  then have "length q < unat (max_msgs m)" by simp
  then show ?thesis using assms entry_succ [of "mq_entry m" "max_msgs m"] by (simp add: mq_parts_def)
qed

lemma link_tail_parts:
  assumes p: "mq_parts q fr (m, add_mset f F)" and f: "f = Send_Copied i b sz"
  shows "mq_flying (mq_link_tail i m, F)" "mq_msgs (mq_link_tail i m) = mq_msgs m @ [msg_data m i]"
    "msg_size (mq_link_tail i m) = msg_size m \<and> max_msgs (mq_link_tail i m) = max_msgs m"
proof -
  let ?L = "mq_link_tail i m"
  note D = mq_partsD [OF p, unfolded f, simplified]
  note P = p [unfolded mq_parts_def, simplified]
  have L: "msg_data ?L = msg_data m" "msg_queue_free ?L = msg_queue_free m" "mq_entry ?L = mq_entry m + 1"
      "msg_queue_tail ?L = Some i" "msg_size ?L = msg_size m" "max_msgs ?L = max_msgs m"
      "msg_next ?L = (if q = [] then msg_next m else (msg_next m)(last q := Some i))"
      "msg_queue_head ?L = (if q = [] then Some i else msg_queue_head m)"
    using P by (cases q; simp add: mq_link_tail_def Let_def)+
  have lq: "last q \<notin> set fr" "g \<in># F \<Longrightarrow> flight_slot g \<noteq> last q" if "q \<noteq> []" for g
    using last_in_set [OF that] mq_parts_slots(2) [OF p] mq_parts_slots(4) [OF p, of g] by auto
  have "chain (msg_next ?L) (msg_queue_head ?L) (q @ [i])"
    using P D chain_snoc [of "msg_next m" "msg_queue_head m" q i] mq_parts_slots(2) [OF p] by (auto simp: L)
  moreover have "chain (msg_next ?L) (msg_queue_free ?L) fr" using P lq(1) by (auto simp: L chain_upd)
  moreover have "flight_ok ?L g" if "g \<in># F" for g
    by (rule flight_ok_cong [OF D(6) [OF that]]) (use lq(2) [of g] that in \<open>auto simp: L\<close>)
  ultimately have p': "mq_parts (q @ [i]) fr (?L, F)"
    using P entry_room [OF p] f by (auto simp: mq_parts_def L)
  then show "mq_flying (?L, F)" by (auto simp: mq_flying_def)
  show "mq_msgs ?L = mq_msgs m @ [msg_data m i]" using mq_parts_slots(1) [OF p'] mq_parts_slots(1) [OF p] by (simp add: L)
  show "msg_size ?L = msg_size m \<and> max_msgs ?L = max_msgs m" by (simp add: L)
qed

lemma link_head_parts:
  assumes p: "mq_parts q fr (m, add_mset f F)" and f: "f = Urgent_Copied i b sz"
  shows "mq_flying (mq_link_head i m, F)" "mq_msgs (mq_link_head i m) = msg_data m i # mq_msgs m"
    "msg_size (mq_link_head i m) = msg_size m \<and> max_msgs (mq_link_head i m) = max_msgs m"
proof -
  let ?L = "mq_link_head i m"
  note D = mq_partsD [OF p, unfolded f, simplified]
  note P = p [unfolded mq_parts_def, simplified]
  have L: "msg_data ?L = msg_data m" "msg_queue_free ?L = msg_queue_free m" "mq_entry ?L = mq_entry m + 1"
      "msg_queue_tail ?L = Some (last (i # q))" "msg_size ?L = msg_size m" "max_msgs ?L = max_msgs m"
      "msg_next ?L = (msg_next m)(i := msg_queue_head m)" "msg_queue_head ?L = Some i"
    using P by (simp_all add: mq_link_head_def Let_def)
  have "flight_ok ?L g" if "g \<in># F" for g
    by (rule flight_ok_cong [OF D(6) [OF that]]) (use D(4) [OF that] in \<open>auto simp: L\<close>)
  then have p': "mq_parts (i # q) fr (?L, F)"
    using P D entry_room [OF p] f by (auto simp: mq_parts_def L chain_upd)
  then show "mq_flying (?L, F)" by (auto simp: mq_flying_def)
  show "mq_msgs ?L = msg_data m i # mq_msgs m" using mq_parts_slots(1) [OF p'] mq_parts_slots(1) [OF p] by (simp add: L)
  show "msg_size ?L = msg_size m \<and> max_msgs ?L = max_msgs m" by (simp add: L)
qed

lemma unlink_parts:
  assumes p: "mq_parts q fr (m, F)" and ne: "mq_entry m \<noteq> 0" and u: "mq_unlink m = Some (i, m1)"
  defines "m2 \<equiv> m1\<lparr>mq_entry := mq_entry m1 - 1\<rparr>"
  shows "mq_flying (m2, add_mset (Recv_Unlinked i sz (msg_data m i)) F)" "mq_msgs m = msg_data m i # mq_msgs m2"
    "msg_size m2 = msg_size m \<and> max_msgs m2 = max_msgs m"
proof -
  note P = p [unfolded mq_parts_def, simplified]
  obtain q' where q: "q = i # q'" using P u by (cases q) (auto simp: mq_unlink_def Let_def)
  have iq: "i \<notin> set q'" using mq_parts_slots(2) [OF p] by (simp add: q)
  have m2: "m2 = m\<lparr>msg_queue_head := msg_next m i, msg_queue_tail := (if q' = [] then None else Some (last q')), mq_entry := mq_entry m - 1\<rparr>"
    using u P iq last_in_set [of q'] unfolding m2_def mq_unlink_def
    by (auto simp: q Let_def split: if_splits intro!: rt_messagequeue.equality)
  have e: "unat (mq_entry m - 1) = length q'" using P ne by (metis diff_Suc_1 length_Cons q unat_minus_one)
  have "flight_ok m2 g" if "g \<in># F" for g
    by (rule flight_ok_cong [of m]) (use P that in \<open>auto simp: m2\<close>)
  then have p': "mq_parts q' fr (m2, add_mset (Recv_Unlinked i sz (msg_data m i)) F)"
    using P e by (auto simp: mq_parts_def m2 q)
  then show "mq_flying (m2, add_mset (Recv_Unlinked i sz (msg_data m i)) F)" by (auto simp: mq_flying_def)
  show "mq_msgs m = msg_data m i # mq_msgs m2"
    using mq_parts_slots(1) [OF p'] mq_parts_slots(1) [OF p] by (simp add: m2 q)
  show "msg_size m2 = msg_size m \<and> max_msgs m2 = max_msgs m" by (simp add: m2)
qed

lemma put_free_parts:
  assumes p: "mq_parts q fr (m, add_mset f F)" and f: "f = Recv_Copied i"
  shows "mq_flying (mq_put_free i m, F)" "mq_msgs (mq_put_free i m) = mq_msgs m"
    "msg_size (mq_put_free i m) = msg_size m \<and> max_msgs (mq_put_free i m) = max_msgs m"
proof -
  note D = mq_partsD [OF p, unfolded f, simplified]
  note P = p [unfolded mq_parts_def, simplified]
  have "flight_ok (mq_put_free i m) g" if "g \<in># F" for g
    by (rule flight_ok_cong [OF D(6) [OF that]]) (use D(4) [OF that] in \<open>auto simp: mq_put_free_def\<close>)
  then have p': "mq_parts q (i # fr) (mq_put_free i m, F)"
    using P D f by (auto simp: mq_parts_def mq_put_free_def chain_upd)
  then show "mq_flying (mq_put_free i m, F)" by (auto simp: mq_flying_def)
  show "mq_msgs (mq_put_free i m) = mq_msgs m"
    using mq_parts_slots(1) [OF p'] mq_parts_slots(1) [OF p] by (simp add: mq_put_free_def)
  show "msg_size (mq_put_free i m) = msg_size m \<and> max_msgs (mq_put_free i m) = max_msgs m" by (simp add: mq_put_free_def)
qed

subsection \<open>All interleavings\<close>

text \<open>What a piece does to the messages of the queue.\<close>

fun event_effect :: "mq_event \<Rightarrow> u8 list list \<Rightarrow> u8 list list \<Rightarrow> bool" where
  "event_effect Quiet ms ms' \<longleftrightarrow> ms' = ms"
| "event_effect (Linked_Tail d) ms ms' \<longleftrightarrow> ms' = ms @ [d]"
| "event_effect (Linked_Head d) ms ms' \<longleftrightarrow> ms' = d # ms"
| "event_effect (Unlinked d) ms ms' \<longleftrightarrow> ms = d # ms'"
| "event_effect (Received d sz d') ms ms' \<longleftrightarrow> ms' = ms \<and> d' = take (unat sz) d"

lemma mq_piece_ok:
  assumes "mq_piece (m, F) e (m', F')" "mq_flying (m, F)"
  shows "mq_flying (m', F') \<and> event_effect e (mq_msgs m) (mq_msgs m') \<and> msg_size m' = msg_size m \<and> max_msgs m' = max_msgs m"
proof -
  obtain q fr where p: "mq_parts q fr (m, F)" using assms(2) by (auto simp: mq_flying_def)
  from assms(1) show ?thesis
  proof cases
    case (send_takes sz b i)
    then show ?thesis using take_parts [OF p, of "Send_Taken i b sz" m'] by (simp add: word_le_nat_alt)
  next
    case (send_clears i b sz G)
    note p = p [unfolded send_clears]
    show ?thesis
      using own_slot_parts [OF p, where f' = "Send_Cleared i b sz" and m' = m' and v = None and d = "msg_data m i"] mq_partsD(5,7) [OF p] send_clears by simp
  next
    case (send_copies i b sz G)
    then show ?thesis using copy_parts [OF p [unfolded send_copies], where b = b and sz = sz and ?m1.0 = m' and i = i] by simp
  next
    case (send_links i b sz)
    then show ?thesis using link_tail_parts [OF p [unfolded send_links] refl] by simp
  next
    case (urgent_takes sz b i)
    then show ?thesis using take_parts [OF p, of "Urgent_Taken i b sz" m'] by (simp add: word_le_nat_alt)
  next
    case (urgent_copies i b sz G)
    then show ?thesis using copy_parts [OF p [unfolded urgent_copies], where b = b and sz = sz and ?m1.0 = m' and i = i] by simp
  next
    case (urgent_links i b sz)
    then show ?thesis using link_head_parts [OF p [unfolded urgent_links] refl] by simp
  next
    case (recv_unlinks i m1 sz)
    then show ?thesis using unlink_parts [OF p recv_unlinks(4,5)] by simp
  next
    case (recv_copies len sz i d G)
    note p = p [unfolded recv_copies]
    note D = mq_partsD [OF p]
    have "take len (msg_data m i) = take (unat sz) d"
      using D(5,7) recv_copies by (auto simp: word_less_nat_alt not_less)
    moreover have "mq_flying (m, add_mset (Recv_Copied i) G)" "mq_msgs m = mq_msgs m"
      using own_slot_parts(1) [OF p, where f' = "Recv_Copied i" and m' = m and v = "msg_next m i" and d = "msg_data m i"] D(7) by simp_all
    ultimately show ?thesis using recv_copies by simp
  next
    case (recv_frees i)
    then show ?thesis using put_free_parts [OF p [unfolded recv_frees] refl] by simp
  qed
qed

definition mq_moves :: "mq_state \<Rightarrow> mq_state \<Rightarrow> bool" where
  "mq_moves x y \<longleftrightarrow> (\<exists>e. mq_piece x e y)"

interpretation mqp: transition_system mq_moves mq_flying "\<lambda>(m, F). (msg_size m, max_msgs m)"
  by unfold_locales (auto simp: mq_moves_def dest: mq_piece_ok)

text \<open>From a well-formed queue with no call under way, whatever pieces run: when no call is under way
  again the queue is well formed, so that interrupts inside the calls do not break what the
  theorems about whole calls rest on.\<close>

lemma mq_interleaved:
  assumes "mq_inv m" "mq_moves\<^sup>*\<^sup>* (m, {#}) (m', {#})"
  shows "mq_inv m' \<and> max_msgs m' = max_msgs m"
  using mqp.reach_inv [OF assms(2)] mqp.reach_kept [OF assms(2)] assms(1) by (simp add: mq_flying_none)

text \<open>No piece faults: a call under way can always make its next step.\<close>

lemma mq_flight_proceeds:
  assumes "mq_flying (m, add_mset f F)"
  shows "\<exists>e m' f'. mq_piece (m, add_mset f F) e (m', add_mset f' F) \<or> mq_piece (m, add_mset f F) e (m', F)"
proof -
  obtain q fr where p: "mq_parts q fr (m, add_mset f F)" using assms by (auto simp: mq_flying_def)
  note D = mq_partsD(5,7) [OF p]
  show ?thesis
  proof (cases f)
    case (Send_Cleared i b sz)
    then obtain m1 where "mq_copy_in i b sz m = Some m1" using D by (simp add: mq_copy_in_def)
    then show ?thesis using Send_Cleared mq_piece.send_copies by blast
  next
    case (Urgent_Taken i b sz)
    then obtain m1 where "mq_copy_in i b sz m = Some m1" using D by (simp add: mq_copy_in_def)
    then show ?thesis using Urgent_Taken mq_piece.urgent_copies by blast
  next
    case (Recv_Unlinked i sz d)
    have "(if sz > ucast (msg_size m) then unat (msg_size m) else unat sz) \<le> length (msg_data m i)"
      using D Recv_Unlinked by (auto simp: word_less_nat_alt not_less)
    then show ?thesis using Recv_Unlinked mq_piece.recv_copies [OF refl] by blast
  qed (blast intro: mq_piece.intros)+
qed

text \<open>A receive that finds an entry can unlink it.\<close>

lemma mq_unlink_proceeds:
  assumes "mq_flying (m, F)" "mq_entry m \<noteq> 0"
  shows "mq_unlink m \<noteq> None"
proof -
  obtain q fr where p: "mq_parts q fr (m, F)" using assms(1) by (auto simp: mq_flying_def)
  then have "q \<noteq> []" using assms(2) by (auto simp: mq_parts_def unat_eq_zero)
  then have "msg_queue_head m \<noteq> None" using p by (cases q) (auto simp: mq_parts_def)
  then show ?thesis by (auto simp: mq_unlink_def Let_def)
qed

text \<open>The whole calls are runs of their pieces: what \<open>rt_mq_send\<close> and \<open>rt_mq_recv\<close> do to the queue in one
  step is reached by the pieces in their order.\<close>

lemma send_is_pieces:
  assumes "sz \<noteq> 0" "sz \<le> ucast (msg_size m)" "unat sz \<le> length b" "mq_take_free m = Some (i, m1)"
    "mq_copy_in i b sz (m1\<lparr>msg_next := (msg_next m1)(i := None)\<rparr>) = Some m3"
  shows "mq_moves\<^sup>*\<^sup>* (m, F) (mq_link_tail i m3, F)"
proof -
  have "mq_moves (m, F) (m1, add_mset (Send_Taken i b sz) F)"
    "mq_moves (m1, add_mset (Send_Taken i b sz) F) (m1\<lparr>msg_next := (msg_next m1)(i := None)\<rparr>, add_mset (Send_Cleared i b sz) F)"
    "mq_moves (m1\<lparr>msg_next := (msg_next m1)(i := None)\<rparr>, add_mset (Send_Cleared i b sz) F) (m3, add_mset (Send_Copied i b sz) F)"
    "mq_moves (m3, add_mset (Send_Copied i b sz) F) (mq_link_tail i m3, F)"
    using mq_piece.send_takes [OF assms(1-4)] mq_piece.send_clears mq_piece.send_copies [OF assms(5)] mq_piece.send_links
    unfolding mq_moves_def by blast+
  then show ?thesis by (meson converse_rtranclp_into_rtranclp rtranclp.rtrancl_refl)
qed

lemma recv_is_pieces:
  fixes sz :: u32
  assumes "mq_entry m \<noteq> 0" "mq_unlink m = Some (i, m1)"
    "(if sz > ucast (msg_size m1) then unat (msg_size m1) else unat sz) \<le> length (msg_data m1 i)"
  shows "mq_moves\<^sup>*\<^sup>* (m, F) (mq_put_free i (m1\<lparr>mq_entry := mq_entry m1 - 1\<rparr>), F)"
proof -
  let ?m2 = "m1\<lparr>mq_entry := mq_entry m1 - 1\<rparr>"
  have "(if sz > ucast (msg_size ?m2) then unat (msg_size ?m2) else unat sz) \<le> length (msg_data ?m2 i)" using assms(3) by (simp split: if_splits)
  then have "mq_moves (?m2, add_mset (Recv_Unlinked i sz (msg_data m i)) F) (?m2, add_mset (Recv_Copied i) F)"
    unfolding mq_moves_def by (intro exI) (rule mq_piece.recv_copies [OF refl])
  moreover have "mq_moves (m, F) (?m2, add_mset (Recv_Unlinked i sz (msg_data m i)) F)"
    "mq_moves (?m2, add_mset (Recv_Copied i) F) (mq_put_free i ?m2, F)"
    using mq_piece.recv_unlinks [OF assms(1,2), of F sz] mq_piece.recv_frees [of ?m2 i F] unfolding mq_moves_def by blast+
  ultimately show ?thesis by (meson converse_rtranclp_into_rtranclp rtranclp.rtrancl_refl)
qed

end
