(* ===== verification/Allocator.thy ===== *)
theory Allocator
  imports Prelude
begin

text \<open>
  The interface of an allocator of blocks of memory: an invariant, the set of blocks that
  are in use, the addresses each of them owns, an allocation that may fail, and a release.
  The laws say that blocks in use never overlap, that an allocation hands out a block that
  was not in use and is fit for the request, and that a release affects no other block.
  The client lemma carries this to every sequence of calls of a client that releases only
  what it holds.
\<close>

datatype 'r alloc_op = Alloc 'r | Free nat

text \<open>The client: the blocks it holds, the newest first; \<open>Free k\<close> releases the \<open>k\<close>-th of them.\<close>

fun client_step ::
  "('r \<Rightarrow> 's \<Rightarrow> 'b option \<times> 's) \<Rightarrow> ('b \<Rightarrow> 's \<Rightarrow> 's) \<Rightarrow> 'r alloc_op \<Rightarrow> 's \<times> 'b list \<Rightarrow> 's \<times> 'b list" where
  "client_step alloc free (Alloc r) (s, held) =
     (case alloc r s of (None, s') \<Rightarrow> (s', held) | (Some b, s') \<Rightarrow> (s', b # held))"
| "client_step alloc free (Free k) (s, held) =
     (if k < length held then (free (held ! k) s, take k held @ drop (Suc k) held) else (s, held))"

fun client_run ::
  "('r \<Rightarrow> 's \<Rightarrow> 'b option \<times> 's) \<Rightarrow> ('b \<Rightarrow> 's \<Rightarrow> 's) \<Rightarrow> 'r alloc_op list \<Rightarrow> 's \<times> 'b list \<Rightarrow> 's \<times> 'b list" where
  "client_run alloc free [] c = c"
| "client_run alloc free (x # xs) c = client_run alloc free xs (client_step alloc free x c)"

lemma set_drop_nth:
  assumes "distinct xs" "k < length xs"
  shows "set (take k xs @ drop (Suc k) xs) = set xs - {xs ! k}" "distinct (take k xs @ drop (Suc k) xs)"
proof -
  have e: "xs = take k xs @ xs ! k # drop (Suc k) xs" using assms(2) by (rule id_take_nth_drop)
  have d: "distinct (take k xs @ xs ! k # drop (Suc k) xs)" using assms(1) e by simp
  have "set xs = set (take k xs @ xs ! k # drop (Suc k) xs)" using e by simp
  then show "set (take k xs @ drop (Suc k) xs) = set xs - {xs ! k}" using d by auto
  show "distinct (take k xs @ drop (Suc k) xs)" using d by auto
qed

locale allocator =
  fixes inv :: "'s \<Rightarrow> bool"
    and live :: "'s \<Rightarrow> 'b set"
    and region :: "'s \<Rightarrow> 'b \<Rightarrow> nat set"
    and fit :: "'s \<Rightarrow> 'r \<Rightarrow> 'b \<Rightarrow> bool"
    and alloc :: "'r \<Rightarrow> 's \<Rightarrow> 'b option \<times> 's"
    and free :: "'b \<Rightarrow> 's \<Rightarrow> 's"
  assumes disjoint:
      "inv s \<Longrightarrow> b \<in> live s \<Longrightarrow> c \<in> live s \<Longrightarrow> b \<noteq> c \<Longrightarrow> region s b \<inter> region s c = {}"
    and alloc_some:
      "inv s \<Longrightarrow> alloc r s = (Some b, s') \<Longrightarrow>
       inv s' \<and> b \<notin> live s \<and> live s' = insert b (live s) \<and> fit s' r b \<and> (\<forall>c \<in> live s. region s' c = region s c)"
    and alloc_none:
      "inv s \<Longrightarrow> alloc r s = (None, s') \<Longrightarrow> inv s' \<and> live s' = live s \<and> (\<forall>c \<in> live s. region s' c = region s c)"
    and free_live:
      "inv s \<Longrightarrow> b \<in> live s \<Longrightarrow>
       inv (free b s) \<and> live (free b s) = live s - {b} \<and> (\<forall>c \<in> live s - {b}. region (free b s) c = region s c)"
begin

lemma step_holds:
  assumes "inv s" "distinct held" "set held = live s" "client_step alloc free x (s, held) = (s', held')"
  shows "inv s' \<and> distinct held' \<and> set held' = live s'"
proof (cases x)
  case (Alloc r)
  then show ?thesis
    using assms alloc_some [OF assms(1), of r] alloc_none [OF assms(1), of r]
    by (cases "alloc r s" rule: prod.exhaust; cases "fst (alloc r s)") auto
next
  case (Free k)
  show ?thesis
  proof (cases "k < length held")
    case True
    then have "held ! k \<in> live s" using assms(3) nth_mem by blast
    then show ?thesis
      using assms Free True free_live [OF assms(1)] set_drop_nth [OF assms(2) True] by auto
  qed (use assms Free in auto)
qed

lemma run_holds:
  assumes "inv s" "distinct held" "set held = live s" "client_run alloc free xs (s, held) = (s', held')"
  shows "inv s' \<and> distinct held' \<and> set held' = live s'"
  using assms
proof (induction xs arbitrary: s held)
  case (Cons x xs)
  obtain s1 h1 where r: "client_step alloc free x (s, held) = (s1, h1)" by fastforce
  show ?case
    using Cons.IH [of s1 h1] step_holds [OF Cons.prems(1-3) r] Cons.prems(4) r by simp
qed simp

lemma run_disjoint:
  assumes "inv s" "distinct held" "set held = live s" "client_run alloc free xs (s, held) = (s', held')"
    and "i < length held'" "j < length held'" "i \<noteq> j"
  shows "region s' (held' ! i) \<inter> region s' (held' ! j) = {}"
proof -
  note H = run_holds [OF assms(1-4)]
  then have "held' ! i \<noteq> held' ! j" using assms(5-7) by (simp add: nth_eq_iff_index_eq)
  then show ?thesis using H assms(5,6) disjoint [of s'] nth_mem by blast
qed

end

end
