(* ===== verification/Memory_Pool.thy ===== *)
theory Memory_Pool
  imports Example_State Chains Allocator
begin

text \<open>
  The memory pools of \<open>src/mempool.c\<close>: blocks of one size, each behind a header word that links
  it into the list of free blocks or, while it is allocated, points to its pool. Block \<open>i\<close> of
  a pool starts at \<open>i * (block_size + 4)\<close> from the start address. A call of \<open>rt_mp_alloc\<close> that
  waits stops at \<open>rt_schedule\<close> and continues with \<open>rt_mp_alloc_wake\<close>. The result \<open>None\<close> also stands
  for a read or write outside the pool. The theory interprets the allocator interface on
  the pool and shows what a wait that times out does to the count of waiting threads.
\<close>

subsection \<open>Operations\<close>

definition set_mp :: "nat \<Rightarrow> rt_mempool \<Rightarrow> kernel \<Rightarrow> kernel" where
  "set_mp n m s = s\<lparr>mempools := (mempools s)(n := m)\<rparr>"

fun mp_link_loop :: "nat \<Rightarrow> nat \<Rightarrow> (nat \<Rightarrow> mp_word) \<Rightarrow> nat \<Rightarrow> mp_word" where
  "mp_link_loop offset 0 h = h"
| "mp_link_loop offset (Suc k) h = mp_link_loop (offset + 1) k (h(offset := Mp_Block (offset + 1)))"

text \<open>The free list of a new pool. With no block at all the code writes in front of the
  pool.\<close>

definition mp_new_blocks :: "rt_mempool \<Rightarrow> rt_mempool option" where
  "mp_new_blocks m =
     (let k = unat (block_total_count m) in
      if k = 0 then None
      else Some (m\<lparr>block_free_count := block_total_count m, suspend_thread_count := 0,
        block_header := (mp_link_loop 0 k (block_header m))(k - 1 := Mp_Null), block_list := Some 0\<rparr>))"

definition rt_mp_init :: "nat \<Rightarrow> string \<Rightarrow> u32 \<Rightarrow> u32 \<Rightarrow> kernel \<Rightarrow> (rt_err_t \<times> kernel) option" where
  "rt_mp_init n nm sz block_size s = do {
     s1 \<leftarrow> rt_object_init (O_Mp n) RT_Object_Class_MemPool nm s;
     let asz = RT_ALIGN_DOWN sz RT_ALIGN_SIZE;
     let bs = RT_ALIGN block_size RT_ALIGN_SIZE;
     m \<leftarrow> mp_new_blocks ((mempools s1 n)\<lparr>mp_size := asz, mp_block_size := bs,
            block_total_count := asz div (bs + 4)\<rparr>);
     Some (RT_EOK, set_mp n m (rt_ipc_object_init (L_mp n) s1))
   }"

text \<open>The loop of \<open>rt_mp_detach\<close> and \<open>rt_mp_delete\<close> that wakes every waiting thread.\<close>

partial_function (option) mp_resume_all :: "nat \<Rightarrow> kernel \<Rightarrow> kernel option" where
  "mp_resume_all n s =
     (case tq s (L_mp n) of
        [] \<Rightarrow> Some s
      | t # ts \<Rightarrow> do {
          (_, s1) \<leftarrow> rt_thread_resume t (upd_thread t (\<lambda>th. th\<lparr>err := - RT_ERROR\<rparr>) s);
          let m = mempools s1 n;
          mp_resume_all n (set_mp n (m\<lparr>suspend_thread_count := suspend_thread_count m - 1\<rparr>) s1)
        })"

definition rt_mp_detach :: "nat \<Rightarrow> kernel \<Rightarrow> (rt_err_t \<times> kernel) option" where
  "rt_mp_detach n s = do {
     rt_assert (rt_object_get_type (O_Mp n) s = RT_Object_Class_MemPool);
     rt_assert (rt_object_is_systemobject (O_Mp n) s);
     s1 \<leftarrow> mp_resume_all n s;
     Some (RT_EOK, rt_object_detach (O_Mp n) s1)
   }"

text \<open>\<open>pool\<close> says whether \<open>rt_malloc\<close> has memory for the blocks.\<close>

definition rt_mp_create ::
  "nat option \<Rightarrow> bool \<Rightarrow> string \<Rightarrow> u32 \<Rightarrow> u32 \<Rightarrow> kernel \<Rightarrow> (nat option \<times> kernel) option" where
  "rt_mp_create fresh pool nm block_count block_size s = do {
     rt_assert (rt_interrupt_nest s = 0);
     (_, s1) \<leftarrow> rt_object_allocate (map_option O_Mp fresh) RT_Object_Class_MemPool nm s;
     case fresh of
       None \<Rightarrow> Some (None, s1)
     | Some n \<Rightarrow>
         let bs = RT_ALIGN block_size RT_ALIGN_SIZE;
             m = (mempools s1 n)\<lparr>mp_block_size := bs, mp_size := (bs + 4) * block_count\<rparr> in
         if \<not> pool then do { s2 \<leftarrow> rt_object_delete (O_Mp n) (set_mp n m s1); Some (None, s2) }
         else do {
           m' \<leftarrow> mp_new_blocks (m\<lparr>block_total_count := block_count\<rparr>);
           Some (Some n, set_mp n m' (rt_ipc_object_init (L_mp n) s1))
         }
   }"

definition rt_mp_delete :: "nat \<Rightarrow> kernel \<Rightarrow> (rt_err_t \<times> kernel) option" where
  "rt_mp_delete n s = do {
     rt_assert (rt_interrupt_nest s = 0);
     rt_assert (rt_object_get_type (O_Mp n) s = RT_Object_Class_MemPool);
     rt_assert (\<not> rt_object_is_systemobject (O_Mp n) s);
     s1 \<leftarrow> mp_resume_all n s;
     s2 \<leftarrow> rt_object_delete (O_Mp n) s1;
     Some (RT_EOK, s2)
   }"

text \<open>Taking the first free block: \<open>block_list = *(rt_uint8_t **)block_ptr\<close>, then the header
  points to the pool.\<close>

fun mp_next :: "mp_word \<Rightarrow> nat option" where
  "mp_next (Mp_Block i) = Some i"
| "mp_next w = None"

definition mp_take :: "nat \<Rightarrow> rt_mempool \<Rightarrow> (nat \<times> rt_mempool) option" where
  "mp_take n m = do {
     i \<leftarrow> block_list m;
     case block_header m i of
       Mp_Pool k \<Rightarrow> None
     | w \<Rightarrow> Some (i, m\<lparr>block_free_count := block_free_count m - 1, block_list := mp_next w,
                block_header := (block_header m)(i := Mp_Pool n)\<rparr>)
   }"

text \<open>The result of an allocation: the block or \<open>RT_NULL\<close>, or the time and the start of a wait.\<close>

datatype mp_result = Ret "nat option" | Wait u32 u32

text \<open>The suspension of \<open>rt_mp_alloc\<close>: the thread goes to the front of the waiting list.\<close>

definition mp_wait :: "nat \<Rightarrow> tid \<Rightarrow> u32 \<Rightarrow> kernel \<Rightarrow> kernel option" where
  "mp_wait n t time s = do {
     (_, s1) \<leftarrow> rt_thread_suspend t (upd_thread t (\<lambda>th. th\<lparr>err := RT_EOK\<rparr>) s);
     let s2 = tlist_insert_after (L_mp n) t s1;
     let m = mempools s2 n;
     let s3 = set_mp n (m\<lparr>suspend_thread_count := suspend_thread_count m + 1\<rparr>) s2;
     s4 \<leftarrow> (if 0 < sint time then start_thread_timer t time s3 else Some s3);
     rt_schedule s4
   }"

text \<open>One turn of the loop of \<open>rt_mp_alloc\<close>; \<open>thread\<close> is the thread that called.\<close>

definition mp_alloc_again :: "nat \<Rightarrow> tid option \<Rightarrow> u32 \<Rightarrow> kernel \<Rightarrow> (mp_result \<times> kernel) option" where
  "mp_alloc_again n thread time s =
     (if block_free_count (mempools s n) = 0
      then if time = 0 then Some (Ret None, rt_set_errno (- RT_ETIMEOUT) s)
           else do {
             rt_assert (rt_interrupt_nest s = 0);
             t \<leftarrow> thread;
             s1 \<leftarrow> mp_wait n t time s;
             Some (Wait time (if 0 < sint time then rt_tick_get s else 0), s1)
           }
      else do {
        (i, m) \<leftarrow> mp_take n (mempools s n);
        Some (Ret (Some i), set_mp n m s)
      })"

definition rt_mp_alloc :: "nat \<Rightarrow> u32 \<Rightarrow> kernel \<Rightarrow> (mp_result \<times> kernel) option" where
  "rt_mp_alloc n time s = mp_alloc_again n (rt_thread_self s) time s"

definition rt_mp_alloc_wake :: "nat \<Rightarrow> tid \<Rightarrow> u32 \<Rightarrow> u32 \<Rightarrow> kernel \<Rightarrow> (mp_result \<times> kernel) option" where
  "rt_mp_alloc_wake n t time before_sleep s =
     (if err (threads s t) \<noteq> RT_EOK then Some (Ret None, s)
      else mp_alloc_again n (Some t) (remaining_timeout time before_sleep (rt_tick_get s)) s)"

text \<open>Releasing block \<open>i\<close> of the memory of pool \<open>p\<close>: the pool is read from the header.\<close>

definition rt_mp_free :: "nat \<Rightarrow> nat \<Rightarrow> kernel \<Rightarrow> kernel option" where
  "rt_mp_free p i s =
     (case block_header (mempools s p) i of
        Mp_Pool n \<Rightarrow> do {
          rt_assert (n = p);
          let m = mempools s n;
          let m1 = m\<lparr>block_free_count := block_free_count m + 1,
            block_header := (block_header m)(i := (case block_list m of None \<Rightarrow> Mp_Null | Some j \<Rightarrow> Mp_Block j)),
            block_list := Some i\<rparr>;
          let s1 = set_mp n m1 s;
          if 0 < suspend_thread_count m1
          then (case tq s1 (L_mp n) of
                  [] \<Rightarrow> None
                | t # _ \<Rightarrow> do {
                    (_, s2) \<leftarrow> rt_thread_resume t (upd_thread t (\<lambda>th. th\<lparr>err := RT_EOK\<rparr>) s1);
                    let m2 = mempools s2 n;
                    rt_schedule (set_mp n (m2\<lparr>suspend_thread_count := suspend_thread_count m2 - 1\<rparr>) s2)
                  })
          else Some s1
        }
      | _ \<Rightarrow> None)"

subsection \<open>The blocks of a pool\<close>

abbreviation mp_link :: "rt_mempool \<Rightarrow> nat \<Rightarrow> nat option" where
  "mp_link m i \<equiv> mp_next (block_header m i)"

definition mp_rep :: "nat \<Rightarrow> nat list \<Rightarrow> rt_mempool \<Rightarrow> bool" where
  "mp_rep n fr m \<longleftrightarrow>
     chain (mp_link m) (block_list m) fr \<and> distinct fr \<and> unat (block_free_count m) = length fr \<and>
     (\<forall>i < unat (block_total_count m). i \<notin> set fr \<longrightarrow> block_header m i = Mp_Pool n) \<and>
     (\<forall>i \<in> set fr. i < unat (block_total_count m) \<and> (\<forall>k. block_header m i \<noteq> Mp_Pool k))"

definition mp_free_list :: "rt_mempool \<Rightarrow> nat list" where
  "mp_free_list m = walk (unat (block_free_count m)) (mp_link m) (block_list m)"

definition mp_live :: "rt_mempool \<Rightarrow> nat set" where
  "mp_live m = {..<unat (block_total_count m)} - set (mp_free_list m)"

text \<open>The payload of a block, as offsets from the start address.\<close>

definition mp_region :: "rt_mempool \<Rightarrow> nat \<Rightarrow> nat set" where
  "mp_region m i = {i * (unat (mp_block_size m) + 4) + 4 ..< Suc i * (unat (mp_block_size m) + 4)}"

definition mp_inv :: "nat \<Rightarrow> rt_mempool \<Rightarrow> bool" where
  "mp_inv n m \<longleftrightarrow> mp_rep n (mp_free_list m) m \<and>
     unat (block_total_count m) * (unat (mp_block_size m) + 4) \<le> unat (mp_size m)"

lemma mp_rep_list: "mp_rep n fr m \<Longrightarrow> mp_free_list m = fr"
  by (auto simp: mp_rep_def mp_free_list_def intro: walk_chain)

lemma mp_free_bound: "mp_rep n fr m \<Longrightarrow> length fr \<le> unat (block_total_count m)"
proof -
  assume r: "mp_rep n fr m"
  then have "set fr \<subseteq> {..<unat (block_total_count m)}" "distinct fr" by (auto simp: mp_rep_def)
  then show ?thesis using card_mono [of "{..<unat (block_total_count m)}" "set fr"] by (simp add: distinct_card)
qed

lemma take_rep:
  assumes r: "mp_rep n (i # fr) m"
  obtains m' where "mp_take n m = Some (i, m')" "mp_rep n fr m'" "block_total_count m' = block_total_count m"
    "mp_block_size m' = mp_block_size m" "mp_size m' = mp_size m" "suspend_thread_count m' = suspend_thread_count m"
proof -
  let ?m = "m\<lparr>block_free_count := block_free_count m - 1, block_list := mp_link m i,
    block_header := (block_header m)(i := Mp_Pool n)\<rparr>"
  have h: "block_list m = Some i" "\<And>k. block_header m i \<noteq> Mp_Pool k" using r by (auto simp: mp_rep_def)
  then have t: "mp_take n m = Some (i, ?m)" by (cases "block_header m i") (auto simp: mp_take_def)
  have "unat (block_free_count m) = Suc (length fr)" using r by (simp add: mp_rep_def)
  then have c: "unat (block_free_count m - 1) = length fr"
    using unat_sub_if' [of "block_free_count m" 1] by (simp add: word_le_nat_alt)
  have "chain (mp_link ?m) (mp_link m i) fr \<longleftrightarrow> chain (mp_link m) (mp_link m i) fr"
    using r by (intro chain_cong) (auto simp: mp_rep_def)
  then have "mp_rep n fr ?m" using r c by (auto simp: mp_rep_def)
  then show thesis using that t by simp
qed

text \<open>Putting a block in front of the free list.\<close>

definition mp_put :: "nat \<Rightarrow> rt_mempool \<Rightarrow> rt_mempool" where
  "mp_put i m = m\<lparr>block_free_count := block_free_count m + 1,
     block_header := (block_header m)(i := (case block_list m of None \<Rightarrow> Mp_Null | Some j \<Rightarrow> Mp_Block j)),
     block_list := Some i\<rparr>"

lemma mp_put_frame [simp]:
  "block_total_count (mp_put i m) = block_total_count m" "mp_block_size (mp_put i m) = mp_block_size m"
  "mp_size (mp_put i m) = mp_size m" "suspend_thread_count (mp_put i m) = suspend_thread_count m"
  by (simp_all add: mp_put_def)

lemma put_rep:
  assumes r: "mp_rep n fr m" and i: "i < unat (block_total_count m)" "i \<notin> set fr"
  shows "mp_rep n (i # fr) (mp_put i m)"
proof -
  have "card (insert i (set fr)) \<le> card {..<unat (block_total_count m)}"
    using r i by (intro card_mono) (auto simp: mp_rep_def)
  then have "Suc (length fr) \<le> unat (block_total_count m)"
    using r i by (simp add: mp_rep_def distinct_card)
  then have "length fr + 1 < 2 ^ LENGTH(32)" using unat_less_2p [of "block_total_count m"] by simp
  then have c: "unat (block_free_count m + 1) = Suc (length fr)"
    using r unat_add_small [of "block_free_count m" 1] by (simp add: mp_rep_def)
  have "chain (mp_link (mp_put i m)) (block_list m) fr \<longleftrightarrow> chain (mp_link m) (block_list m) fr"
    using i by (intro chain_cong) (auto simp: mp_put_def)
  then show ?thesis using r i c unfolding mp_rep_def by (auto simp: mp_put_def split: option.splits)
qed

text \<open>A new pool has all its blocks on the free list, in the order of their addresses, and
  its blocks are inside the memory it was given.\<close>

lemma link_loop_eq: "mp_link_loop k0 k h i = (if k0 \<le> i \<and> i < k0 + k then Mp_Block (i + 1) else h i)"
proof (induction k arbitrary: k0 h)
  case (Suc k)
  show ?case unfolding mp_link_loop.simps Suc.IH by auto
qed auto

lemma chain_upt: "(\<And>i. j \<le> i \<Longrightarrow> i < k \<Longrightarrow> nx i = (if i = k - 1 then None else Some (Suc i))) \<Longrightarrow> j < k \<Longrightarrow>
   chain nx (Some j) [j..<k]"
proof (induction "k - j" arbitrary: j)
  case (Suc d)
  have e: "[j..<k] = j # [Suc j..<k]" using Suc.prems(2) by (simp add: upt_conv_Cons)
  show ?case
  proof (cases "Suc j < k")
    case True
    then have "chain nx (Some (Suc j)) [Suc j..<k]" using Suc.hyps Suc.prems(1) by simp
    then show ?thesis using e Suc.prems True by simp
  next
    case False
    then show ?thesis using Suc.prems by (simp add: e)
  qed
qed simp

lemma new_blocks_rep:
  assumes "mp_new_blocks m = Some m'"
  shows "mp_rep n [0..<unat (block_total_count m)] m'" "mp_block_size m' = mp_block_size m" "mp_size m' = mp_size m"
    "block_total_count m' = block_total_count m" "suspend_thread_count m' = 0"
proof -
  let ?k = "unat (block_total_count m)"
  have k: "0 < ?k" and m': "m' = m\<lparr>block_free_count := block_total_count m, suspend_thread_count := 0,
      block_header := (mp_link_loop 0 ?k (block_header m))(?k - 1 := Mp_Null), block_list := Some 0\<rparr>"
    using assms by (auto simp: mp_new_blocks_def Let_def split: if_splits)
  have "chain (mp_link m') (Some 0) [0..<?k]"
    by (rule chain_upt) (use k in \<open>auto simp: m' link_loop_eq\<close>)
  then show "mp_rep n [0..<?k] m'" by (auto simp: mp_rep_def m' link_loop_eq)
qed (use assms in \<open>auto simp: mp_new_blocks_def Let_def split: if_splits\<close>)

lemma new_pool_inv:
  assumes m': "mp_new_blocks m = Some m'"
    and size: "block_total_count m = mp_size m div (mp_block_size m + 4)" "unat (mp_block_size m) + 4 < 2 ^ 32"
  shows "mp_inv n m'" "mp_live m' = {}"
proof -
  note N = new_blocks_rep [OF m']
  note fl = mp_rep_list [OF N(1)]
  have "unat (mp_block_size m + 4) = unat (mp_block_size m) + 4"
    using size(2) by (subst unat_add_small) simp_all
  then have "unat (block_total_count m) = unat (mp_size m) div (unat (mp_block_size m) + 4)"
    unfolding size(1) by (simp add: unat_div)
  then have "unat (block_total_count m) * (unat (mp_block_size m) + 4) \<le> unat (mp_size m)"
    by (metis div_times_less_eq_dividend)
  then show "mp_inv n m'" unfolding mp_inv_def fl using N by simp
  show "mp_live m' = {}" unfolding mp_live_def fl N(4) by auto
qed

subsection \<open>The pool in the kernel\<close>

lemma set_mp_frame [simp]:
  "threads (set_mp n m s) = threads s" "tq (set_mp n m s) = tq s" "rt_current_thread (set_mp n m s) = rt_current_thread s"
  "rt_interrupt_nest (set_mp n m s) = rt_interrupt_nest s" "rt_tick (set_mp n m s) = rt_tick s" "objs (set_mp n m s) = objs s"
  "timers (set_mp n m s) = timers s" "rt_timer_list (set_mp n m s) = rt_timer_list s"
  "rt_thread_ready_priority_group (set_mp n m s) = rt_thread_ready_priority_group s"
  "rt_scheduler_lock_nest (set_mp n m s) = rt_scheduler_lock_nest s"
  "mempools (set_mp n m s) k = (if k = n then m else mempools s k)" "tstat (set_mp n m s) t = tstat s t"
  "otype (set_mp n m s) j = otype s j"
  by (simp_all add: set_mp_def tstat_def otype_def)

lemma set_mp_kinv: "kinv s \<Longrightarrow> kinv (set_mp n m s)"
  by (erule kinv_cong) simp_all

lemma set_mp_resumed: "set_mp n m (resumed t s) = resumed t (set_mp n m s)"
  by (simp add: set_mp_def resumed_def Let_def stopped_def mkready_def set_tstat_def upd_thread_def tlist_remove_def
      tlist_insert_before_def rt_timer_remove_def set_activated_def upd_obj_def activated_def)

text \<open>The state in which no wait for the pool has timed out: the count of waiting threads is
  right.\<close>

definition mp_ready :: "nat \<Rightarrow> kernel \<Rightarrow> bool" where
  "mp_ready n s \<longleftrightarrow> kinv s \<and> rt_current_thread s \<noteq> None \<and> mp_inv n (mempools s n) \<and>
     unat (suspend_thread_count (mempools s n)) = length (tq s (L_mp n))"

lemma alloc_block:
  assumes r: "mp_ready n s" and f: "block_free_count (mempools s n) \<noteq> 0"
  obtains i s' where "rt_mp_alloc n time s = Some (Ret (Some i), s')" "mp_ready n s'"
    "i \<in> set (mp_free_list (mempools s n))" "mp_live (mempools s' n) = insert i (mp_live (mempools s n))"
    "mp_block_size (mempools s' n) = mp_block_size (mempools s n)" "mp_size (mempools s' n) = mp_size (mempools s n)"
    "block_total_count (mempools s' n) = block_total_count (mempools s n)"
proof -
  let ?m = "mempools s n"
  have rep: "mp_rep n (mp_free_list ?m) ?m" using r by (simp add: mp_ready_def mp_inv_def)
  have "unat (block_free_count ?m) \<noteq> 0" using f by (simp add: unat_eq_0)
  then obtain i fr where fl: "mp_free_list ?m = i # fr" using rep by (cases "mp_free_list ?m") (auto simp: mp_rep_def)
  obtain m' where m': "mp_take n ?m = Some (i, m')" "mp_rep n fr m'" "block_total_count m' = block_total_count ?m"
    "mp_block_size m' = mp_block_size ?m" "mp_size m' = mp_size ?m" "suspend_thread_count m' = suspend_thread_count ?m"
    by (rule take_rep [OF rep [unfolded fl]])
  have fl': "mp_free_list m' = fr" by (rule mp_rep_list [OF m'(2)])
  have "i < unat (block_total_count ?m)" "i \<notin> set fr" using rep fl by (auto simp: mp_rep_def)
  then have "mp_live m' = insert i (mp_live ?m)" using m'(3) fl fl' by (auto simp: mp_live_def)
  moreover have "mp_ready n (set_mp n m' s)" using r m' fl' set_mp_kinv [of s n m'] by (simp add: mp_ready_def mp_inv_def)
  ultimately show thesis
    using that [of i "set_mp n m' s"] f m' fl by (simp add: rt_mp_alloc_def mp_alloc_again_def)
qed

lemma alloc_fails:
  assumes r: "mp_ready n s" and f: "block_free_count (mempools s n) = 0"
  shows "rt_mp_alloc n 0 s = Some (Ret None, rt_set_errno (- RT_ETIMEOUT) s)"
    "mp_ready n (rt_set_errno (- RT_ETIMEOUT) s)" "mempools (rt_set_errno (- RT_ETIMEOUT) s) = mempools s"
proof -
  show "rt_mp_alloc n 0 s = Some (Ret None, rt_set_errno (- RT_ETIMEOUT) s)"
    using f by (simp add: rt_mp_alloc_def mp_alloc_again_def)
  show "mempools (rt_set_errno (- RT_ETIMEOUT) s) = mempools s"
    by (simp add: rt_set_errno_def split: option.splits)
  show "mp_ready n (rt_set_errno (- RT_ETIMEOUT) s)"
    using r upd_err_kinv by (auto simp: rt_set_errno_def mp_ready_def split: option.splits)
qed

text \<open>What a release does: the block is the first free one, and the thread that waited
  last is woken without an error.\<close>

definition mp_released :: "nat \<Rightarrow> nat \<Rightarrow> kernel \<Rightarrow> kernel \<Rightarrow> bool" where
  "mp_released n i s s' \<longleftrightarrow>
     mp_free_list (mempools s' n) = i # mp_free_list (mempools s n) \<and>
     mp_block_size (mempools s' n) = mp_block_size (mempools s n) \<and> mp_size (mempools s' n) = mp_size (mempools s n) \<and>
     block_total_count (mempools s' n) = block_total_count (mempools s n) \<and>
     (case tq s (L_mp n) of
        [] \<Rightarrow> tq s' (L_mp n) = []
      | t # ts \<Rightarrow> tq s' (L_mp n) = ts \<and> err (threads s' t) = RT_EOK \<and>
          (tstat s' t = RT_THREAD_READY \<or> tstat s' t = RT_THREAD_RUNNING))"

lemma free_block:
  assumes r: "mp_ready n s" and i: "i \<in> mp_live (mempools s n)"
  obtains s' where "rt_mp_free n i s = Some s'" "mp_ready n s'" "mp_released n i s s'"
proof -
  let ?m = "mempools s n" and ?fr = "mp_free_list (mempools s n)"
  let ?m1 = "mp_put i ?m"
  let ?s1 = "set_mp n ?m1 s"
  have rep: "mp_rep n ?fr ?m" and bound: "unat (block_total_count ?m) * (unat (mp_block_size ?m) + 4) \<le> unat (mp_size ?m)"
    using r by (auto simp: mp_ready_def mp_inv_def)
  have i': "i < unat (block_total_count ?m)" "i \<notin> set ?fr" using i by (auto simp: mp_live_def)
  have h: "block_header ?m i = Mp_Pool n" using rep i' by (auto simp: mp_rep_def)
  have rep1: "mp_rep n (i # ?fr) ?m1" by (rule put_rep [OF rep i'])
  note fl1 = mp_rep_list [OF rep1]
  have cnt: "unat (suspend_thread_count ?m) = length (tq s (L_mp n))" using r by (simp add: mp_ready_def)
  have k: "kinv s" using r by (simp add: mp_ready_def)
  show thesis
  proof (cases "tq s (L_mp n)")
    case Nil
    then have "\<not> 0 < suspend_thread_count ?m" using cnt by (simp add: word_less_nat_alt)
    then have "rt_mp_free n i s = Some ?s1" using h by (simp add: rt_mp_free_def mp_put_def Let_def)
    moreover have "mp_ready n ?s1"
      using r rep1 fl1 bound set_mp_kinv [OF k] by (simp add: mp_ready_def mp_inv_def)
    moreover have "mp_released n i s ?s1" using fl1 Nil by (simp add: mp_released_def)
    ultimately show thesis by (rule that)
  next
    case (Cons t ts)
    let ?e = "upd_thread t (\<lambda>th. th\<lparr>err := 0\<rparr>) ?s1"
    let ?m2 = "?m1\<lparr>suspend_thread_count := suspend_thread_count ?m1 - 1\<rparr>"
    let ?s2 = "set_mp n ?m2 ?e"
    have ke: "kinv ?e" by (rule upd_err_kinv [OF set_mp_kinv [OF k]])
    have k2: "kinv ?s2" by (rule set_mp_kinv [OF ke])
    obtain c where c: "rt_current_thread s = Some c" using r by (auto simp: mp_ready_def)
    have q2: "tq ?s2 (L_mp n) = t # ts" and c2: "rt_current_thread ?s2 = Some c" using Cons c by simp_all
    have st: "tstat s t = 2" using kcoreD(5) [OF kinvD(1) [OF k], of t "L_mp n"] Cons by simp
    obtain s' where s': "rt_schedule (resumed t ?s2) = Some s'" "handed_over (L_mp n) t ?s2 s'"
      using hand_over_total [OF k2 c2 _ q2] by auto
    note H = s'(2) [unfolded handed_over_def]
    have cp: "0 < suspend_thread_count ?m1" using cnt Cons by (simp add: word_less_nat_alt)
    have res: "rt_thread_resume t ?e = Some (0, resumed t ?e)"
      by (rule resume_eq [OF kinvD(1) [OF ke]]) (simp add: st)
    have f: "rt_mp_free n i s = Some s'"
    proof -
      have "rt_mp_free n i s = rt_schedule (set_mp n ?m2 (resumed t ?e))"
        using h cp Cons res by (simp add: rt_mp_free_def Let_def mp_put_def)
      then show ?thesis using s'(1) by (simp add: set_mp_resumed)
    qed
    have mp': "mempools s' n = ?m2" using ipc_sameD(6) [of ?s2 s'] H by simp
    have cnt2: "unat (suspend_thread_count ?m1 - 1) = length ts"
      using cnt Cons unat_sub_if' [of "suspend_thread_count ?m1" 1] by (simp add: word_le_nat_alt)
    have q': "tq s' (L_mp n) = ts" using H q2 by simp
    have rep2: "mp_rep n (i # ?fr) ?m2" using rep1 by (simp add: mp_rep_def)
    note fl2 = mp_rep_list [OF rep2]
    have "mp_ready n s'"
      unfolding mp_ready_def mp_inv_def mp' fl2 using H rep2 bound cnt2 q' by simp
    moreover have "mp_released n i s s'"
      unfolding mp_released_def mp' fl2 using H q' Cons by simp
    ultimately show thesis using f that by blast
  qed
qed

subsection \<open>The pool as an allocator\<close>

text \<open>Calls that do not wait, as total functions.\<close>

definition mp_alloc_call :: "nat \<Rightarrow> unit \<Rightarrow> kernel \<Rightarrow> nat option \<times> kernel" where
  "mp_alloc_call n u s = (case rt_mp_alloc n 0 s of Some (Ret r, s') \<Rightarrow> (r, s') | _ \<Rightarrow> (None, s))"

definition mp_free_call :: "nat \<Rightarrow> nat \<Rightarrow> kernel \<Rightarrow> kernel" where
  "mp_free_call n i s = (case rt_mp_free n i s of Some s' \<Rightarrow> s' | None \<Rightarrow> s)"

text \<open>A block fits: its payload has the block size and is inside the memory of the pool.\<close>

definition mp_fit :: "rt_mempool \<Rightarrow> nat \<Rightarrow> bool" where
  "mp_fit m i \<longleftrightarrow> card (mp_region m i) = unat (mp_block_size m) \<and> mp_region m i \<subseteq> {..<unat (mp_size m)}"

lemma region_disjoint: "i \<noteq> j \<Longrightarrow> mp_region m i \<inter> mp_region m j = {}"
proof -
  have lt: "mp_region m i \<inter> mp_region m j = {}" if "i < j" for i j
  proof -
    have "Suc i * (unat (mp_block_size m) + 4) \<le> j * (unat (mp_block_size m) + 4)"
      using that by (intro mult_le_mono1) simp
    then show ?thesis by (auto simp: mp_region_def)
  qed
  assume "i \<noteq> j"
  then show ?thesis using lt [of i j] lt [of j i] by (cases "i < j") auto
qed

lemma live_fit: "mp_inv n m \<Longrightarrow> i \<in> mp_live m \<Longrightarrow> mp_fit m i"
proof -
  assume m: "mp_inv n m" and i: "i \<in> mp_live m"
  have "Suc i * (unat (mp_block_size m) + 4) \<le> unat (block_total_count m) * (unat (mp_block_size m) + 4)"
    using i by (intro mult_le_mono1) (auto simp: mp_live_def)
  also have "\<dots> \<le> unat (mp_size m)" using m by (simp add: mp_inv_def)
  finally show ?thesis by (auto simp: mp_fit_def mp_region_def)
qed

lemma region_same: "mp_block_size m' = mp_block_size m \<Longrightarrow> mp_region m' i = mp_region m i"
  by (simp add: mp_region_def)

lemma released_live:
  "mp_released n i s s' \<Longrightarrow> mp_live (mempools s' n) = mp_live (mempools s n) - {i}"
  by (auto simp: mp_released_def mp_live_def)

interpretation mpa: allocator "mp_ready n" "\<lambda>s. mp_live (mempools s n)" "\<lambda>s. mp_region (mempools s n)"
  "\<lambda>s (u :: unit). mp_fit (mempools s n)" "mp_alloc_call n" "mp_free_call n" for n
proof (unfold_locales, goal_cases)
  case (1 s b c)
  then show ?case by (intro region_disjoint)
next
  case (2 s r b s')
  have f: "block_free_count (mempools s n) \<noteq> 0"
    using alloc_fails(1) [OF 2(1)] 2(2) by (auto simp: mp_alloc_call_def)
  obtain i s'' where A: "rt_mp_alloc n 0 s = Some (Ret (Some i), s'')" "mp_ready n s''"
    "i \<in> set (mp_free_list (mempools s n))" "mp_live (mempools s'' n) = insert i (mp_live (mempools s n))"
    "mp_block_size (mempools s'' n) = mp_block_size (mempools s n)"
    by (rule alloc_block [OF 2(1) f, where time = 0])
  then have e: "b = i" "s' = s''" using 2(2) by (auto simp: mp_alloc_call_def)
  have "mp_fit (mempools s'' n) i" using A(2,4) by (intro live_fit [of n]) (auto simp: mp_ready_def)
  moreover have "i \<notin> mp_live (mempools s n)" using A(3) by (simp add: mp_live_def)
  ultimately show ?case using A(2,4) region_same [OF A(5)] unfolding e by simp
next
  case (3 s r s')
  have f: "block_free_count (mempools s n) = 0"
  proof (rule ccontr)
    assume "block_free_count (mempools s n) \<noteq> 0"
    then obtain i s'' where "rt_mp_alloc n 0 s = Some (Ret (Some i), s'')"
      by (rule alloc_block [OF 3(1), where time = 0]) blast
    then show False using 3(2) by (simp add: mp_alloc_call_def)
  qed
  show ?case using alloc_fails [OF 3(1) f] 3(2) by (auto simp: mp_alloc_call_def)
next
  case (4 s b)
  obtain s' where F: "rt_mp_free n b s = Some s'" "mp_ready n s'" "mp_released n b s s'"
    by (rule free_block [OF 4])
  then have bs: "mp_block_size (mempools s' n) = mp_block_size (mempools s n)" by (simp add: mp_released_def)
  show ?case using F(1,2) released_live [OF F(3)] region_same [OF bs] by (simp add: mp_free_call_def)
qed

subsection \<open>Correctness\<close>

text \<open>C25: whatever sequence of allocations and releases a client makes that releases only blocks
  it holds, the blocks it holds are distinct, are exactly the allocated ones, have pairwise
  disjoint payloads inside the memory of the pool, and no call faults.\<close>

theorem mp_blocks_disjoint:
  assumes "mp_ready n s" "distinct held" "set held = mp_live (mempools s n)"
    and "client_run (mp_alloc_call n) (mp_free_call n) xs (s, held) = (s', held')"
  shows "mp_ready n s' \<and> distinct held' \<and> set held' = mp_live (mempools s' n) \<and>
    (\<forall>i < length held'. \<forall>j < length held'. i \<noteq> j \<longrightarrow>
       mp_region (mempools s' n) (held' ! i) \<inter> mp_region (mempools s' n) (held' ! j) = {}) \<and>
    (\<forall>b \<in> set held'. mp_fit (mempools s' n) b \<and> rt_mp_free n b s' \<noteq> None) \<and> rt_mp_alloc n 0 s' \<noteq> None"
proof -
  note H = mpa.run_holds [OF assms]
  have "rt_mp_free n b s' \<noteq> None" if "b \<in> set held'" for b
    using free_block [of n s' b] H that by (metis option.distinct(1))
  moreover have "rt_mp_alloc n 0 s' \<noteq> None"
    using alloc_block [of n s' 0] alloc_fails(1) [of n s'] H by (metis option.distinct(1))
  moreover have "mp_fit (mempools s' n) b" if "b \<in> set held'" for b
    using H that live_fit [of n] by (auto simp: mp_ready_def)
  ultimately show ?thesis using H mpa.run_disjoint [OF assms] by simp
qed

lemma kex_pool: "mp_ready n kex" "mp_live (mempools kex n) = {0}"
proof -
  have rep: "mp_rep n [1, 2] (mempools kex n)" by (auto simp: mp_rep_def kex_def)
  note fl = mp_rep_list [OF rep]
  show "mp_ready n kex" using kex_kinv fl rep by (simp add: mp_ready_def mp_inv_def) (simp add: kex_def)
  show "mp_live (mempools kex n) = {0}" unfolding mp_live_def fl by (auto simp: kex_def)
qed

theorem mp_blocks_disjoint_witness:
  "\<exists>s' held'. client_run (mp_alloc_call 0) (mp_free_call 0) [Alloc (), Alloc (), Free 1] (kex, [0]) = (s', held') \<and>
     mp_ready 0 s' \<and> distinct held'"
  using mp_blocks_disjoint [OF kex_pool(1), of "[0]" 0 "[Alloc (), Alloc (), Free 1]"] kex_pool(2) [of 0]
  by (metis distinct_singleton list.set(1) list.set(2) surj_pair)

subsection \<open>Waiting for a block\<close>

text \<open>What a wait for a block does: the caller is suspended at the front of the waiting list,
  without an error, and counted.\<close>

definition mp_waits :: "nat \<Rightarrow> tid \<Rightarrow> u32 \<Rightarrow> kernel \<Rightarrow> kernel \<Rightarrow> bool" where
  "mp_waits n c time s s' \<longleftrightarrow>
     kinv s' \<and> tstat s' c = RT_THREAD_SUSPEND \<and> err (threads s' c) = RT_EOK \<and>
     tq s' (L_mp n) = c # tq s (L_mp n) \<and> rt_current_thread s' \<noteq> None \<and>
     mempools s' = (mempools s)(n := (mempools s n)\<lparr>suspend_thread_count := suspend_thread_count (mempools s n) + 1\<rparr>) \<and>
     (0 < sint time \<longrightarrow> Thread_Timer c \<in> set (rt_timer_list s'))"

lemma mp_wait_total:
  assumes k: "kinv s" and c: "caller s c" and time: "wait_time_ok time"
  shows "\<exists>s'. mp_wait n c time s = Some s' \<and> mp_waits n c time s s'"
proof -
  let ?s0 = "upd_thread c (\<lambda>th. th\<lparr>err := 0\<rparr>) s"
  let ?m = "(mempools s n)\<lparr>suspend_thread_count := suspend_thread_count (mempools s n) + 1\<rparr>"
  let ?s1 = "tlist_insert_after (L_mp n) c (parked c ?s0)"
  let ?s3 = "set_mp n ?m ?s1"
  let ?s4 = "if 0 < sint time then timed c time ?s3 else ?s3"
  have c0: "rt_current_thread s = Some c" "tstat s c = 3" using c by (auto simp: caller_def)
  have k0: "kinv ?s0" by (rule upd_err_kinv [OF k])
  have st0: "tstat ?s0 c = 1 \<or> tstat ?s0 c = 3" using c0 by simp
  have sus: "rt_thread_suspend c ?s0 = Some (0, parked c ?s0)"
    by (rule suspend_eq [OF kinvD(1) [OF k0]]) (use c0 in simp)
  have "tlist_insert_after (L_mp n) c (parked c ?s0) =
      (parked c ?s0)\<lparr>tq := (tq (parked c ?s0))(L_mp n := c # tq (parked c ?s0) (L_mp n))\<rparr>"
    by (simp add: tlist_insert_after_def)
  moreover have "distinct (tq (parked c ?s0) (L_mp n))"
    using kcoreD(1) [OF parked_transit(1) [OF kinvD(1) [OF k0] st0]] by (simp only: tq_wf_def)
  ultimately have "kinv ?s1" using parked_on_kinv [OF k0 st0, of "L_mp n"] by simp
  then have k3: "kinv ?s3" by (rule set_mp_kinv)
  have ok: "otype s (O_Timer (Thread_Timer c)) = 10"
    using kcoreD(7) [OF kinvD(1) [OF k], of c] c0 by (intro tcb_ok_timer) (simp add: live_def)
  have k4: "kinv ?s4" using timed_kinv [OF k3, of c time] k3 ok by (simp add: otype_def)
  have c4: "rt_current_thread ?s4 = Some c" using c0 by simp
  have r: "(if 0 < sint time then start_thread_timer c time ?s3 else Some ?s3) = Some ?s4"
    using time ok start_thread_timer_eq [of ?s3 c time] by (simp add: wait_time_ok_def otype_def)
  obtain s' where s': "rt_schedule ?s4 = Some s'" "kinv s'" "rt_current_thread s' \<noteq> None"
    using rt_schedule_total [OF k4 c4] by blast
  note F = rt_schedule_frame [OF k4 c4 s'(1)]
  have "mp_wait n c time s = Some s'" using sus r s' by (simp add: mp_wait_def)
  moreover have nc: "c \<notin> set (tq s l)" for l using off_lists_stat [OF kinvD(1) [OF k], of c] c0 by blast
  have "tq s' (L_mp n) = c # tq s (L_mp n)"
    using rt_schedule_wait_lists [OF k4 c4 s'(1), of "L_mp n"] nc by simp
  moreover have "tstat s' c = 2" using rt_schedule_stat(1) [OF k4 c4 s'(1), of c] by simp
  moreover have "err (threads s' c) = 0" using F(20) [of c] by simp
  moreover have "Thread_Timer c \<in> set (rt_timer_list s')" if "0 < sint time" using F(7) that by simp
  moreover have "mempools s' = (mempools s)(n := ?m)" using F(13) by (simp add: fun_eq_iff)
  ultimately show ?thesis using s' by (auto simp: mp_waits_def)
qed

text \<open>\<open>rt_mp_alloc\<close> on every branch. With a free block it returns one that was not
  allocated; without one it fails at once when no time is given, with the error set in the
  calling thread, and otherwise suspends the caller at the front of the waiting list.\<close>

lemma mp_alloc_spec:
  assumes "mp_ready n s" "caller s c" "wait_time_ok time"
  shows "(block_free_count (mempools s n) \<noteq> 0 \<longrightarrow>
     (\<exists>i s'. rt_mp_alloc n time s = Some (Ret (Some i), s') \<and> mp_ready n s' \<and> i \<notin> mp_live (mempools s n) \<and>
        mp_live (mempools s' n) = insert i (mp_live (mempools s n)))) \<and>
   (block_free_count (mempools s n) = 0 \<and> time = 0 \<longrightarrow>
     (\<exists>s'. rt_mp_alloc n time s = Some (Ret None, s') \<and> mp_ready n s' \<and> mempools s' = mempools s \<and>
        err (threads s' c) = - RT_ETIMEOUT)) \<and>
   (block_free_count (mempools s n) = 0 \<and> time \<noteq> 0 \<longrightarrow>
     (\<exists>s' b. rt_mp_alloc n time s = Some (Wait time b, s') \<and> mp_waits n c time s s'))"
proof (intro conjI impI)
  assume f: "block_free_count (mempools s n) \<noteq> 0"
  obtain i s' where "rt_mp_alloc n time s = Some (Ret (Some i), s')" "mp_ready n s'"
    "i \<in> set (mp_free_list (mempools s n))" "mp_live (mempools s' n) = insert i (mp_live (mempools s n))"
    by (rule alloc_block [OF assms(1) f])
  then show "\<exists>i s'. rt_mp_alloc n time s = Some (Ret (Some i), s') \<and> mp_ready n s' \<and> i \<notin> mp_live (mempools s n) \<and>
      mp_live (mempools s' n) = insert i (mp_live (mempools s n))" by (auto simp: mp_live_def)
next
  assume f: "block_free_count (mempools s n) = 0 \<and> time = 0"
  then have "err (threads (rt_set_errno (- 2) s) c) = - 2"
    using assms(2) by (simp add: rt_set_errno_def caller_def rt_interrupt_get_nest_def rt_thread_self_def)
  then show "\<exists>s'. rt_mp_alloc n time s = Some (Ret None, s') \<and> mp_ready n s' \<and> mempools s' = mempools s \<and>
      err (threads s' c) = - 2" using alloc_fails [OF assms(1)] f by auto
next
  assume f: "block_free_count (mempools s n) = 0 \<and> time \<noteq> 0"
  obtain s' where "mp_wait n c time s = Some s'" "mp_waits n c time s s'"
    using mp_wait_total [OF _ assms(2,3)] assms(1) by (auto simp: mp_ready_def)
  then show "\<exists>s' b. rt_mp_alloc n time s = Some (Wait time b, s') \<and> mp_waits n c time s s'"
    using f assms(2) by (simp add: rt_mp_alloc_def mp_alloc_again_def rt_thread_self_def caller_def)
qed

text \<open>C26: a wait for a block that times out is still counted. When it was the only one, the pool
  then counts a waiting thread while its waiting list is empty, and every later release of
  a block takes the list head for a thread control block (here: has no result).\<close>

theorem mp_timeout_miscounts:
  assumes "mp_ready n s" "caller s c" "0 < sint time" "wait_time_ok time"
    and "block_free_count (mempools s n) = 0" "tq s (L_mp n) = []"
  shows "\<exists>s1 b s2. rt_mp_alloc n time s = Some (Wait time b, s1) \<and>
    rt_thread_timeout c (rt_timer_remove (Thread_Timer c) s1) = Some s2 \<and> kinv s2 \<and>
    rt_mp_alloc_wake n c time b s2 = Some (Ret None, s2) \<and>
    tq s2 (L_mp n) = [] \<and> suspend_thread_count (mempools s2 n) = 1 \<and> (\<forall>i. rt_mp_free n i s2 = None)"
proof -
  obtain s1 where s1: "mp_wait n c time s = Some s1" "mp_waits n c time s s1"
    using mp_wait_total [OF _ assms(2,4)] assms(1) by (auto simp: mp_ready_def)
  note W = s1(2) [unfolded mp_waits_def]
  have al: "rt_mp_alloc n time s = Some (Wait time (rt_tick_get s), s1)"
    using s1(1) assms(2,3,5) by (auto simp: rt_mp_alloc_def mp_alloc_again_def rt_thread_self_def caller_def)
  let ?s0 = "rt_timer_remove (Thread_Timer c) s1"
  have k0: "kinv ?s0" using W by (intro timer_remove_kinv) simp
  have st0: "tstat ?s0 c = 2" using W by simp
  have k1: "kinv (timedout c ?s0)" by (rule timedout_kinv [OF k0 st0]) simp
  obtain cc where cc: "rt_current_thread (timedout c ?s0) = Some cc" using W by auto
  obtain s2 where s2: "rt_schedule (timedout c ?s0) = Some s2" "kinv s2" using rt_schedule_total [OF k1 cc] by blast
  note F = rt_schedule_frame [OF k1 cc s2(1)]
  have q2: "tq s2 (L_mp n) = []"
    using rt_schedule_wait_lists [OF k1 cc s2(1), of "L_mp n"] W assms(6) by simp
  have "suspend_thread_count (mempools s n) = 0" using assms(1,6) by (simp add: mp_ready_def unat_eq_0)
  then have n2: "suspend_thread_count (mempools s2 n) = 1"
    using F(13) ipc_sameD(6) [OF ipc_same_ops(6) [of ?s0 c]] W by simp
  have e2: "err (threads s2 c) = - 2" using F(20) [of c] by simp
  have "rt_mp_free n i s2 = None" for i
    using q2 n2 by (simp add: rt_mp_free_def Let_def split: mp_word.splits)
  then show ?thesis
    using al s2 timeout_eq [OF k0 st0] q2 n2 e2 by (auto simp: rt_mp_alloc_wake_def)
qed

definition kex_empty :: kernel where
  "kex_empty = set_mp 0 \<lparr>mp_size = 24, mp_block_size = 4, block_list = None, block_header = (\<lambda>_. Mp_Pool 0),
     block_total_count = 3, block_free_count = 0, suspend_thread_count = 0\<rparr> kex"

lemma kex_empty_ready: "mp_ready 0 kex_empty" "caller kex_empty 1"
proof -
  let ?m = "mempools kex_empty 0"
  have rep: "mp_rep 0 [] ?m" by (simp add: mp_rep_def kex_empty_def)
  show "mp_ready 0 kex_empty"
    using set_mp_kinv [OF kex_kinv] rep mp_rep_list [OF rep] by (simp add: mp_ready_def mp_inv_def kex_empty_def)
  show "caller kex_empty 1" by (simp add: caller_def kex_empty_def kex_stat)
qed

theorem mp_timeout_miscounts_witness:
  "\<exists>s1 b s2. rt_mp_alloc 0 10 kex_empty = Some (Wait 10 b, s1) \<and>
    rt_thread_timeout 1 (rt_timer_remove (Thread_Timer 1) s1) = Some s2 \<and>
    rt_mp_alloc_wake 0 1 10 b s2 = Some (Ret None, s2) \<and> rt_mp_free 0 0 s2 = None"
proof -
  have h: "(0 :: int) < sint (10 :: u32)" "wait_time_ok 10" "block_free_count (mempools kex_empty 0) = 0"
    "tq kex_empty (L_mp 0) = []" by (simp_all add: wait_time_ok_def kex_empty_def)
  show ?thesis using mp_timeout_miscounts [OF kex_empty_ready h] by blast
qed

end
