(* ===== verification/Small_Mem.thy ===== *)
theory Small_Mem
  imports Allocator
begin

text \<open>
  The small memory heap of \<open>src/mem.c\<close>: one region of memory cut into blocks, each behind a
  \<open>struct heap_mem\<close> of 12 bytes with the offsets of the next and the previous block. Offsets
  are from \<open>heap_ptr\<close>, as the code keeps them; a pointer into the heap is such an offset here,
  and \<open>heap_end\<close> is the offset of the last header. The definitions are the parts of the calls
  between taking and releasing the semaphore of the heap; \<open>Kernel_Heap\<close> adds the semaphore.
  \<open>None\<close> is a failed assertion, or a search that does not end. Hooks, the trace of the
  allocating thread and the log are left out.
\<close>

subsection \<open>Operations\<close>

record heap_mem =
  magic :: u16
  used :: u16
  mem_next :: u32
  mem_prev :: u32

record heap =
  heap_ptr :: u32
  mem_size_aligned :: u32
  mem_at :: "u32 \<Rightarrow> heap_mem"
  heap_bytes :: "u32 \<Rightarrow> u8"
  lfree :: u32
  used_mem :: u32
  max_mem :: u32

abbreviation (input) HEAP_MAGIC :: u16 where "HEAP_MAGIC \<equiv> 0x1ea0"
abbreviation (input) SIZEOF_STRUCT_MEM :: u32 where "SIZEOF_STRUCT_MEM \<equiv> 12"
abbreviation (input) MIN_SIZE_ALIGNED :: u32 where "MIN_SIZE_ALIGNED \<equiv> 12"

definition heap_end :: "heap \<Rightarrow> u32" where
  "heap_end h = mem_size_aligned h + SIZEOF_STRUCT_MEM"

definition upd_mem :: "u32 \<Rightarrow> (heap_mem \<Rightarrow> heap_mem) \<Rightarrow> heap \<Rightarrow> heap" where
  "upd_mem p f h = h\<lparr>mem_at := (mem_at h)(p := f (mem_at h p))\<rparr>"

definition plug_forward :: "u32 \<Rightarrow> heap \<Rightarrow> heap" where
  "plug_forward mem h =
     (let nmem = mem_next (mem_at h mem) in
      if mem \<noteq> nmem \<and> used (mem_at h nmem) = 0 \<and> nmem \<noteq> heap_end h
      then let h1 = (if lfree h = nmem then h\<lparr>lfree := mem\<rparr> else h);
               h2 = upd_mem mem (\<lambda>m. m\<lparr>mem_next := mem_next (mem_at h nmem)\<rparr>) h1
           in upd_mem (mem_next (mem_at h nmem)) (\<lambda>m. m\<lparr>mem_prev := mem\<rparr>) h2
      else h)"

definition plug_backward :: "u32 \<Rightarrow> heap \<Rightarrow> heap" where
  "plug_backward mem h =
     (let pmem = mem_prev (mem_at h mem) in
      if pmem \<noteq> mem \<and> used (mem_at h pmem) = 0
      then let h1 = (if lfree h = mem then h\<lparr>lfree := pmem\<rparr> else h);
               h2 = upd_mem pmem (\<lambda>m. m\<lparr>mem_next := mem_next (mem_at h mem)\<rparr>) h1
           in upd_mem (mem_next (mem_at h mem)) (\<lambda>m. m\<lparr>mem_prev := pmem\<rparr>) h2
      else h)"

definition plug_holes :: "u32 \<Rightarrow> heap \<Rightarrow> heap option" where
  "plug_holes mem h = do {
     rt_assert (mem < heap_end h);
     rt_assert (used (mem_at h mem) = 0);
     Some (plug_backward mem (plug_forward mem h))
   }"

text \<open>\<open>rt_system_heap_init\<close> without the semaphore; with too little memory the heap stays as it
  is.\<close>

definition rt_system_heap_init :: "u32 \<Rightarrow> u32 \<Rightarrow> heap \<Rightarrow> heap" where
  "rt_system_heap_init begin_addr end_addr h =
     (let begin_align = RT_ALIGN begin_addr RT_ALIGN_SIZE;
          end_align = RT_ALIGN_DOWN end_addr RT_ALIGN_SIZE in
      if end_align > 2 * SIZEOF_STRUCT_MEM \<and> end_align - 2 * SIZEOF_STRUCT_MEM \<ge> begin_align
      then let sz = end_align - begin_align - 2 * SIZEOF_STRUCT_MEM; e = sz + SIZEOF_STRUCT_MEM in
           h\<lparr>heap_ptr := begin_align, mem_size_aligned := sz, lfree := 0,
             mem_at := (mem_at h)(0 := \<lparr>magic = HEAP_MAGIC, used = 0, mem_next = e, mem_prev = 0\<rparr>,
               e := \<lparr>magic = HEAP_MAGIC, used = 1, mem_next = e, mem_prev = e\<rparr>)\<rparr>
      else h)"

text \<open>The search of \<open>rt_malloc\<close> for the first free block that is large enough.\<close>

partial_function (option) malloc_search :: "u32 \<Rightarrow> u32 \<Rightarrow> heap \<Rightarrow> u32 option option" where
  "malloc_search sz ptr h =
     (if ptr < mem_size_aligned h - sz
      then if used (mem_at h ptr) = 0 \<and> mem_next (mem_at h ptr) - (ptr + SIZEOF_STRUCT_MEM) \<ge> sz
           then Some (Some ptr)
           else malloc_search sz (mem_next (mem_at h ptr)) h
      else Some None)"

text \<open>The search for the next free block when the lowest one is taken.\<close>

partial_function (option) lfree_search :: "u32 \<Rightarrow> heap \<Rightarrow> u32 option" where
  "lfree_search p h =
     (if used (mem_at h p) \<noteq> 0 \<and> p \<noteq> heap_end h then lfree_search (mem_next (mem_at h p)) h else Some p)"

definition count_used :: "u32 \<Rightarrow> heap \<Rightarrow> heap" where
  "count_used d h =
     (let h1 = h\<lparr>used_mem := used_mem h + d\<rparr> in if max_mem h1 < used_mem h1 then h1\<lparr>max_mem := used_mem h1\<rparr> else h1)"

text \<open>Cutting a free block in two: the first part has room for \<open>sz\<close> bytes.\<close>

definition split_block :: "u32 \<Rightarrow> u32 \<Rightarrow> heap \<Rightarrow> heap" where
  "split_block ptr sz h =
     (let nx = mem_next (mem_at h ptr); ptr2 = ptr + SIZEOF_STRUCT_MEM + sz;
          h1 = upd_mem ptr2 (\<lambda>m. \<lparr>magic = HEAP_MAGIC, used = 0, mem_next = nx, mem_prev = ptr\<rparr>) h;
          h2 = upd_mem ptr (\<lambda>m. m\<lparr>mem_next := ptr2\<rparr>) h1
      in if nx \<noteq> mem_size_aligned h + SIZEOF_STRUCT_MEM then upd_mem nx (\<lambda>m. m\<lparr>mem_prev := ptr2\<rparr>) h2 else h2)"

definition malloc_take :: "u32 \<Rightarrow> u32 \<Rightarrow> heap \<Rightarrow> (u32 \<times> heap) option" where
  "malloc_take sz ptr h = do {
     let nx = mem_next (mem_at h ptr);
     let h1 = (if nx - (ptr + SIZEOF_STRUCT_MEM) \<ge> sz + SIZEOF_STRUCT_MEM + MIN_SIZE_ALIGNED
               then count_used (sz + SIZEOF_STRUCT_MEM) (upd_mem ptr (\<lambda>m. m\<lparr>used := 1\<rparr>) (split_block ptr sz h))
               else count_used (nx - ptr) (upd_mem ptr (\<lambda>m. m\<lparr>used := 1\<rparr>) h));
     let h2 = upd_mem ptr (\<lambda>m. m\<lparr>magic := HEAP_MAGIC\<rparr>) h1;
     h3 \<leftarrow> (if ptr = lfree h2
           then do {
             p \<leftarrow> lfree_search ptr h2;
             rt_assert (p = heap_end h2 \<or> used (mem_at h2 p) = 0);
             Some (h2\<lparr>lfree := p\<rparr>)
           }
           else Some h2);
     rt_assert (heap_ptr h3 + ptr + SIZEOF_STRUCT_MEM + sz \<le> heap_ptr h3 + heap_end h3);
     rt_assert ((heap_ptr h3 + ptr + SIZEOF_STRUCT_MEM) mod 4 = 0);
     rt_assert ((heap_ptr h3 + ptr) AND 3 = 0);
     Some (ptr + SIZEOF_STRUCT_MEM, h3)
   }"

text \<open>\<open>rt_malloc\<close>: the offset of the data, or \<open>RT_NULL\<close>.\<close>

definition malloc_size :: "u32 \<Rightarrow> u32" where
  "malloc_size sz = max (RT_ALIGN sz RT_ALIGN_SIZE) MIN_SIZE_ALIGNED"

definition malloc_locked :: "u32 \<Rightarrow> heap \<Rightarrow> (u32 option \<times> heap) option" where
  "malloc_locked sz h = do {
     r \<leftarrow> malloc_search sz (lfree h) h;
     case r of
       None \<Rightarrow> Some (None, h)
     | Some ptr \<Rightarrow> do { (p, h') \<leftarrow> malloc_take sz ptr h; Some (Some p, h') }
   }"

definition free_locked :: "u32 \<Rightarrow> heap \<Rightarrow> heap option" where
  "free_locked rmem h = do {
     let mem = rmem - SIZEOF_STRUCT_MEM;
     rt_assert (used (mem_at h mem) \<noteq> 0);
     rt_assert (magic (mem_at h mem) = HEAP_MAGIC);
     let h1 = upd_mem mem (\<lambda>m. m\<lparr>used := 0, magic := HEAP_MAGIC\<rparr>) h;
     let h2 = (if mem < lfree h1 then h1\<lparr>lfree := mem\<rparr> else h1);
     let h3 = h2\<lparr>used_mem := used_mem h2 - (mem_next (mem_at h2 mem) - mem)\<rparr>;
     plug_holes mem h3
   }"

text \<open>The part of \<open>rt_realloc\<close> under its own semaphore: the block keeps its place (\<open>Inl\<close>), or its
  size is returned and a new block has to be allocated (\<open>Inr\<close>).\<close>

definition realloc_locked :: "u32 \<Rightarrow> u32 \<Rightarrow> heap \<Rightarrow> ((u32 + u32) \<times> heap) option" where
  "realloc_locked rmem newsize h =
     (if rmem \<ge> heap_end h then Some (Inl rmem, h)
      else let ptr = rmem - SIZEOF_STRUCT_MEM; sz = mem_next (mem_at h ptr) - ptr - SIZEOF_STRUCT_MEM in
        if sz = newsize then Some (Inl rmem, h)
        else if newsize + SIZEOF_STRUCT_MEM + MIN_SIZE_ALIGNED < sz
        then do {
          let h1 = split_block ptr newsize (h\<lparr>used_mem := used_mem h - (sz - newsize)\<rparr>);
          h2 \<leftarrow> plug_holes (ptr + SIZEOF_STRUCT_MEM + newsize) h1;
          Some (Inl rmem, h2)
        }
        else Some (Inr sz, h))"

definition rt_memory_info :: "heap \<Rightarrow> u32 \<times> u32 \<times> u32" where
  "rt_memory_info h = (mem_size_aligned h, used_mem h, max_mem h)"

subsection \<open>The chain of blocks\<close>

abbreviation hnext :: "heap \<Rightarrow> u32 \<Rightarrow> u32" where "hnext h b \<equiv> mem_next (mem_at h b)"
abbreviation hprev :: "heap \<Rightarrow> u32 \<Rightarrow> u32" where "hprev h b \<equiv> mem_prev (mem_at h b)"
abbreviation hused :: "heap \<Rightarrow> u32 \<Rightarrow> bool" where "hused h b \<equiv> used (mem_at h b) \<noteq> 0"

definition hblk :: "heap \<Rightarrow> u32 \<Rightarrow> bool" where
  "hblk h b \<longleftrightarrow> unat b + 16 \<le> unat (hnext h b) \<and> 4 dvd unat b \<and> magic (mem_at h b) = HEAP_MAGIC"

fun hseg :: "heap \<Rightarrow> u32 \<Rightarrow> u32 list \<Rightarrow> u32 \<Rightarrow> bool" where
  "hseg h p [] q \<longleftrightarrow> p = q"
| "hseg h p (b # bs) q \<longleftrightarrow> b = p \<and> hblk h b \<and> hseg h (hnext h b) bs q"

fun prevs :: "heap \<Rightarrow> u32 \<Rightarrow> u32 list \<Rightarrow> bool" where
  "prevs h p [] \<longleftrightarrow> True"
| "prevs h p (b # bs) \<longleftrightarrow> hprev h b = p \<and> prevs h b bs"

lemma hseg_append: "hseg h p (xs @ ys) q \<longleftrightarrow> (\<exists>r. hseg h p xs r \<and> hseg h r ys q)"
  by (induction xs arbitrary: p) auto

lemma hseg_cong:
  "(\<And>b. b \<in> set xs \<Longrightarrow> hnext h' b = hnext h b \<and> magic (mem_at h' b) = magic (mem_at h b)) \<Longrightarrow> hseg h' p xs q = hseg h p xs q"
  by (induction xs arbitrary: p) (auto simp: hblk_def)

lemma prevs_cong: "(\<And>b. b \<in> set xs \<Longrightarrow> hprev h' b = hprev h b) \<Longrightarrow> prevs h' p xs = prevs h p xs"
  by (induction xs arbitrary: p) auto

lemma prevs_append: "prevs h p (xs @ ys) \<longleftrightarrow> prevs h p xs \<and> prevs h (last (p # xs)) ys"
  by (induction xs arbitrary: p) auto

lemma hseg_bounds: "hseg h p xs q \<Longrightarrow> unat p \<le> unat q \<and> (\<forall>b \<in> set xs. unat p \<le> unat b \<and> unat b + 16 \<le> unat q)"
proof (induction xs arbitrary: p)
  case (Cons b xs)
  then have "unat (hnext h b) \<le> unat q \<and> (\<forall>c \<in> set xs. unat (hnext h b) \<le> unat c \<and> unat c + 16 \<le> unat q)"
    "b = p" "unat b + 16 \<le> unat (hnext h b)" by (auto simp: hblk_def)
  then show ?case by force
qed simp

lemma hseg_sorted: "hseg h p xs q \<Longrightarrow> sorted_wrt (\<lambda>b c. unat b < unat c) xs"
proof (induction xs arbitrary: p)
  case (Cons b xs)
  then show ?case using hseg_bounds [of h "hnext h b" xs q] by (fastforce simp: hblk_def)
qed simp

lemma sorted_wrt_distinct: "sorted_wrt (\<lambda>b c. unat b < unat c) xs \<Longrightarrow> distinct xs"
  by (induction xs) auto

lemma hseg_distinct: "hseg h p xs q \<Longrightarrow> distinct (xs @ [q])"
proof -
  assume s: "hseg h p xs q"
  have "q \<notin> set xs" using hseg_bounds [OF s] by fastforce
  then show ?thesis using sorted_wrt_distinct [OF hseg_sorted [OF s]] by simp
qed

text \<open>The start of the block after a given one.\<close>

lemma hseg_next: "hseg h p (xs @ b # ys) q \<Longrightarrow> hnext h b = hd (ys @ [q])"
  by (cases ys) (auto simp: hseg_append)

text \<open>Consistency of the links; \<open>holes\<close> says that no two free blocks are neighbours.\<close>

definition heap_links :: "u32 list \<Rightarrow> heap \<Rightarrow> bool" where
  "heap_links bl h \<longleftrightarrow>
     hseg h 0 bl (heap_end h) \<and> prevs h 0 bl \<and> hused h (heap_end h) \<and> hnext h (heap_end h) = heap_end h \<and>
     lfree h \<in> insert (heap_end h) (set bl) \<and>
     unat (heap_ptr h) + unat (mem_size_aligned h) + 24 < 2 ^ 32 \<and> 4 dvd unat (heap_ptr h) \<and>
     4 dvd unat (mem_size_aligned h) \<and> 12 \<le> unat (mem_size_aligned h)"

abbreviation holes :: "heap \<Rightarrow> u32 list \<Rightarrow> bool" where
  "holes h \<equiv> successively (\<lambda>b c. hused h b \<or> hused h c)"

definition used_bytes :: "heap \<Rightarrow> u32 list \<Rightarrow> u32" where
  "used_bytes h bl = sum_list (map (\<lambda>b. if hused h b then hnext h b - b else 0) bl)"

definition heap_rep :: "u32 list \<Rightarrow> heap \<Rightarrow> bool" where
  "heap_rep bl h \<longleftrightarrow> heap_links bl h \<and> holes h bl \<and> used_mem h = used_bytes h bl"

lemma heap_linksD:
  assumes "heap_links bl h"
  shows "hseg h 0 bl (heap_end h)" "prevs h 0 bl" "hused h (heap_end h)" "hnext h (heap_end h) = heap_end h"
    "lfree h \<in> insert (heap_end h) (set bl)" "unat (heap_ptr h) + unat (mem_size_aligned h) + 24 < 2 ^ 32"
    "4 dvd unat (heap_ptr h)" "4 dvd unat (mem_size_aligned h)" "12 \<le> unat (mem_size_aligned h)"
    "unat (heap_end h) = unat (mem_size_aligned h) + 12"
proof -
  show "unat (heap_end h) = unat (mem_size_aligned h) + 12"
    using assms unat_add_small [of "mem_size_aligned h" 12] by (simp add: heap_links_def heap_end_def)
qed (use assms in \<open>auto simp: heap_links_def\<close>)

lemma upd_mem_frame [simp]:
  "heap_ptr (upd_mem p f h) = heap_ptr h" "mem_size_aligned (upd_mem p f h) = mem_size_aligned h"
  "heap_bytes (upd_mem p f h) = heap_bytes h" "lfree (upd_mem p f h) = lfree h" "used_mem (upd_mem p f h) = used_mem h"
  "max_mem (upd_mem p f h) = max_mem h" "heap_end (upd_mem p f h) = heap_end h"
  "mem_at (upd_mem p f h) b = (if b = p then f (mem_at h p) else mem_at h b)"
  by (simp_all add: upd_mem_def heap_end_def)

lemma heap_upd_frame [simp]:
  "heap_end (h\<lparr>lfree := l\<rparr>) = heap_end h" "heap_end (h\<lparr>used_mem := u\<rparr>) = heap_end h"
  "heap_end (h\<lparr>max_mem := v\<rparr>) = heap_end h" "heap_end (h\<lparr>heap_bytes := d\<rparr>) = heap_end h"
  by (simp_all add: heap_end_def)

subsection \<open>Joining two neighbours\<close>

definition join :: "u32 \<Rightarrow> u32 \<Rightarrow> heap \<Rightarrow> heap" where
  "join a b h =
     upd_mem (hnext h b) (\<lambda>m. m\<lparr>mem_prev := a\<rparr>)
       (upd_mem a (\<lambda>m. m\<lparr>mem_next := hnext h b\<rparr>) (if lfree h = b then h\<lparr>lfree := a\<rparr> else h))"

lemma plug_join:
  "plug_forward m h = (if m \<noteq> hnext h m \<and> \<not> hused h (hnext h m) \<and> hnext h m \<noteq> heap_end h then join m (hnext h m) h else h)"
  "plug_backward m h = (if hprev h m \<noteq> m \<and> \<not> hused h (hprev h m) then join (hprev h m) m h else h)"
  by (simp_all add: plug_forward_def plug_backward_def join_def Let_def)

lemma join_simps [simp]:
  "hused (join a b h) c = hused h c" "heap_end (join a b h) = heap_end h" "used_mem (join a b h) = used_mem h"
  "max_mem (join a b h) = max_mem h" "heap_bytes (join a b h) = heap_bytes h" "heap_ptr (join a b h) = heap_ptr h"
  "mem_size_aligned (join a b h) = mem_size_aligned h" "magic (mem_at (join a b h) c) = magic (mem_at h c)"
  "hnext (join a b h) c = (if c = a then hnext h b else hnext h c)"
  "hprev (join a b h) c = (if c = hnext h b then a else hprev h c)"
  "lfree (join a b h) = (if lfree h = b then a else lfree h)"
  by (auto simp: join_def)

lemma join_links:
  assumes l: "heap_links (xs @ a # b # ys) h"
  shows "heap_links (xs @ a # ys) (join a b h)"
proof -
  note D = heap_linksD [OF l]
  let ?e = "heap_end h"
  have dis: "distinct ((xs @ a # b # ys) @ [?e])" by (rule hseg_distinct [OF D(1)])
  have nx: "hnext h b = hd (ys @ [?e])" using hseg_next [of h 0 "xs @ [a]" b ys ?e] D(1) by simp
  then have nb: "hnext h b \<notin> set (xs @ [a, b])" using dis by (cases ys) auto
  have seg: "hseg h 0 xs a" "hblk h a" "hnext h a = b" "hblk h b" "hseg h (hnext h b) ys ?e"
    using D(1) by (auto simp: hseg_append)
  have "hblk (join a b h) a" using seg by (auto simp: hblk_def)
  moreover have "hseg (join a b h) 0 xs a" using seg(1) dis by (subst hseg_cong [of _ _ h]) auto
  moreover have "hseg (join a b h) (hnext h b) ys ?e" using seg(5) dis by (subst hseg_cong [of _ _ h]) auto
  ultimately have s': "hseg (join a b h) 0 (xs @ a # ys) ?e" by (auto simp: hseg_append)
  have pv: "prevs h 0 xs" "hprev h a = last (0 # xs)" "prevs h b ys" using D(2) by (auto simp: prevs_append)
  have "prevs (join a b h) 0 xs" using pv(1) nb by (subst prevs_cong [of _ _ h]) auto
  moreover have "prevs (join a b h) a ys"
  proof (cases ys)
    case (Cons d ds)
    then have "prevs (join a b h) d ds" using pv(3) nx dis by (subst prevs_cong [of _ _ h]) auto
    then show ?thesis using Cons nx by simp
  qed simp
  moreover have "hprev (join a b h) a = last (0 # xs)" using pv(2) nb by auto
  ultimately have "prevs (join a b h) 0 (xs @ a # ys)" by (simp add: prevs_append)
  moreover have "hnext (join a b h) ?e = ?e" using D(4) dis by auto
  ultimately show ?thesis using s' D unfolding heap_links_def by auto
qed

lemma used_bytes_simps [simp]:
  "used_bytes h [] = 0" "used_bytes h (b # bs) = (if hused h b then hnext h b - b else 0) + used_bytes h bs"
  "used_bytes h (xs @ ys) = used_bytes h xs + used_bytes h ys"
  by (simp_all add: used_bytes_def)

lemma used_bytes_cong:
  "(\<And>b. b \<in> set xs \<Longrightarrow> hused h' b = hused h b) \<Longrightarrow> (\<And>b. b \<in> set xs \<Longrightarrow> hused h b \<Longrightarrow> hnext h' b = hnext h b) \<Longrightarrow>
   used_bytes h' xs = used_bytes h xs"
  by (induction xs) auto

lemma used_bytes_join:
  assumes "\<not> hused h a" "\<not> hused h b"
  shows "used_bytes (join a b h) (xs @ a # ys) = used_bytes h (xs @ a # b # ys)"
proof -
  have "used_bytes (join a b h) zs = used_bytes h zs" for zs
    using assms(1) by (intro used_bytes_cong) auto
  then show ?thesis using assms by simp
qed

text \<open>The two merges of \<open>plug_holes\<close> around a free block, as list operations.\<close>

lemma plug_holes_rep:
  assumes l: "heap_links (xs @ b # ys) h" and f: "\<not> hused h b" and ho: "holes h xs" "holes h ys"
    and sum: "used_mem h = used_bytes h (xs @ b # ys)"
  obtains h' bl' where "plug_holes b h = Some h'" "heap_rep bl' h'" "\<And>c. hused h' c = hused h c"
    "{c \<in> set bl'. hused h c} = {c \<in> set (xs @ b # ys). hused h c}" "\<And>c. hused h c \<Longrightarrow> hnext h' c = hnext h c"
    "heap_bytes h' = heap_bytes h" "heap_ptr h' = heap_ptr h" "mem_size_aligned h' = mem_size_aligned h" "max_mem h' = max_mem h"
proof -
  note D = heap_linksD [OF l]
  let ?e = "heap_end h"
  have dis: "distinct ((xs @ b # ys) @ [?e])" by (rule hseg_distinct [OF D(1)])
  have nx: "hnext h b = hd (ys @ [?e])" by (rule hseg_next [OF D(1)])
  have "b < ?e" using hseg_bounds [OF D(1)] by (force simp: word_less_nat_alt)
  then have ph: "plug_holes b h = Some (plug_backward b (plug_forward b h))" using f by (simp add: plug_holes_def)
  define h1 where "h1 = plug_forward b h"
  obtain ys1 where h1: "heap_links (xs @ b # ys1) h1" "holes h (b # ys1)" "used_bytes h1 (xs @ b # ys1) = used_bytes h (xs @ b # ys)"
    "{c \<in> set ys1. hused h c} = {c \<in> set ys. hused h c}" "\<And>c. hused h1 c = hused h c" "\<And>c. hused h c \<Longrightarrow> hnext h1 c = hnext h c"
    "heap_bytes h1 = heap_bytes h" "heap_ptr h1 = heap_ptr h" "mem_size_aligned h1 = mem_size_aligned h" "max_mem h1 = max_mem h"
    "used_mem h1 = used_mem h"
  proof (cases "\<exists>c cs. ys = c # cs \<and> \<not> hused h c")
    case True
    then obtain c cs where c: "ys = c # cs" "\<not> hused h c" by blast
    then have e: "h1 = join b c h" using nx dis by (auto simp: h1_def plug_join)
    have "holes h (b # cs)" using ho(2) c by (cases cs) auto
    moreover have "{d \<in> set cs. hused h d} = {d \<in> set ys. hused h d}" using c by auto
    moreover have "hnext h1 d = hnext h d" if "hused h d" for d using that f e by auto
    ultimately show thesis
      using that [of cs] join_links [of xs b c cs h] used_bytes_join [OF f c(2), of xs cs] l c(1) e by simp
  next
    case False
    then have "h1 = h" using nx D(3) by (cases ys) (auto simp: h1_def plug_join)
    moreover have "holes h (b # ys)" using ho(2) False by (cases ys) auto
    ultimately show thesis using that [of ys] l by simp
  qed
  show thesis
  proof (cases "\<exists>as a. xs = as @ [a] \<and> \<not> hused h a")
    case True
    then obtain as a where a: "xs = as @ [a]" "\<not> hused h a" by blast
    have "hprev h1 b = a" using heap_linksD(2) [OF h1(1)] a by (simp add: prevs_append)
    then have e: "plug_backward b h1 = join a b h1" using a h1(5) dis by (auto simp: plug_join)
    have l1: "heap_links (as @ a # b # ys1) h1" using h1(1) a by simp
    have ub: "used_bytes (join a b h1) (as @ a # ys1) = used_bytes h (xs @ b # ys)"
      using used_bytes_join [of h1 a b as ys1] h1(3,5) a f by simp
    have "holes h (as @ a # ys1)"
      using ho(1) h1(2) a f by (cases ys1) (auto simp: successively_append_iff)
    then have rep: "heap_rep (as @ a # ys1) (join a b h1)"
      using join_links [OF l1] ub sum h1(5,11) by (simp add: heap_rep_def)
    have "{c \<in> set (as @ a # ys1). hused h c} = {c \<in> set (xs @ b # ys). hused h c}" using h1(4) a f by auto
    moreover have "hnext (join a b h1) c = hnext h c" if "hused h c" for c using that a h1(6) by auto
    ultimately show thesis
      using that [OF ph [folded h1_def, unfolded e] rep] h1(5,7-11) by simp
  next
    case False
    have pb: "hprev h1 b = last (0 # xs)" using heap_linksD(2) [OF h1(1)] by (simp add: prevs_append)
    have "hprev h1 b = b \<or> hused h1 (hprev h1 b)"
    proof (cases xs rule: rev_cases)
      case Nil
      then show ?thesis using pb heap_linksD(1) [OF h1(1)] by simp
    next
      case (snoc as a)
      then show ?thesis using pb False h1(5) by simp
    qed
    then have e: "plug_backward b h1 = h1" by (auto simp: plug_join)
    have "holes h (xs @ b # ys1)"
      using ho(1) h1(2) False by (cases xs rule: rev_cases) (auto simp: successively_append_iff)
    then have rep: "heap_rep (xs @ b # ys1) h1" using h1 sum by (simp add: heap_rep_def)
    have "{c \<in> set (xs @ b # ys1). hused h c} = {c \<in> set (xs @ b # ys). hused h c}" using h1(4) by auto
    then show thesis using that [OF ph [folded h1_def, unfolded e] rep] h1(5-11) by simp
  qed
qed

subsection \<open>Releasing a block\<close>

text \<open>Changing the flag of a block.\<close>

definition set_used :: "u16 \<Rightarrow> u32 \<Rightarrow> heap \<Rightarrow> heap" where
  "set_used v b = upd_mem b (\<lambda>m. m\<lparr>used := v\<rparr>)"

lemma set_used_simps [simp]:
  "hused (set_used v b h) c = (if c = b then v \<noteq> 0 else hused h c)" "hnext (set_used v b h) c = hnext h c"
  "hprev (set_used v b h) c = hprev h c" "magic (mem_at (set_used v b h) c) = magic (mem_at h c)"
  "heap_end (set_used v b h) = heap_end h" "used_mem (set_used v b h) = used_mem h"
  "max_mem (set_used v b h) = max_mem h" "heap_bytes (set_used v b h) = heap_bytes h"
  "heap_ptr (set_used v b h) = heap_ptr h" "mem_size_aligned (set_used v b h) = mem_size_aligned h"
  "lfree (set_used v b h) = lfree h"
  by (simp_all add: set_used_def)

text \<open>The links only depend on these parts.\<close>

lemma heap_links_cong:
  assumes "heap_links bl h" and "\<And>b. b \<in> set bl \<Longrightarrow> hnext h' b = hnext h b \<and> hprev h' b = hprev h b \<and> magic (mem_at h' b) = magic (mem_at h b)"
    and "heap_ptr h' = heap_ptr h" "mem_size_aligned h' = mem_size_aligned h"
    and "hused h' (heap_end h)" "hnext h' (heap_end h) = hnext h (heap_end h)" "lfree h' \<in> insert (heap_end h) (set bl)"
  shows "heap_links bl h'"
proof -
  have e: "heap_end h' = heap_end h" using assms(4) by (simp add: heap_end_def)
  have "hseg h' 0 bl (heap_end h) = hseg h 0 bl (heap_end h)" using assms(2) by (intro hseg_cong) auto
  moreover have "prevs h' 0 bl = prevs h 0 bl" using assms(2) by (intro prevs_cong) auto
  ultimately show ?thesis using assms by (simp add: heap_links_def e)
qed

lemma holes_parts: "holes h (xs @ b # ys) \<Longrightarrow> holes h xs \<and> holes h ys"
  by (cases ys) (auto simp: successively_append_iff)

lemma holes_cong: "(\<And>b. b \<in> set xs \<Longrightarrow> hused h' b = hused h b) \<Longrightarrow> holes h' xs = holes h xs"
  by (intro successively_cong) auto

lemma free_rep:
  assumes r: "heap_rep bl h" and b: "b \<in> set bl" "hused h b"
  obtains h' bl' where "free_locked (b + SIZEOF_STRUCT_MEM) h = Some h'" "heap_rep bl' h'"
    "{c \<in> set bl'. hused h' c} = {c \<in> set bl. hused h c} - {b}"
    "\<And>c. hused h c \<Longrightarrow> c \<noteq> b \<Longrightarrow> hnext h' c = hnext h c"
    "heap_bytes h' = heap_bytes h" "heap_ptr h' = heap_ptr h" "mem_size_aligned h' = mem_size_aligned h"
proof -
  note D = heap_linksD
  have l: "heap_links bl h" and ho: "holes h bl" and um: "used_mem h = used_bytes h bl" using r by (auto simp: heap_rep_def)
  from b(1) obtain xs ys where bl: "bl = xs @ b # ys" by (meson split_list)
  have dis: "distinct (bl @ [heap_end h])" by (rule hseg_distinct [OF D(1) [OF l]])
  have mg: "magic (mem_at h b) = HEAP_MAGIC" using D(1) [OF l] bl by (auto simp: hseg_append hblk_def)
  define h3 where "h3 = (if b < lfree h then (set_used 0 b h)\<lparr>lfree := b\<rparr> else set_used 0 b h)
      \<lparr>used_mem := used_mem h - (hnext h b - b)\<rparr>"
  have fields: "hused h3 c = (c \<noteq> b \<and> hused h c)" "hnext h3 c = hnext h c" "hprev h3 c = hprev h c"
    "magic (mem_at h3 c) = magic (mem_at h c)" for c by (auto simp: h3_def)
  have l3: "heap_links (xs @ b # ys) h3"
    using D(3-5) [OF l] dis bl by (intro heap_links_cong [OF l [unfolded bl]]) (auto simp: h3_def)
  have ho3: "holes h3 xs" "holes h3 ys"
  proof -
    have "holes h xs" "holes h ys" using holes_parts [of h xs b ys] ho bl by auto
    moreover have "b \<notin> set xs" "b \<notin> set ys" using dis bl by auto
    ultimately show "holes h3 xs" "holes h3 ys"
      by (metis (no_types, lifting) fields(1) holes_cong)+
  qed
  have "used_bytes h3 zs = used_bytes h zs" if "zs = xs \<or> zs = ys" for zs
    using that dis bl by (intro used_bytes_cong) (auto simp: fields)
  then have um3: "used_mem h3 = used_bytes h3 (xs @ b # ys)"
    using um b(2) bl by (simp add: fields) (simp add: h3_def)
  have "upd_mem b (\<lambda>m. m\<lparr>used := 0, magic := HEAP_MAGIC\<rparr>) h = set_used 0 b h"
    using mg by (auto simp: set_used_def upd_mem_def intro!: heap_mem.equality heap.equality)
  then have fl: "free_locked (b + 12) h = plug_holes b h3"
    using b(2) mg by (simp add: free_locked_def Let_def h3_def)
  obtain h' bl' where P: "plug_holes b h3 = Some h'" "heap_rep bl' h'" "\<And>c. hused h' c = hused h3 c"
    "{c \<in> set bl'. hused h3 c} = {c \<in> set (xs @ b # ys). hused h3 c}" "\<And>c. hused h3 c \<Longrightarrow> hnext h' c = hnext h3 c"
    "heap_bytes h' = heap_bytes h3" "heap_ptr h' = heap_ptr h3" "mem_size_aligned h' = mem_size_aligned h3"
    by (rule plug_holes_rep [OF l3 _ ho3 um3]) (auto simp: fields)
  show thesis
  proof (rule that [OF fl [unfolded P(1)] P(2)])
    show "{c \<in> set bl'. hused h' c} = {c \<in> set bl. hused h c} - {b}"
      using P(4) by (auto simp: P(3) fields bl)
    show "hnext h' c = hnext h c" if "hused h c" "c \<noteq> b" for c using P(5) [of c] that by (simp add: fields)
  qed (use P(6-8) in \<open>simp_all add: h3_def\<close>)
qed

subsection \<open>The searches\<close>

lemma room_iff:
  assumes "hblk h c"
  shows "sz \<le> hnext h c - (c + SIZEOF_STRUCT_MEM) \<longleftrightarrow> unat c + 12 + unat sz \<le> unat (hnext h c)"
    "unat (hnext h c - (c + SIZEOF_STRUCT_MEM)) = unat (hnext h c) - (unat c + 12)" "unat (c + SIZEOF_STRUCT_MEM) = unat c + 12"
proof -
  have le: "unat c + 16 \<le> unat (hnext h c)" using assms by (simp add: hblk_def)
  have lt: "unat (hnext h c) < 2 ^ 32" using unat_less_2p [of "hnext h c"] by simp
  show c: "unat (c + 12) = unat c + 12" using le lt unat_add_small [of c 12] by simp
  show d: "unat (hnext h c - (c + 12)) = unat (hnext h c) - (unat c + 12)"
    using le c unat_sub_if' [of "hnext h c" "c + 12"] by (simp add: word_le_nat_alt)
  show "sz \<le> hnext h c - (c + 12) \<longleftrightarrow> unat c + 12 + unat sz \<le> unat (hnext h c)"
    unfolding word_le_nat_alt d using le by auto
qed

lemma search_total:
  assumes "hseg h p bs (heap_end h)" and "unat (heap_end h) = unat (mem_size_aligned h) + 12" and sz: "sz \<le> mem_size_aligned h"
  obtains r where "malloc_search sz p h = Some r"
    "\<And>c. r = Some c \<Longrightarrow> c \<in> set bs \<and> \<not> hused h c \<and> unat c + 12 + unat sz \<le> unat (hnext h c)"
    "\<And>c. r = None \<Longrightarrow> c \<in> set bs \<Longrightarrow>
       hused h c \<or> unat (hnext h c) < unat c + 12 + unat sz \<or> unat (mem_size_aligned h) \<le> unat c + unat sz"
  using assms(1)
proof (induction bs arbitrary: p thesis)
  case Nil
  have "\<not> p < mem_size_aligned h - sz"
    using Nil.prems(2) assms(2) sz by (simp add: word_less_nat_alt word_le_nat_alt unat_sub_if')
  then have "malloc_search sz p h = Some None" by (subst malloc_search.simps) simp
  then show ?case using Nil.prems(1) by fastforce
next
  case (Cons b bs)
  have b: "b = p" "hblk h b" "hseg h (hnext h b) bs (heap_end h)" using Cons.prems(2) by auto
  have lim: "p < mem_size_aligned h - sz \<longleftrightarrow> unat p + unat sz < unat (mem_size_aligned h)"
    using sz by (auto simp: word_less_nat_alt word_le_nat_alt unat_sub_if')
  note room = room_iff(1) [OF b(2), of sz]
  consider (stop) "\<not> p < mem_size_aligned h - sz" | (hit) "p < mem_size_aligned h - sz" "\<not> hused h p" "unat p + 12 + unat sz \<le> unat (hnext h p)"
    | (miss) "p < mem_size_aligned h - sz" "hused h p \<or> unat (hnext h p) < unat p + 12 + unat sz" by force
  then show ?case
  proof cases
    case stop
    then have "malloc_search sz p h = Some None" by (subst malloc_search.simps) simp
    moreover have "unat (mem_size_aligned h) \<le> unat c + unat sz" if "c \<in> set (b # bs)" for c
      using hseg_bounds [OF Cons.prems(2)] that stop lim by fastforce
    ultimately show ?thesis using Cons.prems(1) [of None] by blast
  next
    case hit
    then have "malloc_search sz p h = Some (Some p)" using room b(1) by (subst malloc_search.simps) simp
    then show ?thesis using Cons.prems(1) [of "Some p"] hit b(1) by simp
  next
    case miss
    then have e: "malloc_search sz p h = malloc_search sz (hnext h b) h"
      using room b(1) by (subst malloc_search.simps) auto
    obtain r where r: "malloc_search sz (hnext h b) h = Some r"
      "\<And>c. r = Some c \<Longrightarrow> c \<in> set bs \<and> \<not> hused h c \<and> unat c + 12 + unat sz \<le> unat (hnext h c)"
      "\<And>c. r = None \<Longrightarrow> c \<in> set bs \<Longrightarrow>
         hused h c \<or> unat (hnext h c) < unat c + 12 + unat sz \<or> unat (mem_size_aligned h) \<le> unat c + unat sz"
      by (rule Cons.IH [OF _ b(3)]) blast
    show ?thesis by (rule Cons.prems(1) [of r]) (use r e miss b(1) in auto)
  qed
qed

lemma lfree_total:
  assumes "hseg h p bs (heap_end h)"
  shows "\<exists>q. lfree_search p h = Some q \<and> q \<in> insert (heap_end h) (set bs) \<and> (q = heap_end h \<or> \<not> hused h q)"
  using assms
proof (induction bs arbitrary: p)
  case Nil
  then show ?case by (subst lfree_search.simps) simp
next
  case (Cons b bs)
  have b: "b = p" "hseg h (hnext h b) bs (heap_end h)" using Cons.prems by auto
  have "b \<noteq> heap_end h" using hseg_distinct [OF Cons.prems] by auto
  then show ?case
    using Cons.IH [OF b(2)] b(1) by (subst lfree_search.simps) auto
qed

subsection \<open>Cutting a block\<close>

lemma split_rep:
  assumes l: "heap_links (xs @ c # ys) h" and sz: "4 \<le> unat sz" "4 dvd unat sz"
    and room: "unat c + 12 + unat sz + 16 \<le> unat (hnext h c)"
  defines "d \<equiv> c + SIZEOF_STRUCT_MEM + sz" and "h' \<equiv> split_block c sz h"
  shows "unat d = unat c + 12 + unat sz" "d \<notin> set (xs @ c # ys)" "d \<noteq> heap_end h"
    "heap_links (xs @ c # d # ys) h'"
    "hused h' b = (b \<noteq> d \<and> hused h b)" "hnext h' b = (if b = d then hnext h c else if b = c then d else hnext h b)"
    "used_mem h' = used_mem h" "max_mem h' = max_mem h" "heap_bytes h' = heap_bytes h" "heap_ptr h' = heap_ptr h"
    "mem_size_aligned h' = mem_size_aligned h" "lfree h' = lfree h" "heap_end h' = heap_end h"
    "magic (mem_at h' b) = (if b = d then HEAP_MAGIC else magic (mem_at h b))"
proof -
  note D = heap_linksD [OF l]
  let ?e = "heap_end h"
  have seg: "hseg h 0 xs c" "hblk h c" "hseg h (hnext h c) ys ?e" using D(1) by (auto simp: hseg_append)
  have dis: "distinct ((xs @ c # ys) @ [?e])" by (rule hseg_distinct [OF D(1)])
  have nx: "hnext h c = hd (ys @ [?e])" by (rule hseg_next [OF D(1)])
  have lt: "unat (hnext h c) < 2 ^ 32" using unat_less_2p [of "hnext h c"] by simp
  show ud: "unat d = unat c + 12 + unat sz"
    unfolding d_def using room_iff(3) [OF seg(2)] room lt by (subst unat_add_small) simp_all
  have lo: "unat b < unat d" if "b \<in> set (xs @ [c])" for b using hseg_bounds [OF seg(1)] that ud by auto
  have hi: "unat d < unat b" if "b \<in> set (ys @ [?e])" for b using hseg_bounds [OF seg(3)] that ud room by auto
  show nd: "d \<notin> set (xs @ c # ys)" "d \<noteq> ?e" using lo [of d] hi [of d] by auto
  have ne: "d \<noteq> c" "hnext h c \<noteq> d" "hnext h c \<noteq> c" using lo [of c] hi [of "hnext h c"] nx dis by (cases ys; auto)+
  have ee: "?e = mem_size_aligned h + 12" by (simp add: heap_end_def)
  show fu: "hused h' b = (b \<noteq> d \<and> hused h b)"
    and fn: "hnext h' b = (if b = d then hnext h c else if b = c then d else hnext h b)" for b
    unfolding h'_def d_def [symmetric] using ne by (auto simp: split_block_def Let_def d_def)
  show mg: "magic (mem_at h' b) = (if b = d then HEAP_MAGIC else magic (mem_at h b))" for b
    using ne by (auto simp: h'_def split_block_def Let_def d_def)
  have fp: "hprev h' b = (if b = hnext h c \<and> b \<noteq> ?e then d else if b = d then c else hprev h b)" for b
    using ne by (auto simp: h'_def split_block_def Let_def d_def ee)
  show fr: "used_mem h' = used_mem h" "max_mem h' = max_mem h" "heap_bytes h' = heap_bytes h" "heap_ptr h' = heap_ptr h"
    "mem_size_aligned h' = mem_size_aligned h" "lfree h' = lfree h" "heap_end h' = heap_end h"
    by (simp_all add: h'_def split_block_def Let_def)
  have "hseg h' 0 xs c" using seg(1) nd dis by (subst hseg_cong [of _ _ h]) (auto simp: fn mg)
  moreover have "hseg h' (hnext h c) ys ?e" using seg(3) nd dis by (subst hseg_cong [of _ _ h]) (auto simp: fn mg)
  moreover have "hblk h' c" using seg(2) ne ud sz by (auto simp: hblk_def fn mg)
  moreover have "hblk h' d" using seg(2) ud sz room by (auto simp: hblk_def fn mg)
  ultimately have s': "hseg h' 0 (xs @ c # d # ys) ?e" using ne by (auto simp: hseg_append fn)
  have pv: "prevs h 0 xs" "hprev h c = last (0 # xs)" "prevs h c ys" using D(2) by (auto simp: prevs_append)
  have nb: "hnext h c \<notin> set (xs @ [c])" using nx dis by (cases ys) auto
  have "prevs h' 0 xs" using pv(1) nb nd by (subst prevs_cong [of _ _ h]) (auto simp: fp)
  moreover have "prevs h' d ys"
  proof (cases ys)
    case (Cons y zs)
    then have "prevs h' y zs" using pv(3) nx dis nd by (subst prevs_cong [of _ _ h]) (auto simp: fp)
    moreover have "hprev h' y = d" using Cons nx dis by (auto simp: fp)
    ultimately show ?thesis using Cons by simp
  qed simp
  moreover have "hprev h' c = last (0 # xs)" "hprev h' d = c" using pv(2) nb ne by (auto simp: fp)
  ultimately have p': "prevs h' 0 (xs @ c # d # ys)" by (simp add: prevs_append)
  have "hused h' ?e" "hnext h' ?e = ?e" using D(3,4) nd dis by (auto simp: fu fn)
  then show "heap_links (xs @ c # d # ys) h'" using s' p' D fr by (auto simp: heap_links_def)
qed

subsection \<open>Taking a block\<close>

lemma count_used_simps [simp]:
  "mem_at (count_used d h) = mem_at h" "heap_ptr (count_used d h) = heap_ptr h" "lfree (count_used d h) = lfree h"
  "mem_size_aligned (count_used d h) = mem_size_aligned h" "heap_bytes (count_used d h) = heap_bytes h"
  "heap_end (count_used d h) = heap_end h" "used_mem (count_used d h) = used_mem h + d"
  by (simp_all add: count_used_def Let_def)

text \<open>The block is marked as used, after it was cut if enough room is left behind it.\<close>

definition marked :: "u32 \<Rightarrow> u32 \<Rightarrow> heap \<Rightarrow> heap" where
  "marked sz c h =
     (if sz + SIZEOF_STRUCT_MEM + MIN_SIZE_ALIGNED \<le> hnext h c - (c + SIZEOF_STRUCT_MEM)
      then count_used (sz + SIZEOF_STRUCT_MEM) (set_used 1 c (split_block c sz h))
      else count_used (hnext h c - c) (set_used 1 c h))"

lemma mark_rep:
  assumes r: "heap_rep bl h" and c: "c \<in> set bl" "\<not> hused h c"
    and sz: "12 \<le> unat sz" "4 dvd unat sz" and room: "unat c + 12 + unat sz \<le> unat (hnext h c)"
  defines "g \<equiv> marked sz c h"
  obtains bl' where "heap_rep bl' g" "{b \<in> set bl'. hused g b} = insert c {b \<in> set bl. hused h b}"
    "\<And>b. b \<in> set bl \<Longrightarrow> hused h b \<Longrightarrow> hnext g b = hnext h b" "unat c + 12 + unat sz \<le> unat (hnext g c)" "c \<in> set bl'"
    "heap_bytes g = heap_bytes h" "heap_ptr g = heap_ptr h" "mem_size_aligned g = mem_size_aligned h" "lfree g = lfree h"
proof -
  have l: "heap_links bl h" and ho: "holes h bl" and um: "used_mem h = used_bytes h bl" using r by (auto simp: heap_rep_def)
  from c(1) obtain xs ys where bl: "bl = xs @ c # ys" by (meson split_list)
  note D = heap_linksD [OF l]
  have dis: "distinct (bl @ [heap_end h])" by (rule hseg_distinct [OF D(1)])
  have blk: "hblk h c" using D(1) bl by (auto simp: hseg_append)
  have lt: "unat (hnext h c) < 2 ^ 32" using unat_less_2p [of "hnext h c"] by simp
  have "unat (hnext h c) \<le> unat (heap_end h)" using D(1) bl hseg_bounds [of h "hnext h c" ys] by (auto simp: hseg_append)
  then have b24: "unat sz + 24 < 2 ^ 32" using room D(6,10) by simp
  have u24: "unat (sz + 12 + 12) = unat sz + 24" if "unat sz + 24 < 2 ^ 32"
    using that unat_add_small [of "sz" 12] unat_add_small [of "sz + 12" 12] by simp
  show thesis
  proof (cases "unat c + 12 + unat sz + 24 \<le> unat (hnext h c)")
    case True
    let ?d = "c + 12 + sz" and ?k = "split_block c sz h"
    have cond: "sz + 12 + 12 \<le> hnext h c - (c + 12)" using True u24 lt room_iff(1) [OF blk, of "sz + 12 + 12"] by simp
    have g: "g = count_used (sz + 12) (set_used 1 c ?k)" using cond by (simp add: g_def marked_def)
    have h1: "4 \<le> unat sz" "unat c + 12 + unat sz + 16 \<le> unat (hnext h c)" using sz True by simp_all
    note S = split_rep [OF l [unfolded bl] h1(1) sz(2) h1(2)]
    have gu: "hused g b = (b = c \<or> (b \<noteq> ?d \<and> hused h b))" for b using S(2) by (auto simp: g S(5))
    have gn: "hnext g b = (if b = ?d then hnext h c else if b = c then ?d else hnext h b)" for b by (simp add: g S(6))
    have nd: "?d \<notin> set bl" "?d \<noteq> heap_end h" using S(2,3) bl by auto
    have lg: "heap_links (xs @ c # ?d # ys) g"
      using heap_linksD(3-5) [OF S(4)] D(3) nd
      by (intro heap_links_cong [OF S(4)]) (auto simp: g S(13) S(5))
    have "holes h (xs @ [c])" and hy: "holes h ys" and "\<And>y zs. ys = y # zs \<Longrightarrow> hused h y"
      using ho c(2) bl by (cases ys; auto simp: successively_append_iff)+
    moreover have "holes g (xs @ [c])"
      using \<open>holes h (xs @ [c])\<close> nd bl by (auto simp: gu successively_append_iff elim!: successively_mono)
    moreover have "holes g ys" using hy nd bl dis by (subst holes_cong [of _ _ h]) (auto simp: gu)
    ultimately have hg: "holes g (xs @ c # ?d # ys)"
      using nd bl by (cases ys) (auto simp: successively_append_iff gu)
    have ub: "used_bytes g zs = used_bytes h zs" if "zs = xs \<or> zs = ys" for zs
      using that nd bl dis by (intro used_bytes_cong) (auto simp: gu gn)
    have "used_bytes g (xs @ c # ?d # ys) = used_bytes h bl + (sz + 12)"
      using ub c(2) nd bl by (simp add: gu gn ac_simps)
    then have "heap_rep (xs @ c # ?d # ys) g" using lg hg um by (simp add: heap_rep_def) (simp add: g S(7))
    moreover have "{b \<in> set (xs @ c # ?d # ys). hused g b} = insert c {b \<in> set bl. hused h b}"
      using nd bl by (auto simp: gu)
    moreover have "unat (hnext g c) = unat c + 12 + unat sz" using S(1) nd bl by (auto simp: gn)
    moreover have "hnext g b = hnext h b" if "b \<in> set bl" "hused h b" for b
      using that c(2) nd by (auto simp: gn)
    ultimately show thesis
      using that [of "xs @ c # ?d # ys"] S(9-12) by (simp add: g)
  next
    case False
    have cond: "\<not> sz + 12 + 12 \<le> hnext h c - (c + 12)"
      using False u24 b24 room room_iff(1) [OF blk, of "sz + 12 + 12"] by auto
    have g: "g = count_used (hnext h c - c) (set_used 1 c h)" using cond by (simp add: g_def marked_def)
    have gu: "hused g b = (b = c \<or> hused h b)" for b by (auto simp: g)
    have lg: "heap_links bl g" using D(3-5) by (intro heap_links_cong [OF l]) (auto simp: g)
    have hg: "holes g bl" using ho by (auto simp: gu elim!: successively_mono)
    have ub: "used_bytes g zs = used_bytes h zs" if "zs = xs \<or> zs = ys" for zs
      using that bl dis by (intro used_bytes_cong) (auto simp: g)
    have "used_bytes g bl = used_bytes h bl + (hnext h c - c)"
      unfolding bl using ub c(2) by (simp add: gu) (simp add: g)
    then have "heap_rep bl g" using lg hg um by (simp add: heap_rep_def) (simp add: g)
    moreover have "{b \<in> set bl. hused g b} = insert c {b \<in> set bl. hused h b}" using c(1) by (auto simp: gu)
    ultimately show thesis using that [of bl] c(1) room by (simp add: g)
  qed
qed

lemma heap_rep_lfree: "heap_rep bl h \<Longrightarrow> q \<in> insert (heap_end h) (set bl) \<Longrightarrow> heap_rep bl (h\<lparr>lfree := q\<rparr>)"
proof -
  assume r: "heap_rep bl h" and q: "q \<in> insert (heap_end h) (set bl)"
  then have l: "heap_links bl h" by (simp add: heap_rep_def)
  have "heap_links bl (h\<lparr>lfree := q\<rparr>)" using heap_linksD(3) [OF l] q by (intro heap_links_cong [OF l]) auto
  moreover have "used_bytes (h\<lparr>lfree := q\<rparr>) bl = used_bytes h bl" by (rule used_bytes_cong) simp_all
  ultimately show ?thesis using r by (simp add: heap_rep_def)
qed

lemma word_mod4: "(w :: u32) mod 4 = 0 \<longleftrightarrow> 4 dvd unat w" "w AND 3 = 0 \<longleftrightarrow> 4 dvd unat w"
proof -
  have "unat (w mod 4) = unat w mod 4" by (simp add: unat_mod)
  then show m: "w mod 4 = 0 \<longleftrightarrow> 4 dvd unat w" by (metis dvd_eq_mod_eq_0 unat_eq_0)
  have "w AND 3 = w AND mask 2" by (simp add: mask2_eq)
  also have "\<dots> = w mod 4" by (simp add: take_bit_eq_mod flip: take_bit_eq_mask)
  finally show "w AND 3 = 0 \<longleftrightarrow> 4 dvd unat w" using m by simp
qed

lemma take_total:
  assumes r: "heap_rep bl h" and c: "c \<in> set bl" "\<not> hused h c"
    and sz: "12 \<le> unat sz" "4 dvd unat sz" and room: "unat c + 12 + unat sz \<le> unat (hnext h c)"
  obtains h' bl' where "malloc_take sz c h = Some (c + SIZEOF_STRUCT_MEM, h')" "heap_rep bl' h'"
    "{b \<in> set bl'. hused h' b} = insert c {b \<in> set bl. hused h b}"
    "\<And>b. b \<in> set bl \<Longrightarrow> hused h b \<Longrightarrow> hnext h' b = hnext h b" "unat c + 12 + unat sz \<le> unat (hnext h' c)"
    "heap_bytes h' = heap_bytes h" "heap_ptr h' = heap_ptr h" "mem_size_aligned h' = mem_size_aligned h"
proof -
  define g where "g = marked sz c h"
  obtain bl' where G: "heap_rep bl' g" "{b \<in> set bl'. hused g b} = insert c {b \<in> set bl. hused h b}"
    "\<And>b. b \<in> set bl \<Longrightarrow> hused h b \<Longrightarrow> hnext g b = hnext h b" "unat c + 12 + unat sz \<le> unat (hnext g c)" "c \<in> set bl'"
    "heap_bytes g = heap_bytes h" "heap_ptr g = heap_ptr h" "mem_size_aligned g = mem_size_aligned h" "lfree g = lfree h"
    unfolding g_def by (rule mark_rep [OF r c sz room]) blast
  have l: "heap_links bl' g" using G(1) by (simp add: heap_rep_def)
  note D = heap_linksD [OF l]
  from G(5) obtain xs ys where bl': "bl' = xs @ c # ys" by (meson split_list)
  have sg: "hseg g c (c # ys) (heap_end g)" and blk: "hblk g c" using D(1) bl' by (auto simp: hseg_append)
  have mg: "upd_mem c (\<lambda>m. m\<lparr>magic := 0x1ea0\<rparr>) g = g"
    using blk by (auto simp: hblk_def upd_mem_def intro!: heap.equality heap_mem.equality)
  obtain q where q: "lfree_search c g = Some q" "q \<in> insert (heap_end g) (set (c # ys))" "q = heap_end g \<or> \<not> hused g q"
    using lfree_total [OF sg] by blast
  define h' where "h' = (if c = lfree g then g\<lparr>lfree := q\<rparr> else g)"
  have rep: "heap_rep bl' h'" using heap_rep_lfree [OF G(1), of q] q(2) bl' G(1) by (auto simp: h'_def)
  have same: "mem_at h' = mem_at g" "heap_end h' = heap_end g" "heap_ptr h' = heap_ptr g" "heap_bytes h' = heap_bytes g"
    "mem_size_aligned h' = mem_size_aligned g" by (simp_all add: h'_def)
  have be: "unat (hnext g c) \<le> unat (heap_end g)" using sg hseg_bounds [of g "hnext g c" ys] by auto
  have c4: "4 dvd unat c" using blk by (simp add: hblk_def)
  have u1: "unat (heap_ptr g + c) = unat (heap_ptr g) + unat c"
    using be G(4) D(6,10) by (intro unat_add_small) simp
  have u2: "unat (heap_ptr g + c + 12) = unat (heap_ptr g) + unat c + 12"
    using be G(4) D(6,10) u1 by (subst unat_add_small) simp_all
  have u3: "unat (heap_ptr g + c + 12 + sz) = unat (heap_ptr g) + unat c + 12 + unat sz"
    using be G(4) D(6,10) u2 by (subst unat_add_small) simp_all
  have u4: "unat (heap_ptr g + heap_end g) = unat (heap_ptr g) + unat (heap_end g)"
    using D(6,10) by (intro unat_add_small) simp
  have as: "heap_ptr g + c + 12 + sz \<le> heap_ptr g + heap_end g" "(heap_ptr g + c + 12) mod 4 = 0" "(heap_ptr g + c) AND 3 = 0"
    using be G(4) D(7) c4 by (auto simp: word_le_nat_alt u1 u2 u3 u4 word_mod4)
  have e: "(if hnext h c - (c + 12) \<ge> sz + 12 + 12
      then count_used (sz + 12) (upd_mem c (\<lambda>m. m\<lparr>used := 1\<rparr>) (split_block c sz h))
      else count_used (hnext h c - c) (upd_mem c (\<lambda>m. m\<lparr>used := 1\<rparr>) h)) = g"
    by (simp add: g_def marked_def set_used_def)
  have "malloc_take sz c h = Some (c + 12, h')"
    unfolding malloc_take_def Let_def e mg using q(1,3) as by (cases "c = lfree g") (simp_all add: h'_def)
  then show thesis using that [OF _ rep] G(2-8) by (simp add: same)
qed

subsection \<open>The heap as an allocator\<close>

text \<open>The blocks from an offset on; the size of the heap bounds the walk.\<close>

fun hwalk :: "nat \<Rightarrow> heap \<Rightarrow> u32 \<Rightarrow> u32 list" where
  "hwalk 0 h p = []"
| "hwalk (Suc k) h p = (if p = heap_end h then [] else p # hwalk k h (hnext h p))"

definition heap_blocks :: "heap \<Rightarrow> u32 list" where
  "heap_blocks h = hwalk (unat (heap_end h)) h 0"

definition heap_inv :: "heap \<Rightarrow> bool" where
  "heap_inv h \<longleftrightarrow> heap_rep (heap_blocks h) h"

lemma hwalk_hseg: "hseg h p bs (heap_end h) \<Longrightarrow> length bs \<le> k \<Longrightarrow> hwalk k h p = bs"
proof (induction bs arbitrary: p k)
  case Nil
  then show ?case by (cases k) auto
next
  case (Cons b bs)
  then have "b \<noteq> heap_end h" using hseg_distinct [OF Cons.prems(1)] by auto
  then show ?case using Cons by (cases k) auto
qed

lemma hseg_length: "hseg h p bs q \<Longrightarrow> unat p + 16 * length bs \<le> unat q"
  by (induction bs arbitrary: p) (fastforce simp: hblk_def)+

lemma heap_repI: "heap_rep bl h \<Longrightarrow> heap_blocks h = bl \<and> heap_inv h"
proof -
  assume r: "heap_rep bl h"
  then have s: "hseg h 0 bl (heap_end h)" by (simp add: heap_rep_def heap_links_def)
  then have "heap_blocks h = bl"
    unfolding heap_blocks_def using hseg_length [OF s] by (intro hwalk_hseg) auto
  then show ?thesis using r by (simp add: heap_inv_def)
qed

text \<open>The data of the allocated blocks, and the offsets they own.\<close>

definition heap_live :: "heap \<Rightarrow> u32 set" where
  "heap_live h = (\<lambda>b. b + SIZEOF_STRUCT_MEM) ` {b \<in> set (heap_blocks h). hused h b}"

definition heap_region :: "heap \<Rightarrow> u32 \<Rightarrow> nat set" where
  "heap_region h p = {unat p ..< unat (hnext h (p - SIZEOF_STRUCT_MEM))}"

definition header_region :: "u32 \<Rightarrow> nat set" where
  "header_region b = {unat b ..< unat b + 12}"

text \<open>\<open>rt_malloc\<close> and \<open>rt_free\<close> without the semaphore, the checks of the arguments included.\<close>

definition heap_malloc :: "u32 \<Rightarrow> heap \<Rightarrow> (u32 option \<times> heap) option" where
  "heap_malloc sz h =
     (if sz = 0 then Some (None, h)
      else if RT_ALIGN sz RT_ALIGN_SIZE > mem_size_aligned h then Some (None, h)
      else malloc_locked (malloc_size sz) h)"

definition heap_free :: "u32 \<Rightarrow> heap \<Rightarrow> heap option" where
  "heap_free rmem h = do {
     rt_assert ((heap_ptr h + rmem) AND 3 = 0);
     rt_assert (rmem < heap_end h);
     free_locked rmem h
   }"

lemma heap_live_iff:
  "p \<in> heap_live h \<longleftrightarrow> p - SIZEOF_STRUCT_MEM \<in> set (heap_blocks h) \<and> hused h (p - SIZEOF_STRUCT_MEM)"
  unfolding heap_live_def by force

lemma block_facts:
  assumes i: "heap_inv h" and b: "b \<in> set (heap_blocks h)"
  shows "hblk h b" "unat (hnext h b) \<le> unat (heap_end h)" "unat (b + SIZEOF_STRUCT_MEM) = unat b + 12"
    and "c \<in> set (heap_blocks h) \<Longrightarrow> b \<noteq> c \<Longrightarrow> unat (hnext h b) \<le> unat c \<or> unat (hnext h c) \<le> unat b"
proof -
  let ?bl = "heap_blocks h"
  have s: "hseg h 0 ?bl (heap_end h)" using i by (simp add: heap_inv_def heap_rep_def heap_links_def)
  obtain xs ys where bl: "?bl = xs @ b # ys" using b by (meson split_list)
  then have sg: "hseg h 0 xs b" "hblk h b" "hseg h (hnext h b) ys (heap_end h)" using s by (auto simp: hseg_append)
  show "hblk h b" by (rule sg(2))
  show "unat (hnext h b) \<le> unat (heap_end h)" using hseg_bounds [OF sg(3)] by simp
  show "unat (b + 12) = unat b + 12" by (rule room_iff(3) [OF sg(2)])
  assume c: "c \<in> set ?bl" "b \<noteq> c"
  then consider "c \<in> set ys" | "c \<in> set xs" using bl by auto
  then show "unat (hnext h b) \<le> unat c \<or> unat (hnext h c) \<le> unat b"
  proof cases
    case 1
    then show ?thesis using hseg_bounds [OF sg(3)] by auto
  next
    case 2
    then obtain us vs where "xs = us @ c # vs" by (meson split_list)
    then have "hseg h (hnext h c) vs b" using sg(1) by (auto simp: hseg_append)
    then show ?thesis using hseg_bounds by blast
  qed
qed

lemma size_cases:
  assumes "sz \<noteq> 0" "RT_ALIGN sz 4 \<le> m" "12 \<le> unat m"
  shows "12 \<le> unat (malloc_size sz)" "4 dvd unat (malloc_size sz)" "malloc_size sz \<le> m"
    "unat sz \<le> 0xfffffffc \<Longrightarrow> unat sz \<le> unat (malloc_size sz)"
proof -
  have m: "unat (malloc_size sz) = max (unat (RT_ALIGN sz 4)) 12"
    by (simp add: malloc_size_def max_def word_le_nat_alt)
  have d: "4 dvd unat (RT_ALIGN sz 4)" unfolding ALIGN_eq and_not_mask2 unat_push_drop_2 by simp
  show "12 \<le> unat (malloc_size sz)" using m by simp
  show "4 dvd unat (malloc_size sz)" using m d by (simp add: max_def)
  show "malloc_size sz \<le> m" using assms(2,3) m by (simp add: word_le_nat_alt)
  assume "unat sz \<le> 0xfffffffc"
  then have "unat (RT_ALIGN sz 4) = (unat sz + 3) div 4 * 4" by (intro unat_ALIGN) simp_all
  then show "unat sz \<le> unat (malloc_size sz)" using m by simp
qed

text \<open>What the calls do to the rest of the heap.\<close>

definition heap_same :: "heap \<Rightarrow> heap \<Rightarrow> bool" where
  "heap_same h h' \<longleftrightarrow> heap_bytes h' = heap_bytes h \<and> heap_ptr h' = heap_ptr h \<and> mem_size_aligned h' = mem_size_aligned h"

definition heap_fit :: "heap \<Rightarrow> u32 \<Rightarrow> u32 \<Rightarrow> bool" where
  "heap_fit h sz p \<longleftrightarrow>
     (unat sz \<le> 0xfffffffc \<longrightarrow> unat sz \<le> card (heap_region h p)) \<and> 4 dvd unat p \<and> 12 \<le> card (heap_region h p)"

lemma malloc_total:
  assumes i: "heap_inv h"
  obtains r h' where "heap_malloc sz h = Some (r, h')" "heap_inv h'" "heap_same h h'" "r = None \<Longrightarrow> h' = h"
    "\<And>p. r = Some p \<Longrightarrow> p \<notin> heap_live h \<and> heap_live h' = insert p (heap_live h) \<and> heap_fit h' sz p"
    "\<And>p. p \<in> heap_live h \<Longrightarrow> heap_region h' p = heap_region h p"
proof (cases "sz = 0 \<or> RT_ALIGN sz 4 > mem_size_aligned h")
  case True
  then show thesis using that [of None h] i by (auto simp: heap_malloc_def heap_same_def)
next
  case False
  let ?bl = "heap_blocks h" and ?sz = "malloc_size sz"
  have r: "heap_rep ?bl h" using i by (simp add: heap_inv_def)
  then have l: "heap_links ?bl h" by (simp add: heap_rep_def)
  note D = heap_linksD [OF l]
  note S = size_cases [of sz "mem_size_aligned h", OF _ _ D(9)]
  have S1: "12 \<le> unat ?sz" "4 dvd unat ?sz" "?sz \<le> mem_size_aligned h" "unat sz \<le> 0xfffffffc \<longrightarrow> unat sz \<le> unat ?sz"
    using S False by auto
  have e: "heap_malloc sz h = malloc_locked ?sz h" using False by (simp add: heap_malloc_def)
  obtain bs where bs: "hseg h (lfree h) bs (heap_end h)" "set bs \<subseteq> set ?bl"
  proof (cases "lfree h = heap_end h")
    case True
    then show thesis using that [of "[]"] by simp
  next
    case False
    then obtain xs ys where "?bl = xs @ lfree h # ys" using D(5) by (meson insertE split_list)
    then show thesis using that [of "lfree h # ys"] D(1) by (auto simp: hseg_append)
  qed
  obtain res where R: "malloc_search ?sz (lfree h) h = Some res"
    "\<And>c. res = Some c \<Longrightarrow> c \<in> set bs \<and> \<not> hused h c \<and> unat c + 12 + unat ?sz \<le> unat (hnext h c)"
    by (rule search_total [OF bs(1) D(10) S1(3)]) blast
  show thesis
  proof (cases res)
    case None
    then show thesis using that [of None h] R(1) e i by (simp add: malloc_locked_def heap_same_def)
  next
    case (Some c)
    then have c: "c \<in> set ?bl" "\<not> hused h c" "unat c + 12 + unat ?sz \<le> unat (hnext h c)" using R(2) bs(2) by auto
    obtain h' bl' where T: "malloc_take ?sz c h = Some (c + 12, h')" "heap_rep bl' h'"
      "{b \<in> set bl'. hused h' b} = insert c {b \<in> set ?bl. hused h b}"
      "\<And>b. b \<in> set ?bl \<Longrightarrow> hused h b \<Longrightarrow> hnext h' b = hnext h b" "unat c + 12 + unat ?sz \<le> unat (hnext h' c)"
      "heap_bytes h' = heap_bytes h" "heap_ptr h' = heap_ptr h" "mem_size_aligned h' = mem_size_aligned h"
      by (rule take_total [OF r c(1,2) S1(1,2) c(3)]) blast
    have bl': "heap_blocks h' = bl'" "heap_inv h'" using heap_repI [OF T(2)] by auto
    have live: "heap_live h' = insert (c + 12) (heap_live h)" unfolding heap_live_def bl'(1) T(3) by simp
    have uc: "unat (c + 12) = unat c + 12" "4 dvd unat c"
      using block_facts(1,3) [OF i c(1)] by (auto simp: hblk_def)
    have "unat ?sz \<le> card (heap_region h' (c + 12))" using T(5) uc by (simp add: heap_region_def)
    then have "heap_fit h' sz (c + 12)"
      using S1(1,4) uc by (auto simp: heap_fit_def)
    moreover have "c + 12 \<notin> heap_live h" using c(2) by (simp add: heap_live_iff)
    moreover have "heap_region h' p = heap_region h p" if "p \<in> heap_live h" for p
      using T(4) [of "p - 12"] that by (simp add: heap_live_iff heap_region_def)
    ultimately show thesis
      using that [of "Some (c + 12)" h'] R(1) e T bl' live Some by (simp add: malloc_locked_def heap_same_def)
  qed
qed

lemma free_total:
  assumes i: "heap_inv h" and p: "p \<in> heap_live h"
  obtains h' where "heap_free p h = Some h'" "heap_inv h'" "heap_same h h'" "heap_live h' = heap_live h - {p}"
    "\<And>q. q \<in> heap_live h \<Longrightarrow> q \<noteq> p \<Longrightarrow> heap_region h' q = heap_region h q"
proof -
  let ?bl = "heap_blocks h" and ?b = "p - 12"
  have r: "heap_rep ?bl h" using i by (simp add: heap_inv_def)
  then have l: "heap_links ?bl h" by (simp add: heap_rep_def)
  note D = heap_linksD [OF l]
  have b: "?b \<in> set ?bl" "hused h ?b" using p by (auto simp: heap_live_iff)
  note B = block_facts [OF i b(1)]
  obtain h' bl' where F: "free_locked (?b + 12) h = Some h'" "heap_rep bl' h'"
    "{c \<in> set bl'. hused h' c} = {c \<in> set ?bl. hused h c} - {?b}"
    "\<And>c. hused h c \<Longrightarrow> c \<noteq> ?b \<Longrightarrow> hnext h' c = hnext h c"
    "heap_bytes h' = heap_bytes h" "heap_ptr h' = heap_ptr h" "mem_size_aligned h' = mem_size_aligned h"
    by (rule free_rep [OF r b]) blast
  have up: "unat p = unat ?b + 12" using B(3) by simp
  have le: "unat p + 4 \<le> unat (heap_end h)" "4 dvd unat p" using B(1,2) up by (auto simp: hblk_def)
  have "unat (heap_ptr h + p) = unat (heap_ptr h) + unat p" using le(1) D(6,10) by (intro unat_add_small) simp
  then have a: "(heap_ptr h + p) AND 3 = 0" using D(7) le(2) by (simp add: word_mod4(2))
  have "heap_free p h = Some h'" using F(1) a le(1) by (simp add: heap_free_def word_less_nat_alt)
  moreover have bl': "heap_blocks h' = bl'" "heap_inv h'" using heap_repI [OF F(2)] by auto
  have "heap_live h' = heap_live h - {p}" unfolding heap_live_def bl'(1) F(3) by force
  moreover have "heap_region h' q = heap_region h q" if "q \<in> heap_live h" "q \<noteq> p" for q
    using F(4) [of "q - 12"] that by (simp add: heap_live_iff heap_region_def)
  ultimately show thesis using that bl'(2) F(5-7) by (simp add: heap_same_def)
qed

definition malloc_call :: "u32 \<Rightarrow> heap \<Rightarrow> u32 option \<times> heap" where
  "malloc_call sz h = (case heap_malloc sz h of Some (r, h') \<Rightarrow> (r, h') | None \<Rightarrow> (None, h))"

definition free_call :: "u32 \<Rightarrow> heap \<Rightarrow> heap" where
  "free_call p h = (case heap_free p h of Some h' \<Rightarrow> h' | None \<Rightarrow> h)"

lemma heap_disjoint:
  assumes i: "heap_inv h" and p: "p \<in> heap_live h" "q \<in> heap_live h" "p \<noteq> q"
  shows "heap_region h p \<inter> heap_region h q = {}"
proof -
  let ?b = "p - 12" and ?c = "q - 12"
  have b: "?b \<in> set (heap_blocks h)" "?c \<in> set (heap_blocks h)" "?b \<noteq> ?c" using p by (auto simp: heap_live_iff)
  have "unat (hnext h ?b) \<le> unat ?c \<or> unat (hnext h ?c) \<le> unat ?b" by (rule block_facts(4) [OF i b])
  moreover have "unat p = unat ?b + 12" "unat q = unat ?c + 12" using block_facts(3) [OF i] b(1,2) by fastforce+
  ultimately show ?thesis by (auto simp: heap_region_def)
qed

interpretation hpa: allocator heap_inv heap_live heap_region heap_fit malloc_call free_call
proof (unfold_locales, goal_cases)
  case (1 s b c)
  then show ?case by (rule heap_disjoint)
next
  case (2 s r b s')
  obtain x h' where M: "heap_malloc r s = Some (x, h')" "heap_inv h'"
    "\<And>p. x = Some p \<Longrightarrow> p \<notin> heap_live s \<and> heap_live h' = insert p (heap_live s) \<and> heap_fit h' r p"
    "\<And>p. p \<in> heap_live s \<Longrightarrow> heap_region h' p = heap_region s p"
    by (rule malloc_total [OF 2(1), where sz = r]) blast
  then show ?case using 2(2) by (auto simp: malloc_call_def)
next
  case (3 s r s')
  obtain x h' where M: "heap_malloc r s = Some (x, h')" "x = None \<Longrightarrow> h' = s"
    by (rule malloc_total [OF 3(1), where sz = r]) blast
  then show ?case using 3 by (auto simp: malloc_call_def)
next
  case (4 s b)
  obtain h' where "heap_free b s = Some h'" "heap_inv h'" "heap_live h' = heap_live s - {b}"
    "\<And>q. q \<in> heap_live s \<Longrightarrow> q \<noteq> b \<Longrightarrow> heap_region h' q = heap_region s q"
    by (rule free_total [OF 4]) blast
  then show ?case by (simp add: free_call_def)
qed

subsection \<open>Correctness\<close>

lemma header_disjoint:
  assumes i: "heap_inv h" and p: "p \<in> heap_live h" and b: "b \<in> insert (heap_end h) (set (heap_blocks h))"
  shows "header_region b \<inter> heap_region h p = {}"
proof -
  let ?c = "p - 12"
  have c: "?c \<in> set (heap_blocks h)" using p by (simp add: heap_live_iff)
  note C = block_facts [OF i c]
  have up: "unat p = unat ?c + 12" using C(3) by simp
  show ?thesis
  proof (cases "b = ?c \<or> b = heap_end h")
    case True
    then show ?thesis using up C(2) by (auto simp: header_region_def heap_region_def)
  next
    case False
    then have b': "b \<in> set (heap_blocks h)" using b by simp
    have "unat (hnext h ?c) \<le> unat b \<or> unat (hnext h b) \<le> unat ?c" using C(4) [OF b'] False by blast
    moreover have "unat b + 16 \<le> unat (hnext h b)" using block_facts(1) [OF i b'] by (simp add: hblk_def)
    ultimately show ?thesis using up by (auto simp: header_region_def heap_region_def)
  qed
qed

lemma used_mem_sum: "heap_inv h \<Longrightarrow> used_mem h = (\<Sum>p \<in> heap_live h. hnext h (p - SIZEOF_STRUCT_MEM) - (p - SIZEOF_STRUCT_MEM))"
proof -
  assume i: "heap_inv h"
  let ?bl = "heap_blocks h"
  have l: "heap_links ?bl h" using i by (simp add: heap_inv_def heap_rep_def)
  have d: "distinct ?bl" using hseg_distinct [OF heap_linksD(1) [OF l]] by simp
  have "used_mem h = sum (\<lambda>b. if hused h b then hnext h b - b else 0) (set ?bl)"
    using i d by (simp add: heap_inv_def heap_rep_def used_bytes_def sum_list_distinct_conv_sum_set)
  also have "\<dots> = sum (\<lambda>b. hnext h b - b) {b \<in> set ?bl. hused h b}"
    by (subst sum.inter_filter [symmetric]) simp_all
  also have "\<dots> = (\<Sum>p \<in> heap_live h. hnext h (p - 12) - (p - 12))"
    unfolding heap_live_def by (subst sum.reindex) (simp_all add: inj_on_def)
  finally show ?thesis .
qed

text \<open>When nothing is allocated, the heap is one block again.\<close>

lemma empty_one_block:
  assumes i: "heap_inv h" and e: "heap_live h = {}"
  shows "heap_blocks h = [0]"
proof -
  have r: "heap_links (heap_blocks h) h" "holes h (heap_blocks h)" using i by (auto simp: heap_inv_def heap_rep_def)
  have free: "\<not> hused h b" if "b \<in> set (heap_blocks h)" for b using e that by (auto simp: heap_live_def)
  have "0 \<noteq> heap_end h" using heap_linksD(9,10) [OF r(1)] by auto
  then obtain bs where b: "heap_blocks h = 0 # bs"
    using heap_linksD(1) [OF r(1)] by (cases "heap_blocks h") auto
  then show ?thesis using r(2) free by (cases bs) auto
qed

text \<open>C20: whatever sequence of \<open>rt_malloc\<close> and \<open>rt_free\<close> a client makes that frees only what it
  holds, the blocks it holds are distinct and are exactly the allocated ones, their data
  overlaps neither each other nor any block header and stays inside the heap, no call fails
  an assertion or searches for ever, the accounted memory is the sum of the sizes of the
  allocated blocks, and after everything is freed the heap is a single free block.\<close>

theorem heap_blocks_disjoint:
  assumes "heap_inv h" "distinct held" "set held = heap_live h"
    and "client_run malloc_call free_call xs (h, held) = (h', held')"
  shows "heap_inv h' \<and> distinct held' \<and> set held' = heap_live h' \<and>
    (\<forall>i < length held'. \<forall>j < length held'. i \<noteq> j \<longrightarrow> heap_region h' (held' ! i) \<inter> heap_region h' (held' ! j) = {}) \<and>
    (\<forall>p \<in> set held'. heap_region h' p \<subseteq> {12 ..< unat (heap_end h')} \<and>
       (\<forall>b \<in> set (heap_blocks h'). header_region b \<inter> heap_region h' p = {}) \<and> heap_free p h' \<noteq> None) \<and>
    (\<forall>sz. heap_malloc sz h' \<noteq> None) \<and>
    used_mem h' = (\<Sum>p \<in> set held'. hnext h' (p - SIZEOF_STRUCT_MEM) - (p - SIZEOF_STRUCT_MEM)) \<and>
    (held' = [] \<longrightarrow> heap_blocks h' = [0] \<and> used_mem h' = 0)"
proof -
  note H = hpa.run_holds [OF assms]
  have "heap_free p h' \<noteq> None" if "p \<in> set held'" for p
  proof -
    have "heap_inv h'" "p \<in> heap_live h'" using H that by auto
    then show ?thesis by (rule free_total) simp
  qed
  moreover have "heap_malloc sz h' \<noteq> None" for sz
    by (rule malloc_total [of h' sz]) (use H in simp_all)
  moreover have "heap_region h' p \<subseteq> {12 ..< unat (heap_end h')}" if "p \<in> set held'" for p
  proof -
    have c: "p - 12 \<in> set (heap_blocks h')" using H that by (simp add: heap_live_iff)
    show ?thesis using block_facts(2,3) [OF _ c] H by (fastforce simp: heap_region_def)
  qed
  moreover have "used_mem h' = (\<Sum>p \<in> set held'. hnext h' (p - 12) - (p - 12))" using used_mem_sum H by simp
  moreover have "heap_blocks h' = [0]" "used_mem h' = 0" if "held' = []"
    using empty_one_block [of h'] used_mem_sum [of h'] H that by simp_all
  ultimately show ?thesis using H hpa.run_disjoint [OF assms] header_disjoint [of h'] by simp
qed

subsection \<open>A new heap\<close>

lemma heap_init_inv:
  assumes room: "unat (RT_ALIGN b 4) + 36 \<le> unat (RT_ALIGN_DOWN e 4)" and u: "used_mem h = 0"
  defines "h' \<equiv> rt_system_heap_init b e h"
  shows "heap_inv h'" "heap_live h' = {}" "heap_ptr h' = RT_ALIGN b 4" "unat (mem_size_aligned h') = unat (RT_ALIGN_DOWN e 4) - unat (RT_ALIGN b 4) - 24"
proof -
  let ?b = "RT_ALIGN b 4" and ?e = "RT_ALIGN_DOWN e 4"
  let ?sz = "?e - ?b - 24"
  have le: "unat ?e < 2 ^ 32" using unat_less_2p [of ?e] by simp
  have d1: "unat (?e - ?b) = unat ?e - unat ?b" using room by (simp add: unat_sub_if' word_le_nat_alt)
  have usz: "unat ?sz = unat ?e - unat ?b - 24" using room d1 unat_sub_if' [of "?e - ?b" 24] by (simp add: word_le_nat_alt)
  have uend: "unat (?sz + 12) = unat ?e - unat ?b - 12" using room usz le unat_add_small [of ?sz 12] by simp
  have "unat (?e - 24) = unat ?e - 24" using room unat_sub_if' [of ?e 24] by (simp add: word_le_nat_alt)
  then have cond: "?e > 24" "?e - 24 \<ge> ?b" using room by (simp_all add: word_less_nat_alt word_le_nat_alt)
  have nz: "?sz + 12 \<noteq> 0" using uend room by (auto simp flip: unat_eq_0)
  have h': "h' = h\<lparr>heap_ptr := ?b, mem_size_aligned := ?sz, lfree := 0,
      mem_at := (mem_at h)(0 := \<lparr>magic = HEAP_MAGIC, used = 0, mem_next = ?sz + 12, mem_prev = 0\<rparr>,
        ?sz + 12 := \<lparr>magic = HEAP_MAGIC, used = 1, mem_next = ?sz + 12, mem_prev = ?sz + 12\<rparr>)\<rparr>"
    using cond by (simp add: h'_def rt_system_heap_init_def Let_def)
  have e': "heap_end h' = ?sz + 12" by (simp add: h' heap_end_def)
  have m0: "mem_at h' 0 = \<lparr>magic = HEAP_MAGIC, used = 0, mem_next = ?sz + 12, mem_prev = 0\<rparr>"
    "mem_at h' (?sz + 12) = \<lparr>magic = HEAP_MAGIC, used = 1, mem_next = ?sz + 12, mem_prev = ?sz + 12\<rparr>"
    using nz by (simp_all add: h')
  have f': "heap_ptr h' = ?b" "mem_size_aligned h' = ?sz" "lfree h' = 0" "used_mem h' = 0" using u by (simp_all add: h')
  have dv: "4 dvd unat ?b" "4 dvd unat ?e"
    unfolding ALIGN_eq ALIGN_DOWN_eq and_not_mask2 unat_push_drop_2 by simp_all
  have "4 dvd unat ?sz" unfolding usz using dv by (intro dvd_diff_nat) simp_all
  moreover have "hblk h' 0" unfolding hblk_def m0 using uend room by simp
  ultimately have "heap_links [0] h'"
    unfolding heap_links_def e' f' hseg.simps prevs.simps m0 using usz room le dv by simp
  then have rep: "heap_rep [0] h'" unfolding heap_rep_def f' used_bytes_simps m0 by simp
  show "heap_inv h'" "heap_live h' = {}" using heap_repI [OF rep] m0 by (auto simp: heap_live_def)
  show "heap_ptr h' = ?b" "unat (mem_size_aligned h') = unat ?e - unat ?b - 24" using f' usz by simp_all
qed

definition ex_region :: heap where
  "ex_region = \<lparr>heap_ptr = 0, mem_size_aligned = 0, mem_at = (\<lambda>_. \<lparr>magic = 0, used = 0, mem_next = 0, mem_prev = 0\<rparr>),
     heap_bytes = (\<lambda>_. 0), lfree = 0, used_mem = 0, max_mem = 0\<rparr>"

definition heap_example :: heap where
  "heap_example = rt_system_heap_init 0x20000001 0x20001000 ex_region"

lemma heap_example_inv: "heap_inv heap_example" "heap_live heap_example = {}" "heap_ptr heap_example = 0x20000004"
  "unat (mem_size_aligned heap_example) = 4068"
proof -
  have a: "RT_ALIGN (0x20000001 :: u32) 4 = 0x20000004" "RT_ALIGN_DOWN (0x20001000 :: u32) 4 = 0x20001000"
    by (simp_all add: RT_ALIGN_def RT_ALIGN_DOWN_def)
  note I = heap_init_inv [of "0x20000001" "0x20001000" ex_region, unfolded a]
  show "heap_inv heap_example" "heap_live heap_example = {}" "heap_ptr heap_example = 0x20000004"
    "unat (mem_size_aligned heap_example) = 4068"
    using I unfolding heap_example_def by (simp_all add: ex_region_def)
qed

theorem heap_blocks_disjoint_witness:
  "\<exists>h' held'. client_run malloc_call free_call [Alloc 100, Alloc 5, Free 1, Alloc 64] (heap_example, []) = (h', held') \<and>
     heap_inv h' \<and> distinct held' \<and> set held' = heap_live h'"
proof -
  obtain h' held' where r: "client_run malloc_call free_call [Alloc 100, Alloc 5, Free 1, Alloc 64] (heap_example, []) = (h', held')"
    by fastforce
  show ?thesis using heap_blocks_disjoint [OF heap_example_inv(1) _ _ r] heap_example_inv(2) r by simp
qed

end
