(* ===== verification/Memory_Ops.thy ===== *)
theory Memory_Ops
  imports Prelude
begin

text \<open>
  The memory functions of \<open>src/kservice.c\<close> on a memory of bytes with 32 bit addresses, little endian.
  \<open>rt_memset\<close> and \<open>rt_memcpy\<close> work on words where the alignment allows it; the theory shows that they
  are the bytewise definitions \<open>mem_fill\<close> and \<open>mem_copy\<close>, and that \<open>rt_memmove\<close> copies overlapping
  areas as if through a buffer.
\<close>

type_synonym mem = "u32 \<Rightarrow> u8"

subsection \<open>Operations\<close>

text \<open>Access to a word: \<open>*(unsigned long *)a\<close>.\<close>

definition load32 :: "u32 \<Rightarrow> mem \<Rightarrow> u32" where
  "load32 a m = ucast (m a) OR push_bit 8 (ucast (m (a + 1))) OR push_bit 16 (ucast (m (a + 2))) OR
     push_bit 24 (ucast (m (a + 3)))"

definition store32 :: "u32 \<Rightarrow> u32 \<Rightarrow> mem \<Rightarrow> mem" where
  "store32 a w m = m(a := ucast w, a + 1 := ucast (drop_bit 8 w), a + 2 := ucast (drop_bit 16 w), a + 3 := ucast (drop_bit 24 w))"

text \<open>The three loops of \<open>rt_memset\<close>.\<close>

function memset_quads :: "u32 \<Rightarrow> u32 \<Rightarrow> u32 \<Rightarrow> mem \<Rightarrow> u32 \<times> u32 \<times> mem" where
  "memset_quads buf a count m =
     (if 16 \<le> count
      then memset_quads buf (a + 16) (count - 16)
        (store32 (a + 12) buf (store32 (a + 8) buf (store32 (a + 4) buf (store32 a buf m))))
      else (a, count, m))"
  by pat_completeness auto
termination by (relation "measure (\<lambda>(_, _, count, _). unat count)") (auto simp: word_le_nat_alt unat_sub)

function memset_words :: "u32 \<Rightarrow> u32 \<Rightarrow> u32 \<Rightarrow> mem \<Rightarrow> u32 \<times> u32 \<times> mem" where
  "memset_words buf a count m =
     (if 4 \<le> count then memset_words buf (a + 4) (count - 4) (store32 a buf m) else (a, count, m))"
  by pat_completeness auto
termination by (relation "measure (\<lambda>(_, _, count, _). unat count)") (auto simp: word_le_nat_alt unat_sub)

function memset_bytes :: "u8 \<Rightarrow> u32 \<Rightarrow> u32 \<Rightarrow> mem \<Rightarrow> mem" where
  "memset_bytes d a count m = (if count = 0 then m else memset_bytes d (a + 1) (count - 1) (m(a := d)))"
  by pat_completeness auto
termination by (relation "measure (\<lambda>(_, _, count, _). unat count)") (auto simp: unat_minus_one unat_gt_0)

definition rt_memset :: "u32 \<Rightarrow> u32 \<Rightarrow> u32 \<Rightarrow> mem \<Rightarrow> mem" where
  "rt_memset s c count m =
     (let d = c AND 0xff in
      if \<not> count < 4 \<and> s AND 3 = 0
      then let buf = push_bit 8 d OR d;
               buf = buf OR push_bit 16 buf;
               (a1, count1, m1) = memset_quads buf s count m;
               (a2, count2, m2) = memset_words buf a1 count1 m1
           in memset_bytes (ucast d) a2 count2 m2
      else memset_bytes (ucast d) s count m)"

text \<open>The three loops of \<open>rt_memcpy\<close>. The signed \<open>len\<close> is compared with unsigned sizes.\<close>

definition copy32 :: "u32 \<Rightarrow> u32 \<Rightarrow> mem \<Rightarrow> mem" where
  "copy32 dst src m = store32 dst (load32 src m) m"

function memcpy_quads :: "u32 \<Rightarrow> u32 \<Rightarrow> u32 \<Rightarrow> mem \<Rightarrow> u32 \<times> u32 \<times> u32 \<times> mem" where
  "memcpy_quads dst src len m =
     (if 16 \<le> len
      then memcpy_quads (dst + 16) (src + 16) (len - 16)
        (copy32 (dst + 12) (src + 12) (copy32 (dst + 8) (src + 8) (copy32 (dst + 4) (src + 4) (copy32 dst src m))))
      else (dst, src, len, m))"
  by pat_completeness auto
termination by (relation "measure (\<lambda>(_, _, len, _). unat len)") (auto simp: word_le_nat_alt unat_sub)

function memcpy_words :: "u32 \<Rightarrow> u32 \<Rightarrow> u32 \<Rightarrow> mem \<Rightarrow> u32 \<times> u32 \<times> u32 \<times> mem" where
  "memcpy_words dst src len m =
     (if 4 \<le> len then memcpy_words (dst + 4) (src + 4) (len - 4) (copy32 dst src m) else (dst, src, len, m))"
  by pat_completeness auto
termination by (relation "measure (\<lambda>(_, _, len, _). unat len)") (auto simp: word_le_nat_alt unat_sub)

function memcpy_bytes :: "u32 \<Rightarrow> u32 \<Rightarrow> u32 \<Rightarrow> mem \<Rightarrow> mem" where
  "memcpy_bytes dst src len m =
     (if len = 0 then m else memcpy_bytes (dst + 1) (src + 1) (len - 1) (m(dst := m src)))"
  by pat_completeness auto
termination by (relation "measure (\<lambda>(_, _, len, _). unat len)") (auto simp: unat_minus_one unat_gt_0)

definition rt_memcpy :: "u32 \<Rightarrow> u32 \<Rightarrow> u32 \<Rightarrow> mem \<Rightarrow> mem" where
  "rt_memcpy dst src count m =
     (if \<not> count < 16 \<and> (src AND 3) OR (dst AND 3) = 0
      then let (d1, s1, l1, m1) = memcpy_quads dst src count m;
               (d2, s2, l2, m2) = memcpy_words d1 s1 l1 m1
           in memcpy_bytes d2 s2 l2 m2
      else memcpy_bytes dst src count m)"

text \<open>The loop of \<open>rt_memmove\<close> that goes from the end to the start.\<close>

function memmove_down :: "u32 \<Rightarrow> u32 \<Rightarrow> u32 \<Rightarrow> mem \<Rightarrow> mem" where
  "memmove_down tmp s n m =
     (if n = 0 then m else memmove_down (tmp - 1) (s - 1) (n - 1) (m(tmp - 1 := m (s - 1))))"
  by pat_completeness auto
termination by (relation "measure (\<lambda>(_, _, n, _). unat n)") (auto simp: unat_minus_one unat_gt_0)

definition rt_memmove :: "u32 \<Rightarrow> u32 \<Rightarrow> u32 \<Rightarrow> mem \<Rightarrow> mem" where
  "rt_memmove dest src n m =
     (if src < dest \<and> dest < src + n then memmove_down (dest + n) (src + n) n m else memcpy_bytes dest src n m)"

function rt_memcmp :: "u32 \<Rightarrow> u32 \<Rightarrow> u32 \<Rightarrow> mem \<Rightarrow> int" where
  "rt_memcmp cs ct count m =
     (if 0 < count
      then let res = uint (m cs) - uint (m ct) in if res \<noteq> 0 then res else rt_memcmp (cs + 1) (ct + 1) (count - 1) m
      else 0)"
  by pat_completeness auto
termination by (relation "measure (\<lambda>(_, _, count, _). unat count)") (auto simp: unat_minus_one unat_gt_0)

declare memset_quads.simps [simp del] memset_words.simps [simp del] memset_bytes.simps [simp del]
  memcpy_quads.simps [simp del] memcpy_words.simps [simp del] memcpy_bytes.simps [simp del]
  memmove_down.simps [simp del] rt_memcmp.simps [simp del]

subsection \<open>Bytewise definitions\<close>

definition mem_fill :: "u32 \<Rightarrow> u32 \<Rightarrow> u8 \<Rightarrow> mem \<Rightarrow> mem" where
  "mem_fill a n d m = (\<lambda>x. if x - a < n then d else m x)"

definition mem_copy :: "u32 \<Rightarrow> u32 \<Rightarrow> u32 \<Rightarrow> mem \<Rightarrow> mem" where
  "mem_copy dst src n m = (\<lambda>x. if x - dst < n then m (src + (x - dst)) else m x)"

lemma mem_fill_0 [simp]: "mem_fill a 0 d m = m" "mem_copy dst src 0 m = m"
  by (simp_all add: mem_fill_def mem_copy_def)

lemma split_area:
  assumes "unat (j :: u32) + unat k < 2 ^ 32"
  shows "y < j + k \<longleftrightarrow> y < j \<or> y - j < k"
proof (cases "y < j")
  case True
  then show ?thesis using assms by (simp add: word_less_nat_alt unat_add_small)
next
  case False
  then have "unat (y - j) = unat y - unat j" "unat j \<le> unat y" by (simp_all add: unat_sub word_le_nat_alt not_less)
  then show ?thesis using assms False by (simp add: word_less_nat_alt unat_add_small) linarith
qed

lemma unat_sub_wrap: "(y :: u32) < d \<Longrightarrow> unat (y - d) = 2 ^ 32 + unat y - unat d"
  by (simp add: unat_sub_if' word_less_nat_alt)

lemma mem_fill_fill:
  assumes "unat j + unat k < 2 ^ 32"
  shows "mem_fill (a + j) k d (mem_fill a j d m) = mem_fill a (j + k) d m"
proof
  fix x
  have e: "x - (a + j) = (x - a) - j" by (simp add: algebra_simps)
  show "mem_fill (a + j) k d (mem_fill a j d m) x = mem_fill a (j + k) d m x"
    unfolding mem_fill_def e split_area [OF assms] by simp
qed

text \<open>Copying in pieces is right when a piece that was written is not read afterwards.\<close>

definition forward_ok :: "u32 \<Rightarrow> u32 \<Rightarrow> u32 \<Rightarrow> bool" where
  "forward_ok dst src n \<longleftrightarrow> dst = src \<or> n \<le> dst - src"

lemma mem_copy_copy:
  assumes "unat j + unat k < 2 ^ 32" and f: "forward_ok dst src (j + k)"
  shows "mem_copy (dst + j) (src + j) k (mem_copy dst src j m) = mem_copy dst src (j + k) m"
proof
  fix x
  let ?y = "x - dst"
  have y: "x - (dst + j) = ?y - j" "src + j + (?y - j) = src + ?y" "src + ?y - dst = ?y - (dst - src)" by (simp_all add: algebra_simps)
  have n: "\<not> ?y < j" if "?y - j < k"
    using unat_sub_wrap [of ?y j] that assms(1) by (auto simp: word_less_nat_alt)
  have "\<not> ?y - (dst - src) < j" if "?y - j < k"
  proof (cases "dst = src")
    case True
    then show ?thesis using n [OF that] by simp
  next
    case False
    then have le: "j + k \<le> dst - src" using f by (simp add: forward_ok_def)
    have lt: "?y < j + k" using split_area [OF assms(1), of ?y] that by simp
    then have "?y < dst - src" using le by simp
    then have "unat (?y - (dst - src)) = 2 ^ 32 + unat ?y - unat (dst - src)" by (rule unat_sub_wrap)
    then show ?thesis using n [OF that] unat_less_2p [of "dst - src"] by (simp add: word_less_nat_alt)
  qed
  then show "mem_copy (dst + j) (src + j) k (mem_copy dst src j m) x = mem_copy dst src (j + k) m x"
    unfolding mem_copy_def y split_area [OF assms(1)] using n by simp
qed

subsection \<open>The word loops\<close>

lemma word4_cases:
  assumes "(x :: u32) < 4"
  obtains "x = 0" | "x = 1" | "x = 2" | "x = 3"
proof -
  have "unat x < 4" using assms by (simp add: word_less_nat_alt)
  then consider "unat x = 0" | "unat x = 1" | "unat x = 2" | "unat x = 3" by linarith
  note c = this
  have e: "x = y" if "unat x = unat y" for y using that by (simp add: word_eq_iff_unsigned [where 'a = nat])
  from c show thesis
  proof cases
    case 1
    then show thesis by (intro that(1) e) simp
  next
    case 2
    then show thesis by (intro that(2) e) simp
  next
    case 3
    then show thesis by (intro that(3) e) simp
  next
    case 4
    then show thesis by (intro that(4) e) simp
  qed
qed

lemma store_bytes:
  assumes "ucast w = d" "ucast (drop_bit 8 w) = d" "ucast (drop_bit 16 w) = d" "ucast (drop_bit 24 w) = d"
  shows "store32 a w m = mem_fill a 4 d m"
proof
  fix x
  show "store32 a w m x = mem_fill a 4 d m x"
  proof (cases "x - a < 4")
    case True
    then have "x = a \<or> x = a + 1 \<or> x = a + 2 \<or> x = a + 3"
      by (rule word4_cases) (auto simp: algebra_simps)
    then show ?thesis using True by (auto simp: store32_def mem_fill_def assms)
  next
    case False
    then have "x \<noteq> a \<and> x \<noteq> a + 1 \<and> x \<noteq> a + 2 \<and> x \<noteq> a + 3" by auto
    then show ?thesis using False by (simp add: store32_def mem_fill_def)
  qed
qed

definition rep4 :: "u32 \<Rightarrow> u32" where
  "rep4 d = (let buf = push_bit 8 d OR d in buf OR push_bit 16 buf)"

lemma store_rep4: "store32 a (rep4 (c AND 0xff)) m = mem_fill a 4 (ucast c) m"
proof -
  have m: "(0xff :: u32) = mask 8" by (simp add: mask_eq_exp_minus_1)
  show ?thesis
    unfolding m rep4_def Let_def
    by (rule store_bytes) (rule bit_word_eqI; auto simp: bit_simps dest: bit_imp_le_length)+
qed

lemma copy32_eq: "copy32 dst src m = mem_copy dst src 4 m"
proof
  fix x
  let ?w = "load32 src m"
  have b: "ucast ?w = m src" "ucast (drop_bit 8 ?w) = m (src + 1)" "ucast (drop_bit 16 ?w) = m (src + 2)" "ucast (drop_bit 24 ?w) = m (src + 3)"
    unfolding load32_def by (rule bit_word_eqI; auto simp: bit_simps dest: bit_imp_le_length)+
  show "copy32 dst src m x = mem_copy dst src 4 m x"
  proof (cases "x - dst < 4")
    case True
    then have "x = dst \<or> x = dst + 1 \<or> x = dst + 2 \<or> x = dst + 3"
      by (rule word4_cases) (auto simp: algebra_simps)
    then show ?thesis using True by (auto simp: copy32_def store32_def mem_copy_def b)
  next
    case False
    then have "x \<noteq> dst \<and> x \<noteq> dst + 1 \<and> x \<noteq> dst + 2 \<and> x \<noteq> dst + 3" by auto
    then show ?thesis using False by (simp add: copy32_def store32_def mem_copy_def)
  qed
qed

lemma sub_less: "(k :: u32) \<le> n \<Longrightarrow> unat k + unat (n - k) < 2 ^ 32"
  using unat_less_2p [of n] by (simp add: unat_sub word_le_nat_alt)

lemma fill_rest: "k \<le> n \<Longrightarrow> mem_fill (a + k) (n - k) d (mem_fill a k d m) = mem_fill a n d m"
  using mem_fill_fill [OF sub_less] by simp

lemma memset_quads_eq:
  "\<exists>k. k \<le> count \<and> memset_quads (rep4 (c AND 0xff)) a count m = (a + k, count - k, mem_fill a k (ucast c) m)"
proof (induction "rep4 (c AND 0xff)" a count m rule: memset_quads.induct)
  case (1 a count m)
  let ?b = "rep4 (c AND 0xff)"
  show ?case
  proof (cases "16 \<le> count")
    case True
    have f: "store32 (a + 12) ?b (store32 (a + 8) ?b (store32 (a + 4) ?b (store32 a ?b m))) = mem_fill a 16 (ucast c) m"
      using mem_fill_fill [of 4 4 a] mem_fill_fill [of 8 4 a] mem_fill_fill [of 12 4 a] by (simp add: store_rep4)
    obtain k where k: "k \<le> count - 16" "memset_quads ?b (a + 16) (count - 16) (mem_fill a 16 (ucast c) m) =
        (a + 16 + k, count - 16 - k, mem_fill (a + 16) k (ucast c) (mem_fill a 16 (ucast c) m))"
      using 1 [OF True] unfolding f by blast
    have u: "unat (count - 16) = unat count - 16" "16 \<le> unat count" using True by (simp_all add: unat_sub word_le_nat_alt)
    then have s: "unat (16 :: u32) + unat k < 2 ^ 32" and le: "16 + k \<le> count"
      using k(1) unat_less_2p [of count] unat_add_small [of 16 k] by (simp_all add: word_le_nat_alt)
    have "memset_quads ?b a count m = (a + (16 + k), count - (16 + k), mem_fill a (16 + k) (ucast c) m)"
      by (subst memset_quads.simps)
        (use True k(2) mem_fill_fill [OF s, of a "ucast c" m] f in \<open>simp add: algebra_simps\<close>)
    then show ?thesis using le by blast
  next
    case False
    then show ?thesis by (intro exI [of _ 0]) (subst memset_quads.simps, simp)
  qed
qed

lemma memset_words_eq:
  "\<exists>k. k \<le> count \<and> memset_words (rep4 (c AND 0xff)) a count m = (a + k, count - k, mem_fill a k (ucast c) m)"
proof (induction "rep4 (c AND 0xff)" a count m rule: memset_words.induct)
  case (1 a count m)
  let ?b = "rep4 (c AND 0xff)"
  show ?case
  proof (cases "4 \<le> count")
    case True
    obtain k where k: "k \<le> count - 4" "memset_words ?b (a + 4) (count - 4) (mem_fill a 4 (ucast c) m) =
        (a + 4 + k, count - 4 - k, mem_fill (a + 4) k (ucast c) (mem_fill a 4 (ucast c) m))"
      using 1 [OF True] unfolding store_rep4 by blast
    have u: "unat (count - 4) = unat count - 4" "4 \<le> unat count" using True by (simp_all add: unat_sub word_le_nat_alt)
    then have s: "unat (4 :: u32) + unat k < 2 ^ 32" and le: "4 + k \<le> count"
      using k(1) unat_less_2p [of count] unat_add_small [of 4 k] by (simp_all add: word_le_nat_alt)
    have "memset_words ?b a count m = (a + (4 + k), count - (4 + k), mem_fill a (4 + k) (ucast c) m)"
      by (subst memset_words.simps)
        (use True k(2) mem_fill_fill [OF s, of a "ucast c" m] in \<open>simp add: store_rep4 algebra_simps\<close>)
    then show ?thesis using le by blast
  next
    case False
    then show ?thesis by (intro exI [of _ 0]) (subst memset_words.simps, simp)
  qed
qed

lemma upd_fill: "m(a := d) = mem_fill a 1 d m"
  by (auto simp: mem_fill_def word_less_1)

lemma memset_bytes_eq: "memset_bytes d a count m = mem_fill a count d m"
proof (induction d a count m rule: memset_bytes.induct)
  case (1 d a count m)
  show ?case
  proof (cases "count = 0")
    case False
    then have "1 \<le> count" by (simp add: word_le_nat_alt unat_gt_0 Suc_le_eq)
    then show ?thesis
      using 1 [OF False] False fill_rest [of 1 count a d m] by (subst memset_bytes.simps) (simp add: upd_fill)
  qed (subst memset_bytes.simps, simp)
qed

lemma low_byte: "ucast ((c :: u32) AND 0xff) = (ucast c :: u8)"
proof -
  have m: "(0xff :: u32) = mask 8" by (simp add: mask_eq_exp_minus_1)
  show ?thesis unfolding m by (rule bit_word_eqI) (auto simp: bit_simps)
qed

lemma memset_eq: "rt_memset s c count m = mem_fill s count (ucast c) m"
proof (cases "\<not> count < 4 \<and> s AND 3 = 0")
  case True
  obtain k where k: "k \<le> count" "memset_quads (rep4 (c AND 0xff)) s count m = (s + k, count - k, mem_fill s k (ucast c) m)"
    using memset_quads_eq by blast
  obtain l where l: "l \<le> count - k" "memset_words (rep4 (c AND 0xff)) (s + k) (count - k) (mem_fill s k (ucast c) m) =
      (s + k + l, count - k - l, mem_fill (s + k) l (ucast c) (mem_fill s k (ucast c) m))"
    using memset_words_eq by blast
  show ?thesis
    using True k(2) l(2) fill_rest [OF l(1), of "s + k" "ucast c" "mem_fill s k (ucast c) m"] fill_rest [OF k(1), of s "ucast c" m]
    by (simp add: rt_memset_def Let_def low_byte memset_bytes_eq rep4_def)
next
  case False
  show ?thesis using False by (auto simp: rt_memset_def Let_def memset_bytes_eq low_byte)
qed

text \<open>\<open>rt_memset\<close>, which writes words of four equal bytes where the address is aligned, fills
  exactly the bytes of the area with the low byte of the value, for every address, value and
  length, and touches no other byte.\<close>

lemma memset_equiv: "rt_memset s c count m = mem_fill s count (ucast c) m"
  by (rule memset_eq)

subsection \<open>Copying\<close>

lemma forward_ok_less: "forward_ok dst src n \<Longrightarrow> k \<le> n \<Longrightarrow> forward_ok dst src k"
  by (auto simp: forward_ok_def)

lemma forward_ok_shift: "forward_ok (dst + a) (src + a) n = forward_ok dst src n"
  by (simp add: forward_ok_def)

lemma copy_rest:
  assumes "k \<le> n" "forward_ok dst src n"
  shows "mem_copy (dst + k) (src + k) (n - k) (mem_copy dst src k m) = mem_copy dst src n m"
  using mem_copy_copy [OF sub_less [OF assms(1)]] assms by simp

text \<open>One pass of a loop that copies a block of \<open>b\<close> bytes, and the rest of the loop.\<close>

lemma copy_loop_step:
  assumes b: "b \<le> len" and k: "k \<le> len - b" and f: "forward_ok dst src len"
  shows "b + k \<le> len" "mem_copy (dst + b) (src + b) k (mem_copy dst src b m) = mem_copy dst src (b + k) m"
    "forward_ok (dst + b) (src + b) (len - b)"
proof -
  have u: "unat (len - b) = unat len - unat b" "unat b \<le> unat len" using b by (simp_all add: unat_sub word_le_nat_alt)
  then have s: "unat b + unat k < 2 ^ 32" using k unat_less_2p [of len] by (simp add: word_le_nat_alt)
  then show le: "b + k \<le> len" using k u by (simp add: word_le_nat_alt unat_add_small)
  show "mem_copy (dst + b) (src + b) k (mem_copy dst src b m) = mem_copy dst src (b + k) m"
    by (rule mem_copy_copy [OF s forward_ok_less [OF f le]])
  have "len - b \<le> len" using u by (simp add: word_le_nat_alt)
  then show "forward_ok (dst + b) (src + b) (len - b)" unfolding forward_ok_shift by (rule forward_ok_less [OF f])
qed

lemma memcpy_words_eq:
  "forward_ok dst src len \<Longrightarrow>
   \<exists>k. k \<le> len \<and> memcpy_words dst src len m = (dst + k, src + k, len - k, mem_copy dst src k m)"
proof (induction dst src len m rule: memcpy_words.induct)
  case (1 dst src len m)
  show ?case
  proof (cases "4 \<le> len")
    case True
    have f': "forward_ok (dst + 4) (src + 4) (len - 4)" by (rule copy_loop_step(3) [OF True _ 1(2), of 0]) simp
    obtain k where k: "k \<le> len - 4" "memcpy_words (dst + 4) (src + 4) (len - 4) (copy32 dst src m) =
        (dst + 4 + k, src + 4 + k, len - 4 - k, mem_copy (dst + 4) (src + 4) k (copy32 dst src m))"
      using 1(1) [OF True f'] by blast
    note S = copy_loop_step [OF True k(1) 1(2)]
    have "memcpy_words dst src len m = (dst + (4 + k), src + (4 + k), len - (4 + k), mem_copy dst src (4 + k) m)"
      by (subst memcpy_words.simps) (use True k(2) S(2) [of m] in \<open>simp add: copy32_eq algebra_simps\<close>)
    then show ?thesis using S(1) by blast
  next
    case False
    then show ?thesis by (intro exI [of _ 0]) (subst memcpy_words.simps, simp)
  qed
qed

lemma quad_copy:
  assumes "16 \<le> len" "forward_ok dst src len"
  shows "copy32 (dst + 12) (src + 12) (copy32 (dst + 8) (src + 8) (copy32 (dst + 4) (src + 4) (copy32 dst src m))) =
     mem_copy dst src 16 m"
proof -
  have "forward_ok dst src n" if "n \<le> 16" for n using assms that forward_ok_less by (metis order_trans)
  then show ?thesis
    using mem_copy_copy [of 4 4 dst src] mem_copy_copy [of 8 4 dst src] mem_copy_copy [of 12 4 dst src] by (simp add: copy32_eq)
qed

lemma memcpy_quads_eq:
  "forward_ok dst src len \<Longrightarrow>
   \<exists>k. k \<le> len \<and> memcpy_quads dst src len m = (dst + k, src + k, len - k, mem_copy dst src k m)"
proof (induction dst src len m rule: memcpy_quads.induct)
  case (1 dst src len m)
  show ?case
  proof (cases "16 \<le> len")
    case True
    have f': "forward_ok (dst + 16) (src + 16) (len - 16)" by (rule copy_loop_step(3) [OF True _ 1(2), of 0]) simp
    obtain k where k: "k \<le> len - 16" "memcpy_quads (dst + 16) (src + 16) (len - 16) (mem_copy dst src 16 m) =
        (dst + 16 + k, src + 16 + k, len - 16 - k, mem_copy (dst + 16) (src + 16) k (mem_copy dst src 16 m))"
      using 1(1) [OF True f'] unfolding quad_copy [OF True 1(2)] by blast
    note S = copy_loop_step [OF True k(1) 1(2)]
    have "memcpy_quads dst src len m = (dst + (16 + k), src + (16 + k), len - (16 + k), mem_copy dst src (16 + k) m)"
      by (subst memcpy_quads.simps) (use True k(2) S(2) [of m] quad_copy [OF True 1(2), of m] in \<open>simp add: algebra_simps\<close>)
    then show ?thesis using S(1) by blast
  next
    case False
    then show ?thesis by (intro exI [of _ 0]) (subst memcpy_quads.simps, simp)
  qed
qed

lemma upd_copy: "m(dst := m src) = mem_copy dst src 1 m"
  by (auto simp: mem_copy_def word_less_1)

lemma memcpy_bytes_eq: "forward_ok dst src len \<Longrightarrow> memcpy_bytes dst src len m = mem_copy dst src len m"
proof (induction dst src len m rule: memcpy_bytes.induct)
  case (1 dst src len m)
  show ?case
  proof (cases "len = 0")
    case False
    then have le: "1 \<le> len" by (simp add: word_le_nat_alt unat_gt_0 Suc_le_eq)
    note S = copy_loop_step [OF le order_refl 1(2)]
    show ?thesis
      using 1(1) [OF False S(3)] False S(2) [of m] by (subst memcpy_bytes.simps) (simp add: upd_copy)
  qed (subst memcpy_bytes.simps, simp)
qed

lemma memcpy_eq:
  assumes "forward_ok dst src count"
  shows "rt_memcpy dst src count m = mem_copy dst src count m"
proof (cases "\<not> count < 16 \<and> (src AND 3) OR (dst AND 3) = 0")
  case True
  obtain k where k: "k \<le> count" "memcpy_quads dst src count m = (dst + k, src + k, count - k, mem_copy dst src k m)"
    using memcpy_quads_eq [OF assms] by blast
  have f: "forward_ok (dst + k) (src + k) (count - k)" by (rule copy_loop_step(3) [OF k(1) _ assms, of 0]) simp
  obtain l where l: "l \<le> count - k" "memcpy_words (dst + k) (src + k) (count - k) (mem_copy dst src k m) =
      (dst + k + l, src + k + l, count - k - l, mem_copy (dst + k) (src + k) l (mem_copy dst src k m))"
    using memcpy_words_eq [OF f] by blast
  have g: "forward_ok (dst + k + l) (src + k + l) (count - k - l)" by (rule copy_loop_step(3) [OF l(1) _ f, of 0]) simp
  show ?thesis
    using True k(2) l(2) copy_rest [OF l(1) f, of "mem_copy dst src k m"] copy_rest [OF k(1) assms, of m]
    by (simp add: rt_memcpy_def memcpy_bytes_eq [OF g])
next
  case False
  then show ?thesis using memcpy_bytes_eq [OF assms] by (auto simp: rt_memcpy_def)
qed

definition backward_ok :: "u32 \<Rightarrow> u32 \<Rightarrow> u32 \<Rightarrow> bool" where
  "backward_ok dst src n \<longleftrightarrow> dst = src \<or> n \<le> src - dst"

lemma less_pred: "0 < (n :: u32) \<Longrightarrow> y < n \<longleftrightarrow> y < n - 1 \<or> y = n - 1"
  by (simp add: word_less_nat_alt unat_minus_one word_eq_iff_unsigned [where 'a = nat]) linarith

lemma memmove_down_eq:
  "backward_ok dst src n \<Longrightarrow> memmove_down (dst + n) (src + n) n m = mem_copy dst src n m"
proof (induction "unat n" arbitrary: n m)
  case 0
  then show ?case by (subst memmove_down.simps) (simp add: unat_eq_0)
next
  case (Suc l)
  then have n: "0 < n" "n \<noteq> 0" by (auto simp: word_less_nat_alt)
  have l: "l = unat (n - 1)" using Suc(2) n by (simp add: unat_minus_one)
  let ?m = "m(dst + n - 1 := m (src + n - 1))"
  have "n - 1 \<le> n" using n by (simp add: word_le_nat_alt unat_minus_one)
  then have b: "backward_ok dst src (n - 1)" using Suc.prems by (auto simp: backward_ok_def)
  have ih: "memmove_down (dst + n - 1) (src + n - 1) (n - 1) ?m = mem_copy dst src (n - 1) ?m"
    using Suc.hyps(1) [OF l b, of ?m] by (simp add: algebra_simps)
  have ne: "src + y \<noteq> dst + n - 1" if "y < n - 1" for y
  proof
    assume "src + y = dst + n - 1"
    then have e: "src - dst = n - 1 - y" by (simp add: algebra_simps)
    have "n - 1 - y < n" "n - 1 - y \<noteq> 0"
      using that n by (auto simp: word_less_nat_alt unat_minus_one unat_sub word_le_nat_alt)
    then show False using Suc.prems e by (auto simp: backward_ok_def)
  qed
  have "mem_copy dst src (n - 1) ?m = mem_copy dst src n m"
  proof
    fix x
    have x: "x = dst + n - 1 \<longleftrightarrow> x - dst = n - 1" "src + (n - 1) = src + n - 1" by (auto simp: algebra_simps)
    show "mem_copy dst src (n - 1) ?m x = mem_copy dst src n m x"
      unfolding mem_copy_def less_pred [OF n(1)] fun_upd_apply x(1) x(2) [symmetric] using ne [of "x - dst"]
      by (auto simp: x(2))
  qed
  then show ?case using n ih by (subst memmove_down.simps) simp
qed

text \<open>Areas of which the first lies below the start of the second, or above its end.\<close>

lemma forward_okI:
  assumes "unat src + unat n < 2 ^ 32" "unat dest \<le> unat src \<or> unat src + unat n \<le> unat dest"
  shows "forward_ok dest src n"
proof -
  have "dest = src \<or> dest < src \<or> unat src + unat n \<le> unat dest"
    using assms(2) by (auto simp: word_less_nat_alt word_eq_iff_unsigned [where 'a = nat])
  then consider "dest = src" | "dest < src" | "unat src + unat n \<le> unat dest" by blast
  then show ?thesis
  proof cases
    case 2
    then have "unat (dest - src) = 2 ^ 32 + unat dest - unat src" by (rule unat_sub_wrap)
    then have "unat n \<le> unat (dest - src)" using assms by linarith
    then show ?thesis by (simp add: forward_ok_def word_le_nat_alt)
  next
    case 3
    then have "unat (dest - src) = unat dest - unat src" by (simp add: unat_sub word_le_nat_alt)
    then have "unat n \<le> unat (dest - src)" using 3 by simp
    then show ?thesis by (simp add: forward_ok_def word_le_nat_alt)
  qed (simp add: forward_ok_def)
qed

text \<open>C19: \<open>rt_memmove\<close> copies as if through a buffer: every byte of the destination gets what the
  source held before, also when the areas overlap, and no other byte changes. \<open>rt_memcpy\<close>, which
  copies words where the alignment allows it, does the same when the destination does not start
  inside the source. The areas lie below the top of the address space.\<close>

theorem memmove_equiv:
  assumes "unat src + unat n < 2 ^ 32" "unat dest + unat n < 2 ^ 32"
  shows "rt_memmove dest src n m = mem_copy dest src n m \<and>
    (dest \<le> src \<or> src + n \<le> dest \<longrightarrow> rt_memcpy dest src n m = mem_copy dest src n m)"
proof -
  have f: "forward_ok dest src n" if "dest \<le> src \<or> src + n \<le> dest"
    by (rule forward_okI) (use assms that in \<open>auto simp: word_le_nat_alt unat_add_small\<close>)
  have "rt_memmove dest src n m = mem_copy dest src n m"
  proof (cases "src < dest \<and> dest < src + n")
    case True
    then have "unat (src - dest) = 2 ^ 32 + unat src - unat dest" by (intro unat_sub_wrap) simp
    then have "unat n \<le> unat (src - dest)" using assms by linarith
    then have "backward_ok dest src n" by (simp add: backward_ok_def word_le_nat_alt)
    then show ?thesis using True by (simp add: rt_memmove_def memmove_down_eq)
  next
    case False
    then have "forward_ok dest src n" using f by (simp add: not_less disj_commute)
    then show ?thesis using False by (auto simp: rt_memmove_def memcpy_bytes_eq)
  qed
  then show ?thesis using f memcpy_eq by blast
qed

theorem memmove_equiv_witness:
  "rt_memmove 0x102 0x100 4 (\<lambda>a. ucast a) = mem_copy 0x102 0x100 4 (\<lambda>a. ucast a) \<and>
   rt_memmove 0x102 0x100 4 (\<lambda>a. ucast a) 0x105 = 3"
  using memmove_equiv [of "0x100" 4 "0x102" "\<lambda>a. ucast a"] by (simp add: mem_copy_def)

subsection \<open>Comparing\<close>

text \<open>The bytes from an address on.\<close>

definition bytes :: "u32 \<Rightarrow> nat \<Rightarrow> mem \<Rightarrow> u8 list" where
  "bytes a n m = map (\<lambda>i. m (a + of_nat i)) [0..<n]"

lemma bytes_Suc: "bytes a (Suc n) m = m a # bytes (a + 1) n m"
  unfolding bytes_def by (simp add: upt_conv_Cons map_Suc_upt [symmetric] comp_def add.assoc del: upt_Suc)

text \<open>The difference of the first bytes that differ.\<close>

fun first_diff :: "u8 list \<Rightarrow> u8 list \<Rightarrow> int" where
  "first_diff (x # xs) (y # ys) = (if x = y then first_diff xs ys else uint x - uint y)"
| "first_diff _ _ = 0"

lemma uint_eq [simp]: "uint (x :: u8) = uint y \<longleftrightarrow> x = y"
  by (simp add: word_eq_iff_unsigned [where 'a = int])

lemma first_diff_0: "length xs = length ys \<Longrightarrow> first_diff xs ys = 0 \<longleftrightarrow> xs = ys"
  by (induction xs ys rule: first_diff.induct) auto

lemma memcmp_eq: "rt_memcmp cs ct count m = first_diff (bytes cs (unat count) m) (bytes ct (unat count) m)"
proof (induction "unat count" arbitrary: cs ct count)
  case 0
  then show ?case by (subst rt_memcmp.simps) (simp add: bytes_def unat_eq_0)
next
  case (Suc l)
  then have n: "0 < count" by (auto simp: word_less_nat_alt)
  have l: "l = unat (count - 1)" using Suc(2) n by (simp add: unat_minus_one word_greater_zero_iff)
  show ?case
    using Suc.hyps(1) [OF l] n unfolding Suc(2) [symmetric]
    by (subst rt_memcmp.simps) (simp add: bytes_Suc l [symmetric])
qed

end
