(* ===== verification/Heap_Realloc.thy ===== *)
theory Heap_Realloc
  imports Small_Mem Memory_Ops
begin

text \<open>
  \<open>rt_realloc\<close> and \<open>rt_calloc\<close> of \<open>src/mem.c\<close>, without the semaphore of the heap: resizing in place,
  by cutting the block or by allocating, copying and freeing. The theory shows that the
  contents survive and that no other block is touched, and what a request near the top of
  the 32 bit range does.
\<close>

subsection \<open>Operations\<close>

text \<open>\<open>rt_memcpy\<close> and \<open>rt_memset\<close> on the data of the heap. The heap starts at a multiple of four, so
  that offsets are aligned as addresses are.\<close>

definition heap_copy :: "u32 \<Rightarrow> u32 \<Rightarrow> u32 \<Rightarrow> heap \<Rightarrow> heap" where
  "heap_copy dst src n h = h\<lparr>heap_bytes := rt_memcpy dst src n (heap_bytes h)\<rparr>"

definition heap_fill :: "u32 \<Rightarrow> u32 \<Rightarrow> u32 \<Rightarrow> heap \<Rightarrow> heap" where
  "heap_fill dst c n h = h\<lparr>heap_bytes := rt_memset dst c n (heap_bytes h)\<rparr>"

definition heap_realloc :: "u32 option \<Rightarrow> u32 \<Rightarrow> heap \<Rightarrow> (u32 option \<times> heap) option" where
  "heap_realloc rmem newsize0 h =
     (let newsize = RT_ALIGN newsize0 RT_ALIGN_SIZE in
      if newsize > mem_size_aligned h then Some (None, h)
      else if newsize = 0
      then (case rmem of None \<Rightarrow> Some (None, h) | Some p \<Rightarrow> do { h' \<leftarrow> heap_free p h; Some (None, h') })
      else case rmem of
        None \<Rightarrow> heap_malloc newsize h
      | Some p \<Rightarrow> do {
          (r, h1) \<leftarrow> realloc_locked p newsize h;
          case r of
            Inl q \<Rightarrow> Some (Some q, h1)
          | Inr sz \<Rightarrow> do {
              (nmem, h2) \<leftarrow> heap_malloc newsize h1;
              case nmem of
                None \<Rightarrow> Some (None, h2)
              | Some q \<Rightarrow> do {
                  h3 \<leftarrow> heap_free p (heap_copy q p (min sz newsize) h2);
                  Some (Some q, h3)
                }
            }
        })"

definition heap_calloc :: "u32 \<Rightarrow> u32 \<Rightarrow> heap \<Rightarrow> (u32 option \<times> heap) option" where
  "heap_calloc count sz h = do {
     (p, h1) \<leftarrow> heap_malloc (count * sz) h;
     Some (p, case p of None \<Rightarrow> h1 | Some q \<Rightarrow> heap_fill q 0 (count * sz) h1)
   }"

subsection \<open>Shrinking in place\<close>

lemma heap_rep_used_mem: "heap_links bl (h\<lparr>used_mem := u\<rparr>) = heap_links bl h"
proof -
  have "hseg (h\<lparr>used_mem := u\<rparr>) p bs q = hseg h p bs q" "prevs (h\<lparr>used_mem := u\<rparr>) p bs = prevs h p bs" for p bs q
    by (rule hseg_cong prevs_cong; simp)+
  then show ?thesis by (simp add: heap_links_def)
qed

lemma shrink_rep:
  assumes i: "heap_inv h" and p: "p \<in> heap_live h" and n: "4 \<le> unat n" "4 dvd unat n"
    and room: "unat p + unat n + 16 \<le> unat (hnext h (p - 12))"
  defines "c \<equiv> p - SIZEOF_STRUCT_MEM"
  obtains h' where "plug_holes (c + SIZEOF_STRUCT_MEM + n)
      (split_block c n (h\<lparr>used_mem := used_mem h - (hnext h c - c - SIZEOF_STRUCT_MEM - n)\<rparr>)) = Some h'"
    "heap_inv h'" "heap_same h h'" "heap_live h' = heap_live h" "card (heap_region h' p) = unat n"
    "\<And>q. q \<in> heap_live h \<Longrightarrow> q \<noteq> p \<Longrightarrow> heap_region h' q = heap_region h q"
proof -
  let ?bl = "heap_blocks h" and ?u = "used_mem h - (hnext h c - c - 12 - n)"
  let ?h0 = "h\<lparr>used_mem := ?u\<rparr>"
  let ?d = "c + 12 + n" and ?k = "split_block c n ?h0"
  have cb: "c \<in> set ?bl" "hused h c" using p by (auto simp: heap_live_iff c_def)
  then obtain xs ys where bl: "?bl = xs @ c # ys" by (meson split_list)
  have rep: "heap_links ?bl h" "holes h ?bl" "used_mem h = used_bytes h ?bl" using i by (auto simp: heap_inv_def heap_rep_def)
  have dis: "distinct ?bl" using hseg_distinct [OF heap_linksD(1) [OF rep(1)]] by simp
  have l0: "heap_links (xs @ c # ys) ?h0" using rep(1) bl by (simp add: heap_rep_used_mem)
  have up: "unat p = unat c + 12" using block_facts(3) [OF i cb(1)] by (simp add: c_def)
  have room': "unat c + 12 + unat n + 16 \<le> unat (hnext ?h0 c)" using room up by (simp add: c_def)
  note S = split_rep [OF l0 n room']
  have ku: "hused ?k b = (b \<noteq> ?d \<and> hused h b)" and kn: "hnext ?k b = (if b = ?d then hnext h c else if b = c then ?d else hnext h b)" for b
    using S(5,6) [of b] by simp_all
  have nd: "?d \<notin> set ?bl" using S(2) bl by simp
  have "holes h (xs @ [c])" "holes h ys" using rep(2) bl holes_parts [of h xs c ys] by (auto simp: successively_append_iff)
  moreover have "hused ?k b = hused h b" if "b \<in> set (xs @ [c]) \<union> set ys" for b using that nd bl by (auto simp: ku)
  ultimately have ho: "holes ?k (xs @ [c])" "holes ?k ys"
    using holes_cong [of "xs @ [c]" ?k h] holes_cong [of ys ?k h] by blast+
  have ub: "used_bytes ?k zs = used_bytes h zs" if "zs = xs \<or> zs = ys" for zs
    using that nd bl dis by (intro used_bytes_cong) (auto simp: ku kn)
  have "used_bytes ?k (xs @ c # ?d # ys) = used_bytes h xs + used_bytes h ys + (?d - c)"
    using ub nd bl cb by (auto simp: ku kn)
  moreover have "used_mem ?k = used_bytes h xs + used_bytes h ys + (hnext h c - c) - (hnext h c - c - 12 - n)"
    using S(7) rep(3) bl cb(2) by (simp add: ac_simps)
  ultimately have um: "used_mem ?k = used_bytes ?k ((xs @ [c]) @ ?d # ys)" by simp
  have l4: "heap_links ((xs @ [c]) @ ?d # ys) ?k" using S(4) by simp
  have nu: "\<not> hused ?k ?d" by (simp add: ku)
  obtain h' bl' where P: "plug_holes ?d ?k = Some h'" "heap_rep bl' h'" "\<And>b. hused h' b = hused ?k b"
    "{b \<in> set bl'. hused ?k b} = {b \<in> set ((xs @ [c]) @ ?d # ys). hused ?k b}" "\<And>b. hused ?k b \<Longrightarrow> hnext h' b = hnext ?k b"
    "heap_bytes h' = heap_bytes ?k" "heap_ptr h' = heap_ptr ?k" "mem_size_aligned h' = mem_size_aligned ?k"
    by (rule plug_holes_rep [OF l4 nu ho um]) (rule that; assumption)
  have bl': "heap_blocks h' = bl'" "heap_inv h'" using heap_repI [OF P(2)] by auto
  have "{b \<in> set bl'. hused h' b} = {b \<in> set ((xs @ [c]) @ ?d # ys). b \<noteq> ?d \<and> hused h b}"
    using P(4) unfolding P(3) ku .
  also have "\<dots> = {b \<in> set ?bl. hused h b}" using nd unfolding bl by auto
  finally have "{b \<in> set bl'. hused h' b} = {b \<in> set ?bl. hused h b}" .
  then have live: "heap_live h' = heap_live h" by (simp add: heap_live_def bl'(1))
  have "c \<noteq> ?d" using cb(1) nd by metis
  then have "hnext h' c = ?d" using P(5) [of c] cb(2) unfolding ku kn by simp
  then have "card (heap_region h' p) = unat n" using S(1) up by (simp add: heap_region_def c_def)
  moreover have "heap_region h' q = heap_region h q" if "q \<in> heap_live h" "q \<noteq> p" for q
  proof -
    have Q: "q - 12 \<in> set ?bl" "hused h (q - 12)" "q - 12 \<noteq> c" using that by (auto simp: heap_live_iff c_def)
    have "q - 12 \<noteq> ?d" using Q(1) nd by metis
    then have "hnext h' (q - 12) = hnext h (q - 12)" using P(5) [of "q - 12"] Q(2,3) unfolding ku kn by simp
    then show ?thesis by (simp add: heap_region_def)
  qed
  ultimately show thesis using that [OF P(1) bl'(2) _ live] P(6-8) S(9-11) by (simp add: heap_same_def)
qed

subsection \<open>Resizing\<close>

lemma heap_bytes_inv: "heap_inv (h\<lparr>heap_bytes := d\<rparr>) = heap_inv h" "heap_live (h\<lparr>heap_bytes := d\<rparr>) = heap_live h"
  "heap_region (h\<lparr>heap_bytes := d\<rparr>) p = heap_region h p"
proof -
  have "hwalk k (h\<lparr>heap_bytes := d\<rparr>) p = hwalk k h p" for k p by (induction k arbitrary: p) simp_all
  then have b: "heap_blocks (h\<lparr>heap_bytes := d\<rparr>) = heap_blocks h" by (simp add: heap_blocks_def)
  have "hseg (h\<lparr>heap_bytes := d\<rparr>) p bs q = hseg h p bs q" "prevs (h\<lparr>heap_bytes := d\<rparr>) p bs = prevs h p bs"
    "used_bytes (h\<lparr>heap_bytes := d\<rparr>) bs = used_bytes h bs" for p bs q
    by (rule hseg_cong prevs_cong used_bytes_cong; simp)+
  then show "heap_inv (h\<lparr>heap_bytes := d\<rparr>) = heap_inv h" by (simp add: heap_inv_def heap_rep_def heap_links_def b)
  show "heap_live (h\<lparr>heap_bytes := d\<rparr>) = heap_live h" by (simp add: heap_live_def b)
qed (simp add: heap_region_def)

text \<open>The data of a block: \<open>k\<close> bytes from its start.\<close>

definition block_bytes :: "heap \<Rightarrow> u32 \<Rightarrow> nat \<Rightarrow> u8 list" where
  "block_bytes h p k = map (\<lambda>i. heap_bytes h (p + of_nat i)) [0..<k]"

lemma copy_bytes:
  assumes "k \<le> unat n" and f: "forward_ok q p n"
  shows "block_bytes (heap_copy q p n h) q k = block_bytes h p k"
proof -
  have "unat (of_nat i :: u32) = i" if "i < k" for i
    using that assms(1) unat_less_2p [of n] by (simp add: unat_of_nat take_bit_nat_eq_self)
  then have "(of_nat i :: u32) < n" if "i < k" for i using that assms(1) by (simp add: word_less_nat_alt)
  then show ?thesis by (simp add: block_bytes_def heap_copy_def memcpy_eq [OF f] mem_copy_def)
qed

text \<open>Copying into one block leaves the data of a block elsewhere.\<close>

lemma copy_other:
  assumes "unat q + unat n < 2 ^ 32" "k \<le> m" "{unat q ..< unat q + unat n} \<inter> {unat r ..< unat r + m} = {}" "unat r + m < 2 ^ 32"
    and f: "forward_ok q p n"
  shows "block_bytes (heap_copy q p n h) r k = block_bytes h r k"
proof -
  have "\<not> r + of_nat i - q < n" if i: "i < k" for i
  proof
    assume lt: "r + of_nat i - q < n"
    have ur: "unat (r + of_nat i) = unat r + i"
      using i assms(2,4) by (subst unat_add_small) (simp_all add: unat_of_nat take_bit_nat_eq_self)
    define d where "d = r + of_nat i - q"
    have d: "r + of_nat i = q + d" "unat d < unat n" using lt by (simp_all add: d_def word_less_nat_alt)
    have "unat (q + d) = unat q + unat d" by (rule unat_add_small) (use d(2) assms(1) in simp)
    then have "unat r + i \<in> {unat q ..< unat q + unat n} \<inter> {unat r ..< unat r + m}"
      using ur i assms(2) d by simp
    then show False using assms(3) by simp
  qed
  then show ?thesis by (simp add: block_bytes_def heap_copy_def memcpy_eq [OF f] mem_copy_def)
qed

lemma live_facts:
  assumes i: "heap_inv h" and p: "p \<in> heap_live h"
  defines "c \<equiv> p - SIZEOF_STRUCT_MEM"
  shows "unat p + card (heap_region h p) = unat (hnext h c)" "unat p + card (heap_region h p) < 2 ^ 32"
    "unat (hnext h c - c - SIZEOF_STRUCT_MEM) = card (heap_region h p)" "\<not> heap_end h \<le> p"
    "unat (mem_size_aligned h) + 24 < 2 ^ 32"
proof -
  have cb: "c \<in> set (heap_blocks h)" using p by (simp add: heap_live_iff c_def)
  note B = block_facts [OF i cb]
  have up: "unat p = unat c + 12" using B(3) by (simp add: c_def)
  have ge: "unat c + 16 \<le> unat (hnext h c)" using B(1) by (simp add: hblk_def)
  show r: "unat p + card (heap_region h p) = unat (hnext h c)" using ge up by (simp add: heap_region_def c_def)
  show "unat p + card (heap_region h p) < 2 ^ 32" unfolding r using unat_less_2p [of "hnext h c"] by simp
  have "hnext h c - c - 12 = hnext h c - (c + 12)" by simp
  then show "unat (hnext h c - c - 12) = card (heap_region h p)" using room_iff(2) [OF B(1)] r up by presburger
  show "\<not> heap_end h \<le> p" using B(2) ge up by (simp add: word_le_nat_alt)
  show "unat (mem_size_aligned h) + 24 < 2 ^ 32" using i by (simp add: heap_inv_def heap_rep_def heap_links_def)
qed

lemma live_region:
  assumes "heap_inv h" "p \<in> heap_live h"
  shows "heap_region h p = {unat p ..< unat p + card (heap_region h p)}"
  using live_facts(1) [OF assms] by (simp add: heap_region_def)

text \<open>What a resize promises: block \<open>p\<close> of \<open>h\<close> is block \<open>q\<close> of \<open>h'\<close>, with room for \<open>n\<close> bytes and
  its first \<open>n\<close> bytes kept, and every other block is as before.\<close>

definition moved :: "heap \<Rightarrow> u32 \<Rightarrow> nat \<Rightarrow> heap \<Rightarrow> u32 \<Rightarrow> bool" where
  "moved h p n h' q \<longleftrightarrow>
     heap_inv h' \<and> q \<notin> heap_live h - {p} \<and> heap_live h' = insert q (heap_live h - {p}) \<and> n \<le> card (heap_region h' q) \<and>
     block_bytes h' q (min n (card (heap_region h p))) = block_bytes h p (min n (card (heap_region h p))) \<and>
     (\<forall>r \<in> heap_live h - {p}. heap_region h' r = heap_region h r \<and>
        block_bytes h' r (card (heap_region h r)) = block_bytes h r (card (heap_region h r)))"

lemma moved_le: "moved h p n h' q \<Longrightarrow> m \<le> n \<Longrightarrow> moved h p m h' q"
  by (force simp: moved_def block_bytes_def min_def)

lemma heap_same_bytes: "heap_same h h' \<Longrightarrow> block_bytes h' = block_bytes h"
  by (simp add: heap_same_def block_bytes_def fun_eq_iff)

lemma move_block:
  assumes i: "heap_inv h" and p: "p \<in> heap_live h" and n: "unat n \<le> 0xfffffffc"
  obtains "heap_malloc n h = Some (None, h)"
  | q h2 h3 where "heap_malloc n h = Some (Some q, h2)" "moved h p (unat n) h3 q"
      "heap_free p (heap_copy q p (min (hnext h (p - SIZEOF_STRUCT_MEM) - (p - SIZEOF_STRUCT_MEM) - SIZEOF_STRUCT_MEM) n) h2) = Some h3"
proof -
  let ?sz = "hnext h (p - 12) - (p - 12) - 12"
  note L = live_facts [OF i p]
  obtain r h2 where M: "heap_malloc n h = Some (r, h2)" "heap_inv h2" "heap_same h h2" "r = None \<Longrightarrow> h2 = h"
    "\<And>q. r = Some q \<Longrightarrow> q \<notin> heap_live h \<and> heap_live h2 = insert q (heap_live h) \<and> heap_fit h2 n q"
    "\<And>q. q \<in> heap_live h \<Longrightarrow> heap_region h2 q = heap_region h q"
    by (rule malloc_total [OF i, where sz = n]) blast
  show thesis
  proof (cases r)
    case None
    then show thesis using that(1) M by simp
  next
    case (Some q)
    have q: "q \<notin> heap_live h" "heap_live h2 = insert q (heap_live h)" "unat n \<le> card (heap_region h2 q)"
      using M(5) [OF Some] n by (auto simp: heap_fit_def)
    let ?hc = "heap_copy q p (min ?sz n) h2"
    have c: "heap_inv ?hc" "heap_live ?hc = insert q (heap_live h)" "\<And>x. heap_region ?hc x = heap_region h2 x"
      using M(2) q(2) by (simp_all add: heap_copy_def heap_bytes_inv)
    have pc: "p \<in> heap_live ?hc" using c(2) p by simp
    obtain h3 where F: "heap_free p ?hc = Some h3" "heap_inv h3" "heap_same ?hc h3" "heap_live h3 = heap_live ?hc - {p}"
      "\<And>x. x \<in> heap_live ?hc \<Longrightarrow> x \<noteq> p \<Longrightarrow> heap_region h3 x = heap_region ?hc x"
      by (rule free_total [OF c(1) pc]) blast
    have um: "unat (min ?sz n) = min (card (heap_region h p)) (unat n)" using L(3) by (simp add: min_def word_le_nat_alt)
    have qp: "q \<noteq> p" using q(1) p by blast
    have q2: "q \<in> heap_live h2" "p \<in> heap_live h2" using q(2) p by auto
    have rp: "heap_region h2 p = heap_region h p" by (rule M(6) [OF p])
    have "heap_region h2 q \<inter> heap_region h2 p = {}" by (rule heap_disjoint [OF M(2) q2 qp])
    then have "{unat q ..< unat q + card (heap_region h2 q)} \<inter> {unat p ..< unat p + card (heap_region h p)} = {}"
      using live_region [OF M(2) q2(1)] live_region [OF M(2) q2(2)] unfolding rp by blast
    then have "{unat q ..< unat q + unat (min ?sz n)} \<inter> {unat p ..< unat p + unat (min ?sz n)} = {}"
      using um q(3) by (auto simp: disjoint_iff)
    then have "unat q \<le> unat p \<or> unat p + unat (min ?sz n) \<le> unat q" by auto
    then have fw: "forward_ok q p (min ?sz n)"
      using live_facts(2) [OF M(2) q2(2)] um unfolding rp by (intro forward_okI) auto
    have rq: "heap_region h3 q = heap_region h2 q" using F(5) [of q] c qp by simp
    have bp: "block_bytes h3 q k = block_bytes h p k" if "k \<le> min (card (heap_region h p)) (unat n)" for k
      unfolding heap_same_bytes [OF F(3)] using copy_bytes [OF _ fw, of k h2] that um heap_same_bytes [OF M(3)] by simp
    have other: "heap_region h3 x = heap_region h x \<and> block_bytes h3 x (card (heap_region h x)) = block_bytes h x (card (heap_region h x))"
      if x: "x \<in> heap_live h - {p}" for x
    proof -
      have q2: "q \<in> heap_live h2" "x \<in> heap_live h2" "q \<noteq> x" using q x by auto
      have rx: "heap_region h2 x = heap_region h x" using M(6) x by simp
      have d: "heap_region h2 q \<inter> heap_region h2 x = {}" by (rule heap_disjoint [OF M(2) q2])
      have sub: "{unat q ..< unat q + unat (min ?sz n)} \<subseteq> heap_region h2 q"
        using um q(3) live_facts(1) [OF M(2) q2(1)] by (auto simp: heap_region_def)
      have eq: "{unat x ..< unat x + card (heap_region h x)} = heap_region h2 x"
        using live_facts(1) [OF M(2) q2(2)] unfolding rx [symmetric] by (simp add: heap_region_def)
      have "block_bytes ?hc x (card (heap_region h x)) = block_bytes h2 x (card (heap_region h x))"
        by (rule copy_other [where m = "card (heap_region h x)"])
          (use d sub eq um q(3) fw live_facts(2) [OF M(2) q2(1)] live_facts(2) [OF M(2) q2(2)] rx in auto)
      then show ?thesis using F(5) [of x] c x rx heap_same_bytes [OF F(3)] heap_same_bytes [OF M(3)] by simp
    qed
    have "moved h p (unat n) h3 q"
      unfolding moved_def using F(2,4) c(2) q qp rq bp other by (auto simp: min.commute)
    then show thesis using that(2) M(1) Some F(1) by simp
  qed
qed

lemma shrink_block:
  assumes i: "heap_inv h" and p: "p \<in> heap_live h" and n: "4 \<le> unat n" "4 dvd unat n"
    and room: "unat n + 24 < card (heap_region h p)"
  obtains h' where "plug_holes (p - SIZEOF_STRUCT_MEM + SIZEOF_STRUCT_MEM + n)
      (split_block (p - SIZEOF_STRUCT_MEM) n
        (h\<lparr>used_mem := used_mem h - (hnext h (p - SIZEOF_STRUCT_MEM) - (p - SIZEOF_STRUCT_MEM) - SIZEOF_STRUCT_MEM - n)\<rparr>)) = Some h'"
    "moved h p (unat n) h' p"
proof -
  have r: "unat p + unat n + 16 \<le> unat (hnext h (p - 12))" using live_facts(1) [OF i p] room by simp
  obtain h' where S: "plug_holes (p - 12 + 12 + n)
      (split_block (p - 12) n (h\<lparr>used_mem := used_mem h - (hnext h (p - 12) - (p - 12) - 12 - n)\<rparr>)) = Some h'"
    "heap_inv h'" "heap_same h h'" "heap_live h' = heap_live h" "card (heap_region h' p) = unat n"
    "\<And>q. q \<in> heap_live h \<Longrightarrow> q \<noteq> p \<Longrightarrow> heap_region h' q = heap_region h q"
    by (rule shrink_rep [OF i p n r]) (rule that; assumption)
  have "moved h p (unat n) h' p"
    using S(2,4-6) p heap_same_bytes [OF S(3)] by (simp add: moved_def insert_absorb)
  then show thesis using that S(1) by blast
qed

lemma realloc_locked_cases:
  assumes i: "heap_inv h" and p: "p \<in> heap_live h" and n: "4 \<le> unat n" "4 dvd unat n" "\<not> n > mem_size_aligned h"
  obtains h' where "realloc_locked p n h = Some (Inl p, h')" "moved h p (unat n) h' p"
  | "realloc_locked p n h = Some (Inr (hnext h (p - SIZEOF_STRUCT_MEM) - (p - SIZEOF_STRUCT_MEM) - SIZEOF_STRUCT_MEM), h)"
proof -
  let ?c = "p - 12"
  let ?sz = "hnext h ?c - ?c - 12"
  note L = live_facts [OF i p]
  have "unat (24 + n) = 24 + unat n" using n(3) L(5) unat_add_small [of 24 n] by (simp add: word_less_nat_alt)
  then have u24: "unat (n + 12 + 12) = unat n + 24" by (simp add: add.commute)
  consider "?sz = n" | "?sz \<noteq> n" "n + 12 + 12 < ?sz" | "?sz \<noteq> n" "\<not> n + 12 + 12 < ?sz" by blast
  then show thesis
  proof cases
    case 1
    moreover have "moved h p (unat n) h p" using i p 1 L(3) by (auto simp: moved_def)
    ultimately show thesis using that(1) [of h] L(4) by (simp add: realloc_locked_def Let_def)
  next
    case 2
    then have "unat n + 24 < card (heap_region h p)" using u24 L(3) by (simp add: word_less_nat_alt)
    then obtain h' where S: "plug_holes (?c + 12 + n) (split_block ?c n (h\<lparr>used_mem := used_mem h - (?sz - n)\<rparr>)) = Some h'"
      "moved h p (unat n) h' p"
      by (rule shrink_block [OF i p n(1,2)]) (rule that; assumption)
    then show thesis using that(1) [of h'] L(4) 2 by (simp add: realloc_locked_def Let_def)
  next
    case 3
    then show thesis using that(2) L(4) by (simp add: realloc_locked_def Let_def)
  qed
qed

text \<open>C21: \<open>rt_realloc\<close> of an allocated block to a size that does not wrap: the call returns. When no
  memory is left the result is \<open>RT_NULL\<close> and the heap is unchanged, so the old block is still
  valid; otherwise the result is a block that is large enough and starts with the bytes of
  the old block up to the smaller of both sizes, the heap stays well formed, the old block
  is not allocated any more unless it was resized in place, and the place, the size and
  every byte of all other allocated blocks are unchanged.\<close>

theorem heap_realloc_keeps:
  assumes i: "heap_inv h" and p: "p \<in> heap_live h" and n: "newsize \<noteq> 0" "unat newsize \<le> 0xfffffffc"
  shows "heap_realloc (Some p) newsize h = Some (None, h) \<or>
    (\<exists>q h'. heap_realloc (Some p) newsize h = Some (Some q, h') \<and>
       heap_inv h' \<and> q \<notin> heap_live h - {p} \<and> heap_live h' = insert q (heap_live h - {p}) \<and>
       unat newsize \<le> card (heap_region h' q) \<and>
       (let k = min (unat newsize) (card (heap_region h p)) in block_bytes h' q k = block_bytes h p k) \<and>
       (\<forall>r \<in> heap_live h - {p}. heap_region h' r = heap_region h r \<and>
          block_bytes h' r (card (heap_region h r)) = block_bytes h r (card (heap_region h r))))"
proof -
  let ?n = "RT_ALIGN newsize 4"
  have un: "unat ?n = (unat newsize + 3) div 4 * 4" using n(2) by (intro unat_ALIGN) simp_all
  have n0: "0 < unat newsize" using n(1) by (simp add: unat_gt_0)
  have n4: "4 \<le> unat ?n" "4 dvd unat ?n" "unat newsize \<le> unat ?n" "unat ?n \<le> 0xfffffffc" using un n0 n(2) by auto
  have nz: "?n \<noteq> 0" using n4(1) by auto
  have done_: ?thesis if "heap_realloc (Some p) newsize h = Some (Some q, h')" "moved h p (unat ?n) h' q" for q h'
    using that moved_le [OF that(2) n4(3)] unfolding moved_def Let_def by blast
  show ?thesis
  proof (cases "?n > mem_size_aligned h")
    case True
    then show ?thesis by (simp add: heap_realloc_def)
  next
    case False
    define sz where "sz = hnext h (p - 12) - (p - 12) - 12"
    show ?thesis
    proof (rule realloc_locked_cases [OF i p n4(1,2) False, folded sz_def])
      fix h' assume "realloc_locked p ?n h = Some (Inl p, h')" "moved h p (unat ?n) h' p"
      then show ?thesis using False nz by (intro done_ [of p h']) (simp_all add: heap_realloc_def Let_def)
    next
      assume r: "realloc_locked p ?n h = Some (Inr sz, h)"
      show ?thesis
      proof (rule move_block [OF i p n4(4), folded sz_def])
        assume "heap_malloc ?n h = Some (None, h)"
        then show ?thesis using False nz r by (simp add: heap_realloc_def Let_def)
      next
        fix q h2 h3 assume "heap_malloc ?n h = Some (Some q, h2)" "moved h p (unat ?n) h3 q"
          "heap_free p (heap_copy q p (min sz ?n) h2) = Some h3"
        then show ?thesis using False nz r by (intro done_ [of q h3]) (simp_all add: heap_realloc_def Let_def)
      qed
    qed
  qed
qed

text \<open>A request of more than \<open>0xfffffffc\<close> bytes is not refused: the aligned size wraps to zero,
  the minimum size takes its place, and \<open>rt_malloc\<close> does exactly what it does for a request
  of one byte, so that the block it returns is smaller than the request.\<close>

lemma malloc_size_wraps:
  assumes i: "heap_inv h" and sz: "0xfffffffc < sz"
  shows "heap_malloc sz h = heap_malloc 1 h \<and>
    (\<forall>p h'. heap_malloc sz h = Some (Some p, h') \<longrightarrow> p \<in> heap_live h' \<and> card (heap_region h' p) < unat sz)"
proof -
  have "unat sz \<in> {0xfffffffd, 0xfffffffe, 0xffffffff}"
    using sz unat_less_2p [of sz] by (auto simp: word_less_nat_alt)
  then have "sz \<in> {0xfffffffd, 0xfffffffe, 0xffffffff}"
    using word_unat_eq_iff [of sz "0xfffffffd"] word_unat_eq_iff [of sz "0xfffffffe"] word_unat_eq_iff [of sz "0xffffffff"] by auto
  then have a: "RT_ALIGN sz 4 = 0" "sz \<noteq> 0" by (auto simp: RT_ALIGN_def)
  have b: "RT_ALIGN (1 :: u32) 4 = 4" by (simp add: RT_ALIGN_def)
  have m: "\<not> mem_size_aligned h < 4"
    using i by (simp add: heap_inv_def heap_rep_def heap_links_def word_less_nat_alt)
  have "heap_malloc sz h = heap_malloc 1 h" using a m by (simp add: heap_malloc_def malloc_size_def b max_def)
  moreover have "p \<in> heap_live h' \<and> card (heap_region h' p) < unat sz" if e: "heap_malloc sz h = Some (Some p, h')" for p h'
  proof -
    obtain r k where M: "heap_malloc sz h = Some (r, k)" "heap_inv k"
      "\<And>p. r = Some p \<Longrightarrow> p \<notin> heap_live h \<and> heap_live k = insert p (heap_live h) \<and> heap_fit k sz p"
      by (rule malloc_total [OF i, where sz = sz]) blast
    then have k: "heap_inv h'" "p \<in> heap_live h'" using e by auto
    have c: "p - 12 \<in> set (heap_blocks h')" using k(2) by (simp add: heap_live_iff)
    have "heap_region h' p \<subseteq> {12 ..< unat (heap_end h')}"
      using block_facts(2,3) [OF k(1) c] by (fastforce simp: heap_region_def)
    then have "card (heap_region h' p) \<le> card {12 ..< unat (heap_end h')}" by (rule card_mono [rotated]) simp
    moreover have "unat (heap_end h') < 2 ^ 32" using unat_less_2p [of "heap_end h'"] by simp
    ultimately show ?thesis using k(2) sz by (simp add: word_less_nat_alt)
  qed
  ultimately show ?thesis by blast
qed

lemma malloc_size_wraps_witness:
  "heap_malloc 0xffffffff heap_example = heap_malloc 1 heap_example"
  using malloc_size_wraps [OF heap_example_inv(1), of "0xffffffff"] by simp

text \<open>A heap with one block of 100 bytes.\<close>

lemma heap_example_first: "map_option fst (heap_malloc 100 heap_example) = Some (Some 12)"
proof -
  let ?h = "\<lparr>heap_ptr = 0x20000004, mem_size_aligned = 4068, mem_at = (\<lambda>_. \<lparr>magic = 0, used = 0, mem_next = 0, mem_prev = 0\<rparr>)
      (0 := \<lparr>magic = HEAP_MAGIC, used = 0, mem_next = 4080, mem_prev = 0\<rparr>,
       4080 := \<lparr>magic = HEAP_MAGIC, used = 1, mem_next = 4080, mem_prev = 4080\<rparr>),
      heap_bytes = (\<lambda>_. 0), lfree = 0, used_mem = 0, max_mem = 0\<rparr>"
  have e: "heap_example = ?h"
    by (simp add: heap_example_def rt_system_heap_init_def ex_region_def RT_ALIGN_def RT_ALIGN_DOWN_def Let_def)
  have s: "malloc_search 100 0 ?h = Some (Some 0)" by (subst malloc_search.simps) simp
  show ?thesis
    by (simp add: e heap_malloc_def malloc_size_def malloc_locked_def s malloc_take_def split_block_def upd_mem_def
        count_used_def RT_ALIGN_def Let_def lfree_search.simps heap_end_def)
qed

lemma heap_example_block:
  obtains h where "heap_malloc 100 heap_example = Some (Some 12, h)" "heap_inv h" "heap_live h = {12}"
proof -
  obtain r h where M: "heap_malloc 100 heap_example = Some (r, h)" "heap_inv h"
    "\<And>p. r = Some p \<Longrightarrow> p \<notin> heap_live heap_example \<and> heap_live h = insert p (heap_live heap_example) \<and> heap_fit h 100 p"
    by (rule malloc_total [OF heap_example_inv(1), where sz = 100]) blast
  then show thesis using that [of h] heap_example_first heap_example_inv(2) by simp
qed

theorem heap_realloc_keeps_witness:
  "\<exists>h. heap_malloc 100 heap_example = Some (Some 12, h) \<and>
     (heap_realloc (Some 12) 40 h = Some (None, h) \<or>
      (\<exists>q h'. heap_realloc (Some 12) 40 h = Some (Some q, h') \<and> heap_inv h' \<and> heap_live h' = {q}))"
proof -
  obtain h where h: "heap_malloc 100 heap_example = Some (Some 12, h)" "heap_inv h" "heap_live h = {12}"
    by (rule heap_example_block)
  have "heap_realloc (Some 12) 40 h = Some (None, h) \<or>
      (\<exists>q h'. heap_realloc (Some 12) 40 h = Some (Some q, h') \<and> heap_inv h' \<and> heap_live h' = {q})"
    using heap_realloc_keeps [OF h(2), of 12 40] h(3) by auto
  then show ?thesis using h(1) by blast
qed

end
