(* ===== verification/Kernel_Heap.thy ===== *)
theory Kernel_Heap
  imports Heap_Realloc Semaphore
begin

text \<open>
  The calls of \<open>src/mem.c\<close> with the semaphore that guards the heap. The state is the kernel and
  the heap, \<open>n\<close> is the number of \<open>heap_sem\<close>. A call that has to wait for the semaphore returns
  \<open>H_Wait\<close> with the place where it goes on (\<open>heap_resume\<close>) when the thread runs again. The
  theory shows that without contention the calls are the operations of \<open>Small_Mem\<close> and
  \<open>Heap_Realloc\<close> and leave the kernel as it was, and that a call made while another thread is
  inside the heap waits without touching it.
\<close>

subsection \<open>Operations\<close>

datatype heap_cont =
    C_Malloc u32 | C_Calloc u32 u32 | C_Free u32 | C_Realloc u32 u32
  | C_Realloc_Malloc u32 u32 u32 | C_Realloc_Free u32 u32

datatype heap_result = H_Ret "u32 option" | H_Wait heap_cont

abbreviation (input) RT_WAITING_FOREVER :: u32 where "RT_WAITING_FOREVER \<equiv> - 1"

text \<open>\<open>rt_sem_take(&heap_sem, RT_WAITING_FOREVER)\<close>, whose result the calls ignore: whether the
  thread has to wait.\<close>

definition heap_lock :: "nat \<Rightarrow> kernel \<Rightarrow> (bool \<times> kernel) option" where
  "heap_lock n s = do {
     (r, s1) \<leftarrow> rt_sem_take n RT_WAITING_FOREVER s;
     Some (case r of Done e \<Rightarrow> (False, s1) | Block k \<Rightarrow> (True, s1))
   }"

definition heap_unlock :: "nat \<Rightarrow> kernel \<Rightarrow> kernel option" where
  "heap_unlock n s = map_option snd (rt_sem_release n s)"

text \<open>The parts of the calls from the semaphore to the end.\<close>

definition malloc_go :: "nat \<Rightarrow> u32 \<Rightarrow> kernel \<times> heap \<Rightarrow> (heap_result \<times> kernel \<times> heap) option" where
  "malloc_go n sz = (\<lambda>(s, h). do {
     (p, h1) \<leftarrow> malloc_locked sz h;
     s1 \<leftarrow> heap_unlock n s;
     Some (H_Ret p, s1, h1)
   })"

definition free_go :: "nat \<Rightarrow> u32 \<Rightarrow> kernel \<times> heap \<Rightarrow> (heap_result \<times> kernel \<times> heap) option" where
  "free_go n p = (\<lambda>(s, h). do {
     h1 \<leftarrow> free_locked p h;
     s1 \<leftarrow> heap_unlock n s;
     Some (H_Ret None, s1, h1)
   })"

definition rt_malloc :: "nat \<Rightarrow> u32 \<Rightarrow> kernel \<times> heap \<Rightarrow> (heap_result \<times> kernel \<times> heap) option" where
  "rt_malloc n sz = (\<lambda>(s, h).
     if sz = 0 then Some (H_Ret None, s, h)
     else do {
       rt_assert (rt_interrupt_nest s = 0);
       if RT_ALIGN sz RT_ALIGN_SIZE > mem_size_aligned h then Some (H_Ret None, s, h)
       else do {
         (wait, s1) \<leftarrow> heap_lock n s;
         if wait then Some (H_Wait (C_Malloc (malloc_size sz)), s1, h) else malloc_go n (malloc_size sz) (s1, h)
       }
     })"

definition rt_free :: "nat \<Rightarrow> u32 option \<Rightarrow> kernel \<times> heap \<Rightarrow> (heap_result \<times> kernel \<times> heap) option" where
  "rt_free n rmem = (\<lambda>(s, h).
     case rmem of
       None \<Rightarrow> Some (H_Ret None, s, h)
     | Some p \<Rightarrow> do {
         rt_assert (rt_interrupt_nest s = 0);
         rt_assert ((heap_ptr h + p) AND 3 = 0);
         rt_assert (p < heap_end h);
         (wait, s1) \<leftarrow> heap_lock n s;
         if wait then Some (H_Wait (C_Free p), s1, h) else free_go n p (s1, h)
       })"

text \<open>The end of \<open>rt_realloc\<close>: the old block is freed, the new one is the result.\<close>

definition realloc_free :: "nat \<Rightarrow> u32 \<Rightarrow> u32 \<Rightarrow> kernel \<times> heap \<Rightarrow> (heap_result \<times> kernel \<times> heap) option" where
  "realloc_free n p q sh = do {
     (r, sh1) \<leftarrow> rt_free n (Some p) sh;
     Some (case r of H_Wait k \<Rightarrow> H_Wait (C_Realloc_Free p q) | H_Ret x \<Rightarrow> H_Ret (Some q), sh1)
   }"

text \<open>After the allocation of the new block: copy, then free.\<close>

definition realloc_copy ::
  "nat \<Rightarrow> u32 \<Rightarrow> u32 \<Rightarrow> u32 \<Rightarrow> u32 option \<Rightarrow> kernel \<times> heap \<Rightarrow> (heap_result \<times> kernel \<times> heap) option" where
  "realloc_copy n p sz newsize nmem = (\<lambda>(s, h).
     case nmem of
       None \<Rightarrow> Some (H_Ret None, s, h)
     | Some q \<Rightarrow> realloc_free n p q (s, heap_copy q p (min sz newsize) h))"

definition realloc_go :: "nat \<Rightarrow> u32 \<Rightarrow> u32 \<Rightarrow> kernel \<times> heap \<Rightarrow> (heap_result \<times> kernel \<times> heap) option" where
  "realloc_go n p newsize = (\<lambda>(s, h). do {
     (r, h1) \<leftarrow> realloc_locked p newsize h;
     s1 \<leftarrow> heap_unlock n s;
     case r of
       Inl q \<Rightarrow> Some (H_Ret (Some q), s1, h1)
     | Inr sz \<Rightarrow> do {
         (r1, sh2) \<leftarrow> rt_malloc n newsize (s1, h1);
         case r1 of
           H_Wait k \<Rightarrow> Some (H_Wait (C_Realloc_Malloc p sz newsize), sh2)
         | H_Ret nmem \<Rightarrow> realloc_copy n p sz newsize nmem sh2
       }
   })"

definition rt_realloc :: "nat \<Rightarrow> u32 option \<Rightarrow> u32 \<Rightarrow> kernel \<times> heap \<Rightarrow> (heap_result \<times> kernel \<times> heap) option" where
  "rt_realloc n rmem newsize0 = (\<lambda>(s, h). do {
     rt_assert (rt_interrupt_nest s = 0);
     let newsize = RT_ALIGN newsize0 RT_ALIGN_SIZE;
     if newsize > mem_size_aligned h then Some (H_Ret None, s, h)
     else if newsize = 0 then rt_free n rmem (s, h)
     else case rmem of
       None \<Rightarrow> rt_malloc n newsize (s, h)
     | Some p \<Rightarrow> do {
         (wait, s1) \<leftarrow> heap_lock n s;
         if wait then Some (H_Wait (C_Realloc p newsize), s1, h) else realloc_go n p newsize (s1, h)
       }
   })"

definition rt_calloc :: "nat \<Rightarrow> u32 \<Rightarrow> u32 \<Rightarrow> kernel \<times> heap \<Rightarrow> (heap_result \<times> kernel \<times> heap) option" where
  "rt_calloc n count sz sh = do {
     (r, s1, h1) \<leftarrow> rt_malloc n (count * sz) sh;
     Some (case r of
       H_Ret (Some p) \<Rightarrow> (r, s1, heap_fill p 0 (count * sz) h1)
     | H_Ret None \<Rightarrow> (r, s1, h1)
     | H_Wait k \<Rightarrow> (H_Wait (C_Calloc (malloc_size (count * sz)) (count * sz)), s1, h1))
   }"

text \<open>How a call goes on when the thread that waited for the semaphore runs again.\<close>

fun heap_resume :: "nat \<Rightarrow> heap_cont \<Rightarrow> kernel \<times> heap \<Rightarrow> (heap_result \<times> kernel \<times> heap) option" where
  "heap_resume n (C_Malloc sz) sh = malloc_go n sz sh"
| "heap_resume n (C_Calloc sz len) sh = do {
     (r, s1, h1) \<leftarrow> malloc_go n sz sh;
     Some (case r of H_Ret (Some p) \<Rightarrow> (r, s1, heap_fill p 0 len h1) | _ \<Rightarrow> (r, s1, h1))
   }"
| "heap_resume n (C_Free p) sh = free_go n p sh"
| "heap_resume n (C_Realloc p newsize) sh = realloc_go n p newsize sh"
| "heap_resume n (C_Realloc_Malloc p sz newsize) sh = do {
     (r, sh1) \<leftarrow> malloc_go n (malloc_size newsize) sh;
     case r of H_Ret nmem \<Rightarrow> realloc_copy n p sz newsize nmem sh1 | H_Wait k \<Rightarrow> Some (r, sh1)
   }"
| "heap_resume n (C_Realloc_Free p q) sh = do { (r, sh1) \<leftarrow> free_go n p sh; Some (H_Ret (Some q), sh1) }"

subsection \<open>Without contention\<close>

text \<open>The semaphore of the heap is free, nobody waits for it, and the caller is a thread.\<close>

definition heap_free_now :: "nat \<Rightarrow> kernel \<Rightarrow> bool" where
  "heap_free_now n s \<longleftrightarrow>
     otype s (O_Sem n) = RT_Object_Class_Semaphore \<and> sem_value (sems s n) = 1 \<and> tq s (L_sem n) = [] \<and> rt_interrupt_nest s = 0"

lemma lock_unlock:
  assumes "heap_free_now n s"
  shows "heap_lock n s = Some (False, set_sem_value n 0 s)" "heap_unlock n (set_sem_value n 0 s) = Some s"
proof -
  show "heap_lock n s = Some (False, set_sem_value n 0 s)"
    using assms by (simp add: heap_lock_def heap_free_now_def rt_sem_take_def get_type_otype)
  have "(sems s n)\<lparr>sem_value := 1\<rparr> = sems s n" using assms by (intro rt_semaphore.equality) (simp_all add: heap_free_now_def)
  then have "set_sem_value n 1 (set_sem_value n 0 s) = s" by (simp add: set_sem_value_def)
  then show "heap_unlock n (set_sem_value n 0 s) = Some s"
    using assms by (simp add: heap_unlock_def heap_free_now_def rt_sem_release_def get_type_otype tlist_isempty_def)
qed

lemma go_alone:
  assumes "heap_free_now n s"
  shows "malloc_go n sz (set_sem_value n 0 s, h) = map_option (\<lambda>(p, h'). (H_Ret p, s, h')) (malloc_locked sz h)"
    "free_go n p (set_sem_value n 0 s, h) = map_option (\<lambda>h'. (H_Ret None, s, h')) (free_locked p h)"
  using lock_unlock(2) [OF assms]
  by (cases "malloc_locked sz h"; cases "free_locked p h"; auto simp: malloc_go_def free_go_def)+

lemma malloc_alone:
  assumes f: "heap_free_now n s"
  shows "rt_malloc n sz (s, h) = map_option (\<lambda>(p, h'). (H_Ret p, s, h')) (heap_malloc sz h)"
  using f lock_unlock(1) [OF f] go_alone(1) [OF f] by (simp add: rt_malloc_def heap_malloc_def heap_free_now_def)

lemma free_alone:
  assumes f: "heap_free_now n s"
  shows "rt_free n (Some p) (s, h) = map_option (\<lambda>h'. (H_Ret None, s, h')) (heap_free p h)"
  using f lock_unlock(1) [OF f] go_alone(2) [OF f]
  by (cases "(heap_ptr h + p) AND 3 = 0"; cases "p < heap_end h"; simp add: rt_free_def heap_free_def heap_free_now_def rt_assert_def)

lemma realloc_alone:
  assumes f: "heap_free_now n s"
  shows "rt_realloc n rmem newsize (s, h) = map_option (\<lambda>(p, h'). (H_Ret p, s, h')) (heap_realloc rmem newsize h)"
proof -
  let ?n = "RT_ALIGN newsize 4"
  have nest: "rt_interrupt_nest s = 0" using f by (simp add: heap_free_now_def)
  have cp: "realloc_copy n p sz k nmem (s, h2) = map_option (\<lambda>(q, h'). (H_Ret q, s, h')) (case nmem of None \<Rightarrow> Some (None, h2)
      | Some q \<Rightarrow> do { h3 \<leftarrow> heap_free p (heap_copy q p (min sz k) h2); Some (Some q, h3) })" for p sz k nmem h2
  proof (cases nmem)
    case (Some q)
    then show ?thesis
      using free_alone [OF f, of p "heap_copy q p (min sz k) h2"]
      by (cases "heap_free p (heap_copy q p (min sz k) h2)") (simp_all add: realloc_copy_def realloc_free_def)
  qed (simp add: realloc_copy_def)
  have go: "realloc_go n p k (set_sem_value n 0 s, h) = map_option (\<lambda>(q, h'). (H_Ret q, s, h')) (do {
      (r, h1) \<leftarrow> realloc_locked p k h;
      case r of Inl q \<Rightarrow> Some (Some q, h1)
      | Inr sz \<Rightarrow> do {
          (nmem, h2) \<leftarrow> heap_malloc k h1;
          case nmem of None \<Rightarrow> Some (None, h2)
          | Some q \<Rightarrow> do { h3 \<leftarrow> heap_free p (heap_copy q p (min sz k) h2); Some (Some q, h3) } } })" for p k
  proof (cases "realloc_locked p k h")
    case (Some x)
    then obtain r h1 where x: "realloc_locked p k h = Some (r, h1)" by (cases x) simp
    show ?thesis
    proof (cases r)
      case (Inr sz)
      then show ?thesis
        using x lock_unlock(2) [OF f] malloc_alone [OF f, of k h1] cp
        by (cases "heap_malloc k h1") (auto simp: realloc_go_def)
    qed (use x lock_unlock(2) [OF f] in \<open>simp add: realloc_go_def\<close>)
  qed (simp add: realloc_go_def)
  show ?thesis
    using nest lock_unlock(1) [OF f] go malloc_alone [OF f] free_alone [OF f]
    by (auto simp: rt_realloc_def heap_realloc_def Let_def rt_free_def [of n None] map_option_case split: option.splits)
qed

lemma calloc_alone:
  assumes f: "heap_free_now n s"
  shows "rt_calloc n count sz (s, h) = map_option (\<lambda>(p, h'). (H_Ret p, s, h')) (heap_calloc count sz h)"
  by (auto simp: rt_calloc_def heap_calloc_def malloc_alone [OF f] map_option_case split: option.splits)

text \<open>C22: the semaphore makes the heap calls atomic. When it is free, \<open>rt_malloc\<close>, \<open>rt_free\<close>,
  \<open>rt_realloc\<close> and \<open>rt_calloc\<close> give exactly the result and the heap of the operations without
  it, and the kernel, the semaphore included, is as before; with the invariant of the heap
  they return.\<close>

theorem heap_calls_atomic:
  assumes f: "heap_free_now n s"
  shows "rt_malloc n sz (s, h) = map_option (\<lambda>(p, h'). (H_Ret p, s, h')) (heap_malloc sz h) \<and>
    rt_free n (Some p) (s, h) = map_option (\<lambda>h'. (H_Ret None, s, h')) (heap_free p h) \<and>
    rt_realloc n rmem newsize (s, h) = map_option (\<lambda>(p, h'). (H_Ret p, s, h')) (heap_realloc rmem newsize h) \<and>
    rt_calloc n count sz (s, h) = map_option (\<lambda>(p, h'). (H_Ret p, s, h')) (heap_calloc count sz h) \<and>
    (heap_inv h \<longrightarrow> (\<exists>r h'. rt_malloc n sz (s, h) = Some (H_Ret r, s, h') \<and> heap_inv h'))"
proof -
  have "\<exists>r h'. rt_malloc n sz (s, h) = Some (H_Ret r, s, h') \<and> heap_inv h'" if i: "heap_inv h"
  proof -
    obtain r h' where "heap_malloc sz h = Some (r, h')" "heap_inv h'" by (rule malloc_total [OF i])
    then show ?thesis by (simp add: malloc_alone [OF f])
  qed
  then show ?thesis by (simp add: malloc_alone [OF f] free_alone [OF f] realloc_alone [OF f] calloc_alone [OF f])
qed

subsection \<open>With contention\<close>

lemma lock_waits:
  assumes "kinv s" "otype s (O_Sem n) = 2" "sem_value (sems s n) = 0" "caller s c"
    "obj_flag (objs s (O_Sem n)) = 0 \<or> obj_flag (objs s (O_Sem n)) = 1"
  obtains s' where "heap_lock n s = Some (True, s')" "blocked (L_sem n) c (obj_flag (objs s (O_Sem n))) s s'"
proof -
  obtain s' where "rt_sem_take n (- 1) s = Some (Block (), s')" "blocked (L_sem n) c (obj_flag (objs s (O_Sem n))) s s'"
    by (rule sem_take_waits [OF assms(1-4), of "- 1"]) (use assms(5) in \<open>auto simp: wait_time_ok_def\<close>)
  then show thesis using that by (simp add: heap_lock_def)
qed

lemma unlock_hands_over:
  assumes k: "kinv s" and ty: "otype s (O_Sem n) = 2" and c: "caller s c" and q: "tq s (L_sem n) = t # ts"
  obtains s' where "heap_unlock n s = Some s'" "handed_over (L_sem n) t s s'" "sems s' = sems s"
proof -
  have cur: "rt_current_thread s = Some c" using c by (simp add: caller_def)
  obtain s' where s': "rt_sem_release n s = Some (0, s')" "handed_over (L_sem n) t s s'"
    by (rule sem_release_hands_over [OF k ty cur q])
  then show thesis using that ipc_sameD(1) by (auto simp: heap_unlock_def handed_over_def)
qed

lemma malloc_locked_total:
  assumes "heap_inv h" "sz \<noteq> 0" "RT_ALIGN sz 4 \<le> mem_size_aligned h"
  obtains r h' where "malloc_locked (malloc_size sz) h = Some (r, h')" "heap_inv h'"
proof -
  obtain r h' where "heap_malloc sz h = Some (r, h')" "heap_inv h'" by (rule malloc_total [OF assms(1)])
  then show thesis using that assms(2,3) by (simp add: heap_malloc_def not_less split: if_splits)
qed

text \<open>Only one thread is inside the heap. While the semaphore is taken, \<open>rt_malloc\<close>,
  \<open>rt_free\<close> and \<open>rt_realloc\<close> of another thread leave the heap as it is and put the thread on
  the waiting list of the semaphore; the thread that is inside wakes the first waiter when
  it leaves, and the semaphore stays taken for it.\<close>

lemma heap_calls_exclusive:
  assumes k: "kinv s" and ty: "otype s (O_Sem n) = RT_Object_Class_Semaphore" and v: "sem_value (sems s n) = 0" and c: "caller s c"
    and flag: "obj_flag (objs s (O_Sem n)) \<in> {RT_IPC_FLAG_FIFO, RT_IPC_FLAG_PRIO}"
    and h: "heap_inv h" "p \<in> heap_live h" and sz: "sz \<noteq> 0" "0 < RT_ALIGN sz RT_ALIGN_SIZE" "RT_ALIGN sz RT_ALIGN_SIZE \<le> mem_size_aligned h"
  shows "(\<exists>s'. blocked (L_sem n) c (obj_flag (objs s (O_Sem n))) s s' \<and>
      rt_malloc n sz (s, h) = Some (H_Wait (C_Malloc (malloc_size sz)), s', h) \<and>
      rt_free n (Some p) (s, h) = Some (H_Wait (C_Free p), s', h) \<and>
      rt_realloc n (Some p) sz (s, h) = Some (H_Wait (C_Realloc p (RT_ALIGN sz RT_ALIGN_SIZE)), s', h)) \<and>
    (\<forall>t ts. tq s (L_sem n) = t # ts \<longrightarrow>
      (\<exists>r s' h'. heap_resume n (C_Malloc (malloc_size sz)) (s, h) = Some (H_Ret r, s', h') \<and> heap_inv h' \<and>
        handed_over (L_sem n) t s s' \<and> sem_value (sems s' n) = 0))"
proof -
  have nest: "rt_interrupt_nest s = 0" using c by (simp add: caller_def)
  obtain s' where s': "heap_lock n s = Some (True, s')" "blocked (L_sem n) c (obj_flag (objs s (O_Sem n))) s s'"
    using lock_waits [OF k ty v c] flag by auto
  obtain h' where "heap_free p h = Some h'" by (rule free_total [OF h])
  then have "(heap_ptr h + p) AND 3 = 0" "p < heap_end h" by (auto simp: heap_free_def rt_assert_def split: if_splits)
  then have "\<exists>s'. blocked (L_sem n) c (obj_flag (objs s (O_Sem n))) s s' \<and>
      rt_malloc n sz (s, h) = Some (H_Wait (C_Malloc (malloc_size sz)), s', h) \<and>
      rt_free n (Some p) (s, h) = Some (H_Wait (C_Free p), s', h) \<and>
      rt_realloc n (Some p) sz (s, h) = Some (H_Wait (C_Realloc p (RT_ALIGN sz 4)), s', h)"
    using s' nest sz by (auto simp: rt_malloc_def rt_free_def rt_realloc_def Let_def not_less)
  moreover have "\<exists>r s' h'. heap_resume n (C_Malloc (malloc_size sz)) (s, h) = Some (H_Ret r, s', h') \<and> heap_inv h' \<and>
      handed_over (L_sem n) t s s' \<and> sem_value (sems s' n) = 0" if q: "tq s (L_sem n) = t # ts" for t ts
  proof -
    obtain s1 where s1: "heap_unlock n s = Some s1" "handed_over (L_sem n) t s s1" "sems s1 = sems s"
      by (rule unlock_hands_over [OF k ty c q])
    obtain r h1 where "malloc_locked (malloc_size sz) h = Some (r, h1)" "heap_inv h1"
      by (rule malloc_locked_total [OF h(1) sz(1,3)])
    then show ?thesis using s1 v by (simp add: malloc_go_def)
  qed
  ultimately show ?thesis by blast
qed

subsection \<open>Examples\<close>

theorem heap_calls_atomic_witness:
  "\<exists>r h'. rt_malloc 5 100 (set_sem_value 5 1 kex, heap_example) = Some (H_Ret r, set_sem_value 5 1 kex, h') \<and> heap_inv h'"
proof -
  have "heap_free_now 5 (set_sem_value 5 1 kex)" by (simp add: heap_free_now_def)
  then show ?thesis using heap_calls_atomic [of 5 "set_sem_value 5 1 kex" 100 heap_example] heap_example_inv(1) by blast
qed

lemma heap_calls_exclusive_witness:
  "\<exists>h s'. heap_malloc 100 heap_example = Some (Some 12, h) \<and>
     rt_free 0 (Some 12) (kex, h) = Some (H_Wait (C_Free 12), s', h) \<and> tq s' (L_sem 0) = [4, 1]"
proof -
  obtain h where h: "heap_malloc 100 heap_example = Some (Some 12, h)" "heap_inv h" "heap_live h = {12}" by (rule heap_example_block)
  have v: "sem_value (sems kex 0) = 0" by (simp add: kex_def)
  have "heap_same heap_example h"
    by (rule malloc_total [OF heap_example_inv(1), where sz = 100]) (use h(1) in auto)
  then have m: "mem_size_aligned h = mem_size_aligned heap_example" by (simp add: heap_same_def)
  have "(100 :: u32) \<noteq> 0" "0 < RT_ALIGN (100 :: u32) 4" "RT_ALIGN 100 4 \<le> mem_size_aligned h"
    using heap_example_inv(4) by (simp_all add: RT_ALIGN_def m word_le_nat_alt)
  then obtain s' where s': "rt_free 0 (Some 12) (kex, h) = Some (H_Wait (C_Free 12), s', h)" "blocked (L_sem 0) 1 1 kex s'"
    using heap_calls_exclusive [OF kex_kinv _ v kex_caller _ h(2), of 12 100] h(3) by auto
  moreover have "enqueue 1 kex 1 [4] = [4, 1]" using kex_prio [of 1] kex_prio [of 4] by (simp add: enqueue_def)
  ultimately show ?thesis using h(1) by (auto simp: blocked_def)
qed

end
