(* ===== verification/Completion.thy ===== *)
theory Completion
  imports Example_State
begin

text \<open>
  The completion of \<open>components/drivers/src/completion.c\<close>: a flag one thread waits for and a
  driver sets. The state is the flag and the kernel, whose list \<open>L_completion n\<close> holds the
  waiting thread. The theory shows that a wait and a signal meet in either order, each signal
  is used once, and what a wait that times out returns.
\<close>

subsection \<open>Operations\<close>

record rt_completion =
  comp_flag :: u32

abbreviation (input) RT_COMPLETED :: u32 where "RT_COMPLETED \<equiv> 1"
abbreviation (input) RT_UNCOMPLETED :: u32 where "RT_UNCOMPLETED \<equiv> 0"

text \<open>The driver objects wait in the order of arrival; the code that suspends the thread is
  the same in each of them.\<close>

definition wait_on :: "lhead \<Rightarrow> tid \<Rightarrow> u32 \<Rightarrow> kernel \<Rightarrow> kernel option" where
  "wait_on l t timeout s = do {
     (_, s1) \<leftarrow> rt_thread_suspend t s;
     let s2 = tlist_insert_before l t s1;
     s3 \<leftarrow> (if 0 < sint timeout then start_thread_timer t timeout s2 else Some s2);
     rt_schedule s3
   }"

definition rt_completion_init :: "nat \<Rightarrow> rt_completion \<times> kernel \<Rightarrow> rt_completion \<times> kernel" where
  "rt_completion_init n = (\<lambda>(cp, s). (cp\<lparr>comp_flag := RT_UNCOMPLETED\<rparr>, s\<lparr>tq := (tq s)(L_completion n := [])\<rparr>))"

definition rt_completion_wait ::
  "nat \<Rightarrow> u32 \<Rightarrow> rt_completion \<times> kernel \<Rightarrow> (unit outcome \<times> rt_completion \<times> kernel) option" where
  "rt_completion_wait n timeout = (\<lambda>(cp, s).
     if comp_flag cp \<noteq> RT_COMPLETED
     then do {
       rt_assert (tlist_isempty (L_completion n) s);
       if timeout = 0 then Some (Done (- RT_ETIMEOUT), cp, s)
       else do {
         thread \<leftarrow> rt_thread_self s;
         let s1 = upd_thread thread (\<lambda>th. th\<lparr>err := RT_EOK\<rparr>) s;
         rt_assert (rt_interrupt_nest s1 = 0);
         s2 \<leftarrow> wait_on (L_completion n) thread timeout s1;
         Some (Block (), cp, s2)
       }
     }
     else Some (Done RT_EOK, cp\<lparr>comp_flag := RT_UNCOMPLETED\<rparr>, s))"

definition rt_completion_wait_wake :: "tid \<Rightarrow> rt_completion \<times> kernel \<Rightarrow> rt_err_t \<times> rt_completion \<times> kernel" where
  "rt_completion_wait_wake thread = (\<lambda>(cp, s).
     (err (threads s thread), cp\<lparr>comp_flag := RT_UNCOMPLETED\<rparr>, s))"

definition rt_completion_done :: "nat \<Rightarrow> rt_completion \<times> kernel \<Rightarrow> (rt_completion \<times> kernel) option" where
  "rt_completion_done n = (\<lambda>(cp, s).
     if comp_flag cp = RT_COMPLETED then Some (cp, s)
     else do {
       let cp1 = cp\<lparr>comp_flag := RT_COMPLETED\<rparr>;
       s1 \<leftarrow> wake_first (L_completion n) s;
       Some (cp1, s1)
     })"

lemma wait_on_fifo: "wait_on l t timeout s = ipc_wait l t RT_IPC_FLAG_FIFO timeout s"
  by (simp add: wait_on_def ipc_wait_def rt_ipc_list_suspend_def split: bind_splits)

lemma wait_on_total:
  assumes k: "kinv s" and c: "caller s c" and l: "wait_head l" and time: "wait_time_ok timeout"
  obtains s' where "wait_on l c timeout (upd_thread c (\<lambda>th. th\<lparr>err := RT_EOK\<rparr>) s) = Some s'" "blocked l c RT_IPC_FLAG_FIFO s s'"
  using block_total [OF k c _ l time, of 0] by (auto simp: wait_on_fifo)

subsection \<open>Correctness\<close>

definition comp_ready :: "nat \<Rightarrow> rt_completion \<times> kernel \<Rightarrow> bool" where
  "comp_ready n = (\<lambda>(cp, s). kinv s \<and> rt_current_thread s \<noteq> None \<and> length (tq s (L_completion n)) \<le> 1 \<and>
     (comp_flag cp = RT_COMPLETED \<longrightarrow> tq s (L_completion n) = []))"

text \<open>At most one thread waits, and none for a signal that has come.\<close>

lemma completion_wait_total:
  assumes r: "comp_ready n (cp, s)" and c: "caller s c" and time: "wait_time_ok timeout"
    and e: "tq s (L_completion n) = []"
  shows "\<exists>r cp' s'. rt_completion_wait n timeout (cp, s) = Some (r, cp', s') \<and> comp_ready n (cp', s') \<and>
    (if comp_flag cp = RT_COMPLETED then r = Done RT_EOK \<and> cp' = cp\<lparr>comp_flag := RT_UNCOMPLETED\<rparr> \<and> s' = s
     else if timeout = 0 then r = Done (- RT_ETIMEOUT) \<and> cp' = cp \<and> s' = s
     else r = Block () \<and> cp' = cp \<and> blocked (L_completion n) c RT_IPC_FLAG_FIFO s s')"
proof (cases "comp_flag cp = RT_COMPLETED \<or> timeout = 0")
  case True
  then show ?thesis using r e by (auto simp: rt_completion_wait_def comp_ready_def tlist_isempty_def)
next
  case False
  have k: "kinv s" using r by (simp add: comp_ready_def)
  obtain s' where s': "wait_on (L_completion n) c timeout (upd_thread c (\<lambda>th. th\<lparr>err := 0\<rparr>) s) = Some s'"
      "blocked (L_completion n) c 0 s s'"
    by (rule wait_on_total [OF k c _ time, of "L_completion n"]) simp
  have "rt_completion_wait n timeout (cp, s) = Some (Block (), cp, s')"
    using False s'(1) e c by (simp add: rt_completion_wait_def tlist_isempty_def rt_thread_self_def caller_def)
  moreover have "comp_ready n (cp, s')" using False s'(2) e by (simp add: comp_ready_def blocked_def enqueue_def)
  ultimately show ?thesis using False s'(2) by simp
qed

lemma completion_done_total:
  assumes r: "comp_ready n (cp, s)"
  shows "\<exists>s'. rt_completion_done n (cp, s) = Some (cp\<lparr>comp_flag := RT_COMPLETED\<rparr>, s') \<and>
    comp_ready n (cp\<lparr>comp_flag := RT_COMPLETED\<rparr>, s') \<and> woke_first (L_completion n) s s'"
proof (cases "comp_flag cp = RT_COMPLETED")
  case True
  then have "cp\<lparr>comp_flag := RT_COMPLETED\<rparr> = cp" by simp
  then show ?thesis using True r by (simp add: rt_completion_done_def comp_ready_def woke_first_def)
next
  case False
  have k: "kinv s" and c: "rt_current_thread s \<noteq> None" and len: "length (tq s (L_completion n)) \<le> 1"
    using r by (simp_all add: comp_ready_def)
  obtain s' where s': "wake_first (L_completion n) s = Some s'" "woke_first (L_completion n) s s'"
    using wake_first_total [OF k c, of "L_completion n"] by auto
  have "tq s' (L_completion n) = []"
    using s'(2) len by (cases "tq s (L_completion n)") (auto simp: woke_first_def handed_over_def)
  then show ?thesis
    using False s' woke_first_same [OF s'(2) k c] by (simp add: rt_completion_done_def comp_ready_def)
qed

text \<open>C31: a wait and a signal meet in either order. A signal that comes first is kept, and the
  wait takes it at once; a wait that comes first suspends the thread, the signal makes it
  runnable again, and its call returns success. Either way the completion is clear
  afterwards, so that one signal serves one wait.\<close>

theorem completion_handshake:
  assumes r: "comp_ready n (cp, s)" and c: "caller s c" and time: "timeout \<noteq> 0" "wait_time_ok timeout"
    and e: "tq s (L_completion n) = []" and clear: "comp_flag cp = RT_UNCOMPLETED"
  shows "(\<exists>cp1. rt_completion_done n (cp, s) = Some (cp1, s) \<and> rt_completion_wait n timeout (cp1, s) = Some (Done RT_EOK, cp, s)) \<and>
    (\<exists>s1 cp2 s2. rt_completion_wait n timeout (cp, s) = Some (Block (), cp, s1) \<and> tstat s1 c = RT_THREAD_SUSPEND \<and>
      rt_completion_done n (cp, s1) = Some (cp2, s2) \<and> (tstat s2 c = RT_THREAD_READY \<or> tstat s2 c = RT_THREAD_RUNNING) \<and>
      rt_completion_wait_wake c (cp2, s2) = (RT_EOK, cp, s2) \<and> comp_ready n (cp, s2))"
proof
  have cp: "cp\<lparr>comp_flag := 0\<rparr> = cp" using clear by simp
  show "\<exists>cp1. rt_completion_done n (cp, s) = Some (cp1, s) \<and> rt_completion_wait n timeout (cp1, s) = Some (Done 0, cp, s)"
    using clear e cp by (simp add: rt_completion_done_def rt_completion_wait_def wake_first_def tlist_isempty_def)
  obtain s1 where s1: "rt_completion_wait n timeout (cp, s) = Some (Block (), cp, s1)" "comp_ready n (cp, s1)"
      "blocked (L_completion n) c 0 s s1"
    using completion_wait_total [OF r c time(2) e] time(1) clear by auto
  have q: "tq s1 (L_completion n) = [c]" using s1(3) e by (simp add: blocked_def enqueue_def)
  obtain s2 where s2: "rt_completion_done n (cp, s1) = Some (cp\<lparr>comp_flag := 1\<rparr>, s2)"
      "comp_ready n (cp\<lparr>comp_flag := 1\<rparr>, s2)" "woke_first (L_completion n) s1 s2"
    using completion_done_total [OF s1(2)] by blast
  then have h: "handed_over (L_completion n) c s1 s2" using q by (simp add: woke_first_def)
  then have "rt_completion_wait_wake c (cp\<lparr>comp_flag := 1\<rparr>, s2) = (0, cp, s2)"
    using s1(3) cp by (simp add: rt_completion_wait_wake_def blocked_def handed_over_def)
  then show "\<exists>s1 cp2 s2. rt_completion_wait n timeout (cp, s) = Some (Block (), cp, s1) \<and> tstat s1 c = 2 \<and>
      rt_completion_done n (cp, s1) = Some (cp2, s2) \<and> (tstat s2 c = 1 \<or> tstat s2 c = 3) \<and>
      rt_completion_wait_wake c (cp2, s2) = (0, cp, s2) \<and> comp_ready n (cp, s2)"
    using s1 s2 h clear by (auto simp: blocked_def handed_over_def comp_ready_def)
qed

text \<open>A signal between the end of the time and the moment the thread runs again is lost: the
  call returns \<open>- RT_ETIMEOUT\<close> and clears the flag.\<close>

lemma completion_timeout_drops:
  assumes "err (threads s c) = - RT_ETIMEOUT" "tq s (L_completion n) = []" "comp_flag cp = RT_UNCOMPLETED"
  shows "\<exists>cp1. rt_completion_done n (cp, s) = Some (cp1, s) \<and> comp_flag cp1 = RT_COMPLETED \<and>
    rt_completion_wait_wake c (cp1, s) = (- RT_ETIMEOUT, cp, s)"
  using assms by (simp add: rt_completion_done_def rt_completion_wait_wake_def wake_first_def tlist_isempty_def)

subsection \<open>Examples\<close>

lemma kex_comp [simp]: "tq kex (L_completion n) = []"
  by (simp add: kex_def)

lemma kex_comp_ready: "comp_ready n (\<lparr>comp_flag = v\<rparr>, kex)"
  by (simp add: comp_ready_def kex_kinv)

theorem completion_handshake_witness:
  "\<exists>s1 cp2 s2. rt_completion_wait 0 10 (\<lparr>comp_flag = 0\<rparr>, kex) = Some (Block (), \<lparr>comp_flag = 0\<rparr>, s1) \<and>
     rt_completion_done 0 (\<lparr>comp_flag = 0\<rparr>, s1) = Some (cp2, s2) \<and>
     rt_completion_wait_wake 1 (cp2, s2) = (0, \<lparr>comp_flag = 0\<rparr>, s2)"
proof -
  have "wait_time_ok 10" by (simp add: wait_time_ok_def)
  then show ?thesis using completion_handshake [OF kex_comp_ready kex_caller, of 10 0 0] by auto
qed

end
