(* ===== verification/Data_Queue.thy ===== *)
theory Data_Queue
  imports Completion Fifo_Spec
begin

text \<open>
  The data queue of \<open>components/drivers/src/dataqueue.c\<close>: a ring of pairs of a pointer and a
  size with two 16 bit counters, a list of threads that wait to push and one of threads that
  wait to pop. The state is the queue and the kernel. The theory shows that the queue is
  first-in first-out as long as the counters have not run over, and that it accepts more than
  it has room for once they have: the difference of the counters is computed as an \<open>int\<close>.
\<close>

subsection \<open>Operations\<close>

type_synonym data_item = "u32 \<times> u32"

record rt_data_queue =
  dq_size :: u16
  lwm :: u16
  get_index :: u16
  put_index :: u16
  dq_items :: "data_item list"
  evt_notify :: "nat option"

abbreviation (input) RT_DATAQUEUE_EVENT_POP :: u32 where "RT_DATAQUEUE_EVENT_POP \<equiv> 1"
abbreviation (input) RT_DATAQUEUE_EVENT_PUSH :: u32 where "RT_DATAQUEUE_EVENT_PUSH \<equiv> 2"
abbreviation (input) RT_DATAQUEUE_EVENT_LWM :: u32 where "RT_DATAQUEUE_EVENT_LWM \<equiv> 3"

type_synonym dq_state = "rt_data_queue \<times> kernel"

text \<open>The function behind \<open>evt_notify\<close> is a parameter.\<close>

type_synonym dq_notify = "nat \<Rightarrow> u32 \<Rightarrow> dq_state \<Rightarrow> dq_state option"

definition dq_event :: "dq_notify \<Rightarrow> u32 \<Rightarrow> dq_state \<Rightarrow> dq_state option" where
  "dq_event notify ev = (\<lambda>(q, s). case evt_notify q of None \<Rightarrow> Some (q, s) | Some f \<Rightarrow> notify f ev (q, s))"

text \<open>\<open>put_index - get_index\<close>: the operands are promoted to \<open>int\<close>.\<close>

definition dq_diff :: "rt_data_queue \<Rightarrow> int" where
  "dq_diff q = uint (put_index q) - uint (get_index q)"

text \<open>\<open>items\<close> is what \<open>rt_malloc\<close> answers for the array.\<close>

definition rt_data_queue_init ::
  "nat \<Rightarrow> data_item list option \<Rightarrow> u16 \<Rightarrow> u16 \<Rightarrow> nat option \<Rightarrow> dq_state \<Rightarrow> rt_err_t \<times> dq_state" where
  "rt_data_queue_init n items sz low notify = (\<lambda>(q, s).
     let q1 = q\<lparr>evt_notify := notify, dq_size := sz, lwm := low, get_index := 0, put_index := 0\<rparr>;
         s1 = s\<lparr>tq := (tq s)(L_dq_push n := [], L_dq_pop n := [])\<rparr>
     in case items of
          None \<Rightarrow> (- RT_ENOMEM, q1\<lparr>dq_items := []\<rparr>, s1)
        | Some xs \<Rightarrow> (RT_EOK, q1\<lparr>dq_items := xs\<rparr>, s1))"

definition dq_store :: "data_item \<Rightarrow> rt_data_queue \<Rightarrow> rt_data_queue option" where
  "dq_store x q =
     (let i = unat (put_index q) mod unat (dq_size q) in
      if dq_size q \<noteq> 0 \<and> i < length (dq_items q)
      then Some (q\<lparr>dq_items := (dq_items q)[i := x], put_index := put_index q + 1\<rparr>) else None)"

definition dq_load :: "rt_data_queue \<Rightarrow> data_item option" where
  "dq_load q =
     (let i = unat (get_index q) mod unat (dq_size q) in
      if dq_size q \<noteq> 0 \<and> i < length (dq_items q) then Some (dq_items q ! i) else None)"

definition dq_push_again ::
  "dq_notify \<Rightarrow> nat \<Rightarrow> tid option \<Rightarrow> data_item \<Rightarrow> u32 \<Rightarrow> dq_state \<Rightarrow> ((data_item \<times> u32) outcome \<times> dq_state) option" where
  "dq_push_again notify n thread x timeout = (\<lambda>(q, s).
     if dq_diff q = uint (dq_size q)
     then if timeout = 0 then Some (Done (- RT_ETIMEOUT), q, s)
          else do {
            rt_assert (rt_interrupt_nest s = 0);
            t \<leftarrow> thread;
            s1 \<leftarrow> wait_on (L_dq_push n) t timeout (upd_thread t (\<lambda>th. th\<lparr>err := RT_EOK\<rparr>) s);
            Some (Block (x, timeout), q, s1)
          }
     else do {
       q1 \<leftarrow> dq_store x q;
       if \<not> tlist_isempty (L_dq_pop n) s
       then do { s1 \<leftarrow> wake_first (L_dq_pop n) s; Some (Done RT_EOK, q1, s1) }
       else do { qs \<leftarrow> dq_event notify RT_DATAQUEUE_EVENT_PUSH (q1, s); Some (Done RT_EOK, qs) }
     })"

definition rt_data_queue_push ::
  "dq_notify \<Rightarrow> nat \<Rightarrow> data_item \<Rightarrow> u32 \<Rightarrow> dq_state \<Rightarrow> ((data_item \<times> u32) outcome \<times> dq_state) option" where
  "rt_data_queue_push notify n x timeout qs = dq_push_again notify n (rt_thread_self (snd qs)) x timeout qs"

definition rt_data_queue_push_wake ::
  "dq_notify \<Rightarrow> nat \<Rightarrow> tid \<Rightarrow> data_item \<times> u32 \<Rightarrow> dq_state \<Rightarrow> ((data_item \<times> u32) outcome \<times> dq_state) option" where
  "rt_data_queue_push_wake notify n t = (\<lambda>(x, timeout) (q, s).
     if err (threads s t) \<noteq> RT_EOK then Some (Done (err (threads s t)), q, s)
     else dq_push_again notify n (Some t) x timeout (q, s))"

definition dq_pop_again ::
  "dq_notify \<Rightarrow> nat \<Rightarrow> tid option \<Rightarrow> u32 \<Rightarrow> dq_state \<Rightarrow> (u32 outcome \<times> data_item option \<times> dq_state) option" where
  "dq_pop_again notify n thread timeout = (\<lambda>(q, s).
     if get_index q = put_index q
     then if timeout = 0 then Some (Done (- RT_ETIMEOUT), None, q, s)
          else do {
            rt_assert (rt_interrupt_nest s = 0);
            t \<leftarrow> thread;
            s1 \<leftarrow> wait_on (L_dq_pop n) t timeout (upd_thread t (\<lambda>th. th\<lparr>err := RT_EOK\<rparr>) s);
            Some (Block timeout, None, q, s1)
          }
     else do {
       x \<leftarrow> dq_load q;
       let q1 = q\<lparr>get_index := get_index q + 1\<rparr>;
       if dq_diff q1 \<le> uint (lwm q1)
       then do {
         s1 \<leftarrow> wake_first (L_dq_push n) s;
         qs \<leftarrow> dq_event notify RT_DATAQUEUE_EVENT_LWM (q1, s1);
         Some (Done RT_EOK, Some x, qs)
       }
       else do { qs \<leftarrow> dq_event notify RT_DATAQUEUE_EVENT_POP (q1, s); Some (Done RT_EOK, Some x, qs) }
     })"

definition rt_data_queue_pop ::
  "dq_notify \<Rightarrow> nat \<Rightarrow> u32 \<Rightarrow> dq_state \<Rightarrow> (u32 outcome \<times> data_item option \<times> dq_state) option" where
  "rt_data_queue_pop notify n timeout qs = dq_pop_again notify n (rt_thread_self (snd qs)) timeout qs"

definition rt_data_queue_pop_wake ::
  "dq_notify \<Rightarrow> nat \<Rightarrow> tid \<Rightarrow> u32 \<Rightarrow> dq_state \<Rightarrow> (u32 outcome \<times> data_item option \<times> dq_state) option" where
  "rt_data_queue_pop_wake notify n t timeout = (\<lambda>(q, s).
     if err (threads s t) \<noteq> RT_EOK then Some (Done (err (threads s t)), None, q, s)
     else dq_pop_again notify n (Some t) timeout (q, s))"

definition rt_data_queue_peak :: "rt_data_queue \<Rightarrow> (rt_err_t \<times> data_item option) option" where
  "rt_data_queue_peak q =
     (if get_index q = put_index q then Some (- RT_EEMPTY, None)
      else do { x \<leftarrow> dq_load q; Some (RT_EOK, Some x) })"

text \<open>\<open>rt_data_queue_reset\<close> wakes every waiting thread with an error; what is in the queue stays
  there.\<close>

definition rt_data_queue_reset :: "nat \<Rightarrow> dq_state \<Rightarrow> dq_state option" where
  "rt_data_queue_reset n = (\<lambda>(q, s). do {
     s1 \<leftarrow> rt_ipc_list_resume_all (L_dq_pop n) (rt_enter_critical s);
     s2 \<leftarrow> rt_ipc_list_resume_all (L_dq_push n) s1;
     s3 \<leftarrow> rt_exit_critical s2;
     s4 \<leftarrow> rt_schedule s3;
     Some (q, s4)
   })"

subsection \<open>The contents\<close>

definition dq_inv :: "rt_data_queue \<Rightarrow> bool" where
  "dq_inv q \<longleftrightarrow> dq_size q \<noteq> 0 \<and> unat (dq_size q) \<le> length (dq_items q) \<and> unat (get_index q) \<le> unat (put_index q) \<and>
     unat (put_index q) - unat (get_index q) \<le> unat (dq_size q)"

definition dq_contents :: "rt_data_queue \<Rightarrow> data_item list" where
  "dq_contents q = map (\<lambda>i. dq_items q ! ((unat (get_index q) + i) mod unat (dq_size q))) [0..<unat (put_index q) - unat (get_index q)]"

lemma length_dq_contents [simp]: "length (dq_contents q) = unat (put_index q) - unat (get_index q)"
  by (simp add: dq_contents_def)

lemma dq_size_pos: "dq_inv q \<Longrightarrow> 0 < unat (dq_size q)"
  by (simp add: dq_inv_def unat_gt_0)

lemma dq_full: "dq_inv q \<Longrightarrow> dq_diff q = uint (dq_size q) \<longleftrightarrow> length (dq_contents q) = unat (dq_size q)"
proof -
  assume "dq_inv q"
  then have le: "unat (get_index q) \<le> unat (put_index q)" by (simp add: dq_inv_def)
  have "dq_diff q = uint (dq_size q) \<longleftrightarrow>
      int (unat (put_index q)) - int (unat (get_index q)) = int (unat (dq_size q))" by (simp add: dq_diff_def)
  also have "\<dots> \<longleftrightarrow> unat (put_index q) - unat (get_index q) = unat (dq_size q)" using le by linarith
  finally show ?thesis by simp
qed

lemma dq_empty: "dq_inv q \<Longrightarrow> get_index q = put_index q \<longleftrightarrow> dq_contents q = []"
proof -
  assume "dq_inv q"
  then have "get_index q = put_index q \<longleftrightarrow> length (dq_contents q) = 0" by (auto simp: dq_inv_def word_unat_eq_iff)
  then show ?thesis by (simp only: length_0_conv)
qed

lemma dq_store_total:
  assumes inv: "dq_inv q" and room: "length (dq_contents q) < unat (dq_size q)" and top: "unat (put_index q) < 65535"
  obtains q' where "dq_store x q = Some q'" "dq_inv q'" "dq_contents q' = dq_contents q @ [x]" "dq_size q' = dq_size q"
    "evt_notify q' = evt_notify q" "unat (put_index q') = unat (put_index q) + 1"
proof -
  let ?n = "unat (dq_size q)" and ?g = "unat (get_index q)" and ?p = "unat (put_index q)"
  let ?q = "q\<lparr>dq_items := (dq_items q)[?p mod ?n := x], put_index := put_index q + 1\<rparr>"
  have n: "0 < ?n" "?n \<le> length (dq_items q)" "?g \<le> ?p" and len: "?p - ?g < ?n"
    using inv room dq_size_pos [OF inv] by (simp_all add: dq_inv_def)
  have i: "?p mod ?n < length (dq_items q)" using n mod_less_divisor [of ?n ?p] by linarith
  have p: "unat (put_index q + 1) = ?p + 1" using top unat_add_small [of "put_index q" 1] by simp
  have "dq_store x q = Some ?q" using i inv by (simp add: dq_store_def dq_inv_def Let_def)
  moreover have "dq_inv ?q" using inv p len by (simp add: dq_inv_def)
  moreover have "dq_contents ?q = dq_contents q @ [x]"
  proof -
    have d: "?p + 1 - ?g = Suc (?p - ?g)" "?g + (?p - ?g) = ?p" using n(3) by simp_all
    have "(?g + k) mod ?n \<noteq> ?p mod ?n" if "k < ?p - ?g" for k
      using that len ring_slots_inj [of k ?n "?p - ?g" ?g] unfolding d(2) by fastforce
    then have "map (\<lambda>k. (dq_items q)[?p mod ?n := x] ! ((?g + k) mod ?n)) [0..<?p - ?g] = dq_contents q"
      unfolding dq_contents_def by (intro map_cong refl nth_list_update_neq) fastforce
    then show ?thesis using p d i by (simp add: dq_contents_def)
  qed
  ultimately show thesis using that [of ?q] p by simp
qed

lemma dq_load_total:
  assumes inv: "dq_inv q" and ne: "dq_contents q = x # xs"
  shows "dq_load q = Some x" "dq_inv (q\<lparr>get_index := get_index q + 1\<rparr>)" "dq_contents (q\<lparr>get_index := get_index q + 1\<rparr>) = xs"
proof -
  let ?n = "unat (dq_size q)" and ?g = "unat (get_index q)" and ?p = "unat (put_index q)"
  have n: "0 < ?n" "?n \<le> length (dq_items q)" using inv dq_size_pos [OF inv] by (simp_all add: dq_inv_def)
  have lt: "?g < ?p" using ne length_dq_contents [of q] by simp
  have g: "unat (get_index q + 1) = ?g + 1"
    using lt unat_less_2p [of "put_index q"] unat_add_small [of "get_index q" 1] by simp
  have i: "?g mod ?n < length (dq_items q)" using n mod_less_divisor [of ?n ?g] by linarith
  have u: "[0..<?p - ?g] = 0 # map Suc [0..<?p - ?g - 1]" using lt by (simp add: upt_conv_Cons map_Suc_upt Suc_diff_Suc del: upt_Suc)
  have c: "dq_contents q = dq_items q ! (?g mod ?n) # dq_contents (q\<lparr>get_index := get_index q + 1\<rparr>)"
    unfolding dq_contents_def u using g by (simp add: comp_def)
  then show "dq_load q = Some x" using ne i inv by (simp add: dq_load_def dq_inv_def Let_def)
  show "dq_contents (q\<lparr>get_index := get_index q + 1\<rparr>) = xs" using c ne by simp
  show "dq_inv (q\<lparr>get_index := get_index q + 1\<rparr>)" using inv g lt by (simp add: dq_inv_def) linarith
qed

subsection \<open>Calls that do not wait\<close>

definition dq_ready :: "dq_state \<Rightarrow> bool" where
  "dq_ready = (\<lambda>(q, s). dq_inv q \<and> evt_notify q = None \<and> kinv s \<and> rt_current_thread s \<noteq> None)"

definition dq_put :: "dq_notify \<Rightarrow> nat \<Rightarrow> data_item \<Rightarrow> dq_state \<Rightarrow> dq_state option" where
  "dq_put notify n x qs =
     (case rt_data_queue_push notify n x 0 qs of Some (Done e, qs') \<Rightarrow> if e = RT_EOK then Some qs' else None | _ \<Rightarrow> None)"

definition dq_get :: "dq_notify \<Rightarrow> nat \<Rightarrow> dq_state \<Rightarrow> (data_item \<times> dq_state) option" where
  "dq_get notify n qs =
     (case rt_data_queue_pop notify n 0 qs of Some (Done e, Some x, qs') \<Rightarrow> Some (x, qs') | _ \<Rightarrow> None)"

lemma wake_first_ready:
  assumes "kinv s" "rt_current_thread s \<noteq> None" "wait_head l"
  obtains s' where "wake_first l s = Some s'" "woke_first l s s'" "kinv s'" "rt_current_thread s' \<noteq> None"
  using wake_first_total [OF assms] woke_first_same [OF _ assms(1,2)] by metis

lemma dq_put_full: "dq_ready (q, s) \<Longrightarrow> length (dq_contents q) = unat (dq_size q) \<Longrightarrow> dq_put notify n x (q, s) = None"
  using dq_full [of q] by (simp add: dq_ready_def dq_put_def rt_data_queue_push_def dq_push_again_def del: length_dq_contents)

lemma dq_put_room:
  assumes r: "dq_ready (q, s)" and room: "length (dq_contents q) < unat (dq_size q)" and top: "unat (put_index q) < 65535"
  obtains q' s' where "dq_put notify n x (q, s) = Some (q', s')" "dq_ready (q', s')" "dq_contents q' = dq_contents q @ [x]"
    "dq_size q' = dq_size q" "unat (put_index q') = unat (put_index q) + 1"
proof -
  have inv: "dq_inv q" and k: "kinv s" "rt_current_thread s \<noteq> None" and ev: "evt_notify q = None"
    using r by (simp_all add: dq_ready_def)
  obtain q' where q': "dq_store x q = Some q'" "dq_inv q'" "dq_contents q' = dq_contents q @ [x]" "dq_size q' = dq_size q"
      "evt_notify q' = evt_notify q" "unat (put_index q') = unat (put_index q) + 1"
    by (rule dq_store_total [OF inv room top])
  have nf: "dq_diff q \<noteq> uint (dq_size q)" using dq_full [OF inv] room by (simp del: length_dq_contents)
  obtain s' where s': "wake_first (L_dq_pop n) s = Some s'" "kinv s'" "rt_current_thread s' \<noteq> None"
    by (rule wake_first_ready [OF k, of "L_dq_pop n"]) auto
  have "s' = s" if "tlist_isempty (L_dq_pop n) s" using that s'(1) by (simp add: wake_first_def)
  then have "dq_put notify n x (q, s) = Some (q', s')"
    using nf q'(1,5) ev s'(1)
    by (cases "tlist_isempty (L_dq_pop n) s")
      (simp_all add: dq_put_def rt_data_queue_push_def dq_push_again_def dq_event_def)
  then show thesis using that q' s' ev by (simp add: dq_ready_def)
qed

lemma dq_get_empty: "dq_ready (q, s) \<Longrightarrow> dq_contents q = [] \<Longrightarrow> dq_get notify n (q, s) = None"
  using dq_empty [of q] by (simp add: dq_ready_def dq_get_def rt_data_queue_pop_def dq_pop_again_def)

lemma dq_get_some:
  assumes r: "dq_ready (q, s)" and ne: "dq_contents q = x # xs"
  obtains q' s' where "dq_get notify n (q, s) = Some (x, q', s')" "dq_ready (q', s')" "dq_contents q' = xs"
    "dq_size q' = dq_size q" "put_index q' = put_index q"
proof -
  have inv: "dq_inv q" and k: "kinv s" "rt_current_thread s \<noteq> None" and ev: "evt_notify q = None"
    using r by (simp_all add: dq_ready_def)
  note L = dq_load_total [OF inv ne]
  obtain s1 where s1: "wake_first (L_dq_push n) s = Some s1" "kinv s1" "rt_current_thread s1 \<noteq> None"
    by (rule wake_first_ready [OF k, of "L_dq_push n"]) auto
  let ?q = "q\<lparr>get_index := get_index q + 1\<rparr>"
  define s' where "s' = (if dq_diff ?q \<le> uint (lwm q) then s1 else s)"
  have "get_index q \<noteq> put_index q" using dq_empty [OF inv] ne by simp
  then have "dq_get notify n (q, s) = Some (x, ?q, s')"
    using L(1) ev s1(1) by (simp add: s'_def dq_get_def rt_data_queue_pop_def dq_pop_again_def dq_event_def)
  then show thesis using that [of ?q s'] L ev k s1 by (simp add: dq_ready_def s'_def)
qed

text \<open>C32: as long as the 16 bit counter of the pushes does not run over (its value and the number
  of calls together are at most 65535), over sequences of pushes and pops that do not wait, on a
  queue without a notification function, the data queue is a bounded first-in first-out queue,
  whatever threads wait on it: what the pops returned followed by what is left is what was there
  followed by what the pushes stored, and never more than the size of the queue is stored.
  Beyond the limit this is false, as the lemma \<open>data_queue_overrun\<close> shows.\<close>

theorem data_queue_fifo:
  assumes "dq_ready (q, s)" and "fifo_calls (dq_put notify n) (dq_get notify n) cs (q, s) = ((q', s'), accepted, returned)"
    and "unat (put_index q) + length cs \<le> 65535"
  shows "dq_ready (q', s') \<and> returned @ dq_contents q' = dq_contents q @ accepted \<and>
    length (dq_contents q') \<le> unat (dq_size q)"
proof -
  have "dq_ready (q', s') \<and> returned @ dq_contents q' = dq_contents q @ accepted \<and> dq_size q' = dq_size q"
    using assms
  proof (induction cs arbitrary: q s accepted returned)
    case Nil
    then show ?case by simp
  next
    case (Cons c cs)
    obtain q1 s1 a1 g1 where c1: "fifo_call (dq_put notify n) (dq_get notify n) c (q, s) = ((q1, s1), a1, g1)"
      by (metis prod_cases3 surj_pair)
    obtain q2 s2 a2 g2 where c2: "fifo_calls (dq_put notify n) (dq_get notify n) cs (q1, s1) = ((q2, s2), a2, g2)"
      by (metis prod_cases3 surj_pair)
    have "dq_ready (q1, s1) \<and> g1 @ dq_contents q1 = dq_contents q @ a1 \<and> dq_size q1 = dq_size q \<and>
        unat (put_index q1) \<le> unat (put_index q) + 1"
    proof (cases c)
      case (Put x)
      show ?thesis
      proof (cases "length (dq_contents q) = unat (dq_size q)")
        case True
        then show ?thesis using c1 Put dq_put_full [OF Cons.prems(1) True, of notify n x] Cons.prems(1) by simp
      next
        case False
        then have room: "length (dq_contents q) < unat (dq_size q)" and top: "unat (put_index q) < 65535"
          using Cons.prems(1,3) by (auto simp: dq_ready_def dq_inv_def)
        show ?thesis
          by (rule dq_put_room [OF Cons.prems(1) room top, of notify n x]) (use c1 Put in simp)
      qed
    next
      case Get
      show ?thesis
      proof (cases "dq_contents q")
        case Nil
        then show ?thesis using c1 Get dq_get_empty [OF Cons.prems(1) Nil, of notify n] Cons.prems(1) by simp
      next
        case (Cons x xs)
        show ?thesis by (rule dq_get_some [OF \<open>dq_ready (q, s)\<close> Cons, of notify n]) (use c1 Get Cons in simp)
      qed
    qed
    moreover from this have "dq_ready (q2, s2) \<and> g2 @ dq_contents q2 = dq_contents q1 @ a2 \<and> dq_size q2 = dq_size q1"
      if "(q2, s2) = (q', s')" using Cons.IH [of q1 s1 a2 g2] c2 Cons.prems(3) that by simp
    ultimately show ?case using Cons.prems(2) c1 c2 by (simp add: Let_def) (metis append.assoc)
  qed
  then show ?thesis by (auto simp: dq_ready_def dq_inv_def)
qed

subsection \<open>When the counters run over\<close>

text \<open>A queue nobody waits on and that notifies nobody, whatever its counters are.\<close>

definition dq_quiet :: "nat \<Rightarrow> dq_state \<Rightarrow> bool" where
  "dq_quiet n = (\<lambda>(q, s). dq_size q \<noteq> 0 \<and> unat (dq_size q) \<le> length (dq_items q) \<and> evt_notify q = None \<and>
     tq s (L_dq_push n) = [] \<and> tq s (L_dq_pop n) = [])"

lemma quiet_put:
  assumes r: "dq_quiet n (q, s)" and room: "dq_diff q \<noteq> uint (dq_size q)"
  obtains q' where "dq_put notify n x (q, s) = Some (q', s)" "dq_quiet n (q', s)" "put_index q' = put_index q + 1"
    "get_index q' = get_index q" "dq_size q' = dq_size q"
proof -
  have "0 < unat (dq_size q)" "unat (dq_size q) \<le> length (dq_items q)" using r by (simp_all add: dq_quiet_def unat_gt_0)
  then have i: "unat (put_index q) mod unat (dq_size q) < length (dq_items q)"
    by (meson less_le_trans mod_less_divisor)
  let ?q = "q\<lparr>dq_items := (dq_items q)[unat (put_index q) mod unat (dq_size q) := x], put_index := put_index q + 1\<rparr>"
  have "dq_store x q = Some ?q" using i r by (simp add: dq_store_def dq_quiet_def Let_def)
  then have "dq_put notify n x (q, s) = Some (?q, s)"
    using room r by (simp add: dq_put_def rt_data_queue_push_def dq_push_again_def dq_event_def tlist_isempty_def dq_quiet_def)
  then show thesis using that [of ?q] r by (simp add: dq_quiet_def)
qed

lemma quiet_get:
  assumes r: "dq_quiet n (q, s)" and ne: "get_index q \<noteq> put_index q"
  obtains x q' where "dq_get notify n (q, s) = Some (x, q', s)" "dq_quiet n (q', s)" "put_index q' = put_index q"
    "get_index q' = get_index q + 1" "dq_size q' = dq_size q"
proof -
  have "0 < unat (dq_size q)" "unat (dq_size q) \<le> length (dq_items q)" using r by (simp_all add: dq_quiet_def unat_gt_0)
  then have "unat (get_index q) mod unat (dq_size q) < length (dq_items q)"
    by (meson less_le_trans mod_less_divisor)
  then obtain x where x: "dq_load q = Some x" using r by (simp add: dq_load_def dq_quiet_def Let_def)
  let ?q = "q\<lparr>get_index := get_index q + 1\<rparr>"
  have "dq_get notify n (q, s) = Some (x, ?q, s)"
    using ne x r by (simp add: dq_get_def rt_data_queue_pop_def dq_pop_again_def dq_event_def wake_first_def tlist_isempty_def
        dq_quiet_def Let_def)
  then show thesis using that [of x ?q] r by (simp add: dq_quiet_def)
qed

lemma fifo_calls_append:
  "fifo_calls put get cs s = (s1, a1, g1) \<Longrightarrow> fifo_calls put get ds s1 = (s2, a2, g2) \<Longrightarrow>
   fifo_calls put get (cs @ ds) s = (s2, a1 @ a2, g1 @ g2)"
  by (induction cs arbitrary: s a1 g1) (auto simp: Let_def split: prod.splits)

text \<open>Pushing and popping in turn moves both counters.\<close>

lemma quiet_rounds:
  assumes "dq_quiet n (q, s)" "get_index q = put_index q"
  shows "\<exists>q' acc got. fifo_calls (dq_put notify n) (dq_get notify n) (concat (replicate k [Put x, Get])) (q, s) = ((q', s), acc, got) \<and>
    length acc = k \<and> length got = k \<and> dq_quiet n (q', s) \<and> get_index q' = put_index q' \<and>
    put_index q' = put_index q + of_nat k \<and> dq_size q' = dq_size q"
  using assms
proof (induction k arbitrary: q)
  case 0
  then show ?case by simp
next
  case (Suc k)
  have "dq_diff q \<noteq> uint (dq_size q)" using Suc.prems by (auto simp: dq_diff_def dq_quiet_def uint_0_iff)
  then obtain q1 where q1: "dq_put notify n x (q, s) = Some (q1, s)" "dq_quiet n (q1, s)" "put_index q1 = put_index q + 1"
      "get_index q1 = get_index q" "dq_size q1 = dq_size q" by (rule quiet_put [OF Suc.prems(1)])
  then have "get_index q1 \<noteq> put_index q1" using Suc.prems(2) by simp
  then obtain y q2 where q2: "dq_get notify n (q1, s) = Some (y, q2, s)" "dq_quiet n (q2, s)" "put_index q2 = put_index q1"
      "get_index q2 = get_index q1 + 1" "dq_size q2 = dq_size q1" by (rule quiet_get [OF q1(2)])
  have "get_index q2 = put_index q2" using q1 q2 Suc.prems(2) by simp
  from Suc.IH [OF q2(2) this] obtain q' acc got where
    "fifo_calls (dq_put notify n) (dq_get notify n) (concat (replicate k [Put x, Get])) (q2, s) = ((q', s), acc, got)"
    "length acc = k" "length got = k" "dq_quiet n (q', s)" "get_index q' = put_index q'"
    "put_index q' = put_index q2 + of_nat k" "dq_size q' = dq_size q2" by blast
  then show ?case using q1 q2 by (simp add: Let_def add_ac)
qed

text \<open>With the pop counter at its largest value no push is refused.\<close>

lemma wrapped_pushes:
  assumes "dq_quiet n (q, s)" "get_index q = 0xffff" "put_index q = 0xffff + of_nat j" "j + k \<le> 65536"
  shows "\<exists>q' acc. fifo_calls (dq_put notify n) (dq_get notify n) (replicate k (Put x)) (q, s) = ((q', s), acc, []) \<and> length acc = k"
  using assms
proof (induction k arbitrary: q j)
  case 0
  then show ?case by simp
next
  case (Suc k)
  have "uint (put_index q) \<le> 0xffff" using uint_bounded [of "put_index q"] by simp
  moreover have "0 < uint (dq_size q)" using Suc.prems(1) by (simp add: dq_quiet_def word_neq_0_conv word_less_def)
  ultimately have "dq_diff q \<noteq> uint (dq_size q)" using Suc.prems(2) by (simp add: dq_diff_def)
  then obtain q1 where q1: "dq_put notify n x (q, s) = Some (q1, s)" "dq_quiet n (q1, s)" "put_index q1 = put_index q + 1"
      "get_index q1 = get_index q" "dq_size q1 = dq_size q" by (rule quiet_put [OF Suc.prems(1)])
  have "put_index q1 = 0xffff + of_nat (Suc j)" using q1(3) Suc.prems(3) by (simp add: add_ac)
  moreover have "get_index q1 = 0xffff" using q1(4) Suc.prems(2) by simp
  ultimately obtain q' acc where
    "fifo_calls (dq_put notify n) (dq_get notify n) (replicate k (Put x)) (q1, s) = ((q', s), acc, [])" "length acc = k"
    using Suc.IH [OF q1(2), of "Suc j"] Suc.prems(4) by auto
  then show ?case using q1(1) by (simp add: Let_def)
qed

text \<open>The queue does not stay bounded. From its initialisation on there is a sequence of
  pushes and pops, none of which waits or faults, after which the pushes have been told that
  one item more is stored than the queue has slots: the difference of the 16 bit counters is
  negative once the push counter has run over, and is never equal to the size.\<close>

lemma data_queue_overrun:
  assumes sz: "sz \<noteq> 0" "unat sz \<le> length items"
    and q: "rt_data_queue_init n (Some items) sz low None (q0, s0) = (RT_EOK, q, s)"
  shows "\<exists>cs q' accepted returned.
    fifo_calls (dq_put notify n) (dq_get notify n) cs (q, s) = ((q', s), accepted, returned) \<and>
    length accepted = length returned + unat sz + 1"
proof -
  have quiet: "dq_quiet n (q, s)" and i: "get_index q = put_index q" "put_index q = 0"
    using q sz by (auto simp: rt_data_queue_init_def dq_quiet_def Let_def)
  obtain q1 a1 g1 where r: "fifo_calls (dq_put notify n) (dq_get notify n) (concat (replicate 65535 [Put (0, 0), Get])) (q, s) = ((q1, s), a1, g1)"
      "length a1 = 65535" "length g1 = 65535" "dq_quiet n (q1, s)" "get_index q1 = put_index q1" "put_index q1 = put_index q + of_nat 65535"
    using quiet_rounds [OF quiet i(1), of notify 65535 "(0, 0)"] by blast
  have "unat sz < 65536" using unat_less_2p [of sz] by simp
  then obtain q2 a2 where p: "fifo_calls (dq_put notify n) (dq_get notify n) (replicate (unat sz + 1) (Put (0, 0))) (q1, s) = ((q2, s), a2, [])"
      "length a2 = unat sz + 1"
    using wrapped_pushes [OF r(4), of 0 "unat sz + 1" notify "(0, 0)"] r(5,6) i(2) by auto
  show ?thesis using fifo_calls_append [OF r(1) p(1)] r(2,3) p(2) by fastforce
qed

subsection \<open>Examples\<close>

definition dqex :: rt_data_queue where
  "dqex = \<lparr>dq_size = 2, lwm = 1, get_index = 65530, put_index = 65531, dq_items = [(1, 4), (2, 4)], evt_notify = None\<rparr>"

lemma dqex_ready: "dq_ready (dqex, kex)" "dq_contents dqex = [(1, 4)]"
  by (simp_all add: dq_ready_def dqex_def dq_inv_def dq_contents_def kex_kinv)

theorem data_queue_fifo_witness:
  "\<exists>q' s' acc got. fifo_calls (dq_put (\<lambda>_ _. Some) 0) (dq_get (\<lambda>_ _. Some) 0) [Put (7, 8), Put (9, 9), Get, Get] (dqex, kex) = ((q', s'), acc, got) \<and>
     got @ dq_contents q' = (1, 4) # acc"
proof -
  obtain q' s' acc got where e: "fifo_calls (dq_put (\<lambda>_ _. Some) 0) (dq_get (\<lambda>_ _. Some) 0) [Put (7, 8), Put (9, 9), Get, Get] (dqex, kex) = ((q', s'), acc, got)"
    by (metis prod_cases3 surj_pair)
  have "unat (put_index dqex) = 65531" by (simp add: dqex_def)
  then show ?thesis using data_queue_fifo [OF dqex_ready(1) e] e dqex_ready(2) by simp
qed

lemma data_queue_overrun_witness:
  "\<exists>q s cs q' acc got. rt_data_queue_init 0 (Some [(0, 0), (0, 0)]) 2 0 None (dqex, kex) = (0, q, s) \<and>
     fifo_calls (dq_put (\<lambda>_ _. Some) 0) (dq_get (\<lambda>_ _. Some) 0) cs (q, s) = ((q', s), acc, got) \<and> length acc = length got + 3"
proof -
  obtain e q s where q: "rt_data_queue_init 0 (Some [(0, 0), (0, 0)]) 2 0 None (dqex, kex) = (e, q, s)" by (metis prod_cases3)
  then have "e = 0" by (auto simp: rt_data_queue_init_def Let_def)
  then show ?thesis using data_queue_overrun [of 2 "[(0, 0), (0, 0)]" 0 0 dqex kex q s "\<lambda>_ _. Some"] q by (simp add: numeral_3_eq_3)
qed

end
