(* ===== verification/Device.thy ===== *)
theory Device
  imports Thread_Life Simulation
begin

text \<open>
  The device framework of \<open>src/device.c\<close>: registration under a name, initialisation on the first
  open, a count of the open handles, and calls that are passed on to the driver. The
  functions of the driver are parameters (\<open>rt_device_ops\<close>); each may be null. The state is the
  device and the kernel, which holds the object header \<open>O_Device n\<close>; \<open>dev_data\<close> are the words a
  driver keeps behind \<open>user_data\<close>. The theory shows that the device is a counter of handles for
  drivers that succeed, and which functions of the driver each open and each close calls, what a
  failing close leaves behind, and that no device can be destroyed.
\<close>

subsection \<open>Operations\<close>

record rt_device =
  dev_type :: nat
  dev_flag :: u16
  open_flag :: u16
  ref_count :: u8
  device_id :: u8
  rx_indicate :: "nat option"
  tx_complete :: "nat option"
  dev_data :: "u32 list"

type_synonym dev_state = "rt_device \<times> kernel"

record rt_device_ops =
  device_init :: "(dev_state \<Rightarrow> (rt_err_t \<times> dev_state) option) option"
  device_open :: "(u16 \<Rightarrow> dev_state \<Rightarrow> (rt_err_t \<times> dev_state) option) option"
  device_close :: "(dev_state \<Rightarrow> (rt_err_t \<times> dev_state) option) option"
  device_read :: "(u32 \<Rightarrow> u32 \<Rightarrow> dev_state \<Rightarrow> ((u32 \<times> u8 list) \<times> dev_state) option) option"
  device_write :: "(u32 \<Rightarrow> u8 list \<Rightarrow> u32 \<Rightarrow> dev_state \<Rightarrow> (u32 \<times> dev_state) option) option"
  device_control :: "(int \<Rightarrow> u32 \<Rightarrow> dev_state \<Rightarrow> (rt_err_t \<times> dev_state) option) option"

abbreviation (input) RT_DEVICE_FLAG_STANDALONE :: u16 where "RT_DEVICE_FLAG_STANDALONE \<equiv> 0x008"
abbreviation (input) RT_DEVICE_FLAG_ACTIVATED :: u16 where "RT_DEVICE_FLAG_ACTIVATED \<equiv> 0x010"
abbreviation (input) RT_DEVICE_OFLAG_CLOSE :: u16 where "RT_DEVICE_OFLAG_CLOSE \<equiv> 0x000"
abbreviation (input) RT_DEVICE_OFLAG_OPEN :: u16 where "RT_DEVICE_OFLAG_OPEN \<equiv> 0x008"
abbreviation (input) RT_DEVICE_OFLAG_MASK :: u16 where "RT_DEVICE_OFLAG_MASK \<equiv> 0xf0f"

definition rt_device_find :: "string \<Rightarrow> kernel \<Rightarrow> (oid option \<times> kernel) option" where
  "rt_device_find nm s = do {
     let s1 = (if rt_thread_self s \<noteq> None then rt_enter_critical s else s);
     inf \<leftarrow> rt_object_get_information RT_Object_Class_Device;
     let found = find_by_name s1 nm (object_list s1 inf);
     s2 \<leftarrow> (if rt_thread_self s1 \<noteq> None then rt_exit_critical s1 else Some s1);
     Some (found, s2)
   }"

definition rt_device_register :: "nat option \<Rightarrow> string \<Rightarrow> u16 \<Rightarrow> dev_state \<Rightarrow> (rt_err_t \<times> dev_state) option" where
  "rt_device_register dev nm flags = (\<lambda>(d, s).
     case dev of
       None \<Rightarrow> Some (- RT_ERROR, d, s)
     | Some n \<Rightarrow> do {
         (found, s1) \<leftarrow> rt_device_find nm s;
         if found \<noteq> None then Some (- RT_ERROR, d, s1)
         else do {
           s2 \<leftarrow> rt_object_init (O_Device n) RT_Object_Class_Device nm s1;
           Some (RT_EOK, d\<lparr>dev_flag := flags, ref_count := 0, open_flag := 0\<rparr>, s2)
         }
       })"

definition rt_device_unregister :: "nat \<Rightarrow> kernel \<Rightarrow> (rt_err_t \<times> kernel) option" where
  "rt_device_unregister n s = do {
     rt_assert (rt_object_get_type (O_Device n) s = RT_Object_Class_Device);
     rt_assert (rt_object_is_systemobject (O_Device n) s);
     Some (RT_EOK, rt_object_detach (O_Device n) s)
   }"

definition rt_device_init_all :: rt_err_t where
  "rt_device_init_all = RT_EOK"

text \<open>\<open>fresh\<close> is what \<open>rt_malloc\<close> answers; the control block is filled with zeros.\<close>

definition zero_device :: rt_device where
  "zero_device = \<lparr>dev_type = 0, dev_flag = 0, open_flag = 0, ref_count = 0, device_id = 0, rx_indicate = None, tx_complete = None,
     dev_data = []\<rparr>"

definition rt_device_create :: "nat option \<Rightarrow> nat \<Rightarrow> kernel \<Rightarrow> (nat \<times> rt_device) option \<times> kernel" where
  "rt_device_create fresh type s =
     (case fresh of
        None \<Rightarrow> (None, s)
      | Some n \<Rightarrow>
          (Some (n, zero_device\<lparr>dev_type := type\<rparr>),
           upd_obj (O_Device n) (\<lambda>_. \<lparr>obj_name = [], obj_type = 0, obj_flag = 0\<rparr>) s))"

definition rt_device_destroy :: "nat \<Rightarrow> kernel \<Rightarrow> kernel option" where
  "rt_device_destroy n s = do {
     rt_assert (rt_object_get_type (O_Device n) s = RT_Object_Class_Device);
     rt_assert (\<not> rt_object_is_systemobject (O_Device n) s);
     Some (rt_object_detach (O_Device n) s)
   }"

definition activate :: "dev_state \<Rightarrow> dev_state" where
  "activate = (\<lambda>(d, s). (d\<lparr>dev_flag := dev_flag d OR RT_DEVICE_FLAG_ACTIVATED\<rparr>, s))"

definition rt_device_init :: "rt_device_ops \<Rightarrow> dev_state \<Rightarrow> (rt_err_t \<times> dev_state) option" where
  "rt_device_init dops ds =
     (case device_init dops of
        None \<Rightarrow> Some (RT_EOK, ds)
      | Some f \<Rightarrow>
          if dev_flag (fst ds) AND RT_DEVICE_FLAG_ACTIVATED = 0
          then do { (result, ds1) \<leftarrow> f ds; Some (result, if result \<noteq> RT_EOK then ds1 else activate ds1) }
          else Some (RT_EOK, ds))"

definition open_init :: "rt_device_ops \<Rightarrow> dev_state \<Rightarrow> (rt_err_t \<times> dev_state) option" where
  "open_init dops ds =
     (if dev_flag (fst ds) AND RT_DEVICE_FLAG_ACTIVATED = 0
      then do {
        (result, ds1) \<leftarrow> (case device_init dops of None \<Rightarrow> Some (RT_EOK, ds) | Some f \<Rightarrow> f ds);
        Some (result, if result \<noteq> RT_EOK then ds1 else activate ds1)
      }
      else Some (RT_EOK, ds))"

definition rt_device_open :: "rt_device_ops \<Rightarrow> nat \<Rightarrow> u16 \<Rightarrow> dev_state \<Rightarrow> (rt_err_t \<times> dev_state) option" where
  "rt_device_open dops n oflag ds = do {
     rt_assert (rt_object_get_type (O_Device n) (snd ds) = RT_Object_Class_Device);
     (result, ds1) \<leftarrow> open_init dops ds;
     if result \<noteq> RT_EOK then Some (result, ds1)
     else if dev_flag (fst ds1) AND RT_DEVICE_FLAG_STANDALONE \<noteq> 0 \<and> open_flag (fst ds1) AND RT_DEVICE_OFLAG_OPEN \<noteq> 0
     then Some (- RT_EBUSY, ds1)
     else do {
       (result, d, s) \<leftarrow> (case device_open dops of
           Some f \<Rightarrow> f oflag ds1
         | None \<Rightarrow> Some (RT_EOK, (fst ds1)\<lparr>open_flag := oflag AND RT_DEVICE_OFLAG_MASK\<rparr>, snd ds1));
       if result = RT_EOK \<or> result = - RT_ENOSYS
       then do {
         let d1 = d\<lparr>open_flag := open_flag d OR RT_DEVICE_OFLAG_OPEN, ref_count := ref_count d + 1\<rparr>;
         rt_assert (ref_count d1 \<noteq> 0);
         Some (result, d1, s)
       }
       else Some (result, d, s)
     }
   }"

definition rt_device_close :: "rt_device_ops \<Rightarrow> nat \<Rightarrow> dev_state \<Rightarrow> (rt_err_t \<times> dev_state) option" where
  "rt_device_close dops n ds = do {
     rt_assert (rt_object_get_type (O_Device n) (snd ds) = RT_Object_Class_Device);
     if ref_count (fst ds) = 0 then Some (- RT_ERROR, ds)
     else do {
       let d1 = (fst ds)\<lparr>ref_count := ref_count (fst ds) - 1\<rparr>;
       if ref_count d1 \<noteq> 0 then Some (RT_EOK, d1, snd ds)
       else do {
         (result, d, s) \<leftarrow> (case device_close dops of Some f \<Rightarrow> f (d1, snd ds) | None \<Rightarrow> Some (RT_EOK, d1, snd ds));
         Some (result, if result = RT_EOK \<or> result = - RT_ENOSYS then d\<lparr>open_flag := RT_DEVICE_OFLAG_CLOSE\<rparr> else d, s)
       }
     }
   }"

definition rt_device_read ::
  "rt_device_ops \<Rightarrow> nat \<Rightarrow> u32 \<Rightarrow> u32 \<Rightarrow> dev_state \<Rightarrow> ((u32 \<times> u8 list) \<times> dev_state) option" where
  "rt_device_read dops n pos sz ds = do {
     rt_assert (rt_object_get_type (O_Device n) (snd ds) = RT_Object_Class_Device);
     if ref_count (fst ds) = 0 then Some ((0, []), fst ds, rt_set_errno (- RT_ERROR) (snd ds))
     else case device_read dops of
       Some f \<Rightarrow> f pos sz ds
     | None \<Rightarrow> Some ((0, []), fst ds, rt_set_errno (- RT_ENOSYS) (snd ds))
   }"

definition rt_device_write ::
  "rt_device_ops \<Rightarrow> nat \<Rightarrow> u32 \<Rightarrow> u8 list \<Rightarrow> u32 \<Rightarrow> dev_state \<Rightarrow> (u32 \<times> dev_state) option" where
  "rt_device_write dops n pos buffer sz ds = do {
     rt_assert (rt_object_get_type (O_Device n) (snd ds) = RT_Object_Class_Device);
     if ref_count (fst ds) = 0 then Some (0, fst ds, rt_set_errno (- RT_ERROR) (snd ds))
     else case device_write dops of
       Some f \<Rightarrow> f pos buffer sz ds
     | None \<Rightarrow> Some (0, fst ds, rt_set_errno (- RT_ENOSYS) (snd ds))
   }"

definition rt_device_control :: "rt_device_ops \<Rightarrow> nat \<Rightarrow> int \<Rightarrow> u32 \<Rightarrow> dev_state \<Rightarrow> (rt_err_t \<times> dev_state) option" where
  "rt_device_control dops n cmd arg ds = do {
     rt_assert (rt_object_get_type (O_Device n) (snd ds) = RT_Object_Class_Device);
     case device_control dops of Some f \<Rightarrow> f cmd arg ds | None \<Rightarrow> Some (- RT_ENOSYS, ds)
   }"

definition rt_device_set_rx_indicate :: "nat \<Rightarrow> nat option \<Rightarrow> dev_state \<Rightarrow> (rt_err_t \<times> dev_state) option" where
  "rt_device_set_rx_indicate n f = (\<lambda>(d, s). do {
     rt_assert (rt_object_get_type (O_Device n) s = RT_Object_Class_Device);
     Some (RT_EOK, d\<lparr>rx_indicate := f\<rparr>, s)
   })"

definition rt_device_set_tx_complete :: "nat \<Rightarrow> nat option \<Rightarrow> dev_state \<Rightarrow> (rt_err_t \<times> dev_state) option" where
  "rt_device_set_tx_complete n f = (\<lambda>(d, s). do {
     rt_assert (rt_object_get_type (O_Device n) s = RT_Object_Class_Device);
     Some (RT_EOK, d\<lparr>tx_complete := f\<rparr>, s)
   })"

subsection \<open>Handles\<close>

text \<open>The calls a client makes; a failed assertion stops the machine.\<close>

datatype dev_op = Dev_Open u16 | Dev_Close

fun dev_call :: "rt_device_ops \<Rightarrow> nat \<Rightarrow> dev_op \<Rightarrow> dev_state \<Rightarrow> (rt_err_t \<times> dev_state) option" where
  "dev_call dops n (Dev_Open oflag) ds = rt_device_open dops n oflag ds"
| "dev_call dops n Dev_Close ds = rt_device_close dops n ds"

definition dev_step :: "rt_device_ops \<Rightarrow> nat \<Rightarrow> dev_op \<Rightarrow> dev_state \<Rightarrow> dev_state \<times> rt_err_t option" where
  "dev_step dops n x ds = (case dev_call dops n x ds of None \<Rightarrow> (ds, None) | Some (r, ds') \<Rightarrow> (ds', Some r))"

text \<open>What a device promises. Its abstract state is whether it is exclusive, whether it has been
  initialised, how many handles are open, and the data of the driver. \<open>eff\<close> is what the driver's
  functions make of its data; a function that is null makes nothing. The driver is initialised by the
  first open, its open function is called by every open that is not refused, its close function by
  the close of the last handle only.\<close>

datatype drv_call = Drv_Init | Drv_Open u16 | Drv_Close

fun drv_has :: "rt_device_ops \<Rightarrow> drv_call \<Rightarrow> bool" where
  "drv_has dops Drv_Init \<longleftrightarrow> device_init dops \<noteq> None"
| "drv_has dops (Drv_Open oflag) \<longleftrightarrow> device_open dops \<noteq> None"
| "drv_has dops Drv_Close \<longleftrightarrow> device_close dops \<noteq> None"

definition drv_effect :: "rt_device_ops \<Rightarrow> (drv_call \<Rightarrow> u32 list \<Rightarrow> u32 list) \<Rightarrow> drv_call \<Rightarrow> u32 list \<Rightarrow> u32 list" where
  "drv_effect dops eff x h = (if drv_has dops x then eff x h else h)"

type_synonym handles = "bool \<times> bool \<times> nat \<times> u32 list"

fun handle_spec :: "rt_device_ops \<Rightarrow> (drv_call \<Rightarrow> u32 list \<Rightarrow> u32 list) \<Rightarrow> dev_op \<Rightarrow> handles \<Rightarrow> handles \<times> rt_err_t option" where
  "handle_spec dops eff (Dev_Open oflag) (alone, active, k, h) =
     (let h1 = (if active then h else drv_effect dops eff Drv_Init h) in
      if alone \<and> 0 < k then ((alone, True, k, h1), Some (- RT_EBUSY))
      else if k = 255 then ((alone, active, k, h), None)
      else ((alone, True, k + 1, drv_effect dops eff (Drv_Open oflag) h1), Some RT_EOK))"
| "handle_spec dops eff Dev_Close (alone, active, k, h) =
     (if k = 0 then ((alone, active, k, h), Some (- RT_ERROR))
      else ((alone, active, k - 1, if k = 1 then drv_effect dops eff Drv_Close h else h), Some RT_EOK))"

definition dev_abs :: "dev_state \<Rightarrow> handles" where
  "dev_abs ds = (dev_flag (fst ds) AND RT_DEVICE_FLAG_STANDALONE \<noteq> 0, dev_flag (fst ds) AND RT_DEVICE_FLAG_ACTIVATED \<noteq> 0,
     unat (ref_count (fst ds)), dev_data (fst ds))"

definition dev_ok :: "nat \<Rightarrow> dev_state \<Rightarrow> bool" where
  "dev_ok n ds \<longleftrightarrow> otype (snd ds) (O_Device n) = RT_Object_Class_Device \<and>
     (ref_count (fst ds) = 0 \<longleftrightarrow> open_flag (fst ds) AND RT_DEVICE_OFLAG_OPEN = 0)"

text \<open>Drivers whose functions, where they have them, succeed, change their data by \<open>eff\<close>, and leave
  the handle count, the flags of the device and the object header to the framework.\<close>

definition dev_kept :: "nat \<Rightarrow> dev_state \<Rightarrow> dev_state \<Rightarrow> bool" where
  "dev_kept n ds ds' \<longleftrightarrow> ref_count (fst ds') = ref_count (fst ds) \<and> dev_flag (fst ds') = dev_flag (fst ds) \<and>
     otype (snd ds') (O_Device n) = otype (snd ds) (O_Device n)"

definition drv_does :: "nat \<Rightarrow> (u32 list \<Rightarrow> u32 list) \<Rightarrow> (rt_err_t \<times> dev_state) option \<Rightarrow> dev_state \<Rightarrow> bool" where
  "drv_does n e res ds \<longleftrightarrow>
     (\<exists>ds'. res = Some (RT_EOK, ds') \<and> dev_kept n ds ds' \<and> dev_data (fst ds') = e (dev_data (fst ds)))"

definition driver_ok :: "nat \<Rightarrow> (drv_call \<Rightarrow> u32 list \<Rightarrow> u32 list) \<Rightarrow> rt_device_ops \<Rightarrow> bool" where
  "driver_ok n eff dops \<longleftrightarrow>
     (\<forall>f ds. device_init dops = Some f \<longrightarrow> drv_does n (eff Drv_Init) (f ds) ds \<and>
        (\<forall>r ds'. f ds = Some (r, ds') \<longrightarrow> open_flag (fst ds') = open_flag (fst ds))) \<and>
     (\<forall>f oflag ds. device_open dops = Some f \<longrightarrow> drv_does n (eff (Drv_Open oflag)) (f oflag ds) ds) \<and>
     (\<forall>f ds. device_close dops = Some f \<longrightarrow> drv_does n (eff Drv_Close) (f ds) ds)"

lemma flag_bits [simp]:
  "(w OR 0x010) AND 0x008 = w AND (0x008 :: u16)" "(w OR 0x008) AND 0x008 = (0x008 :: u16)" "(0 :: u16) AND v = 0"
  "(w OR 0x010) AND 0x010 = (0x010 :: u16)"
  by (simp_all add: bit.conj_disj_distrib2)

text \<open>The three calls of a driver, whether it has the function or not.\<close>

lemma drv_init_total:
  assumes "driver_ok n eff dops"
  obtains ds' where "(case device_init dops of None \<Rightarrow> Some (RT_EOK, ds) | Some f \<Rightarrow> f ds) = Some (RT_EOK, ds')"
    "dev_kept n ds ds'" "open_flag (fst ds') = open_flag (fst ds)"
    "dev_data (fst ds') = drv_effect dops eff Drv_Init (dev_data (fst ds))"
proof (cases "device_init dops")
  case None
  then show thesis using that [of ds] by (simp add: drv_effect_def dev_kept_def)
next
  case (Some f)
  then have "drv_does n (eff Drv_Init) (f ds) ds" "\<And>r ds'. f ds = Some (r, ds') \<Longrightarrow> open_flag (fst ds') = open_flag (fst ds)"
    using assms [unfolded driver_ok_def] by blast+
  then show thesis using that Some by (auto simp: drv_does_def drv_effect_def)
qed

lemma drv_open_total:
  assumes "driver_ok n eff dops"
  obtains ds' where "(case device_open dops of Some f \<Rightarrow> f oflag ds
      | None \<Rightarrow> Some (RT_EOK, (fst ds)\<lparr>open_flag := oflag AND RT_DEVICE_OFLAG_MASK\<rparr>, snd ds)) = Some (RT_EOK, ds')"
    "dev_kept n ds ds'" "dev_data (fst ds') = drv_effect dops eff (Drv_Open oflag) (dev_data (fst ds))"
proof (cases "device_open dops")
  case None
  then show thesis using that [of "((fst ds)\<lparr>open_flag := oflag AND 0xf0f\<rparr>, snd ds)"] by (simp add: drv_effect_def dev_kept_def)
next
  case (Some f)
  then have "drv_does n (eff (Drv_Open oflag)) (f oflag ds) ds" using assms [unfolded driver_ok_def] by blast
  then show thesis using that Some by (auto simp: drv_does_def drv_effect_def)
qed

lemma drv_close_total:
  assumes "driver_ok n eff dops"
  obtains ds' where "(case device_close dops of Some f \<Rightarrow> f ds | None \<Rightarrow> Some (RT_EOK, ds)) = Some (RT_EOK, ds')"
    "dev_kept n ds ds'" "dev_data (fst ds') = drv_effect dops eff Drv_Close (dev_data (fst ds))"
proof (cases "device_close dops")
  case None
  then show thesis using that [of ds] by (simp add: drv_effect_def dev_kept_def)
next
  case (Some f)
  then have "drv_does n (eff Drv_Close) (f ds) ds" using assms [unfolded driver_ok_def] by blast
  then show thesis using that Some by (auto simp: drv_does_def drv_effect_def)
qed

lemma open_init_total:
  assumes "driver_ok n eff dops"
  obtains ds' where "open_init dops ds = Some (RT_EOK, ds')" "open_flag (fst ds') = open_flag (fst ds)"
    "ref_count (fst ds') = ref_count (fst ds)" "otype (snd ds') (O_Device n) = otype (snd ds) (O_Device n)"
    "dev_flag (fst ds') AND RT_DEVICE_FLAG_STANDALONE = dev_flag (fst ds) AND RT_DEVICE_FLAG_STANDALONE"
    "dev_flag (fst ds') AND RT_DEVICE_FLAG_ACTIVATED \<noteq> 0"
    "dev_data (fst ds') = (if dev_flag (fst ds) AND RT_DEVICE_FLAG_ACTIVATED \<noteq> 0 then dev_data (fst ds)
       else drv_effect dops eff Drv_Init (dev_data (fst ds)))"
proof (cases "dev_flag (fst ds) AND 0x010 = 0")
  case True
  obtain d s where ds1: "(case device_init dops of None \<Rightarrow> Some (0, ds) | Some f \<Rightarrow> f ds) = Some (0, d, s)"
      "dev_kept n ds (d, s)" "open_flag d = open_flag (fst ds)" "dev_data d = drv_effect dops eff Drv_Init (dev_data (fst ds))"
    using drv_init_total [OF assms, of ds] by (metis fst_conv prod.collapse)
  then have "open_init dops ds = Some (0, d\<lparr>dev_flag := dev_flag d OR 0x010\<rparr>, s)" using True by (simp add: open_init_def activate_def)
  then show thesis by (rule that) (use ds1 True in \<open>simp_all add: dev_kept_def\<close>)
next
  case False
  then have "open_init dops ds = Some (0, ds)" by (simp add: open_init_def)
  then show thesis by (rule that) (use False in simp_all)
qed

lemma open_refines:
  assumes d: "driver_ok n eff dops" and ok: "dev_ok n ds" and st: "dev_step dops n (Dev_Open oflag) ds = (ds', r)"
  shows "dev_ok n ds' \<and> handle_spec dops eff (Dev_Open oflag) (dev_abs ds) = (dev_abs ds', r)"
proof -
  have ty: "rt_object_get_type (O_Device n) (snd ds) = 9" using ok by (simp add: dev_ok_def get_type_otype)
  have ot: "otype (snd ds) (O_Device n) = 9" using ok by (simp add: dev_ok_def)
  obtain ds1 where ds1: "open_init dops ds = Some (0, ds1)" "open_flag (fst ds1) = open_flag (fst ds)"
      "ref_count (fst ds1) = ref_count (fst ds)" "otype (snd ds1) (O_Device n) = otype (snd ds) (O_Device n)"
      "dev_flag (fst ds1) AND 8 = dev_flag (fst ds) AND 8" "dev_flag (fst ds1) AND 0x010 \<noteq> 0"
      "dev_data (fst ds1) = (if dev_flag (fst ds) AND 0x010 \<noteq> 0 then dev_data (fst ds) else drv_effect dops eff Drv_Init (dev_data (fst ds)))"
    by (rule open_init_total [OF d])
  have z: "open_flag (fst ds1) AND 8 \<noteq> 0 \<longleftrightarrow> 0 < unat (ref_count (fst ds))"
    using ok ds1(2) by (simp add: dev_ok_def unat_gt_0)
  show ?thesis
  proof (cases "dev_flag (fst ds) AND 8 \<noteq> 0 \<and> 0 < unat (ref_count (fst ds))")
    case True
    then have "dev_step dops n (Dev_Open oflag) ds = (ds1, Some (- 7))"
      using ty ds1(1,5) z by (simp add: dev_step_def rt_device_open_def)
    then show ?thesis using st True ok ot ds1 by (auto simp: dev_abs_def dev_ok_def Let_def)
  next
    case False
    obtain ds2 where ds2: "(case device_open dops of Some f \<Rightarrow> f oflag ds1
          | None \<Rightarrow> Some (0, (fst ds1)\<lparr>open_flag := oflag AND 0xf0f\<rparr>, snd ds1)) = Some (0, ds2)" "dev_kept n ds1 ds2"
        "dev_data (fst ds2) = drv_effect dops eff (Drv_Open oflag) (dev_data (fst ds1))"
      by (rule drv_open_total [OF d])
    let ?d = "(fst ds2)\<lparr>open_flag := open_flag (fst ds2) OR 8, ref_count := ref_count (fst ds2) + 1\<rparr>"
    have k2: "ref_count (fst ds2) = ref_count (fst ds)" "dev_flag (fst ds2) = dev_flag (fst ds1)"
      "otype (snd ds2) (O_Device n) = 9" using ds2(2) ds1(3,4) ot by (simp_all add: dev_kept_def)
    have c: "rt_device_open dops n oflag ds = (if ref_count (fst ds) + 1 = 0 then None else Some (0, ?d, snd ds2))"
      using ty ds1(1,5) ds2(1) False z k2(1) by (cases ds2) (auto simp: rt_device_open_def Let_def rt_assert_def)
    have m: "ref_count (fst ds) + 1 = 0 \<longleftrightarrow> unat (ref_count (fst ds)) = 255"
      using unat_less_2p [of "ref_count (fst ds)"] by (simp add: word_unat_eq_iff unat_word_ariths) presburger
    show ?thesis
    proof (cases "unat (ref_count (fst ds)) = 255")
      case True
      then have "ds' = ds" "r = None" using st c m by (simp_all add: dev_step_def)
      then show ?thesis using True False ok by (auto simp: dev_abs_def Let_def)
    next
      case ne: False
      then have "ds' = (?d, snd ds2)" "r = Some 0" using st c m by (simp_all add: dev_step_def)
      moreover have "unat (ref_count (fst ds) + 1) = unat (ref_count (fst ds)) + 1"
        using ne unat_less_2p [of "ref_count (fst ds)"] unat_add_small [of "ref_count (fst ds)" 1] by simp
      ultimately show ?thesis using False ne k2 m ds1 ds2(3) by (auto simp: dev_abs_def dev_ok_def Let_def)
    qed
  qed
qed

lemma close_refines:
  assumes d: "driver_ok n eff dops" and ok: "dev_ok n ds" and st: "dev_step dops n Dev_Close ds = (ds', r)"
  shows "dev_ok n ds' \<and> handle_spec dops eff Dev_Close (dev_abs ds) = (dev_abs ds', r)"
proof -
  have ty: "rt_object_get_type (O_Device n) (snd ds) = 9" using ok by (simp add: dev_ok_def get_type_otype)
  let ?d = "(fst ds)\<lparr>ref_count := ref_count (fst ds) - 1\<rparr>"
  consider "ref_count (fst ds) = 0" | "ref_count (fst ds) \<noteq> 0" "ref_count (fst ds) - 1 \<noteq> 0" | "ref_count (fst ds) = 1"
    by fastforce
  then show ?thesis
  proof cases
    case 1
    then show ?thesis using st ty ok by (auto simp: dev_step_def rt_device_close_def dev_abs_def)
  next
    case 2
    then have "ds' = (?d, snd ds)" "r = Some 0" using st ty by (simp_all add: dev_step_def rt_device_close_def)
    moreover have "unat (ref_count (fst ds) - 1) = unat (ref_count (fst ds)) - 1"
      using 2 unat_minus_one [of "ref_count (fst ds)"] by simp
    moreover have "unat (ref_count (fst ds)) \<noteq> 1" using 2(2) by (metis diff_self unat_1 word_unat_eq_iff)
    ultimately show ?thesis using 2 ok by (auto simp: dev_abs_def dev_ok_def unat_eq_zero)
  next
    case 3
    let ?e = "(fst ds)\<lparr>ref_count := 0\<rparr>"
    obtain ds2 where ds2: "(case device_close dops of Some f \<Rightarrow> f (?e, snd ds) | None \<Rightarrow> Some (0, ?e, snd ds)) = Some (0, ds2)"
        "dev_kept n (?e, snd ds) ds2" "dev_data (fst ds2) = drv_effect dops eff Drv_Close (dev_data (fst (?e, snd ds)))"
      by (rule drv_close_total [OF d])
    have "rt_device_close dops n ds = Some (0, (fst ds2)\<lparr>open_flag := 0\<rparr>, snd ds2)"
      using ty 3 ds2(1) by (cases ds2) (simp add: rt_device_close_def Let_def)
    then have "ds' = ((fst ds2)\<lparr>open_flag := 0\<rparr>, snd ds2)" "r = Some 0" using st by (simp_all add: dev_step_def)
    then show ?thesis using 3 ds2(2,3) ok by (auto simp: dev_abs_def dev_ok_def dev_kept_def)
  qed
qed

interpretation dvs: simulation "\<lambda>ds. driver_ok n eff dops \<and> dev_ok n ds" dev_abs "\<lambda>_ _. True" "dev_step dops n" "handle_spec dops eff"
  for n eff dops
proof
  fix ds x ds' r
  assume "driver_ok n eff dops \<and> dev_ok n ds" "dev_step dops n x ds = (ds', r)"
  then show "(driver_ok n eff dops \<and> dev_ok n ds') \<and> handle_spec dops eff x (dev_abs ds) = (dev_abs ds', r)"
    using open_refines close_refines by (cases x) blast+
qed simp

text \<open>C34: the handles of a device and the calls of its driver. For a driver whose functions succeed,
  change their data by \<open>eff\<close> and leave the rest of the device to the framework: over every sequence
  of opens and closes the results and the data of the driver are those of a counter that
  initialises the driver at the first open, calls its open function at every open that is not
  refused, and its close function exactly when the last handle is closed. An exclusive device that is
  open refuses with \<open>- RT_EBUSY\<close>, a close without an open fails, and the 256th handle stops the
  machine in the assertion instead of running the count over. The device is marked open
  exactly while handles are.\<close>

theorem device_refcount:
  assumes "driver_ok n eff dops" and "dev_ok n ds" and "run (dev_step dops n) xs ds = (ds', rs)"
  shows "dev_ok n ds' \<and> run (handle_spec dops eff) xs (dev_abs ds) = (dev_abs ds', rs)"
  using dvs.run_sim [of n eff dops ds xs ds' rs] assms by simp

subsection \<open>Failing drivers\<close>

text \<open>An exclusive device whose driver fails to close is lost. The handle is gone, so that
  closing again fails, but the device is still marked open, so that every later open returns
  \<open>- RT_EBUSY\<close>.\<close>

lemma device_close_sticks:
  assumes ty: "otype s (O_Device n) = RT_Object_Class_Device" and one: "ref_count d = 1"
    and fl: "dev_flag d AND RT_DEVICE_FLAG_STANDALONE \<noteq> 0" "dev_flag d AND RT_DEVICE_FLAG_ACTIVATED \<noteq> 0"
    and op: "open_flag d AND RT_DEVICE_OFLAG_OPEN \<noteq> 0"
    and fail: "device_close dops = Some f" "f (d\<lparr>ref_count := 0\<rparr>, s) = Some (e, d\<lparr>ref_count := 0\<rparr>, s)" "e \<notin> {RT_EOK, - RT_ENOSYS}"
  shows "\<exists>ds. rt_device_close dops n (d, s) = Some (e, ds) \<and> rt_device_close dops n ds = Some (- RT_ERROR, ds) \<and>
    (\<forall>oflag. rt_device_open dops n oflag ds = Some (- RT_EBUSY, ds))"
proof (intro exI conjI)
  let ?ds = "(d\<lparr>ref_count := 0\<rparr>, s)"
  show "rt_device_close dops n (d, s) = Some (e, ?ds)" "rt_device_close dops n ?ds = Some (- 1, ?ds)"
    using ty one fail by (simp_all add: rt_device_close_def get_type_otype Let_def)
  show "\<forall>oflag. rt_device_open dops n oflag ?ds = Some (- 7, ?ds)"
    using ty fl op by (simp add: rt_device_open_def open_init_def get_type_otype)
qed

text \<open>\<open>rt_device_destroy\<close> never succeeds on a device of \<open>rt_device_create\<close>: before it is registered
  its header has no class, registering makes it a static object, and unregistering clears the
  class again.\<close>

lemma device_never_destroyed:
  assumes c: "rt_device_create (Some n) ty s = (Some (n, d), s1)"
  shows "rt_device_destroy n s1 = None"
    and "rt_device_register (Some n) nm flags (d, s1) = Some (RT_EOK, d2, s2) \<Longrightarrow> rt_device_destroy n s2 = None"
    and "rt_device_register (Some n) nm flags (d, s1) = Some (RT_EOK, d2, s2) \<Longrightarrow>
      rt_device_unregister n s2 = Some (RT_EOK, s3) \<Longrightarrow> rt_device_destroy n s3 = None"
proof -
  show "rt_device_destroy n s1 = None"
    using c by (auto simp: rt_device_create_def rt_device_destroy_def rt_assert_def rt_object_get_type_def upd_obj_def)
  show "rt_device_destroy n s2 = None" if "rt_device_register (Some n) nm flags (d, s1) = Some (RT_EOK, d2, s2)"
    using that by (auto simp: rt_device_register_def rt_object_init_def rt_device_destroy_def rt_assert_def rt_object_is_systemobject_def
        rt_object_get_information_def object_container_def upd_obj_def Let_def bind_eq_Some_conv split: if_splits)
  show "rt_device_destroy n s3 = None" if "rt_device_unregister n s2 = Some (RT_EOK, s3)"
    using that by (auto simp: rt_device_unregister_def rt_device_destroy_def rt_assert_def rt_object_get_type_def bind_eq_Some_conv split: if_splits)
qed

subsection \<open>Registration\<close>

lemma device_find_total:
  assumes "kinv s"
  obtains s' where "rt_device_find nm s = Some (find_by_name s nm (object_list s RT_Object_Class_Device), s')" "kinv s'" "resched s s'"
proof -
  have "kinv (rt_enter_critical s)" using assms by simp
  then obtain s2 where s2: "rt_exit_critical (rt_enter_critical s) = Some s2" "kinv s2" "resched s s2"
    unfolding resched_lock(3) [symmetric, of s] by (rule resched_exit)
  have f: "find_by_name s1 nm is = find_by_name s nm is" if "objs s1 = objs s" for s1 "is"
    using that by (induction "is") auto
  define r where "r = (if rt_current_thread s = None then s else s2)"
  have "rt_device_find nm s = Some (find_by_name s nm (object_list s 9), r)"
    using s2(1) f [of "rt_enter_critical s"]
    by (simp add: r_def rt_device_find_def rt_thread_self_def rt_object_get_information_def object_container_def rt_enter_critical_def)
  then show thesis by (rule that) (use s2 assms in \<open>simp_all add: r_def\<close>)
qed

text \<open>A device registered under a name nobody has is the one \<open>rt_device_find\<close> finds under
  that name, closed and with the given flags, and the kernel stays consistent; a second
  registration under the name is refused and changes no device.\<close>

lemma device_register_find:
  assumes k: "kinv s" and new: "O_Device n \<notin> set (object_list s RT_Object_Class_Device)"
    and free: "find_by_name s nm (object_list s RT_Object_Class_Device) = None"
  shows "\<exists>d' s' s1 s2. rt_device_register (Some n) nm flags (d, s) = Some (RT_EOK, d', s') \<and> kinv s' \<and>
    dev_ok n (d', s') \<and> dev_flag d' = flags \<and> rt_device_find nm s' = Some (Some (O_Device n), s1) \<and>
    rt_device_register (Some m) nm flags2 (d2, s') = Some (- RT_ERROR, d2, s2)"
proof -
  obtain s1 where s1: "rt_device_find nm s = Some (None, s1)" "kinv s1" "resched s s1"
    using device_find_total [OF k] free by metis
  have "kinv (rt_enter_critical s1)" using s1 by simp
  then obtain s2 where s2: "rt_exit_critical (rt_enter_critical s1) = Some s2" "kinv s2" "resched s1 s2"
    unfolding resched_lock(3) [symmetric, of s1] by (rule resched_exit)
  define u where "u = upd_obj (O_Device n) (\<lambda>ob. ob\<lparr>obj_type := 0x89, obj_name := object_name nm\<rparr>) s2"
  define s' where "s' = u\<lparr>object_list := (object_list u)(9 := O_Device n # object_list u 9)\<rparr>"
  let ?d = "d\<lparr>dev_flag := flags, ref_count := 0, open_flag := 0\<rparr>"
  have "object_list s1 9 = object_list s 9" using reschedD(2) [OF s1(3)] by simp
  then have i: "rt_object_init (O_Device n) 9 nm s1 = Some s'"
    using s2(1) new by (simp add: rt_object_init_def rt_object_get_information_def object_container_def s'_def u_def rt_enter_critical_def)
  have ku: "kinv u" unfolding u_def using s2(2) by (rule upd_data_kinv) simp
  have k': "kinv s'" by (rule kinv_cong [OF ku]) (simp_all add: s'_def)
  have reg: "rt_device_register (Some n) nm flags (d, s) = Some (0, ?d, s')"
    using s1(1) i by (simp add: rt_device_register_def)
  have f: "find_by_name s' nm (object_list s' 9) = Some (O_Device n)" by (simp add: s'_def u_def upd_obj_def)
  obtain s3 where s3: "rt_device_find nm s' = Some (Some (O_Device n), s3)" using device_find_total [OF k'] f by metis
  have "dev_ok n (?d, s')" by (simp add: dev_ok_def otype_def s'_def u_def upd_obj_def)
  then show ?thesis using reg k' s3 by (simp add: rt_device_register_def)
qed

subsection \<open>Examples\<close>

text \<open>A driver that records the calls it gets, and one that cannot close.\<close>

fun log_call :: "drv_call \<Rightarrow> u32 list \<Rightarrow> u32 list" where
  "log_call Drv_Init h = h @ [0]"
| "log_call (Drv_Open oflag) h = h @ [1, ucast oflag]"
| "log_call Drv_Close h = h @ [2]"

definition log_driver :: rt_device_ops where
  "log_driver = \<lparr>device_init = Some (\<lambda>(d, s). Some (0, d\<lparr>dev_data := log_call Drv_Init (dev_data d)\<rparr>, s)),
     device_open = Some (\<lambda>oflag (d, s). Some (0, d\<lparr>open_flag := oflag, dev_data := log_call (Drv_Open oflag) (dev_data d)\<rparr>, s)),
     device_close = Some (\<lambda>(d, s). Some (0, d\<lparr>dev_data := log_call Drv_Close (dev_data d)\<rparr>, s)),
     device_read = None, device_write = None, device_control = None\<rparr>"

definition stuck_driver :: rt_device_ops where
  "stuck_driver = log_driver\<lparr>device_close := Some (\<lambda>ds. Some (- RT_ERROR, ds))\<rparr>"

lemma log_driver_ok: "driver_ok n log_call log_driver"
  by (auto simp: driver_ok_def log_driver_def drv_does_def dev_kept_def split_def)

lemma kex_dev_ok: "dev_ok 0 (zero_device, kex)"
  by (simp add: dev_ok_def zero_device_def)

theorem device_refcount_witness:
  "\<exists>ds. run (dev_step log_driver 0) [Dev_Open 3, Dev_Open 1, Dev_Close, Dev_Close, Dev_Close] (zero_device, kex) =
     (ds, [Some 0, Some 0, Some 0, Some 0, Some (- 1)]) \<and> dev_data (fst ds) = [0, 1, 3, 1, 1, 2]"
proof -
  obtain ds' rs where r: "run (dev_step log_driver 0) [Dev_Open 3, Dev_Open 1, Dev_Close, Dev_Close, Dev_Close] (zero_device, kex) = (ds', rs)"
    by fastforce
  have "drv_effect log_driver log_call x h = log_call x h" for x h by (cases x) (simp_all add: drv_effect_def log_driver_def)
  then show ?thesis
    using device_refcount [OF log_driver_ok kex_dev_ok r] r by (simp add: dev_abs_def zero_device_def)
qed

lemma device_close_sticks_witness:
  "\<exists>ds. rt_device_close stuck_driver 0 (zero_device\<lparr>dev_flag := 0x018, open_flag := 8, ref_count := 1\<rparr>, kex) = Some (- 1, ds) \<and>
     rt_device_open stuck_driver 0 3 ds = Some (- 7, ds)"
proof -
  have "\<exists>ds. rt_device_close stuck_driver 0 (zero_device\<lparr>dev_flag := 0x018, open_flag := 8, ref_count := 1\<rparr>, kex) = Some (- 1, ds) \<and>
      rt_device_close stuck_driver 0 ds = Some (- RT_ERROR, ds) \<and>
      (\<forall>oflag. rt_device_open stuck_driver 0 oflag ds = Some (- RT_EBUSY, ds))"
    by (rule device_close_sticks [where f = "\<lambda>ds. Some (- RT_ERROR, ds)"]) (simp_all add: stuck_driver_def log_driver_def)
  then show ?thesis by blast
qed

lemma device_register_find_witness:
  "\<exists>d' s' s1. rt_device_register (Some 1) ''spi1'' 3 (zero_device, kex) = Some (0, d', s') \<and>
     rt_device_find ''spi1'' s' = Some (Some (O_Device 1), s1)"
proof -
  have "O_Device 1 \<notin> set (object_list kex 9)" "find_by_name kex ''spi1'' (object_list kex 9) = None"
    by (simp_all add: kex_def object_name_def)
  then show ?thesis using device_register_find [OF kex_kinv, of 1 "''spi1''" 3 zero_device 2 0 zero_device] by blast
qed

end
