(* ===== verification/Serial.thy ===== *)
theory Serial
  imports Data_Queue Device
begin

text \<open>
  The serial device of \<open>components/drivers/serial/serial.c\<close>, between the functions of a particular
  chip (\<open>rt_uart_ops\<close>, which act on a hardware state of any type) and the device framework:
  polled, interrupt driven and DMA transfers, opening and closing, control, and the interrupt
  service routine. The pointers to the receive and transmit structures are tagged values; a pointer
  that is used as another structure than it points to is \<open>None\<close>. The callback of the device and
  the answers of \<open>rt_malloc\<close> are arguments. The theory shows that the receive buffer hands on the
  newest bytes in their order, and what is sent in stream mode.
\<close>

subsection \<open>Data\<close>

record serial_configure =
  baud_rate :: u32
  data_bits :: u32
  stop_bits :: u32
  parity :: u32
  bit_order :: u32
  invert :: u32
  bufsz :: u16

record rt_serial_rx_fifo =
  rx_buffer :: "u8 list"
  rx_put :: u16
  rx_get :: u16
  is_full :: bool

datatype serial_rx_t = Rx_Null | Rx_Fifo rt_serial_rx_fifo | Rx_Dma bool

datatype serial_tx_t = Tx_Null | Tx_Fifo rt_completion | Tx_Dma bool rt_data_queue

record 'h rt_serial_device =
  sdev :: rt_device
  config :: serial_configure
  serial_rx :: serial_rx_t
  serial_tx :: serial_tx_t
  hw :: 'h
  skern :: kernel

record 'h rt_uart_ops =
  configure :: "(serial_configure \<Rightarrow> 'h \<Rightarrow> rt_err_t \<times> 'h) option"
  control :: "int \<Rightarrow> u32 \<Rightarrow> 'h \<Rightarrow> rt_err_t \<times> 'h"
  putc :: "u8 \<Rightarrow> 'h \<Rightarrow> int \<times> 'h"
  getc :: "'h \<Rightarrow> int \<times> 'h"
  dma_transmit :: "(u32 \<Rightarrow> u32 \<Rightarrow> int \<Rightarrow> 'h \<Rightarrow> 'h) option"

abbreviation (input) RT_DEVICE_FLAG_SUSPENDED :: u16 where "RT_DEVICE_FLAG_SUSPENDED \<equiv> 0x020"
abbreviation (input) RT_DEVICE_FLAG_STREAM :: u16 where "RT_DEVICE_FLAG_STREAM \<equiv> 0x040"
abbreviation (input) RT_DEVICE_FLAG_INT_RX :: u16 where "RT_DEVICE_FLAG_INT_RX \<equiv> 0x100"
abbreviation (input) RT_DEVICE_FLAG_DMA_RX :: u16 where "RT_DEVICE_FLAG_DMA_RX \<equiv> 0x200"
abbreviation (input) RT_DEVICE_FLAG_INT_TX :: u16 where "RT_DEVICE_FLAG_INT_TX \<equiv> 0x400"
abbreviation (input) RT_DEVICE_FLAG_DMA_TX :: u16 where "RT_DEVICE_FLAG_DMA_TX \<equiv> 0x800"
abbreviation (input) RT_DEVICE_CTRL_RESUME :: int where "RT_DEVICE_CTRL_RESUME \<equiv> 1"
abbreviation (input) RT_DEVICE_CTRL_SUSPEND :: int where "RT_DEVICE_CTRL_SUSPEND \<equiv> 2"
abbreviation (input) RT_DEVICE_CTRL_CONFIG :: int where "RT_DEVICE_CTRL_CONFIG \<equiv> 3"
abbreviation (input) RT_DEVICE_CTRL_SET_INT :: int where "RT_DEVICE_CTRL_SET_INT \<equiv> 0x10"
abbreviation (input) RT_DEVICE_CTRL_CLR_INT :: int where "RT_DEVICE_CTRL_CLR_INT \<equiv> 0x11"
abbreviation (input) RT_SERIAL_DMA_RX :: int where "RT_SERIAL_DMA_RX \<equiv> 1"
abbreviation (input) RT_SERIAL_DMA_TX :: int where "RT_SERIAL_DMA_TX \<equiv> 2"
abbreviation (input) RT_EIO :: rt_err_t where "RT_EIO \<equiv> 8"

definition has_flag :: "u16 \<Rightarrow> u16 \<Rightarrow> bool" where
  "has_flag flags f = (flags AND f \<noteq> 0)"

definition dev_has :: "'h rt_serial_device \<Rightarrow> u16 \<Rightarrow> bool" where
  "dev_has s f = has_flag (open_flag (sdev s)) f"

definition set_oflag :: "(u16 \<Rightarrow> u16) \<Rightarrow> 'h rt_serial_device \<Rightarrow> 'h rt_serial_device" where
  "set_oflag f s = s\<lparr>sdev := (sdev s)\<lparr>open_flag := f (open_flag (sdev s))\<rparr>\<rparr>"

definition low_control :: "'h rt_uart_ops \<Rightarrow> int \<Rightarrow> u32 \<Rightarrow> 'h rt_serial_device \<Rightarrow> 'h rt_serial_device" where
  "low_control uops cmd arg s = s\<lparr>hw := snd (control uops cmd arg (hw s))\<rparr>"

fun as_fifo :: "serial_rx_t \<Rightarrow> rt_serial_rx_fifo option" where
  "as_fifo (Rx_Fifo f) = Some f"
| "as_fifo _ = None"

subsection \<open>Polled transfer\<close>

fun serial_poll_rx :: "'h rt_uart_ops \<Rightarrow> nat \<Rightarrow> 'h rt_serial_device \<Rightarrow> u8 list \<times> 'h rt_serial_device" where
  "serial_poll_rx uops 0 s = ([], s)"
| "serial_poll_rx uops (Suc n) s =
     (let (ch, h) = getc uops (hw s); s1 = s\<lparr>hw := h\<rparr>
      in if ch = - 1 then ([], s1)
         else if ch = 10 then ([of_int ch], s1)
         else let (xs, s2) = serial_poll_rx uops n s1 in (of_int ch # xs, s2))"

definition hw_putc :: "'h rt_uart_ops \<Rightarrow> u8 \<Rightarrow> 'h rt_serial_device \<Rightarrow> 'h rt_serial_device" where
  "hw_putc uops c s = s\<lparr>hw := snd (putc uops c (hw s))\<rparr>"

fun serial_poll_tx :: "'h rt_uart_ops \<Rightarrow> u8 list \<Rightarrow> 'h rt_serial_device \<Rightarrow> 'h rt_serial_device" where
  "serial_poll_tx uops [] s = s"
| "serial_poll_tx uops (c # cs) s =
     (let s1 = (if c = 10 \<and> dev_has s RT_DEVICE_FLAG_STREAM then hw_putc uops 13 s else s)
      in serial_poll_tx uops cs (hw_putc uops c s1))"

subsection \<open>Interrupt driven transfer\<close>

definition fifo_take :: "u16 \<Rightarrow> rt_serial_rx_fifo \<Rightarrow> (u8 \<times> rt_serial_rx_fifo) option" where
  "fifo_take bs f =
     (if unat (rx_get f) < length (rx_buffer f)
      then let g = rx_get f + 1
           in Some (rx_buffer f ! unat (rx_get f), f\<lparr>rx_get := (if g \<ge> bs then 0 else g), is_full := False\<rparr>)
      else None)"

fun serial_int_rx :: "u16 \<Rightarrow> nat \<Rightarrow> rt_serial_rx_fifo \<Rightarrow> (u8 list \<times> rt_serial_rx_fifo) option" where
  "serial_int_rx bs 0 f = Some ([], f)"
| "serial_int_rx bs (Suc n) f =
     (if rx_get f = rx_put f \<and> \<not> is_full f then Some ([], f)
      else do {
        (ch, f1) \<leftarrow> fifo_take bs f;
        (xs, f2) \<leftarrow> serial_int_rx bs n f1;
        Some (ch # xs, f2)
      })"

text \<open>The transmitter waits for the completion \<open>n\<close> when the chip does not take a byte; what is left to
  send is then the result, and the call goes on with it when the thread runs again.\<close>

partial_function (option) serial_int_tx ::
  "'h rt_uart_ops \<Rightarrow> nat \<Rightarrow> u8 list \<Rightarrow> 'h rt_serial_device \<Rightarrow> (u8 list outcome \<times> 'h rt_serial_device) option" where
  "serial_int_tx uops n data s =
     (case data of
        [] \<Rightarrow> Some (Done RT_EOK, s)
      | c # cs \<Rightarrow>
          (case serial_tx s of
             Tx_Fifo cp \<Rightarrow>
               (let (r, h) = putc uops c (hw s); s1 = s\<lparr>hw := h\<rparr>
                in if r = - 1
                   then (case rt_completion_wait n (- 1) (cp, skern s1) of
                           Some (Done _, cp1, k1) \<Rightarrow> serial_int_tx uops n data (s1\<lparr>serial_tx := Tx_Fifo cp1, skern := k1\<rparr>)
                         | Some (Block _, cp1, k1) \<Rightarrow> Some (Block data, s1\<lparr>serial_tx := Tx_Fifo cp1, skern := k1\<rparr>)
                         | None \<Rightarrow> None)
                   else serial_int_tx uops n cs s1)
           | _ \<Rightarrow> None))"

subsection \<open>DMA transfer\<close>

definition serial_fifo_calc_recved_len :: "u16 \<Rightarrow> rt_serial_rx_fifo \<Rightarrow> u32" where
  "serial_fifo_calc_recved_len bs f =
     (if rx_put f = rx_get f then if is_full f then ucast bs else 0
      else if rx_put f > rx_get f then ucast (rx_put f) - ucast (rx_get f)
      else ucast bs - (ucast (rx_get f) - ucast (rx_put f)))"

definition rt_dma_recv_update_get_index :: "u16 \<Rightarrow> u32 \<Rightarrow> rt_serial_rx_fifo \<Rightarrow> rt_serial_rx_fifo option" where
  "rt_dma_recv_update_get_index bs len f = do {
     rt_assert (len \<le> serial_fifo_calc_recved_len bs f);
     let f1 = (if is_full f \<and> len \<noteq> 0 then f\<lparr>is_full := False\<rparr> else f);
     let g = ucast (ucast (rx_get f1) + len);
     Some (f1\<lparr>rx_get := (if g \<ge> bs then g mod bs else g)\<rparr>)
   }"

definition rt_dma_recv_update_put_index :: "u16 \<Rightarrow> u32 \<Rightarrow> rt_serial_rx_fifo \<Rightarrow> rt_serial_rx_fifo" where
  "rt_dma_recv_update_put_index bs len f =
     (let p = ucast (ucast (rx_put f) + len);
          f1 = (if rx_get f \<le> rx_put f
                then if p \<ge> bs
                     then let q = p mod bs
                          in f\<lparr>rx_put := q, is_full := (q \<ge> rx_get f \<or> is_full f)\<rparr>
                     else f\<lparr>rx_put := p\<rparr>
                else if p \<ge> rx_get f
                     then f\<lparr>rx_put := (if p \<ge> bs then p mod bs else p), is_full := True\<rparr>
                     else f\<lparr>rx_put := p\<rparr>);
          f2 = (if is_full f1 then f1\<lparr>rx_get := rx_put f1\<rparr> else f1)
      in if rx_get f2 \<ge> bs then f2\<lparr>rx_get := 0\<rparr> else f2)"

text \<open>Reading in DMA mode: the number of bytes and, with a buffer, the bytes. Without one the chip
  writes them to the address \<open>data\<close> later.\<close>

definition serial_dma_rx ::
  "'h rt_uart_ops \<Rightarrow> u32 \<Rightarrow> u32 \<Rightarrow> 'h rt_serial_device \<Rightarrow> ((u32 \<times> u8 list) \<times> 'h rt_serial_device) option" where
  "serial_dma_rx uops data len s =
     (let bs = bufsz (config s)
      in if bs = 0
         then (case serial_rx s of
                 Rx_Dma busy \<Rightarrow>
                   if \<not> busy
                   then do {
                     tr \<leftarrow> dma_transmit uops;
                     Some ((len, []), s\<lparr>serial_rx := Rx_Dma True, hw := tr data len RT_SERIAL_DMA_RX (hw s)\<rparr>)
                   }
                   else Some ((0, []), s\<lparr>skern := rt_set_errno (- RT_EBUSY) (skern s)\<rparr>)
               | _ \<Rightarrow> None)
         else do {
           f \<leftarrow> as_fifo (serial_rx s);
           let recved = serial_fifo_calc_recved_len bs f;
           let n = (if sint len < sint recved then len else recved);
           let g = unat (rx_get f);
           let xs = (if ucast (rx_get f) + n < (ucast bs :: u32) then take (unat n) (drop g (rx_buffer f))
                     else take (unat bs - g) (drop g (rx_buffer f)) @ take (unat n + g - unat bs) (rx_buffer f));
           f1 \<leftarrow> rt_dma_recv_update_get_index bs n f;
           Some ((n, xs), s\<lparr>serial_rx := Rx_Fifo f1\<rparr>)
         })"

datatype serial_written = Written u32 | Wait_Int "u8 list" | Wait_Dma "data_item \<times> u32"

definition serial_dma_tx_go ::
  "'h rt_uart_ops \<Rightarrow> data_item \<Rightarrow> rt_err_t \<Rightarrow> 'h rt_serial_device \<Rightarrow> (serial_written \<times> 'h rt_serial_device) option" where
  "serial_dma_tx_go uops x result s =
     (if result = RT_EOK
      then (case serial_tx s of
              Tx_Dma busy q \<Rightarrow>
                if \<not> busy
                then do {
                  tr \<leftarrow> dma_transmit uops;
                  Some (Written (snd x), s\<lparr>serial_tx := Tx_Dma True q, hw := tr (fst x) (snd x) RT_SERIAL_DMA_TX (hw s)\<rparr>)
                }
                else Some (Written (snd x), s)
            | _ \<Rightarrow> None)
      else Some (Written 0, s\<lparr>skern := rt_set_errno result (skern s)\<rparr>))"

definition serial_dma_pushed ::
  "'h rt_uart_ops \<Rightarrow> bool \<Rightarrow> data_item \<Rightarrow> (data_item \<times> u32) outcome \<times> dq_state \<Rightarrow> 'h rt_serial_device \<Rightarrow>
    (serial_written \<times> 'h rt_serial_device) option" where
  "serial_dma_pushed uops busy x = (\<lambda>(r, q, k) s.
     let s1 = s\<lparr>serial_tx := Tx_Dma busy q, skern := k\<rparr>
     in case r of Done e \<Rightarrow> serial_dma_tx_go uops x e s1 | Block w \<Rightarrow> Some (Wait_Dma w, s1))"

definition serial_dma_tx ::
  "'h rt_uart_ops \<Rightarrow> dq_notify \<Rightarrow> nat \<Rightarrow> data_item \<Rightarrow> 'h rt_serial_device \<Rightarrow> (serial_written \<times> 'h rt_serial_device) option" where
  "serial_dma_tx uops notify n x s =
     (case serial_tx s of
        Tx_Dma busy q \<Rightarrow> do {
          r \<leftarrow> rt_data_queue_push notify n x (- 1) (q, skern s);
          serial_dma_pushed uops busy x r s
        }
      | _ \<Rightarrow> None)"

definition serial_dma_tx_wake ::
  "'h rt_uart_ops \<Rightarrow> dq_notify \<Rightarrow> nat \<Rightarrow> tid \<Rightarrow> data_item \<times> u32 \<Rightarrow> 'h rt_serial_device \<Rightarrow>
    (serial_written \<times> 'h rt_serial_device) option" where
  "serial_dma_tx_wake uops notify n t w s =
     (case serial_tx s of
        Tx_Dma busy q \<Rightarrow> do {
          r \<leftarrow> rt_data_queue_push_wake notify n t w (q, skern s);
          serial_dma_pushed uops busy (fst w) r s
        }
      | _ \<Rightarrow> None)"

subsection \<open>The device interface\<close>

definition rt_serial_init :: "'h rt_uart_ops \<Rightarrow> 'h rt_serial_device \<Rightarrow> rt_err_t \<times> 'h rt_serial_device" where
  "rt_serial_init uops s =
     (let s1 = s\<lparr>serial_rx := Rx_Null, serial_tx := Tx_Null\<rparr>
      in case configure uops of
           None \<Rightarrow> (RT_EOK, s1)
         | Some f \<Rightarrow> let (r, h) = f (config s1) (hw s1) in (r, s1\<lparr>hw := h\<rparr>))"

text \<open>What \<open>rt_malloc\<close> answers for the receive structure, for the transmit structures, and for the array
  of the data queue.\<close>

record serial_mem =
  rx_mem :: bool
  tx_fifo_mem :: "rt_completion option"
  tx_dma_mem :: "rt_data_queue option"
  dq_mem :: "data_item list option"

definition new_fifo :: "u16 \<Rightarrow> rt_serial_rx_fifo" where
  "new_fifo bs = \<lparr>rx_buffer = replicate (unat bs) 0, rx_put = 0, rx_get = 0, is_full = False\<rparr>"

definition serial_open_rx ::
  "'h rt_uart_ops \<Rightarrow> serial_mem \<Rightarrow> u16 \<Rightarrow> 'h rt_serial_device \<Rightarrow> 'h rt_serial_device option" where
  "serial_open_rx uops mm oflag s =
     (let bs = bufsz (config s)
      in if serial_rx s = Rx_Null
         then if has_flag oflag RT_DEVICE_FLAG_INT_RX
              then do {
                rt_assert (rx_mem mm);
                Some (low_control uops RT_DEVICE_CTRL_SET_INT (ucast RT_DEVICE_FLAG_INT_RX)
                        (set_oflag (\<lambda>f. f OR RT_DEVICE_FLAG_INT_RX) (s\<lparr>serial_rx := Rx_Fifo (new_fifo bs)\<rparr>)))
              }
              else if has_flag oflag RT_DEVICE_FLAG_DMA_RX
              then do {
                rt_assert (rx_mem mm);
                let s1 = (if bs = 0 then s\<lparr>serial_rx := Rx_Dma False\<rparr>
                          else low_control uops RT_DEVICE_CTRL_CONFIG (ucast RT_DEVICE_FLAG_DMA_RX)
                                 (s\<lparr>serial_rx := Rx_Fifo (new_fifo bs)\<rparr>));
                Some (set_oflag (\<lambda>f. f OR RT_DEVICE_FLAG_DMA_RX) s1)
              }
              else Some s
         else Some (if has_flag oflag RT_DEVICE_FLAG_INT_RX then set_oflag (\<lambda>f. f OR RT_DEVICE_FLAG_INT_RX) s
                    else if has_flag oflag RT_DEVICE_FLAG_DMA_RX then set_oflag (\<lambda>f. f OR RT_DEVICE_FLAG_DMA_RX) s
                    else s))"

definition serial_open_tx ::
  "'h rt_uart_ops \<Rightarrow> serial_mem \<Rightarrow> nat \<Rightarrow> u16 \<Rightarrow> 'h rt_serial_device \<Rightarrow> 'h rt_serial_device option" where
  "serial_open_tx uops mm n oflag s =
     (if serial_tx s = Tx_Null
      then if has_flag oflag RT_DEVICE_FLAG_INT_TX
           then do {
             cp \<leftarrow> tx_fifo_mem mm;
             let (cp1, k) = rt_completion_init n (cp, skern s);
             Some (low_control uops RT_DEVICE_CTRL_SET_INT (ucast RT_DEVICE_FLAG_INT_TX)
                     (set_oflag (\<lambda>f. f OR RT_DEVICE_FLAG_INT_TX) (s\<lparr>serial_tx := Tx_Fifo cp1, skern := k\<rparr>)))
           }
           else if has_flag oflag RT_DEVICE_FLAG_DMA_TX
           then do {
             q \<leftarrow> tx_dma_mem mm;
             let (_, q1, k) = rt_data_queue_init n (dq_mem mm) 8 4 None (q, skern s);
             Some (set_oflag (\<lambda>f. f OR RT_DEVICE_FLAG_DMA_TX) (s\<lparr>serial_tx := Tx_Dma False q1, skern := k\<rparr>))
           }
           else Some s
      else Some (if has_flag oflag RT_DEVICE_FLAG_INT_TX then set_oflag (\<lambda>f. f OR RT_DEVICE_FLAG_INT_TX) s
                 else if has_flag oflag RT_DEVICE_FLAG_DMA_TX then set_oflag (\<lambda>f. f OR RT_DEVICE_FLAG_DMA_TX) s
                 else s))"

definition rt_serial_open ::
  "'h rt_uart_ops \<Rightarrow> serial_mem \<Rightarrow> nat \<Rightarrow> u16 \<Rightarrow> 'h rt_serial_device \<Rightarrow> (rt_err_t \<times> 'h rt_serial_device) option" where
  "rt_serial_open uops mm n oflag s =
     (let fl = dev_flag (sdev s)
      in if list_ex (\<lambda>f. has_flag oflag f \<and> \<not> has_flag fl f)
           [RT_DEVICE_FLAG_DMA_RX, RT_DEVICE_FLAG_DMA_TX, RT_DEVICE_FLAG_INT_RX, RT_DEVICE_FLAG_INT_TX]
         then Some (- RT_EIO, s)
         else do {
           let stream_flag = (if has_flag oflag RT_DEVICE_FLAG_STREAM \<or> dev_has s RT_DEVICE_FLAG_STREAM
                              then RT_DEVICE_FLAG_STREAM else 0);
           s1 \<leftarrow> serial_open_rx uops mm oflag (set_oflag (\<lambda>_. oflag AND 0xff) s);
           s2 \<leftarrow> serial_open_tx uops mm n oflag s1;
           Some (RT_EOK, set_oflag (\<lambda>f. f OR stream_flag) s2)
         })"

definition serial_close_rx :: "'h rt_uart_ops \<Rightarrow> 'h rt_serial_device \<Rightarrow> 'h rt_serial_device option" where
  "serial_close_rx uops s =
     (if dev_has s RT_DEVICE_FLAG_INT_RX
      then do {
        rt_assert (serial_rx s \<noteq> Rx_Null);
        Some (low_control uops RT_DEVICE_CTRL_CLR_INT (ucast RT_DEVICE_FLAG_INT_RX)
                (set_oflag (\<lambda>f. f AND NOT RT_DEVICE_FLAG_INT_RX) (s\<lparr>serial_rx := Rx_Null\<rparr>)))
      }
      else if dev_has s RT_DEVICE_FLAG_DMA_RX
      then do {
        rt_assert (serial_rx s \<noteq> Rx_Null);
        Some (set_oflag (\<lambda>f. f AND NOT RT_DEVICE_FLAG_DMA_RX)
                (low_control uops RT_DEVICE_CTRL_CLR_INT (ucast RT_DEVICE_FLAG_DMA_RX) s)\<lparr>serial_rx := Rx_Null\<rparr>)
      }
      else Some s)"

definition serial_close_tx :: "'h rt_uart_ops \<Rightarrow> 'h rt_serial_device \<Rightarrow> 'h rt_serial_device option" where
  "serial_close_tx uops s =
     (if dev_has s RT_DEVICE_FLAG_INT_TX
      then do {
        rt_assert (serial_tx s \<noteq> Tx_Null);
        Some (low_control uops RT_DEVICE_CTRL_CLR_INT (ucast RT_DEVICE_FLAG_INT_TX)
                (set_oflag (\<lambda>f. f AND NOT RT_DEVICE_FLAG_INT_TX) (s\<lparr>serial_tx := Tx_Null\<rparr>)))
      }
      else if dev_has s RT_DEVICE_FLAG_DMA_TX
      then do {
        rt_assert (serial_tx s \<noteq> Tx_Null);
        Some (set_oflag (\<lambda>f. f AND NOT RT_DEVICE_FLAG_DMA_TX) (s\<lparr>serial_tx := Tx_Null\<rparr>))
      }
      else Some s)"

definition rt_serial_close :: "'h rt_uart_ops \<Rightarrow> 'h rt_serial_device \<Rightarrow> (rt_err_t \<times> 'h rt_serial_device) option" where
  "rt_serial_close uops s =
     (if ref_count (sdev s) > 1 then Some (RT_EOK, s)
      else do {
        s1 \<leftarrow> serial_close_rx uops s;
        s2 \<leftarrow> serial_close_tx uops s1;
        Some (RT_EOK, s2)
      })"

definition rt_serial_read ::
  "'h rt_uart_ops \<Rightarrow> u32 \<Rightarrow> u32 \<Rightarrow> 'h rt_serial_device \<Rightarrow> ((u32 \<times> u8 list) \<times> 'h rt_serial_device) option" where
  "rt_serial_read uops buffer sz s =
     (if sz = 0 then Some ((0, []), s)
      else if dev_has s RT_DEVICE_FLAG_INT_RX
      then do {
        f \<leftarrow> as_fifo (serial_rx s);
        (xs, f1) \<leftarrow> serial_int_rx (bufsz (config s)) (unat sz) f;
        Some ((of_nat (length xs), xs), s\<lparr>serial_rx := Rx_Fifo f1\<rparr>)
      }
      else if dev_has s RT_DEVICE_FLAG_DMA_RX then serial_dma_rx uops buffer sz s
      else let (xs, s1) = serial_poll_rx uops (unat sz) s in Some ((of_nat (length xs), xs), s1))"

text \<open>\<open>buffer\<close> is the address of the data and \<open>data\<close> the bytes there; at least \<open>sz\<close> of them are needed.\<close>

definition rt_serial_write ::
  "'h rt_uart_ops \<Rightarrow> dq_notify \<Rightarrow> nat \<Rightarrow> u32 \<Rightarrow> u8 list \<Rightarrow> u32 \<Rightarrow> 'h rt_serial_device \<Rightarrow>
    (serial_written \<times> 'h rt_serial_device) option" where
  "rt_serial_write uops notify n buffer data sz s =
     (if sz = 0 then Some (Written 0, s)
      else if length data < unat sz then None
      else if dev_has s RT_DEVICE_FLAG_INT_TX
      then do {
        (r, s1) \<leftarrow> serial_int_tx uops n (take (unat sz) data) s;
        Some (case r of Done _ \<Rightarrow> Written sz | Block rest \<Rightarrow> Wait_Int rest, s1)
      }
      else if dev_has s RT_DEVICE_FLAG_DMA_TX then serial_dma_tx uops notify n (buffer, sz) s
      else Some (Written sz, serial_poll_tx uops (take (unat sz) data) s))"

definition rt_serial_control ::
  "'h rt_uart_ops \<Rightarrow> int \<Rightarrow> u32 \<Rightarrow> serial_configure option \<Rightarrow> 'h rt_serial_device \<Rightarrow> (rt_err_t \<times> 'h rt_serial_device) option" where
  "rt_serial_control uops cmd arg cfg s =
     (let d = sdev s
      in if cmd = RT_DEVICE_CTRL_SUSPEND
         then Some (RT_EOK, s\<lparr>sdev := d\<lparr>dev_flag := dev_flag d OR RT_DEVICE_FLAG_SUSPENDED\<rparr>\<rparr>)
         else if cmd = RT_DEVICE_CTRL_RESUME
         then Some (RT_EOK, s\<lparr>sdev := d\<lparr>dev_flag := dev_flag d AND NOT RT_DEVICE_FLAG_SUSPENDED\<rparr>\<rparr>)
         else if cmd = RT_DEVICE_CTRL_CONFIG
         then (case cfg of
                 None \<Rightarrow> Some (RT_EOK, s)
               | Some c \<Rightarrow>
                   if bufsz c \<noteq> bufsz (config s) \<and> ref_count d \<noteq> 0 then Some (RT_EBUSY, s)
                   else let s1 = s\<lparr>config := c\<rparr>
                        in if ref_count d \<noteq> 0
                           then do { f \<leftarrow> configure uops; Some (RT_EOK, s1\<lparr>hw := snd (f c (hw s1))\<rparr>) }
                           else Some (RT_EOK, s1))
         else let (r, h) = control uops cmd arg (hw s) in Some (r, s\<lparr>hw := h\<rparr>))"

definition rt_hw_serial_register ::
  "nat \<Rightarrow> string \<Rightarrow> u16 \<Rightarrow> 'h rt_serial_device \<Rightarrow> (rt_err_t \<times> 'h rt_serial_device) option" where
  "rt_hw_serial_register n nm flags s = do {
     let d = (sdev s)\<lparr>dev_type := 0, rx_indicate := None, tx_complete := None\<rparr>;
     (r, d1, k1) \<leftarrow> rt_device_register (Some n) nm flags (d, skern s);
     Some (r, s\<lparr>sdev := d1, skern := k1\<rparr>)
   }"

subsection \<open>The interrupt service routine\<close>

definition fifo_store :: "u16 \<Rightarrow> u8 \<Rightarrow> rt_serial_rx_fifo \<Rightarrow> rt_serial_rx_fifo option" where
  "fifo_store bs ch f =
     (if unat (rx_put f) < length (rx_buffer f)
      then let p = rx_put f + 1;
               f1 = f\<lparr>rx_buffer := (rx_buffer f)[unat (rx_put f) := ch], rx_put := (if p \<ge> bs then 0 else p)\<rparr>;
               g = rx_get f1 + 1
           in Some (if rx_put f1 = rx_get f1
                    then f1\<lparr>rx_get := (if g \<ge> bs then 0 else g), is_full := True\<rparr>
                    else f1)
      else None)"

partial_function (option) isr_rx_loop ::
  "'h rt_uart_ops \<Rightarrow> rt_serial_rx_fifo \<Rightarrow> 'h rt_serial_device \<Rightarrow> 'h rt_serial_device option" where
  "isr_rx_loop uops f s =
     (let (ch, h) = getc uops (hw s); s1 = s\<lparr>hw := h\<rparr>
      in if ch = - 1 then Some (s1\<lparr>serial_rx := Rx_Fifo f\<rparr>)
         else do {
           f1 \<leftarrow> fifo_store (bufsz (config s)) (of_int ch) f;
           isr_rx_loop uops f1 s1
         })"

definition fifo_rx_length :: "u16 \<Rightarrow> rt_serial_rx_fifo \<Rightarrow> u32" where
  "fifo_rx_length bs f =
     (if rx_put f \<ge> rx_get f then ucast (rx_put f) - ucast (rx_get f)
      else ucast bs - (ucast (rx_get f) - ucast (rx_put f)))"

type_synonym 'h callback = "nat \<Rightarrow> u32 \<Rightarrow> 'h rt_serial_device \<Rightarrow> 'h rt_serial_device option"

definition call_back :: "'h callback \<Rightarrow> nat option \<Rightarrow> u32 \<Rightarrow> 'h rt_serial_device \<Rightarrow> 'h rt_serial_device option" where
  "call_back cb f x s = (case f of None \<Rightarrow> Some s | Some i \<Rightarrow> cb i x s)"

definition isr_rx_ind :: "'h rt_uart_ops \<Rightarrow> 'h callback \<Rightarrow> 'h rt_serial_device \<Rightarrow> 'h rt_serial_device option" where
  "isr_rx_ind uops cb s = do {
     f \<leftarrow> as_fifo (serial_rx s);
     s1 \<leftarrow> isr_rx_loop uops f s;
     f1 \<leftarrow> as_fifo (serial_rx s1);
     let n = fifo_rx_length (bufsz (config s1)) f1;
     if n \<noteq> 0 then call_back cb (rx_indicate (sdev s1)) n s1 else Some s1
   }"

definition isr_tx_dmadone ::
  "'h rt_uart_ops \<Rightarrow> 'h callback \<Rightarrow> dq_notify \<Rightarrow> nat \<Rightarrow> 'h rt_serial_device \<Rightarrow> 'h rt_serial_device option" where
  "isr_tx_dmadone uops cb notify n s =
     (case serial_tx s of
        Tx_Dma busy q \<Rightarrow> do {
          (_, lst, q1, k1) \<leftarrow> rt_data_queue_pop notify n 0 (q, skern s);
          (e, nxt) \<leftarrow> rt_data_queue_peak q1;
          s1 \<leftarrow> (case (e = RT_EOK, nxt) of
                  (True, Some x) \<Rightarrow> do {
                    tr \<leftarrow> dma_transmit uops;
                    Some (s\<lparr>serial_tx := Tx_Dma True q1, skern := k1, hw := tr (fst x) (snd x) RT_SERIAL_DMA_TX (hw s)\<rparr>)
                  }
                | _ \<Rightarrow> Some (s\<lparr>serial_tx := Tx_Dma False q1, skern := k1\<rparr>));
          case tx_complete (sdev s1) of
            None \<Rightarrow> Some s1
          | Some i \<Rightarrow> do { x \<leftarrow> lst; cb i (fst x) s1 }
        }
      | _ \<Rightarrow> None)"

definition isr_rx_dmadone :: "'h callback \<Rightarrow> u32 \<Rightarrow> 'h rt_serial_device \<Rightarrow> 'h rt_serial_device option" where
  "isr_rx_dmadone cb len s =
     (if bufsz (config s) = 0
      then (case serial_rx s of
              Rx_Dma busy \<Rightarrow> do {
                i \<leftarrow> rx_indicate (sdev s);
                s1 \<leftarrow> cb i len s;
                Some (s1\<lparr>serial_rx := Rx_Dma False\<rparr>)
              }
            | _ \<Rightarrow> None)
      else do {
        f \<leftarrow> as_fifo (serial_rx s);
        let f1 = rt_dma_recv_update_put_index (bufsz (config s)) len f;
        call_back cb (rx_indicate (sdev s)) (serial_fifo_calc_recved_len (bufsz (config s)) f1) (s\<lparr>serial_rx := Rx_Fifo f1\<rparr>)
      })"

definition rt_hw_serial_isr ::
  "'h rt_uart_ops \<Rightarrow> 'h callback \<Rightarrow> dq_notify \<Rightarrow> nat \<Rightarrow> u32 \<Rightarrow> 'h rt_serial_device \<Rightarrow> 'h rt_serial_device option" where
  "rt_hw_serial_isr uops cb notify n event s =
     (let e = event AND 0xff
      in if e = 1 then isr_rx_ind uops cb s
         else if e = 2 then (case serial_tx s of
             Tx_Fifo cp \<Rightarrow> do { (cp1, k1) \<leftarrow> rt_completion_done n (cp, skern s); Some (s\<lparr>serial_tx := Tx_Fifo cp1, skern := k1\<rparr>) }
           | _ \<Rightarrow> None)
         else if e = 4 then isr_tx_dmadone uops cb notify n s
         else if e = 3 then isr_rx_dmadone cb (drop_bit 8 event) s
         else Some s)"

subsection \<open>The contents of the receive buffer\<close>

definition ring_list :: "'a list \<Rightarrow> nat \<Rightarrow> nat \<Rightarrow> nat \<Rightarrow> 'a list" where
  "ring_list b k g c = map (\<lambda>i. b ! ((g + i) mod k)) [0..<c]"

lemma ring_list_0 [simp]: "ring_list b k g 0 = []"
  by (simp add: ring_list_def)

lemma length_ring_list [simp]: "length (ring_list b k g c) = c"
  by (simp add: ring_list_def)

lemma ring_list_snoc: "ring_list b k g (Suc c) = ring_list b k g c @ [b ! ((g + c) mod k)]"
  by (simp add: ring_list_def)

lemma ring_list_mod: "ring_list b k (g mod k) c = ring_list b k g c"
  by (simp add: ring_list_def mod_add_left_eq)

lemma ring_list_Cons: "ring_list b k g (Suc c) = b ! (g mod k) # ring_list b k (g + 1) c"
  unfolding ring_list_def by (simp add: upt_conv_Cons map_Suc_upt [symmetric] comp_def del: upt_Suc)

lemma ring_list_upd:
  assumes "c < k"
  shows "ring_list (b[(g + c) mod k := x]) k g c = ring_list b k g c"
proof -
  have "(g + i) mod k \<noteq> (g + c) mod k" if "i < c" for i
    using ring_slots_inj [of i k c g] that assms by auto
  then show ?thesis unfolding ring_list_def by (intro map_cong refl nth_list_update_neq) fastforce
qed

definition fifo_rep :: "u16 \<Rightarrow> nat \<Rightarrow> rt_serial_rx_fifo \<Rightarrow> bool" where
  "fifo_rep bs c f =
     (length (rx_buffer f) = unat bs \<and> unat (rx_get f) < unat bs \<and> c < unat bs \<and>
      unat (rx_put f) = (unat (rx_get f) + c) mod unat bs \<and> (c = 0 \<longrightarrow> \<not> is_full f))"

definition fifo_len :: "u16 \<Rightarrow> rt_serial_rx_fifo \<Rightarrow> nat" where
  "fifo_len bs f = (unat (rx_put f) + unat bs - unat (rx_get f)) mod unat bs"

definition fifo_bytes :: "u16 \<Rightarrow> rt_serial_rx_fifo \<Rightarrow> u8 list" where
  "fifo_bytes bs f = ring_list (rx_buffer f) (unat bs) (unat (rx_get f)) (fifo_len bs f)"

definition fifo_ok :: "u16 \<Rightarrow> rt_serial_rx_fifo \<Rightarrow> bool" where
  "fifo_ok bs f = (2 \<le> unat bs \<and> fifo_rep bs (fifo_len bs f) f)"

lemma fifo_rep_len: "fifo_rep bs c f \<Longrightarrow> fifo_len bs f = c"
proof -
  assume r: "fifo_rep bs c f"
  let ?k = "unat bs" and ?g = "unat (rx_get f)"
  have "((?g + c) mod ?k + (?k - ?g)) mod ?k = (?g + c + (?k - ?g)) mod ?k" by (simp only: mod_add_left_eq)
  also have "?g + c + (?k - ?g) = c + ?k" using r by (simp add: fifo_rep_def)
  finally show ?thesis using r by (simp add: fifo_len_def fifo_rep_def)
qed

lemma fifo_rep_ok: "fifo_rep bs c f \<Longrightarrow> 2 \<le> unat bs \<Longrightarrow> fifo_ok bs f"
  by (simp add: fifo_ok_def fifo_rep_len)

lemma wrap_index:
  fixes i bs :: u16
  assumes "unat i < unat bs"
  shows "unat (if i + 1 \<ge> bs then 0 else i + 1) = (unat i + 1) mod unat bs"
proof -
  have "unat (i + 1) = unat i + 1"
    using assms unat_less_2p [of bs] unat_add_small [of i 1] by simp
  then show ?thesis using assms by (auto simp: word_le_nat_alt mod_if)
qed

text \<open>The oldest byte is dropped when there is room for no more than \<open>bs - 1\<close>.\<close>

lemma fifo_store_newest:
  assumes ok: "fifo_ok bs f"
  obtains f' where "fifo_store bs ch f = Some f'" "fifo_ok bs f'"
    "fifo_bytes bs f' = drop (Suc (length (fifo_bytes bs f)) - (unat bs - 1)) (fifo_bytes bs f @ [ch])"
proof -
  let ?k = "unat bs" and ?g = "unat (rx_get f)" and ?p = "unat (rx_put f)" and ?c = "fifo_len bs f"
  have k: "2 \<le> ?k" and r: "length (rx_buffer f) = ?k" "?g < ?k" "?c < ?k" "?p = (?g + ?c) mod ?k"
    using ok by (simp_all add: fifo_ok_def fifo_rep_def)
  define b where "b = (rx_buffer f)[?p := ch]"
  define p where "p = (if rx_put f + 1 \<ge> bs then 0 else rx_put f + 1)"
  define g where "g = (if rx_get f + 1 \<ge> bs then 0 else rx_get f + 1)"
  have pk: "?p < ?k" using r k by simp
  have p: "unat p = (?g + Suc ?c) mod ?k" unfolding p_def wrap_index [OF pk] by (simp add: r(4) mod_Suc_eq)
  have g: "unat g = (?g + 1) mod ?k" unfolding g_def wrap_index [OF r(2)] ..
  have new: "ring_list b ?k ?g (Suc ?c) = fifo_bytes bs f @ [ch]"
    using r ring_list_upd [OF r(3), of "rx_buffer f" ?g ch] pk
    by (simp add: ring_list_snoc b_def fifo_bytes_def)
  show thesis
  proof (cases "Suc ?c = ?k")
    case True
    let ?f = "f\<lparr>rx_buffer := b, rx_put := p, rx_get := g, is_full := True\<rparr>"
    have one: "Suc (length (fifo_bytes bs f)) - (?k - 1) = 1" using True k by (simp add: fifo_bytes_def)
    have full: "p = rx_get f" using p r(2) True by (simp add: word_unat_eq_iff)
    have c: "(unat g + ?c) mod ?k = ?g"
    proof -
      have "(unat g + ?c) mod ?k = (?g + 1 + ?c) mod ?k" unfolding g by (rule mod_add_left_eq)
      moreover have "?g + 1 + ?c = ?g + ?k" using True by simp
      ultimately show ?thesis using r(2) by (simp only: mod_add_self2 mod_less)
    qed
    have rep: "fifo_rep bs ?c ?f"
      using r k True full c g by (simp add: fifo_rep_def b_def)
    have "fifo_bytes bs ?f = ring_list b ?k (?g + 1) ?c"
      using fifo_rep_len [OF rep] ring_list_mod [of b ?k "?g + 1" ?c] by (simp add: fifo_bytes_def g)
    also have "\<dots> = tl (fifo_bytes bs f @ [ch])" unfolding new [symmetric] by (simp add: ring_list_Cons)
    finally have "fifo_bytes bs ?f = drop (Suc (length (fifo_bytes bs f)) - (?k - 1)) (fifo_bytes bs f @ [ch])"
      unfolding one by (simp only: One_nat_def drop_Suc drop_0)
    moreover have "fifo_store bs ch f = Some ?f"
      using pk r(1) full by (simp add: fifo_store_def b_def p_def g_def Let_def)
    ultimately show thesis using that fifo_rep_ok [OF rep k] by blast
  next
    case False
    let ?f = "f\<lparr>rx_buffer := b, rx_put := p\<rparr>"
    have lt: "Suc ?c < ?k" using False r(3) by simp
    have "(?g + Suc ?c) mod ?k \<noteq> ?g mod ?k" using ring_slots_inj [of "Suc ?c" ?k 0 ?g] lt by auto
    then have ne: "p \<noteq> rx_get f" using p r(2) by (auto simp: word_unat_eq_iff)
    have rep: "fifo_rep bs (Suc ?c) ?f" using r lt p by (simp add: fifo_rep_def b_def)
    have "fifo_bytes bs ?f = drop (Suc (length (fifo_bytes bs f)) - (?k - 1)) (fifo_bytes bs f @ [ch])"
      using new fifo_rep_len [OF rep] lt by (simp add: fifo_bytes_def)
    moreover have "fifo_store bs ch f = Some ?f"
      using pk r(1) ne by (simp add: fifo_store_def b_def p_def Let_def)
    ultimately show thesis using that fifo_rep_ok [OF rep k] by blast
  qed
qed

lemma fifo_take_oldest:
  assumes ok: "fifo_ok bs f" and bytes: "fifo_bytes bs f = x # xs"
  obtains f' where "fifo_take bs f = Some (x, f')" "fifo_ok bs f'" "fifo_bytes bs f' = xs"
proof -
  let ?k = "unat bs" and ?g = "unat (rx_get f)"
  have k: "2 \<le> ?k" and r: "length (rx_buffer f) = ?k" "?g < ?k" "fifo_len bs f < ?k"
      "unat (rx_put f) = (?g + fifo_len bs f) mod ?k"
    using ok by (simp_all add: fifo_ok_def fifo_rep_def)
  obtain c where c: "fifo_len bs f = Suc c"
    using bytes by (cases "fifo_len bs f") (auto simp: fifo_bytes_def)
  define g where "g = (if rx_get f + 1 \<ge> bs then 0 else rx_get f + 1)"
  let ?f = "f\<lparr>rx_get := g, is_full := False\<rparr>"
  have g: "unat g = (?g + 1) mod ?k" unfolding g_def wrap_index [OF r(2)] ..
  have "(unat g + c) mod ?k = (?g + 1 + c) mod ?k" unfolding g by (rule mod_add_left_eq)
  then have rep: "fifo_rep bs c ?f" using r c k g by (simp add: fifo_rep_def)
  have "fifo_bytes bs f = rx_buffer f ! ?g # fifo_bytes bs ?f"
    using fifo_rep_len [OF rep] ring_list_mod [of "rx_buffer f" ?k "?g + 1" c] r(2)
    by (simp add: fifo_bytes_def c ring_list_Cons g)
  moreover have "fifo_take bs f = Some (rx_buffer f ! ?g, ?f)"
    using r by (simp add: fifo_take_def g_def Let_def)
  ultimately show thesis using that [of ?f] bytes fifo_rep_ok [OF rep k] by simp
qed

lemma fifo_empty:
  assumes "fifo_ok bs f"
  shows "rx_get f = rx_put f \<and> \<not> is_full f \<longleftrightarrow> fifo_bytes bs f = []"
proof -
  let ?k = "unat bs" and ?g = "unat (rx_get f)"
  have r: "?g < ?k" "fifo_len bs f < ?k" "unat (rx_put f) = (?g + fifo_len bs f) mod ?k" "fifo_len bs f = 0 \<longrightarrow> \<not> is_full f"
    using assms by (simp_all add: fifo_ok_def fifo_rep_def)
  have "rx_get f = rx_put f \<longleftrightarrow> fifo_len bs f = 0"
    using r ring_slots_inj [of "fifo_len bs f" ?k 0 ?g] by (auto simp: word_unat_eq_iff)
  moreover have "fifo_bytes bs f = [] \<longleftrightarrow> fifo_len bs f = 0"
    by (metis fifo_bytes_def length_ring_list list.size(3) ring_list_0)
  ultimately show ?thesis using r(4) by auto
qed

lemma serial_int_rx_takes:
  assumes "fifo_ok bs f"
  shows "\<exists>f'. serial_int_rx bs n f = Some (take n (fifo_bytes bs f), f') \<and> fifo_ok bs f' \<and>
    fifo_bytes bs f' = drop n (fifo_bytes bs f)"
  using assms
proof (induction n arbitrary: f)
  case (Suc n)
  show ?case
  proof (cases "fifo_bytes bs f")
    case Nil
    then show ?thesis using fifo_empty [OF Suc.prems] Suc.prems by simp
  next
    case (Cons x xs)
    then obtain f1 where f1: "fifo_take bs f = Some (x, f1)" "fifo_ok bs f1" "fifo_bytes bs f1 = xs"
      using fifo_take_oldest [OF Suc.prems] by blast
    then show ?thesis
      using Suc.IH [OF f1(2)] Cons fifo_empty [OF Suc.prems] by auto
  qed
qed simp

subsection \<open>The receive buffer as a queue of the newest bytes\<close>

definition newest :: "nat \<Rightarrow> 'a list \<Rightarrow> 'a list" where
  "newest k xs = drop (length xs - k) xs"

lemma newest_small: "length xs \<le> k \<Longrightarrow> newest k xs = xs"
  by (simp add: newest_def)

lemma newest_newest: "newest k (newest k xs @ ys) = newest k (xs @ ys)"
  by (cases "length xs \<le> k") (simp_all add: newest_def add.commute)

datatype fifo_event = Arrives u8 | Reads nat

definition fifo_step :: "u16 \<Rightarrow> fifo_event \<Rightarrow> rt_serial_rx_fifo \<Rightarrow> rt_serial_rx_fifo \<times> u8 list option" where
  "fifo_step bs e f =
     (case e of
        Arrives ch \<Rightarrow> (case fifo_store bs ch f of Some f1 \<Rightarrow> (f1, Some []) | None \<Rightarrow> (f, None))
      | Reads n \<Rightarrow> (case serial_int_rx bs n f of Some (xs, f1) \<Rightarrow> (f1, Some xs) | None \<Rightarrow> (f, None)))"

definition newest_spec :: "nat \<Rightarrow> fifo_event \<Rightarrow> u8 list \<Rightarrow> u8 list \<times> u8 list option" where
  "newest_spec k e xs =
     (case e of Arrives ch \<Rightarrow> (newest k (xs @ [ch]), Some []) | Reads n \<Rightarrow> (drop n xs, Some (take n xs)))"

interpretation sfs: simulation "fifo_ok bs" "fifo_bytes bs" "\<lambda>_ _. True" "fifo_step bs" "newest_spec (unat bs - 1)" for bs
proof
  fix f e f' r
  assume ok: "fifo_ok bs f" and st: "fifo_step bs e f = (f', r)"
  show "fifo_ok bs f' \<and> newest_spec (unat bs - 1) e (fifo_bytes bs f) = (fifo_bytes bs f', r)"
  proof (cases e)
    case (Arrives ch)
    obtain f1 where "fifo_store bs ch f = Some f1" "fifo_ok bs f1"
      "fifo_bytes bs f1 = drop (Suc (length (fifo_bytes bs f)) - (unat bs - 1)) (fifo_bytes bs f @ [ch])"
      using fifo_store_newest [OF ok] by blast
    then show ?thesis using st Arrives by (simp add: fifo_step_def newest_spec_def newest_def)
  next
    case (Reads n)
    then show ?thesis using st serial_int_rx_takes [OF ok, of n] by (auto simp: fifo_step_def newest_spec_def)
  qed
qed simp

text \<open>A chip that has the bytes \<open>cs\<close> to give and then none.\<close>

inductive delivers :: "'h rt_uart_ops \<Rightarrow> 'h \<Rightarrow> u8 list \<Rightarrow> 'h \<Rightarrow> bool" for uops where
  empty: "getc uops h = (- 1, h') \<Longrightarrow> delivers uops h [] h'"
| byte: "getc uops h = (uint c, h1) \<Longrightarrow> delivers uops h1 cs h' \<Longrightarrow> delivers uops h (c # cs) h'"

lemma isr_rx_loop_stores:
  assumes "delivers uops h cs h'" "fifo_ok (bufsz (config s)) f" "hw s = h"
  shows "\<exists>f'. isr_rx_loop uops f s = Some (s\<lparr>hw := h', serial_rx := Rx_Fifo f'\<rparr>) \<and> fifo_ok (bufsz (config s)) f' \<and>
    fifo_bytes (bufsz (config s)) f' = newest (unat (bufsz (config s)) - 1) (fifo_bytes (bufsz (config s)) f @ cs)"
  using assms
proof (induction arbitrary: s f rule: delivers.induct)
  case (empty h h')
  let ?bs = "bufsz (config s)"
  have "length (fifo_bytes ?bs f) \<le> unat ?bs - 1"
    using empty.prems(1) by (auto simp: fifo_ok_def fifo_rep_def fifo_bytes_def)
  then show ?case
    using empty by (subst isr_rx_loop.simps) (auto simp: newest_small)
next
  case (byte h c h1 cs h')
  let ?bs = "bufsz (config s)"
  obtain f1 where f1: "fifo_store ?bs c f = Some f1" "fifo_ok ?bs f1"
    "fifo_bytes ?bs f1 = newest (unat ?bs - 1) (fifo_bytes ?bs f @ [c])"
    using fifo_store_newest [OF byte.prems(1), of c] by (metis newest_def length_append_singleton)
  obtain f2 where f2: "isr_rx_loop uops f1 (s\<lparr>hw := h1\<rparr>) = Some (s\<lparr>hw := h', serial_rx := Rx_Fifo f2\<rparr>)" "fifo_ok ?bs f2"
    "fifo_bytes ?bs f2 = newest (unat ?bs - 1) (fifo_bytes ?bs f1 @ cs)"
    using byte.IH [of "s\<lparr>hw := h1\<rparr>" f1] f1(2) by auto
  have "uint c \<noteq> - 1" using uint_ge_0 [of c] by linarith
  moreover have "newest (unat ?bs - 1) (fifo_bytes ?bs f1 @ cs) = newest (unat ?bs - 1) (fifo_bytes ?bs f @ c # cs)"
    using newest_newest [of "unat ?bs - 1" "fifo_bytes ?bs f @ [c]" cs] by (simp add: f1(3))
  ultimately show ?case
    using byte.hyps(1) byte.prems(2) f1 f2 by (subst isr_rx_loop.simps) auto
qed

lemma new_fifo_ok: "2 \<le> unat bs \<Longrightarrow> fifo_ok bs (new_fifo bs) \<and> fifo_bytes bs (new_fifo bs) = []"
proof -
  assume "2 \<le> unat bs"
  moreover from this have rep: "fifo_rep bs 0 (new_fifo bs)" by (simp add: fifo_rep_def new_fifo_def)
  ultimately show ?thesis using fifo_rep_ok [OF rep] fifo_rep_len [OF rep] by (simp add: fifo_bytes_def)
qed

subsection \<open>Correctness\<close>

text \<open>A callback that acts on the kernel only, as one that releases a semaphore.\<close>

definition kernel_callback :: "'h callback \<Rightarrow> bool" where
  "kernel_callback cb = (\<forall>i x s. \<exists>k. cb i x s = Some (s\<lparr>skern := k\<rparr>))"

lemma call_back_kernel:
  assumes "kernel_callback cb"
  shows "\<exists>k. call_back cb f x s = Some (s\<lparr>skern := k\<rparr>)"
proof (cases f)
  case None
  then show ?thesis by (auto simp: call_back_def intro: exI [of _ "skern s"])
qed (use assms in \<open>simp add: call_back_def kernel_callback_def\<close>)

lemma isr_receives:
  assumes "delivers uops (hw s) cs h'" "serial_rx s = Rx_Fifo f" "fifo_ok (bufsz (config s)) f"
    and cb: "kernel_callback cb"
  shows "\<exists>f' k. rt_hw_serial_isr uops cb notify n 1 s = Some (s\<lparr>hw := h', serial_rx := Rx_Fifo f', skern := k\<rparr>) \<and>
    fifo_ok (bufsz (config s)) f' \<and>
    fifo_bytes (bufsz (config s)) f' = newest (unat (bufsz (config s)) - 1) (fifo_bytes (bufsz (config s)) f @ cs)"
proof -
  obtain f' where f': "isr_rx_loop uops f s = Some (s\<lparr>hw := h', serial_rx := Rx_Fifo f'\<rparr>)" "fifo_ok (bufsz (config s)) f'"
    "fifo_bytes (bufsz (config s)) f' = newest (unat (bufsz (config s)) - 1) (fifo_bytes (bufsz (config s)) f @ cs)"
    using isr_rx_loop_stores [OF assms(1,3) refl] by blast
  let ?s = "s\<lparr>hw := h', serial_rx := Rx_Fifo f'\<rparr>"
  have ind: "isr_rx_ind uops cb s = (if fifo_rx_length (bufsz (config s)) f' \<noteq> 0
      then call_back cb (rx_indicate (sdev ?s)) (fifo_rx_length (bufsz (config s)) f') ?s else Some ?s)"
    using f'(1) assms(2) by (simp add: isr_rx_ind_def)
  have "?s = ?s\<lparr>skern := skern ?s\<rparr>" by simp
  then have "\<exists>k. isr_rx_ind uops cb s = Some (?s\<lparr>skern := k\<rparr>)"
    unfolding ind using call_back_kernel [OF cb] by metis
  then show ?thesis using f' by (auto simp: rt_hw_serial_isr_def)
qed

text \<open>C33: the receive path of a serial device that was opened for interrupts. Over every sequence of
  arriving bytes and reads its buffer is a queue that keeps the newest \<open>bufsz - 1\<close> bytes. When the chip
  then interrupts with the bytes \<open>cs\<close>, the interrupt routine returns and has stored all of them, and
  the next read returns the oldest bytes that are kept in the order of their arrival: nothing is lost
  as long as the reader is less than \<open>bufsz\<close> bytes behind.\<close>

theorem serial_rx_newest:
  assumes "2 \<le> unat (bufsz (config s))" "serial_rx s = Rx_Fifo f" "dev_has s RT_DEVICE_FLAG_INT_RX" "sz \<noteq> 0"
    and "run (fifo_step (bufsz (config s))) es (new_fifo (bufsz (config s))) = (f, rs)"
    and "delivers uops (hw s) cs h'" "kernel_callback cb"
    and "kept = newest (unat (bufsz (config s)) - 1) (fifo_bytes (bufsz (config s)) f @ cs)"
  shows "run (newest_spec (unat (bufsz (config s)) - 1)) es [] = (fifo_bytes (bufsz (config s)) f, rs) \<and>
    (\<exists>s1 s2. rt_hw_serial_isr uops cb notify n 1 s = Some s1 \<and> hw s1 = h' \<and>
       rt_serial_read uops buffer sz s1 = Some ((of_nat (length (take (unat sz) kept)), take (unat sz) kept), s2))"
proof -
  let ?bs = "bufsz (config s)"
  have sim: "fifo_ok ?bs f \<and> run (newest_spec (unat ?bs - 1)) es [] = (fifo_bytes ?bs f, rs)"
    using sfs.run_sim [of ?bs "new_fifo ?bs" es f rs] assms(1,5) new_fifo_ok [of ?bs] by simp
  obtain f' k where f': "rt_hw_serial_isr uops cb notify n 1 s = Some (s\<lparr>hw := h', serial_rx := Rx_Fifo f', skern := k\<rparr>)"
    "fifo_ok ?bs f'" "fifo_bytes ?bs f' = kept"
    using isr_receives [OF assms(6,2) _ assms(7)] sim assms(8) by blast
  obtain f2 where "serial_int_rx ?bs (unat sz) f' = Some (take (unat sz) kept, f2)"
    using serial_int_rx_takes [OF f'(2), of "unat sz"] f'(3) by auto
  then show ?thesis
    using sim f'(1) assms(3,4) by (simp add: rt_serial_read_def dev_has_def)
qed

text \<open>What a polled write sends: every byte, in stream mode with a carriage return in front of each line
  feed. The chip is given the bytes in that order.\<close>

definition stream_text :: "bool \<Rightarrow> u8 list \<Rightarrow> u8 list" where
  "stream_text st xs = concat (map (\<lambda>c. if c = 10 \<and> st then [13, 10] else [c]) xs)"

definition chip_sends :: "'h rt_uart_ops \<Rightarrow> u8 list \<Rightarrow> 'h \<Rightarrow> 'h" where
  "chip_sends uops xs h = fold (\<lambda>c h. snd (putc uops c h)) xs h"

lemma poll_tx_sends:
  "serial_poll_tx uops xs s = s\<lparr>hw := chip_sends uops (stream_text (dev_has s RT_DEVICE_FLAG_STREAM) xs) (hw s)\<rparr>"
proof (induction xs arbitrary: s)
  case (Cons c xs)
  have "dev_has (hw_putc uops b s) f = dev_has s f" for b s f by (simp add: dev_has_def hw_putc_def)
  then show ?case using Cons.IH by (simp add: hw_putc_def stream_text_def chip_sends_def)
qed (simp add: stream_text_def chip_sends_def)

lemma serial_write_polled:
  assumes "\<not> dev_has s RT_DEVICE_FLAG_INT_TX" "\<not> dev_has s RT_DEVICE_FLAG_DMA_TX" "unat sz \<le> length data" "sz \<noteq> 0"
  shows "rt_serial_write uops notify n buffer data sz s = Some (Written sz,
    s\<lparr>hw := chip_sends uops (stream_text (dev_has s RT_DEVICE_FLAG_STREAM) (take (unat sz) data)) (hw s)\<rparr>)"
  using assms by (simp add: rt_serial_write_def poll_tx_sends)

text \<open>A length that the data does not have makes the driver read behind the buffer; this is what the
  login of the application does with a length of four gigabytes.\<close>

lemma serial_write_beyond: "sz \<noteq> 0 \<Longrightarrow> length data < unat sz \<Longrightarrow> rt_serial_write uops notify n buffer data sz s = None"
  by (simp add: rt_serial_write_def)

text \<open>Configuring an open device with another buffer size is refused with a positive error code.\<close>

lemma serial_config_busy:
  "ref_count (sdev s) \<noteq> 0 \<Longrightarrow> bufsz c \<noteq> bufsz (config s) \<Longrightarrow>
    rt_serial_control uops RT_DEVICE_CTRL_CONFIG arg (Some c) s = Some (RT_EBUSY, s)"
  by (simp add: rt_serial_control_def)

subsection \<open>Examples\<close>

text \<open>A chip whose state is the bytes it has received.\<close>

definition loop_chip :: "u8 list rt_uart_ops" where
  "loop_chip = \<lparr>configure = None, control = (\<lambda>_ _ h. (RT_EOK, h)), putc = (\<lambda>c h. (1, h @ [c])),
     getc = (\<lambda>h. case h of [] \<Rightarrow> (- 1, []) | c # cs \<Rightarrow> (uint c, cs)), dma_transmit = None\<rparr>"

lemma loop_chip_delivers: "delivers loop_chip cs cs []"
  by (induction cs) (auto simp: loop_chip_def intro: delivers.intros)

definition serex :: "u8 list rt_serial_device" where
  "serex = \<lparr>sdev = zero_device\<lparr>open_flag := RT_DEVICE_FLAG_INT_RX\<rparr>,
     config = \<lparr>baud_rate = 115200, data_bits = 8, stop_bits = 0, parity = 0, bit_order = 0, invert = 0, bufsz = 4\<rparr>,
     serial_rx = Rx_Fifo (fst (run (fifo_step 4) [Arrives 1, Arrives 2, Reads 1] (new_fifo 4))),
     serial_tx = Tx_Null, hw = [3, 4, 5], skern = kex\<rparr>"

theorem serial_rx_newest_witness:
  "\<exists>s1 s2. rt_hw_serial_isr loop_chip (\<lambda>i x s. Some (s\<lparr>skern := skern s\<rparr>)) (\<lambda>_ _ _. None) 0 1 serex = Some s1 \<and> hw s1 = [] \<and>
     rt_serial_read loop_chip 0 2 s1 = Some ((2, [3, 4]), s2)"
proof -
  define es where "es = [Arrives 1, Arrives 2, Reads 1]"
  define f where "f = fst (run (fifo_step 4) es (new_fifo 4))"
  define rs where "rs = snd (run (fifo_step 4) es (new_fifo 4))"
  have bytes: "fifo_bytes 4 f = [2]" unfolding f_def es_def by code_simp
  have f: "run (fifo_step (bufsz (config serex))) es (new_fifo (bufsz (config serex))) = (f, rs)"
    by (simp add: f_def rs_def serex_def)
  have s: "serial_rx serex = Rx_Fifo f" "bufsz (config serex) = 4" "hw serex = [3, 4, 5]"
    by (simp_all add: serex_def es_def f_def)
  have flag: "dev_has serex RT_DEVICE_FLAG_INT_RX" by (simp add: serex_def dev_has_def has_flag_def)
  have big: "2 \<le> unat (bufsz (config serex))" by (simp add: s)
  have kept: "[3, 4, 5] = newest (unat (bufsz (config serex)) - 1) (fifo_bytes (bufsz (config serex)) f @ [3, 4, 5])"
    by (simp add: s bytes newest_def)
  have cb: "kernel_callback (\<lambda>i x s. Some (s\<lparr>skern := skern s\<rparr>))" unfolding kernel_callback_def by blast
  have del: "delivers loop_chip (hw serex) [3, 4, 5] []" unfolding s by (rule loop_chip_delivers)
  have two: "take (unat (2::u32)) [3, 4, 5::u8] = [3, 4]" "(of_nat (length [3, 4::u8]) :: u32) = 2" by simp_all
  have "(2::u32) \<noteq> 0" by simp
  from serial_rx_newest [OF big s(1) flag this f del cb kept, of "\<lambda>_ _ _. None" 0 0] show ?thesis
    unfolding two by blast
qed

end
