(* ===== verification/Rt_String.thy ===== *)
theory Rt_String
  imports Memory_Ops "HOL-Library.Sublist"
begin

text \<open>
  The string functions of \<open>src/kservice.c\<close>, on a memory of bytes. \<open>char\<close> is unsigned, as on the ARM
  port. A loop that only a terminating null byte can end is partial; the theory shows that it ends
  on null-terminated strings and relates the functions to lists of bytes.
\<close>

lemma pred_less: "(x :: u32) \<noteq> 0 \<Longrightarrow> unat (x - 1) < unat x"
  by (simp add: unat_minus_one unat_gt_0)

lemma pred_less2: "(n :: u32) \<noteq> 1 \<Longrightarrow> unat (n - 2) < unat (n - 1)"
  using pred_less [of "n - 1"] by simp

subsection \<open>Operations\<close>

partial_function (option) strlen_loop :: "u32 \<Rightarrow> u32 \<Rightarrow> mem \<Rightarrow> u32 option" where
  "strlen_loop sc s m = (if m sc \<noteq> 0 then strlen_loop (sc + 1) s m else Some (sc - s))"

definition rt_strlen :: "u32 \<Rightarrow> mem \<Rightarrow> u32 option" where
  "rt_strlen s m = strlen_loop s s m"

function strnlen_loop :: "u32 \<Rightarrow> u32 \<Rightarrow> u32 \<Rightarrow> mem \<Rightarrow> u32" where
  "strnlen_loop sc s maxlen m = (if m sc \<noteq> 0 \<and> sc - s < maxlen then strnlen_loop (sc + 1) s maxlen m else sc - s)"
  by pat_completeness auto
termination
proof (relation "measure (\<lambda>(sc, s, maxlen, _). unat (maxlen - (sc - s)))")
  fix sc s maxlen :: u32 and m :: mem
  assume "m sc \<noteq> 0 \<and> sc - s < maxlen"
  then have p: "maxlen - (sc - s) \<noteq> 0" by auto
  have "maxlen - (sc + 1 - s) = maxlen - (sc - s) - 1" by simp
  then have "unat (maxlen - (sc + 1 - s)) < unat (maxlen - (sc - s))" by (simp only: pred_less [OF p])
  then show "((sc + 1, s, maxlen, m), (sc, s, maxlen, m)) \<in> measure (\<lambda>(sc, s, maxlen, _). unat (maxlen - (sc - s)))" by simp
qed simp

definition rt_strnlen :: "u32 \<Rightarrow> u32 \<Rightarrow> mem \<Rightarrow> u32" where
  "rt_strnlen s maxlen m = strnlen_loop s s maxlen m"

partial_function (option) rt_strcmp :: "u32 \<Rightarrow> u32 \<Rightarrow> mem \<Rightarrow> int option" where
  "rt_strcmp cs ct m =
     (if m cs \<noteq> 0 \<and> m cs = m ct then rt_strcmp (cs + 1) (ct + 1) m else Some (uint (m cs) - uint (m ct)))"

text \<open>The difference is stored in a \<open>signed char\<close>.\<close>

function rt_strncmp :: "u32 \<Rightarrow> u32 \<Rightarrow> u32 \<Rightarrow> mem \<Rightarrow> int" where
  "rt_strncmp cs ct count m =
     (if count \<noteq> 0
      then let res = sint (m cs - m ct)
           in if res \<noteq> 0 \<or> m cs = 0 then res else rt_strncmp (cs + 1) (ct + 1) (count - 1) m
      else 0)"
  by pat_completeness auto
termination by (relation "measure (\<lambda>(_, _, count, _). unat count)") (auto simp: unat_minus_one unat_gt_0)

text \<open>\<open>while (--n != 0) *d++ = 0;\<close> and the loop around it.\<close>

function strncpy_pad :: "u32 \<Rightarrow> u32 \<Rightarrow> mem \<Rightarrow> mem" where
  "strncpy_pad d n m = (let n' = n - 1 in if n' \<noteq> 0 then strncpy_pad (d + 1) n' (m(d := 0)) else m)"
  by pat_completeness auto
termination by (relation "measure (\<lambda>(_, n, _). unat (n - 1))") (auto simp: pred_less2)

function strncpy_loop :: "u32 \<Rightarrow> u32 \<Rightarrow> u32 \<Rightarrow> mem \<Rightarrow> mem" where
  "strncpy_loop d s n m =
     (let m1 = m(d := m s) in
      if m s = 0 then strncpy_pad (d + 1) n m1
      else let n' = n - 1 in if n' \<noteq> 0 then strncpy_loop (d + 1) (s + 1) n' m1 else m1)"
  by pat_completeness auto
termination by (relation "measure (\<lambda>(_, _, n, _). unat (n - 1))") (auto simp: pred_less2)

definition rt_strncpy :: "u32 \<Rightarrow> u32 \<Rightarrow> u32 \<Rightarrow> mem \<Rightarrow> mem" where
  "rt_strncpy dst src n m = (if n \<noteq> 0 then strncpy_loop dst src n m else m)"

text \<open>The lengths in \<open>rt_strstr\<close> are signed.\<close>

function strstr_loop :: "u32 \<Rightarrow> u32 \<Rightarrow> int \<Rightarrow> int \<Rightarrow> mem \<Rightarrow> u32 option" where
  "strstr_loop s1 s2 l1 l2 m =
     (if l1 \<ge> l2
      then if rt_memcmp s1 s2 (word_of_int l2) m = 0 then Some s1 else strstr_loop (s1 + 1) s2 (l1 - 1) l2 m
      else None)"
  by pat_completeness auto
termination by (relation "measure (\<lambda>(_, _, l1, l2, _). nat (l1 - l2 + 1))") auto

definition rt_strstr :: "u32 \<Rightarrow> u32 \<Rightarrow> mem \<Rightarrow> u32 option option" where
  "rt_strstr s1 s2 m = do {
     l2 \<leftarrow> map_option sint (rt_strlen s2 m);
     if l2 = 0 then Some (Some s1)
     else do {
       l1 \<leftarrow> map_option sint (rt_strlen s1 m);
       Some (strstr_loop s1 s2 l1 l2 m)
     }
   }"

definition to_lower :: "int \<Rightarrow> int" where
  "to_lower c = (if c \<ge> 65 \<and> c \<le> 90 then c + 32 else c)"

partial_function (option) rt_strcasecmp :: "u32 \<Rightarrow> u32 \<Rightarrow> mem \<Rightarrow> u32 option" where
  "rt_strcasecmp a b m =
     (let ca = to_lower (uint (m a)); cb = to_lower (uint (m b)) in
      if ca = cb \<and> ca \<noteq> 0 then rt_strcasecmp (a + 1) (b + 1) m else Some (word_of_int (ca - cb)))"

declare strnlen_loop.simps [simp del] rt_strncmp.simps [simp del] strncpy_pad.simps [simp del] strncpy_loop.simps [simp del]
  strstr_loop.simps [simp del]

subsection \<open>Null-terminated strings\<close>

fun cstr :: "mem \<Rightarrow> u32 \<Rightarrow> u8 list \<Rightarrow> bool" where
  "cstr m a [] \<longleftrightarrow> m a = 0"
| "cstr m a (x # xs) \<longleftrightarrow> x \<noteq> 0 \<and> m a = x \<and> cstr m (a + 1) xs"

lemma strlen_loop_eq: "cstr m sc xs \<Longrightarrow> strlen_loop sc s m = Some (sc - s + of_nat (length xs))"
proof (induction xs arbitrary: sc)
  case Nil
  then show ?case by (subst strlen_loop.simps) simp
next
  case (Cons x xs)
  then have "strlen_loop sc s m = strlen_loop (sc + 1) s m" by (subst strlen_loop.simps) simp
  then show ?case using Cons by (simp add: algebra_simps)
qed

lemma strlen_eq: "cstr m s xs \<Longrightarrow> rt_strlen s m = Some (of_nat (length xs))"
  by (simp add: rt_strlen_def strlen_loop_eq)

lemma strcmp_eq: "cstr m cs xs \<Longrightarrow> cstr m ct ys \<Longrightarrow> rt_strcmp cs ct m = Some (first_diff (xs @ [0]) (ys @ [0]))"
proof (induction xs arbitrary: cs ct ys)
  case Nil
  then show ?case by (subst rt_strcmp.simps) (cases ys; simp)
next
  case (Cons x xs)
  then show ?case by (subst rt_strcmp.simps) (cases ys; simp)
qed

lemma cstr_bytes: "cstr m a xs \<Longrightarrow> bytes a (length xs) m = xs"
  by (induction xs arbitrary: a) (simp_all add: bytes_Suc, simp add: bytes_def)

subsection \<open>Comparing\<close>

fun str_diff :: "u8 list \<Rightarrow> u8 list \<Rightarrow> int" where
  "str_diff (x # xs) (y # ys) = (if x \<noteq> y then sint (x - y) else if x = 0 then 0 else str_diff xs ys)"
| "str_diff _ _ = 0"

lemma strncmp_bytes: "rt_strncmp cs ct count m = str_diff (bytes cs (unat count) m) (bytes ct (unat count) m)"
proof (induction "unat count" arbitrary: cs ct count)
  case 0
  then show ?case by (subst rt_strncmp.simps) (simp add: bytes_def unat_eq_0)
next
  case (Suc l)
  then have n: "count \<noteq> 0" by auto
  have l: "l = unat (count - 1)" using Suc(2) n by (simp add: unat_minus_one)
  have z: "sint (x - y) = 0 \<longleftrightarrow> x = y" for x y :: u8 by (metis eq_iff_diff_eq_0 signed_eq_0_iff)
  show ?case
    using Suc.hyps(1) [OF l] n unfolding Suc(2) [symmetric]
    by (subst rt_strncmp.simps) (simp add: bytes_Suc l [symmetric] z)
qed

text \<open>The text of a string or of a field: what stands before the first null byte.\<close>

abbreviation (input) text_of :: "u8 list \<Rightarrow> u8 list" where "text_of \<equiv> takeWhile (\<lambda>c. c \<noteq> 0)"

lemma str_diff_0: "length xs = length ys \<Longrightarrow> str_diff xs ys = 0 \<longleftrightarrow> text_of xs = text_of ys"
proof (induction xs ys rule: str_diff.induct)
  case (1 x xs y ys)
  have "sint (x - y) = 0 \<longleftrightarrow> x = y" by (metis eq_iff_diff_eq_0 signed_eq_0_iff)
  then show ?case using 1 by auto
qed auto

lemma length_bytes [simp]: "length (bytes a n m) = n"
  by (simp add: bytes_def)

lemma cstr_text: "cstr m a xs \<Longrightarrow> text_of (bytes a n m) = take n xs"
proof (induction xs arbitrary: a n)
  case Nil
  then show ?case by (cases n) (simp_all add: bytes_Suc, simp add: bytes_def)
next
  case (Cons x xs)
  then show ?case by (cases n) (simp_all add: bytes_Suc, simp add: bytes_def)
qed

lemma cstr_nonzero: "cstr m a xs \<Longrightarrow> 0 \<notin> set xs"
  by (induction xs arbitrary: a) auto

lemma first_diff_strings: "0 \<notin> set xs \<Longrightarrow> 0 \<notin> set ys \<Longrightarrow> first_diff (xs @ [0]) (ys @ [0]) = 0 \<longleftrightarrow> xs = ys"
proof (induction xs arbitrary: ys)
  case Nil
  then show ?case using uint_eq [of _ 0] by (cases ys) (auto simp del: uint_eq)
next
  case (Cons x xs)
  then show ?case using uint_eq [of _ 0, simplified] by (cases ys) auto
qed

lemma sint_diff_ascii:
  assumes "(x :: u8) < 128" "y < 128"
  shows "sint (x - y) = uint x - uint y"
proof -
  have b: "0 \<le> uint x" "uint x < 128" "0 \<le> uint y" "uint y < 128"
    using assms unfolding word_less_def by (simp_all only: uint_ge_0) simp_all
  have "sint (x - y) = signed_take_bit 7 (take_bit 8 (uint x - uint y))"
    by (simp add: sint_uint uint_word_ariths take_bit_eq_mod)
  also have "\<dots> = signed_take_bit 7 (uint x - uint y)" by (simp only: signed_take_bit_take_bit) simp
  also have "\<dots> = uint x - uint y"
  proof -
    define d where "d = uint x - uint y"
    have "- 128 \<le> d" "d < 128" using b unfolding d_def by linarith+
    then show ?thesis unfolding d_def [symmetric] by (intro signed_take_bit_int_eq_self) simp_all
  qed
  finally show ?thesis .
qed

lemma str_diff_ascii:
  assumes "cstr m cs xs" "cstr m ct ys" "\<forall>c \<in> set xs \<union> set ys. c < 128" "length xs < n" "length ys < n"
  shows "str_diff (bytes cs n m) (bytes ct n m) = first_diff (xs @ [0]) (ys @ [0])"
  using assms
proof (induction xs arbitrary: cs ct ys n)
  case Nil
  then show ?case
    by (cases n; cases ys) (auto simp: bytes_Suc sint_diff_ascii [of 0, simplified])
next
  case (Cons x xs)
  then show ?case
    by (cases n; cases ys) (auto simp: bytes_Suc sint_diff_ascii sint_diff_ascii [of _ 0, simplified])
qed

text \<open>The comparison functions on null-terminated strings. \<open>rt_strcmp\<close> returns the difference of
  the first bytes that differ, and 0 exactly when the strings are equal. \<open>rt_strncmp\<close> looks at no
  more than \<open>count\<close> bytes and returns 0 exactly when the texts in them agree; on strings of 7 bit
  characters that are shorter it is \<open>rt_strcmp\<close>.\<close>

lemma strcmp_spec:
  assumes "cstr m cs xs" "cstr m ct ys"
  shows "rt_strcmp cs ct m = Some (first_diff (xs @ [0]) (ys @ [0])) \<and> (rt_strcmp cs ct m = Some 0 \<longleftrightarrow> xs = ys) \<and>
    (rt_strncmp cs ct count m = 0 \<longleftrightarrow> take (unat count) xs = take (unat count) ys) \<and>
    ((\<forall>c \<in> set xs \<union> set ys. c < 128) \<and> length xs < unat count \<and> length ys < unat count \<longrightarrow>
       rt_strcmp cs ct m = Some (rt_strncmp cs ct count m))"
proof -
  have "rt_strncmp cs ct count m = 0 \<longleftrightarrow> take (unat count) xs = take (unat count) ys"
    using cstr_text [OF assms(1)] cstr_text [OF assms(2)] by (simp add: strncmp_bytes str_diff_0)
  moreover have "first_diff (xs @ [0]) (ys @ [0]) = 0 \<longleftrightarrow> xs = ys"
    using first_diff_strings cstr_nonzero assms by blast
  ultimately show ?thesis
    using strcmp_eq [OF assms] str_diff_ascii [OF assms] by (simp add: strncmp_bytes)
qed

text \<open>Two strings in memory: "ab" at 0x10 and "ac" at 0x20.\<close>

definition two_strings :: mem where
  "two_strings = (\<lambda>_. 0)(0x10 := 97, 0x11 := 98, 0x20 := 97, 0x21 := 99)"

text \<open>\<open>rt_strncmp\<close> keeps the difference in a signed byte. When the first bytes that differ are
  128 or more apart the sign of the result is the opposite of the sign of \<open>rt_strcmp\<close>.\<close>

lemma strncmp_wrong_sign:
  assumes "count \<noteq> 0" "uint (m cs) - uint (m ct) \<ge> 128"
  shows "rt_strncmp cs ct count m = uint (m cs) - uint (m ct) - 256 \<and> rt_strncmp cs ct count m < 0 \<and>
    rt_strcmp cs ct m = Some (uint (m cs) - uint (m ct))"
proof -
  let ?x = "m cs" and ?y = "m ct"
  define d where "d = uint ?x - uint ?y"
  have "uint ?x < 256" using uint_lt2p [of ?x] by simp
  moreover have "0 \<le> uint ?y" by (rule uint_ge_0)
  ultimately have d: "128 \<le> d" "d < 256" using assms(2) unfolding d_def by linarith+
  have "sint (?x - ?y) = signed_take_bit 7 (take_bit 8 d)"
    by (simp add: sint_uint uint_word_ariths take_bit_eq_mod d_def)
  also have "\<dots> = signed_take_bit 7 d" by (simp only: signed_take_bit_take_bit) simp
  also have "\<dots> = d - 256"
  proof -
    have "bit d 7" using d by (simp add: bit_iff_odd) presburger
    then show ?thesis using d by (simp add: signed_take_bit_eq_take_bit_minus take_bit_int_eq_self)
  qed
  finally have s: "sint (?x - ?y) = d - 256" .
  have ne: "?x \<noteq> ?y" using d by (auto simp: d_def)
  have "rt_strncmp cs ct count m = d - 256" using assms(1) s d by (subst rt_strncmp.simps) simp
  moreover have "rt_strcmp cs ct m = Some d" using ne by (subst rt_strcmp.simps) (simp add: d_def)
  ultimately show ?thesis using d by (simp flip: d_def)
qed

lemma strncmp_wrong_sign_witness:
  "uint (((\<lambda>_. 0)(0x10 := 200, 0x20 := 1) :: mem) 0x10) - uint (((\<lambda>_. 0)(0x10 := 200, 0x20 := 1) :: mem) 0x20) = 199 \<and>
   rt_strncmp 0x10 0x20 4 ((\<lambda>_. 0)(0x10 := 200, 0x20 := 1)) = - 57 \<and>
   rt_strcmp 0x10 0x20 ((\<lambda>_. 0)(0x10 := 200, 0x20 := 1)) = Some 199"
  using strncmp_wrong_sign [of 4 "(\<lambda>_. 0)(0x10 := 200, 0x20 := 1)" "0x10" "0x20"] by simp

subsection \<open>Copying names\<close>

lemma unat_of_nat32: "k < 2 ^ 32 \<Longrightarrow> unat (of_nat k :: u32) = k"
  by (simp add: unat_of_nat take_bit_nat_eq_self)

lemma strncpy_pad_eq: "n \<noteq> 0 \<Longrightarrow> strncpy_pad d n m = mem_fill d (n - 1) 0 m"
proof (induction d n m rule: strncpy_pad.induct)
  case (1 d n m)
  show ?case
  proof (cases "n = 1")
    case False
    then have ne: "n - 1 \<noteq> 0" by simp
    then have le: "1 \<le> n - 1" by (simp add: word_le_nat_alt unat_gt_0 Suc_le_eq)
    have "strncpy_pad d n m = mem_fill (d + 1) (n - 1 - 1) 0 (m(d := 0))"
      using 1(1) [OF refl ne ne] ne by (subst strncpy_pad.simps) (simp add: Let_def fun_upd_def)
    then show ?thesis using fill_rest [OF le, of d 0 m] by (simp add: upd_fill)
  qed (subst strncpy_pad.simps, simp)
qed

lemma bytes_cong: "(\<And>i. i < n \<Longrightarrow> m (a + of_nat i) = m' (a + of_nat i)) \<Longrightarrow> bytes a n m = bytes a n m'"
  by (simp add: bytes_def)

lemma length_text_le: "length (text_of (bytes a (unat n) m)) \<le> unat n"
  using length_takeWhile_le [of _ "bytes a (unat n) m"] by simp

text \<open>\<open>rt_strncpy\<close> copies the text and fills the rest with null bytes.\<close>

lemma strncpy_loop_eq:
  assumes "n \<noteq> 0" "forward_ok d s n"
  shows "strncpy_loop d s n m =
    (let k = of_nat (length (text_of (bytes s (unat n) m))) in mem_fill (d + k) (n - k) 0 (mem_copy d s k m))"
  using assms
proof (induction d s n m rule: strncpy_loop.induct)
  case (1 d s n m)
  then have le: "1 \<le> n" by (simp add: word_le_nat_alt unat_gt_0 Suc_le_eq)
  obtain l where l: "unat n = Suc l" using 1(2) by (metis not0_implies_Suc unat_eq_0)
  have l': "unat (n - 1) = l" using 1(2) l by (simp add: unat_minus_one)
  show ?case
  proof (cases "m s = 0")
    case True
    then have "strncpy_loop d s n m = mem_fill (d + 1) (n - 1) 0 (mem_fill d 1 0 m)"
      using 1(2) by (subst strncpy_loop.simps) (simp add: Let_def strncpy_pad_eq upd_fill)
    then show ?thesis using True fill_rest [OF le, of d 0 m] by (simp add: l bytes_Suc)
  next
    case False
    let ?m = "mem_copy d s 1 m"
    show ?thesis
    proof (cases "n = 1")
      case True
      then show ?thesis using False l by (subst strncpy_loop.simps) (simp add: Let_def upd_copy bytes_Suc, simp add: bytes_def)
    next
      case n1: False
      then have ne: "n - 1 \<noteq> 0" by simp
      have f: "forward_ok (d + 1) (s + 1) (n - 1)" by (rule copy_loop_step(3) [OF le _ 1(3), of 0]) simp
      define k :: u32 where "k = of_nat (length (text_of (bytes (s + 1) l m)))"
      have same: "bytes (s + 1) l ?m = bytes (s + 1) l m"
      proof (rule bytes_cong)
        fix i assume i: "i < l"
        have "unat (of_nat (Suc i) :: u32) = Suc i"
          using i l unat_less_2p [of n] by (intro unat_of_nat32) simp
        then have "(of_nat (Suc i) :: u32) \<noteq> 0" "\<not> n \<le> of_nat (Suc i)"
          using i l unfolding word_le_nat_alt by (metis nat.distinct(1) unat_0, simp)
        then have "s + 1 + of_nat i \<noteq> d"
          using 1(3) unfolding forward_ok_def
          by (auto simp: add.assoc)
        then show "?m (s + 1 + of_nat i) = m (s + 1 + of_nat i)" by (simp add: mem_copy_def word_less_1)
      qed
      have "strncpy_loop d s n m = strncpy_loop (d + 1) (s + 1) (n - 1) ?m"
        using False ne by (subst strncpy_loop.simps) (simp add: Let_def upd_copy)
      also have "\<dots> = mem_fill (d + 1 + k) (n - 1 - k) 0 (mem_copy (d + 1) (s + 1) k ?m)"
        using 1(1) [OF refl False refl ne ne f] unfolding upd_copy l' same k_def Let_def by simp
      also have "mem_copy (d + 1) (s + 1) k ?m = mem_copy d s (1 + k) m"
      proof (rule copy_loop_step(2) [OF le _ 1(3)])
        have "length (text_of (bytes (s + 1) l m)) \<le> l" using length_takeWhile_le [of _ "bytes (s + 1) l m"] by simp
        then show "k \<le> n - 1" using l l' unat_less_2p [of n] by (simp add: word_le_nat_alt k_def unat_of_nat32)
      qed
      finally show ?thesis using False by (simp add: l bytes_Suc k_def algebra_simps Let_def)
    qed
  qed
qed

text \<open>The areas of \<open>n\<close> bytes at two addresses do not overlap.\<close>

definition apart :: "u32 \<Rightarrow> u32 \<Rightarrow> u32 \<Rightarrow> bool" where
  "apart dst src n \<longleftrightarrow> n \<le> dst - src \<and> n \<le> src - dst"

lemma apart_outside:
  assumes "apart dst src n" "i < unat n"
  shows "\<not> src + of_nat i - dst < n"
proof -
  have i: "unat (of_nat i :: u32) = i" using assms(2) unat_less_2p [of n] by (intro unat_of_nat32) simp
  have n: "unat n \<le> unat (dst - src)" "unat n \<le> unat (src - dst)" using assms(1) by (simp_all add: apart_def word_le_nat_alt)
  have "0 < src - dst" using n(2) assms(2) unfolding word_less_nat_alt by simp
  from unat_sub_wrap [OF this] have "unat (dst - src) + unat (src - dst) = 2 ^ 32"
    using unat_less_2p [of "src - dst"] by simp
  then have "unat (src - dst + of_nat i) = unat (src - dst) + i" using i n assms(2) by (subst unat_add_small) simp_all
  moreover have "src + of_nat i - dst = src - dst + of_nat i" by simp
  ultimately show ?thesis using n by (simp only: word_less_nat_alt)
qed

lemma filled_bytes:
  assumes k: "k \<le> unat n"
  shows "bytes dst (unat n) (mem_fill (dst + of_nat k) (n - of_nat k) 0 (mem_copy dst src (of_nat k) m)) =
    bytes src k m @ replicate (unat n - k) 0"
proof (rule nth_equalityI)
  have k32: "unat (of_nat k :: u32) = k" using k unat_less_2p [of n] by (intro unat_of_nat32) simp
  fix i assume "i < length (bytes dst (unat n) (mem_fill (dst + of_nat k) (n - of_nat k) 0 (mem_copy dst src (of_nat k) m)))"
  then have i: "i < unat n" by simp
  have i32: "unat (of_nat i :: u32) = i" using i unat_less_2p [of n] by (intro unat_of_nat32) simp
  have nk: "unat (n - of_nat k) = unat n - k" using k k32 by (simp add: unat_sub word_le_nat_alt)
  have e: "dst + of_nat i - (dst + of_nat k) = (of_nat i - of_nat k :: u32)" by simp
  have lt: "(of_nat i :: u32) < of_nat k \<longleftrightarrow> i < k" by (simp add: word_less_nat_alt i32 k32)
  have f: "dst + of_nat i - (dst + of_nat k) < n - of_nat k \<longleftrightarrow> k \<le> i"
  proof (cases "i < k")
    case True
    then have "unat (of_nat i - of_nat k :: u32) = 2 ^ 32 + i - k" using unat_sub_wrap [of "of_nat i" "of_nat k"] lt i32 k32 by simp
    then show ?thesis using True unat_less_2p [of n] by (simp only: e word_less_nat_alt nk) simp
  next
    case False
    then have "unat (of_nat i - of_nat k :: u32) = i - k" by (simp add: unat_sub word_le_nat_alt i32 k32)
    then show ?thesis using False i by (simp only: e word_less_nat_alt nk) simp
  qed
  show "bytes dst (unat n) (mem_fill (dst + of_nat k) (n - of_nat k) 0 (mem_copy dst src (of_nat k) m)) ! i =
      (bytes src k m @ replicate (unat n - k) 0) ! i"
    using i k f lt by (simp add: bytes_def nth_append mem_fill_def mem_copy_def)
qed (use k in simp)

text \<open>Names survive storing and comparing. \<open>rt_strncpy\<close> into a field of \<open>n\<close> bytes stores the text,
  cut to the field, fills the rest of the field with null bytes and touches nothing else.
  \<open>rt_strncmp\<close> on \<open>n\<close> bytes then finds the field equal to its source, and equal to another string
  exactly when that string has the same first \<open>n\<close> characters of text.\<close>

lemma strncpy_roundtrip:
  assumes n: "n \<noteq> 0" and a: "apart dst src n"
  shows "let m' = rt_strncpy dst src n m; t = takeWhile (\<lambda>c. c \<noteq> 0) (bytes src (unat n) m) in
    bytes dst (unat n) m' = t @ replicate (unat n - length t) 0 \<and> (\<forall>x. \<not> x - dst < n \<longrightarrow> m' x = m x) \<and>
    rt_strncmp dst src n m' = 0 \<and>
    (\<forall>p. rt_strncmp p dst n m' = 0 \<longleftrightarrow> takeWhile (\<lambda>c. c \<noteq> 0) (bytes p (unat n) m') = t)"
proof -
  define m' where "m' = rt_strncpy dst src n m"
  define t where "t = takeWhile (\<lambda>c. c \<noteq> 0) (bytes src (unat n) m)"
  let ?k = "length t"
  have k: "?k \<le> unat n" using length_takeWhile_le [of _ "bytes src (unat n) m"] by (simp add: t_def)
  have f: "forward_ok dst src n" using a by (simp add: apart_def forward_ok_def)
  have m': "m' = mem_fill (dst + of_nat ?k) (n - of_nat ?k) 0 (mem_copy dst src (of_nat ?k) m)"
    using n strncpy_loop_eq [OF n f, of m] by (simp add: m'_def rt_strncpy_def t_def Let_def)
  have "bytes src ?k m = take ?k (bytes src (unat n) m)" using k by (simp add: bytes_def take_map)
  then have bt: "bytes src ?k m = t" unfolding t_def by (simp add: takeWhile_eq_take [symmetric])
  have b: "bytes dst (unat n) m' = t @ replicate (unat n - ?k) 0" unfolding m' filled_bytes [OF k] bt ..
  have out: "m' x = m x" if "\<not> x - dst < n" for x
  proof -
    have k32: "unat (of_nat ?k :: u32) = ?k" using k unat_less_2p [of n] by (intro unat_of_nat32) simp
    have nk: "of_nat ?k \<le> n" using k by (simp add: word_le_nat_alt k32)
    have y: "unat n \<le> unat (x - dst)" using that by (simp add: word_le_nat_alt not_less)
    then have le: "of_nat ?k \<le> x - dst" using k by (simp add: word_le_nat_alt k32)
    have e: "x - (dst + of_nat ?k) = x - dst - of_nat ?k" by simp
    have "\<not> x - dst < of_nat ?k" using le by simp
    moreover have "\<not> x - dst - of_nat ?k < n - of_nat ?k"
      unfolding word_less_nat_alt unat_sub [OF nk] unat_sub [OF le] using y by simp
    ultimately show ?thesis unfolding m' mem_fill_def mem_copy_def e by simp
  qed
  have "bytes src (unat n) m' = bytes src (unat n) m" by (rule bytes_cong) (rule out, rule apart_outside [OF a])
  then have ts: "text_of (bytes src (unat n) m') = t" by (simp add: t_def)
  have "\<forall>c \<in> set t. c \<noteq> 0" unfolding t_def by (auto dest: set_takeWhileD)
  then have td: "text_of (bytes dst (unat n) m') = t" unfolding b by (simp add: takeWhile_append2 takeWhile_replicate)
  have c: "rt_strncmp p q n m' = 0 \<longleftrightarrow> text_of (bytes p (unat n) m') = text_of (bytes q (unat n) m')" for p q
    by (simp add: strncmp_bytes str_diff_0)
  show ?thesis unfolding Let_def m'_def [symmetric] t_def [symmetric] c ts td using b out by simp
qed

lemma strncpy_roundtrip_witness:
  "apart 0x100 0x10 8 \<and> bytes 0x100 8 (rt_strncpy 0x100 0x10 8 two_strings) = [97, 98, 0, 0, 0, 0, 0, 0] \<and>
   rt_strncmp 0x100 0x10 8 (rt_strncpy 0x100 0x10 8 two_strings) = 0"
proof -
  have a: "apart 0x100 0x10 8" by (simp add: apart_def)
  have "bytes 0x10 8 two_strings = [97, 98, 0, 0, 0, 0, 0, 0]" by code_simp
  moreover have "replicate 6 (0 :: u8) = [0, 0, 0, 0, 0, 0]" by (simp add: numeral_eq_Suc)
  ultimately show ?thesis using strncpy_roundtrip [of 8, OF _ a, of two_strings] a by (simp add: Let_def)
qed

subsection \<open>Searching\<close>

lemma cstr_bytes_take: "cstr m a xs \<Longrightarrow> k \<le> length xs \<Longrightarrow> bytes a k m = take k xs"
proof (induction xs arbitrary: a k)
  case Nil
  then show ?case by (simp add: bytes_def)
next
  case (Cons x xs)
  then show ?case by (cases k) (simp_all add: bytes_Suc, simp add: bytes_def)
qed

lemma prefix_take: "prefix ys zs \<longleftrightarrow> take (length ys) zs = ys"
  by (metis append_eq_conv_conj append_take_drop_id prefix_def)

lemma memcmp_prefix:
  assumes "cstr m s1 zs" "cstr m s2 ys" "length ys < 2 ^ 31" "length ys \<le> length zs"
  shows "rt_memcmp s1 s2 (word_of_int (int (length ys))) m = 0 \<longleftrightarrow> prefix ys zs"
proof -
  have u: "unat (word_of_int (int (length ys)) :: u32) = length ys" using assms(3) by (simp add: unat_of_nat32)
  show ?thesis
    unfolding memcmp_eq u cstr_bytes_take [OF assms(1,4)] cstr_bytes [OF assms(2)] prefix_take
    by (rule first_diff_0) (use assms(4) in simp)
qed

text \<open>The first place where a list begins with another.\<close>

definition first_at :: "u8 list \<Rightarrow> u8 list \<Rightarrow> nat \<Rightarrow> bool" where
  "first_at ys xs k \<longleftrightarrow> prefix ys (drop k xs) \<and> (\<forall>j < k. \<not> prefix ys (drop j xs))"

lemma first_at_Suc: "\<not> prefix ys (x # xs) \<Longrightarrow> first_at ys (x # xs) (Suc k) \<longleftrightarrow> first_at ys xs k"
  unfolding first_at_def by (simp add: All_less_Suc2)

lemma strstr_loop_eq:
  assumes "cstr m s1 xs" "cstr m s2 ys" "length ys < 2 ^ 31" "ys \<noteq> []"
  shows "case strstr_loop s1 s2 (int (length xs)) (int (length ys)) m of
      None \<Rightarrow> \<forall>k. \<not> prefix ys (drop k xs) | Some p \<Rightarrow> \<exists>k. p = s1 + of_nat k \<and> first_at ys xs k"
  using assms(1)
proof (induction xs arbitrary: s1)
  case Nil
  then show ?case using assms(4) by (subst strstr_loop.simps) (simp add: Suc_le_eq)
next
  case (Cons x xs)
  have ih: "case strstr_loop (s1 + 1) s2 (int (length xs)) (int (length ys)) m of
      None \<Rightarrow> \<forall>k. \<not> prefix ys (drop k xs) | Some p \<Rightarrow> \<exists>k. p = s1 + 1 + of_nat k \<and> first_at ys xs k"
    using Cons by simp
  consider "length (x # xs) < length ys" | "length ys \<le> length (x # xs)" "prefix ys (x # xs)"
    | "length ys \<le> length (x # xs)" "\<not> prefix ys (x # xs)" by linarith
  then show ?case
  proof cases
    case 1
    then have "\<not> prefix ys (drop k (x # xs))" for k
      using prefix_length_le [of ys "drop k (x # xs)"] by auto
    then show ?thesis using 1 by (subst strstr_loop.simps) simp
  next
    case 2
    then have "strstr_loop s1 s2 (int (length (x # xs))) (int (length ys)) m = Some s1"
      using memcmp_prefix [OF Cons.prems assms(2,3)] by (subst strstr_loop.simps) simp
    moreover have "first_at ys (x # xs) 0" using 2 by (simp add: first_at_def)
    ultimately show ?thesis by (auto intro: exI [of _ 0])
  next
    case 3
    then have l: "strstr_loop s1 s2 (int (length (x # xs))) (int (length ys)) m = strstr_loop (s1 + 1) s2 (int (length xs)) (int (length ys)) m"
      using memcmp_prefix [OF Cons.prems assms(2,3)] by (subst strstr_loop.simps) simp
    show ?thesis
    proof (cases "strstr_loop (s1 + 1) s2 (int (length xs)) (int (length ys)) m")
      case None
      have "\<not> prefix ys (drop k (x # xs))" for k using ih None 3(2) by (cases k) auto
      then show ?thesis using None l by simp
    next
      case (Some p)
      then obtain k where k: "p = s1 + 1 + of_nat k" "first_at ys xs k" using ih by auto
      then have "p = s1 + of_nat (Suc k)" "first_at ys (x # xs) (Suc k)" using first_at_Suc [OF 3(2)] by simp_all
      then show ?thesis unfolding l Some option.case by blast
    qed
  qed
qed

text \<open>On null-terminated strings of less than two gigabytes \<open>rt_strstr\<close> returns; the result points to
  the first place in the first string where the second one stands, and is null exactly when it
  stands nowhere.\<close>

lemma strstr_first:
  assumes "cstr m s1 xs" "cstr m s2 ys" "length xs < 2 ^ 31" "length ys < 2 ^ 31"
  shows "\<exists>r. rt_strstr s1 s2 m = Some r \<and>
    (case r of None \<Rightarrow> \<not> sublist ys xs
     | Some p \<Rightarrow> \<exists>k \<le> length xs. p = s1 + of_nat k \<and> prefix ys (drop k xs) \<and> (\<forall>j < k. \<not> prefix ys (drop j xs)))"
proof -
  have s: "sint (of_nat n :: u32) = int n" if "n < 2 ^ 31" for n
  proof -
    have "unat (of_nat n :: u32) = n" using that by (intro unat_of_nat32) simp
    then show ?thesis using that sint_small [of "of_nat n :: u32"] by simp
  qed
  note L = strlen_eq [OF assms(1)] strlen_eq [OF assms(2)] s [OF assms(3)] s [OF assms(4)]
  show ?thesis
  proof (cases "ys = []")
    case True
    then have "rt_strstr s1 s2 m = Some (Some s1)" using L by (simp add: rt_strstr_def)
    then show ?thesis using True by auto
  next
    case False
    then have r: "rt_strstr s1 s2 m = Some (strstr_loop s1 s2 (int (length xs)) (int (length ys)) m)"
      using L by (simp add: rt_strstr_def)
    have "sublist ys xs \<longleftrightarrow> (\<exists>k. prefix ys (drop k xs))"
      by (metis append_take_drop_id append_eq_conv_conj prefix_def sublist_def)
    moreover have "k \<le> length xs" if "prefix ys (drop k xs)" for k
      using that False by (cases "k \<le> length xs") auto
    ultimately show ?thesis
      using strstr_loop_eq [OF assms(1,2,4) False] r by (auto simp: first_at_def split: option.splits)
  qed
qed

lemma strstr_first_witness:
  "cstr two_strings 0x10 [97, 98] \<and> cstr two_strings 0x11 [98] \<and>
   (\<exists>p. rt_strstr 0x10 0x11 two_strings = Some (Some p) \<and> p = 0x11)"
proof -
  have c: "cstr two_strings 0x10 [97, 98]" "cstr two_strings 0x11 [98]" by (simp_all add: two_strings_def)
  obtain r where r: "rt_strstr 0x10 0x11 two_strings = Some r"
    "case r of None \<Rightarrow> \<not> sublist [98] [97, 98 :: u8]
     | Some p \<Rightarrow> \<exists>k \<le> length [97, 98 :: u8]. p = 0x10 + of_nat k \<and> prefix [98] (drop k [97, 98 :: u8]) \<and> (\<forall>j < k. \<not> prefix [98] (drop j [97, 98 :: u8]))"
    using strstr_first [OF c] by auto
  have "sublist [98] [97, 98 :: u8]" by (metis append_Cons append_Nil append_Nil2 sublist_def)
  then obtain p k where p: "r = Some p" "k \<le> 2" "p = 0x10 + of_nat k" "prefix [98] (drop k [97, 98 :: u8])"
    using r(2) by (auto split: option.splits)
  have "k = 1" using p(2,4) by (cases k rule: nat.exhaust; cases "k = 2") (auto simp: numeral_2_eq_2 le_Suc_eq)
  then show ?thesis using c r(1) p by simp
qed

end
