(* ===== verification/Rt_Printf.thy ===== *)
theory Rt_Printf
  imports Rt_String
begin

text \<open>
  The formatted output of \<open>src/kservice.c\<close>: \<open>rt_vsnprintf\<close> with \<open>print_number\<close>, as configured
  (\<open>RT_PRINTF_PRECISION\<close>, neither \<open>RT_PRINTF_SPECIAL\<close> nor \<open>RT_PRINTF_LONGLONG\<close>). The buffer is in a
  memory of bytes; \<open>str\<close> runs on behind \<open>end\<close> without writing. The format and the strings among
  the arguments are lists of characters that a null character or the end of the list ends.
  An argument that is missing or of the wrong kind gives \<open>None\<close>. The theory gives the text of
  every conversion in closed form, shows that \<open>rt_vsnprintf\<close> stores it, cut to the buffer, and
  that the digits read back as the number.
\<close>

subsection \<open>Operations\<close>

datatype fmt_arg = Arg_Int u32 | Arg_Str "string option"

abbreviation (input) ZEROPAD :: u8 where "ZEROPAD \<equiv> 1"
abbreviation (input) SIGN :: u8 where "SIGN \<equiv> 2"
abbreviation (input) PLUS :: u8 where "PLUS \<equiv> 4"
abbreviation (input) SPACE :: u8 where "SPACE \<equiv> 8"
abbreviation (input) LEFT :: u8 where "LEFT \<equiv> 16"
abbreviation (input) SPECIAL :: u8 where "SPECIAL \<equiv> 32"
abbreviation (input) LARGE :: u8 where "LARGE \<equiv> 64"

text \<open>\<open>if (str < end) *str = c; ++ str;\<close>\<close>

type_synonym out = "u32 \<times> mem"

definition put_char :: "u32 \<Rightarrow> char \<Rightarrow> out \<Rightarrow> out" where
  "put_char e c = (\<lambda>(str, m). (str + 1, if str < e then m(str := of_char c) else m))"

definition isdigit :: "char \<Rightarrow> bool" where
  "isdigit c \<longleftrightarrow> (of_char c :: u32) - 48 < 10"

fun skip_atoi :: "u32 \<Rightarrow> string \<Rightarrow> u32 \<times> string" where
  "skip_atoi i [] = (i, [])"
| "skip_atoi i (c # cs) = (if isdigit c then skip_atoi (i * 10 + of_char c - 48) cs else (i, c # cs))"

text \<open>The digit and the quotient; every base but 10 is treated as 16.\<close>

definition divide_num :: "u32 \<Rightarrow> nat \<Rightarrow> nat \<times> u32" where
  "divide_num n base = (if base = 10 then (unat (n mod 10), n div 10) else (unat (n mod 16), n div 16))"

definition small_digits :: string where "small_digits = ''0123456789abcdef''"
definition large_digits :: string where "large_digits = ''0123456789ABCDEF''"

text \<open>\<open>tmp\<close>, the last digit first, and the loop that fills it.\<close>

function digit_loop :: "string \<Rightarrow> nat \<Rightarrow> u32 \<Rightarrow> string \<Rightarrow> string" where
  "digit_loop digits base num tmp =
     (if num \<noteq> 0 then let (r, q) = divide_num num base in digit_loop digits base q (tmp @ [digits ! r]) else tmp)"
  by pat_completeness auto
termination
proof (relation "measure (\<lambda>(_, _, num, _). unat num)", goal_cases)
  case (2 digits base num tmp x r q)
  then have "unat q < unat num" by (auto simp: divide_num_def unat_div unat_gt_0 split: if_splits)
  then show ?case by simp
qed simp

declare digit_loop.simps [simp del]

text \<open>\<open>while (size-- > 0)\<close> puts a character: the value of \<open>size\<close> afterwards and the output.\<close>

function pad_loop :: "u32 \<Rightarrow> char \<Rightarrow> int \<Rightarrow> out \<Rightarrow> int \<times> out" where
  "pad_loop e c sz st = (if 0 < sz then pad_loop e c (sz - 1) (put_char e c st) else (sz - 1, st))"
  by pat_completeness auto
termination by (relation "measure (\<lambda>(_, _, sz, _). nat sz)") auto

declare pad_loop.simps [simp del]

definition put_string :: "u32 \<Rightarrow> string \<Rightarrow> out \<Rightarrow> out" where
  "put_string e cs st = fold (put_char e) cs st"

text \<open>The sign character, if any, and the number that is printed.\<close>

definition sign_of :: "u32 \<Rightarrow> u8 \<Rightarrow> char option \<times> u32" where
  "sign_of num type =
     (if type AND SIGN \<noteq> 0
      then if sint num < 0 then (Some (CHR ''-''), - num)
           else if type AND PLUS \<noteq> 0 then (Some (CHR ''+''), num)
           else if type AND SPACE \<noteq> 0 then (Some (CHR '' ''), num)
           else (None, num)
      else (None, num))"

text \<open>The part of \<open>print_number\<close> that writes: padding, sign, zeros up to the precision, digits.\<close>

definition put_number :: "u32 \<Rightarrow> char option \<Rightarrow> string \<Rightarrow> int \<Rightarrow> int \<Rightarrow> u8 \<Rightarrow> out \<Rightarrow> out" where
  "put_number e sign tmp s precision type st0 =
     (let c = (if type AND ZEROPAD \<noteq> 0 then CHR ''0'' else CHR '' '');
          i = int (length tmp);
          precision1 = (if precision < i then i else precision);
          size0 = s - precision1;
          (size1, st1) =
            (if type AND (ZEROPAD OR LEFT) = 0
             then pad_loop e (CHR '' '') (if sign \<noteq> None \<and> 0 < size0 then size0 - 1 else size0) st0
             else (size0, st0));
          (size2, st2) = (case sign of Some sg \<Rightarrow> (size1 - 1, put_char e sg st1) | None \<Rightarrow> (size1, st1));
          (size3, st3) = (if type AND LEFT = 0 then pad_loop e c size2 st2 else (size2, st2));
          (_, st4) = pad_loop e (CHR ''0'') (precision1 - i) st3;
          st5 = (if precision \<noteq> 0 then put_string e (rev tmp) st4 else st4);
          (_, st6) = pad_loop e (CHR '' '') size3 st5
      in st6)"

definition print_number :: "u32 \<Rightarrow> u32 \<Rightarrow> nat \<Rightarrow> int \<Rightarrow> int \<Rightarrow> u8 \<Rightarrow> out \<Rightarrow> out option" where
  "print_number e num base s precision type0 st = do {
     let digits = (if type0 AND LARGE \<noteq> 0 then large_digits else small_digits);
     let type = (if type0 AND LEFT \<noteq> 0 then type0 AND NOT ZEROPAD else type0);
     let (sign, num1) = sign_of num type;
     let tmp = (if num1 = 0 then ''0'' else digit_loop digits base num1 []);
     rt_assert (length tmp \<le> 16);
     Some (put_number e sign tmp s precision type st)
   }"

text \<open>The parts of a conversion: flags, width, precision and qualifier.\<close>

fun parse_flags :: "u8 \<Rightarrow> string \<Rightarrow> u8 \<times> string" where
  "parse_flags fl [] = (fl, [])"
| "parse_flags fl (c # cs) =
     (if c = CHR ''-'' then parse_flags (fl OR LEFT) cs
      else if c = CHR ''+'' then parse_flags (fl OR PLUS) cs
      else if c = CHR '' '' then parse_flags (fl OR SPACE) cs
      else if c = CHR ''#'' then parse_flags (fl OR SPECIAL) cs
      else if c = CHR ''0'' then parse_flags (fl OR ZEROPAD) cs
      else (fl, c # cs))"

fun next_int :: "fmt_arg list \<Rightarrow> (u32 \<times> fmt_arg list) option" where
  "next_int (Arg_Int n # as) = Some (n, as)"
| "next_int _ = None"

fun next_str :: "fmt_arg list \<Rightarrow> (string option \<times> fmt_arg list) option" where
  "next_str (Arg_Str s # as) = Some (s, as)"
| "next_str _ = None"

definition parse_width :: "u8 \<Rightarrow> string \<Rightarrow> fmt_arg list \<Rightarrow> (int \<times> u8 \<times> string \<times> fmt_arg list) option" where
  "parse_width fl f as =
     (case f of
        [] \<Rightarrow> Some (- 1, fl, f, as)
      | c # cs \<Rightarrow>
          if isdigit c then let (w, f1) = skip_atoi 0 f in Some (sint w, fl, f1, as)
          else if c = CHR ''*''
          then do {
            (w, as1) \<leftarrow> next_int as;
            Some (if sint w < 0 then (- sint w, fl OR LEFT, cs, as1) else (sint w, fl, cs, as1))
          }
          else Some (- 1, fl, f, as))"

definition parse_precision :: "string \<Rightarrow> fmt_arg list \<Rightarrow> (int \<times> string \<times> fmt_arg list) option" where
  "parse_precision f as =
     (case f of
        [] \<Rightarrow> Some (- 1, f, as)
      | c # cs \<Rightarrow>
          if c = CHR ''.''
          then do {
            (p, f1, as1) \<leftarrow>
              (case cs of
                 [] \<Rightarrow> Some (- 1, cs, as)
               | c1 # cs1 \<Rightarrow>
                   if isdigit c1 then let (p, f1) = skip_atoi 0 cs in Some (sint p, f1, as)
                   else if c1 = CHR ''*'' then do { (p, as1) \<leftarrow> next_int as; Some (sint p, cs1, as1) }
                   else Some (- 1, cs, as));
            Some (if p < 0 then 0 else p, f1, as1)
          }
          else Some (- 1, f, as))"

definition parse_qualifier :: "string \<Rightarrow> char option \<times> string" where
  "parse_qualifier f =
     (case f of [] \<Rightarrow> (None, f) | c # cs \<Rightarrow> if c = CHR ''h'' \<or> c = CHR ''l'' then (Some c, cs) else (None, f))"

text \<open>\<open>%c\<close>: \<open>while (--field_width > 0)\<close> pads in front or behind.\<close>

definition conv_char :: "u32 \<Rightarrow> u8 \<Rightarrow> int \<Rightarrow> char \<Rightarrow> out \<Rightarrow> out" where
  "conv_char e fl w c st =
     (let (w1, st1) = (if fl AND LEFT = 0 then let (x, st0) = pad_loop e (CHR '' '') (w - 1) st in (x + 1, st0) else (w, st));
          (_, st2) = pad_loop e (CHR '' '') (w1 - 1) (put_char e c st1)
      in st2)"

text \<open>\<open>%s\<close>: \<open>while (len < field_width--)\<close> pads in front or behind.\<close>

definition conv_str :: "u32 \<Rightarrow> u8 \<Rightarrow> int \<Rightarrow> int \<Rightarrow> string option \<Rightarrow> out \<Rightarrow> out" where
  "conv_str e fl w p sv st =
     (let s = takeWhile (\<lambda>c. c \<noteq> CHR 0x00) (case sv of None \<Rightarrow> ''(NULL)'' | Some s \<Rightarrow> s);
          len = (if 0 < p \<and> p < int (length s) then p else int (length s));
          (w1, st1) = (if fl AND LEFT = 0 then pad_loop e (CHR '' '') (w - len) st else (w - len, st));
          st2 = put_string e (take (nat len) s) st1;
          (_, st3) = pad_loop e (CHR '' '') w1 st2
      in st3)"

definition conv_num :: "char option \<Rightarrow> u8 \<Rightarrow> u32 \<Rightarrow> u32" where
  "conv_num q fl v =
     (if q = Some (CHR ''h'')
      then let h = (ucast v :: u16) in if fl AND SIGN \<noteq> 0 then scast h else ucast h
      else v)"

text \<open>Flags, width, precision, qualifier, and what stands behind them.\<close>

definition parse_conv :: "string \<Rightarrow> fmt_arg list \<Rightarrow> (u8 \<times> int \<times> int \<times> char option \<times> string \<times> fmt_arg list) option" where
  "parse_conv fmt as = do {
     let (fl0, f1) = parse_flags 0 fmt;
     (w, fl, f2, as1) \<leftarrow> parse_width fl0 f1 as;
     (p, f3, as2) \<leftarrow> parse_precision f2 as1;
     let (q, f4) = parse_qualifier f3;
     Some (fl, w, p, q, f4, as2)
   }"

text \<open>The \<open>switch\<close> on the conversion character: the arguments left and the output.\<close>

definition convert :: "u32 \<Rightarrow> u8 \<Rightarrow> int \<Rightarrow> int \<Rightarrow> char option \<Rightarrow> char \<Rightarrow> fmt_arg list \<Rightarrow> out \<Rightarrow> (fmt_arg list \<times> out) option" where
  "convert e fl w p q c as st =
     (if c = CHR ''c'' then do {
        (v, as1) \<leftarrow> next_int as;
        Some (as1, conv_char e fl w (char_of (unat (ucast v :: u8))) st) }
      else if c = CHR ''s'' then do {
        (sv, as1) \<leftarrow> next_str as;
        Some (as1, conv_str e fl w p sv st) }
      else if c = CHR ''p'' then do {
        (v, as1) \<leftarrow> next_int as;
        st1 \<leftarrow> (if w = - 1 then print_number e v 16 8 p (fl OR ZEROPAD) st else print_number e v 16 w p fl st);
        Some (as1, st1) }
      else if c = CHR ''%'' then Some (as, put_char e (CHR ''%'') st)
      else if c \<in> set ''oXxdiu'' then do {
        let base = (if c = CHR ''o'' then 8 else if c = CHR ''X'' \<or> c = CHR ''x'' then 16 else 10);
        let fl1 = (if c = CHR ''X'' then fl OR LARGE else if c = CHR ''d'' \<or> c = CHR ''i'' then fl OR SIGN else fl);
        (v, as1) \<leftarrow> next_int as;
        st1 \<leftarrow> print_number e (conv_num q fl1 v) base w p fl1 st;
        Some (as1, st1) }
      else Some (as, put_char e c (put_char e (CHR ''%'') st)))"

text \<open>One conversion, behind the \<open>%\<close>: the rest of the format, the arguments left, the output.\<close>

definition conversion :: "u32 \<Rightarrow> string \<Rightarrow> fmt_arg list \<Rightarrow> out \<Rightarrow> (string \<times> fmt_arg list \<times> out) option" where
  "conversion e fmt as st = do {
     (fl, w, p, q, f, as1) \<leftarrow> parse_conv fmt as;
     case f of
       [] \<Rightarrow> Some ([], as1, put_char e (CHR ''%'') st)
     | c # rest \<Rightarrow>
         if c = CHR 0x00 then Some ([], as1, put_char e (CHR ''%'') st)
         else do { (as2, st1) \<leftarrow> convert e fl w p q c as1 st; Some (rest, as2, st1) }
   }"

text \<open>The rest of the format is shorter, so that the loop over it ends.\<close>

lemma parse_flags_length: "length (snd (parse_flags fl f)) \<le> length f"
  by (induction fl f rule: parse_flags.induct) auto

lemma skip_atoi_length: "length (snd (skip_atoi i f)) \<le> length f"
  by (induction i f rule: skip_atoi.induct) auto

lemma parse_width_length: "parse_width fl f as = Some (w, fl', f', as') \<Longrightarrow> length f' \<le> length f"
  using skip_atoi_length [of 0 f]
  by (auto simp: parse_width_def bind_eq_Some_conv split: list.splits if_splits prod.splits)

lemma parse_precision_length: "parse_precision f as = Some (p, f', as') \<Longrightarrow> length f' \<le> length f"
  using skip_atoi_length [of 0 "tl f"]
  by (auto simp: parse_precision_def bind_eq_Some_conv split: list.splits if_splits prod.splits)

lemma parse_qualifier_length: "length (snd (parse_qualifier f)) \<le> length f"
  by (auto simp: parse_qualifier_def split: list.splits)

lemma parse_conv_length:
  assumes "parse_conv fmt as = Some (fl, w, p, q, f, as')"
  shows "length f \<le> length fmt"
proof -
  obtain fl0 f1 where 1: "parse_flags 0 fmt = (fl0, f1)" by fastforce
  then obtain w2 fl2 f2 as2 p3 f3 as3 where 2: "parse_width fl0 f1 as = Some (w2, fl2, f2, as2)" "parse_precision f2 as2 = Some (p3, f3, as3)"
      "f = snd (parse_qualifier f3)"
    using assms by (auto simp: parse_conv_def Let_def case_prod_unfold bind_eq_Some_conv)
  have "length f \<le> length f3" using 2(3) parse_qualifier_length [of f3] by simp
  also have "\<dots> \<le> length f2" by (rule parse_precision_length [OF 2(2)])
  also have "\<dots> \<le> length f1" by (rule parse_width_length [OF 2(1)])
  also have "\<dots> \<le> length fmt" using parse_flags_length [of 0 fmt] 1 by simp
  finally show ?thesis .
qed

lemma conversion_length:
  assumes "conversion e fmt as st = Some (rest, as', st')"
  shows "length rest \<le> length fmt"
proof -
  obtain fl w p q f as2 where pc: "parse_conv fmt as = Some (fl, w, p, q, f, as2)"
    using assms by (auto simp: conversion_def bind_eq_Some_conv)
  then have "rest = [] \<or> rest = tl f"
    using assms by (cases f) (auto simp: conversion_def bind_eq_Some_conv split: if_splits)
  then show ?thesis using parse_conv_length [OF pc] by (cases f) auto
qed

function fmt_loop :: "u32 \<Rightarrow> string \<Rightarrow> fmt_arg list \<Rightarrow> out \<Rightarrow> out option" where
  "fmt_loop e fmt as st =
     (case fmt of
        [] \<Rightarrow> Some st
      | c # cs \<Rightarrow>
          if c = CHR 0x00 then Some st
          else if c \<noteq> CHR ''%'' then fmt_loop e cs as (put_char e c st)
          else do {
            (rest, as1, st1) \<leftarrow> conversion e cs as st;
            fmt_loop e rest as1 st1
          })"
  by pat_completeness auto
termination
  by (relation "measure (\<lambda>(_, fmt, _, _). length fmt)") (auto dest!: conversion_length)

declare fmt_loop.simps [simp del]

definition rt_vsnprintf :: "u32 \<Rightarrow> u32 \<Rightarrow> string \<Rightarrow> fmt_arg list \<Rightarrow> mem \<Rightarrow> (u32 \<times> mem) option" where
  "rt_vsnprintf buf sz0 fmt as m = do {
     let (e, sz) = (if buf + sz0 < buf then (0xffffffff, 0xffffffff - buf) else (buf + sz0, sz0));
     (str, m1) \<leftarrow> fmt_loop e fmt as (buf, m);
     let m2 = (if 0 < sz then if str < e then m1(str := 0) else m1(e - 1 := 0) else m1);
     Some (str - buf, m2)
   }"

definition rt_snprintf :: "u32 \<Rightarrow> u32 \<Rightarrow> string \<Rightarrow> fmt_arg list \<Rightarrow> mem \<Rightarrow> (u32 \<times> mem) option" where
  "rt_snprintf buf sz fmt as m = rt_vsnprintf buf sz fmt as m"

definition rt_vsprintf :: "u32 \<Rightarrow> string \<Rightarrow> fmt_arg list \<Rightarrow> mem \<Rightarrow> (u32 \<times> mem) option" where
  "rt_vsprintf buf fmt as m = rt_vsnprintf buf (- 1) fmt as m"

definition rt_sprintf :: "u32 \<Rightarrow> string \<Rightarrow> fmt_arg list \<Rightarrow> mem \<Rightarrow> (u32 \<times> mem) option" where
  "rt_sprintf buf fmt as m = rt_vsprintf buf fmt as m"

subsection \<open>The text of a conversion\<close>

lemma put_string_simps [simp]:
  "put_string e [] st = st" "put_string e (c # cs) st = put_string e cs (put_char e c st)"
  "put_string e (cs @ ds) st = put_string e ds (put_string e cs st)"
  by (simp_all add: put_string_def)

lemma pad_loop_eq: "pad_loop e c n st = (if 0 < n then - 1 else n - 1, put_string e (replicate (nat n) c) st)"
proof (induction e c n st rule: pad_loop.induct)
  case (1 e c n st)
  show ?case
  proof (cases "0 < n")
    case True
    then have "nat n = Suc (nat (n - 1))" by simp
    moreover have "pad_loop e c n st = pad_loop e c (n - 1) (put_char e c st)" using True by (simp add: pad_loop.simps)
    ultimately show ?thesis using 1 True by (cases "n = 1") simp_all
  qed (simp add: pad_loop.simps)
qed

text \<open>The digits of a number, the most significant first.\<close>

definition digits_of :: "string \<Rightarrow> nat \<Rightarrow> u32 \<Rightarrow> string" where
  "digits_of digits base num = (if num = 0 then ''0'' else rev (digit_loop digits base num []))"

lemma divide_less: "num \<noteq> 0 \<Longrightarrow> unat (snd (divide_num num base)) < unat num"
  by (auto simp: divide_num_def unat_div unat_gt_0)

lemma digit_loop_step:
  "num \<noteq> 0 \<Longrightarrow> digit_loop digits base num tmp = digit_loop digits base (snd (divide_num num base)) (tmp @ [digits ! fst (divide_num num base)])"
  by (simp add: digit_loop.simps [of digits base num tmp] split: prod.splits)

lemma digit_loop_0 [simp]: "digit_loop digits base 0 tmp = tmp"
  by (simp add: digit_loop.simps)

lemma digit_loop_acc: "digit_loop digits base num tmp = tmp @ digit_loop digits base num []"
proof (induction num arbitrary: tmp rule: measure_induct_rule [of unat])
  case (less num)
  show ?case
  proof (cases "num = 0")
    case False
    note IH = less.IH [OF divide_less [OF False], of base]
    show ?thesis unfolding digit_loop_step [OF False] IH [of "_ @ _"] by simp
  qed simp
qed

lemma digits_of_step:
  "digits_of digits base num =
     (let (r, q) = divide_num num base in if num = 0 then ''0'' else (if q = 0 then [] else digits_of digits base q) @ [digits ! r])"
  using digit_loop_acc [of digits base "snd (divide_num num base)" "[digits ! fst (divide_num num base)]"]
  by (simp add: digits_of_def digit_loop_step split: prod.splits)

lemma digit_loop_length:
  assumes "unat num < 10 ^ k"
  shows "length (digit_loop digits base num []) \<le> k"
  using assms
proof (induction k arbitrary: num)
  case 0
  then show ?case by (simp add: unat_eq_zero)
next
  case (Suc k)
  show ?case
  proof (cases "num = 0")
    case False
    have "unat (snd (divide_num num base)) \<le> unat num div 10" by (simp add: divide_num_def unat_div div_le_mono2)
    also have "\<dots> < 10 ^ k" using Suc.prems by (simp add: less_mult_imp_div_less mult.commute)
    finally have "length (digit_loop digits base (snd (divide_num num base)) []) \<le> k" by (rule Suc.IH)
    then show ?thesis
      using digit_loop_acc [of digits base "snd (divide_num num base)" "[digits ! fst (divide_num num base)]"]
      by (simp add: digit_loop_step [OF False])
  qed simp
qed

lemma digits_fit: "length (digits_of digits base num) \<le> 16"
proof -
  have "unat num < 10 ^ 16" using unat_less_2p [of num] by simp
  then show ?thesis using digit_loop_length [of num 16 digits base] by (simp add: digits_of_def)
qed

text \<open>A number, padded: with spaces in front, with zeros behind the sign, or with spaces behind.
  A precision of 0 suppresses the digits.\<close>

definition number_text :: "nat \<Rightarrow> int \<Rightarrow> int \<Rightarrow> u8 \<Rightarrow> u32 \<Rightarrow> string" where
  "number_text base w p fl num =
     (let (sign, n) = sign_of num (if fl AND LEFT \<noteq> 0 then fl AND NOT ZEROPAD else fl);
          ds = digits_of (if fl AND LARGE \<noteq> 0 then large_digits else small_digits) base n;
          sg = (case sign of None \<Rightarrow> [] | Some c \<Rightarrow> [c]);
          body = replicate (nat (p - int (length ds))) (CHR ''0'') @ (if p \<noteq> 0 then ds else []);
          pad = nat (w - max p (int (length ds)) - int (length sg))
      in if fl AND LEFT \<noteq> 0 then sg @ body @ replicate pad (CHR '' '')
         else if fl AND ZEROPAD \<noteq> 0 then sg @ replicate pad (CHR ''0'') @ body
         else replicate pad (CHR '' '') @ sg @ body)"

lemma left_flags:
  fixes fl :: u8
  shows "(fl AND NOT 1) AND 16 = fl AND 16" "(fl AND NOT 1) AND 1 = 0" "(fl AND NOT 1) AND 17 = fl AND 16"
    "fl AND 16 = 0 \<Longrightarrow> fl AND 17 = fl AND 1"
proof -
  show "(fl AND NOT 1) AND 16 = fl AND 16" "(fl AND NOT 1) AND 1 = 0" "(fl AND NOT 1) AND 17 = fl AND 16"
    by (simp_all add: and.assoc)
  have "fl AND 17 = (fl AND 16) OR (fl AND 1)" by (simp flip: bit.conj_disj_distrib)
  then show "fl AND 16 = 0 \<Longrightarrow> fl AND 17 = fl AND 1" by simp
qed

lemma put_number_eq:
  fixes ty :: u8
  assumes left: "ty AND 16 \<noteq> 0 \<Longrightarrow> ty AND 1 = 0"
  shows "put_number e sign (rev ds) w p ty st =
    put_string e (let sg = (case sign of None \<Rightarrow> [] | Some c \<Rightarrow> [c]);
          body = replicate (nat (p - int (length ds))) (CHR ''0'') @ (if p \<noteq> 0 then ds else []);
          pad = nat (w - max p (int (length ds)) - int (length sg))
      in if ty AND 16 \<noteq> 0 then sg @ body @ replicate pad (CHR '' '')
         else if ty AND 1 \<noteq> 0 then sg @ replicate pad (CHR ''0'') @ body
         else replicate pad (CHR '' '') @ sg @ body) st"
proof -
  define P where "P = (if p < int (length ds) then int (length ds) else p)"
  have mx: "max p (int (length ds)) = P" "nat (p - int (length ds)) = nat (P - int (length ds))" by (simp_all add: P_def)
  have f: "ty AND 17 = (ty AND 16) OR (ty AND 1)" by (simp flip: bit.conj_disj_distrib)
  note defs = put_number_def length_rev P_def [symmetric] mx Let_def pad_loop_eq
  consider "ty AND 16 \<noteq> 0" "ty AND 1 = 0" | "ty AND 16 = 0" "ty AND 1 \<noteq> 0" | "ty AND 16 = 0" "ty AND 1 = 0"
    using left by blast
  then show ?thesis
  proof cases
    case 1
    then show ?thesis using f unfolding defs by (cases sign) simp_all
  next
    case 2
    then show ?thesis using f unfolding defs by (cases sign) simp_all
  next
    case 3
    then show ?thesis using f unfolding defs by (cases sign; cases "0 < w - P") simp_all
  qed
qed

lemma print_number_eq: "print_number e num base w p fl st = Some (put_string e (number_text base w p fl num) st)"
proof -
  define ty where "ty = (if fl AND 16 \<noteq> 0 then fl AND NOT 1 else fl)"
  have ty: "ty AND 16 = fl AND 16" "ty AND 16 \<noteq> 0 \<Longrightarrow> ty AND 1 = 0" "fl AND 16 = 0 \<Longrightarrow> ty AND 1 = fl AND 1"
    using left_flags [of fl] by (auto simp: ty_def)
  obtain sign n where sg: "sign_of num ty = (sign, n)" by fastforce
  define dg where "dg = (if fl AND 64 \<noteq> 0 then large_digits else small_digits)"
  have tmp: "(if n = 0 then ''0'' else digit_loop dg base n []) = rev (digits_of dg base n)" by (simp add: digits_of_def)
  show ?thesis
    unfolding print_number_def number_text_def ty_def [symmetric] sg dg_def [symmetric] Let_def prod.case tmp
    using digits_fit [of dg base n] ty by (simp add: put_number_eq Let_def)
qed

subsection \<open>The text of a format\<close>

definition pad_text :: "u8 \<Rightarrow> int \<Rightarrow> string \<Rightarrow> string" where
  "pad_text fl w s =
     (let pad = replicate (nat (w - int (length s))) (CHR '' '') in if fl AND LEFT \<noteq> 0 then s @ pad else pad @ s)"

definition string_arg :: "int \<Rightarrow> string option \<Rightarrow> string" where
  "string_arg p sv =
     (let s = takeWhile (\<lambda>c. c \<noteq> CHR 0x00) (case sv of None \<Rightarrow> ''(NULL)'' | Some s \<Rightarrow> s) in if 0 < p then take (nat p) s else s)"

lemma conv_char_eq: "conv_char e fl w c st = put_string e (pad_text fl w [c]) st"
  by (simp add: conv_char_def pad_text_def pad_loop_eq Let_def)

lemma conv_str_eq: "conv_str e fl w p sv st = put_string e (pad_text fl w (string_arg p sv)) st"
proof -
  define s where "s = takeWhile (\<lambda>c. c \<noteq> CHR 0x00) (case sv of None \<Rightarrow> ''(NULL)'' | Some s \<Rightarrow> s)"
  define len where "len = (if 0 < p \<and> p < int (length s) then p else int (length s))"
  have t: "take (nat len) s = string_arg p sv" by (simp add: string_arg_def s_def [symmetric] len_def)
  have l: "int (length (string_arg p sv)) = len" by (auto simp: t [symmetric] len_def)
  show ?thesis
    unfolding conv_str_def s_def [symmetric] len_def [symmetric] t Let_def pad_text_def l by (simp add: pad_loop_eq)
qed

definition convert_text :: "u8 \<Rightarrow> int \<Rightarrow> int \<Rightarrow> char option \<Rightarrow> char \<Rightarrow> fmt_arg list \<Rightarrow> (fmt_arg list \<times> string) option" where
  "convert_text fl w p q c as =
     (if c = CHR ''c'' then map_option (\<lambda>(v, as1). (as1, pad_text fl w [char_of (unat (ucast v :: u8))])) (next_int as)
      else if c = CHR ''s'' then map_option (\<lambda>(sv, as1). (as1, pad_text fl w (string_arg p sv))) (next_str as)
      else if c = CHR ''p''
      then map_option (\<lambda>(v, as1). (as1, if w = - 1 then number_text 16 8 p (fl OR ZEROPAD) v else number_text 16 w p fl v)) (next_int as)
      else if c = CHR ''%'' then Some (as, ''%'')
      else if c = CHR ''d'' \<or> c = CHR ''i''
      then map_option (\<lambda>(v, as1). (as1, number_text 10 w p (fl OR SIGN) (conv_num q (fl OR SIGN) v))) (next_int as)
      else if c = CHR ''u'' then map_option (\<lambda>(v, as1). (as1, number_text 10 w p fl (conv_num q fl v))) (next_int as)
      else if c = CHR ''o'' then map_option (\<lambda>(v, as1). (as1, number_text 8 w p fl (conv_num q fl v))) (next_int as)
      else if c = CHR ''x'' then map_option (\<lambda>(v, as1). (as1, number_text 16 w p fl (conv_num q fl v))) (next_int as)
      else if c = CHR ''X''
      then map_option (\<lambda>(v, as1). (as1, number_text 16 w p (fl OR LARGE) (conv_num q (fl OR LARGE) v))) (next_int as)
      else Some (as, [CHR ''%'', c]))"

lemma convert_eq:
  "convert e fl w p q c as st = map_option (\<lambda>(as1, t). (as1, put_string e t st)) (convert_text fl w p q c as)"
proof (cases "c \<in> set ''oXxdiu''")
  case True
  then consider "c = CHR ''o''" | "c = CHR ''X''" | "c = CHR ''x''" | "c = CHR ''d''" | "c = CHR ''i''" | "c = CHR ''u''" by auto
  then show ?thesis
    by cases (cases "next_int as"; simp add: convert_def convert_text_def print_number_eq Let_def split: prod.split)+
next
  case False
  then show ?thesis
    by (cases "next_int as"; cases "next_str as")
      (simp_all add: convert_def convert_text_def print_number_eq conv_char_eq conv_str_eq split: prod.split)
qed

definition conversion_text :: "string \<Rightarrow> fmt_arg list \<Rightarrow> (string \<times> fmt_arg list \<times> string) option" where
  "conversion_text fmt as = do {
     (fl, w, p, q, f, as1) \<leftarrow> parse_conv fmt as;
     case f of
       [] \<Rightarrow> Some ([], as1, ''%'')
     | c # rest \<Rightarrow>
         if c = CHR 0x00 then Some ([], as1, ''%'')
         else do { (as2, t) \<leftarrow> convert_text fl w p q c as1; Some (rest, as2, t) }
   }"

lemma conversion_eq:
  "conversion e fmt as st = map_option (\<lambda>(rest, as1, t). (rest, as1, put_string e t st)) (conversion_text fmt as)"
proof (cases "parse_conv fmt as")
  case (Some x)
  obtain fl w p q f as1 where x: "x = (fl, w, p, q, f, as1)" by (metis prod_cases6)
  show ?thesis
  proof (cases f)
    case (Cons c rest)
    then show ?thesis using Some x
      by (cases "convert_text fl w p q c as1") (auto simp: conversion_def conversion_text_def convert_eq)
  qed (use Some x in \<open>simp add: conversion_def conversion_text_def\<close>)
qed (simp add: conversion_def conversion_text_def)

lemma conversion_text_length:
  "conversion_text fmt as = Some (rest, as', t) \<Longrightarrow> length rest \<le> length fmt"
  using conversion_length [of 0 fmt as "(0, \<lambda>_. 0)" rest as'] by (simp add: conversion_eq)

function fmt_text :: "string \<Rightarrow> fmt_arg list \<Rightarrow> string option" where
  "fmt_text fmt as =
     (case fmt of
        [] \<Rightarrow> Some []
      | c # cs \<Rightarrow>
          if c = CHR 0x00 then Some []
          else if c \<noteq> CHR ''%'' then map_option (Cons c) (fmt_text cs as)
          else do {
            (rest, as1, t) \<leftarrow> conversion_text cs as;
            map_option (append t) (fmt_text rest as1)
          })"
  by pat_completeness auto
termination
  by (relation "measure (\<lambda>(fmt, _). length fmt)") (auto dest!: conversion_text_length)

declare fmt_text.simps [simp del]

lemma fmt_steps:
  "fmt_loop e [] as st = Some st" "fmt_text [] as = Some []"
  "fmt_loop e (c # cs) as st =
     (if c = CHR 0x00 then Some st else if c \<noteq> CHR ''%'' then fmt_loop e cs as (put_char e c st)
      else do { (rest, as1, st1) \<leftarrow> conversion e cs as st; fmt_loop e rest as1 st1 })"
  "fmt_text (c # cs) as =
     (if c = CHR 0x00 then Some [] else if c \<noteq> CHR ''%'' then map_option (Cons c) (fmt_text cs as)
      else do { (rest, as1, t) \<leftarrow> conversion_text cs as; map_option (append t) (fmt_text rest as1) })"
  by (simp_all add: fmt_loop.simps fmt_text.simps)

lemma fmt_loop_eq: "fmt_loop e fmt as st = map_option (\<lambda>t. put_string e t st) (fmt_text fmt as)"
proof (induction fmt arbitrary: as st rule: length_induct)
  case (1 fmt)
  show ?case
  proof (cases fmt)
    case (Cons c cs)
    then have IH: "fmt_loop e cs as st = map_option (\<lambda>t. put_string e t st) (fmt_text cs as)" for as st
      using 1 [rule_format, of cs as st] by simp
    show ?thesis
    proof (cases "c = CHR ''%''")
      case True
      show ?thesis
      proof (cases "conversion_text cs as")
        case None
        then show ?thesis using Cons True by (simp add: fmt_steps conversion_eq)
      next
        case (Some x)
        obtain rest as1 t where x: "x = (rest, as1, t)" by (metis prod_cases3)
        then have "length rest < length fmt" using conversion_text_length [of cs as rest as1 t] Some Cons by simp
        then have "fmt_loop e rest as1 st = map_option (\<lambda>t. put_string e t st) (fmt_text rest as1)" for st
          using 1 [rule_format, of rest as1 st] by simp
        then show ?thesis using Cons True Some x
          by (simp add: fmt_steps conversion_eq option.map_comp comp_def)
      qed
    next
      case False
      then show ?thesis using Cons IH
        by (simp add: fmt_steps option.map_comp comp_def)
    qed
  qed (simp add: fmt_steps)
qed

subsection \<open>What is stored\<close>

lemma put_string_str: "fst (put_string e cs st) = fst st + of_nat (length cs)"
  by (induction cs arbitrary: st) (simp_all add: put_char_def case_prod_unfold)

text \<open>The memory after a text has been put at \<open>a\<close>, as long as the pointer does not wrap.\<close>

lemma put_string_mem:
  assumes "unat a + length cs < 2 ^ 32"
  shows "snd (put_string e cs (a, m)) x =
    (if a \<le> x \<and> x < e \<and> unat (x - a) < length cs then of_char (cs ! unat (x - a)) else m x)"
  using assms
proof (induction cs arbitrary: a m)
  case (Cons c cs)
  have a1: "unat (a + 1) = unat a + 1" using Cons.prems unat_add_small [of a 1] by simp
  let ?m = "if a < e then m(a := of_char c) else m"
  have IH: "snd (put_string e cs (a + 1, ?m)) x =
      (if a + 1 \<le> x \<and> x < e \<and> unat (x - (a + 1)) < length cs then of_char (cs ! unat (x - (a + 1))) else ?m x)"
    using Cons.prems a1 by (intro Cons.IH) simp
  show ?case
  proof (cases "a + 1 \<le> x")
    case True
    then have le: "a \<le> x" and d: "unat (x - a) = Suc (unat (x - (a + 1)))" and ne: "x \<noteq> a"
      using a1 by (auto simp: word_le_nat_alt unat_sub)
    then show ?thesis using True IH by (simp add: put_char_def)
  next
    case False
    then have "a \<le> x \<Longrightarrow> x = a" using a1 by (simp add: word_le_nat_alt word_unat_eq_iff)
    then show ?thesis using False IH by (auto simp: put_char_def)
  qed
qed simp

text \<open>The bytes of the buffer that may be written: a size that reaches past the end of the
  address space is cut.\<close>

definition vsn_room :: "u32 \<Rightarrow> u32 \<Rightarrow> u32" where
  "vsn_room buf sz = (if buf + sz < buf then 0xffffffff - buf else sz)"

lemma vsn_room_end: "buf \<le> buf + vsn_room buf sz" "unat (buf + vsn_room buf sz) = unat buf + unat (vsn_room buf sz)"
proof -
  have "buf \<le> 0xffffffff" using unat_less_2p [of buf] by (simp add: word_le_nat_alt)
  then show le: "buf \<le> buf + vsn_room buf sz" by (auto simp: vsn_room_def not_less)
  then show "unat (buf + vsn_room buf sz) = unat buf + unat (vsn_room buf sz)"
    by (metis add_diff_cancel_left' le_add_diff_inverse unat_sub word_le_nat_alt)
qed

lemma vsnprintf_total:
  assumes fits: "\<And>t. fmt_text fmt as = Some t \<Longrightarrow> unat buf + length t < 2 ^ 32"
  shows "case fmt_text fmt as of
      None \<Rightarrow> rt_vsnprintf buf sz fmt as m = None
    | Some t \<Rightarrow> \<exists>m'. rt_vsnprintf buf sz fmt as m = Some (of_nat (length t), m') \<and>
        (\<forall>x. \<not> (buf \<le> x \<and> x < buf + vsn_room buf sz) \<longrightarrow> m' x = m x) \<and>
        (vsn_room buf sz \<noteq> 0 \<longrightarrow>
          (let k = min (length t) (unat (vsn_room buf sz) - 1) in
            m' (buf + of_nat k) = 0 \<and> (\<forall>i < k. m' (buf + of_nat i) = of_char (t ! i))))"
proof (cases "fmt_text fmt as")
  case None
  then show ?thesis by (simp add: rt_vsnprintf_def fmt_loop_eq Let_def)
next
  case (Some t)
  let ?r = "vsn_room buf sz" and ?e = "buf + vsn_room buf sz"
  note E = vsn_room_end [of buf sz]
  have ft: "unat buf + length t < 2 ^ 32" by (rule fits [OF Some])
  define m1 where "m1 = snd (put_string ?e t (buf, m))"
  define str where "str = buf + of_nat (length t)"
  have ps: "put_string ?e t (buf, m) = (str, m1)" using put_string_str [of ?e t "(buf, m)"] by (simp add: m1_def str_def prod_eq_iff)
  have str: "unat str = unat buf + length t" unfolding str_def using ft by (subst unat_add_small) (simp_all add: unat_of_nat32)
  define z where "z = (if str < ?e then str else ?e - 1)"
  define m' where "m' = (if ?r \<noteq> 0 then m1(z := 0) else m1)"
  have "(if buf + sz < buf then (0xffffffff, 0xffffffff - buf) else (buf + sz, sz)) = (?e, ?r)"
    by (simp add: vsn_room_def)
  then have run: "rt_vsnprintf buf sz fmt as m = Some (of_nat (length t), m')"
    by (simp add: rt_vsnprintf_def fmt_loop_eq Some ps m'_def z_def Let_def word_neq_0_conv) (simp add: str_def)
  have m1: "m1 x = (if buf \<le> x \<and> x < ?e \<and> unat (x - buf) < length t then of_char (t ! unat (x - buf)) else m x)" for x
    unfolding m1_def by (rule put_string_mem [OF ft])
  let ?k = "min (length t) (unat ?r - 1)"
  have room_pos: "?k < unat ?r" if "?r \<noteq> 0"
  proof -
    have "0 < unat ?r" using that by (simp add: unat_gt_0)
    then show ?thesis by linarith
  qed
  have off: "buf \<le> buf + of_nat i \<and> buf + of_nat i < ?e \<and> unat (buf + of_nat i - buf) = i" if "i < unat ?r" for i
  proof -
    have lt: "i < 2 ^ 32" using that unat_less_2p [of ?r] by simp
    then have "unat (buf + of_nat i) = unat buf + i"
      using that E(2) unat_less_2p [of ?e] by (subst unat_add_small) (simp_all add: unat_of_nat32)
    then show ?thesis using that E(2) lt by (simp add: word_le_nat_alt word_less_nat_alt unat_of_nat32)
  qed
  have z: "z = buf + of_nat ?k" if r: "?r \<noteq> 0"
  proof -
    have r0: "0 < unat ?r" using r by (simp add: unat_gt_0)
    note k = room_pos [OF r]
    have "unat (?e - 1) = unat ?e - 1" using r0 E(2) by (subst unat_sub) (simp_all add: word_le_nat_alt)
    then have "unat z = unat buf + ?k" using str E(2) r0 by (auto simp: z_def word_less_nat_alt min_def)
    moreover have "unat (buf + of_nat ?k) = unat buf + ?k"
      using off [OF k] by (metis add.commute le_add_diff_inverse2 unat_sub word_le_nat_alt)
    ultimately show ?thesis by (simp add: word_unat_eq_iff)
  qed
  have a: "m' x = m x" if "\<not> (buf \<le> x \<and> x < ?e)" for x
  proof (cases "?r = 0")
    case False
    have "x \<noteq> z" using off [OF room_pos [OF False]] z [OF False] that by auto
    then show ?thesis using that m1 [of x] by (auto simp: m'_def)
  qed (use that m1 [of x] in \<open>auto simp: m'_def\<close>)
  have b: "m' (buf + of_nat ?k) = 0 \<and> (\<forall>i < ?k. m' (buf + of_nat i) = of_char (t ! i))" if "?r \<noteq> 0"
  proof (intro conjI allI impI)
    show "m' (buf + of_nat ?k) = 0" using that z by (simp add: m'_def)
    fix i assume i: "i < ?k"
    note k = room_pos [OF that]
    have o: "i < unat ?r" "i < length t" using i k by auto
    have "buf + of_nat i \<noteq> buf + of_nat ?k" using off [OF o(1)] off [OF k] i by (metis less_irrefl)
    then have "buf + of_nat i \<noteq> z" using z [OF that] by simp
    then show "m' (buf + of_nat i) = of_char (t ! i)" using off [OF o(1)] o(2) m1 [of "buf + of_nat i"] that by (simp add: m'_def)
  qed
  show ?thesis unfolding Some option.case using run a b by (auto simp: Let_def)
qed

text \<open>C35: \<open>rt_vsnprintf\<close> returns for every format and writes only to its buffer. Its result is the
  length of the text of the format, cut or not; what it stores is the longest beginning of the
  text that fits, and a terminating null character behind it. It fails only for arguments that
  do not fit the format. The hypothesis says that the text is not longer than what is left of
  the address space.\<close>

theorem vsnprintf_spec:
  assumes fits: "\<And>t. fmt_text fmt as = Some t \<Longrightarrow> unat buf + length t < 2 ^ 32"
  shows "case fmt_text fmt as of
      None \<Rightarrow> rt_vsnprintf buf sz fmt as m = None
    | Some t \<Rightarrow> \<exists>m'. rt_vsnprintf buf sz fmt as m = Some (of_nat (length t), m') \<and>
        (\<forall>x. \<not> (buf \<le> x \<and> x < buf + vsn_room buf sz) \<longrightarrow> m' x = m x) \<and>
        (vsn_room buf sz \<noteq> 0 \<longrightarrow>
          (let k = min (length t) (unat (vsn_room buf sz) - 1) in
            m' (buf + of_nat k) = 0 \<and> (\<forall>i < k. m' (buf + of_nat i) = of_char (t ! i))))"
  by (rule vsnprintf_total [OF fits])

subsection \<open>Numbers\<close>

lemma small_digit:
  assumes "r < 10"
  shows "isdigit (small_digits ! r)" "(of_char (small_digits ! r) :: u32) - 48 = of_nat r"
proof -
  have "list_all (\<lambda>r. isdigit (small_digits ! r) \<and> (of_char (small_digits ! r) :: u32) - 48 = of_nat r) [0..<10]"
    by code_simp
  then show "isdigit (small_digits ! r)" "(of_char (small_digits ! r) :: u32) - 48 = of_nat r"
    using assms by (auto simp: list_all_iff)
qed

lemma skip_atoi_snoc:
  assumes "isdigit c" "skip_atoi i cs = (n, [])"
  shows "skip_atoi i (cs @ [c]) = (n * 10 + of_char c - 48, [])"
  using assms(2) by (induction i cs rule: skip_atoi.induct) (simp_all add: assms(1) split: if_splits)

text \<open>\<open>skip_atoi\<close> reads what \<open>print_number\<close> prints.\<close>

lemma digits_read: "skip_atoi 0 (digits_of small_digits 10 n) = (n, [])"
proof (induction n rule: measure_induct_rule [of unat])
  case (less n)
  show ?case
  proof (cases "n = 0")
    case True
    then show ?thesis by (simp add: digits_of_def isdigit_def)
  next
    case False
    let ?r = "unat (n mod 10)" and ?q = "n div 10"
    have r: "?r < 10" by (simp add: unat_mod)
    have rd: "skip_atoi 0 (if ?q = 0 then [] else digits_of small_digits 10 ?q) = (?q, [])"
      using less [of ?q] divide_less [OF False, of 10] by (simp add: divide_num_def)
    have "digits_of small_digits 10 n = (if ?q = 0 then [] else digits_of small_digits 10 ?q) @ [small_digits ! ?r]"
      using digits_of_step [of small_digits 10 n] False by (simp add: divide_num_def)
    then have "skip_atoi 0 (digits_of small_digits 10 n) = (?q * 10 + of_char (small_digits ! ?r) - 48, [])"
      using skip_atoi_snoc [OF small_digit(1) [OF r] rd] by simp
    also have "?q * 10 + of_char (small_digits ! ?r) - 48 = ?q * 10 + n mod 10"
      using small_digit(2) [OF r] by (simp add: add_diff_eq [symmetric])
    also have "\<dots> = n" by (rule div_mult_mod_eq)
    finally show ?thesis .
  qed
qed

lemma plain_conv:
  assumes "c \<in> set ''oXxdiu''"
  shows "parse_conv [c] as = Some (0, - 1, - 1, None, [c], as)"
proof -
  consider "c = CHR ''o''" | "c = CHR ''X''" | "c = CHR ''x''" | "c = CHR ''d''" | "c = CHR ''i''" | "c = CHR ''u''"
    using assms by auto
  then show ?thesis by cases (simp_all add: parse_conv_def parse_width_def parse_precision_def parse_qualifier_def isdigit_def)
qed

lemma plain_text:
  "fmt_text [CHR ''%'', c] as = do { (rest, as1, t) \<leftarrow> conversion_text [c] as; map_option (append t) (fmt_text rest as1) }"
  by (simp add: fmt_steps)

lemma number_text_plain: "number_text base (- 1) (- 1) 0 n = digits_of small_digits base n"
  by (simp add: number_text_def sign_of_def Let_def)

lemma number_text_signed:
  "number_text base (- 1) (- 1) 2 n = (if sint n < 0 then CHR ''-'' # digits_of small_digits base (- n) else digits_of small_digits base n)"
  by (simp add: number_text_def sign_of_def Let_def)

text \<open>C36: a number survives printing and reading. The text of \<open>%u\<close> is all digits, and the number
  is what \<open>skip_atoi\<close> reads from it; the text of \<open>%d\<close> is the same for a number that is not negative, and
  otherwise a minus sign and digits from which its magnitude is read, the smallest integer
  included.\<close>

theorem printf_decimal_roundtrip:
  "\<exists>t u. fmt_loop e ''%u'' [Arg_Int n] st = Some (put_string e t st) \<and> skip_atoi 0 t = (n, []) \<and>
     fmt_loop e ''%d'' [Arg_Int n] st = Some (put_string e (if sint n < 0 then CHR ''-'' # u else t) st) \<and>
     skip_atoi 0 u = (- n, [])"
proof (intro exI conjI)
  have "fmt_text ''%u'' [Arg_Int n] = Some (digits_of small_digits 10 n)"
    by (simp add: plain_text conversion_text_def plain_conv convert_text_def fmt_steps conv_num_def number_text_plain)
  then show "fmt_loop e ''%u'' [Arg_Int n] st = Some (put_string e (digits_of small_digits 10 n) st)" by (simp add: fmt_loop_eq)
  have "fmt_text ''%d'' [Arg_Int n] = Some (if sint n < 0 then CHR ''-'' # digits_of small_digits 10 (- n) else digits_of small_digits 10 n)"
    by (simp add: plain_text conversion_text_def plain_conv convert_text_def fmt_steps conv_num_def number_text_signed)
  then show "fmt_loop e ''%d'' [Arg_Int n] st =
      Some (put_string e (if sint n < 0 then CHR ''-'' # digits_of small_digits 10 (- n) else digits_of small_digits 10 n) st)"
    by (simp add: fmt_loop_eq)
qed (rule digits_read)+

lemma digits_base_8: "digits_of digits 8 n = digits_of digits 16 n"
proof -
  have "digit_loop digits 8 n tmp = digit_loop digits 16 n tmp" for n tmp
  proof (induction n arbitrary: tmp rule: measure_induct_rule [of unat])
    case (less n)
    have d: "divide_num n 8 = divide_num n 16" by (simp add: divide_num_def)
    show ?case
    proof (cases "n = 0")
      case False
      then show ?thesis using less.IH [OF divide_less [OF False, of 16]] by (simp add: digit_loop_step d)
    qed simp
  qed
  then show ?thesis by (simp add: digits_of_def)
qed

text \<open>\<open>%o\<close> does not print octal. \<open>divide\<close> knows base 10 and takes every other base for 16, so
  that the text of \<open>%o\<close> is that of \<open>%x\<close>, for every flag, width, precision and number.\<close>

lemma printf_octal_is_hex: "convert e fl w p q (CHR ''o'') as st = convert e fl w p q (CHR ''x'') as st"
  by (simp add: convert_eq convert_text_def number_text_def digits_base_8)

text \<open>A precision of 0 prints no digit of any number, and \<open>%.0s\<close> the whole string.\<close>

lemma precision_zero:
  "number_text base (- 1) 0 0 n = []" "string_arg 0 (Some s) = takeWhile (\<lambda>c. c \<noteq> CHR 0x00) s"
  by (simp_all add: number_text_def sign_of_def string_arg_def Let_def)

subsection \<open>Examples\<close>

lemma fmt_example: "fmt_text ''%s=%04d.'' [Arg_Str (Some ''tick''), Arg_Int 42] = Some ''tick=0042.''"
  by code_simp

theorem vsnprintf_spec_witness:
  "\<exists>m'. rt_vsnprintf 0x20000000 8 ''%s=%04d.'' [Arg_Str (Some ''tick''), Arg_Int 42] (\<lambda>_. 0xff) = Some (10, m') \<and>
     m' 0x20000007 = 0 \<and> m' 0x20000006 = 48 \<and> m' 0x20000008 = 0xff"
proof -
  have r: "vsn_room 0x20000000 8 = 8" by (simp add: vsn_room_def)
  obtain m' where m': "rt_vsnprintf 0x20000000 8 ''%s=%04d.'' [Arg_Str (Some ''tick''), Arg_Int 42] (\<lambda>_. 0xff) = Some (10, m')"
      "\<forall>x. \<not> (0x20000000 \<le> x \<and> x < 0x20000000 + (8 :: u32)) \<longrightarrow> m' x = 0xff"
      "m' (0x20000000 + of_nat 7) = 0" "\<forall>i < 7. m' (0x20000000 + of_nat i) = of_char (''tick=0042.'' ! i)"
    using vsnprintf_spec [of "''%s=%04d.''" "[Arg_Str (Some ''tick''), Arg_Int 42]" "0x20000000" 8 "\<lambda>_. 0xff"]
    by (auto simp: fmt_example r Let_def)
  show ?thesis using m'(1,3) m'(2) [rule_format, of "0x20000008"] m'(4) [rule_format, of 6] by auto
qed

end
