(* ===== verification/Console.thy ===== *)
theory Console
  imports Device Rt_Printf
begin

text \<open>
  The console of \<open>src/kservice.c\<close>: \<open>rt_console_set_device\<close>, \<open>rt_kputs\<close> and \<open>rt_kprintf\<close> on top of the
  formatted output and the device framework. The state holds the console device, the devices,
  the kernel and the memory with the static buffer \<open>rt_log_buf\<close>. The drivers of the devices and
  the weak function \<open>rt_hw_console_output\<close> are parameters. The theory shows what the driver of
  the console is given.
\<close>

subsection \<open>Operations\<close>

record console =
  console_device :: "nat option"
  devs :: "nat \<Rightarrow> rt_device"
  kern :: kernel
  memory :: mem

type_synonym drivers = "nat \<Rightarrow> rt_device_ops"

abbreviation (input) RT_DEVICE_FLAG_STREAM :: u16 where "RT_DEVICE_FLAG_STREAM \<equiv> 0x040"
abbreviation (input) RT_DEVICE_OFLAG_RDWR :: u16 where "RT_DEVICE_OFLAG_RDWR \<equiv> 0x003"

definition rt_console_get_device :: "console \<Rightarrow> nat option" where
  "rt_console_get_device cs = console_device cs"

text \<open>A call on device \<open>n\<close>, whose result is not used.\<close>

definition on_device :: "nat \<Rightarrow> (dev_state \<Rightarrow> ('r \<times> dev_state) option) \<Rightarrow> console \<Rightarrow> console option" where
  "on_device n f cs = do {
     (_, d, s) \<leftarrow> f (devs cs n, kern cs);
     Some (cs\<lparr>devs := (devs cs)(n := d), kern := s\<rparr>)
   }"

definition rt_console_set_device :: "drivers \<Rightarrow> string \<Rightarrow> console \<Rightarrow> (nat option \<times> console) option" where
  "rt_console_set_device drv nm cs = do {
     let old = console_device cs;
     (found, s1) \<leftarrow> rt_device_find nm (kern cs);
     let cs1 = cs\<lparr>kern := s1\<rparr>;
     case found of
       Some (O_Device n) \<Rightarrow> do {
         cs2 \<leftarrow> (case old of Some k \<Rightarrow> on_device k (rt_device_close (drv k) k) cs1 | None \<Rightarrow> Some cs1);
         cs3 \<leftarrow> on_device n (rt_device_open (drv n) n (RT_DEVICE_OFLAG_RDWR OR RT_DEVICE_FLAG_STREAM)) cs2;
         Some (old, cs3\<lparr>console_device := Some n\<rparr>)
       }
     | _ \<Rightarrow> Some (old, cs1)
   }"

text \<open>\<open>length\<close> bytes at \<open>a\<close> go to the console device in stream mode, or the string at \<open>a\<close> to the
  hardware.\<close>

definition console_write :: "drivers \<Rightarrow> (u32 \<Rightarrow> console \<Rightarrow> console option) \<Rightarrow> u32 \<Rightarrow> u32 \<Rightarrow> console \<Rightarrow> console option" where
  "console_write drv hw_output a len cs =
     (case console_device cs of
        None \<Rightarrow> hw_output a cs
      | Some n \<Rightarrow> do {
          let old_flag = open_flag (devs cs n);
          let d = (devs cs n)\<lparr>open_flag := old_flag OR RT_DEVICE_FLAG_STREAM\<rparr>;
          cs1 \<leftarrow> on_device n (rt_device_write (drv n) n 0 (bytes a (unat len) (memory cs)) len) (cs\<lparr>devs := (devs cs)(n := d)\<rparr>);
          Some (cs1\<lparr>devs := (devs cs1)(n := (devs cs1 n)\<lparr>open_flag := old_flag\<rparr>)\<rparr>)
        })"

definition rt_kputs :: "drivers \<Rightarrow> (u32 \<Rightarrow> console \<Rightarrow> console option) \<Rightarrow> u32 \<Rightarrow> console \<Rightarrow> console option" where
  "rt_kputs drv hw_output str cs =
     (if str = 0 then Some cs
      else case console_device cs of
        None \<Rightarrow> hw_output str cs
      | Some _ \<Rightarrow> do { len \<leftarrow> rt_strlen str (memory cs); console_write drv hw_output str len cs })"

definition rt_kprintf ::
  "drivers \<Rightarrow> (u32 \<Rightarrow> console \<Rightarrow> console option) \<Rightarrow> u32 \<Rightarrow> string \<Rightarrow> fmt_arg list \<Rightarrow> console \<Rightarrow> console option" where
  "rt_kprintf drv hw_output rt_log_buf fmt as cs = do {
     (len0, m) \<leftarrow> rt_vsnprintf rt_log_buf 127 fmt as (memory cs);
     let len = (if 127 < len0 then 127 else len0);
     console_write drv hw_output rt_log_buf len (cs\<lparr>memory := m\<rparr>)
   }"

subsection \<open>What the driver is given\<close>

text \<open>The bytes of the log buffer that are sent for a text: at most 126 characters are stored,
  and when the text is longer the terminating null byte goes out as the 127th.\<close>

definition sent :: "string \<Rightarrow> u8 list" where
  "sent t = map of_char (take 126 t) @ (if 126 < length t then [0] else [])"

lemma length_sent: "length (sent t) = min (length t) 127"
  by (simp add: sent_def)

lemma log_buffer:
  assumes t: "fmt_text fmt as = Some t" and fit: "unat buf + length t < 2 ^ 32" "unat buf + 127 < 2 ^ 32"
  obtains m' where "rt_vsnprintf buf 127 fmt as m = Some (of_nat (length t), m')"
    "\<forall>x. \<not> (buf \<le> x \<and> x < buf + 127) \<longrightarrow> m' x = m x" "bytes buf (min (length t) 127) m' = sent t"
proof -
  have r: "vsn_room buf 127 = 127"
    using fit(2) unat_add_small [of buf 127] by (simp add: vsn_room_def word_less_nat_alt)
  obtain m' where m': "rt_vsnprintf buf 127 fmt as m = Some (of_nat (length t), m')"
      "\<forall>x. \<not> (buf \<le> x \<and> x < buf + 127) \<longrightarrow> m' x = m x" "m' (buf + of_nat (min (length t) 126)) = 0"
      "\<forall>i < min (length t) 126. m' (buf + of_nat i) = of_char (t ! i)"
    using vsnprintf_total [of fmt as buf 127 m] t fit(1) by (auto simp: r Let_def)
  have "bytes buf (min (length t) 127) m' = sent t"
  proof (rule nth_equalityI)
    show "length (bytes buf (min (length t) 127) m') = length (sent t)" by (simp add: bytes_def length_sent)
    fix i assume "i < length (bytes buf (min (length t) 127) m')"
    then have i: "i < min (length t) 127" by (simp add: bytes_def)
    then consider "i < min (length t) 126" | "i = 126" "126 < length t" by linarith
    then show "bytes buf (min (length t) 127) m' ! i = sent t ! i"
    proof cases
      case 1
      then show ?thesis using m'(4) i by (simp add: bytes_def sent_def nth_append)
    next
      case 2
      then show ?thesis using m'(3) by (simp add: bytes_def sent_def nth_append)
    qed
  qed
  then show thesis using that m' by blast
qed

text \<open>\<open>rt_kprintf\<close> formats into its buffer, touches no other memory, and hands the text to the
  driver of the console in one write, in stream mode, after which the device has its flags
  again. Of a text of more than 126 characters the driver gets the first 126 and a null byte:
  the length is cut to one more than what \<open>rt_vsnprintf\<close> was allowed to store.\<close>

lemma kprintf_output:
  assumes con: "console_device cs = Some n" "otype (kern cs) (O_Device n) = RT_Object_Class_Device" "ref_count (devs cs n) \<noteq> 0"
    and drv: "device_write (drv n) = Some f" and t: "fmt_text fmt as = Some t"
    and fit: "unat rt_log_buf + length t < 2 ^ 32" "unat rt_log_buf + 127 < 2 ^ 32"
  shows "\<exists>m'. (\<forall>x. \<not> (rt_log_buf \<le> x \<and> x < rt_log_buf + 127) \<longrightarrow> m' x = memory cs x) \<and>
    rt_kprintf drv hw_output rt_log_buf fmt as cs =
      map_option (\<lambda>(_, d, s). cs\<lparr>memory := m', devs := (devs cs)(n := d\<lparr>open_flag := open_flag (devs cs n)\<rparr>), kern := s\<rparr>)
        (f 0 (sent t) (of_nat (length (sent t)))
          ((devs cs n)\<lparr>open_flag := open_flag (devs cs n) OR RT_DEVICE_FLAG_STREAM\<rparr>, kern cs))"
proof -
  obtain m' where m': "rt_vsnprintf rt_log_buf 127 fmt as (memory cs) = Some (of_nat (length t), m')"
      "\<forall>x. \<not> (rt_log_buf \<le> x \<and> x < rt_log_buf + 127) \<longrightarrow> m' x = memory cs x"
      "bytes rt_log_buf (min (length t) 127) m' = sent t"
    by (rule log_buffer [OF t fit, of "memory cs"])
  have lt: "length t < 2 ^ 32" using fit(1) by simp
  have len: "(if 127 < (of_nat (length t) :: u32) then 127 else of_nat (length t)) = (of_nat (min (length t) 127) :: u32)"
    using lt by (simp add: word_less_nat_alt unat_of_nat32 min_def)
  have u: "unat (of_nat (min (length t) 127) :: u32) = min (length t) 127" by (rule unat_of_nat32) simp
  have "rt_kprintf drv hw_output rt_log_buf fmt as cs =
      console_write drv hw_output rt_log_buf (of_nat (min (length t) 127)) (cs\<lparr>memory := m'\<rparr>)"
    by (simp add: rt_kprintf_def m'(1) len Let_def)
  also have "\<dots> = map_option (\<lambda>(_, d, s). cs\<lparr>memory := m', devs := (devs cs)(n := d\<lparr>open_flag := open_flag (devs cs n)\<rparr>), kern := s\<rparr>)
        (f 0 (sent t) (of_nat (length (sent t))) ((devs cs n)\<lparr>open_flag := open_flag (devs cs n) OR 0x040\<rparr>, kern cs))"
    unfolding console_write_def on_device_def rt_device_write_def
    using con drv m'(3) u
    by (cases "f 0 (sent t) (of_nat (length (sent t))) ((devs cs n)\<lparr>open_flag := open_flag (devs cs n) OR 0x040\<rparr>, kern cs)")
      (auto simp: get_type_otype length_sent Let_def)
  finally show ?thesis using m'(2) by blast
qed

subsection \<open>Examples\<close>

definition echo_driver :: rt_device_ops where
  "echo_driver = log_driver\<lparr>device_write := Some (\<lambda>pos buffer len (d, s). Some (len, d\<lparr>device_id := hd buffer\<rparr>, s))\<rparr>"

definition conex :: console where
  "conex = \<lparr>console_device = Some 0, devs = (\<lambda>_. zero_device\<lparr>open_flag := 11, ref_count := 1\<rparr>), kern = kex, memory = (\<lambda>_. 0)\<rparr>"

lemma kprintf_output_witness:
  "\<exists>cs. rt_kprintf (\<lambda>_. echo_driver) (\<lambda>_. Some) 0x20000100 ''%s=%04d.'' [Arg_Str (Some ''tick''), Arg_Int 42] conex = Some cs \<and>
     device_id (devs cs 0) = of_char (CHR ''t'') \<and> open_flag (devs cs 0) = 11"
proof -
  have c: "console_device conex = Some 0" "otype (kern conex) (O_Device 0) = 9" "ref_count (devs conex 0) \<noteq> 0"
    by (simp_all add: conex_def)
  have f: "device_write echo_driver = Some (\<lambda>pos buffer len (d, s). Some (len, d\<lparr>device_id := hd buffer\<rparr>, s))"
    by (simp add: echo_driver_def)
  show ?thesis
    using kprintf_output [where drv = "\<lambda>_. echo_driver" and hw_output = "\<lambda>_. Some" and rt_log_buf = "0x20000100", OF c f fmt_example]
    by (auto simp: conex_def sent_def)
qed

end
