(* ===== verification/Heap_Align.thy ===== *)
theory Heap_Align
  imports Rt_String
begin

text \<open>
  \<open>rt_malloc_align\<close>, \<open>rt_free_align\<close> and \<open>rt_strdup\<close> of \<open>src/kservice.c\<close>. What \<open>rt_malloc\<close> answers is a
  parameter, a function of the size with 0 for the null pointer; \<open>rt_free_align\<close> gives the pointer
  it passes to \<open>rt_free\<close>. The theory shows that the aligned block lies inside the allocated one and
  that the allocated one is found again.
\<close>

subsection \<open>Operations\<close>

definition rt_malloc_align :: "(u32 \<Rightarrow> u32) \<Rightarrow> u32 \<Rightarrow> u32 \<Rightarrow> mem \<Rightarrow> u32 \<times> mem" where
  "rt_malloc_align rt_malloc sz align0 m =
     (let align = (align0 + 3) AND NOT 3;
          align_size = ((sz + 3) AND NOT 3) + align;
          ptr = rt_malloc align_size
      in if ptr \<noteq> 0
         then let align_ptr =
                (if ptr AND (align - 1) = 0 then ptr + align else (ptr + (align - 1)) AND NOT (align - 1))
              in (align_ptr, store32 (align_ptr - 4) ptr m)
         else (ptr, m))"

definition rt_free_align :: "u32 \<Rightarrow> mem \<Rightarrow> u32" where
  "rt_free_align ptr m = load32 (ptr - 4) m"

definition rt_strdup :: "(u32 \<Rightarrow> u32) \<Rightarrow> u32 \<Rightarrow> mem \<Rightarrow> (u32 \<times> mem) option" where
  "rt_strdup rt_malloc s m = do {
     len0 \<leftarrow> rt_strlen s m;
     let len = len0 + 1;
     let tmp = rt_malloc len;
     if tmp = 0 then Some (0, m) else Some (tmp, rt_memcpy tmp s len m)
   }"

subsection \<open>Aligned blocks\<close>

lemma load_store: "load32 a (store32 a w m) = w"
proof (rule bit_word_eqI)
  fix i assume "i < LENGTH(32)"
  then have i: "i < 32" by simp
  then consider "i < 8" | "8 \<le> i" "i < 16" | "16 \<le> i" "i < 24" | "24 \<le> i" by linarith
  then show "bit (load32 a (store32 a w m)) i = bit w i"
    using i by cases (auto simp: load32_def store32_def bit_simps)
qed

lemma pow_mask: "k < 32 \<Longrightarrow> unat (2 ^ k :: u32) = 2 ^ k"
  using unat_of_nat32 [of "2 ^ k"] power_strict_increasing [of k 32 "2 :: nat"] by simp

text \<open>The address that \<open>rt_malloc_align\<close> chooses in a block at \<open>p\<close>: the next multiple of the alignment.\<close>

lemma align_place:
  fixes p :: u32
  assumes k: "2 \<le> k" "k < 32" and p4: "4 dvd unat p" and top: "unat p + 2 ^ k < 2 ^ 32"
  defines "q \<equiv> (if p AND (2 ^ k - 1) = 0 then p + 2 ^ k else (p + (2 ^ k - 1)) AND NOT (2 ^ k - 1))"
  shows "2 ^ k dvd unat q" "unat p + 4 \<le> unat q" "unat q \<le> unat p + 2 ^ k"
proof -
  have m: "(2 ^ k - 1 :: u32) = mask k" by (simp add: mask_eq_exp_minus_1)
  have pk: "unat (2 ^ k :: u32) = 2 ^ k" using k by (intro pow_mask) simp
  have um: "unat (2 ^ k - 1 :: u32) = 2 ^ k - 1" using pk unat_sub [of 1 "2 ^ k :: u32"] by (simp add: word_le_nat_alt)
  have z: "p AND (2 ^ k - 1) = 0 \<longleftrightarrow> 2 ^ k dvd unat p"
  proof -
    have "p AND (2 ^ k - 1) = take_bit k p" by (simp add: m take_bit_eq_mask)
    then have "unat (p AND (2 ^ k - 1)) = unat p mod 2 ^ k" by (simp add: unsigned_take_bit_eq flip: take_bit_eq_mod)
    then show ?thesis by (metis dvd_eq_mod_eq_0 unat_eq_zero)
  qed
  have four: "4 dvd (2 ^ k :: nat)" using k(1) le_imp_power_dvd [of 2 k "2 :: nat"] by simp
  have "2 ^ k dvd unat q \<and> unat p + 4 \<le> unat q \<and> unat q \<le> unat p + 2 ^ k"
  proof (cases "2 ^ k dvd unat p")
    case True
    have "unat q = unat p + 2 ^ k" using True z top pk unat_add_small [of p "2 ^ k"] by (simp add: q_def)
    then show ?thesis using True four dvd_imp_le [OF four] by simp
  next
    case False
    have "unat (p + (2 ^ k - 1)) = unat p + (2 ^ k - 1)" using top um unat_add_small [of p "2 ^ k - 1"] by simp
    then have q: "unat q = (unat p + (2 ^ k - 1)) div 2 ^ k * 2 ^ k"
      using False z unat_and_not_mask [of "p + (2 ^ k - 1)" k] by (simp add: q_def m)
    have r: "0 < unat p mod 2 ^ k" using False by (simp add: dvd_eq_mod_eq_0)
    have "(unat p + (2 ^ k - 1)) div 2 ^ k = unat p div 2 ^ k + 1"
    proof -
      have "unat p = 2 ^ k * (unat p div 2 ^ k) + unat p mod 2 ^ k" by simp
      then have "unat p + (2 ^ k - 1) = (unat p mod 2 ^ k - 1) + 2 ^ k * (unat p div 2 ^ k + 1)"
        using r one_le_power [of "2 :: nat" k] unfolding distrib_left by linarith
      moreover have "(unat p mod 2 ^ k - 1) div 2 ^ k = 0"
        using mod_less_divisor [of "2 ^ k" "unat p"] by (simp add: less_imp_diff_less)
      ultimately show ?thesis by (metis add.commute add_0 div_mult_self2 power_not_zero zero_neq_numeral)
    qed
    then have uq: "unat q = unat p - unat p mod 2 ^ k + 2 ^ k" using q by (simp add: minus_mod_eq_div_mult [symmetric])
    have le: "unat p mod 2 ^ k \<le> unat p" "unat p mod 2 ^ k < 2 ^ k" by simp_all
    have "4 dvd unat p mod 2 ^ k" using p4 four by (simp add: dvd_mod)
    then have "4 dvd 2 ^ k - unat p mod 2 ^ k" using four by simp
    then have "4 \<le> 2 ^ k - unat p mod 2 ^ k" using le(2) by (intro dvd_imp_le) linarith+
    then have "unat p + 4 \<le> unat q" "unat q \<le> unat p + 2 ^ k" using uq le r by linarith+
    moreover have "2 ^ k dvd unat q" using q by simp
    ultimately show ?thesis by blast
  qed
  then show "2 ^ k dvd unat q" "unat p + 4 \<le> unat q" "unat q \<le> unat p + 2 ^ k" by blast+
qed

lemma align_up_4: "unat sz + 3 < 2 ^ 32 \<Longrightarrow> unat ((sz + 3) AND NOT 3 :: u32) = (unat sz + 3) div 4 * 4"
  using unat_and_not_mask [of "sz + 3" 2] unat_add_small [of sz 3] by (simp add: mask_eq_exp_minus_1)

lemma align_up_id: "2 \<le> k \<Longrightarrow> k < 32 \<Longrightarrow> (2 ^ k + 3) AND NOT 3 = (2 ^ k :: u32)"
proof -
  assume k: "2 \<le> k" "k < 32"
  have pk: "unat (2 ^ k :: u32) = 2 ^ k" using pow_mask [OF k(2)] .
  obtain j where j: "k = j + 2" using k(1) by (metis add.commute le_Suc_ex)
  have "(2 :: nat) ^ k \<le> 2 ^ 31" using k by (intro power_increasing) auto
  then have "unat ((2 ^ k + 3) AND NOT 3 :: u32) = (2 ^ k + 3) div 4 * 4" using align_up_4 [of "2 ^ k"] pk by simp
  also have "\<dots> = 2 ^ k" by (simp add: j power_add)
  finally show ?thesis using pk by (simp add: word_unat_eq_iff)
qed

text \<open>C37: for an alignment that is a power of two and at least 4, and a block of \<open>rt_malloc\<close>, which is
  aligned to 4, \<open>rt_malloc_align\<close> returns an aligned address with room for the size inside the
  block, writes only inside the block, and \<open>rt_free_align\<close> gives the block to \<open>rt_free\<close> again.\<close>

theorem malloc_align_roundtrip:
  assumes k: "2 \<le> k" "k < 31" and sz: "unat sz + 2 ^ k + 3 < 2 ^ 32"
    and p: "rt_malloc (((sz + 3) AND NOT 3) + 2 ^ k) = p" "p \<noteq> 0" "4 dvd unat p" "unat p + (unat sz + 2 ^ k + 3) < 2 ^ 32"
  shows "\<exists>q m'. rt_malloc_align rt_malloc sz (2 ^ k) m = (q, m') \<and> 2 ^ k dvd unat q \<and> unat p + 4 \<le> unat q \<and>
    unat q + unat sz \<le> unat p + unat (((sz + 3) AND NOT 3) + 2 ^ k :: u32) \<and>
    (\<forall>x. \<not> (unat p \<le> unat x \<and> unat x < unat q) \<longrightarrow> m' x = m x) \<and> rt_free_align q m' = p"
proof -
  define q where "q = (if p AND (2 ^ k - 1) = 0 then p + 2 ^ k else (p + (2 ^ k - 1)) AND NOT (2 ^ k - 1))"
  have Q: "2 ^ k dvd unat q" "unat p + 4 \<le> unat q" "unat q \<le> unat p + 2 ^ k"
    unfolding q_def using k p by (intro align_place; simp)+
  have pk: "unat (2 ^ k :: u32) = 2 ^ k" using k by (intro pow_mask) simp
  have a4: "unat ((sz + 3) AND NOT 3 :: u32) = (unat sz + 3) div 4 * 4" using sz by (intro align_up_4) simp
  have "unat sz \<le> (unat sz + 3) div 4 * 4" "(unat sz + 3) div 4 * 4 \<le> unat sz + 3" by simp_all
  then have room: "unat q + unat sz \<le> unat p + unat (((sz + 3) AND NOT 3) + 2 ^ k :: u32)"
    using Q(3) sz a4 pk unat_add_small [of "(sz + 3) AND NOT 3" "2 ^ k"] by simp
  have run: "rt_malloc_align rt_malloc sz (2 ^ k) m = (q, store32 (q - 4) p m)"
    using k p align_up_id [of k] by (simp add: rt_malloc_align_def q_def Let_def)
  have q4: "unat (q - 4) = unat q - 4" using Q(2) by (subst unat_sub) (simp_all add: word_le_nat_alt)
  have out: "store32 (q - 4) p m x = m x" if x: "\<not> (unat p \<le> unat x \<and> unat x < unat q)" for x
  proof -
    have "unat (q - 4 + j) = unat q - 4 + unat j" if "unat j < 4" for j :: u32
      using that q4 Q(2) unat_less_2p [of q] by (subst unat_add_small) simp_all
    from this [of 0] this [of 1] this [of 2] this [of 3]
    have "x \<noteq> q - 4" "x \<noteq> q - 4 + 1" "x \<noteq> q - 4 + 2" "x \<noteq> q - 4 + 3" using x Q(2) by auto
    then show ?thesis by (simp add: store32_def)
  qed
  show ?thesis using run Q room out by (auto simp: rt_free_align_def load_store)
qed

theorem malloc_align_roundtrip_witness:
  "\<exists>q m'. rt_malloc_align (\<lambda>_. 0x20000004) 10 16 (\<lambda>_. 0) = (q, m') \<and> 16 dvd unat q \<and> rt_free_align q m' = 0x20000004"
  using malloc_align_roundtrip [of 4 10 "\<lambda>_. 0x20000004" "0x20000004" "\<lambda>_. 0"] by auto

end
