(* ===== verification/Mem_Heap.thy ===== *)
theory Mem_Heap
  imports Allocator Rt_List
begin

text \<open>
  The memory heap objects of \<open>src/memheap.c\<close>: a pool of memory cut into items, each behind a \<open>struct
  rt_memheap_item\<close> of 24 bytes. All items are on a ring in the order of their addresses, which ends
  in an item of no size that is always used; the free ones are also on a second ring. The fields of
  the items are maps from their addresses, the two rings are pointer heaps of \<open>Rt_List\<close>. The
  definitions are the parts of the calls between taking and releasing the semaphore of the heap.
  \<open>None\<close> is a failed assertion or a search that does not end. The theory shows that the items in use
  never overlap and that everything is merged again when all is freed.
\<close>

subsection \<open>Operations\<close>

record rt_memheap =
  heap_addr :: u32
  start_addr :: u32
  pool_size :: u32
  available_size :: u32
  max_used_size :: u32
  block_list :: u32
  free_list :: u32
  item_magic :: "u32 \<Rightarrow> u32"
  item_pool :: "u32 \<Rightarrow> u32"
  blk :: "u32 lheap"
  frees :: "u32 lheap"
  pool_bytes :: "u32 \<Rightarrow> u8"

text \<open>\<open>heap_addr\<close> is the address of the object itself, the value of \<open>pool_ptr\<close> in its items; \<open>blk\<close> are the
  fields \<open>next\<close> and \<open>prev\<close> of the items, \<open>frees\<close> the fields \<open>next_free\<close> and \<open>prev_free\<close>, and \<open>pool_bytes\<close>
  the contents of the blocks.\<close>

abbreviation (input) RT_MEMHEAP_MAGIC :: u32 where "RT_MEMHEAP_MAGIC \<equiv> 0x1ea01ea0"
abbreviation (input) RT_MEMHEAP_MASK :: u32 where "RT_MEMHEAP_MASK \<equiv> 0xfffffffe"
abbreviation (input) RT_MEMHEAP_USED :: u32 where "RT_MEMHEAP_USED \<equiv> 1"
abbreviation (input) RT_MEMHEAP_MINIALLOC :: u32 where "RT_MEMHEAP_MINIALLOC \<equiv> 12"
abbreviation (input) RT_MEMHEAP_SIZE :: u32 where "RT_MEMHEAP_SIZE \<equiv> 24"

definition RT_MEMHEAP_IS_USED :: "rt_memheap \<Rightarrow> u32 \<Rightarrow> bool" where
  "RT_MEMHEAP_IS_USED h i = (item_magic h i AND RT_MEMHEAP_USED \<noteq> 0)"

definition MEMITEM_SIZE :: "rt_memheap \<Rightarrow> u32 \<Rightarrow> u32" where
  "MEMITEM_SIZE h i = nxt (blk h) i - i - RT_MEMHEAP_SIZE"

text \<open>The pointer sequences that the calls share: an item that becomes free is marked and put at the
  front of the free ring, a free item is taken off it, a new item is put behind another one on the
  ring of all items, and an item is taken off that ring.\<close>

definition set_magic :: "u32 \<Rightarrow> u32 \<Rightarrow> rt_memheap \<Rightarrow> rt_memheap" where
  "set_magic i v h = h\<lparr>item_magic := (item_magic h)(i := v)\<rparr>"

definition push_free :: "u32 \<Rightarrow> rt_memheap \<Rightarrow> rt_memheap" where
  "push_free i h =
     (let fl = free_list h;
          f1 = set_next i (nxt (frees h) fl) (frees h);
          f2 = set_prev i fl f1;
          f3 = set_prev (nxt f2 fl) i f2
      in h\<lparr>frees := set_next fl i f3\<rparr>)"

definition take_free :: "u32 \<Rightarrow> rt_memheap \<Rightarrow> rt_memheap" where
  "take_free i h =
     (let f1 = set_prev (nxt (frees h) i) (prv (frees h) i) (frees h)
      in h\<lparr>frees := set_next (prv f1 i) (nxt f1 i) f1\<rparr>)"

definition clear_free :: "u32 \<Rightarrow> rt_memheap \<Rightarrow> rt_memheap" where
  "clear_free i h = h\<lparr>frees := set_prev i 0 (set_next i 0 (frees h))\<rparr>"

definition link_item :: "u32 \<Rightarrow> u32 \<Rightarrow> rt_memheap \<Rightarrow> rt_memheap" where
  "link_item header new h =
     (let b1 = set_prev new header (blk h);
          b2 = set_next new (nxt b1 header) b1;
          b3 = set_prev (nxt b2 header) new b2
      in h\<lparr>blk := set_next header new b3\<rparr>)"

definition new_item :: "u32 \<Rightarrow> rt_memheap \<Rightarrow> rt_memheap" where
  "new_item i h = (set_magic i RT_MEMHEAP_MAGIC h)\<lparr>item_pool := (item_pool h)(i := heap_addr h)\<rparr>"

definition count_max :: "rt_memheap \<Rightarrow> rt_memheap" where
  "count_max h =
     (if pool_size h - available_size h > max_used_size h then h\<lparr>max_used_size := pool_size h - available_size h\<rparr> else h)"

text \<open>\<open>rt_memheap_init\<close> without the object header and the semaphore; \<open>hdr\<close> is the address of the field
  \<open>free_header\<close>.\<close>

definition memheap_init :: "u32 \<Rightarrow> u32 \<Rightarrow> u32 \<Rightarrow> rt_memheap \<Rightarrow> rt_memheap" where
  "memheap_init hdr start sz h =
     (let ps = RT_ALIGN_DOWN sz RT_ALIGN_SIZE;
          av = ps - 2 * RT_MEMHEAP_SIZE;
          h1 = (new_item hdr h)\<lparr>start_addr := start, pool_size := ps, available_size := av, max_used_size := ps - av,
                 blk := set_next hdr 0 (set_prev hdr 0 (blk h)), frees := rt_list_init hdr (frees h), free_list := hdr\<rparr>;
          tail = start + av + RT_MEMHEAP_SIZE;
          h2 = (new_item start h1)\<lparr>blk := set_prev start tail (set_next start tail (blk h1)), block_list := start\<rparr>;
          h3 = push_free start (h2\<lparr>frees := rt_list_init start (frees h2)\<rparr>);
          h4 = set_magic tail (RT_MEMHEAP_MAGIC OR RT_MEMHEAP_USED) (new_item tail h3)
      in clear_free tail (h4\<lparr>blk := set_prev tail start (set_next tail start (blk h4))\<rparr>))"

definition memheap_size :: "u32 \<Rightarrow> u32" where
  "memheap_size sz =
     (let s = RT_ALIGN sz RT_ALIGN_SIZE in if s < RT_MEMHEAP_MINIALLOC then RT_MEMHEAP_MINIALLOC else s)"

partial_function (option) memheap_search :: "u32 \<Rightarrow> u32 \<Rightarrow> u32 \<Rightarrow> rt_memheap \<Rightarrow> (u32 \<times> u32) option" where
  "memheap_search sz header free_size h =
     (if header \<noteq> free_list h \<and> free_size < sz
      then let fs = MEMITEM_SIZE h header
           in memheap_search sz (if fs < sz then nxt (frees h) header else header) fs h
      else Some (header, free_size))"

definition memheap_take :: "u32 \<Rightarrow> u32 \<Rightarrow> u32 \<Rightarrow> rt_memheap \<Rightarrow> rt_memheap" where
  "memheap_take sz header free_size h =
     (let h1 = (if free_size \<ge> sz + RT_MEMHEAP_SIZE + RT_MEMHEAP_MINIALLOC
                then let new = header + sz + RT_MEMHEAP_SIZE;
                         h2 = link_item header new (new_item new h);
                         h3 = push_free new (clear_free header (take_free header h2))
                     in count_max (h3\<lparr>available_size := available_size h3 - sz - RT_MEMHEAP_SIZE\<rparr>)
                else clear_free header (take_free header (count_max (h\<lparr>available_size := available_size h - free_size\<rparr>))))
      in set_magic header (item_magic h1 header OR RT_MEMHEAP_USED) h1)"

text \<open>The part of \<open>rt_memheap_alloc\<close> under the lock, for the size that was rounded up.\<close>

definition memheap_alloc_locked :: "u32 \<Rightarrow> rt_memheap \<Rightarrow> (u32 option \<times> rt_memheap) option" where
  "memheap_alloc_locked sz h = do {
     (header, free_size) \<leftarrow> memheap_search sz (nxt (frees h) (free_list h)) 0 h;
     Some (if free_size \<ge> sz then (Some (header + RT_MEMHEAP_SIZE), memheap_take sz header free_size h) else (None, h))
   }"

definition memheap_alloc :: "u32 \<Rightarrow> rt_memheap \<Rightarrow> (u32 option \<times> rt_memheap) option" where
  "memheap_alloc sz h =
     (if memheap_size sz < available_size h then memheap_alloc_locked (memheap_size sz) h else Some (None, h))"

definition merge_left :: "u32 \<Rightarrow> rt_memheap \<Rightarrow> u32 \<times> rt_memheap" where
  "merge_left header h =
     (let h1 = h\<lparr>available_size := available_size h + RT_MEMHEAP_SIZE\<rparr>;
          b1 = set_next (prv (blk h1) header) (nxt (blk h1) header) (blk h1);
          b2 = set_prev (nxt b1 header) (prv b1 header) b1
      in (prv b2 header, h1\<lparr>blk := b2\<rparr>))"

definition merge_right :: "u32 \<Rightarrow> rt_memheap \<Rightarrow> rt_memheap" where
  "merge_right header h =
     (let h1 = h\<lparr>available_size := available_size h + RT_MEMHEAP_SIZE\<rparr>;
          new = nxt (blk h1) header;
          b1 = set_prev (nxt (blk h1) new) header (blk h1);
          h2 = h1\<lparr>blk := set_next header (nxt b1 new) b1\<rparr>
      in take_free new h2)"

definition memheap_free_locked :: "u32 \<Rightarrow> rt_memheap \<Rightarrow> rt_memheap" where
  "memheap_free_locked header h =
     (let h1 = set_magic header (item_magic h header AND NOT RT_MEMHEAP_USED) h;
          h2 = h1\<lparr>available_size := available_size h1 + MEMITEM_SIZE h1 header\<rparr>;
          left = \<not> RT_MEMHEAP_IS_USED h2 (prv (blk h2) header);
          (hp, h3) = (if left then merge_left header h2 else (header, h2));
          h4 = (if \<not> RT_MEMHEAP_IS_USED h3 (nxt (blk h3) hp) then merge_right hp h3 else h3)
      in if left then h4 else push_free hp h4)"

text \<open>\<open>rt_memheap_free\<close> finds the heap through the block. The record is one heap: a block whose
  \<open>pool_ptr\<close> is another address is not a block of this one.\<close>

definition memheap_free :: "u32 \<Rightarrow> rt_memheap \<Rightarrow> rt_memheap option" where
  "memheap_free p h =
     (if p = 0 then Some h
      else do {
        let header = p - RT_MEMHEAP_SIZE;
        rt_assert (item_magic h header AND RT_MEMHEAP_MASK = RT_MEMHEAP_MAGIC);
        rt_assert (RT_MEMHEAP_IS_USED h header);
        rt_assert (item_magic h (nxt (blk h) header) AND RT_MEMHEAP_MASK = RT_MEMHEAP_MAGIC);
        rt_assert (item_pool h header = heap_addr h);
        Some (memheap_free_locked header h)
      })"

subsection \<open>Rings\<close>

definition cut :: "'a \<Rightarrow> 'a \<Rightarrow> 'a lheap \<Rightarrow> 'a lheap" where
  "cut p q h = h\<lparr>nxt := (nxt h)(p := q), prv := (prv h)(q := p)\<rparr>"

lemma set_cut: "set_next p q (set_prev q p h) = cut p q h" "set_prev q p (set_next p q h) = cut p q h"
  by (cases h; simp add: cut_def set_next_def set_prev_def)+

lemma heap_sel [simp]:
  "nxt (set_next a b h) = (nxt h)(a := b)" "prv (set_next a b h) = prv h"
  "nxt (set_prev a b h) = nxt h" "prv (set_prev a b h) = (prv h)(a := b)"
  by (simp_all add: set_next_def set_prev_def)

lemma ring_cong:
  assumes "\<And>x. x \<in> set (l # xs) \<Longrightarrow> nxt h' x = nxt h x \<and> prv h' x = prv h x"
  shows "ring h' l xs = ring h l xs"
  unfolding ring_def using seg_cong [of l xs h' h l] assms by auto

lemma ring_neighbours:
  assumes "ring h l (xs @ n # ys)"
  shows "nxt h n = hd (ys @ [l])" "prv h n = last (l # xs)" "nxt h n \<noteq> n" "prv h n \<noteq> n"
proof -
  have s: "seg h l xs n" "seg h n ys l" and d: "distinct (l # xs @ n # ys)"
    using assms by (auto simp: ring_def seg_append)
  show e: "nxt h n = hd (ys @ [l])" "prv h n = last (l # xs)" using seg_first [OF s(2)] seg_last [OF s(1)] by auto
  show "nxt h n \<noteq> n" unfolding e using d by (cases ys) auto
  show "prv h n \<noteq> n" unfolding e using d last_in_set [of "l # xs"] by auto
qed

lemma ring_cut:
  assumes r: "ring h l (xs @ n # ys)"
  shows "ring (cut (prv h n) (nxt h n) h) l (xs @ ys)"
proof -
  let ?p = "last (l # xs)" and ?q = "hd (ys @ [l])"
  have d: "distinct (l # xs @ n # ys)" using r by (simp add: ring_def)
  have "seg (list_unlink ?p n ?q h) l (xs @ ys) l"
    using r d by (intro seg_list_unlink) (auto simp: ring_def)
  moreover have "seg (cut ?p ?q h) l (xs @ ys) l = seg (list_unlink ?p n ?q h) l (xs @ ys) l"
    using d by (intro seg_cong) (auto simp: cut_def list_unlink_def)
  ultimately show ?thesis using d ring_neighbours(1,2) [OF r] by (simp add: ring_def)
qed

lemma ring_link:
  assumes r: "ring h l (xs @ ys)" and n: "n \<notin> set (l # xs @ ys)"
  shows "ring (list_link (last (l # xs)) n (hd (ys @ [l])) h) l (xs @ n # ys)"
  using seg_list_link [of h l xs ys l n] r n by (auto simp: ring_def)

lemma ring_nodes: "ring h l xs \<Longrightarrow> nodes_of h l = xs"
  unfolding nodes_of_def by (rule the_equality) (auto intro: ring_unique)

subsection \<open>Well-formed heaps\<close>

abbreviation mused :: "rt_memheap \<Rightarrow> u32 \<Rightarrow> bool" where "mused \<equiv> RT_MEMHEAP_IS_USED"

definition gap :: "u32 \<Rightarrow> u32 \<Rightarrow> bool" where
  "gap a b \<longleftrightarrow> unat a + 36 \<le> unat b"

definition item_ok :: "rt_memheap \<Rightarrow> u32 \<Rightarrow> bool" where
  "item_ok h b \<longleftrightarrow> 4 dvd unat b \<and> item_magic h b AND RT_MEMHEAP_MASK = RT_MEMHEAP_MAGIC \<and> item_pool h b = heap_addr h"

text \<open>\<open>bs\<close> are the items in the order of their addresses and \<open>t\<close> the one of no size at the end; \<open>fs\<close> are
  the free items in the order of the free ring.\<close>

definition mh_links :: "u32 \<Rightarrow> u32 list \<Rightarrow> u32 list \<Rightarrow> rt_memheap \<Rightarrow> bool" where
  "mh_links t bs fs h \<longleftrightarrow>
     ring (blk h) t bs \<and> ring (frees h) (free_list h) fs \<and> sorted_wrt gap (bs @ [t]) \<and>
     (\<forall>b \<in> set (t # bs). item_ok h b) \<and> mused h t \<and>
     (unat (free_list h) < unat (start_addr h) \<or> unat t < unat (free_list h)) \<and>
     bs \<noteq> [] \<and> hd bs = start_addr h \<and> 0 < unat (start_addr h) \<and> unat t + 24 < 2 ^ 32"

definition mh_free :: "u32 list \<Rightarrow> u32 list \<Rightarrow> rt_memheap \<Rightarrow> bool" where
  "mh_free bs fs h \<longleftrightarrow> set fs = {b \<in> set bs. \<not> mused h b}"

definition free_bytes :: "rt_memheap \<Rightarrow> u32 list \<Rightarrow> u32" where
  "free_bytes h fs = sum_list (map (MEMITEM_SIZE h) fs)"

definition mh_rep :: "u32 \<Rightarrow> u32 list \<Rightarrow> u32 list \<Rightarrow> rt_memheap \<Rightarrow> bool" where
  "mh_rep t bs fs h \<longleftrightarrow>
     mh_links t bs fs h \<and> mh_free bs fs h \<and> successively (\<lambda>a b. mused h a \<or> mused h b) bs \<and>
     available_size h = free_bytes h fs"

lemma mh_linksD:
  assumes "mh_links t bs fs h"
  shows "ring (blk h) t bs" "ring (frees h) (free_list h) fs" "sorted_wrt gap (bs @ [t])"
    "\<And>b. b \<in> set (t # bs) \<Longrightarrow> item_ok h b" "mused h t"
    "unat (free_list h) < unat (start_addr h) \<or> unat t < unat (free_list h)" "bs \<noteq> []" "hd bs = start_addr h" "0 < unat (start_addr h)" "unat t + 24 < 2 ^ 32" "distinct (t # bs)"
  using assms by (auto simp: mh_links_def ring_def)

text \<open>What is around an item.\<close>

lemma item_facts:
  assumes l: "mh_links t (xs @ b # ys) fs h"
  shows "nxt (blk h) b = hd (ys @ [t])" "prv (blk h) b = last (t # xs)" "gap b (hd (ys @ [t]))"
    "\<And>c. c \<in> set (ys @ [t]) \<Longrightarrow> c \<noteq> hd (ys @ [t]) \<Longrightarrow> gap (hd (ys @ [t])) c" "\<And>a. a \<in> set xs \<Longrightarrow> gap a b"
    "unat b + 24 < 2 ^ 32" "unat (b + 24) = unat b + 24" "unat (hd (ys @ [t])) \<le> unat t"
proof -
  note D = mh_linksD [OF l]
  show "nxt (blk h) b = hd (ys @ [t])" "prv (blk h) b = last (t # xs)" using ring_neighbours [OF D(1)] by auto
  have so: "sorted_wrt gap (xs @ b # ys @ [t])" using D(3) by simp
  then show g: "gap b (hd (ys @ [t]))" and "\<And>a. a \<in> set xs \<Longrightarrow> gap a b"
    by (cases ys; auto simp: sorted_wrt_append)+
  show q: "gap (hd (ys @ [t])) c" if "c \<in> set (ys @ [t])" "c \<noteq> hd (ys @ [t])" for c
    using so that by (cases ys) (auto simp: sorted_wrt_append)
  show "unat (hd (ys @ [t])) \<le> unat t"
  proof (cases "t = hd (ys @ [t])")
    case False
    then show ?thesis using q [of t] by (simp add: gap_def)
  qed simp
  then have "unat b + 36 \<le> unat t" using g by (simp add: gap_def)
  then show u: "unat b + 24 < 2 ^ 32" using unat_less_2p [of t] by simp
  show "unat (b + 24) = unat b + 24" using u unat_add_small [of b 24] by simp
qed

lemma item_size:
  assumes l: "mh_links t (xs @ b # ys) fs h"
  shows "unat (MEMITEM_SIZE h b) = unat (hd (ys @ [t])) - unat b - 24"
proof -
  note I = item_facts [OF l]
  have le: "b + 24 \<le> hd (ys @ [t])" using I(3,7) by (simp add: gap_def word_le_nat_alt)
  have "MEMITEM_SIZE h b = hd (ys @ [t]) - (b + 24)" by (simp add: MEMITEM_SIZE_def I(1) algebra_simps)
  then show ?thesis using unat_sub [OF le] I(7) by simp
qed

lemma mused_set_magic:
  "mused (set_magic i v h) b = (if b = i then v AND RT_MEMHEAP_USED \<noteq> 0 else mused h b)"
  by (simp add: RT_MEMHEAP_IS_USED_def set_magic_def)

lemma sel_simps [simp]:
  "blk (set_magic i v h) = blk h" "frees (set_magic i v h) = frees h" "free_list (set_magic i v h) = free_list h"
  "item_pool (set_magic i v h) = item_pool h" "heap_addr (set_magic i v h) = heap_addr h"
  "start_addr (set_magic i v h) = start_addr h" "available_size (set_magic i v h) = available_size h"
  "blk (new_item i h) = blk h" "frees (new_item i h) = frees h" "free_list (new_item i h) = free_list h"
  "heap_addr (new_item i h) = heap_addr h" "start_addr (new_item i h) = start_addr h"
  "available_size (new_item i h) = available_size h"
  "blk (push_free i h) = blk h" "free_list (push_free i h) = free_list h" "item_magic (push_free i h) = item_magic h"
  "item_pool (push_free i h) = item_pool h" "heap_addr (push_free i h) = heap_addr h"
  "start_addr (push_free i h) = start_addr h" "available_size (push_free i h) = available_size h"
  "blk (take_free i h) = blk h" "free_list (take_free i h) = free_list h" "item_magic (take_free i h) = item_magic h"
  "item_pool (take_free i h) = item_pool h" "heap_addr (take_free i h) = heap_addr h"
  "start_addr (take_free i h) = start_addr h" "available_size (take_free i h) = available_size h"
  "blk (clear_free i h) = blk h" "free_list (clear_free i h) = free_list h" "item_magic (clear_free i h) = item_magic h"
  "item_pool (clear_free i h) = item_pool h" "heap_addr (clear_free i h) = heap_addr h"
  "start_addr (clear_free i h) = start_addr h" "available_size (clear_free i h) = available_size h"
  "frees (link_item i j h) = frees h" "free_list (link_item i j h) = free_list h" "item_magic (link_item i j h) = item_magic h"
  "item_pool (link_item i j h) = item_pool h" "heap_addr (link_item i j h) = heap_addr h"
  "start_addr (link_item i j h) = start_addr h" "available_size (link_item i j h) = available_size h"
  "blk (count_max h) = blk h" "frees (count_max h) = frees h" "free_list (count_max h) = free_list h"
  "item_magic (count_max h) = item_magic h" "item_pool (count_max h) = item_pool h" "heap_addr (count_max h) = heap_addr h"
  "start_addr (count_max h) = start_addr h" "available_size (count_max h) = available_size h"
  by (simp_all add: set_magic_def new_item_def push_free_def take_free_def clear_free_def link_item_def count_max_def Let_def)

lemma mused_same [simp]:
  "mused (push_free i h) = mused h" "mused (take_free i h) = mused h" "mused (clear_free i h) = mused h"
  "mused (link_item i j h) = mused h" "mused (count_max h) = mused h" "mused (h\<lparr>available_size := a\<rparr>) = mused h"
  "mused (h\<lparr>blk := b\<rparr>) = mused h"
  "mused (new_item i h) c = (c \<noteq> i \<and> mused h c)"
  by (simp_all add: RT_MEMHEAP_IS_USED_def fun_eq_iff new_item_def set_magic_def)

lemma item_ok_same [simp]:
  "item_ok (push_free i h) = item_ok h" "item_ok (take_free i h) = item_ok h" "item_ok (clear_free i h) = item_ok h"
  "item_ok (link_item i j h) = item_ok h" "item_ok (count_max h) = item_ok h" "item_ok (h\<lparr>available_size := a\<rparr>) = item_ok h"
  "item_ok (h\<lparr>blk := b\<rparr>) = item_ok h"
  by (simp_all add: item_ok_def fun_eq_iff)

lemma size_same [simp]:
  "MEMITEM_SIZE (push_free i h) = MEMITEM_SIZE h" "MEMITEM_SIZE (take_free i h) = MEMITEM_SIZE h"
  "MEMITEM_SIZE (clear_free i h) = MEMITEM_SIZE h" "MEMITEM_SIZE (count_max h) = MEMITEM_SIZE h"
  "MEMITEM_SIZE (h\<lparr>available_size := a\<rparr>) = MEMITEM_SIZE h" "MEMITEM_SIZE (set_magic i v h) = MEMITEM_SIZE h"
  "MEMITEM_SIZE (new_item i h) = MEMITEM_SIZE h"
  by (simp_all add: MEMITEM_SIZE_def fun_eq_iff)

lemma links_same [simp]:
  "mh_links t bs fs (count_max h) = mh_links t bs fs h" "mh_links t bs fs (h\<lparr>available_size := a\<rparr>) = mh_links t bs fs h"
  by (simp_all add: mh_links_def)

lemma magic_set_magic: "item_magic (set_magic i v h) = (item_magic h)(i := v)"
  by (simp add: set_magic_def)

lemma links_magic:
  assumes "mh_links t bs fs h" "v AND RT_MEMHEAP_MASK = RT_MEMHEAP_MAGIC" "i \<noteq> t"
  shows "mh_links t bs fs (set_magic i v h)"
  using assms by (auto simp: mh_links_def mused_set_magic item_ok_def magic_set_magic)

lemma links_push:
  assumes l: "mh_links t bs fs h" and i: "i \<noteq> free_list h" "i \<notin> set fs"
  shows "mh_links t bs (i # fs) (push_free i h)"
proof -
  let ?fl = "free_list h"
  have r: "ring (frees h) ?fl fs" by (rule mh_linksD(2) [OF l])
  have n: "nxt (frees h) ?fl = hd (fs @ [?fl])" using r seg_first by (fastforce simp: ring_def)
  then have "nxt (frees h) ?fl \<noteq> i" using i by (cases fs) auto
  then have "frees (push_free i h) = list_link ?fl i (hd (fs @ [?fl])) (frees h)"
    using i n by (auto simp: push_free_def list_link_def set_next_def set_prev_def Let_def fun_eq_iff)
  then have "ring (frees (push_free i h)) ?fl (i # fs)" using ring_link [of "frees h" ?fl "[]" fs i] r i by simp
  then show ?thesis using l by (simp add: mh_links_def)
qed

lemma links_take:
  assumes l: "mh_links t bs (us @ i # vs) h"
  shows "mh_links t bs (us @ vs) (take_free i h)"
proof -
  have r: "ring (frees h) (free_list h) (us @ i # vs)" by (rule mh_linksD(2) [OF l])
  have "frees (take_free i h) = cut (prv (frees h) i) (nxt (frees h) i) (frees h)"
    using ring_neighbours(3,4) [OF r] by (auto simp: take_free_def cut_def set_next_def set_prev_def Let_def fun_eq_iff)
  then show ?thesis using ring_cut [OF r] l by (simp add: mh_links_def)
qed

lemma links_clear:
  assumes l: "mh_links t bs fs h" and i: "i \<noteq> free_list h" "i \<notin> set fs"
  shows "mh_links t bs fs (clear_free i h)"
proof -
  have "ring (frees (clear_free i h)) (free_list h) fs = ring (frees h) (free_list h) fs"
    using i by (intro ring_cong) (auto simp: clear_free_def set_next_def set_prev_def)
  then show ?thesis using l by (simp add: mh_links_def)
qed

lemma links_cut:
  assumes l: "mh_links t (xs @ c # ys) fs h" and xs: "xs \<noteq> []"
  shows "mh_links t (xs @ ys) fs (h\<lparr>blk := cut (prv (blk h) c) (nxt (blk h) c) (blk h)\<rparr>)"
proof -
  note D = mh_linksD [OF l]
  have "sorted_wrt gap ((xs @ ys) @ [t])" using D(3) by (simp add: sorted_wrt_append)
  then show ?thesis using ring_cut [OF D(1)] D l xs by (auto simp: mh_links_def)
qed

lemma gap_trans: "gap a b \<Longrightarrow> gap b c \<Longrightarrow> gap a c"
  by (simp add: gap_def)

lemma links_insert:
  assumes l: "mh_links t (xs @ b # ys) fs h" and g: "gap b n" "gap n (hd (ys @ [t]))" and al: "4 dvd unat n"
  shows "mh_links t (xs @ b # n # ys) fs (link_item b n (new_item n h))"
    "blk (link_item b n (new_item n h)) = list_link b n (hd (ys @ [t])) (blk h)" "n \<notin> set (t # xs @ b # ys)"
    "n \<noteq> free_list h"
proof -
  note D = mh_linksD [OF l] and I = item_facts [OF l]
  have ny: "gap n c" if "c \<in> set (ys @ [t])" for c
    using I(4) [of c] that g(2) gap_trans by (cases "c = hd (ys @ [t])") blast+
  have xn: "gap a n" if "a \<in> set xs" for a using I(5) [OF that] g(1) gap_trans by blast
  show n: "n \<notin> set (t # xs @ b # ys)" using ny xn g(1) by (fastforce simp: gap_def)
  have so: "sorted_wrt gap ((xs @ b # n # ys) @ [t])" using D(3) ny xn g(1) by (auto simp: sorted_wrt_append)
  have "unat (start_addr h) \<le> unat b"
    using D(8) I(5) [of "start_addr h"] by (cases xs) (auto simp: gap_def)
  moreover have "unat n < unat t" using ny [of t] by (simp add: gap_def)
  ultimately show fl: "n \<noteq> free_list h" using D(6) g(1) by (auto simp: gap_def)
  show link: "blk (link_item b n (new_item n h)) = list_link b n (hd (ys @ [t])) (blk h)"
    using n I(1) by (cases ys) (auto simp: link_item_def list_link_def set_next_def set_prev_def Let_def fun_eq_iff)
  have "ring (list_link b n (hd (ys @ [t])) (blk h)) t (xs @ b # n # ys)"
    using ring_link [of "blk h" t "xs @ [b]" ys n] D(1) n by simp
  then show "mh_links t (xs @ b # n # ys) fs (link_item b n (new_item n h))"
    using l link so al n D(4,5)
    by (auto simp: mh_links_def new_item_def set_magic_def item_ok_def RT_MEMHEAP_IS_USED_def hd_append)
qed

subsection \<open>Allocation\<close>

lemma search_ring:
  assumes "seg (frees h) a vs (free_list h)" "free_list h \<notin> set vs" "fz < sz"
  shows "\<exists>i f. memheap_search sz (hd (vs @ [free_list h])) fz h = Some (i, f) \<and>
    (sz \<le> f \<longrightarrow> i \<in> set vs \<and> f = MEMITEM_SIZE h i)"
  using assms
proof (induction vs arbitrary: a fz)
  case Nil
  then show ?case by (subst memheap_search.simps) auto
next
  case (Cons i vs)
  have nx: "nxt (frees h) i = hd (vs @ [free_list h])" using Cons.prems(1) seg_first by fastforce
  show ?case
  proof (cases "MEMITEM_SIZE h i < sz")
    case True
    then have "memheap_search sz i fz h = memheap_search sz (hd (vs @ [free_list h])) (MEMITEM_SIZE h i) h"
      using Cons.prems nx by (subst memheap_search.simps) auto
    then show ?thesis using Cons.IH [of i "MEMITEM_SIZE h i"] Cons.prems True by auto
  next
    case False
    then have "memheap_search sz i fz h = memheap_search sz i (MEMITEM_SIZE h i) h"
      using Cons.prems by (subst memheap_search.simps) auto
    also have "\<dots> = Some (i, MEMITEM_SIZE h i)" using False by (subst memheap_search.simps) auto
    finally show ?thesis by simp
  qed
qed

lemma magic_bits:
  fixes m :: u32
  shows "(m OR 1) AND 0xfffffffe = m AND 0xfffffffe" "(m OR 1) AND 1 \<noteq> 0"
    "(m AND - 2) AND 0xfffffffe = m AND 0xfffffffe" "(m AND - 2) AND 1 = 0"
proof -
  have e: "(0xfffffffe :: u32) = NOT 1" "(- 2 :: u32) = NOT 1" by simp_all
  show "(m OR 1) AND 0xfffffffe = m AND 0xfffffffe" "(m AND - 2) AND 0xfffffffe = m AND 0xfffffffe" "(m AND - 2) AND 1 = 0"
    unfolding e by (auto intro!: bit_word_eqI simp: bit_simps)
  have "bit ((m OR 1) AND 1) 0" by (simp add: bit_simps)
  then show "(m OR 1) AND 1 \<noteq> 0" by (metis bit_0_eq bot_apply bot_bool_def)
qed

lemma succ_used_mono:
  assumes "successively (\<lambda>a b. mused h a \<or> mused h b) xs" "\<And>c. c \<in> set xs \<Longrightarrow> mused h c \<Longrightarrow> mused h' c"
  shows "successively (\<lambda>a b. mused h' a \<or> mused h' b) xs"
  using assms by (induction xs) (auto simp: successively_Cons)

lemma free_bytes_cong: "(\<And>c. c \<in> set fs \<Longrightarrow> MEMITEM_SIZE h' c = MEMITEM_SIZE h c) \<Longrightarrow> free_bytes h' fs = free_bytes h fs"
  unfolding free_bytes_def by (intro arg_cong [where f = sum_list] map_cong) auto

lemma free_bytes_simps [simp]:
  "free_bytes h [] = 0" "free_bytes h (i # fs) = MEMITEM_SIZE h i + free_bytes h fs"
  "free_bytes h (us @ vs) = free_bytes h us + free_bytes h vs"
  by (simp_all add: free_bytes_def)

text \<open>Taking a free item, whole or in part, keeps the heap well formed.\<close>

lemma used_split:
  assumes "mh_rep t bs fs h" "i \<in> set fs"
  obtains xs ys us vs where "bs = xs @ i # ys" "fs = us @ i # vs"
proof -
  have "i \<in> set bs" using assms by (auto simp: mh_rep_def mh_free_def)
  then show thesis using assms(2) that by (metis split_list)
qed

lemma free_neighbours:
  assumes "successively (\<lambda>a b. mused h a \<or> mused h b) (xs @ i # ys)" "\<not> mused h i"
  shows "xs \<noteq> [] \<Longrightarrow> mused h (last xs)" "ys \<noteq> [] \<Longrightarrow> mused h (hd ys)"
    "successively (\<lambda>a b. mused h a \<or> mused h b) xs" "successively (\<lambda>a b. mused h a \<or> mused h b) ys"
  using assms by (auto simp: successively_append_iff successively_Cons)

lemma take_whole_rep:
  assumes rep: "mh_rep t bs fs h" and i: "i \<in> set fs"
    and h': "blk h' = blk h" "available_size h' = available_size h - MEMITEM_SIZE h i"
      "\<And>b. mused h' b = (b = i \<or> mused h b)"
    and l: "\<And>us vs. fs = us @ i # vs \<Longrightarrow> mh_links t bs (us @ vs) h'"
  shows "\<exists>fs'. mh_rep t bs fs' h'"
proof -
  obtain xs ys us vs where e: "bs = xs @ i # ys" "fs = us @ i # vs" using used_split [OF rep i] .
  have R: "mh_free bs fs h" "successively (\<lambda>a b. mused h a \<or> mused h b) bs" "available_size h = free_bytes h fs"
    and d: "distinct fs" using rep by (auto simp: mh_rep_def mh_links_def ring_def)
  have "MEMITEM_SIZE h' = MEMITEM_SIZE h" by (simp add: MEMITEM_SIZE_def h' fun_eq_iff)
  then have "available_size h' = free_bytes h' (us @ vs)" using R(3) e(2) h'(2) by (simp add: free_bytes_def)
  moreover have "mh_free bs (us @ vs) h'" using R(1) d e(2) h'(3) by (auto simp: mh_free_def)
  moreover have "successively (\<lambda>a b. mused h' a \<or> mused h' b) bs" using succ_used_mono [OF R(2)] h'(3) by blast
  ultimately show ?thesis using l [OF e(2)] by (auto simp: mh_rep_def)
qed

lemma take_split_rep:
  assumes rep: "mh_rep t (xs @ i # ys) (us @ i # vs) h" and g: "gap i n" "gap n (hd (ys @ [t]))"
    and l: "mh_links t (xs @ i # n # ys) (n # us @ vs) h'"
    and h': "blk h' = list_link i n (hd (ys @ [t])) (blk h)" "\<And>b. mused h' b = (b = i \<or> b \<noteq> n \<and> mused h b)"
      "available_size h' = available_size h - (n - i)"
  shows "mh_rep t (xs @ i # n # ys) (n # us @ vs) h'"
proof -
  have R: "mh_links t (xs @ i # ys) (us @ i # vs) h" "mh_free (xs @ i # ys) (us @ i # vs) h"
    "successively (\<lambda>a b. mused h a \<or> mused h b) (xs @ i # ys)" "available_size h = free_bytes h (us @ i # vs)"
    and d: "distinct (us @ i # vs)" using rep by (auto simp: mh_rep_def mh_links_def ring_def)
  have ds: "distinct (t # xs @ i # n # ys)" using mh_linksD(11) [OF l] .
  have ui: "\<not> mused h i" using R(2) by (auto simp: mh_free_def)
  note N = free_neighbours [OF R(3) ui]
  have f: "mh_free (xs @ i # n # ys) (n # us @ vs) h'" using R(2) d ds h'(2) by (auto simp: mh_free_def)
  have m: "mused h' c" if "mused h c" "c \<in> set xs \<union> set ys" for c using that ds h'(2) by auto
  have "successively (\<lambda>a b. mused h' a \<or> mused h' b) xs" "successively (\<lambda>a b. mused h' a \<or> mused h' b) ys"
    using succ_used_mono [OF N(3)] succ_used_mono [OF N(4)] m by blast+
  moreover have "ys \<noteq> [] \<Longrightarrow> mused h' (hd ys)" using N(2) m by simp
  ultimately have s: "successively (\<lambda>a b. mused h' a \<or> mused h' b) (xs @ i # n # ys)"
    using h'(2) by (auto simp: successively_append_iff successively_Cons)
  have nx: "nxt (blk h) i = hd (ys @ [t])" using item_facts(1) [OF R(1)] .
  have "MEMITEM_SIZE h' c = MEMITEM_SIZE h c" if "c \<in> set (us @ vs)" for c
    using that R(2) d ds h'(1) by (auto simp: mh_free_def MEMITEM_SIZE_def list_link_def)
  then have "free_bytes h' (us @ vs) = free_bytes h (us @ vs)" by (rule free_bytes_cong)
  moreover have "MEMITEM_SIZE h' n = MEMITEM_SIZE h i - (n - i)"
    using ds nx by (auto simp: MEMITEM_SIZE_def list_link_def h'(1))
  ultimately have "available_size h' = free_bytes h' (n # us @ vs)" using R(4) h'(3) by simp
  then show ?thesis using l f s by (simp add: mh_rep_def)
qed

definition used_items :: "rt_memheap \<Rightarrow> u32 list \<Rightarrow> u32 set" where
  "used_items h bs = {b \<in> set bs. mused h b}"

lemma free_not_list:
  assumes "mh_links t bs fs h" "b \<in> set bs"
  shows "b \<noteq> free_list h"
proof -
  obtain xs ys where e: "bs = xs @ b # ys" using assms(2) by (auto dest: split_list)
  note D = mh_linksD [OF assms(1)] and I = item_facts [OF assms(1) [unfolded e]]
  have "unat (start_addr h) \<le> unat b" using D(8) I(5) [of "start_addr h"] e by (cases xs) (auto simp: gap_def)
  moreover have "unat b < unat t" using I(3,8) by (simp add: gap_def)
  ultimately show ?thesis using D(6) by auto
qed

lemma mused_take:
  "mused (set_magic i (item_magic h i OR RT_MEMHEAP_USED) h) b = (b = i \<or> mused h b)"
  by (simp add: mused_set_magic magic_bits)

lemma split_point:
  fixes sz :: u32
  assumes l: "mh_links t (xs @ i # ys) fs h" and le: "sz + 36 \<le> MEMITEM_SIZE h i" and sz: "12 \<le> unat sz" "4 dvd unat sz"
    "sz \<le> MEMITEM_SIZE h i"
  shows "unat (i + sz + 24) = unat i + unat sz + 24" "gap i (i + sz + 24)" "gap (i + sz + 24) (hd (ys @ [t]))"
    "4 dvd unat (i + sz + 24)"
proof -
  note I = item_facts [OF l] and D = mh_linksD [OF l] and S = item_size [OF l]
  have t: "unat (hd (ys @ [t])) + 24 < 2 ^ 32" using I(8) D(10) by linarith
  have "unat sz \<le> unat (hd (ys @ [t])) - unat i - 24" using sz(3) S by (simp add: word_le_nat_alt)
  then have "unat sz + 36 < 2 ^ 32" using t I(3) by (simp add: gap_def)
  then have "unat (sz + 36) = unat sz + 36" using unat_add_small [of sz 36] by simp
  then have b: "unat sz + 36 \<le> unat (hd (ys @ [t])) - unat i - 24" using le S by (simp add: word_le_nat_alt)
  then have "unat i + unat sz + 24 < 2 ^ 32" using t by linarith
  then show u: "unat (i + sz + 24) = unat i + unat sz + 24"
    using unat_add_small [of i sz] unat_add_small [of "i + sz" 24] by simp
  show "gap i (i + sz + 24)" "gap (i + sz + 24) (hd (ys @ [t]))" using u b sz(1) by (auto simp: gap_def)
  have "4 dvd unat i" using D(4) [of i] by (simp add: item_ok_def)
  then show "4 dvd unat (i + sz + 24)" using u sz(2) by (simp add: dvd_add)
qed

lemma take_links:
  assumes l: "mh_links t bs (us @ i # vs) h" and i: "i \<in> set bs"
  shows "mh_links t bs (us @ vs) (clear_free i (take_free i h))"
proof -
  have "distinct (us @ i # vs)" using mh_linksD(2) [OF l] by (simp add: ring_def)
  then show ?thesis using free_not_list [OF l i] by (intro links_clear links_take [OF l]) auto
qed

lemma magic_take:
  assumes "mh_links t bs fs h" "i \<in> set bs" "item_magic h' i = item_magic h i" "mh_links t bs' fs' h'"
  shows "mh_links t bs' fs' (set_magic i (item_magic h' i OR RT_MEMHEAP_USED) h')"
  using mh_linksD(4,11) [OF assms(1)] assms(2-4)
  by (intro links_magic) (auto simp: magic_bits item_ok_def)

text \<open>The outcome of an allocation of the item \<open>i\<close>: it is in use and large enough, and the items that
  were in use before still are and end where they ended.\<close>

definition mh_taken :: "u32 \<Rightarrow> u32 \<Rightarrow> u32 \<Rightarrow> u32 list \<Rightarrow> rt_memheap \<Rightarrow> rt_memheap \<Rightarrow> bool" where
  "mh_taken t sz i bs h h' \<longleftrightarrow>
     (\<exists>bs' fs'. mh_rep t bs' fs' h' \<and> used_items h' bs' = insert i (used_items h bs) \<and>
       (\<forall>b \<in> used_items h bs. nxt (blk h') b = nxt (blk h) b) \<and> unat i + 24 + unat sz \<le> unat (nxt (blk h') i))"

lemma take_split:
  fixes sz :: u32
  assumes rep: "mh_rep t (xs @ i # ys) (us @ i # vs) h" and sz: "12 \<le> unat sz" "4 dvd unat sz" "sz \<le> MEMITEM_SIZE h i"
    and big: "sz + 36 \<le> MEMITEM_SIZE h i"
  shows "mh_taken t sz i (xs @ i # ys) h (memheap_take sz i (MEMITEM_SIZE h i) h)" (is "mh_taken _ _ _ _ _ ?h'")
proof -
  have l: "mh_links t (xs @ i # ys) (us @ i # vs) h" and f: "mh_free (xs @ i # ys) (us @ i # vs) h"
    using rep by (auto simp: mh_rep_def)
  have ui: "\<not> mused h i" using f by (auto simp: mh_free_def)
  define n where "n = i + sz + 24"
  note P = split_point [OF l big sz, folded n_def]
  note L = links_insert [OF l P(2,3,4)]
  define h2 where "h2 = link_item i n (new_item n h)"
  define h3 where "h3 = push_free n (clear_free i (take_free i h2))"
  define h4 where "h4 = count_max (h3\<lparr>available_size := available_size h3 - sz - RT_MEMHEAP_SIZE\<rparr>)"
  have h': "?h' = set_magic i (item_magic h4 i OR RT_MEMHEAP_USED) h4"
    using big by (simp add: memheap_take_def h2_def h3_def h4_def n_def Let_def add.assoc)
  have "mh_links t (xs @ i # n # ys) (us @ vs) (clear_free i (take_free i h2))"
    using L(1) unfolding h2_def [symmetric] by (rule take_links) simp
  then have "mh_links t (xs @ i # n # ys) (n # us @ vs) h3"
    unfolding h3_def using L(3,4) f by (intro links_push) (auto simp: h2_def mh_free_def)
  moreover have "item_magic h4 i = item_magic h i" using L(3) by (auto simp: h4_def h3_def h2_def new_item_def set_magic_def)
  ultimately have l': "mh_links t (xs @ i # n # ys) (n # us @ vs) ?h'"
    unfolding h' by (intro magic_take [OF l]) (simp_all add: h4_def)
  have b': "blk ?h' = list_link i n (hd (ys @ [t])) (blk h)" unfolding h' using L(2) by (simp add: h4_def h3_def h2_def)
  have m': "mused ?h' b = (b = i \<or> b \<noteq> n \<and> mused h b)" for b
    unfolding h' mused_take by (simp add: h4_def h3_def h2_def)
  have a': "available_size ?h' = available_size h - (n - i)" unfolding h' by (simp add: h4_def h3_def h2_def n_def)
  have "mh_rep t (xs @ i # n # ys) (n # us @ vs) ?h'" by (rule take_split_rep [OF rep P(2,3) l' b' m' a'])
  moreover have "used_items ?h' (xs @ i # n # ys) = insert i (used_items h (xs @ i # ys))"
    using m' L(3) by (auto simp: used_items_def)
  moreover have "\<forall>b \<in> used_items h (xs @ i # ys). nxt (blk ?h') b = nxt (blk h) b"
    using b' L(3) ui by (auto simp: used_items_def list_link_def)
  moreover have "nxt (blk ?h') i = n" using b' L(3) by (auto simp: list_link_def)
  ultimately show ?thesis unfolding mh_taken_def using P(1) by (intro exI [of _ "xs @ i # n # ys"] exI [of _ "n # us @ vs"]) auto
qed

lemma take_whole:
  fixes sz :: u32
  assumes rep: "mh_rep t bs fs h" and i: "i \<in> set fs" and sz: "sz \<le> MEMITEM_SIZE h i" and small: "\<not> sz + 36 \<le> MEMITEM_SIZE h i"
  shows "mh_taken t sz i bs h (memheap_take sz i (MEMITEM_SIZE h i) h)" (is "mh_taken _ _ _ _ _ ?h'")
proof -
  obtain xs ys us vs where e: "bs = xs @ i # ys" "fs = us @ i # vs" using used_split [OF rep i] .
  have l: "mh_links t bs fs h" and ib: "i \<in> set bs" using rep e by (auto simp: mh_rep_def)
  note I = item_facts [OF l [unfolded e(1)]] and S = item_size [OF l [unfolded e(1)]]
  define h2 where "h2 = clear_free i (take_free i (count_max (h\<lparr>available_size := available_size h - MEMITEM_SIZE h i\<rparr>)))"
  have h': "?h' = set_magic i (item_magic h2 i OR RT_MEMHEAP_USED) h2"
    using small by (simp add: memheap_take_def h2_def add.assoc)
  have l': "mh_links t bs (us' @ vs') ?h'" if "fs = us' @ i # vs'" for us' vs'
    unfolding h' using l ib that by (intro magic_take [OF l ib]) (auto simp: h2_def intro!: take_links)
  have m': "mused ?h' b = (b = i \<or> mused h b)" for b unfolding h' mused_take by (simp add: h2_def)
  have b': "blk ?h' = blk h" unfolding h' by (simp add: h2_def)
  obtain fs' where "mh_rep t bs fs' ?h'"
    using take_whole_rep [OF rep i b' _ m' l'] by (auto simp: h' h2_def)
  moreover have "used_items ?h' bs = insert i (used_items h bs)" using m' ib by (auto simp: used_items_def)
  moreover have "unat i + 24 + unat sz \<le> unat (nxt (blk ?h') i)"
    using S sz I(1,3) b' by (simp add: word_le_nat_alt gap_def)
  ultimately show ?thesis unfolding mh_taken_def using b' by (intro exI [of _ bs] exI [of _ fs']) auto
qed

lemma memheap_take_rep:
  fixes sz :: u32
  assumes "mh_rep t bs fs h" "i \<in> set fs" "12 \<le> unat sz" "4 dvd unat sz" "sz \<le> MEMITEM_SIZE h i"
  shows "mh_taken t sz i bs h (memheap_take sz i (MEMITEM_SIZE h i) h)"
  using used_split [OF assms(1,2)] take_split [of t _ i _ _ _ h sz] take_whole [of t bs fs h i sz] assms by metis

lemma memheap_size_ok: "12 \<le> unat (memheap_size sz)" "4 dvd unat (memheap_size sz)"
proof -
  show "12 \<le> unat (memheap_size sz)" by (auto simp: memheap_size_def Let_def word_less_nat_alt)
  have "RT_ALIGN sz 4 = RT_ALIGN_DOWN (sz + 3) 4" by (simp only: ALIGN_eq ALIGN_DOWN_eq)
  then have "4 dvd unat (RT_ALIGN sz 4)" by (simp add: unat_ALIGN_DOWN)
  then show "4 dvd unat (memheap_size sz)" by (simp add: memheap_size_def Let_def)
qed

lemma memheap_alloc_rep:
  assumes rep: "mh_rep t bs fs h"
  shows "\<exists>r h'. memheap_alloc sz h = Some (r, h') \<and>
    (case r of None \<Rightarrow> h' = h
     | Some p \<Rightarrow> p - 24 \<in> set fs \<and> mh_taken t (memheap_size sz) (p - 24) bs h h')"
proof -
  let ?s = "memheap_size sz" and ?fl = "free_list h"
  have r: "ring (frees h) ?fl fs" using rep by (simp add: mh_rep_def mh_links_def)
  have z: "0 < ?s" using memheap_size_ok(1) [of sz] by (simp add: word_less_nat_alt)
  have "nxt (frees h) ?fl = hd (fs @ [?fl])" using r seg_first by (fastforce simp: ring_def)
  moreover obtain i f where i: "memheap_search ?s (hd (fs @ [?fl])) 0 h = Some (i, f)"
    "?s \<le> f \<longrightarrow> i \<in> set fs \<and> f = MEMITEM_SIZE h i"
    using search_ring [of h ?fl fs 0 ?s] r z by (auto simp: ring_def)
  ultimately have "memheap_alloc_locked ?s h =
      Some (if ?s \<le> f then (Some (i + 24), memheap_take ?s i f h) else (None, h))"
    by (simp add: memheap_alloc_locked_def)
  then show ?thesis
    using i(2) memheap_take_rep [OF rep _ memheap_size_ok, of i sz]
    by (auto simp: memheap_alloc_def)
qed

subsection \<open>Release\<close>

lemma free_bytes_grow:
  assumes "distinct gs" "q \<in> set gs" "MEMITEM_SIZE h' q = MEMITEM_SIZE h q + d"
    and "\<And>c. c \<in> set gs \<Longrightarrow> c \<noteq> q \<Longrightarrow> MEMITEM_SIZE h' c = MEMITEM_SIZE h c"
  shows "free_bytes h' gs = free_bytes h gs + d"
proof -
  obtain us vs where e: "gs = us @ q # vs" using assms(2) by (auto dest: split_list)
  have "free_bytes h' us = free_bytes h us" "free_bytes h' vs = free_bytes h vs"
    using assms(1,4) e by (auto intro!: free_bytes_cong)
  then show ?thesis using assms(3) e by simp
qed

text \<open>During a release the item \<open>p\<close> is free, but it is on the free ring only when it was merged to
  the left, and what follows it may be free too.\<close>

abbreviation (input) all_free :: "bool \<Rightarrow> u32 \<Rightarrow> u32 list \<Rightarrow> u32 list" where
  "all_free left p fs \<equiv> (if left then fs else p # fs)"

definition mh_mid :: "bool \<Rightarrow> u32 \<Rightarrow> u32 list \<Rightarrow> u32 \<Rightarrow> u32 list \<Rightarrow> u32 list \<Rightarrow> rt_memheap \<Rightarrow> bool" where
  "mh_mid left t xs p ys fs h \<longleftrightarrow>
     mh_links t (xs @ p # ys) fs h \<and> mh_free (xs @ p # ys) (all_free left p fs) h \<and> distinct (all_free left p fs) \<and>
     \<not> mused h p \<and> successively (\<lambda>a b. mused h a \<or> mused h b) (xs @ [p]) \<and>
     successively (\<lambda>a b. mused h a \<or> mused h b) ys \<and> available_size h = free_bytes h (all_free left p fs)"

lemma merge_right_eq:
  assumes l: "mh_links t (xs @ p # n # ys) fs h"
  shows "merge_right p h = take_free n (h\<lparr>available_size := available_size h + 24, blk := cut p (hd (ys @ [t])) (blk h)\<rparr>)"
    "prv (blk h) n = p" "nxt (blk h) n = hd (ys @ [t])" "nxt (blk h) p = n"
proof -
  have "mh_links t ((xs @ [p]) @ n # ys) fs h" using l by simp
  note N = item_facts [OF this] and P = item_facts [OF l]
  show *: "prv (blk h) n = p" "nxt (blk h) n = hd (ys @ [t])" "nxt (blk h) p = n" using N(1,2) P(1) by auto
  show "merge_right p h = take_free n (h\<lparr>available_size := available_size h + 24, blk := cut p (hd (ys @ [t])) (blk h)\<rparr>)"
    by (simp add: merge_right_def Let_def set_cut *)
qed

lemma links_drop:
  assumes l: "mh_links t (xs @ p # n # ys) (us @ n # vs) h"
  shows "mh_links t (xs @ p # ys) (us @ vs) (take_free n (h\<lparr>blk := cut p (hd (ys @ [t])) (blk h)\<rparr>))"
proof -
  note M = merge_right_eq [OF l]
  have "mh_links t ((xs @ [p]) @ ys) (us @ n # vs) (h\<lparr>blk := cut (prv (blk h) n) (nxt (blk h) n) (blk h)\<rparr>)"
    using l by (intro links_cut) simp_all
  then show ?thesis using M(2,3) by (intro links_take) simp
qed

lemma merge_right_mid:
  assumes m: "mh_mid left t xs p (n # ys) fs h" and un: "\<not> mused h n"
  shows "\<exists>fs'. mh_mid left t xs p ys fs' (merge_right p h)"
proof -
  have l: "mh_links t (xs @ p # n # ys) fs h" and f: "mh_free (xs @ p # n # ys) (all_free left p fs) h"
    and d: "distinct (all_free left p fs)" and up: "\<not> mused h p"
    and s: "successively (\<lambda>a b. mused h a \<or> mused h b) (xs @ [p])" "successively (\<lambda>a b. mused h a \<or> mused h b) (n # ys)"
    and a: "available_size h = free_bytes h (all_free left p fs)" using m by (auto simp: mh_mid_def)
  note M = merge_right_eq [OF l] and ds = mh_linksD(11) [OF l]
  have "n \<in> set fs" using f un ds by (auto simp: mh_free_def split: if_splits)
  then obtain us vs where e: "fs = us @ n # vs" by (auto dest: split_list)
  let ?h' = "merge_right p h"
  have l': "mh_links t (xs @ p # ys) (us @ vs) ?h'"
    using links_drop [of t xs p n ys us vs "h\<lparr>available_size := available_size h + 24\<rparr>"] l e by (simp add: M(1))
  have mu: "mused ?h' = mused h" unfolding M(1) by (simp add: RT_MEMHEAP_IS_USED_def fun_eq_iff)
  have f': "mh_free (xs @ p # ys) (all_free left p (us @ vs)) ?h'"
    using f d ds e un by (auto simp: mh_free_def mu split: if_splits)
  have sz: "MEMITEM_SIZE ?h' p = MEMITEM_SIZE h p + (24 + MEMITEM_SIZE h n)" "\<And>c. c \<noteq> p \<Longrightarrow> MEMITEM_SIZE ?h' c = MEMITEM_SIZE h c"
    unfolding M(1) using M(2-4) by (simp_all add: MEMITEM_SIZE_def cut_def)
  have pin: "p \<in> set (all_free left p (us @ vs))" using f up ds e by (auto simp: mh_free_def split: if_splits)
  have "free_bytes ?h' (all_free left p (us @ vs)) = free_bytes h (all_free left p (us @ vs)) + (24 + MEMITEM_SIZE h n)"
    using d e pin sz by (intro free_bytes_grow [where q = p]) auto
  also have "\<dots> = free_bytes h (all_free left p fs) + 24" using e by simp
  finally have "available_size ?h' = free_bytes ?h' (all_free left p (us @ vs))" using a by (simp add: M(1))
  then have "mh_mid left t xs p ys (us @ vs) ?h'"
    using l' f' d e up s by (auto simp: mh_mid_def mu successively_Cons)
  then show ?thesis by blast
qed

lemma mid_rep:
  assumes m: "mh_mid left t xs p ys fs h" and u: "mused h (hd (ys @ [t]))"
  shows "mh_rep t (xs @ p # ys) (all_free left p fs) (if left then h else push_free p h)"
proof -
  let ?P = "\<lambda>a b. mused h a \<or> mused h b"
  have l: "mh_links t (xs @ p # ys) fs h" and f: "mh_free (xs @ p # ys) (all_free left p fs) h"
    and d: "distinct (all_free left p fs)" and s: "successively ?P (xs @ [p])" "successively ?P ys"
    and a: "available_size h = free_bytes h (all_free left p fs)" using m by (auto simp: mh_mid_def)
  have "mh_links t (xs @ p # ys) (all_free left p fs) (if left then h else push_free p h)"
    using l d free_not_list [OF l, of p] links_push [OF l, of p] by auto
  moreover have "successively ?P (xs @ p # ys)"
    using s u by (cases ys) (auto simp: successively_append_iff successively_Cons)
  ultimately show ?thesis using f a by (auto simp: mh_rep_def mh_free_def free_bytes_def)
qed

text \<open>Up to the test of the right neighbour.\<close>

lemma unmark:
  fixes a :: u32
  assumes l: "mh_links t (xs @ i # ys) fs h"
  defines "h' \<equiv> (set_magic i (item_magic h i AND NOT RT_MEMHEAP_USED) h)\<lparr>available_size := a\<rparr>"
  shows "mh_links t (xs @ i # ys) fs h'" "\<And>b. mused h' b = (b \<noteq> i \<and> mused h b)" "blk h' = blk h" "available_size h' = a"
    "MEMITEM_SIZE h' = MEMITEM_SIZE h"
proof -
  note D = mh_linksD [OF l]
  show "mh_links t (xs @ i # ys) fs h'"
    unfolding h'_def links_same using D(4) [of i] D(11) by (intro links_magic l) (auto simp: magic_bits item_ok_def)
  show "\<And>b. mused h' b = (b \<noteq> i \<and> mused h b)" by (auto simp: h'_def mused_set_magic magic_bits)
  show "blk h' = blk h" "available_size h' = a" "MEMITEM_SIZE h' = MEMITEM_SIZE h" by (simp_all add: h'_def)
qed

lemma unmark_mid:
  assumes rep: "mh_rep t (xs @ i # ys) fs h" and ui: "mused h i" and le: "mused h (last (t # xs))"
  defines "h2 \<equiv> (set_magic i (item_magic h i AND NOT RT_MEMHEAP_USED) h)\<lparr>available_size := available_size h + MEMITEM_SIZE h i\<rparr>"
  shows "mh_mid False t xs i ys fs h2"
proof -
  have R: "mh_links t (xs @ i # ys) fs h" "mh_free (xs @ i # ys) fs h"
    "successively (\<lambda>a b. mused h a \<or> mused h b) (xs @ i # ys)" "available_size h = free_bytes h fs"
    and d: "distinct fs" using rep by (auto simp: mh_rep_def mh_links_def ring_def)
  note U = unmark [OF R(1), where a = "available_size h + MEMITEM_SIZE h i", folded h2_def] and ds = mh_linksD(11) [OF R(1)]
  have s: "successively (\<lambda>a b. mused h a \<or> mused h b) xs" "successively (\<lambda>a b. mused h a \<or> mused h b) ys"
    using R(3) by (auto simp: successively_append_iff successively_Cons)
  have "successively (\<lambda>a b. mused h2 a \<or> mused h2 b) xs" "successively (\<lambda>a b. mused h2 a \<or> mused h2 b) ys"
    by (rule succ_used_mono [OF s(1)]; use U(2) ds in auto) (rule succ_used_mono [OF s(2)]; use U(2) ds in auto)
  moreover have "xs \<noteq> [] \<Longrightarrow> mused h2 (last xs)" using U(2) le ds last_in_set [of xs] by auto
  moreover have "mh_free (xs @ i # ys) (i # fs) h2" using R(2) U(2) ui by (auto simp: mh_free_def)
  moreover have "i \<notin> set fs" using R(2) ui by (auto simp: mh_free_def)
  moreover have "free_bytes h2 (i # fs) = free_bytes h (i # fs)" using U(5) by (simp add: free_bytes_def)
  ultimately show ?thesis
    using U(1,2,4) d R(4) by (auto simp: mh_mid_def successively_append_iff)
qed

lemma merge_left_mid:
  assumes rep: "mh_rep t (xs @ q # i # ys) fs h" and ui: "mused h i" and uq: "\<not> mused h q"
  defines "h2 \<equiv> (set_magic i (item_magic h i AND NOT RT_MEMHEAP_USED) h)\<lparr>available_size := available_size h + MEMITEM_SIZE h i\<rparr>"
  shows "\<exists>h3. merge_left i h2 = (q, h3) \<and> mh_mid True t xs q ys fs h3 \<and> blk h3 = cut q (hd (ys @ [t])) (blk h) \<and>
    (\<forall>b. mused h3 b = (b \<noteq> i \<and> mused h b))"
proof -
  let ?P = "\<lambda>h a b. mused h a \<or> mused h b"
  have R: "mh_links t ((xs @ [q]) @ i # ys) fs h" "mh_free (xs @ q # i # ys) fs h"
    "successively (?P h) (xs @ q # i # ys)" "available_size h = free_bytes h fs"
    and d: "distinct fs" using rep by (auto simp: mh_rep_def mh_links_def ring_def)
  note U = unmark [OF R(1), where a = "available_size h + MEMITEM_SIZE h i", folded h2_def] and ds = mh_linksD(11) [OF R(1)]
  note I = item_facts [OF R(1)]
  have iq: "prv (blk h) i = q" "nxt (blk h) i = hd (ys @ [t])" "nxt (blk h) q = i"
    using I(1,2) item_facts(1) [of t xs q "i # ys" fs h] R(1) by auto
  define h3 where "h3 = h2\<lparr>available_size := available_size h2 + 24, blk := cut q (hd (ys @ [t])) (blk h)\<rparr>"
  have "hd (ys @ [t]) \<noteq> i" using ds by (cases ys) auto
  then have m: "merge_left i h2 = (q, h3)"
    using ds by (simp add: merge_left_def Let_def set_cut U(3) iq h3_def cut_def)
  have mu: "mused h3 b = (b \<noteq> i \<and> mused h b)" for b unfolding h3_def using U(2) by (simp add: RT_MEMHEAP_IS_USED_def)
  have "mh_links t ((xs @ [q]) @ ys) fs (h2\<lparr>blk := cut (prv (blk h2) i) (nxt (blk h2) i) (blk h2)\<rparr>)"
    using U(1) by (intro links_cut) simp_all
  then have l: "mh_links t (xs @ q # ys) fs h3" by (simp add: h3_def U(3) iq mh_links_def)
  have f: "mh_free (xs @ q # ys) fs h3"
    unfolding mh_free_def mu R(2) [unfolded mh_free_def] using ui ds by auto
  have qf: "q \<in> set fs" using R(2) uq by (auto simp: mh_free_def)
  have s: "successively (?P h) (xs @ [q])" "successively (?P h) ys"
    using R(3) by (auto simp: successively_append_iff successively_Cons)
  have s3: "successively (?P h3) (xs @ [q])" "successively (?P h3) ys"
    by (rule succ_used_mono [OF s(1)]; use mu ds in auto) (rule succ_used_mono [OF s(2)]; use mu ds in auto)
  have "i \<notin> set fs" using R(2) ui by (auto simp: mh_free_def)
  then have "free_bytes h3 fs = free_bytes h fs + (24 + MEMITEM_SIZE h i)"
    using d qf iq by (intro free_bytes_grow [where q = q]) (auto simp: h3_def MEMITEM_SIZE_def cut_def)
  then have "available_size h3 = free_bytes h3 fs" using R(4) U(4) by (simp add: h3_def)
  then have "mh_mid True t xs q ys fs h3" using l f d mu uq s3 by (simp add: mh_mid_def)
  then show ?thesis using m mu by (auto simp: h3_def)
qed

text \<open>The outcome of a release of the item \<open>i\<close>.\<close>

definition mh_released :: "u32 \<Rightarrow> u32 \<Rightarrow> u32 list \<Rightarrow> rt_memheap \<Rightarrow> rt_memheap \<Rightarrow> bool" where
  "mh_released t i bs h h' \<longleftrightarrow>
     (\<exists>bs' fs'. mh_rep t bs' fs' h' \<and> used_items h' bs' = used_items h bs - {i} \<and>
       (\<forall>b \<in> used_items h bs - {i}. nxt (blk h') b = nxt (blk h) b))"

lemma mid_released:
  assumes m: "mh_mid left t xs p ys fs h"
    and h': "h' = (let h4 = (if \<not> mused h (nxt (blk h) p) then merge_right p h else h) in if left then h4 else push_free p h4)"
  shows "\<exists>bs' fs'. mh_rep t bs' fs' h' \<and> used_items h' bs' = used_items h (xs @ p # ys) \<and>
    (\<forall>b \<in> used_items h (xs @ p # ys). nxt (blk h') b = nxt (blk h) b)"
proof -
  have l: "mh_links t (xs @ p # ys) fs h" and up: "\<not> mused h p" using m by (auto simp: mh_mid_def)
  have nx: "nxt (blk h) p = hd (ys @ [t])" using item_facts(1) [OF l] .
  show ?thesis
  proof (cases "mused h (hd (ys @ [t]))")
    case True
    then have e: "h' = (if left then h else push_free p h)" using h' nx by (simp add: Let_def)
    then have "used_items h' (xs @ p # ys) = used_items h (xs @ p # ys)" "blk h' = blk h" by (auto simp: used_items_def)
    then show ?thesis using mid_rep [OF m True] e by metis
  next
    case False
    then obtain n zs where ys: "ys = n # zs" and un: "\<not> mused h n" using mh_linksD(5) [OF l] by (cases ys) auto
    let ?h4 = "merge_right p h"
    have l2: "mh_links t (xs @ p # n # zs) fs h" using l ys by simp
    note M = merge_right_eq [OF l2]
    have e: "h' = (if left then ?h4 else push_free p ?h4)" using h' nx False by (simp add: Let_def)
    obtain fs' where m': "mh_mid left t xs p zs fs' ?h4" using merge_right_mid [OF m [unfolded ys] un] by blast
    have mu: "mused ?h4 = mused h" unfolding M(1) by (simp add: RT_MEMHEAP_IS_USED_def fun_eq_iff)
    have "successively (\<lambda>a b. mused h a \<or> mused h b) (n # zs)" using m ys by (simp add: mh_mid_def)
    then have "mused ?h4 (hd (zs @ [t]))" using un mh_linksD(5) [OF l] by (cases zs) (simp_all add: mu)
    note R = mid_rep [OF m' this, folded e]
    have "blk h' = cut p (hd (zs @ [t])) (blk h)" "mused h' = mused h" using e mu by (auto simp: M(1))
    then have "used_items h' (xs @ p # zs) = used_items h (xs @ p # ys)"
      "\<forall>b \<in> used_items h (xs @ p # ys). nxt (blk h') b = nxt (blk h) b"
      using up un ys by (auto simp: used_items_def cut_def)
    then show ?thesis using R by blast
  qed
qed

lemma memheap_free_rep:
  assumes rep: "mh_rep t bs fs h" and i: "i \<in> used_items h bs"
  shows "mh_released t i bs h (memheap_free_locked i h)"
proof -
  have "i \<in> set bs" and ui: "mused h i" using i by (auto simp: used_items_def)
  then obtain xs ys where e: "bs = xs @ i # ys" by (auto dest: split_list)
  have l: "mh_links t (xs @ i # ys) fs h" using rep e by (simp add: mh_rep_def)
  define h2 where "h2 = (set_magic i (item_magic h i AND NOT RT_MEMHEAP_USED) h)\<lparr>available_size := available_size h + MEMITEM_SIZE h i\<rparr>"
  note U = unmark [OF l, where a = "available_size h + MEMITEM_SIZE h i", folded h2_def] and ds = mh_linksD(11) [OF l]
  have pv: "prv (blk h) i = last (t # xs)" using item_facts(2) [OF l] .
  have "last (t # xs) \<noteq> i" using ds by auto
  then have le: "mused h2 (prv (blk h2) i) = mused h (last (t # xs))" using U(2,3) pv by simp
  show ?thesis
  proof (cases "mused h (last (t # xs))")
    case True
    have h': "memheap_free_locked i h =
        (let h4 = (if \<not> mused h2 (nxt (blk h2) i) then merge_right i h2 else h2) in if False then h4 else push_free i h4)"
      using True le by (simp add: memheap_free_locked_def Let_def h2_def)
    have m: "mh_mid False t xs i ys fs h2" using unmark_mid [OF rep [unfolded e] ui True] by (simp add: h2_def)
    note R = mid_released [OF m h']
    have "used_items h2 (xs @ i # ys) = used_items h bs - {i}" using U(2) e by (auto simp: used_items_def)
    then show ?thesis using R U(3) unfolding mh_released_def by metis
  next
    case False
    then obtain zs q where xs: "xs = zs @ [q]" and uq: "\<not> mused h q"
      using mh_linksD(5) [OF l] by (cases xs rule: rev_cases) auto
    obtain h3 where h3: "merge_left i h2 = (q, h3)" "mh_mid True t zs q ys fs h3" "blk h3 = cut q (hd (ys @ [t])) (blk h)"
      "\<forall>b. mused h3 b = (b \<noteq> i \<and> mused h b)"
      using merge_left_mid [of t zs q i ys fs h] rep e xs ui uq unfolding h2_def by auto
    have h': "memheap_free_locked i h =
        (let h4 = (if \<not> mused h3 (nxt (blk h3) q) then merge_right q h3 else h3) in if True then h4 else push_free q h4)"
      using False le h3(1) by (simp add: memheap_free_locked_def Let_def h2_def)
    have u: "used_items h3 (zs @ q # ys) = used_items h bs - {i}" using h3(4) e xs uq by (auto simp: used_items_def)
    moreover have "\<forall>b \<in> used_items h bs - {i}. nxt (blk h3) b = nxt (blk h) b" using h3(3) uq by (auto simp: used_items_def cut_def)
    ultimately show ?thesis using mid_released [OF h3(2) h'] unfolding mh_released_def by metis
  qed
qed

subsection \<open>The heap as an allocator\<close>

definition mh_tail :: "rt_memheap \<Rightarrow> u32" where "mh_tail h = prv (blk h) (start_addr h)"

definition mh_items :: "rt_memheap \<Rightarrow> u32 list" where "mh_items h = nodes_of (blk h) (mh_tail h)"

definition mh_inv :: "u32 \<Rightarrow> u32 \<Rightarrow> rt_memheap \<Rightarrow> bool" where
  "mh_inv t a h \<longleftrightarrow> start_addr h = a \<and> (\<exists>bs fs. mh_rep t bs fs h)"

definition mh_live :: "rt_memheap \<Rightarrow> u32 set" where
  "mh_live h = {p. p - RT_MEMHEAP_SIZE \<in> used_items h (mh_items h)}"

definition mh_region :: "rt_memheap \<Rightarrow> u32 \<Rightarrow> nat set" where
  "mh_region h p = {unat p ..< unat (nxt (blk h) (p - RT_MEMHEAP_SIZE))}"

definition mh_fit :: "rt_memheap \<Rightarrow> u32 \<Rightarrow> u32 \<Rightarrow> bool" where
  "mh_fit h sz p \<longleftrightarrow> 4 dvd unat p \<and> unat p + unat (memheap_size sz) \<le> unat (nxt (blk h) (p - RT_MEMHEAP_SIZE))"

definition memheap_get :: "u32 \<Rightarrow> rt_memheap \<Rightarrow> u32 option \<times> rt_memheap" where
  "memheap_get sz h = (case memheap_alloc sz h of Some r \<Rightarrow> r | None \<Rightarrow> (None, h))"

definition memheap_put :: "u32 \<Rightarrow> rt_memheap \<Rightarrow> rt_memheap" where
  "memheap_put p h = (case memheap_free p h of Some h' \<Rightarrow> h' | None \<Rightarrow> h)"

lemma mh_rep_items:
  assumes "mh_rep t bs fs h"
  shows "mh_tail h = t" "mh_items h = bs"
proof -
  have l: "mh_links t bs fs h" using assms by (simp add: mh_rep_def)
  note D = mh_linksD [OF l]
  obtain ys where bs: "bs = start_addr h # ys" using D(7,8) by (cases bs) auto
  then have "mh_links t ([] @ start_addr h # ys) fs h" using l by simp
  from item_facts(2) [OF this] show "mh_tail h = t" by (simp add: mh_tail_def)
  then show "mh_items h = bs" using ring_nodes [OF D(1)] by (simp add: mh_items_def)
qed

lemma live_mem:
  assumes "mh_rep t bs fs h"
  shows "p \<in> mh_live h \<longleftrightarrow> p - 24 \<in> used_items h bs"
  using mh_rep_items [OF assms] by (simp add: mh_live_def)

lemma region_items:
  assumes rep: "mh_rep t bs fs h" and b: "b \<in> used_items h bs" and c: "c \<in> used_items h bs" and ne: "b \<noteq> c"
  shows "unat (nxt (blk h) b) \<le> unat c \<or> unat (nxt (blk h) c) \<le> unat b"
proof -
  have l: "mh_links t bs fs h" using rep by (simp add: mh_rep_def)
  have *: "unat (nxt (blk h) x) \<le> unat y" if "bs = us @ x # vs" "y \<in> set vs" for us x vs y
    using item_facts(1) [of t us x vs fs h] item_facts(4) [of t us x vs fs h y] l that
    by (cases "y = hd (vs @ [t])") (auto simp: gap_def)
  obtain us vs where e: "bs = us @ b # vs" using b by (auto simp: used_items_def dest: split_list)
  then consider "c \<in> set vs" | "c \<in> set us" using c ne by (auto simp: used_items_def)
  then show ?thesis
  proof cases
    case 2
    then obtain ws zs where "us = ws @ c # zs" by (auto dest: split_list)
    then show ?thesis using * [of ws c "zs @ b # vs" b] e by simp
  qed (use * [OF e] in blast)
qed

lemma live_addr:
  assumes rep: "mh_rep t bs fs h" and p: "p - 24 \<in> set bs"
  shows "unat p = unat (p - 24) + 24" "4 dvd unat p" "p \<noteq> 0"
proof -
  have l: "mh_links t bs fs h" using rep by (simp add: mh_rep_def)
  obtain xs ys where e: "bs = xs @ (p - 24) # ys" using p by (auto dest: split_list)
  show u: "unat p = unat (p - 24) + 24" using item_facts(7) [of t xs "p - 24" ys fs h] l e by simp
  have "4 dvd unat (p - 24)" using mh_linksD(4) [OF l, of "p - 24"] p by (simp add: item_ok_def)
  then show "4 dvd unat p" using u by simp
  show "p \<noteq> 0" using u by auto
qed

lemma memheap_free_live:
  assumes rep: "mh_rep t bs fs h" and p: "p - 24 \<in> used_items h bs"
  shows "memheap_free p h = Some (memheap_free_locked (p - 24) h)"
proof -
  have l: "mh_links t bs fs h" and b: "p - 24 \<in> set bs" using rep p by (auto simp: mh_rep_def used_items_def)
  obtain xs ys where e: "bs = xs @ (p - 24) # ys" using b by (auto dest: split_list)
  have "nxt (blk h) (p - 24) \<in> set (t # bs)" using item_facts(1) [of t xs "p - 24" ys fs h] l e by (cases ys) auto
  then have "item_ok h (p - 24)" "item_ok h (nxt (blk h) (p - 24))" using mh_linksD(4) [OF l] b by auto
  then show ?thesis using live_addr(3) [OF rep b] p by (auto simp: memheap_free_def item_ok_def rt_assert_def used_items_def)
qed

lemma start_same [simp]:
  "start_addr (memheap_take sz i f h) = start_addr h" "start_addr (merge_right p h) = start_addr h"
  "start_addr (memheap_free_locked i h) = start_addr h"
  by (simp_all add: memheap_take_def merge_right_def merge_left_def memheap_free_locked_def Let_def)

lemma memheap_alloc_law:
  assumes rep: "mh_rep t bs fs h" and a: "memheap_alloc sz h = Some (Some p, h')"
  shows "mh_inv t (start_addr h) h'" "p \<notin> mh_live h" "mh_live h' = insert p (mh_live h)" "mh_fit h' sz p"
    "\<And>c. c \<in> mh_live h \<Longrightarrow> mh_region h' c = mh_region h c"
proof -
  have m: "p - 24 \<in> set fs" "mh_taken t (memheap_size sz) (p - 24) bs h h'" using a memheap_alloc_rep [OF rep, of sz] by auto
  then obtain bs' fs' where R: "mh_rep t bs' fs' h'" "used_items h' bs' = insert (p - 24) (used_items h bs)"
    "\<And>b. b \<in> used_items h bs \<Longrightarrow> nxt (blk h') b = nxt (blk h) b"
    "unat (p - 24) + 24 + unat (memheap_size sz) \<le> unat (nxt (blk h') (p - 24))"
    by (auto simp: mh_taken_def)
  have "p - 24 \<in> used_items h' bs'" using R(2) by simp
  then have "p - 24 \<in> set bs'" by (simp add: used_items_def)
  note A = live_addr [OF R(1) this]
  show "p \<notin> mh_live h" using m(1) rep live_mem [OF rep] by (auto simp: mh_rep_def mh_free_def used_items_def)
  show "mh_live h' = insert p (mh_live h)" using R(2) live_mem [OF rep] live_mem [OF R(1)] by (auto simp: diff_eq_eq)
  show "mh_region h' c = mh_region h c" if "c \<in> mh_live h" for c using that R(3) live_mem [OF rep] by (simp add: mh_region_def)
  show "mh_fit h' sz p" using R(4) A by (simp add: mh_fit_def)
  have "start_addr h' = start_addr h"
    using a by (auto simp: memheap_alloc_def memheap_alloc_locked_def bind_eq_Some_conv split: if_splits)
  then show "mh_inv t (start_addr h) h'" using R(1) by (auto simp: mh_inv_def)
qed

lemma memheap_free_law:
  assumes rep: "mh_rep t bs fs h" and p: "p \<in> mh_live h"
  shows "\<exists>h'. memheap_free p h = Some h' \<and> mh_inv t (start_addr h) h' \<and> mh_live h' = mh_live h - {p} \<and>
    (\<forall>c \<in> mh_live h - {p}. mh_region h' c = mh_region h c)"
proof -
  have u: "p - 24 \<in> used_items h bs" using p live_mem [OF rep] by blast
  obtain h' where e: "memheap_free p h = Some h'" "start_addr h' = start_addr h" "mh_released t (p - 24) bs h h'"
    using memheap_free_live [OF rep u] memheap_free_rep [OF rep u] by simp
  then obtain bs' fs' where R: "mh_rep t bs' fs' h'" "used_items h' bs' = used_items h bs - {p - 24}"
    "\<forall>b \<in> used_items h bs - {p - 24}. nxt (blk h') b = nxt (blk h) b" by (auto simp: mh_released_def)
  have "mh_live h' = mh_live h - {p}" using R(2) live_mem [OF rep] live_mem [OF R(1)] by (auto simp: diff_eq_eq)
  then show ?thesis using R(1,3) e live_mem [OF rep] by (auto simp: mh_inv_def mh_region_def diff_eq_eq)
qed

interpretation mh: allocator "mh_inv t a" mh_live mh_region mh_fit memheap_get memheap_put for t a
proof (unfold_locales, goal_cases)
  case (1 h p q)
  then obtain bs fs where rep: "mh_rep t bs fs h" by (auto simp: mh_inv_def)
  have u: "p - 24 \<in> used_items h bs" "q - 24 \<in> used_items h bs" "p - 24 \<noteq> q - 24" using 1 live_mem [OF rep] by auto
  then have "p - 24 \<in> set bs" "q - 24 \<in> set bs" by (auto simp: used_items_def)
  note A = live_addr(1) [OF rep this(1)] live_addr(1) [OF rep this(2)]
  show ?case using region_items [OF rep u] A by (auto simp: mh_region_def)
next
  case (2 h sz p h')
  then obtain bs fs where rep: "mh_rep t bs fs h" and a: "start_addr h = a" by (auto simp: mh_inv_def)
  have "memheap_alloc sz h = Some (Some p, h')" using 2 memheap_alloc_rep [OF rep, of sz] by (auto simp: memheap_get_def)
  then show ?case using memheap_alloc_law [OF rep] a by blast
next
  case (3 h sz h')
  then obtain bs fs where rep: "mh_rep t bs fs h" by (auto simp: mh_inv_def)
  then have "h' = h" using 3 memheap_alloc_rep [OF rep, of sz] by (auto simp: memheap_get_def)
  then show ?case using 3 by simp
next
  case (4 h p)
  then obtain bs fs where rep: "mh_rep t bs fs h" and "start_addr h = a" by (auto simp: mh_inv_def)
  then show ?case using memheap_free_law [OF rep 4(2)] by (auto simp: memheap_put_def)
qed

subsection \<open>Initialization\<close>

text \<open>The pool that \<open>rt_memheap_init\<close> is given: aligned, large enough for one item and the end, not across
  the end of the address space, and apart from the object that holds the header of the free ring.\<close>

definition mh_pool :: "u32 \<Rightarrow> u32 \<Rightarrow> u32 \<Rightarrow> bool" where
  "mh_pool hdr start sz \<longleftrightarrow>
     4 dvd unat start \<and> 0 < unat start \<and> 60 \<le> unat sz \<and> unat start + unat sz < 2 ^ 32 \<and>
     (unat hdr < unat start \<or> unat start + unat sz \<le> unat hdr)"

definition mh_end :: "u32 \<Rightarrow> u32 \<Rightarrow> u32" where
  "mh_end start sz = start + (RT_ALIGN_DOWN sz RT_ALIGN_SIZE - 2 * RT_MEMHEAP_SIZE) + RT_MEMHEAP_SIZE"

lemma mh_end_facts:
  assumes "mh_pool hdr start sz"
  shows "unat (mh_end start sz) = unat start + unat sz div 4 * 4 - 24" "4 dvd unat (mh_end start sz)"
    "gap start (mh_end start sz)" "unat (mh_end start sz) + 24 < 2 ^ 32"
    "mh_end start sz \<noteq> start" "mh_end start sz \<noteq> hdr" "start \<noteq> hdr" "hdr \<noteq> start"
    "unat hdr < unat start \<or> unat (mh_end start sz) < unat hdr"
proof -
  let ?n = "unat sz div 4 * 4"
  have n: "unat (RT_ALIGN_DOWN sz 4) = ?n" "?n \<le> unat sz" "60 \<le> ?n" using assms(1) by (auto simp: unat_ALIGN_DOWN mh_pool_def)
  then have "unat (RT_ALIGN_DOWN sz 4 - 24) = ?n - 24" using unat_sub [of 24 "RT_ALIGN_DOWN sz 4"] by (simp add: word_le_nat_alt)
  moreover have "unat start + (?n - 24) < 2 ^ 32" using n assms(1) unfolding mh_pool_def by linarith
  moreover have "mh_end start sz = start + (RT_ALIGN_DOWN sz 4 - 24)" by (simp add: mh_end_def)
  ultimately show u: "unat (mh_end start sz) = unat start + ?n - 24"
    using n unat_add_small [of start "RT_ALIGN_DOWN sz 4 - 24"] by simp
  have "4 dvd unat start + ?n - 24" using assms(1) by (auto simp: mh_pool_def intro!: dvd_diff_nat)
  then show "4 dvd unat (mh_end start sz)" unfolding u .
  show g: "gap start (mh_end start sz)" "unat (mh_end start sz) + 24 < 2 ^ 32"
    "unat hdr < unat start \<or> unat (mh_end start sz) < unat hdr"
    using n assms(1) u unfolding mh_pool_def gap_def by linarith+
  then show "mh_end start sz \<noteq> start" "mh_end start sz \<noteq> hdr" "start \<noteq> hdr" "hdr \<noteq> start" by (auto simp: gap_def)
qed

lemma memheap_init_rep:
  fixes h :: rt_memheap
  assumes p: "mh_pool hdr start sz"
  defines "h' \<equiv> memheap_init hdr start sz h"
  shows "mh_rep (mh_end start sz) [start] [start] h'" "start_addr h' = start" "\<not> mused h' start"
    "available_size h' = RT_ALIGN_DOWN sz 4 - 48" "pool_size h' = RT_ALIGN_DOWN sz 4"
proof -
  define t where "t = mh_end start sz"
  note T = mh_end_facts [OF p, folded t_def]
  note i' = h'_def [unfolded memheap_init_def Let_def, folded mh_end_def, folded t_def]
  show h': "start_addr h' = start" "available_size h' = RT_ALIGN_DOWN sz 4 - 48" "pool_size h' = RT_ALIGN_DOWN sz 4"
    by (simp_all add: i' new_item_def set_magic_def push_free_def clear_free_def)
  have fl: "free_list h' = hdr" "heap_addr h' = heap_addr h"
    by (simp_all add: i' new_item_def set_magic_def push_free_def clear_free_def)
  have b: "nxt (blk h') start = t" "prv (blk h') start = t" "nxt (blk h') t = start" "prv (blk h') t = start"
    using T(5-8) by (simp_all add: i')
  have f: "nxt (frees h') hdr = start" "prv (frees h') hdr = start" "nxt (frees h') start = hdr" "prv (frees h') start = hdr"
    using T(5-8) by (simp_all add: i' clear_free_def push_free_def rt_list_init_def)
  have "item_magic h' start = RT_MEMHEAP_MAGIC" "item_magic h' t = RT_MEMHEAP_MAGIC OR RT_MEMHEAP_USED"
    "item_pool h' start = heap_addr h" "item_pool h' t = heap_addr h"
    using T(5-8) by (simp_all add: i' new_item_def set_magic_def push_free_def clear_free_def)
  then have "item_ok h' start" "item_ok h' t" "mused h' t" and u: "\<not> mused h' start"
    using T(2) p fl(2) by (simp_all add: item_ok_def RT_MEMHEAP_IS_USED_def mh_pool_def)
  moreover have "ring (blk h') t [start]" "ring (frees h') hdr [start]" using b f T(5-8) by (auto simp: ring_def)
  ultimately have "mh_links t [start] [start] h'" using T(3,4,9) p h'(1) fl by (auto simp: mh_links_def mh_pool_def)
  moreover have "free_bytes h' [start] = RT_ALIGN_DOWN sz 4 - 48" using b by (simp add: MEMITEM_SIZE_def t_def mh_end_def)
  ultimately show "mh_rep (mh_end start sz) [start] [start] h'" using h' u by (auto simp: mh_rep_def mh_free_def t_def)
  show "\<not> mused h' start" by (rule u)
qed

text \<open>A heap with no item in use is one free item, since two neighbours are never both free.\<close>

lemma unused_whole:
  assumes rep: "mh_rep t bs fs h" and "used_items h bs = {}"
  shows "bs = [start_addr h]" "fs = [start_addr h]" "available_size h = t - start_addr h - 24"
proof -
  have R: "mh_links t bs fs h" "set fs = set bs" "successively (\<lambda>a b. mused h a \<or> mused h b) bs" "available_size h = free_bytes h fs"
    and d: "distinct fs" using assms by (auto simp: mh_rep_def mh_free_def mh_links_def ring_def used_items_def)
  note D = mh_linksD [OF R(1)]
  show b: "bs = [start_addr h]"
    using D(7,8) R(3) assms(2) by (cases bs rule: remdups_adj.cases) (auto simp: used_items_def)
  then have "set fs = {start_addr h}" using R(2) by simp
  then show f: "fs = [start_addr h]" using d by (cases fs; cases "tl fs") auto
  have "nxt (blk h) (start_addr h) = t" using item_facts(1) [of t "[]" "start_addr h" "[]" fs h] R(1) b by simp
  then show "available_size h = t - start_addr h - 24" using R(4) f by (simp add: MEMITEM_SIZE_def)
qed

subsection \<open>Properties\<close>

lemma live_bounds:
  assumes rep: "mh_rep t bs fs h" and p: "p \<in> mh_live h"
  shows "mh_region h p \<subseteq> {unat (start_addr h) + 24 ..< unat t + 1}"
proof -
  have u: "p - 24 \<in> set bs" using p live_mem [OF rep] by (simp add: used_items_def)
  then obtain xs ys where e: "bs = xs @ (p - 24) # ys" by (auto dest: split_list)
  have l: "mh_links t (xs @ (p - 24) # ys) fs h" using rep e by (simp add: mh_rep_def)
  note I = item_facts [OF l]
  have "unat (start_addr h) \<le> unat (p - 24)"
    using mh_linksD(8) [OF l] I(5) [of "start_addr h"] by (cases xs) (auto simp: gap_def)
  then show ?thesis using I(1,8) live_addr(1) [OF rep u] by (auto simp: mh_region_def)
qed

definition mh_example :: rt_memheap where
  "mh_example =
     \<lparr>heap_addr = 0x20000000, start_addr = 0, pool_size = 0, available_size = 0, max_used_size = 0, block_list = 0, free_list = 0,
      item_magic = (\<lambda>_. 0), item_pool = (\<lambda>_. 0), blk = \<lparr>nxt = (\<lambda>_. 0), prv = (\<lambda>_. 0)\<rparr>, frees = \<lparr>nxt = (\<lambda>_. 0), prv = (\<lambda>_. 0)\<rparr>,
      pool_bytes = (\<lambda>_. 0)\<rparr>"

lemmas mh_eval = mh_example_def memheap_init_def memheap_get_def memheap_alloc_def memheap_size_def memheap_alloc_locked_def
  memheap_search.simps memheap_take_def MEMITEM_SIZE_def RT_ALIGN_def RT_ALIGN_DOWN_def link_item_def new_item_def set_magic_def
  count_max_def push_free_def take_free_def clear_free_def rt_list_init_def set_next_def set_prev_def Let_def

text \<open>C23: Over every sequence of \<open>rt_memheap_alloc\<close> and \<open>rt_memheap_free\<close> on a memory heap that was initialized on a
  usable pool, where only blocks that are held are released, the blocks held are disjoint and inside the pool, every
  further allocation and every release of a held block returns, and when nothing is held any more the
  pool is one free item again, with all its bytes available.\<close>

theorem memheap_blocks_disjoint:
  assumes pool: "mh_pool hdr start sz"
    and run: "client_run memheap_get memheap_put ops (memheap_init hdr start sz h, []) = (h', held)"
  shows "(\<forall>i < length held. \<forall>j < length held. i \<noteq> j \<longrightarrow> mh_region h' (held ! i) \<inter> mh_region h' (held ! j) = {}) \<and>
    (\<forall>p \<in> set held. mh_region h' p \<subseteq> {unat start + 24 ..< unat start + unat sz}) \<and>
    (\<forall>r. memheap_alloc r h' \<noteq> None) \<and> (\<forall>p \<in> set held. memheap_free p h' \<noteq> None) \<and>
    (held = [] \<longrightarrow> mh_items h' = [start] \<and> available_size h' = RT_ALIGN_DOWN sz RT_ALIGN_SIZE - 2 * RT_MEMHEAP_SIZE)"
proof -
  let ?t = "mh_end start sz"
  note init = memheap_init_rep [OF pool, of h]
  have i: "mh_inv ?t start (memheap_init hdr start sz h)" using init(1,2) by (auto simp: mh_inv_def)
  have "set [] = mh_live (memheap_init hdr start sz h)"
    using init(3) by (auto simp: live_mem [OF init(1)] used_items_def)
  note H = mh.run_holds [OF i _ this run] and D = mh.run_disjoint [OF i _ this run]
  obtain bs fs where rep: "mh_rep ?t bs fs h'" and s: "start_addr h' = start" using H by (auto simp: mh_inv_def)
  have e: "unat ?t + 1 \<le> unat start + unat sz"
  proof -
    have "unat sz div 4 * 4 \<le> unat sz" "0 < unat start" using pool by (auto simp: mh_pool_def)
    then show ?thesis using mh_end_facts(1) [OF pool] by linarith
  qed
  have "mh_region h' p \<subseteq> {unat start + 24 ..< unat start + unat sz}" if "p \<in> set held" for p
    using live_bounds [OF rep, of p] that H s e by fastforce
  moreover have "memheap_alloc r h' \<noteq> None" for r using memheap_alloc_rep [OF rep, of r] by auto
  moreover have "memheap_free p h' \<noteq> None" if "p \<in> set held" for p using memheap_free_law [OF rep, of p] that H by auto
  moreover have "mh_items h' = [start] \<and> available_size h' = RT_ALIGN_DOWN sz 4 - 48" if "held = []"
  proof -
    have "mh_live h' = {}" using H that by simp
    then have "used_items h' bs = {}" using live_mem [OF rep] by (metis add_diff_cancel_right' empty_iff subsetI subset_empty)
    from unused_whole [OF rep this] show ?thesis using s mh_rep_items(2) [OF rep] by (simp add: mh_end_def)
  qed
  ultimately show ?thesis using D by simp
qed

lemma memheap_blocks_disjoint_witness:
  "mh_pool 0x20000008 0x20001000 0x400 \<and>
   (\<exists>h'. client_run memheap_get memheap_put [Alloc 100, Alloc 50] (memheap_init 0x20000008 0x20001000 0x400 mh_example, []) =
      (h', [0x20001094, 0x20001018]) \<and> mh_region h' 0x20001094 \<inter> mh_region h' 0x20001018 = {})"
proof -
  have p: "mh_pool 0x20000008 0x20001000 0x400" by (simp add: mh_pool_def)
  obtain h' where r: "client_run memheap_get memheap_put [Alloc 100, Alloc 50] (memheap_init 0x20000008 0x20001000 0x400 mh_example, []) =
      (h', [0x20001094, 0x20001018])" by (simp add: mh_eval)
  note T = conjunct1 [OF memheap_blocks_disjoint [OF p r], rule_format, of 0 1]
  then show ?thesis using p r by (intro conjI exI [of _ h']) simp_all
qed

end
