(* ===== verification/Mem_Heap_Realloc.thy ===== *)
theory Mem_Heap_Realloc
  imports Mem_Heap
begin

text \<open>
  \<open>rt_memheap_realloc\<close> of \<open>src/memheap.c\<close>: growing a block into the free item that follows, cutting off its
  end, or moving it. The theory shows that each of the three keeps the heap well formed, the contents
  of the block, and every other block; and that the comparison before growing wraps around for the
  largest sizes.
\<close>

subsection \<open>Operations\<close>

text \<open>The parts of \<open>rt_memheap_realloc\<close> under the lock: growing into a free item that follows, which may
  not be possible, and cutting off the end.\<close>

definition memheap_grow :: "u32 \<Rightarrow> u32 \<Rightarrow> rt_memheap \<Rightarrow> (bool \<times> rt_memheap) option" where
  "memheap_grow header newsize h =
     (let oldsize = MEMITEM_SIZE h header; nx = nxt (blk h) header
      in do {
        rt_assert (nx > header);
        if \<not> RT_MEMHEAP_IS_USED h nx \<and> MEMITEM_SIZE h nx + oldsize > newsize + RT_MEMHEAP_MINIALLOC
        then let h1 = take_free nx (count_max (h\<lparr>available_size := available_size h - (newsize - oldsize)\<rparr>));
                 b1 = set_prev (nxt (blk h1) nx) (prv (blk h1) nx) (blk h1);
                 b2 = set_next (prv b1 nx) (nxt b1 nx) b1;
                 new = header + RT_MEMHEAP_SIZE + newsize
             in Some (True, push_free new (link_item header new (new_item new (h1\<lparr>blk := b2\<rparr>))))
        else Some (False, h)
      })"

definition memheap_shrink :: "u32 \<Rightarrow> u32 \<Rightarrow> rt_memheap \<Rightarrow> rt_memheap" where
  "memheap_shrink header newsize h =
     (let new = header + newsize + RT_MEMHEAP_SIZE;
          h1 = link_item header new (new_item new h);
          fp = nxt (blk h1) new;
          h2 = (if \<not> RT_MEMHEAP_IS_USED h1 fp
                then let h3 = h1\<lparr>available_size := available_size h1 - MEMITEM_SIZE h1 fp\<rparr>;
                         b1 = set_prev (nxt (blk h3) fp) new (blk h3)
                     in take_free fp (h3\<lparr>blk := set_next new (nxt b1 fp) b1\<rparr>)
                else h1);
          h4 = push_free new h2
      in h4\<lparr>available_size := available_size h4 + MEMITEM_SIZE h4 new\<rparr>)"

definition pool_copy :: "u32 \<Rightarrow> u32 \<Rightarrow> u32 \<Rightarrow> rt_memheap \<Rightarrow> rt_memheap" where
  "pool_copy dst src n h =
     h\<lparr>pool_bytes := (\<lambda>x. if unat (x - dst) < unat n then pool_bytes h (src + (x - dst)) else pool_bytes h x)\<rparr>"

definition memheap_realloc :: "u32 \<Rightarrow> u32 \<Rightarrow> rt_memheap \<Rightarrow> (u32 option \<times> rt_memheap) option" where
  "memheap_realloc p newsize h =
     (if newsize = 0 then do { h1 \<leftarrow> memheap_free p h; Some (None, h1) }
      else let sz = memheap_size newsize
           in if p = 0 then memheap_alloc sz h
              else let header = p - RT_MEMHEAP_SIZE; oldsize = MEMITEM_SIZE h header
                   in if sz > oldsize
                      then do {
                        (grown, h1) \<leftarrow> memheap_grow header sz h;
                        if grown then Some (Some p, h1)
                        else do {
                          (r, h2) \<leftarrow> memheap_alloc sz h1;
                          case r of
                            None \<Rightarrow> Some (None, h2)
                          | Some q \<Rightarrow> do {
                              h3 \<leftarrow> memheap_free p (pool_copy q p (min oldsize sz) h2);
                              Some (Some q, h3)
                            }
                        }
                      }
                      else if sz + RT_MEMHEAP_SIZE + RT_MEMHEAP_MINIALLOC \<ge> oldsize then Some (Some p, h)
                      else Some (Some p, memheap_shrink header sz h))"

subsection \<open>Resizing\<close>

text \<open>Both ways of resizing an item in place put a new free item \<open>n\<close> behind it, in place of the free item
  \<open>ws\<close> that followed, if any.\<close>

lemma carve_rep:
  assumes rep: "mh_rep t (xs @ i # ws @ zs) fs h" and ui: "mused h i" and uw: "\<And>w. w \<in> set ws \<Longrightarrow> \<not> mused h w"
    and uz: "mused h (hd (zs @ [t]))" and gs: "set gs = set fs - set ws"
    and l: "mh_links t (xs @ i # n # zs) (n # gs) h'" and mu: "\<And>b. mused h' b = (b \<noteq> n \<and> mused h b)"
    and a: "available_size h' = free_bytes h' (n # gs)"
  shows "mh_rep t (xs @ i # n # zs) (n # gs) h'" "used_items h' (xs @ i # n # zs) = used_items h (xs @ i # ws @ zs)"
proof -
  let ?P = "\<lambda>h a b. mused h a \<or> mused h b"
  have R: "mh_links t (xs @ i # ws @ zs) fs h" "set fs = {b \<in> set (xs @ i # ws @ zs). \<not> mused h b}"
    "successively (?P h) (xs @ i # ws @ zs)" using rep by (auto simp: mh_rep_def mh_free_def)
  have ds: "distinct (t # xs @ i # n # zs)" and dw: "distinct (t # xs @ i # ws @ zs)"
    using mh_linksD(11) [OF l] mh_linksD(11) [OF R(1)] by auto
  have f: "mh_free (xs @ i # n # zs) (n # gs) h'" using R(2) gs uw ui ds dw mu by (auto simp: mh_free_def)
  have s: "successively (?P h) xs" "successively (?P h) zs"
    using R(3) by (auto simp: successively_append_iff successively_Cons)
  have "successively (?P h') xs" "successively (?P h') zs"
    by (rule succ_used_mono [OF s(1)]; use mu ds in auto) (rule succ_used_mono [OF s(2)]; use mu ds in auto)
  moreover have "zs \<noteq> [] \<Longrightarrow> mused h' (hd zs)" "mused h' i" using uz ui mu ds by (cases zs; auto)+
  ultimately have "successively (?P h') (xs @ i # n # zs)" by (auto simp: successively_append_iff successively_Cons)
  then show "mh_rep t (xs @ i # n # zs) (n # gs) h'" using l f a by (simp add: mh_rep_def)
  show "used_items h' (xs @ i # n # zs) = used_items h (xs @ i # ws @ zs)" using mu ds uw by (auto simp: used_items_def)
qed

definition mh_resized :: "u32 \<Rightarrow> u32 \<Rightarrow> u32 \<Rightarrow> u32 list \<Rightarrow> rt_memheap \<Rightarrow> rt_memheap \<Rightarrow> bool" where
  "mh_resized t sz i bs h h' \<longleftrightarrow>
     (\<exists>bs' fs'. mh_rep t bs' fs' h' \<and> used_items h' bs' = used_items h bs \<and>
       (\<forall>b \<in> used_items h bs - {i}. nxt (blk h') b = nxt (blk h) b) \<and> unat i + 24 + unat sz \<le> unat (nxt (blk h') i))"

lemma carve_resized:
  assumes rep: "mh_rep t (xs @ i # ws @ zs) (us @ ws @ vs) h" and ui: "mused h i" and uw: "\<And>w. w \<in> set ws \<Longrightarrow> \<not> mused h w"
    and uz: "mused h (hd (zs @ [t]))" and l: "mh_links t (xs @ i # m # zs) (m # us @ vs) h'"
    and mu: "\<And>b. mused h' b = (b \<noteq> m \<and> mused h b)" and nx: "nxt (blk h') = (nxt (blk h))(i := m, m := q)"
    and a: "available_size h' = available_size h - free_bytes h ws + MEMITEM_SIZE h' m" and u: "unat m = unat i + 24 + unat sz"
  shows "mh_resized t sz i (xs @ i # ws @ zs) h h'"
proof -
  have f: "mh_free (xs @ i # ws @ zs) (us @ ws @ vs) h" "available_size h = free_bytes h (us @ ws @ vs)"
    and d: "distinct (us @ ws @ vs)" using rep by (auto simp: mh_rep_def mh_links_def ring_def)
  have gs: "set (us @ vs) = set (us @ ws @ vs) - set ws" using d by auto
  have ds: "distinct (t # xs @ i # m # zs)" and dl: "distinct (m # us @ vs)" using l by (auto simp: mh_links_def ring_def)
  have "i \<notin> set (us @ ws @ vs)" using f(1) ui by (simp add: mh_free_def)
  then have "free_bytes h' (us @ vs) = free_bytes h (us @ vs)"
    using dl by (intro free_bytes_cong) (auto simp: MEMITEM_SIZE_def nx)
  then have av: "available_size h' = free_bytes h' (m # us @ vs)" using a f(2) by simp
  note R = carve_rep [OF rep ui uw uz gs l mu av]
  have "nxt (blk h') b = nxt (blk h) b" if "b \<in> used_items h (xs @ i # ws @ zs) - {i}" for b
  proof -
    have "b \<noteq> m" using that uw ds by (auto simp: used_items_def)
    then show ?thesis using that by (simp add: nx)
  qed
  moreover have "nxt (blk h') i = m" unfolding nx using ds by simp
  ultimately show ?thesis using R u unfolding mh_resized_def by (metis order_refl)
qed

text \<open>Linking a new free item \<open>n\<close> between \<open>i\<close> and the item that follows.\<close>

lemma link_push:
  assumes l: "mh_links t (xs @ i # zs) gs h" and g: "gap i n" "gap n (hd (zs @ [t]))" and al: "4 dvd unat n" and n: "set gs \<subseteq> set (xs @ i # zs)"
  defines "h' \<equiv> push_free n (link_item i n (new_item n h))"
  shows "mh_links t (xs @ i # n # zs) (n # gs) h'" "\<And>b. mused h' b = (b \<noteq> n \<and> mused h b)"
    "nxt (blk h') = (nxt (blk h))(i := n, n := hd (zs @ [t]))" "available_size h' = available_size h" "n \<notin> set (t # xs @ i # zs)"
proof -
  note L = links_insert [OF l g al]
  show "mh_links t (xs @ i # n # zs) (n # gs) h'" unfolding h'_def using n L(3,4) by (intro links_push L(1)) auto
  show "\<And>b. mused h' b = (b \<noteq> n \<and> mused h b)" by (simp add: h'_def)
  show "nxt (blk h') = (nxt (blk h))(i := n, n := hd (zs @ [t]))" using L(2) by (simp add: h'_def list_link_def)
  show "available_size h' = available_size h" by (simp add: h'_def)
  show "n \<notin> set (t # xs @ i # zs)" by (rule L(3))
qed

lemma grow_point:
  fixes sz :: u32
  assumes l: "mh_links t (xs @ i # n # zs) fs h" and sz: "12 \<le> unat sz" "4 dvd unat sz" "unat sz + 12 < 2 ^ 32"
    and room: "sz + 12 < MEMITEM_SIZE h n + MEMITEM_SIZE h i"
  shows "unat (i + 24 + sz) = unat i + 24 + unat sz" "gap i (i + 24 + sz)" "gap (i + 24 + sz) (hd (zs @ [t]))"
    "4 dvd unat (i + 24 + sz)"
proof -
  have ln: "mh_links t ((xs @ [i]) @ n # zs) fs h" using l by simp
  note I = item_facts [OF l] and N = item_facts [OF ln] and D = mh_linksD [OF l]
  have S: "unat (MEMITEM_SIZE h i) = unat n - unat i - 24" "unat (MEMITEM_SIZE h n) = unat (hd (zs @ [t])) - unat n - 24"
    using item_size [OF l] item_size [OF ln] by auto
  have "unat (sz + 12) = unat sz + 12" using sz(3) unat_add_small [of sz 12] by simp
  moreover have "unat (MEMITEM_SIZE h n + MEMITEM_SIZE h i) \<le> unat (MEMITEM_SIZE h n) + unat (MEMITEM_SIZE h i)"
    by (simp add: unat_word_ariths)
  ultimately have r: "unat sz + 12 < (unat (hd (zs @ [t])) - unat n - 24) + (unat n - unat i - 24)"
    using room S by (simp add: word_less_nat_alt)
  then have b: "unat i + 24 + unat sz + 36 < unat (hd (zs @ [t]))" using I(3) N(3) by (simp add: gap_def)
  have "unat (hd (zs @ [t])) < 2 ^ 32" using unat_less_2p [of "hd (zs @ [t])"] by simp
  then show u: "unat (i + 24 + sz) = unat i + 24 + unat sz"
    using b I(7) unat_add_small [of "i + 24" sz] by simp
  show "gap i (i + 24 + sz)" "gap (i + 24 + sz) (hd (zs @ [t]))" using u b sz(1) by (auto simp: gap_def)
  have "4 dvd unat i" using D(4) [of i] by (simp add: item_ok_def)
  then show "4 dvd unat (i + 24 + sz)" using u sz(2) by (simp add: dvd_add)
qed

lemma grow_eq:
  assumes l: "mh_links t (xs @ i # n # zs) fs h" and un: "\<not> mused h n" and room: "sz + 12 < MEMITEM_SIZE h n + MEMITEM_SIZE h i"
  shows "memheap_grow i sz h = Some (True, push_free (i + 24 + sz) (link_item i (i + 24 + sz) (new_item (i + 24 + sz)
    ((take_free n (count_max (h\<lparr>available_size := available_size h - (sz - MEMITEM_SIZE h i)\<rparr>)))\<lparr>blk := cut i (hd (zs @ [t])) (blk h)\<rparr>))))"
proof -
  note M = merge_right_eq(2-4) [OF l]
  have "n > i" using item_facts(3) [OF l] by (simp add: gap_def word_less_nat_alt)
  moreover have "hd (zs @ [t]) \<noteq> n" using mh_linksD(11) [OF l] by (cases zs) auto
  ultimately show ?thesis using un room M
    by (simp add: memheap_grow_def rt_assert_def Let_def set_cut)
qed

lemma take_free_blk: "(take_free n h)\<lparr>blk := b\<rparr> = take_free n (h\<lparr>blk := b\<rparr>)"
  by (simp add: take_free_def Let_def)

lemma grow_resized:
  fixes sz :: u32
  assumes rep: "mh_rep t (xs @ i # n # zs) fs h" and ui: "mused h i" and un: "\<not> mused h n"
    and sz: "12 \<le> unat sz" "4 dvd unat sz" "unat sz + 12 < 2 ^ 32" and room: "sz + 12 < MEMITEM_SIZE h n + MEMITEM_SIZE h i"
  defines "h1 \<equiv> (take_free n (count_max (h\<lparr>available_size := available_size h - (sz - MEMITEM_SIZE h i)\<rparr>)))\<lparr>blk := cut i (hd (zs @ [t])) (blk h)\<rparr>"
    and "m \<equiv> i + 24 + sz"
  defines "h' \<equiv> push_free m (link_item i m (new_item m h1))"
  shows "mh_resized t sz i (xs @ i # n # zs) h h'"
proof -
  have R: "mh_links t (xs @ i # n # zs) fs h" "mh_free (xs @ i # n # zs) fs h"
    "successively (\<lambda>a b. mused h a \<or> mused h b) (xs @ i # n # zs)"
    and d: "distinct fs" using rep by (auto simp: mh_rep_def mh_links_def ring_def)
  note G = grow_point [OF R(1) sz room, folded m_def] and M = merge_right_eq(2-4) [OF R(1)]
  have "n \<in> set fs" using R(2) un by (simp add: mh_free_def)
  then obtain us vs where e: "fs = us @ n # vs" by (auto dest: split_list)
  have l1: "mh_links t (xs @ i # zs) (us @ vs) h1"
    using links_drop [of t xs i n zs us vs "count_max (h\<lparr>available_size := available_size h - (sz - MEMITEM_SIZE h i)\<rparr>)"] R(1) e
    by (simp add: h1_def take_free_blk)
  have "set (us @ vs) \<subseteq> set (xs @ i # zs)" using R(2) d e by (auto simp: mh_free_def)
  note P = link_push [OF l1 G(2-4) this, folded h'_def]
  have mu: "mused h' b = (b \<noteq> m \<and> mused h b)" for b using P(2) by (simp add: h1_def)
  have nx: "nxt (blk h') = (nxt (blk h))(i := m, m := hd (zs @ [t]))" using P(3) by (auto simp: h1_def cut_def fun_eq_iff)
  have "mused h (hd (zs @ [t]))" using R(3) un mh_linksD(5) [OF R(1)] by (cases zs) (auto simp: successively_append_iff)
  moreover have "available_size h' = available_size h - free_bytes h [n] + MEMITEM_SIZE h' m"
    using P(4,5) M by (simp add: MEMITEM_SIZE_def nx h1_def m_def)
  ultimately show ?thesis
    using carve_resized [of t xs i "[n]" zs us vs h m h' _ sz] rep e ui un P(1) mu nx G(1) by simp
qed

lemma memheap_grow_rep:
  fixes sz :: u32
  assumes rep: "mh_rep t bs fs h" and i: "i \<in> used_items h bs" and sz: "12 \<le> unat sz" "4 dvd unat sz" "unat sz + 12 < 2 ^ 32"
  shows "\<exists>ok h'. memheap_grow i sz h = Some (ok, h') \<and> (if ok then mh_resized t sz i bs h h' else h' = h)"
proof -
  have ib: "i \<in> set bs" and ui: "mused h i" using i by (auto simp: used_items_def)
  obtain xs ys where e: "bs = xs @ i # ys" using ib by (auto dest: split_list)
  have l: "mh_links t (xs @ i # ys) fs h" using rep e by (simp add: mh_rep_def)
  have nx: "nxt (blk h) i = hd (ys @ [t])" "i < hd (ys @ [t])"
    using item_facts(1,3) [OF l] by (auto simp: gap_def word_less_nat_alt)
  show ?thesis
  proof (cases "\<not> mused h (hd (ys @ [t])) \<and> sz + 12 < MEMITEM_SIZE h (hd (ys @ [t])) + MEMITEM_SIZE h i")
    case False
    then show ?thesis using nx by (auto simp: memheap_grow_def rt_assert_def Let_def)
  next
    case True
    then obtain n zs where ys: "ys = n # zs" and un: "\<not> mused h n" and room: "sz + 12 < MEMITEM_SIZE h n + MEMITEM_SIZE h i"
      using mh_linksD(5) [OF l] by (cases ys) auto
    have "mh_rep t (xs @ i # n # zs) fs h" using rep e ys by simp
    from grow_resized [OF this ui un sz room] show ?thesis using grow_eq [OF l [unfolded ys] un room] e ys by auto
  qed
qed

text \<open>Cutting off the end of an item: what follows is in use, or is free and is merged.\<close>

lemma shrink_alone:
  fixes sz :: u32
  assumes rep: "mh_rep t (xs @ i # zs) fs h" and ui: "mused h i" and uz: "mused h (hd (zs @ [t]))"
    and sz: "12 \<le> unat sz" "4 dvd unat sz" "sz \<le> MEMITEM_SIZE h i" "sz + 36 \<le> MEMITEM_SIZE h i"
  shows "mh_resized t sz i (xs @ i # zs) h (memheap_shrink i sz h)"
proof -
  have l: "mh_links t (xs @ i # zs) fs h" and f: "mh_free (xs @ i # zs) fs h" using rep by (auto simp: mh_rep_def)
  define m where "m = i + sz + 24"
  note P = split_point [OF l sz(4,1,2,3), folded m_def]
  have "set fs \<subseteq> set (xs @ i # zs)" using f by (auto simp: mh_free_def)
  note L = link_push [OF l P(2-4) this]
  define h1 where "h1 = push_free m (link_item i m (new_item m h))"
  define h' where "h' = h1\<lparr>available_size := available_size h1 + MEMITEM_SIZE h1 m\<rparr>"
  have nx: "nxt (blk h1) = (nxt (blk h))(i := m, m := hd (zs @ [t]))" using L(3) by (simp add: h1_def)
  have "mused (link_item i m (new_item m h)) (nxt (blk (link_item i m (new_item m h))) m)"
    using nx uz L(5) by (cases zs) (auto simp: h1_def)
  then have e: "memheap_shrink i sz h = h'" by (simp add: memheap_shrink_def Let_def h'_def h1_def m_def)
  have "mh_links t (xs @ i # m # zs) (m # [] @ fs) h'" "\<And>b. mused h' b = (b \<noteq> m \<and> mused h b)"
    "nxt (blk h') = (nxt (blk h))(i := m, m := hd (zs @ [t]))"
    "available_size h' = available_size h - free_bytes h [] + MEMITEM_SIZE h' m" "unat m = unat i + 24 + unat sz"
    using L(1,2,4) nx P(1) by (simp_all add: h'_def h1_def)
  from carve_resized [of t xs i "[]" zs "[]" fs h, OF _ ui _ uz this] show ?thesis using rep unfolding e by simp
qed

lemma shrink_merge:
  fixes sz :: u32
  assumes rep: "mh_rep t (xs @ i # n # zs) fs h" and ui: "mused h i" and un: "\<not> mused h n"
    and sz: "12 \<le> unat sz" "4 dvd unat sz" "sz \<le> MEMITEM_SIZE h i" "sz + 36 \<le> MEMITEM_SIZE h i"
  shows "mh_resized t sz i (xs @ i # n # zs) h (memheap_shrink i sz h)"
proof -
  have R: "mh_links t (xs @ i # n # zs) fs h" "mh_free (xs @ i # n # zs) fs h"
    "successively (\<lambda>a b. mused h a \<or> mused h b) (xs @ i # n # zs)" and d: "distinct fs"
    using rep by (auto simp: mh_rep_def mh_links_def ring_def)
  define m where "m = i + sz + 24"
  note P = split_point [OF R(1) sz(4,1,2,3), folded m_def]
  note L = links_insert [OF R(1) P(2-4)] and M = merge_right_eq(2-4) [OF R(1)]
  have "n \<in> set fs" using R(2) un by (simp add: mh_free_def)
  then obtain us vs where e: "fs = us @ n # vs" by (auto dest: split_list)
  define h1 where "h1 = link_item i m (new_item m h)"
  define h2 where "h2 = take_free n ((h1\<lparr>available_size := available_size h1 - MEMITEM_SIZE h1 n\<rparr>)\<lparr>blk := cut m (hd (zs @ [t])) (blk h1)\<rparr>)"
  define h3 where "h3 = push_free m h2"
  define h' where "h' = h3\<lparr>available_size := available_size h3 + MEMITEM_SIZE h3 m\<rparr>"
  have b1: "nxt (blk h1) = (nxt (blk h))(i := m, m := n)" using L(2) by (simp add: h1_def list_link_def)
  have ne: "m \<noteq> n" "n \<noteq> i" "i \<noteq> m" using L(3) mh_linksD(11) [OF R(1)] by auto
  then have x1: "nxt (blk h1) m = n" "nxt (blk h1) n = hd (zs @ [t])" "\<not> mused h1 n" using b1 M un by (auto simp: h1_def)
  have "hd (zs @ [t]) \<noteq> n" using mh_linksD(11) [OF R(1)] by (cases zs) auto
  then have eq: "memheap_shrink i sz h = h'"
    using x1 un by (simp add: memheap_shrink_def Let_def h'_def h3_def h2_def set_cut flip: h1_def m_def)
  have "mh_links t ((xs @ [i]) @ m # n # zs) (us @ n # vs) (h1\<lparr>available_size := available_size h1 - MEMITEM_SIZE h1 n\<rparr>)"
    using L(1) e by (simp add: h1_def)
  from links_drop [OF this] have l2: "mh_links t (xs @ i # m # zs) (us @ vs) h2" by (simp add: h2_def)
  have fl: "m \<noteq> free_list h2" using L(4) by (simp add: h2_def h1_def)
  have "m \<notin> set (us @ vs)" using L(3) R(2) e by (auto simp: mh_free_def)
  then have l': "mh_links t (xs @ i # m # zs) (m # us @ vs) h'" using links_push [OF l2 fl] by (simp add: h'_def h3_def)
  have mu: "mused h' b = (b \<noteq> m \<and> mused h b)" for b by (simp add: h'_def h3_def h2_def h1_def)
  have nx: "nxt (blk h') = (nxt (blk h))(i := m, m := hd (zs @ [t]))"
    using b1 by (simp add: h'_def h3_def h2_def cut_def fun_eq_iff)
  have "MEMITEM_SIZE h1 n = MEMITEM_SIZE h n" using b1 ne by (simp add: MEMITEM_SIZE_def)
  then have a: "available_size h' = available_size h - free_bytes h [n] + MEMITEM_SIZE h' m"
    by (simp add: h'_def h3_def h2_def h1_def)
  have "mused h (hd (zs @ [t]))" using R(3) un mh_linksD(5) [OF R(1)] by (cases zs) (auto simp: successively_append_iff)
  then show ?thesis
    using carve_resized [of t xs i "[n]" zs us vs h m h' _ sz] rep e ui un l' mu nx a P(1) unfolding eq by simp
qed

lemma memheap_shrink_rep:
  fixes sz :: u32
  assumes rep: "mh_rep t bs fs h" and i: "i \<in> used_items h bs"
    and sz: "12 \<le> unat sz" "4 dvd unat sz" "sz \<le> MEMITEM_SIZE h i" "sz + 36 \<le> MEMITEM_SIZE h i"
  shows "mh_resized t sz i bs h (memheap_shrink i sz h)"
proof -
  have ui: "mused h i" using i by (simp add: used_items_def)
  obtain xs ys where e: "bs = xs @ i # ys" using i by (auto simp: used_items_def dest: split_list)
  have l: "mh_links t (xs @ i # ys) fs h" using rep e by (simp add: mh_rep_def)
  show ?thesis
  proof (cases "mused h (hd (ys @ [t]))")
    case True
    then show ?thesis using shrink_alone [of t xs i ys fs h sz] rep ui sz unfolding e by simp
  next
    case False
    then obtain n zs where "ys = n # zs" "\<not> mused h n" using mh_linksD(5) [OF l] by (cases ys) auto
    then show ?thesis using shrink_merge [of t xs i n zs fs h sz] rep ui sz unfolding e by simp
  qed
qed

lemma memheap_size_id:
  assumes "12 \<le> unat s" "4 dvd unat s"
  shows "memheap_size s = s"
proof -
  obtain k where k: "unat s = 4 * k" using assms(2) by (auto elim: dvdE)
  moreover have "unat s < 2 ^ 32" using unat_less_2p [of s] by simp
  ultimately have "k < 1073741824" by simp
  then have "unat s + 3 < 2 ^ 32" using k by simp
  then have "unat (RT_ALIGN s 4) = unat s" using unat_ALIGN [of s] k by simp
  then have "RT_ALIGN s 4 = s" by (simp add: word_unat_eq_iff)
  then show ?thesis using assms(1) by (simp add: memheap_size_def word_less_nat_alt)
qed

lemma memheap_size_idem: "memheap_size (memheap_size sz) = memheap_size sz"
  by (rule memheap_size_id [OF memheap_size_ok])

lemma bytes_same [simp]:
  "pool_bytes (set_magic i v h) = pool_bytes h" "pool_bytes (new_item i h) = pool_bytes h" "pool_bytes (push_free i h) = pool_bytes h"
  "pool_bytes (take_free i h) = pool_bytes h" "pool_bytes (clear_free i h) = pool_bytes h" "pool_bytes (link_item i j h) = pool_bytes h"
  "pool_bytes (count_max h) = pool_bytes h"
  by (simp_all add: set_magic_def new_item_def push_free_def take_free_def clear_free_def link_item_def count_max_def Let_def)

lemma same_bytes:
  "memheap_alloc sz h = Some (r, h') \<Longrightarrow> pool_bytes h' = pool_bytes h" "memheap_free p h = Some h' \<Longrightarrow> pool_bytes h' = pool_bytes h"
  "memheap_grow i sz h = Some (ok, h') \<Longrightarrow> pool_bytes h' = pool_bytes h \<and> start_addr h' = start_addr h"
  "pool_bytes (memheap_shrink i sz h) = pool_bytes h \<and> start_addr (memheap_shrink i sz h) = start_addr h"
  by (auto simp: memheap_alloc_def memheap_alloc_locked_def memheap_take_def memheap_free_def memheap_free_locked_def merge_left_def
      merge_right_def memheap_grow_def memheap_shrink_def rt_assert_def Let_def bind_eq_Some_conv split: if_splits)

lemma copy_same [simp]:
  "mh_rep t bs fs (pool_copy d s n h) = mh_rep t bs fs h" "mh_live (pool_copy d s n h) = mh_live h"
  "mh_region (pool_copy d s n h) = mh_region h" "start_addr (pool_copy d s n h) = start_addr h"
proof -
  have "mused (pool_copy d s n h) = mused h" "item_ok (pool_copy d s n h) = item_ok h" "MEMITEM_SIZE (pool_copy d s n h) = MEMITEM_SIZE h"
    by (simp_all add: fun_eq_iff RT_MEMHEAP_IS_USED_def item_ok_def MEMITEM_SIZE_def pool_copy_def)
  then show "mh_rep t bs fs (pool_copy d s n h) = mh_rep t bs fs h" "mh_live (pool_copy d s n h) = mh_live h"
    by (simp_all add: mh_rep_def mh_links_def mh_free_def free_bytes_def mh_live_def used_items_def mh_items_def mh_tail_def) (simp_all add: pool_copy_def)
  show "mh_region (pool_copy d s n h) = mh_region h" "start_addr (pool_copy d s n h) = start_addr h"
    by (simp_all add: mh_region_def pool_copy_def fun_eq_iff)
qed

text \<open>What a successful \<open>rt_memheap_realloc\<close> promises: the block \<open>p\<close> is replaced by \<open>q\<close>, which may be the
  same address, is large enough and has the contents of \<open>p\<close>, and no other block changes.\<close>

definition mh_moved :: "u32 \<Rightarrow> u32 \<Rightarrow> u32 \<Rightarrow> u32 \<Rightarrow> rt_memheap \<Rightarrow> u32 \<Rightarrow> rt_memheap \<Rightarrow> bool" where
  "mh_moved t a p sz h q h' \<longleftrightarrow>
     mh_inv t a h' \<and> q \<notin> mh_live h - {p} \<and> mh_live h' = insert q (mh_live h - {p}) \<and> mh_fit h' sz q \<and>
     (\<forall>k < min (MEMITEM_SIZE h (p - RT_MEMHEAP_SIZE)) (memheap_size sz). pool_bytes h' (q + k) = pool_bytes h (p + k)) \<and>
     (\<forall>c \<in> mh_live h - {p}. mh_region h' c = mh_region h c \<and>
        (\<forall>x \<in> mh_region h c. pool_bytes h' (of_nat x) = pool_bytes h (of_nat x)))"

lemma resized_moved:
  assumes rep: "mh_rep t bs fs h" and p: "p \<in> mh_live h" and r: "mh_resized t (memheap_size sz) (p - 24) bs h h'"
    and s: "start_addr h' = start_addr h" "pool_bytes h' = pool_bytes h"
  shows "mh_moved t (start_addr h) p sz h p h'"
proof -
  obtain bs' fs' where R: "mh_rep t bs' fs' h'" "used_items h' bs' = used_items h bs"
    "\<And>b. b \<in> used_items h bs - {p - 24} \<Longrightarrow> nxt (blk h') b = nxt (blk h) b"
    "unat (p - 24) + 24 + unat (memheap_size sz) \<le> unat (nxt (blk h') (p - 24))"
    using r by (auto simp: mh_resized_def)
  have u: "p - 24 \<in> used_items h bs" using p live_mem [OF rep] by simp
  then have "p - 24 \<in> set bs" by (simp add: used_items_def)
  note A = live_addr [OF rep this]
  have "mh_live h' = mh_live h" using R(2) live_mem [OF rep] live_mem [OF R(1)] by auto
  moreover have "mh_region h' c = mh_region h c" if "c \<in> mh_live h - {p}" for c
    using that R(3) [of "c - 24"] live_mem [OF rep] by (auto simp: mh_region_def)
  moreover have "mh_fit h' sz p" using R(4) A by (simp add: mh_fit_def)
  ultimately show ?thesis using R(1) s p by (auto simp: mh_moved_def mh_inv_def)
qed

lemma copied_bytes:
  fixes e :: u32
  assumes q: "unat q + unat n \<le> unat e" and x: "x < 2 ^ 32" "x < unat q \<or> unat e \<le> x"
  shows "pool_bytes (pool_copy q p n h) (of_nat x) = pool_bytes h (of_nat x)"
proof -
  have "\<not> unat (of_nat x - q) < unat n"
  proof
    assume l: "unat (of_nat x - q) < unat n"
    have e: "unat e < 2 ^ 32" using unat_less_2p [of e] by simp
    have "unat (q + (of_nat x - q)) = unat q + unat (of_nat x - q)"
      using l q e by (intro unat_add_small) simp
    then have "x = unat q + unat (of_nat x - q)" using x(1) by (simp add: unat_of_nat)
    then show False using l q x(2) by linarith
  qed
  then show ?thesis by (simp add: pool_copy_def)
qed

lemma fit_same:
  assumes "mh_region h' q = mh_region h q" "mh_fit h sz q"
  shows "mh_fit h' sz q"
proof -
  have "card (mh_region h' q) = card (mh_region h q)" using assms(1) by simp
  then have "unat (nxt (blk h') (q - 24)) - unat q = unat (nxt (blk h) (q - 24)) - unat q" by (simp add: mh_region_def)
  then show ?thesis using assms(2) memheap_size_ok(1) [of sz] unfolding mh_fit_def by linarith
qed

lemma realloc_copy:
  assumes rep: "mh_rep t bs fs h" and p: "p \<in> mh_live h" and a: "memheap_alloc sz h = Some (Some q, h1)"
    and n: "n \<le> memheap_size sz"
  shows "\<exists>h'. memheap_free p (pool_copy q p n h1) = Some h' \<and> mh_inv t (start_addr h) h' \<and> q \<notin> mh_live h \<and>
    mh_live h' = insert q (mh_live h - {p}) \<and> mh_fit h' sz q \<and> (\<forall>k < n. pool_bytes h' (q + k) = pool_bytes h (p + k)) \<and>
    (\<forall>c \<in> mh_live h - {p}. mh_region h' c = mh_region h c \<and> (\<forall>x \<in> mh_region h c. pool_bytes h' (of_nat x) = pool_bytes h (of_nat x)))"
proof -
  note A = memheap_alloc_law [OF rep a]
  obtain bs1 fs1 where "mh_rep t bs1 fs1 h1" and s: "start_addr h1 = start_addr h" using A(1) by (auto simp: mh_inv_def)
  then have r1: "mh_rep t bs1 fs1 (pool_copy q p n h1)" by simp
  have p1: "p \<in> mh_live (pool_copy q p n h1)" and pq: "p \<noteq> q" using A(2,3) p by auto
  obtain h' where F: "memheap_free p (pool_copy q p n h1) = Some h'" "mh_inv t (start_addr h) h'" "mh_live h' = mh_live h1 - {p}"
    "\<forall>c \<in> mh_live h1 - {p}. mh_region h' c = mh_region h1 c"
    using memheap_free_law [OF r1 p1] s by auto
  have b: "pool_bytes h' = pool_bytes (pool_copy q p n h1)" "pool_bytes h1 = pool_bytes h"
    using same_bytes(2) [OF F(1)] same_bytes(1) [OF a] by auto
  have live: "mh_live h' = insert q (mh_live h - {p})" using A(3) F(3) pq by auto
  have "mh_fit h' sz q" using F(4) A(3,4) pq fit_same by auto
  moreover have "\<forall>k < n. pool_bytes h' (q + k) = pool_bytes h (p + k)" using b by (simp add: pool_copy_def word_less_nat_alt)
  moreover have "mh_region h' c = mh_region h c" if "c \<in> mh_live h - {p}" for c using that F(4) A(3,5) by auto
  moreover have "pool_bytes h' (of_nat x) = pool_bytes h (of_nat x)" if c: "c \<in> mh_live h - {p}" and x: "x \<in> mh_region h c" for c x
  proof -
    have "mh_region h1 c \<inter> mh_region h1 q = {}" using mh.disjoint [OF A(1), of c q] A(2,3) c by auto
    then have "x \<notin> mh_region h1 q" using x A(5) [of c] c by auto
    then have d: "x < unat q \<or> unat (nxt (blk h1) (q - 24)) \<le> x" by (auto simp: mh_region_def)
    have "unat q + unat n \<le> unat (nxt (blk h1) (q - 24))" using A(4) n by (simp add: mh_fit_def word_le_nat_alt)
    moreover have "x < 2 ^ 32" using x unat_less_2p [of "nxt (blk h) (c - 24)"] by (simp add: mh_region_def)
    ultimately show ?thesis using copied_bytes [OF _ _ d] b by simp
  qed
  ultimately show ?thesis using F(1,2) live A(2) by blast
qed

lemma live_size:
  assumes rep: "mh_rep t bs fs h" and p: "p \<in> mh_live h"
  shows "unat (nxt (blk h) (p - 24)) = unat p + unat (MEMITEM_SIZE h (p - 24))"
proof -
  have u: "p - 24 \<in> set bs" using p live_mem [OF rep] by (simp add: used_items_def)
  then obtain xs ys where e: "bs = xs @ (p - 24) # ys" by (auto dest: split_list)
  have l: "mh_links t (xs @ (p - 24) # ys) fs h" using rep e by (simp add: mh_rep_def)
  show ?thesis using item_size [OF l] item_facts(1,3) [OF l] live_addr(1) [OF rep u] by (simp add: gap_def)
qed

text \<open>The sizes for which \<open>newsize + RT_MEMHEAP_MINIALLOC\<close> does not wrap.\<close>

lemma memheap_size_bound:
  assumes "unat sz < 2 ^ 32 - 15"
  shows "unat (memheap_size sz) + 12 < 2 ^ 32"
proof -
  have "unat (RT_ALIGN sz 4) = (unat sz + 3) div 4 * 4" using assms by (intro unat_ALIGN) auto
  moreover have "(unat sz + 3) div 4 * 4 \<le> 4294967280" using assms by simp
  ultimately show ?thesis by (auto simp: memheap_size_def Let_def)
qed

lemma memheap_realloc_moved:
  assumes rep: "mh_rep t bs fs h" and p: "p \<in> mh_live h" and sz: "sz \<noteq> 0" "unat sz < 2 ^ 32 - 15"
  shows "\<exists>r h'. memheap_realloc p sz h = Some (r, h') \<and> (case r of None \<Rightarrow> h' = h | Some q \<Rightarrow> mh_moved t (start_addr h) p sz h q h')"
proof -
  let ?s = "memheap_size sz" and ?o = "MEMITEM_SIZE h (p - 24)"
  have u: "p - 24 \<in> used_items h bs" using p live_mem [OF rep] by simp
  then have b: "p - 24 \<in> set bs" by (simp add: used_items_def)
  note A = live_addr [OF rep b] and S = memheap_size_ok [of sz]
  consider (grow) "?o < ?s" | (keep) "?s \<le> ?o" "?o \<le> ?s + 36" | (shrink) "?s \<le> ?o" "?s + 36 < ?o" by (meson leI)
  then show ?thesis
  proof cases
    case grow
    obtain ok h1 where g: "memheap_grow (p - 24) ?s h = Some (ok, h1)" "if ok then mh_resized t ?s (p - 24) bs h h1 else h1 = h"
      using memheap_grow_rep [OF rep u S memheap_size_bound [OF sz(2)]] by auto
    obtain r h2 where a: "memheap_alloc ?s h = Some (r, h2)"
      "case r of None \<Rightarrow> h2 = h | Some q \<Rightarrow> q - 24 \<in> set fs \<and> mh_taken t (memheap_size ?s) (q - 24) bs h h2"
      using memheap_alloc_rep [OF rep, of ?s] by blast
    show ?thesis
    proof (cases "ok \<or> r = None")
      case True
      then show ?thesis
        using g a grow sz(1) A(3) resized_moved [OF rep p, of sz h1] same_bytes(3) [OF g(1)]
        by (cases ok) (auto simp: memheap_realloc_def Let_def)
    next
      case False
      then obtain q where q: "r = Some q" "h1 = h" "\<not> ok" using g(2) by auto
      have aq: "memheap_alloc ?s h = Some (Some q, h2)" using a q by simp
      have "min ?o ?s \<le> memheap_size ?s" by (simp add: memheap_size_idem)
      from realloc_copy [OF rep p aq this] show ?thesis
        using g(1) q aq grow sz(1) A(3)
        by (auto simp: memheap_realloc_def Let_def mh_moved_def mh_fit_def memheap_size_idem)
    qed
  next
    case keep
    have "mh_fit h sz p" using live_size [OF rep p] keep(1) A(2) by (simp add: mh_fit_def word_le_nat_alt)
    then show ?thesis
      using keep sz(1) A(3) rep p by (auto simp: memheap_realloc_def Let_def add.assoc mh_moved_def mh_inv_def)
  next
    case shrink
    then show ?thesis
      using memheap_shrink_rep [OF rep u S shrink(1)] resized_moved [OF rep p, of sz] same_bytes(4) sz(1) A(3)
      by (auto simp: memheap_realloc_def Let_def add.assoc)
  qed
qed

subsection \<open>Sizes that wrap around\<close>

lemma unat_add_wraps:
  fixes a b :: u32
  assumes "2 ^ 32 \<le> unat a + unat b"
  shows "unat (a + b) + 2 ^ 32 = unat a + unat b"
proof -
  have l: "unat a < 2 ^ 32" "unat b < 2 ^ 32" using unat_less_2p [of a] unat_less_2p [of b] by simp_all
  have "unat (a + b) = (unat a + unat b) mod 2 ^ 32" by (simp add: unat_word_ariths)
  also have "\<dots> = unat a + unat b - 2 ^ 32" using le_mod_geq [OF assms] l by simp
  finally show ?thesis using assms by simp
qed

text \<open>A size that wraps when it is rounded up is served with the smallest block.\<close>

lemma memheap_size_wraps:
  assumes "2 ^ 32 - 3 \<le> unat sz"
  shows "memheap_size sz = 12"
proof -
  have "unat sz < 2 ^ 32" using unat_less_2p [of sz] by simp
  then have "unat (sz + 3) < 3" using assms unat_add_wraps [of sz 3] by simp
  moreover have "RT_ALIGN sz 4 = RT_ALIGN_DOWN (sz + 3) 4" by (simp only: ALIGN_eq ALIGN_DOWN_eq)
  ultimately have "unat (RT_ALIGN sz 4) = 0" by (simp add: unat_ALIGN_DOWN)
  then show ?thesis by (simp add: memheap_size_def unat_eq_zero)
qed

text \<open>Growing in place compares with \<open>newsize + RT_MEMHEAP_MINIALLOC\<close>, which wraps for the largest sizes:
  the item is then linked to a new one inside its own header.\<close>

lemma memheap_realloc_wraps:
  assumes l: "mh_links t (xs @ i # n # zs) fs h" and un: "\<not> mused h n" and sz: "4 dvd unat sz" "2 ^ 32 - 12 \<le> unat sz"
  shows "\<exists>h'. memheap_realloc (i + 24) sz h = Some (Some (i + 24), h') \<and> unat (nxt (blk h') i) < unat i + 24"
proof -
  have ln: "mh_links t ((xs @ [i]) @ n # zs) fs h" using l by simp
  note I = item_facts [OF l] and N = item_facts [OF ln]
  let ?q = "hd (zs @ [t])"
  have q: "unat ?q < 2 ^ 32" "unat sz < 2 ^ 32" using unat_less_2p [of ?q] unat_less_2p [of sz] by simp_all
  have g: "unat i + 36 \<le> unat n" "unat n + 36 \<le> unat ?q" using I(3) N(3) by (auto simp: gap_def)
  have S: "unat (MEMITEM_SIZE h i) = unat n - unat i - 24" "unat (MEMITEM_SIZE h n) = unat ?q - unat n - 24"
    using item_size [OF l] item_size [OF ln] by auto
  then have "unat (MEMITEM_SIZE h n + MEMITEM_SIZE h i) = unat ?q - unat i - 48"
    using g q unat_add_small [of "MEMITEM_SIZE h n" "MEMITEM_SIZE h i"] by simp
  moreover have "unat (sz + 12) \<le> 8" using sz q unat_add_wraps [of sz 12] by simp presburger
  ultimately have room: "sz + 12 < MEMITEM_SIZE h n + MEMITEM_SIZE h i" using g by (simp add: word_less_nat_alt)
  have old: "MEMITEM_SIZE h i < sz" using S(1) sz(2) g q by (simp add: word_less_nat_alt)
  have nz: "i + 24 \<noteq> 0" using I(7) by (metis add_eq_0_iff_both_eq_0 unat_0 zero_neq_numeral)
  have "memheap_size sz = sz" "sz \<noteq> 0" using sz by (auto intro!: memheap_size_id)
  then have "\<exists>h'. memheap_realloc (i + 24) sz h = Some (Some (i + 24), h') \<and> nxt (blk h') i = i + 24 + sz"
    using grow_eq [OF l un room] old nz by (simp add: memheap_realloc_def Let_def link_item_def)
  moreover have "unat (i + 24 + sz) < unat i + 24"
    using I(7) sz(2) q unat_add_wraps [of "i + 24" sz] by simp
  ultimately show ?thesis by auto
qed

subsection \<open>Properties\<close>

text \<open>C24: \<open>rt_memheap_realloc\<close> of a block in use to a size whose sum with the smallest allocation does not wrap
  returns: it fails and changes nothing, or the heap stays well formed, the block it returns replaces
  the old one, is large enough and has its contents up to the smaller size, and neither the place nor
  the contents of any other block change.\<close>

theorem memheap_realloc_keeps:
  assumes inv: "mh_inv t a h" and p: "p \<in> mh_live h" and sz: "sz \<noteq> 0" "unat sz < 2 ^ 32 - 15"
  shows "\<exists>r h'. memheap_realloc p sz h = Some (r, h') \<and> (case r of None \<Rightarrow> h' = h | Some q \<Rightarrow> mh_moved t a p sz h q h')"
  using memheap_realloc_moved [OF _ p sz] inv by (auto simp: mh_inv_def)

lemma memheap_realloc_keeps_witness:
  "\<exists>h q h'. memheap_alloc 100 (memheap_init 0x20000008 0x20001000 0x400 mh_example) = Some (Some 0x20001018, h) \<and>
     memheap_realloc 0x20001018 200 h = Some (Some q, h') \<and> mh_moved 0x200013e8 0x20001000 0x20001018 200 h q h'"
proof -
  let ?h0 = "memheap_init 0x20000008 0x20001000 0x400 mh_example"
  have p: "mh_pool 0x20000008 0x20001000 0x400" by (simp add: mh_pool_def)
  note I = memheap_init_rep [OF p, of mh_example]
  obtain h where a: "memheap_alloc 100 ?h0 = Some (Some 0x20001018, h)" "\<exists>h'. memheap_realloc 0x20001018 200 h = Some (Some 0x20001018, h')"
    by (simp add: mh_eval memheap_realloc_def memheap_grow_def rt_assert_def RT_MEMHEAP_IS_USED_def)
  have e: "mh_end 0x20001000 0x400 = 0x200013e8" by (simp add: mh_end_def RT_ALIGN_DOWN_def)
  note A = memheap_alloc_law [OF I(1) a(1), unfolded I(2) e]
  then have "0x20001018 \<in> mh_live h" by simp
  from memheap_realloc_keeps [OF A(1) this, of 200] show ?thesis using a by auto
qed

end
