(* ===== verification/Door_App.thy ===== *)
theory Door_App
  imports Rt_Printf
begin

text \<open>The application of the repository, a door contact that is switched over a narrow-band modem:
  applications/main.c and mypackages/*.c of the board directory bsp/stm32f4xx-HAL. Its global
  variables and the places where its threads stand are one record. A function of the model is what a
  thread does from one wait for a byte, an answer, a delay or a command to the next; waits for the
  print mutex inside it are recorded (Mutex_Take, Mutex_Release) but not separate steps. The switch
  commands of the shell are in two pieces, because the modem thread can preempt the shell between
  them. The calls into the kernel and the drivers are recorded in their order in the field calls, with
  their arguments. A function returns None when it writes outside an array or fails an assertion.\<close>

subsection \<open>The C library functions that are used\<close>

abbreviation (input) NUL :: char where "NUL \<equiv> CHR 0x00"

definition crlf :: string where "crlf = [CHR 0x0D, CHR 0x0A]"

definition c_string :: "string \<Rightarrow> string" where
  "c_string buf = takeWhile (\<lambda>c. c \<noteq> NUL) buf"

fun occurs :: "string \<Rightarrow> string \<Rightarrow> bool" where
  "occurs needle [] = (needle = [])"
| "occurs needle (c # cs) = (take (length needle) (c # cs) = needle \<or> occurs needle cs)"

definition strstr_found :: "string \<Rightarrow> string \<Rightarrow> bool" where
  "strstr_found buf needle = occurs needle (c_string buf)"

definition set_at :: "string \<Rightarrow> nat \<Rightarrow> char \<Rightarrow> string option" where
  "set_at buf i c = (if i < length buf then Some (buf[i := c]) else None)"

definition c_strcpy :: "string \<Rightarrow> string \<Rightarrow> string option" where
  "c_strcpy dst src =
     (let s = c_string src @ [NUL]
      in if NUL \<in> set src \<and> length s \<le> length dst then Some (s @ drop (length s) dst) else None)"

definition c_strcat :: "string \<Rightarrow> string \<Rightarrow> string option" where
  "c_strcat dst src =
     (let s = c_string dst @ c_string src @ [NUL]
      in if length s \<le> length dst then Some (s @ drop (length s) dst) else None)"

subsection \<open>Calls into the kernel and the drivers\<close>

datatype serial = Uart1 | Uart3

datatype app_sem = Rx_Connect | Rx_Uart1_Self | Rx_Uart1_Ready | Rx_Uart3_Self

datatype app_call =
    Pin_Mode nat nat | Pin_Write nat nat | Kprintf string "fmt_arg list"
  | Dev_Open serial u16 | Dev_Indicate serial | Dev_Find string | Dev_Write serial string u32
  | Mutex_Create string | Mutex_Take | Mutex_Release
  | Sem_Init app_sem | Sem_Take app_sem | Sem_Release app_sem
  | Thread_Create string u8 u32 | Thread_Startup nat | Thread_Delete nat | Delay int

datatype connect_pc = At_Entry | At_Ready | At_Reply nat

datatype led_pc = Led_Begin | Led_To_On | Led_To_Off

datatype shell_pc = Shell_Idle | Shell_Opening | Shell_Closing

record app =
  relay_switch_isOn :: int
  onTime :: int
  offTime :: int
  uart1_receivedStrs :: string
  uart1_charOffset :: nat
  uart1_global_receivedStrs :: string
  uart1_global_charOffset :: nat
  uart3_receivedStrs :: string
  uart3_charOffset :: nat
  rx_sem_connect :: u16
  rx_sem_uart1_ready :: u16
  my_usart1_thread :: "nat option"
  my_usart3_thread :: "nat option"
  my_nb101_connect_thread :: "nat option"
  isFirst :: bool
  uart1_open :: bool
  uart3_open :: bool
  connect_pc :: connect_pc
  led_pc :: led_pc
  shell_pc :: shell_pc
  calls :: "app_call list"

definition emit :: "app_call list \<Rightarrow> app \<Rightarrow> app" where
  "emit cs s = s\<lparr>calls := calls s @ cs\<rparr>"

definition locked :: "app_call list \<Rightarrow> app_call list" where
  "locked cs = Mutex_Take # cs @ [Mutex_Release]"

subsection \<open>relay_switch.c and LED1_PG3.c\<close>

abbreviation (input) RELAY_SWITCH_NUM :: nat where "RELAY_SWITCH_NUM \<equiv> 1"
abbreviation (input) LED_PIN_NUM :: nat where "LED_PIN_NUM \<equiv> 88"
abbreviation (input) PIN_LOW :: nat where "PIN_LOW \<equiv> 0"
abbreviation (input) PIN_HIGH :: nat where "PIN_HIGH \<equiv> 1"
abbreviation (input) PIN_MODE_OUTPUT :: nat where "PIN_MODE_OUTPUT \<equiv> 0"

definition init_switch :: "app \<Rightarrow> app" where
  "init_switch s = emit [Pin_Mode RELAY_SWITCH_NUM PIN_MODE_OUTPUT] s"

text \<open>A switch writes the pin and prints, then sets the flag; nothing protects the two pieces.\<close>

definition open_switch_pin :: "app \<Rightarrow> app" where
  "open_switch_pin s = emit [Pin_Write RELAY_SWITCH_NUM PIN_LOW, Kprintf (''switch on!'' @ crlf) []] s"

definition open_switch_flag :: "app \<Rightarrow> app" where
  "open_switch_flag s = s\<lparr>relay_switch_isOn := 1\<rparr>"

definition open_switch :: "app \<Rightarrow> app" where
  "open_switch s = open_switch_flag (open_switch_pin s)"

definition close_switch_pin :: "app \<Rightarrow> app" where
  "close_switch_pin s = emit [Pin_Write RELAY_SWITCH_NUM PIN_HIGH, Kprintf (''switch off!'' @ crlf) []] s"

definition close_switch_flag :: "app \<Rightarrow> app" where
  "close_switch_flag s = s\<lparr>relay_switch_isOn := 0\<rparr>"

definition close_switch :: "app \<Rightarrow> app" where
  "close_switch s = close_switch_flag (close_switch_pin s)"

text \<open>The lamp: one piece up to each of its two delays, whose times are read when the delay begins.\<close>

definition led_begin :: "app \<Rightarrow> app" where
  "led_begin s = (emit [Pin_Mode LED_PIN_NUM PIN_MODE_OUTPUT] s)\<lparr>led_pc := Led_To_On\<rparr>"

definition led_on :: "app \<Rightarrow> app" where
  "led_on s = (emit [Pin_Write LED_PIN_NUM PIN_LOW, Delay (onTime s)] s)\<lparr>led_pc := Led_To_Off\<rparr>"

definition led_off :: "app \<Rightarrow> app" where
  "led_off s = (emit [Pin_Write LED_PIN_NUM PIN_HIGH, Delay (offTime s)] s)\<lparr>led_pc := Led_To_On\<rparr>"

definition deviceConnecting :: "app \<Rightarrow> app" where
  "deviceConnecting s = s\<lparr>onTime := 200, offTime := 200\<rparr>"

definition deviceConnected :: "app \<Rightarrow> app" where
  "deviceConnected s = s\<lparr>onTime := 200, offTime := 1800\<rparr>"

definition deviceDisconnected :: "app \<Rightarrow> app" where
  "deviceDisconnected s = s\<lparr>onTime := 800, offTime := 800\<rparr>"

subsection \<open>post_to_aliyun.c\<close>

definition end_str :: string where "end_str = [CHR 0x1A, CHR 0x0D, CHR 0x0A]"

definition post_command :: string where
  "post_command = ''AT+QMTPUB=0,0,0,0,\"/sys/a1n5qqGX7PA/NB101/thing/event/property/post\"'' @ crlf"

definition onPropertyStr :: string where
  "onPropertyStr = post_command @ ''{\"params\" : {\"ContactState\": 1, \"Error\": 0}}''"

definition offPropertyStr :: string where
  "offPropertyStr = post_command @ ''{\"params\" : {\"ContactState\": 0, \"Error\": 0}}''"

text \<open>The array postStr has room for its initialiser and the final null byte, no more.\<close>

definition postStr :: string where
  "postStr = ''{\"params\" : {\"ContactState\": '' @ [NUL]"

text \<open>A call that is accepted would wait for the mutex and for a second between its writes; it never
  comes to that, because the first of its copies overruns postStr (theorem post_overruns).\<close>

definition post_to_aliyun :: "string list \<Rightarrow> app \<Rightarrow> app option" where
  "post_to_aliyun argv s =
     (if length argv \<noteq> 2
      then Some (emit [Kprintf (''argc != 2'' @ [CHR 0x0A]) [], Kprintf (''Usage: door status'' @ [CHR 0x0A]) [],
                       Kprintf (''Like: post_to_aliyun 1'' @ [CHR 0x0A]) []] s)
      else if length (c_string (argv ! 1)) \<noteq> 1
      then Some (emit [Kprintf (''strlen(doorStatus) != 1'' @ [CHR 0x0A]) [], Kprintf (''Usage: door status'' @ [CHR 0x0A]) [],
                       Kprintf (''Like: post_to_aliyun 1'' @ [CHR 0x0A]) []] s)
      else do {
        p1 \<leftarrow> c_strcat postStr (argv ! 1);
        p2 \<leftarrow> c_strcat p1 '', \"Error\": 0}}'';
        let n = of_nat (length post_command);
        let k = of_nat (length (c_string p2));
        Some (emit (locked [Dev_Write Uart1 post_command n, Delay 1000, Dev_Write Uart1 p2 k, Dev_Write Uart1 end_str 3,
                            Dev_Write Uart3 post_command n, Dev_Write Uart3 p2 k, Dev_Write Uart3 end_str 3]) s)
      })"

definition self_post_to_aliyun :: "char \<Rightarrow> app \<Rightarrow> app" where
  "self_post_to_aliyun doorStatus s =
     (let n = of_nat (length onPropertyStr)
      in if doorStatus = CHR ''0'' then emit [Dev_Write Uart1 offPropertyStr n, Dev_Write Uart1 end_str 3] s
         else if doorStatus = CHR ''1'' then emit [Dev_Write Uart1 onPropertyStr n, Dev_Write Uart1 end_str 3] s
         else s)"

subsection \<open>NB101_uart1.c: the thread that reads the modem\<close>

definition uploadOnandDoorOnDataStr :: string where
  "uploadOnandDoorOnDataStr = ''AT+QMTPUB=0,0,0,0,\"/a1n5qqGX7PA/NB101/user/update\"'' @ crlf @
     ''{\"communicate\": true, \"status\": true, \"deviceName\": \"NB101\"}''"

definition uploadOnandDoorOffDataStr :: string where
  "uploadOnandDoorOffDataStr = ''AT+QMTPUB=0,0,0,0,\"/a1n5qqGX7PA/NB101/user/update\"'' @ crlf @
     ''{\"communicate\": true, \"status\": false, \"deviceName\": \"NB101\"}''"

definition door_cmd :: string where "door_cmd = ''\"deviceType\":\"DoorContact\"''"

definition status_query :: string where
  "status_query = ''NB101/user/get\",{\"devicename\":\"iOS_manager1\",\"status\":1''"

definition str2 :: string where "str2 = ''my_usart1_thread initialize succeed!'' @ crlf"

definition publish_status :: "app \<Rightarrow> app_call list" where
  "publish_status s =
     (let m = (if relay_switch_isOn s \<noteq> 0 then uploadOnandDoorOnDataStr else uploadOnandDoorOffDataStr)
      in locked [Dev_Write Uart1 m (of_nat (length m)), Dev_Write Uart1 end_str 3])"

text \<open>What the thread does with a complete line: line is the array and n the number of characters.\<close>

definition uart1_command :: "string \<Rightarrow> nat \<Rightarrow> app \<Rightarrow> app option" where
  "uart1_command line n s =
     (if strstr_found line door_cmd
      then if n < 6 then None
           else let c = line ! (n - 6);
                    s1 = (if c = CHR ''0'' then close_switch s else if c = CHR ''1'' then open_switch s else s)
                in Some (self_post_to_aliyun c s1)
      else if strstr_found line status_query then Some (emit (publish_status s) s)
      else Some s)"

definition uart1_line :: "app \<Rightarrow> app option" where
  "uart1_line s =
     (let line = uart1_receivedStrs s; n = uart1_charOffset s
      in if my_nb101_connect_thread s \<noteq> None
         then do {
           g \<leftarrow> c_strcpy (uart1_global_receivedStrs s) line;
           Some (emit [Sem_Release Rx_Connect]
                   (s\<lparr>uart1_global_receivedStrs := g, uart1_global_charOffset := n, rx_sem_connect := rx_sem_connect s + 1\<rparr>))
         }
         else do {
           s1 \<leftarrow> uart1_command line n s;
           Some (emit (locked (map (\<lambda>c. Kprintf ''%c'' [Arg_Int (of_char c)]) (take n line))) s1)
         })"

definition uart1_byte :: "char \<Rightarrow> app \<Rightarrow> app option" where
  "uart1_byte ch s = do {
     b1 \<leftarrow> set_at (uart1_receivedStrs s) (uart1_charOffset s) ch;
     b2 \<leftarrow> set_at b1 (uart1_charOffset s + 1) NUL;
     let s1 = s\<lparr>uart1_receivedStrs := b2, uart1_charOffset := uart1_charOffset s + 1\<rparr>;
     if strstr_found b2 crlf
     then do {
       s2 \<leftarrow> uart1_line s1;
       b3 \<leftarrow> set_at (uart1_receivedStrs s2) 0 NUL;
       Some (s2\<lparr>uart1_receivedStrs := b3, uart1_charOffset := 0\<rparr>)
     }
     else Some s1
   }"

definition uart1_begin :: "app \<Rightarrow> app" where
  "uart1_begin s =
     (emit ([Dev_Open Uart1 0x103, Dev_Indicate Uart1] @ locked [Dev_Write Uart3 str2 (of_nat (length str2))] @
            [Sem_Release Rx_Uart1_Ready]) s)
       \<lparr>rx_sem_uart1_ready := rx_sem_uart1_ready s + 1, uart1_open := True\<rparr>"

definition nb101_uart1 :: "nat option \<Rightarrow> app \<Rightarrow> app" where
  "nb101_uart1 created s =
     (if my_usart1_thread s \<noteq> None then s
      else let s1 = (emit [Sem_Init Rx_Connect, Sem_Init Rx_Uart1_Self, Sem_Init Rx_Uart1_Ready,
                           Thread_Create ''my_usart1'' 5 25] s)
                      \<lparr>rx_sem_connect := 0, rx_sem_uart1_ready := 0, my_usart1_thread := created\<rparr>
           in case created of
                Some t \<Rightarrow> emit (locked [Kprintf str2 []] @ [Thread_Startup t]) s1
              | None \<Rightarrow> emit [Kprintf (''my_usart1_thread initialize failed!'' @ crlf) []] s1)"

subsection \<open>connect_aliyun_using_AT.c: the thread that logs in\<close>

definition stepStrs :: "string list" where
  "stepStrs =
     [''Let'' @ [CHR 0x27] @ ''s connect to aliyun.'' @ crlf,
      ''AT+CGATT?'' @ crlf,
      ''AT+CSQ'' @ crlf,
      ''AT+QMTCFG=\"aliauth\",0,\"a1n5qqGX7PA\",\"NB101\",\"5iSvkRRHlzzWc9HZMvlfGdKPG8g9AFBd\"'' @ crlf,
      ''AT+QMTOPEN=0,\"iot-as-mqtt.cn-shanghai.aliyuncs.com\",1883'' @ crlf,
      ''AT+QMTCONN=0,\"clientExample\"'' @ crlf,
      ''AT+QMTSUB=0,1,\"/sys/a1n5qqGX7PA/NB101/thing/service/property/set\",0'' @ crlf,
      ''AT+QMTSUB=0,1,\"/a1n5qqGX7PA/NB101/user/get\",0'' @ crlf,
      ''AT+QMTPUB=0,0,0,0,\"/sys/a1n5qqGX7PA/NB101/thing/event/property/post\"'' @ crlf,
      ''AT+QMTDISC=0'' @ crlf]"

definition str3 :: string where "str3 = ''my_nb101_connect_thread initialize succeed!'' @ crlf"

definition failed_str :: string where "failed_str = ''Connecting failed!'' @ crlf"

text \<open>countChars counts in an unsigned char.\<close>

fun countChars_loop :: "u8 \<Rightarrow> string \<Rightarrow> u8" where
  "countChars_loop num [] = num"
| "countChars_loop num (c # cs) = (if c = NUL then num else countChars_loop (num + 1) cs)"

definition countChars :: "string \<Rightarrow> u8" where
  "countChars cs = countChars_loop 0 cs"

definition step_write :: "serial \<Rightarrow> nat \<Rightarrow> app_call" where
  "step_write d k = Dev_Write d (stepStrs ! k) (ucast (countChars (stepStrs ! k)) - 1)"

definition send_step :: "nat \<Rightarrow> app_call list" where
  "send_step k = locked [Kprintf (stepStrs ! k) [], step_write Uart3 k, step_write Uart1 k]"

definition connect_failed :: "app \<Rightarrow> app" where
  "connect_failed s = (emit (locked [Kprintf failed_str []]) (deviceDisconnected s))\<lparr>my_nb101_connect_thread := None\<rparr>"

definition connect_begin :: "app \<Rightarrow> app" where
  "connect_begin s =
     (emit (locked [Dev_Write Uart3 str3 (of_nat (length str3))] @ send_step 1) s)\<lparr>connect_pc := At_Reply 2\<rparr>"

definition connect_entry :: "nat option \<Rightarrow> app \<Rightarrow> app" where
  "connect_entry created s =
     (let s1 = nb101_uart1 created (deviceConnecting s)
      in if isFirst s1 then (emit [Sem_Take Rx_Uart1_Ready] s1)\<lparr>connect_pc := At_Ready\<rparr> else connect_begin s1)"

definition connect_ready :: "app \<Rightarrow> app" where
  "connect_ready s = connect_begin (s\<lparr>rx_sem_uart1_ready := rx_sem_uart1_ready s - 1, isFirst := False\<rparr>)"

text \<open>One answer of the modem in the loop of the thread, after it was granted rx_sem_connect. What ends
  the thread returns; everything else clears the answer and waits for the next one.\<close>

definition connect_clear :: "nat \<Rightarrow> app \<Rightarrow> app option" where
  "connect_clear k s = do {
     g \<leftarrow> set_at (uart1_global_receivedStrs s) 0 NUL;
     Some (s\<lparr>uart1_global_receivedStrs := g, uart1_global_charOffset := 0, connect_pc := At_Reply k\<rparr>)
   }"

definition connect_handle :: "nat \<Rightarrow> app \<Rightarrow> app option" where
  "connect_handle k s =
     (let g = uart1_global_receivedStrs s
      in if k \<le> 4 \<and> strstr_found g (''OK'' @ crlf) then connect_clear (k + 1) (emit (send_step k) s)
         else if k = 5 then
           if strstr_found g (''QMTOPEN: 0,0'' @ crlf) then connect_clear (k + 1) (emit (send_step k) s)
           else if strstr_found g ''QMTOPEN: 0,'' then Some (connect_failed s)
           else connect_clear k s
         else if k = 6 then
           if strstr_found g (''QMTCONN: 0,0,0'' @ crlf)
           then connect_clear (k + 1)
                  (emit (locked [Kprintf (stepStrs ! k) [], Kprintf (''Connecting successed!'' @ crlf) [],
                                 step_write Uart3 k, step_write Uart1 k]) (deviceConnected s))
           else if strstr_found g ''QMTCONN: 0,'' then Some (connect_failed s)
           else connect_clear k s
         else if k = 7 \<and> strstr_found g (''QMTSUB: 0,1,0,1'' @ crlf) then connect_clear (k + 1) (emit (send_step k) s)
         else if k = 8 \<and> strstr_found g (''QMTSUB: 0,1,0,1'' @ crlf)
         then Some ((emit (publish_status s) s)\<lparr>my_nb101_connect_thread := None\<rparr>)
         else connect_clear k s)"

definition connect_reply :: "nat \<Rightarrow> app \<Rightarrow> app option" where
  "connect_reply k s =
     (let g = uart1_global_receivedStrs s
      in connect_handle k
           (emit (Sem_Take Rx_Connect #
                  locked [Kprintf (c_string g) [], Dev_Write Uart3 g (of_nat (uart1_global_charOffset s) - 1)])
             (s\<lparr>rx_sem_connect := rx_sem_connect s - 1\<rparr>)))"

text \<open>Without braces only the call that takes the mutex belongs to the else branch.\<close>

definition connect_aliyun :: "nat option \<Rightarrow> app \<Rightarrow> app" where
  "connect_aliyun created s =
     (if my_nb101_connect_thread s \<noteq> None then s
      else let s1 = (emit [Thread_Create ''my_usart1'' 5 25] s)
                      \<lparr>my_nb101_connect_thread := created, connect_pc := At_Entry\<rparr>
           in emit [Mutex_Release]
                (case created of
                   Some t \<Rightarrow> emit (locked [Kprintf str3 []] @ [Thread_Startup t]) s1
                 | None \<Rightarrow> emit [Mutex_Take] s1))"

subsection \<open>disConnect_aliyun.c, blue_test_uart3.c and main.c\<close>

definition atStr8 :: string where "atStr8 = ''AT+QMTDISC=0'' @ crlf @ [NUL, NUL]"

definition disConnect_aliyun :: "app \<Rightarrow> app" where
  "disConnect_aliyun s =
     (let s1 = (case my_nb101_connect_thread s of
                  Some t \<Rightarrow> (emit [Thread_Delete t] s)\<lparr>my_nb101_connect_thread := None\<rparr>
                | None \<Rightarrow> s)
      in deviceDisconnected (emit (locked [Dev_Write Uart1 atStr8 (of_nat (length atStr8))]) s1))"

definition uart3_str :: string where "uart3_str = ''my_usart3_thread initialize succeed!'' @ crlf"

definition uart3_begin :: "app \<Rightarrow> app" where
  "uart3_begin s =
     (emit ([Sem_Init Rx_Uart3_Self, Dev_Open Uart3 0x103, Dev_Indicate Uart3] @
            locked [Dev_Write Uart3 uart3_str (of_nat (length uart3_str))]) s)
       \<lparr>uart3_receivedStrs := replicate 100 NUL, uart3_charOffset := 0, uart3_open := True\<rparr>"

definition uart3_byte :: "char \<Rightarrow> app \<Rightarrow> app option" where
  "uart3_byte ch s = do {
     b1 \<leftarrow> set_at (uart3_receivedStrs s) (uart3_charOffset s) ch;
     b2 \<leftarrow> set_at b1 (uart3_charOffset s + 1) NUL;
     let n = uart3_charOffset s + 1;
     if strstr_found b2 crlf
     then do {
       b3 \<leftarrow> set_at b2 0 NUL;
       Some ((emit (locked [Kprintf (c_string b2) [], Dev_Write Uart1 b2 (of_nat n - 1), Dev_Write Uart3 b2 (of_nat n - 1)]) s)
               \<lparr>uart3_receivedStrs := b3, uart3_charOffset := 0\<rparr>)
     }
     else Some (s\<lparr>uart3_receivedStrs := b2, uart3_charOffset := n\<rparr>)
   }"

definition blue_test_uart3 :: "nat option \<Rightarrow> app \<Rightarrow> app" where
  "blue_test_uart3 created s =
     (if my_usart3_thread s \<noteq> None then s
      else let s1 = (emit [Thread_Create ''my_usart3'' 5 25] s)\<lparr>my_usart3_thread := created\<rparr>
           in case created of
                Some t \<Rightarrow> emit (locked [Kprintf uart3_str []] @ [Thread_Startup t]) s1
              | None \<Rightarrow> emit [Kprintf (''my_usart3_thread initialize failed!'' @ crlf) []] s1)"

definition app_globals :: app where
  "app_globals =
     \<lparr>relay_switch_isOn = 0, onTime = 800, offTime = 800,
      uart1_receivedStrs = replicate 100 NUL, uart1_charOffset = 0,
      uart1_global_receivedStrs = replicate 100 NUL, uart1_global_charOffset = 0,
      uart3_receivedStrs = [], uart3_charOffset = 0,
      rx_sem_connect = 0, rx_sem_uart1_ready = 0,
      my_usart1_thread = None, my_usart3_thread = None, my_nb101_connect_thread = None,
      isFirst = True, uart1_open = False, uart3_open = False, connect_pc = At_Entry, led_pc = Led_Begin, shell_pc = Shell_Idle, calls = []\<rparr>"

definition app_main :: "nat option \<Rightarrow> app option" where
  "app_main created =
     (case created of
        None \<Rightarrow> None
      | Some t \<Rightarrow> Some (emit [Kprintf (crlf @ ''BiShe_JiaCheng is ready!'' @ crlf) [], Mutex_Create ''print_mutex'',
                           Dev_Find ''uart1'', Dev_Find ''uart3'', Thread_Create ''shinning'' 25 20, Thread_Startup t]
                       (close_switch (init_switch app_globals))))"

end
