(* ===== verification/Door_System.thy ===== *)
theory Door_System
  imports Door_App Simulation
begin

text \<open>The threads and the shell commands of the application of Door_App as one transition system, and
  the properties of the application: the relay flag agrees with the relay pin as long as the modem
  does not switch the relay in the middle of a switch command of the shell, and a run in which it does
  and they disagree; a door command switches the relay and is reported, the login follows its
  protocol, and the inputs that overrun a buffer.\<close>

subsection \<open>Steps of the system\<close>

text \<open>The modem thread has the highest priority of the application (5, with the login thread and the
  thread of the second serial line; the shell has 20, the lamp 25), so that its handling of a byte is
  one step; it can come between the two pieces of a switch command of the shell.\<close>

inductive app_step :: "app \<Rightarrow> app \<Rightarrow> bool" where
  uart1_starts: "my_usart1_thread s \<noteq> None \<Longrightarrow> \<not> uart1_open s \<Longrightarrow> app_step s (uart1_begin s)"
| uart1_reads: "uart1_open s \<Longrightarrow> uart1_byte ch s = Some s' \<Longrightarrow> app_step s s'"
| uart3_starts: "my_usart3_thread s \<noteq> None \<Longrightarrow> \<not> uart3_open s \<Longrightarrow> app_step s (uart3_begin s)"
| uart3_reads: "uart3_open s \<Longrightarrow> uart3_byte ch s = Some s' \<Longrightarrow> app_step s s'"
| connect_starts: "my_nb101_connect_thread s \<noteq> None \<Longrightarrow> connect_pc s = At_Entry \<Longrightarrow> app_step s (connect_entry t s)"
| connect_is_ready: "my_nb101_connect_thread s \<noteq> None \<Longrightarrow> connect_pc s = At_Ready \<Longrightarrow>
    rx_sem_uart1_ready s \<noteq> 0 \<Longrightarrow> app_step s (connect_ready s)"
| connect_reads: "my_nb101_connect_thread s \<noteq> None \<Longrightarrow> connect_pc s = At_Reply k \<Longrightarrow>
    rx_sem_connect s \<noteq> 0 \<Longrightarrow> connect_reply k s = Some s' \<Longrightarrow> app_step s s'"
| led_starts: "led_pc s = Led_Begin \<Longrightarrow> app_step s (led_begin s)"
| led_lights: "led_pc s = Led_To_On \<Longrightarrow> app_step s (led_on s)"
| led_darkens: "led_pc s = Led_To_Off \<Longrightarrow> app_step s (led_off s)"
| shell_opens: "shell_pc s = Shell_Idle \<Longrightarrow> app_step s ((open_switch_pin s)\<lparr>shell_pc := Shell_Opening\<rparr>)"
| shell_opened: "shell_pc s = Shell_Opening \<Longrightarrow> app_step s ((open_switch_flag s)\<lparr>shell_pc := Shell_Idle\<rparr>)"
| shell_closes: "shell_pc s = Shell_Idle \<Longrightarrow> app_step s ((close_switch_pin s)\<lparr>shell_pc := Shell_Closing\<rparr>)"
| shell_closed: "shell_pc s = Shell_Closing \<Longrightarrow> app_step s ((close_switch_flag s)\<lparr>shell_pc := Shell_Idle\<rparr>)"
| shell_uart1: "shell_pc s = Shell_Idle \<Longrightarrow> app_step s (nb101_uart1 t s)"
| shell_uart3: "shell_pc s = Shell_Idle \<Longrightarrow> app_step s (blue_test_uart3 t s)"
| shell_connect: "shell_pc s = Shell_Idle \<Longrightarrow> app_step s (connect_aliyun t s)"
| shell_disconnect: "shell_pc s = Shell_Idle \<Longrightarrow> app_step s (disConnect_aliyun s)"
| shell_post: "shell_pc s = Shell_Idle \<Longrightarrow> post_to_aliyun argv s = Some s' \<Longrightarrow> app_step s s'"

subsection \<open>The relay\<close>

text \<open>The level that was last written to the relay pin.\<close>

fun pin_level :: "app_call \<Rightarrow> nat option \<Rightarrow> nat option" where
  "pin_level (Pin_Write p v) l = (if p = RELAY_SWITCH_NUM then Some v else l)"
| "pin_level _ l = l"

definition relay_level :: "app_call list \<Rightarrow> nat option" where
  "relay_level cs = fold pin_level cs None"

definition relay_ok :: "app \<Rightarrow> bool" where
  "relay_ok s =
     (relay_switch_isOn s = 0 \<and> relay_level (calls s) = Some PIN_HIGH \<or>
      relay_switch_isOn s = 1 \<and> relay_level (calls s) = Some PIN_LOW)"

fun touches_relay :: "app_call \<Rightarrow> bool" where
  "touches_relay (Pin_Write p v) = (p = RELAY_SWITCH_NUM)"
| "touches_relay _ = False"

definition quiet :: "app_call list \<Rightarrow> bool" where
  "quiet cs = list_all (\<lambda>c. \<not> touches_relay c) cs"

lemma pin_level_quiet: "\<not> touches_relay c \<Longrightarrow> pin_level c l = l"
  by (cases c) auto

lemma fold_quiet: "quiet cs \<Longrightarrow> fold pin_level cs l = l"
  by (induction cs arbitrary: l) (auto simp: quiet_def pin_level_quiet)

lemma relay_level_quiet: "quiet cs \<Longrightarrow> relay_level (calls s @ cs) = relay_level (calls s)"
  by (simp add: relay_level_def fold_quiet)

lemma quiet_simps [simp]:
  "quiet []" "quiet (c # cs) = (\<not> touches_relay c \<and> quiet cs)" "quiet (cs @ ds) = (quiet cs \<and> quiet ds)"
  "quiet (locked cs) = quiet cs"
  by (auto simp: quiet_def locked_def)

lemma emit_sel [simp]:
  "relay_switch_isOn (emit cs s) = relay_switch_isOn s" "onTime (emit cs s) = onTime s" "offTime (emit cs s) = offTime s"
  "uart1_receivedStrs (emit cs s) = uart1_receivedStrs s" "uart1_charOffset (emit cs s) = uart1_charOffset s"
  "uart1_global_receivedStrs (emit cs s) = uart1_global_receivedStrs s"
  "uart1_global_charOffset (emit cs s) = uart1_global_charOffset s"
  "uart3_receivedStrs (emit cs s) = uart3_receivedStrs s" "uart3_charOffset (emit cs s) = uart3_charOffset s"
  "rx_sem_connect (emit cs s) = rx_sem_connect s" "rx_sem_uart1_ready (emit cs s) = rx_sem_uart1_ready s"
  "my_usart1_thread (emit cs s) = my_usart1_thread s" "my_usart3_thread (emit cs s) = my_usart3_thread s"
  "my_nb101_connect_thread (emit cs s) = my_nb101_connect_thread s" "isFirst (emit cs s) = isFirst s"
  "uart1_open (emit cs s) = uart1_open s" "uart3_open (emit cs s) = uart3_open s"
  "connect_pc (emit cs s) = connect_pc s" "led_pc (emit cs s) = led_pc s" "shell_pc (emit cs s) = shell_pc s"
  "calls (emit cs s) = calls s @ cs"
  by (simp_all add: emit_def)

text \<open>What a function of the application does to the relay: it leaves flag and pin and the place of
  the shell alone, or sets flag and pin.\<close>

definition relay_kept :: "app \<Rightarrow> app \<Rightarrow> bool" where
  "relay_kept s s' =
     (relay_switch_isOn s' = relay_switch_isOn s \<and> relay_level (calls s') = relay_level (calls s) \<and> shell_pc s' = shell_pc s)"

lemmas switch_defs = open_switch_def close_switch_def open_switch_pin_def open_switch_flag_def
  close_switch_pin_def close_switch_flag_def

lemma relay_kept_refl [simp]: "relay_kept s s"
  by (simp add: relay_kept_def)

lemma relay_kept_trans: "relay_kept s s1 \<Longrightarrow> relay_kept s1 s2 \<Longrightarrow> relay_kept s s2"
  by (simp add: relay_kept_def)

lemma relay_kept_ok: "relay_kept s s' \<Longrightarrow> relay_ok s \<Longrightarrow> relay_ok s'"
  by (simp add: relay_kept_def relay_ok_def)

lemma relay_kept_emit: "quiet cs \<Longrightarrow> relay_kept s (emit cs s)"
  by (simp add: relay_kept_def relay_level_quiet)

lemma switch_ok [simp]: "relay_ok (open_switch s)" "relay_ok (close_switch s)"
  by (simp_all add: relay_ok_def switch_defs relay_level_def)

lemma quiet_calls [simp]:
  "quiet (map (\<lambda>c. Kprintf f (a c)) xs)" "quiet (send_step k)" "quiet (publish_status s)" "\<not> touches_relay (step_write d k)"
  by (induction xs) (simp_all add: send_step_def publish_status_def step_write_def Let_def)

lemmas relay_simps = relay_kept_def relay_level_quiet Let_def

lemma relay_kept_led: "relay_kept s (led_begin s)" "relay_kept s (led_on s)" "relay_kept s (led_off s)"
  by (simp_all add: relay_simps led_begin_def led_on_def led_off_def)

lemma relay_kept_uart: "relay_kept s (uart1_begin s)" "relay_kept s (uart3_begin s)"
  by (simp_all add: relay_simps uart1_begin_def uart3_begin_def)

lemma relay_kept_create:
  "relay_kept s (nb101_uart1 t s)" "relay_kept s (blue_test_uart3 t s)" "relay_kept s (connect_aliyun t s)"
  by (simp_all add: relay_simps nb101_uart1_def blue_test_uart3_def connect_aliyun_def split: option.split)

lemma relay_kept_disconnect: "relay_kept s (disConnect_aliyun s)"
  by (simp add: relay_simps disConnect_aliyun_def deviceDisconnected_def split: option.split)

lemma relay_kept_connect: "relay_kept s (connect_entry t s)" "relay_kept s (connect_ready s)"
proof -
  have begins: "relay_kept s (connect_begin s)" for s
    by (simp add: relay_simps connect_begin_def)
  have "relay_kept s (nb101_uart1 t (deviceConnecting s))"
    using relay_kept_create(1) [of "deviceConnecting s" t] by (simp add: relay_kept_def deviceConnecting_def)
  then show "relay_kept s (connect_entry t s)"
    using begins [of "nb101_uart1 t (deviceConnecting s)"] by (auto simp: connect_entry_def relay_simps)
  show "relay_kept s (connect_ready s)"
    using begins [of "s\<lparr>rx_sem_uart1_ready := rx_sem_uart1_ready s - 1, isFirst := False\<rparr>"]
    by (simp add: connect_ready_def relay_kept_def)
qed

lemma connect_clear_some: "connect_clear k s = Some s' \<Longrightarrow>
    relay_switch_isOn s' = relay_switch_isOn s \<and> calls s' = calls s \<and> onTime s' = onTime s \<and> offTime s' = offTime s \<and>
    connect_pc s' = At_Reply k \<and> shell_pc s' = shell_pc s \<and> my_nb101_connect_thread s' = my_nb101_connect_thread s \<and>
    uart1_receivedStrs s' = uart1_receivedStrs s \<and> uart1_charOffset s' = uart1_charOffset s \<and>
    length (uart1_global_receivedStrs s') = length (uart1_global_receivedStrs s) \<and>
    uart1_global_charOffset s' = 0 \<and> rx_sem_connect s' = rx_sem_connect s"
  by (auto simp: connect_clear_def set_at_def bind_eq_Some_conv split: if_splits)

lemma relay_kept_reply: "connect_reply k s = Some s' \<Longrightarrow> relay_kept s s'"
  by (auto simp: connect_reply_def connect_handle_def Let_def relay_kept_def relay_level_quiet connect_failed_def
      deviceDisconnected_def deviceConnected_def dest!: connect_clear_some split: if_splits)

lemma relay_kept_post: "post_to_aliyun argv s = Some s' \<Longrightarrow> relay_kept s s'"
  by (auto simp: post_to_aliyun_def Let_def bind_eq_Some_conv relay_kept_def relay_level_quiet split: if_splits)

lemma relay_kept_self_post: "relay_kept s (self_post_to_aliyun c s)"
  by (simp add: self_post_to_aliyun_def relay_simps)

lemma relay_kept_uart3: "uart3_byte ch s = Some s' \<Longrightarrow> relay_kept s s'"
  by (auto simp: uart3_byte_def Let_def bind_eq_Some_conv relay_kept_def relay_level_quiet split: if_splits)

lemma relay_ok_command:
  assumes "uart1_command line n s = Some s'" "relay_ok s"
  shows "relay_ok s'"
proof (cases "strstr_found line door_cmd")
  case True
  then show ?thesis
    using assms relay_kept_ok [OF relay_kept_self_post] by (auto simp: uart1_command_def Let_def split: if_splits)
next
  case False
  then show ?thesis
    using assms relay_kept_ok [OF relay_kept_emit] by (auto simp: uart1_command_def split: if_splits)
qed

lemma relay_ok_sel [simp]:
  "relay_ok (s\<lparr>uart1_receivedStrs := b, uart1_charOffset := n\<rparr>) = relay_ok s"
  "relay_ok (emit [Sem_Release Rx_Connect] (s\<lparr>uart1_global_receivedStrs := b, uart1_global_charOffset := n, rx_sem_connect := c\<rparr>)) = relay_ok s"
  by (simp_all add: relay_ok_def relay_level_def)

lemma relay_ok_line: "uart1_line s = Some s' \<Longrightarrow> relay_ok s \<Longrightarrow> relay_ok s'"
  by (auto simp: uart1_line_def Let_def bind_eq_Some_conv intro: relay_kept_ok [OF relay_kept_emit]
      dest: relay_ok_command split: if_splits)

lemma relay_ok_uart1: "uart1_byte ch s = Some s' \<Longrightarrow> relay_ok s \<Longrightarrow> relay_ok s'"
  by (auto simp: uart1_byte_def Let_def bind_eq_Some_conv dest: relay_ok_line split: if_splits)

lemma switch_place [simp]:
  "shell_pc (open_switch s) = shell_pc s" "shell_pc (close_switch s) = shell_pc s" "shell_pc (self_post_to_aliyun c s) = shell_pc s"
  "uart1_open (open_switch s) = uart1_open s" "uart1_open (close_switch s) = uart1_open s" "uart1_open (self_post_to_aliyun c s) = uart1_open s"
  by (simp_all add: switch_defs self_post_to_aliyun_def Let_def)

lemma uart1_command_place: "uart1_command line n s = Some s' \<Longrightarrow> shell_pc s' = shell_pc s \<and> uart1_open s' = uart1_open s"
  by (auto simp: uart1_command_def Let_def split: if_splits)

lemma uart1_byte_place:
  assumes "uart1_byte ch s = Some s'"
  shows "shell_pc s' = shell_pc s" "uart1_open s' = uart1_open s"
proof -
  have "shell_pc s2 = shell_pc s1 \<and> uart1_open s2 = uart1_open s1" if "uart1_line s1 = Some s2" for s1 s2
    using that by (auto simp: uart1_line_def Let_def bind_eq_Some_conv dest!: uart1_command_place split: if_splits)
  then show "shell_pc s' = shell_pc s" "uart1_open s' = uart1_open s"
    using assms by (fastforce simp: uart1_byte_def Let_def bind_eq_Some_conv split: if_splits)+
qed

text \<open>While the shell is between the two pieces of a switch command the pin has its new level. A step
  is undisturbed if no other thread switches the relay then.\<close>

definition relay_inv :: "app \<Rightarrow> bool" where
  "relay_inv s =
     (case shell_pc s of
        Shell_Idle \<Rightarrow> relay_ok s
      | Shell_Opening \<Rightarrow> relay_level (calls s) = Some PIN_LOW
      | Shell_Closing \<Rightarrow> relay_level (calls s) = Some PIN_HIGH)"

definition undisturbed :: "app \<Rightarrow> app \<Rightarrow> bool" where
  "undisturbed s s' \<longleftrightarrow> app_step s s' \<and>
     (shell_pc s \<noteq> Shell_Idle \<and> shell_pc s' \<noteq> Shell_Idle \<longrightarrow>
        relay_switch_isOn s' = relay_switch_isOn s \<and> relay_level (calls s') = relay_level (calls s))"

lemma relay_kept_inv: "relay_kept s s' \<Longrightarrow> relay_inv s \<Longrightarrow> relay_inv s'"
  by (auto simp: relay_kept_def relay_inv_def relay_ok_def split: shell_pc.splits)

lemmas relay_kept_steps = relay_kept_led relay_kept_uart relay_kept_create relay_kept_disconnect
  relay_kept_connect relay_kept_reply relay_kept_post relay_kept_uart3

text \<open>Every step but a byte of the modem and the two pieces of a switch command of the shell leaves the
  relay alone.\<close>

definition shell_switches :: "app \<Rightarrow> app \<Rightarrow> bool" where
  "shell_switches s s' \<longleftrightarrow>
     shell_pc s = Shell_Idle \<and> s' = (open_switch_pin s)\<lparr>shell_pc := Shell_Opening\<rparr> \<or>
     shell_pc s = Shell_Opening \<and> s' = (open_switch_flag s)\<lparr>shell_pc := Shell_Idle\<rparr> \<or>
     shell_pc s = Shell_Idle \<and> s' = (close_switch_pin s)\<lparr>shell_pc := Shell_Closing\<rparr> \<or>
     shell_pc s = Shell_Closing \<and> s' = (close_switch_flag s)\<lparr>shell_pc := Shell_Idle\<rparr>"

lemma app_step_relay: "app_step s s' \<Longrightarrow> relay_kept s s' \<or> (\<exists>ch. uart1_byte ch s = Some s') \<or> shell_switches s s'"
  by (induction rule: app_step.induct) (blast intro: relay_kept_steps | simp add: shell_switches_def)+

lemma relay_inv_switches: "shell_switches s s' \<Longrightarrow> relay_inv s \<Longrightarrow> relay_inv s'"
  by (auto simp: shell_switches_def relay_inv_def relay_ok_def switch_defs relay_level_def)

lemma relay_inv_step:
  assumes "undisturbed s s'" "relay_inv s"
  shows "relay_inv s'"
proof -
  consider "relay_kept s s'" | "shell_switches s s'" | ch where "uart1_byte ch s = Some s'" "shell_pc s = Shell_Idle"
      | ch where "uart1_byte ch s = Some s'" "shell_pc s \<noteq> Shell_Idle"
    using app_step_relay assms(1) unfolding undisturbed_def by blast
  then show ?thesis
  proof cases
    case 3
    then show ?thesis using relay_ok_uart1 [OF 3(1)] uart1_byte_place(1) [OF 3(1)] assms(2) by (simp add: relay_inv_def)
  next
    case 4
    then have "relay_kept s s'" using assms(1) uart1_byte_place(1) [OF 4(1)] by (simp add: undisturbed_def relay_kept_def)
    then show ?thesis using assms(2) by (rule relay_kept_inv)
  qed (use assms(2) relay_kept_inv relay_inv_switches in blast)+
qed

text \<open>Only the modem thread disturbs.\<close>

lemma disturbed_by_modem:
  assumes "app_step s s'" "\<not> undisturbed s s'"
  shows "\<exists>ch. uart1_byte ch s = Some s'"
proof -
  have "\<not> relay_kept s s'" "\<not> shell_switches s s'"
    using assms by (auto simp: undisturbed_def relay_kept_def shell_switches_def)
  then show ?thesis using app_step_relay [OF assms(1)] by blast
qed

subsection \<open>The system keeps its relay and its arrays\<close>

definition arrays :: "app \<Rightarrow> nat \<times> nat" where
  "arrays s = (length (uart1_receivedStrs s), length (uart1_global_receivedStrs s))"

lemma arrays_sel [simp]:
  "arrays (emit cs s) = arrays s" "arrays (open_switch s) = arrays s" "arrays (close_switch s) = arrays s"
  "arrays (self_post_to_aliyun c s) = arrays s"
  by (simp_all add: arrays_def switch_defs self_post_to_aliyun_def Let_def)

lemma arrays_command: "uart1_command line n s = Some s' \<Longrightarrow> arrays s' = arrays s"
  by (auto simp: uart1_command_def Let_def split: if_splits)

lemma arrays_line: "uart1_line s = Some s' \<Longrightarrow> arrays s' = arrays s"
  by (auto simp: uart1_line_def Let_def bind_eq_Some_conv c_strcpy_def dest!: arrays_command split: if_splits)
    (auto simp: arrays_def)

lemma arrays_uart1: "uart1_byte ch s = Some s' \<Longrightarrow> arrays s' = arrays s"
  by (auto simp: uart1_byte_def Let_def bind_eq_Some_conv set_at_def dest!: arrays_line split: if_splits)
    (auto simp: arrays_def)

lemma arrays_reply: "connect_reply k s = Some s' \<Longrightarrow> arrays s' = arrays s"
  by (auto simp: connect_reply_def connect_handle_def Let_def arrays_def connect_failed_def
      deviceDisconnected_def deviceConnected_def dest!: connect_clear_some split: if_splits)

lemma arrays_uart3: "uart3_byte ch s = Some s' \<Longrightarrow> arrays s' = arrays s"
  by (auto simp: uart3_byte_def Let_def bind_eq_Some_conv arrays_def split: if_splits)

lemma arrays_post: "post_to_aliyun argv s = Some s' \<Longrightarrow> arrays s' = arrays s"
  by (auto simp: post_to_aliyun_def Let_def bind_eq_Some_conv split: if_splits)

lemma arrays_step: "app_step s s' \<Longrightarrow> arrays s' = arrays s"
proof (induction rule: app_step.induct)
  case (connect_starts s t)
  have "arrays (nb101_uart1 t (deviceConnecting s)) = arrays s"
    by (simp add: arrays_def nb101_uart1_def deviceConnecting_def Let_def split: option.split)
  then show ?case by (simp add: arrays_def connect_entry_def connect_begin_def Let_def)
qed (auto simp: arrays_uart1 arrays_uart3 arrays_reply arrays_post,
     auto simp: arrays_def uart1_begin_def uart3_begin_def connect_ready_def connect_begin_def led_begin_def led_on_def led_off_def switch_defs
       nb101_uart1_def blue_test_uart3_def connect_aliyun_def disConnect_aliyun_def deviceDisconnected_def Let_def
       split: option.split)

interpretation asys: transition_system undisturbed relay_inv arrays
  by unfold_locales (rule relay_inv_step, assumption, assumption, rule arrays_step, simp add: undisturbed_def)

subsection \<open>The line buffer\<close>

lemma occurs_iff: "occurs n h \<longleftrightarrow> (\<exists>a b. h = a @ n @ b)"
proof (induction h)
  case (Cons c cs)
  have "take (length n) (c # cs) = n \<longleftrightarrow> (\<exists>b. c # cs = n @ b)"
    by (metis append_eq_conv_conj append_take_drop_id)
  moreover have "(\<exists>a b. c # cs = a @ n @ b) \<longleftrightarrow> (\<exists>b. c # cs = n @ b) \<or> (\<exists>a b. cs = a @ n @ b)"
    by (metis append_Cons append_Nil list.sel(3) neq_Nil_conv list.inject)
  ultimately show ?case using Cons.IH by simp
qed simp

lemma occurs_append: "occurs n h \<Longrightarrow> occurs n (a @ h @ b)"
  by (metis append.assoc occurs_iff)

lemma occurs_c_string: "occurs n (c_string h) \<Longrightarrow> occurs n h"
  using occurs_append [of n "c_string h" "[]" "dropWhile (\<lambda>c. c \<noteq> NUL) h"] by (simp add: c_string_def)

lemma c_string_id: "NUL \<notin> set h \<Longrightarrow> c_string h = h"
  unfolding c_string_def by (induction h) auto

text \<open>The array holds the characters xs of the line that has arrived so far, and a null byte behind them.\<close>

definition holds :: "string \<Rightarrow> string \<Rightarrow> bool" where
  "holds buf xs = (length buf = 100 \<and> length xs < 100 \<and> take (length xs) buf = xs \<and> buf ! length xs = NUL)"

lemma holds_c_string: "holds buf xs \<Longrightarrow> c_string buf = c_string xs"
proof -
  assume h: "holds buf xs"
  then have "buf = xs @ NUL # drop (Suc (length xs)) buf"
    unfolding holds_def by (metis append_take_drop_id Cons_nth_drop_Suc)
  moreover have "c_string (xs @ NUL # ys) = c_string xs" for ys
    unfolding c_string_def by (induction xs) auto
  ultimately show ?thesis by metis
qed

lemma holds_put:
  assumes "holds buf xs" "length xs < 99"
  obtains b where "set_at buf (length xs) ch = Some b"
    "set_at b (length xs + 1) NUL = Some (b[length xs + 1 := NUL])" "holds (b[length xs + 1 := NUL]) (xs @ [ch])"
proof -
  have "take (Suc (length xs)) (buf[length xs := ch]) = xs @ [ch]"
    using assms by (simp add: holds_def take_Suc_conv_app_nth)
  then show ?thesis
    using assms that [of "buf[length xs := ch]"] by (simp add: holds_def set_at_def)
qed

lemma holds_clear: "length b = 100 \<Longrightarrow> set_at b 0 NUL = Some (b[0 := NUL]) \<and> holds (b[0 := NUL]) []"
  by (auto simp: holds_def set_at_def)

definition line_in :: "app \<Rightarrow> string \<Rightarrow> bool" where
  "line_in s xs = (holds (uart1_receivedStrs s) xs \<and> uart1_charOffset s = length xs)"

fun uart1_bytes :: "string \<Rightarrow> app \<Rightarrow> app option" where
  "uart1_bytes [] s = Some s"
| "uart1_bytes (c # cs) s = do { s1 \<leftarrow> uart1_byte c s; uart1_bytes cs s1 }"

lemma uart1_bytes_append: "uart1_bytes (xs @ ys) s = do { s1 \<leftarrow> uart1_bytes xs s; uart1_bytes ys s1 }"
  by (induction xs arbitrary: s) (auto split: Option.bind_split)

lemma uart1_byte_collects:
  assumes "line_in s xs" "length xs < 99" "\<not> occurs crlf (c_string (xs @ [ch]))"
  obtains b where "uart1_byte ch s = Some (s\<lparr>uart1_receivedStrs := b, uart1_charOffset := length (xs @ [ch])\<rparr>)"
    "holds b (xs @ [ch])"
proof -
  from assms obtain b where b: "set_at (uart1_receivedStrs s) (length xs) ch = Some b"
    "set_at b (length xs + 1) NUL = Some (b[length xs + 1 := NUL])" "holds (b[length xs + 1 := NUL]) (xs @ [ch])"
    using holds_put unfolding line_in_def by blast
  show ?thesis
    by (rule that [of "b[length xs + 1 := NUL]"])
      (use assms b holds_c_string [OF b(3)] in \<open>simp_all add: line_in_def uart1_byte_def strstr_found_def\<close>)
qed

lemma uart1_byte_completes:
  assumes "line_in s xs" "length xs < 99" "occurs crlf (c_string (xs @ [ch]))"
  obtains b where "holds b (xs @ [ch])"
    "uart1_byte ch s = do {
       s2 \<leftarrow> uart1_line (s\<lparr>uart1_receivedStrs := b, uart1_charOffset := length (xs @ [ch])\<rparr>);
       b3 \<leftarrow> set_at (uart1_receivedStrs s2) 0 NUL;
       Some (s2\<lparr>uart1_receivedStrs := b3, uart1_charOffset := 0\<rparr>) }"
proof -
  from assms obtain b where b: "set_at (uart1_receivedStrs s) (length xs) ch = Some b"
    "set_at b (length xs + 1) NUL = Some (b[length xs + 1 := NUL])" "holds (b[length xs + 1 := NUL]) (xs @ [ch])"
    using holds_put unfolding line_in_def by blast
  show ?thesis
    by (rule that [of "b[length xs + 1 := NUL]"])
      (use assms b holds_c_string [OF b(3)] in \<open>simp_all add: line_in_def uart1_byte_def strstr_found_def\<close>)
qed

lemma uart1_bytes_collect:
  assumes "line_in s xs" "length xs + length ys < 100" "\<not> occurs crlf (xs @ ys)"
  shows "\<exists>b. uart1_bytes ys s = Some (s\<lparr>uart1_receivedStrs := b, uart1_charOffset := length (xs @ ys)\<rparr>) \<and>
    holds b (xs @ ys)"
  using assms
proof (induction ys arbitrary: s xs)
  case Nil
  then have "s = s\<lparr>uart1_receivedStrs := uart1_receivedStrs s, uart1_charOffset := length xs\<rparr>" by (simp add: line_in_def)
  with Nil show ?case unfolding line_in_def by (metis append_Nil2 uart1_bytes.simps(1))
next
  case (Cons y ys)
  have "\<not> occurs crlf (xs @ [y])"
    using Cons.prems(3) occurs_append [of crlf "xs @ [y]" "[]" ys] by auto
  then have "\<not> occurs crlf (c_string (xs @ [y]))" using occurs_c_string by blast
  moreover have "length xs < 99" using Cons.prems(2) by simp
  ultimately obtain b where b: "uart1_byte y s = Some (s\<lparr>uart1_receivedStrs := b, uart1_charOffset := length (xs @ [y])\<rparr>)"
    "holds b (xs @ [y])"
    using uart1_byte_collects Cons.prems(1) by blast
  then show ?case
    using Cons.IH [of "s\<lparr>uart1_receivedStrs := b, uart1_charOffset := length (xs @ [y])\<rparr>" "xs @ [y]"] Cons.prems(2,3)
    by (simp add: line_in_def)
qed

lemma uart1_bytes_line:
  assumes "line_in s []" "xs \<noteq> []" "length xs < 100" "NUL \<notin> set xs" "occurs crlf xs" "\<not> occurs crlf (butlast xs)"
  obtains b where "holds b xs"
    "uart1_bytes xs s = do {
       s2 \<leftarrow> uart1_line (s\<lparr>uart1_receivedStrs := b, uart1_charOffset := length xs\<rparr>);
       b3 \<leftarrow> set_at (uart1_receivedStrs s2) 0 NUL;
       Some (s2\<lparr>uart1_receivedStrs := b3, uart1_charOffset := 0\<rparr>) }"
proof -
  obtain ys ch where xs: "xs = ys @ [ch]" using assms(2) by (cases xs rule: rev_cases) auto
  obtain b where b: "uart1_bytes ys s = Some (s\<lparr>uart1_receivedStrs := b, uart1_charOffset := length ys\<rparr>)" "holds b ys"
    using uart1_bytes_collect [of s "[]" ys] assms xs by auto
  obtain b' where "holds b' xs"
    "uart1_byte ch (s\<lparr>uart1_receivedStrs := b, uart1_charOffset := length ys\<rparr>) = do {
       s2 \<leftarrow> uart1_line (s\<lparr>uart1_receivedStrs := b', uart1_charOffset := length xs\<rparr>);
       b3 \<leftarrow> set_at (uart1_receivedStrs s2) 0 NUL;
       Some (s2\<lparr>uart1_receivedStrs := b3, uart1_charOffset := 0\<rparr>) }"
    using uart1_byte_completes [of "s\<lparr>uart1_receivedStrs := b, uart1_charOffset := length ys\<rparr>" ys ch] b assms(3-5) xs
    by (auto simp: line_in_def c_string_id)
  then show ?thesis using that [of b'] b(1) xs by (simp add: uart1_bytes_append)
qed

text \<open>A complete line of the modem that fits into the buffer.\<close>

definition modem_line :: "string \<Rightarrow> bool" where
  "modem_line xs = (length xs < 100 \<and> NUL \<notin> set xs \<and> occurs crlf xs \<and> \<not> occurs crlf (butlast xs))"

lemma modem_line_bytes:
  assumes "line_in s []" "modem_line xs"
  obtains b where "holds b xs"
    "uart1_bytes xs s = do {
       s2 \<leftarrow> uart1_line (s\<lparr>uart1_receivedStrs := b, uart1_charOffset := length xs\<rparr>);
       b3 \<leftarrow> set_at (uart1_receivedStrs s2) 0 NUL;
       Some (s2\<lparr>uart1_receivedStrs := b3, uart1_charOffset := 0\<rparr>) }"
proof (rule uart1_bytes_line [of s xs])
  show "xs \<noteq> []" using assms(2) by (auto simp: modem_line_def crlf_def)
qed (use assms that in \<open>auto simp: modem_line_def\<close>)

text \<open>What has been written to a serial device: the first bytes of the buffer that is passed.\<close>

fun written :: "serial \<Rightarrow> app_call list \<Rightarrow> string list" where
  "written d [] = []"
| "written d (Dev_Write e b n # cs) = (if e = d then [take (unat n) b] else []) @ written d cs"
| "written d (c # cs) = written d cs"

lemma written_append [simp]: "written d (xs @ ys) = written d xs @ written d ys"
  by (induction xs rule: written.induct) auto

lemma written_locked [simp]: "written d (locked cs) = written d cs"
  by (simp add: locked_def)

lemma written_prints [simp]: "written d (map (\<lambda>c. Kprintf f (a c)) xs) = []"
  by (induction xs) auto

lemma property_lengths:
  "length onPropertyStr = 114" "length offPropertyStr = 114" "length end_str = 3"
  by (simp_all add: onPropertyStr_def offPropertyStr_def end_str_def post_command_def crlf_def)

lemma written_self_post:
  "written Uart1 (calls (self_post_to_aliyun c s)) = written Uart1 (calls s) @
     (if c = CHR ''0'' then [offPropertyStr, end_str] else if c = CHR ''1'' then [onPropertyStr, end_str] else [])"
  by (simp add: self_post_to_aliyun_def property_lengths)

lemma self_post_sel [simp]:
  "relay_switch_isOn (self_post_to_aliyun c s) = relay_switch_isOn s"
  "uart1_receivedStrs (self_post_to_aliyun c s) = uart1_receivedStrs s"
  by (simp_all add: self_post_to_aliyun_def Let_def)

lemma switch_sel [simp]:
  "relay_switch_isOn (open_switch s) = 1" "relay_switch_isOn (close_switch s) = 0"
  "uart1_receivedStrs (open_switch s) = uart1_receivedStrs s" "uart1_receivedStrs (close_switch s) = uart1_receivedStrs s"
  "written d (calls (open_switch s)) = written d (calls s)" "written d (calls (close_switch s)) = written d (calls s)"
  by (simp_all add: switch_defs)

subsection \<open>Properties of the relay and of the door commands\<close>

text \<open>C28: from main on, whatever the modem, the second serial line and the shell send and in whatever
  order the threads run, as long as the modem thread does not switch the relay between the pin write
  and the flag assignment of a switch command of the shell: whenever the shell is not inside such a
  command, the flag relay_switch_isOn is 1 exactly when the level last written to the relay pin is low
  and 0 exactly when it is high, so that the state published is that of the relay; inside the command
  the pin has the level that is asked for; and the arrays of the line buffers keep their size.\<close>

theorem relay_follows:
  assumes "app_main t = Some s0" "undisturbed\<^sup>*\<^sup>* s0 s"
  shows "(shell_pc s = Shell_Idle \<longrightarrow>
            relay_switch_isOn s = 0 \<and> relay_level (calls s) = Some PIN_HIGH \<or>
            relay_switch_isOn s = 1 \<and> relay_level (calls s) = Some PIN_LOW) \<and>
         (shell_pc s = Shell_Opening \<longrightarrow> relay_level (calls s) = Some PIN_LOW) \<and>
         (shell_pc s = Shell_Closing \<longrightarrow> relay_level (calls s) = Some PIN_HIGH) \<and>
         length (uart1_receivedStrs s) = 100 \<and> length (uart1_global_receivedStrs s) = 100"
proof -
  have "relay_ok s0" "shell_pc s0 = Shell_Idle" "arrays s0 = (100, 100)"
    using assms(1) relay_kept_ok [OF relay_kept_emit switch_ok(2)]
    by (auto simp: app_main_def init_switch_def split: option.splits) (simp_all add: arrays_def app_globals_def)
  then have s0: "relay_inv s0" "arrays s0 = (100, 100)" by (simp_all add: relay_inv_def)
  show ?thesis
    using asys.reach_inv [OF assms(2) s0(1)] asys.reach_kept [OF assms(2) s0(1)] s0(2)
    by (auto simp: relay_inv_def relay_ok_def arrays_def)
qed

text \<open>C29: a line with a door command that arrives while no login is under way switches the relay by its
  sixth character from the end: 0 closes the contact, 1 opens it, anything else leaves it; the new
  state is reported to the server, pin and flag agree, and the buffer is ready for the next line.\<close>

theorem door_command:
  assumes "line_in s []" "my_nb101_connect_thread s = None" "relay_ok s" "modem_line line" "occurs door_cmd line"
    and "c = line ! (length line - 6)"
  shows "\<exists>s'. uart1_bytes line s = Some s' \<and> line_in s' [] \<and> relay_ok s' \<and>
           relay_switch_isOn s' = (if c = CHR ''0'' then 0 else if c = CHR ''1'' then 1 else relay_switch_isOn s) \<and>
           written Uart1 (calls s') = written Uart1 (calls s) @
             (if c = CHR ''0'' then [offPropertyStr, end_str] else if c = CHR ''1'' then [onPropertyStr, end_str] else [])"
proof -
  obtain b where b: "holds b line" and run: "uart1_bytes line s = do {
       s2 \<leftarrow> uart1_line (s\<lparr>uart1_receivedStrs := b, uart1_charOffset := length line\<rparr>);
       b3 \<leftarrow> set_at (uart1_receivedStrs s2) 0 NUL;
       Some (s2\<lparr>uart1_receivedStrs := b3, uart1_charOffset := 0\<rparr>) }"
    using modem_line_bytes [OF assms(1,4)] by blast
  define s1 where "s1 = s\<lparr>uart1_receivedStrs := b, uart1_charOffset := length line\<rparr>"
  define s2 where "s2 = self_post_to_aliyun c
    (if c = CHR ''0'' then close_switch s1 else if c = CHR ''1'' then open_switch s1 else s1)"
  define s3 where "s3 = emit (locked (map (\<lambda>c. Kprintf ''%c'' [Arg_Int (of_char c)]) line)) s2"
  have len: "6 \<le> length line"
    using assms(5) unfolding occurs_iff door_cmd_def by fastforce
  have take: "take (length line) b = line" "length b = 100" using b by (auto simp: holds_def)
  then have nth: "b ! (length line - 6) = c"
    using assms(6) len nth_take [of "length line - 6" "length line" b] by simp
  have found: "strstr_found b door_cmd"
    using holds_c_string [OF b] assms(4,5) by (simp add: strstr_found_def modem_line_def c_string_id)
  have "uart1_command b (length line) s1 = Some s2"
    using found len nth by (simp add: uart1_command_def s2_def)
  then have "uart1_line s1 = Some s3"
    using assms(2) take by (simp add: uart1_line_def s3_def s1_def)
  moreover have "length (uart1_receivedStrs s3) = 100" using take by (simp add: s3_def s2_def s1_def)
  moreover have "relay_ok s3"
  proof -
    have "relay_ok (if c = CHR ''0'' then close_switch s1 else if c = CHR ''1'' then open_switch s1 else s1)"
      using assms(3) by (simp add: s1_def)
    then show ?thesis unfolding s3_def s2_def
      by (intro relay_kept_ok [OF relay_kept_emit] relay_kept_ok [OF relay_kept_self_post]) simp_all
  qed
  moreover have "relay_switch_isOn s3 = (if c = CHR ''0'' then 0 else if c = CHR ''1'' then 1 else relay_switch_isOn s)"
    by (simp add: s3_def s2_def s1_def)
  moreover have "written Uart1 (calls s3) = written Uart1 (calls s) @
      (if c = CHR ''0'' then [offPropertyStr, end_str] else if c = CHR ''1'' then [onPropertyStr, end_str] else [])"
    by (simp add: s3_def s2_def written_self_post s1_def)
  moreover have "relay_ok (s3\<lparr>uart1_receivedStrs := (uart1_receivedStrs s3)[0 := NUL], uart1_charOffset := 0\<rparr>)"
    using \<open>relay_ok s3\<close> by simp
  ultimately show ?thesis
    using run holds_clear [of "uart1_receivedStrs s3"] by (simp add: s1_def line_in_def)
qed

text \<open>C38: nothing bounds the line buffer of 100 bytes: the hundredth character in a row without a line
  end makes the thread write behind the array.\<close>

theorem uart1_overruns:
  assumes "line_in s []" "100 \<le> length xs" "\<not> occurs crlf (take 99 xs)"
  shows "uart1_bytes xs s = None"
proof -
  have split: "xs = take 99 xs @ xs ! 99 # drop 100 xs"
    using assms(2) id_take_nth_drop [of 99 xs] by simp
  obtain b where b: "uart1_bytes (take 99 xs) s = Some (s\<lparr>uart1_receivedStrs := b, uart1_charOffset := 99\<rparr>)"
    "holds b (take 99 xs)"
    using uart1_bytes_collect [of s "[]" "take 99 xs"] assms by auto
  then have "uart1_byte c (s\<lparr>uart1_receivedStrs := b, uart1_charOffset := 99\<rparr>) = None" for c
    by (simp add: uart1_byte_def set_at_def holds_def)
  then show ?thesis
    by (subst split) (simp add: uart1_bytes_append b(1))
qed

subsection \<open>The login\<close>

text \<open>The protocol: in step k the thread waits for the answer expected k, sends command k on it, and gives
  up on the answer refused k. The step after 8 publishes the state of the door.\<close>

datatype login = Waiting nat | Refused | Finished

definition expected :: "nat \<Rightarrow> string" where
  "expected k = (if k \<le> 4 then ''OK'' else if k = 5 then ''QMTOPEN: 0,0'' else if k = 6 then ''QMTCONN: 0,0,0''
                 else ''QMTSUB: 0,1,0,1'') @ crlf"

definition refused :: "nat \<Rightarrow> string option" where
  "refused k = (if k = 5 then Some ''QMTOPEN: 0,'' else if k = 6 then Some ''QMTCONN: 0,'' else None)"

definition command_text :: "nat \<Rightarrow> string" where
  "command_text k = butlast (stepStrs ! k)"

definition status_text :: "bool \<Rightarrow> string list" where
  "status_text on = [if on then uploadOnandDoorOnDataStr else uploadOnandDoorOffDataStr, end_str]"

definition login_next :: "bool \<Rightarrow> nat \<Rightarrow> string \<Rightarrow> login \<times> string list" where
  "login_next on k r =
     (if occurs (expected k) r
      then if k = 8 then (Finished, status_text on) else (Waiting (k + 1), [command_text k])
      else if (case refused k of Some f \<Rightarrow> occurs f r | None \<Rightarrow> False) then (Refused, [])
      else (Waiting k, []))"

fun login_spec :: "bool \<Rightarrow> nat \<Rightarrow> string list \<Rightarrow> login \<times> string list" where
  "login_spec on k [] = (Waiting k, [])"
| "login_spec on k (r # rs) =
     (case login_next on k r of
        (Waiting k', cs) \<Rightarrow> (case login_spec on k' rs of (l, ds) \<Rightarrow> (l, cs @ ds))
      | (l, cs) \<Rightarrow> (l, cs))"

definition led_times :: "login \<Rightarrow> int \<times> int" where
  "led_times l =
     (case l of Waiting k \<Rightarrow> if k \<le> 6 then (200, 200) else (200, 1800) | Refused \<Rightarrow> (800, 800) | Finished \<Rightarrow> (200, 1800))"

text \<open>The two threads together: a line of the modem arrives, is handed over, and is handled.\<close>

definition login_line :: "string \<Rightarrow> app \<Rightarrow> app option" where
  "login_line r s = do {
     s1 \<leftarrow> uart1_bytes r s;
     case connect_pc s1 of At_Reply k \<Rightarrow> connect_reply k s1 | _ \<Rightarrow> None
   }"

fun login_run :: "string list \<Rightarrow> app \<Rightarrow> app option" where
  "login_run [] s = Some s"
| "login_run (r # rs) s =
     (if my_nb101_connect_thread s = None then Some s else do { s1 \<leftarrow> login_line r s; login_run rs s1 })"

definition login_at :: "bool \<Rightarrow> login \<Rightarrow> app \<Rightarrow> bool" where
  "login_at on l s =
     (line_in s [] \<and> length (uart1_global_receivedStrs s) = 100 \<and> (relay_switch_isOn s \<noteq> 0) = on \<and>
      (onTime s, offTime s) = led_times l \<and>
      (case l of Waiting k \<Rightarrow> my_nb101_connect_thread s \<noteq> None \<and> connect_pc s = At_Reply k \<and> 2 \<le> k \<and> k \<le> 8
       | _ \<Rightarrow> my_nb101_connect_thread s = None))"

lemma countChars_loop_length: "NUL \<notin> set cs \<Longrightarrow> countChars_loop n cs = n + of_nat (length cs)"
  by (induction cs arbitrary: n) auto

lemma countChars_length: "NUL \<notin> set cs \<Longrightarrow> countChars cs = of_nat (length cs)"
  by (simp add: countChars_def countChars_loop_length)

lemma stepStrs_nth:
  "k < 10 \<Longrightarrow> stepStrs ! k \<noteq> [] \<and> length (stepStrs ! k) < 256 \<and> NUL \<notin> set (stepStrs ! k)"
  by (subgoal_tac "k \<in> {0,1,2,3,4,5,6,7,8,9}") (auto simp: stepStrs_def crlf_def)

lemma written_step [simp]:
  assumes "k < 10"
  shows "written d [step_write e k] = (if e = d then [command_text k] else [])"
proof -
  have n: "stepStrs ! k \<noteq> []" "length (stepStrs ! k) < 256" "NUL \<notin> set (stepStrs ! k)"
    using stepStrs_nth assms by auto
  then have "unat (ucast (of_nat (length (stepStrs ! k)) :: u8) - 1 :: u32) = length (stepStrs ! k) - 1"
    by (simp add: unat_sub_if' unat_of_nat take_bit_nat_eq_self unsigned_ucast_eq Suc_le_eq flip: take_bit_eq_mod)
  then show ?thesis
    using n by (simp add: step_write_def countChars_length command_text_def butlast_conv_take)
qed

lemma written_send [simp]: "k < 10 \<Longrightarrow> written Uart1 (send_step k) = [command_text k]"
  using written_step [of k Uart1 Uart1] written_step [of k Uart1 Uart3] by (simp add: send_step_def step_write_def)

lemma written_status: "written Uart1 (publish_status s) = status_text (relay_switch_isOn s \<noteq> 0)"
proof -
  have "length uploadOnandDoorOnDataStr < 2 ^ 32" "length uploadOnandDoorOffDataStr < 2 ^ 32"
    by (simp_all add: uploadOnandDoorOnDataStr_def uploadOnandDoorOffDataStr_def crlf_def)
  then show ?thesis
    by (simp add: publish_status_def status_text_def end_str_def unat_of_nat take_bit_nat_eq_self Let_def
        flip: take_bit_eq_mod)
qed

lemma hand_over:
  assumes "line_in s []" "modem_line r" "my_nb101_connect_thread s \<noteq> None" "length (uart1_global_receivedStrs s) = 100"
  obtains b g where "uart1_bytes r s = Some ((emit [Sem_Release Rx_Connect]
        (s\<lparr>uart1_global_receivedStrs := g, uart1_global_charOffset := length r, rx_sem_connect := rx_sem_connect s + 1\<rparr>))
      \<lparr>uart1_receivedStrs := b, uart1_charOffset := 0\<rparr>)"
    "holds b []" "length g = 100" "c_string g = r"
proof -
  obtain b where b: "holds b r" and run: "uart1_bytes r s = do {
       s2 \<leftarrow> uart1_line (s\<lparr>uart1_receivedStrs := b, uart1_charOffset := length r\<rparr>);
       b3 \<leftarrow> set_at (uart1_receivedStrs s2) 0 NUL;
       Some (s2\<lparr>uart1_receivedStrs := b3, uart1_charOffset := 0\<rparr>) }"
    using modem_line_bytes [OF assms(1,2)] by blast
  have r: "NUL \<notin> set r" "length r < 100" using assms(2) by (auto simp: modem_line_def)
  have c: "c_string b = r" using holds_c_string [OF b] r by (simp add: c_string_id)
  define g where "g = r @ [NUL] @ drop (length r + 1) (uart1_global_receivedStrs s)"
  have "NUL \<in> set b"
    using b nth_mem [of "length r" b] by (simp add: holds_def)
  then have "c_strcpy (uart1_global_receivedStrs s) b = Some g"
    using c r assms(4) by (simp add: c_strcpy_def g_def Let_def)
  moreover have "c_string g = r" unfolding g_def c_string_def using r by (auto simp: takeWhile_append)
  moreover have "length g = 100" using r assms(4) by (simp add: g_def)
  ultimately show ?thesis
    using that [where b = "b[0 := NUL]" and g = g] run holds_clear [of b] b assms(3)
    by (simp add: uart1_line_def holds_def emit_def)
qed

lemma clear_at:
  assumes "login_at on (Waiting k) s"
  shows "\<exists>s'. connect_clear k s = Some s' \<and> login_at on (Waiting k) s' \<and> calls s' = calls s"
  using assms holds_clear [of "uart1_global_receivedStrs s"] by (auto simp: login_at_def connect_clear_def line_in_def)

lemma clear_advance:
  assumes "login_at on (Waiting (k + 1)) (s\<lparr>connect_pc := At_Reply (k + 1)\<rparr>)"
  shows "\<exists>s'. connect_clear (k + 1) s = Some s' \<and> login_at on (Waiting (k + 1)) s' \<and> calls s' = calls s"
  using clear_at [OF assms] by (auto simp: connect_clear_def)

lemma handle_stays:
  assumes "login_at on (Waiting k) s" "k \<noteq> 6" "k \<noteq> 8"
  shows "\<exists>s'. connect_clear (k + 1) (emit xs s) = Some s' \<and> login_at on (Waiting (k + 1)) s' \<and> calls s' = calls s @ xs"
  using clear_advance [of on k "emit xs s"] assms by (simp add: login_at_def line_in_def led_times_def)

lemma handle_connects:
  assumes "login_at on (Waiting 6) s"
  shows "\<exists>s'. connect_clear (6 + 1) (emit xs (deviceConnected s)) = Some s' \<and> login_at on (Waiting (6 + 1)) s' \<and>
    calls s' = calls s @ xs"
  using clear_advance [of on 6 "emit xs (deviceConnected s)"] assms
  by (simp add: login_at_def line_in_def led_times_def deviceConnected_def)

lemma handle_fails:
  assumes "login_at on (Waiting k) s"
  shows "login_at on Refused (connect_failed s)" "written Uart1 (calls (connect_failed s)) = written Uart1 (calls s)"
  using assms by (simp_all add: login_at_def line_in_def led_times_def connect_failed_def deviceDisconnected_def)

lemma handle_finishes:
  assumes "login_at on (Waiting 8) s"
  shows "login_at on Finished ((emit (publish_status s) s)\<lparr>my_nb101_connect_thread := None\<rparr>)"
    "written Uart1 (calls s @ publish_status s) = written Uart1 (calls s) @ status_text on"
  using assms by (simp_all add: login_at_def line_in_def led_times_def written_status)

text \<open>A call of rt_kprintf has the arguments its format asks for.\<close>

fun prints :: "app_call \<Rightarrow> bool" where
  "prints (Kprintf f as) \<longleftrightarrow> fmt_text f as \<noteq> None"
| "prints _ \<longleftrightarrow> True"

lemma plain_prints: "CHR ''%'' \<notin> set f \<Longrightarrow> prints (Kprintf f [])"
  by (induction f) (auto simp: fmt_steps)

lemma prints_locked [simp]: "list_all prints (locked cs) = list_all prints cs"
  by (simp add: locked_def)

lemma prints_step: "k \<le> 8 \<Longrightarrow> prints (Kprintf (stepStrs ! k) [])"
  by (rule plain_prints, subgoal_tac "k \<in> {0,1,2,3,4,5,6,7,8}") (auto simp: stepStrs_def crlf_def)

lemma prints_send:
  "k \<le> 8 \<Longrightarrow> list_all prints (send_step k)" "list_all prints (publish_status s)" "prints (step_write d k)"
  using prints_step [of k] by (simp_all add: send_step_def publish_status_def step_write_def Let_def del: prints.simps(1))

lemma handle_prints:
  assumes "connect_handle k s = Some s'" "k \<le> 8"
  shows "\<exists>new. calls s' = calls s @ new \<and> list_all prints new"
  using assms unfolding connect_handle_def Let_def
  by (auto simp: connect_failed_def deviceDisconnected_def deviceConnected_def prints_step prints_send plain_prints
      failed_str_def crlf_def simp del: prints.simps(1) dest!: connect_clear_some split: if_splits)

lemma login_handle:
  assumes at: "login_at on (Waiting k) s" and nxt: "login_next on k (c_string (uart1_global_receivedStrs s)) = (l, cs)"
  shows "\<exists>s'. connect_handle k s = Some s' \<and> login_at on l s' \<and> written Uart1 (calls s') = written Uart1 (calls s) @ cs"
proof -
  have six: "written Uart1 [Kprintf (stepStrs ! 6) [], Kprintf (''Connecting successed!'' @ crlf) [],
      step_write Uart3 6, step_write Uart1 6] = [command_text 6]"
    using written_step [of 6 Uart1 Uart1] written_step [of 6 Uart1 Uart3] by (simp add: step_write_def)
  have range: "2 \<le> k" "k \<le> 8" using at by (auto simp: login_at_def)
  then consider "k \<le> 4 \<or> k = 5 \<or> k = 7" | "k = 6" | "k = 8" by linarith
  then show ?thesis
  proof cases
    case 1
    then show ?thesis
      using nxt clear_at [OF at] handle_stays [OF at, of "send_step k"] handle_fails [OF at]
      unfolding connect_handle_def login_next_def Let_def
      by (elim disjE) (auto simp: expected_def refused_def strstr_found_def split: if_splits)
  next
    case 2
    then show ?thesis
      using nxt clear_at [OF at] handle_connects [of on s] handle_fails [OF at] at six
      unfolding connect_handle_def login_next_def Let_def
      by (fastforce simp: expected_def refused_def strstr_found_def split: if_splits)
  next
    case 3
    then show ?thesis
      using nxt clear_at [OF at] handle_finishes [of on s] at unfolding connect_handle_def login_next_def Let_def
      by (auto simp: expected_def refused_def strstr_found_def split: if_splits)
  qed
qed

lemma login_line_next:
  assumes at: "login_at on (Waiting k) s" and "modem_line r" and "login_next on k r = (l, cs)" and plain: "CHR ''%'' \<notin> set r"
  shows "\<exists>s' new. login_line r s = Some s' \<and> login_at on l s' \<and> written Uart1 (calls s') = written Uart1 (calls s) @ cs \<and>
    calls s' = calls s @ new \<and> list_all prints new"
proof -
  obtain b g where bytes: "uart1_bytes r s = Some ((emit [Sem_Release Rx_Connect]
        (s\<lparr>uart1_global_receivedStrs := g, uart1_global_charOffset := length r, rx_sem_connect := rx_sem_connect s + 1\<rparr>))
      \<lparr>uart1_receivedStrs := b, uart1_charOffset := 0\<rparr>)" (is "_ = Some ?s1")
    and b: "holds b []" and g: "length g = 100" "c_string g = r"
    using hand_over [of s r] at assms(2) by (auto simp: login_at_def)
  define s2 where "s2 = emit (Sem_Take Rx_Connect #
      locked [Kprintf (c_string g) [], Dev_Write Uart3 g (of_nat (length r) - 1)]) (?s1\<lparr>rx_sem_connect := rx_sem_connect s\<rparr>)"
  have "login_at on (Waiting k) s2" "written Uart1 (calls s2) = written Uart1 (calls s)" "uart1_global_receivedStrs s2 = g"
    using at b g by (simp_all add: s2_def login_at_def line_in_def)
  moreover have "login_line r s = connect_handle k s2"
    using bytes at by (simp add: login_line_def connect_reply_def s2_def login_at_def)
  moreover have "calls s2 = calls s @ Sem_Release Rx_Connect # Sem_Take Rx_Connect #
      locked [Kprintf r [], Dev_Write Uart3 g (of_nat (length r) - 1)]" using g(2) by (simp add: s2_def)
  moreover have "k \<le> 8" using at by (simp add: login_at_def)
  moreover obtain s' where s': "connect_handle k s2 = Some s'" "login_at on l s'" "written Uart1 (calls s') = written Uart1 (calls s2) @ cs"
    using login_handle [of on k s2 l cs] assms(3) g calculation(1,3) by auto
  moreover obtain new where "calls s' = calls s2 @ new" "list_all prints new"
    using handle_prints [OF s'(1) calculation(6)] by blast
  ultimately show ?thesis using plain_prints [OF plain] by (auto simp del: prints.simps(1))
qed

lemma login_run_ended: "my_nb101_connect_thread s = None \<Longrightarrow> login_run rs s = Some s"
  by (cases rs) simp_all

lemma login_run_spec:
  assumes "login_at on (Waiting k) s" "\<forall>r\<in>set rs. modem_line r \<and> CHR ''%'' \<notin> set r" "login_spec on k rs = (l, cs)"
  shows "\<exists>s' new. login_run rs s = Some s' \<and> login_at on l s' \<and> written Uart1 (calls s') = written Uart1 (calls s) @ cs \<and>
    calls s' = calls s @ new \<and> list_all prints new"
  using assms
proof (induction rs arbitrary: s k cs)
  case (Cons r rs)
  obtain l1 cs1 where nxt: "login_next on k r = (l1, cs1)" by fastforce
  then obtain s1 new1 where s1: "login_line r s = Some s1" "login_at on l1 s1"
    "written Uart1 (calls s1) = written Uart1 (calls s) @ cs1" "calls s1 = calls s @ new1" "list_all prints new1"
    using login_line_next [OF Cons.prems(1), of r l1 cs1] Cons.prems(2) by auto
  have thread: "my_nb101_connect_thread s \<noteq> None" using Cons.prems(1) by (simp add: login_at_def)
  then have run: "login_run (r # rs) s = login_run rs s1" using s1(1) by auto
  show ?case
  proof (cases l1)
    case (Waiting k')
    with Cons.prems(3) nxt obtain ds where "login_spec on k' rs = (l, ds)" "cs = cs1 @ ds"
      by (auto split: prod.splits)
    then show ?thesis
      using Cons.IH [of k' s1 ds] s1 Waiting Cons.prems(2) run by auto
  next
    case Refused
    then show ?thesis using Cons.prems(3) nxt s1 run login_run_ended [of s1] by (simp add: login_at_def)
  next
    case Finished
    then show ?thesis using Cons.prems(3) nxt s1 run login_run_ended [of s1] by (simp add: login_at_def)
  qed
qed simp

definition steps_to :: "nat \<Rightarrow> login \<Rightarrow> string list \<Rightarrow> bool" where
  "steps_to k l rs =
     (case l of
        Waiting m \<Rightarrow> k \<le> m \<and> (\<exists>as. subseq as rs \<and> list_all2 (\<lambda>i r. occurs (expected i) r) [k..<m] as)
      | Finished \<Rightarrow> (\<exists>as. subseq as rs \<and> list_all2 (\<lambda>i r. occurs (expected i) r) [k..<9] as)
      | Refused \<Rightarrow> True)"

lemma steps_to_skip: "steps_to k l rs \<Longrightarrow> steps_to k l (r # rs)"
  by (auto simp: steps_to_def split: login.splits)

lemma steps_to_step:
  assumes "occurs (expected k) r" "steps_to (k + 1) l rs" "k < 8"
  shows "steps_to k l (r # rs)"
proof (cases l)
  case (Waiting m)
  with assms obtain as where as: "k < m" "subseq as rs" "list_all2 (\<lambda>i r. occurs (expected i) r) [k + 1..<m] as"
    by (auto simp: steps_to_def)
  with assms(1) have "list_all2 (\<lambda>i r. occurs (expected i) r) [k..<m] (r # as)" by (simp add: upt_conv_Cons)
  with as Waiting show ?thesis by (auto simp: steps_to_def intro!: exI [of _ "r # as"])
next
  case Finished
  with assms obtain as where as: "subseq as rs" "list_all2 (\<lambda>i r. occurs (expected i) r) [k + 1..<9] as"
    by (auto simp: steps_to_def)
  with assms(1,3) have "list_all2 (\<lambda>i r. occurs (expected i) r) [k..<9] (r # as)" by (simp add: upt_conv_Cons)
  with as Finished show ?thesis by (auto simp: steps_to_def intro!: exI [of _ "r # as"])
qed (simp add: steps_to_def)

lemma login_spec_steps:
  assumes "login_spec on k rs = (l, cs)" "k \<le> 8"
  shows "steps_to k l rs \<and> (l = Finished \<longrightarrow> cs = map command_text [k..<8] @ status_text on)"
  using assms
proof (induction rs arbitrary: k cs)
  case Nil
  then show ?case by (auto simp: steps_to_def)
next
  case (Cons r rs)
  show ?case
  proof (cases "occurs (expected k) r")
    case True
    show ?thesis
    proof (cases "k = 8")
      case True
      then have "list_all2 (\<lambda>i r. occurs (expected i) r) [k..<9] [r]"
        using \<open>occurs (expected k) r\<close> by (simp add: upt_conv_Cons)
      with True \<open>occurs (expected k) r\<close> Cons.prems(1) show ?thesis
        by (auto simp: login_next_def steps_to_def intro!: exI [of _ "[r]"])
    next
      case False
      with True Cons.prems obtain ds where "login_spec on (k + 1) rs = (l, ds)" "cs = command_text k # ds"
        by (auto simp: login_next_def split: prod.splits)
      with Cons.IH [of "k + 1" ds] Cons.prems(2) False True show ?thesis
        by (auto intro: steps_to_step simp: upt_conv_Cons)
    qed
  next
    case False
    then show ?thesis
      using Cons.prems Cons.IH [of k cs] steps_to_skip
      by (auto simp: login_next_def steps_to_def [of k Refused] split: prod.splits if_splits)
  qed
qed

lemma all_ones: "(0xffffffff :: u32) = - 1"
  by simp

lemma handle_effect:
  assumes "connect_handle k s = Some s'"
  shows "set (calls s) \<subseteq> set (calls s')"
    "my_nb101_connect_thread s' \<noteq> None \<Longrightarrow> uart1_global_charOffset s' = 0 \<and> rx_sem_connect s' = rx_sem_connect s"
  using assms unfolding connect_handle_def Let_def
  by (auto simp: connect_failed_def deviceDisconnected_def deviceConnected_def dest!: connect_clear_some split: if_splits)

lemma login_at_hand_over:
  assumes "login_at on (Waiting k) s" "modem_line r"
  obtains s1 where "uart1_bytes r s = Some s1" "login_at on (Waiting k) s1" "rx_sem_connect s1 = rx_sem_connect s + 1"
    "c_string (uart1_global_receivedStrs s1) = r"
proof -
  obtain b g where bytes: "uart1_bytes r s = Some ((emit [Sem_Release Rx_Connect]
        (s\<lparr>uart1_global_receivedStrs := g, uart1_global_charOffset := length r, rx_sem_connect := rx_sem_connect s + 1\<rparr>))
      \<lparr>uart1_receivedStrs := b, uart1_charOffset := 0\<rparr>)"
    and "holds b []" "length g = 100" "c_string g = r"
    using hand_over [of s r] assms by (auto simp: login_at_def)
  then show ?thesis using that [OF bytes] assms(1) by (simp add: login_at_def line_in_def)
qed

lemma login_at_reply:
  assumes "login_at on (Waiting k) s" "login_next on k (c_string (uart1_global_receivedStrs s)) = (l, cs)"
  obtains s' where "connect_reply k s = Some s'" "login_at on l s'"
    "Dev_Write Uart3 (uart1_global_receivedStrs s) (of_nat (uart1_global_charOffset s) - 1) \<in> set (calls s')"
    "my_nb101_connect_thread s' \<noteq> None \<Longrightarrow> uart1_global_charOffset s' = 0 \<and> rx_sem_connect s' = rx_sem_connect s - 1"
    "Kprintf (c_string (uart1_global_receivedStrs s)) [] \<in> set (calls s')"
proof -
  define s1 where "s1 = emit (Sem_Take Rx_Connect # locked [Kprintf (c_string (uart1_global_receivedStrs s)) [],
      Dev_Write Uart3 (uart1_global_receivedStrs s) (of_nat (uart1_global_charOffset s) - 1)])
    (s\<lparr>rx_sem_connect := rx_sem_connect s - 1\<rparr>)"
  have "login_at on (Waiting k) s1" "c_string (uart1_global_receivedStrs s1) = c_string (uart1_global_receivedStrs s)"
    using assms(1) by (simp_all add: s1_def login_at_def line_in_def)
  then obtain s' where "connect_handle k s1 = Some s'" "login_at on l s'"
    using login_handle [of on k s1 l cs] assms(2) by auto
  moreover have "connect_reply k s = connect_handle k s1" by (simp add: connect_reply_def s1_def Let_def)
  ultimately show ?thesis
    using that [of s'] handle_effect [of k s1 s'] by (simp add: s1_def locked_def subset_iff)
qed

subsection \<open>Properties of the login\<close>

text \<open>C30: when each line of the modem is handled by the login thread before the next byte arrives, and
  no line contains a percent sign, the two threads carry out the login protocol for every sequence of
  lines: the commands sent are those of the protocol in their order, the thread waits, gives up or
  ends as the protocol does, the lamp shows the state, everything that is printed has the arguments
  its format asks for, and the login finishes only after the expected answer to every command has
  come, in the order of the commands.\<close>

theorem login_protocol:
  assumes "login_at on (Waiting k) s" "\<forall>r\<in>set rs. modem_line r \<and> CHR ''%'' \<notin> set r" "login_spec on k rs = (l, cs)"
  shows "\<exists>s' new. login_run rs s = Some s' \<and> login_at on l s' \<and> written Uart1 (calls s') = written Uart1 (calls s) @ cs \<and>
           calls s' = calls s @ new \<and> list_all prints new \<and>
           (l = Finished \<longrightarrow> cs = map command_text [k..<8] @ status_text on \<and>
              (\<exists>as. subseq as rs \<and> list_all2 (\<lambda>i r. occurs (expected i) r) [k..<9] as))"
proof -
  have "k \<le> 8" using assms(1) by (simp add: login_at_def)
  then have "steps_to k l rs \<and> (l = Finished \<longrightarrow> cs = map command_text [k..<8] @ status_text on)"
    by (rule login_spec_steps [OF assms(3)])
  then show ?thesis
    using login_run_spec [OF assms] by (auto simp: steps_to_def)
qed

text \<open>C39: when a second line is complete before the login thread has handled the first, the first is
  lost, and the thread handles the second and then an empty answer, for which it passes the length
  0 - 1, four gigabytes, to rt_device_write.\<close>

theorem stale_reply_overruns:
  assumes "login_at on (Waiting k) s" "rx_sem_connect s = 0" "modem_line r1" "modem_line r2"
    and "login_next on k r2 = (Waiting m, cs)"
  shows "\<exists>s1 s2 s3. uart1_bytes (r1 @ r2) s = Some s1 \<and> rx_sem_connect s1 = 2 \<and>
           connect_reply k s1 = Some s2 \<and> connect_pc s2 = At_Reply m \<and> rx_sem_connect s2 = 1 \<and>
           connect_reply m s2 = Some s3 \<and>
           Dev_Write Uart3 (uart1_global_receivedStrs s2) 0xffffffff \<in> set (calls s3)"
proof -
  obtain sa where sa: "uart1_bytes r1 s = Some sa" "login_at on (Waiting k) sa" "rx_sem_connect sa = 1"
    using login_at_hand_over [OF assms(1,3)] assms(2) by auto
  then obtain s1 where s1: "uart1_bytes r2 sa = Some s1" "login_at on (Waiting k) s1" "rx_sem_connect s1 = 2"
    "c_string (uart1_global_receivedStrs s1) = r2"
    using login_at_hand_over [OF sa(2) assms(4)] by auto
  have nxt: "login_next on k (c_string (uart1_global_receivedStrs s1)) = (Waiting m, cs)"
    using s1(4) assms(5) by simp
  obtain s2 where s2: "connect_reply k s1 = Some s2" "login_at on (Waiting m) s2"
    and "my_nb101_connect_thread s2 \<noteq> None \<Longrightarrow> uart1_global_charOffset s2 = 0 \<and> rx_sem_connect s2 = rx_sem_connect s1 - 1"
    using login_at_reply [OF s1(2) nxt] by blast
  then have empty: "uart1_global_charOffset s2 = 0" "rx_sem_connect s2 = 1" using s1(3) by (auto simp: login_at_def)
  obtain l ds where nxt2: "login_next on m (c_string (uart1_global_receivedStrs s2)) = (l, ds)" by fastforce
  obtain s3 where "connect_reply m s2 = Some s3"
    "Dev_Write Uart3 (uart1_global_receivedStrs s2) (of_nat (uart1_global_charOffset s2) - 1) \<in> set (calls s3)"
    using login_at_reply [OF s2(2) nxt2] by blast
  then show ?thesis
    using sa(1) s1(1,3) s2 empty by (auto simp: uart1_bytes_append login_at_def all_ones)
qed

text \<open>C40: post_to_aliyun appends to an array that is full: every call it accepts, two words of which the
  second is one character, writes behind the array, and only the calls it rejects return.\<close>

theorem post_overruns:
  "post_to_aliyun argv s = None \<longleftrightarrow> length argv = 2 \<and> length (c_string (argv ! 1)) = 1"
proof -
  have "c_strcat postStr w = None" if "length (c_string w) = 1" for w
    using that by (simp add: c_strcat_def postStr_def c_string_def takeWhile_append)
  then show ?thesis by (auto simp: post_to_aliyun_def Let_def)
qed

text \<open>The login thread prints the lines of the modem with rt_kprintf as formats: a line with a conversion
  asks for an argument that was not passed.\<close>

lemma reply_is_format:
  assumes "login_at on (Waiting k) s" "c_string (uart1_global_receivedStrs s) = ''+%s'' @ crlf"
  shows "\<exists>s'. connect_reply k s = Some s' \<and> Kprintf (''+%s'' @ crlf) [] \<in> set (calls s') \<and>
    rt_vsnprintf buf sz (''+%s'' @ crlf) [] m = None"
proof -
  have "fmt_text (''+%s'' @ crlf) [] = None" unfolding crlf_def by code_simp
  then have none: "rt_vsnprintf buf sz (''+%s'' @ crlf) [] m = None"
    by (simp add: rt_vsnprintf_def fmt_loop_eq Let_def)
  obtain l cs where "login_next on k (c_string (uart1_global_receivedStrs s)) = (l, cs)" by fastforce
  then show ?thesis
    using none assms(2) login_at_reply [OF assms(1), of l cs] by metis
qed

subsection \<open>Examples\<close>

text \<open>The application after main, and after the shell command connect_aliyun has started both threads.\<close>

definition appex :: app where
  "appex = emit [Kprintf (crlf @ ''BiShe_JiaCheng is ready!'' @ crlf) [], Mutex_Create ''print_mutex'',
                 Dev_Find ''uart1'', Dev_Find ''uart3'', Thread_Create ''shinning'' 25 20, Thread_Startup 1]
             (close_switch (init_switch app_globals))"

definition loginex :: app where
  "loginex = connect_ready (uart1_begin (connect_entry (Some 3) (connect_aliyun (Some 2) appex)))"

definition door_line :: string where
  "door_line = ''+QMTRECV: {\"deviceType\":\"DoorContact\",\"s\":1}}}'' @ crlf"

definition login_lines :: "string list" where
  "login_lines = [''OK'' @ crlf, ''OK'' @ crlf, ''OK'' @ crlf, ''+QMTOPEN: 0,0'' @ crlf, crlf,
     ''+QMTCONN: 0,0,0'' @ crlf, ''+QMTSUB: 0,1,0,1'' @ crlf, ''+QMTSUB: 0,1,0,1'' @ crlf]"

lemma appex_main: "app_main (Some 1) = Some appex"
  by (simp add: app_main_def appex_def)

theorem relay_follows_witness:
  "\<exists>s. undisturbed\<^sup>*\<^sup>* appex s \<and> shell_pc s = Shell_Idle \<and> relay_switch_isOn s = 1 \<and> relay_level (calls s) = Some PIN_LOW"
proof -
  define s1 where "s1 = (open_switch_pin appex)\<lparr>shell_pc := Shell_Opening\<rparr>"
  define s2 where "s2 = (open_switch_flag s1)\<lparr>shell_pc := Shell_Idle\<rparr>"
  have "shell_pc appex = Shell_Idle" by code_simp
  then have "undisturbed appex s1" "undisturbed s1 s2"
    using app_step.shell_opens [of appex] app_step.shell_opened [of s1]
    by (simp_all add: undisturbed_def s1_def s2_def)
  then have r: "undisturbed\<^sup>*\<^sup>* appex s2" by simp
  have "shell_pc s2 = Shell_Idle" "relay_switch_isOn s2 = 1" by (simp_all add: s2_def open_switch_flag_def)
  then show ?thesis using relay_follows [OF appex_main r] r by auto
qed

text \<open>The race: the shell command open_switch has written the pin and is preempted by the modem thread,
  which closes the contact; when the shell goes on, the flag says on and the relay is off.\<close>

lemma uart1_bytes_reach: "uart1_bytes xs s = Some s' \<Longrightarrow> uart1_open s \<Longrightarrow> app_step\<^sup>*\<^sup>* s s'"
proof (induction xs arbitrary: s)
  case (Cons x xs)
  then obtain s1 where "uart1_byte x s = Some s1" "uart1_bytes xs s1 = Some s'" by (auto simp: bind_eq_Some_conv)
  then show ?case
    using Cons.IH [of s1] Cons.prems(2) uart1_byte_place(2) [of x s s1] app_step.uart1_reads [of s x s1]
    by (metis converse_rtranclp_into_rtranclp)
qed simp

definition race_line :: string where
  "race_line = ''+QMTRECV: {\"deviceType\":\"DoorContact\",\"s\":0}}}'' @ crlf"

definition race_start :: app where
  "race_start = (open_switch_pin (uart1_begin (nb101_uart1 (Some 2) appex)))\<lparr>shell_pc := Shell_Opening\<rparr>"

lemma relay_race:
  "\<exists>s. app_step\<^sup>*\<^sup>* appex s \<and> shell_pc s = Shell_Idle \<and> relay_switch_isOn s = 1 \<and> relay_level (calls s) = Some PIN_HIGH"
proof -
  define s1 where "s1 = nb101_uart1 (Some 2) appex"
  define s2 where "s2 = uart1_begin s1"
  have pc: "shell_pc appex = Shell_Idle" "my_usart1_thread s1 \<noteq> None" "\<not> uart1_open s1" "shell_pc s2 = Shell_Idle"
    unfolding s1_def s2_def by code_simp+
  have a: "app_step appex s1" "app_step s1 s2" "app_step s2 race_start"
    using app_step.shell_uart1 [OF pc(1)] app_step.uart1_starts [OF pc(2,3)] app_step.shell_opens [OF pc(4)]
    by (simp_all add: s1_def s2_def race_start_def)
  have "map_option (\<lambda>s. (shell_pc s, relay_level (calls s))) (uart1_bytes race_line race_start) = Some (Shell_Opening, Some 1)"
    by code_simp
  then obtain s4 where s4: "uart1_bytes race_line race_start = Some s4" "shell_pc s4 = Shell_Opening" "relay_level (calls s4) = Some 1"
    by auto
  have "uart1_open race_start" by (simp add: race_start_def uart1_begin_def open_switch_pin_def)
  then have "app_step\<^sup>*\<^sup>* race_start s4" by (rule uart1_bytes_reach [OF s4(1)])
  moreover have "app_step\<^sup>*\<^sup>* appex race_start" using a by (meson converse_rtranclp_into_rtranclp rtranclp.rtrancl_refl)
  moreover have "app_step s4 ((open_switch_flag s4)\<lparr>shell_pc := Shell_Idle\<rparr>)" by (rule app_step.shell_opened [OF s4(2)])
  ultimately have "app_step\<^sup>*\<^sup>* appex ((open_switch_flag s4)\<lparr>shell_pc := Shell_Idle\<rparr>)"
    by (meson rtranclp.rtrancl_into_rtrancl rtranclp_trans)
  then show ?thesis using s4(3) by (intro exI) (auto simp: open_switch_flag_def)
qed

theorem door_command_witness:
  "\<exists>s'. uart1_bytes door_line appex = Some s' \<and> relay_switch_isOn s' = 1 \<and> relay_ok s' \<and>
     written Uart1 (calls s') = [onPropertyStr, end_str]"
proof -
  have "line_in appex []" "my_nb101_connect_thread appex = None" "relay_ok appex" "modem_line door_line"
    "occurs door_cmd door_line" "CHR ''1'' = door_line ! (length door_line - 6)" "written Uart1 (calls appex) = []"
    by code_simp+
  then show ?thesis using door_command [of appex door_line "CHR ''1''"] by auto
qed

theorem uart1_overruns_witness: "uart1_bytes (replicate 100 (CHR ''x'')) appex = None"
proof -
  have "line_in appex []" "100 \<le> length (replicate 100 (CHR ''x''))" "\<not> occurs crlf (take 99 (replicate 100 (CHR ''x'')))"
    by code_simp+
  then show ?thesis by (rule uart1_overruns)
qed

lemma loginex_at: "login_at False (Waiting 2) loginex" "rx_sem_connect loginex = 0"
  by code_simp+

lemma login_lines_ok: "\<forall>r\<in>set login_lines. modem_line r \<and> CHR ''%'' \<notin> set r"
  by code_simp

theorem login_protocol_witness:
  "\<exists>s'. login_run login_lines loginex = Some s' \<and> my_nb101_connect_thread s' = None \<and>
     written Uart1 (calls s') = command_text 1 # map command_text [2..<8] @ [uploadOnandDoorOffDataStr, end_str]"
proof -
  have f: "fst (login_spec False 2 login_lines) = Finished" by code_simp
  obtain cs where cs: "login_spec False 2 login_lines = (Finished, cs)"
    using f by (cases "login_spec False 2 login_lines") simp
  have "written Uart1 (calls loginex) = [command_text 1]" by code_simp
  then show ?thesis
    using login_protocol [OF loginex_at(1) login_lines_ok cs] by (auto simp: login_at_def status_text_def)
qed

theorem stale_reply_overruns_witness:
  "\<exists>s1 s2 s3. uart1_bytes (crlf @ ''OK'' @ crlf) loginex = Some s1 \<and> connect_reply 2 s1 = Some s2 \<and>
     connect_reply 3 s2 = Some s3 \<and> Dev_Write Uart3 (uart1_global_receivedStrs s2) 0xffffffff \<in> set (calls s3)"
proof -
  have "modem_line crlf" "modem_line (''OK'' @ crlf)" "login_next False 2 (''OK'' @ crlf) = (Waiting 3, [command_text 2])"
    by code_simp+
  then show ?thesis
    using stale_reply_overruns [OF loginex_at, of crlf "''OK'' @ crlf" 3 "[command_text 2]"] by blast
qed

end
