(* ===== verification/Spec2Isabelle.thy ===== *)
theory Spec2Isabelle
  imports Ring_Buffer Scheduling Startup Mq_Pieces Memory_Pool Kernel_Heap Serial Console Heap_Align Mem_Heap_Realloc Door_System
begin

text \<open>
  A verification development for the firmware of this repository: the RT-Thread 4.0 kernel in the
  configuration of \<open>bsp/stm32f4xx-HAL/rtconfig.h\<close> and the application that runs on it, a door
  contact controlled through a narrow-band modem.

  \<^bold>\<open>The program and its parts.\<close> The kernel (\<open>src/\<close>) schedules threads by priority, keeps
  the time, and offers semaphores, mutexes, events, mailboxes, message queues, memory pools, a heap
  and devices. Every kernel object carries a header that links it into a list of its class
  (\<open>object.c\<close>). A thread that waits is taken from the ready lists (\<open>scheduler.c\<close>), linked into the
  waiting list of the object (\<open>ipc.c\<close>), and given a timer (\<open>timer.c\<close>); the object or the clock
  interrupt (\<open>clock.c\<close>) wakes it. The device drivers use completions, data queues and ring buffers
  (\<open>components/drivers/src\<close>). The application (\<open>bsp/stm32f4xx-HAL/applications\<close> and \<open>mypackages\<close>)
  is a handful of threads and shell commands that call all of this.

  \<^bold>\<open>The model.\<close> The state of the kernel is the record \<open>kernel\<close> of \<open>Kernel_State\<close>: object headers
  and control blocks in maps from their numbers, the thread lists by the name of their head, and the
  global variables. Each C function is a definition of its own name on that state. Numbers keep
  their width as machine words. The result \<open>None\<close> stands for a run that never returns properly: a
  failed \<open>RT_ASSERT\<close>, a null pointer, an index out of its array, or a loop that does not end (such
  loops are \<open>partial_function (option)\<close>; no fuel is used). A call that blocks ends at its
  \<open>rt_schedule\<close> with the outcome \<open>Block\<close>, and what the thread does when it runs again is a function
  with the suffix \<open>wake\<close>; a call that does not block has the outcome \<open>Done\<close>. Each such piece is one
  step of the model. The source disables interrupts in its critical sections but not around whole
  pieces: they are enabled between the critical section of a blocking or waking call and its
  \<open>rt_schedule\<close>, and inside \<open>rt_mq_send\<close>, \<open>rt_mq_urgent\<close> and \<open>rt_mq_recv\<close> while a slot is filled or
  emptied. Interrupts and calls in the first kind of window are not covered; those in the second are
  the subject of \<open>Mq_Pieces\<close>. Code that is not part of the model is an argument: the functions called by
  timers (\<open>user\<close>) and by the cleanup of a thread (\<open>clean\<close>), the answers of the allocator for control
  blocks and stacks (\<open>fresh\<close>, \<open>stack_start\<close>), the initialisation of the board (\<open>board\<close>), the functions
  of a driver (\<open>rt_device_ops\<close>), notifications (\<open>notify\<close>) and the output of the board
  (\<open>hw_output\<close>).

  \<^bold>\<open>The theories.\<close>
  \<^item> \<open>Prelude\<close>: integer types, error codes, alignment, shared lemmas. \<open>Rt_List\<close>: the intrusive lists
    of \<open>include/rtservice.h\<close> on a heap of pointers, and the interface \<open>node_lists\<close> through which the
    kernel state uses them. \<open>Fifo_Spec\<close>, \<open>Simulation\<close>, \<open>Allocator\<close>, \<open>Chains\<close>: the interfaces of
    bounded queues, of simulations and transition systems, of allocators, and linked chains.
  \<^item> \<open>Rt_Ffs\<close>: the table-driven bit search of \<open>kservice.c\<close>. \<open>Kernel_State\<close>, \<open>Objects\<close>, \<open>Scheduler\<close>,
    \<open>Rt_Timer\<close>, \<open>Rt_Thread\<close>, \<open>Clock\<close>: the kernel state with \<open>object.c\<close>, \<open>scheduler.c\<close>, \<open>timer.c\<close>,
    \<open>thread.c\<close>, \<open>clock.c\<close> and \<open>irq.c\<close>; every operation keeps the kernel invariant \<open>kinv\<close>, which
    says that lists, states, bitmap and timers agree.
  \<^item> \<open>Ipc_Common\<close>, \<open>Semaphore\<close>, \<open>Mutex\<close>, \<open>Event\<close>, \<open>Mailbox\<close>, \<open>Message_Queue\<close>, \<open>Memory_Pool\<close>: \<open>ipc.c\<close>
    and \<open>mempool.c\<close>; what each object promises its callers on every branch, the mailbox as a bounded
    queue, the linked message pool as a bounded deque, the pool as an allocator. \<open>Mq_Pieces\<close>: the calls
    of the message queue cut at the points where interrupts are enabled, any number of them under way at
    once: the slots of the pool stay partitioned, messages change only where a slot is linked or
    unlinked, and no piece faults.
  \<^item> \<open>Ticking\<close>, \<open>Scheduling\<close>, \<open>Thread_Life\<close>, \<open>System\<close>, \<open>Startup\<close>: what the parts promise together. A
    sleeping thread wakes, equal priorities take turns, the idle thread of \<open>idle.c\<close> frees what has
    ended; every sequence of the calls on semaphores, mutexes, events, mailboxes, message queues, timers
    and threads that \<open>System\<close> lists, of clock interrupts and reschedulings keeps the invariant of
    the whole system and never faults, provided that the functions called by timers keep the kernel
    consistent; \<open>rtthread_startup\<close> of \<open>components.c\<close> reaches such a state.
  \<^item> \<open>Small_Mem\<close>, \<open>Heap_Realloc\<close>, \<open>Kernel_Heap\<close>, \<open>Heap_Align\<close>: the heap of \<open>mem.c\<close> on headers with
    32-bit offsets, \<open>rt_realloc\<close> and \<open>rt_calloc\<close> with the contents of the blocks, the same calls with
    the semaphore that guards them, and the aligned allocation of \<open>kservice.c\<close>.
  \<^item> \<open>Mem_Heap\<close>, \<open>Mem_Heap_Realloc\<close>: the heap objects of \<open>memheap.c\<close>, on the rings of their items:
    allocation, release with merging, and resizing, as an allocator of disjoint blocks.
  \<^item> \<open>Memory_Ops\<close>, \<open>Rt_String\<close>, \<open>Rt_Printf\<close>: memory, string and formatting functions of \<open>kservice.c\<close>
    on a memory of bytes (\<open>char\<close> is unsigned on this processor), with the word-wise loops proved equal
    to their bytewise meaning and \<open>rt_vsnprintf\<close> to a text function.
  \<^item> \<open>Ring_Buffer\<close>, \<open>Completion\<close>, \<open>Data_Queue\<close>, \<open>Device\<close>, \<open>Serial\<close>, \<open>Console\<close>: the driver
    framework: \<open>ringbuffer.c\<close>, \<open>completion.c\<close>, \<open>dataqueue.c\<close>, \<open>device.c\<close>, \<open>serial.c\<close> over the functions
    of a chip, and the console part of \<open>kservice.c\<close>.
  \<^item> \<open>Door_App\<close>, \<open>Door_System\<close>: the application. Its calls into the kernel are recorded in order with
    their arguments. A step is what a thread does from one wait for a byte, an answer, a delay or a
    command to the next; waits for the print mutex inside it are not separate steps. The switch
    commands of the shell are two steps, since the modem thread can preempt the shell between its write
    to the pin and to the flag: flag and pin agree in the runs where it does not switch the relay there,
    and a run where it does and they disagree is shown. The login is followed for lines that are handled
    one by one; what a burst of lines does is a theorem of its own. The serial devices are taken to be
    found.
  \<^item> \<open>Example_State\<close>: a concrete kernel state on which the results are evaluated.

  \<^bold>\<open>What the theorems show.\<close> Invariants of the whole kernel under the steps of \<open>System\<close>, and of the
  application in the runs without the race on its relay; absence of faults; that queues, pools, heap, devices and lists refine their abstract
  specifications over every sequence of calls (the mailbox, the queues and the pool for calls that do
  not wait, the data queue while its counter does not run over, the device for drivers that succeed); that loops end, or in one case do not; round trips of
  names, numbers and blocks; liveness of sleeping and of yielding; and, as theorems about concrete
  inputs, the places where the code does not do what it means to: a timed out wait on a memory pool,
  line buffers and messages of the application that are overrun.
  Further defects are lemmas of their components.

  \<^bold>\<open>Not modelled.\<close> The multi-core kernel, signals, soft timers and the slab allocator are not
  configured. Hooks only observe. The vendor library, register access and interrupt entry are
  hardware; of the processor support only the initial stack pointer is modelled. Pipes, work
  queues, wait queues and block ring buffers are used by no part of the firmware, and of the heap
  objects the header and the lock are left out. The shell, file systems and network stacks are
  outside the kernel, and the initialisation tables are made by the
  linker. The heaps keep the headers of blocks apart from their contents: a client that writes
  outside its block is not covered.
\<close>

end
